(* ===== verification/Prelude.thy ===== *)
theory Prelude
  imports Main "HOL-Library.AList" "HOL-Library.Multiset" "HOL-Library.Word"
    "HOL-Library.List_Lexorder" "HOL-Library.Product_Lexorder"
begin

text \<open>
  What the component theories share: the exceptions the Python code raises as a datatype
  and computations that may raise as a sum (\<open>Inl\<close> the exception, \<open>Inr\<close> the value), the
  bind that stops at the first exception, Python's insertion-ordered dictionaries as
  association lists, and generic lemmas on lists and dictionaries.
\<close>

section \<open>Exceptions and fallible computations\<close>

text \<open>
  The string is the beginning of the message at the raise site.  \<open>NonTermination\<close> is not a
  Python exception: it is the value of a fuelled loop that has run out of fuel, and the
  theorems of the components show that it is never returned from a well-formed state.
\<close>

text \<open>The subclasses of \<open>ChainCacheError\<close> (\<^verbatim>\<open>engine/chain_cache.py\<close>).\<close>

datatype chain_error = ChainNotFound | ChainBusy | ChainPrefixMismatch | ChainFingerprintMismatch | ChainGone
  | ChainCapacity | ChainOwnerMismatch | ChainMode

datatype py_error =
    RuntimeError string
  | KeyError string
  | ValueError string
  | TypeError string
  | AttributeError string
  | StructError string
  | ZeroDivisionError
  | AsyncDrainRequired string
  | OverflowError string
  | ChainCacheError chain_error string
  | IndexError string
  | NonTermination

type_synonym 'a result = "py_error + 'a"

definition rbind :: "'a result \<Rightarrow> ('a \<Rightarrow> 'b result) \<Rightarrow> 'b result" where
  "rbind m f = (case m of Inl e \<Rightarrow> Inl e | Inr x \<Rightarrow> f x)"

named_theorems result_simps \<open>rewriting of fallible computations\<close>

lemma rbind_Inl [simp, result_simps]: "rbind (Inl e) f = Inl e"
  by (simp add: rbind_def)

lemma rbind_Inr [simp, result_simps]: "rbind (Inr x) f = f x"
  by (simp add: rbind_def)

lemma rbind_eq_Inr [result_simps]:
  "rbind m f = Inr y \<longleftrightarrow> (\<exists>x. m = Inr x \<and> f x = Inr y)"
  by (cases m) (auto simp: rbind_def)

lemma rbind_eq_Inl:
  "rbind m f = Inl e \<longleftrightarrow> m = Inl e \<or> (\<exists>x. m = Inr x \<and> f x = Inl e)"
  by (cases m) (auto simp: rbind_def)

lemma rbind_assoc: "rbind (rbind m f) g = rbind m (\<lambda>x. rbind (f x) g)"
  by (cases m) (auto simp: rbind_def)

lemma rbind_cong [fundef_cong]:
  "m = m' \<Longrightarrow> (\<And>x. m' = Inr x \<Longrightarrow> f x = f' x) \<Longrightarrow> rbind m f = rbind m' f'"
  by (cases m') (auto simp: rbind_def)

text \<open>A loop body run over a list, stopping at the first exception.\<close>

fun rfold :: "('a \<Rightarrow> 's \<Rightarrow> 's result) \<Rightarrow> 'a list \<Rightarrow> 's \<Rightarrow> 's result" where
  "rfold f [] s = Inr s"
| "rfold f (x # xs) s = rbind (f x s) (rfold f xs)"

lemma rfold_invariant:
  assumes "rfold f xs s = Inr t" and "P s"
    and "\<And>x s s'. x \<in> set xs \<Longrightarrow> P s \<Longrightarrow> f x s = Inr s' \<Longrightarrow> P s'"
  shows "P t"
  using assms
proof (induction xs arbitrary: s)
  case Nil
  then show ?case by simp
next
  case (Cons x xs)
  from Cons.prems(1) obtain s' where s': "f x s = Inr s'" and rest: "rfold f xs s' = Inr t"
    by (auto simp: rbind_eq_Inr)
  have "P s'" using Cons.prems(2) s' by (rule Cons.prems(3) [rotated]) simp
  with rest show ?case
    using Cons.prems(3) by (intro Cons.IH) (auto intro: list.set_intros)
qed

section \<open>Bytes and block identifiers\<close>

type_synonym byte = "8 word"
type_synonym bytes = "byte list"
type_synonym block_id = bytes
type_synonym addr = nat

section \<open>Dictionaries\<close>

text \<open>
  A Python dictionary keeps its keys in insertion order: assigning to an existing key keeps
  its position, a new key goes to the end.  This is what \<open>AList.update\<close> does;
  \<open>AList.delete\<close> is \<open>del d[k]\<close> (and \<open>d.pop(k, None)\<close>) and \<open>map_of\<close> is \<open>d.get\<close>.
\<close>

type_synonym ('k, 'v) dict = "('k \<times> 'v) list"

abbreviation dict_ok :: "('k, 'v) dict \<Rightarrow> bool" where
  "dict_ok d \<equiv> distinct (map fst d)"

named_theorems dict_simps \<open>lookups after dictionary updates\<close>

lemma map_of_update [dict_simps]: "map_of (AList.update k v d) = (map_of d)(k \<mapsto> v)"
  by (rule update_conv')

lemma map_of_delete [dict_simps]: "map_of (AList.delete k d) = (map_of d)(k := None)"
  by (rule delete_conv')

lemma dict_ok_update [simp, intro]: "dict_ok d \<Longrightarrow> dict_ok (AList.update k v d)"
  by (rule distinct_update)

lemma dict_ok_delete [simp, intro]: "dict_ok d \<Longrightarrow> dict_ok (AList.delete k d)"
  by (rule distinct_delete)

lemma length_dict: "dict_ok d \<Longrightarrow> length d = card (dom (map_of d))"
  by (metis distinct_card dom_map_of_conv_image_fst length_map list.set_map)

lemma length_update_new: "map_of d k = None \<Longrightarrow> length (AList.update k v d) = Suc (length d)"
  by (induction d) (auto split: if_splits)

lemma length_delete_present:
  assumes "dict_ok d" and "map_of d k = Some v"
  shows "Suc (length (AList.delete k d)) = length d"
proof -
  have "length (AList.delete k d) = card (dom (map_of d) - {k})"
    using assms(1) by (simp add: length_dict [OF dict_ok_delete] map_of_delete)
  moreover have "k \<in> dom (map_of d)" using assms(2) by blast
  ultimately show ?thesis
    using assms(1) by (simp only: length_dict) (rule card_Suc_Diff1 [OF finite_dom_map_of])
qed

lemma update_new_append: "map_of d k = None \<Longrightarrow> AList.update k v d = d @ [(k, v)]"
  by (induction d) (auto split: if_splits)

lemma keys_dict: "set (map fst d) = dom (map_of d)"
  by (simp add: dom_map_of_conv_image_fst)

lemma dict_items: "dict_ok d \<Longrightarrow> (k, v) \<in> set d \<longleftrightarrow> map_of d k = Some v"
  by (rule map_of_eq_Some_iff [symmetric])

text \<open>Lookups stay lookups: proofs reason about \<open>map_of\<close>, not about pairs in the list.\<close>

declare map_of_eq_Some_iff [simp del] Some_eq_map_of_iff [simp del]

lemma dict_values: "dict_ok d \<Longrightarrow> v \<in> set (map snd d) \<longleftrightarrow> (\<exists>k. map_of d k = Some v)"
  by (force simp: dict_items [symmetric])

section \<open>Lists\<close>

lemma last_append_single_neq: "xs \<noteq> [] \<Longrightarrow> last xs = xs ! (length xs - 1)"
  by (rule last_conv_nth)

lemma card_filter_distinct: "distinct xs \<Longrightarrow> length (filter P xs) = card {x \<in> set xs. P x}"
  by (metis distinct_card distinct_filter set_filter)

end
