(* ===== verification/State_Result.thy ===== *)
theory State_Result
  imports Prelude
begin

text \<open>
  Methods that change an object and may raise: a function from the state to the result and
  the state it leaves behind.  Python keeps what was changed before an exception, so the
  state is returned on both branches, and an invariant is an invariant of the code only when
  it holds after an exception too.  The collection \<open>keeps\<close> proves invariance by composition.
\<close>

type_synonym ('s, 'a) op = "'s \<Rightarrow> 'a result \<times> 's"

definition ret :: "'a \<Rightarrow> ('s, 'a) op" where
  "ret x s = (Inr x, s)"

definition raise_error :: "py_error \<Rightarrow> ('s, 'a) op" where
  "raise_error e s = (Inl e, s)"

definition obind :: "('s, 'a) op \<Rightarrow> ('a \<Rightarrow> ('s, 'b) op) \<Rightarrow> ('s, 'b) op" where
  "obind m f s = (case m s of (Inl e, s') \<Rightarrow> (Inl e, s') | (Inr x, s') \<Rightarrow> f x s')"

definition oseq :: "('s, 'a) op \<Rightarrow> ('s, 'b) op \<Rightarrow> ('s, 'b) op" where
  "oseq m n = obind m (\<lambda>_. n)"

definition reads :: "('s \<Rightarrow> 'a) \<Rightarrow> ('s, 'a) op" where
  "reads f s = (Inr (f s), s)"

definition writes :: "('s \<Rightarrow> 's) \<Rightarrow> ('s, unit) op" where
  "writes f s = (Inr (), f s)"

definition lift_result :: "('s \<Rightarrow> 'a result) \<Rightarrow> ('s, 'a) op" where
  "lift_result f s = (f s, s)"

text \<open>\<open>if cond: raise e\<close>\<close>

definition raise_if :: "bool \<Rightarrow> py_error \<Rightarrow> ('s, unit) op" where
  "raise_if c e = (if c then raise_error e else ret ())"

text \<open>A \<open>for\<close> loop, and a comprehension.\<close>

fun ofor :: "'a list \<Rightarrow> ('a \<Rightarrow> ('s, unit) op) \<Rightarrow> ('s, unit) op" where
  "ofor [] f = ret ()"
| "ofor (x # xs) f = oseq (f x) (ofor xs f)"

fun omap :: "('a \<Rightarrow> ('s, 'b) op) \<Rightarrow> 'a list \<Rightarrow> ('s, 'b list) op" where
  "omap f [] = ret []"
| "omap f (x # xs) = obind (f x) (\<lambda>y. obind (omap f xs) (\<lambda>ys. ret (y # ys)))"

named_theorems op_simps \<open>running methods\<close>

lemma run_ret [simp, op_simps]: "ret x s = (Inr x, s)" by (simp add: ret_def)
lemma run_raise [simp, op_simps]: "raise_error e s = (Inl e, s)" by (simp add: raise_error_def)
lemma run_reads [simp, op_simps]: "reads f s = (Inr (f s), s)" by (simp add: reads_def)
lemma run_writes [simp, op_simps]: "writes f s = (Inr (), f s)" by (simp add: writes_def)
lemma run_lift [simp, op_simps]: "lift_result f s = (f s, s)" by (simp add: lift_result_def)
lemma run_raise_if [simp, op_simps]: "raise_if c e s = (if c then Inl e else Inr (), s)" by (simp add: raise_if_def)

lemma obind_Inr [op_simps]: "m s = (Inr x, s') \<Longrightarrow> obind m f s = f x s'" by (simp add: obind_def)
lemma obind_Inl [op_simps]: "m s = (Inl e, s') \<Longrightarrow> obind m f s = (Inl e, s')" by (simp add: obind_def)
lemma oseq_Inr [op_simps]: "m s = (Inr x, s') \<Longrightarrow> oseq m n s = n s'" by (simp add: oseq_def obind_def)
lemma oseq_Inl [op_simps]: "m s = (Inl e, s') \<Longrightarrow> oseq m n s = (Inl e, s')" by (simp add: oseq_def obind_def)

text \<open>A method keeps an invariant when it holds afterwards, exception or not.\<close>

definition keeps :: "('s \<Rightarrow> bool) \<Rightarrow> ('s, 'a) op \<Rightarrow> bool" where
  "keeps P m \<longleftrightarrow> (\<forall>s. P s \<longrightarrow> P (snd (m s)))"

named_theorems keeps_intro \<open>invariance of methods\<close>

lemma keepsI: "(\<And>s. P s \<Longrightarrow> P (snd (m s))) \<Longrightarrow> keeps P m" by (simp add: keeps_def)

lemma keepsD: "keeps P m \<Longrightarrow> P s \<Longrightarrow> P (snd (m s))" by (simp add: keeps_def)

lemma keepsE: "keeps P m \<Longrightarrow> m s = (r, s') \<Longrightarrow> P s \<Longrightarrow> P s'" by (metis keeps_def snd_conv)

lemma keeps_ret [keeps_intro]: "keeps P (ret x)" by (simp add: keeps_def)
lemma keeps_raise [keeps_intro]: "keeps P (raise_error e)" by (simp add: keeps_def)
lemma keeps_reads [keeps_intro]: "keeps P (reads f)" by (simp add: keeps_def)
lemma keeps_lift [keeps_intro]: "keeps P (lift_result f)" by (simp add: keeps_def)
lemma keeps_raise_if [keeps_intro]: "keeps P (raise_if c e)" by (simp add: keeps_def)

lemma keeps_writes: "(\<And>s. P s \<Longrightarrow> P (f s)) \<Longrightarrow> keeps P (writes f)" by (simp add: keeps_def)

lemma keeps_obind [keeps_intro]: "keeps P m \<Longrightarrow> (\<And>x. keeps P (f x)) \<Longrightarrow> keeps P (obind m f)"
  by (auto simp: keeps_def obind_def split: prod.splits sum.splits)

lemma keeps_oseq [keeps_intro]: "keeps P m \<Longrightarrow> keeps P n \<Longrightarrow> keeps P (oseq m n)"
  unfolding oseq_def by (rule keeps_obind)

lemma keeps_if [keeps_intro]: "(c \<Longrightarrow> keeps P m) \<Longrightarrow> (\<not> c \<Longrightarrow> keeps P n) \<Longrightarrow> keeps P (if c then m else n)" by simp

lemma keeps_ofor [keeps_intro]: "(\<And>x. x \<in> set xs \<Longrightarrow> keeps P (f x)) \<Longrightarrow> keeps P (ofor xs f)"
  by (induction xs) (auto intro: keeps_intro)

lemma keeps_omap [keeps_intro]: "(\<And>x. x \<in> set xs \<Longrightarrow> keeps P (f x)) \<Longrightarrow> keeps P (omap f xs)"
  by (induction xs) (auto intro!: keeps_intro)

text \<open>A method that only reads leaves the state alone.\<close>

lemma keeps_option [keeps_intro]:
  "(x = None \<Longrightarrow> keeps P m) \<Longrightarrow> (\<And>y. x = Some y \<Longrightarrow> keeps P (f y)) \<Longrightarrow> keeps P (case x of None \<Rightarrow> m | Some y \<Rightarrow> f y)"
  by (cases x) auto

end
