(* ===== verification/Routing_Membership.thy ===== *)
theory Routing_Membership
  imports Prelude
begin

text \<open>
  The immutable AVL set of block ids that routing snapshots share
  (\<open>_PrefixCacheRoutingMembershipNode\<close>, its helper functions and
  \<open>_PrefixCacheRoutingMembership\<close> of \<^verbatim>\<open>engine/prefix_cache.py\<close>).  A node stores its height;
  rotations and rebalancing raise when a pivot is missing, so they are fallible here too.
  The lemmas show that on balanced search trees nothing is raised, that insertion and
  removal are insertion and removal on the set of ids, that balance is kept, and that the
  height is logarithmic in the number of live blocks.
\<close>

section \<open>Model\<close>

datatype 'b routing_node =
    NoNode
  | RNode 'b "'b routing_node" "'b routing_node" int

fun routing_membership_height :: "'b routing_node \<Rightarrow> int" where
  "routing_membership_height NoNode = 0"
| "routing_membership_height (RNode b l r h) = h"

definition make_routing_membership_node ::
  "'b \<Rightarrow> 'b routing_node \<Rightarrow> 'b routing_node \<Rightarrow> 'b routing_node" where
  "make_routing_membership_node b l r =
     RNode b l r (1 + max (routing_membership_height l) (routing_membership_height r))"

fun rotate_routing_membership_left :: "'b routing_node \<Rightarrow> 'b routing_node result" where
  "rotate_routing_membership_left NoNode = Inl (AttributeError ''right'')"
| "rotate_routing_membership_left (RNode b l NoNode h) =
     Inl (RuntimeError ''Cannot rotate prefix-cache routing membership left.'')"
| "rotate_routing_membership_left (RNode b l (RNode pb pl pr ph) h) =
     (let moved = make_routing_membership_node b l pl
      in Inr (make_routing_membership_node pb moved pr))"

fun rotate_routing_membership_right :: "'b routing_node \<Rightarrow> 'b routing_node result" where
  "rotate_routing_membership_right NoNode = Inl (AttributeError ''left'')"
| "rotate_routing_membership_right (RNode b NoNode r h) =
     Inl (RuntimeError ''Cannot rotate prefix-cache routing membership right.'')"
| "rotate_routing_membership_right (RNode b (RNode pb pl pr ph) r h) =
     (let moved = make_routing_membership_node b pr r
      in Inr (make_routing_membership_node pb pl moved))"

fun balance_routing_membership :: "'b routing_node \<Rightarrow> 'b routing_node result" where
  "balance_routing_membership NoNode = Inl (AttributeError ''left'')"
| "balance_routing_membership (RNode b l r h) =
     (let balance = routing_membership_height l - routing_membership_height r in
      if balance > 1 then
        (case l of
           NoNode \<Rightarrow> Inl (RuntimeError ''Invalid left-heavy prefix-cache routing membership.'')
         | RNode lb ll lr lh \<Rightarrow>
             if routing_membership_height ll < routing_membership_height lr
             then rbind (rotate_routing_membership_left l)
                    (\<lambda>l'. rotate_routing_membership_right (make_routing_membership_node b l' r))
             else rotate_routing_membership_right (RNode b l r h))
      else if balance < - 1 then
        (case r of
           NoNode \<Rightarrow> Inl (RuntimeError ''Invalid right-heavy prefix-cache routing membership.'')
         | RNode rb rl rr rh \<Rightarrow>
             if routing_membership_height rr < routing_membership_height rl
             then rbind (rotate_routing_membership_right r)
                    (\<lambda>r'. rotate_routing_membership_left (make_routing_membership_node b l r'))
             else rotate_routing_membership_left (RNode b l r h))
      else Inr (RNode b l r h))"

fun insert_routing_membership ::
  "'b::linorder routing_node \<Rightarrow> 'b \<Rightarrow> ('b routing_node \<times> bool) result" where
  "insert_routing_membership NoNode x = Inr (RNode x NoNode NoNode 1, True)"
| "insert_routing_membership (RNode b l r h) x =
     (if x = b then Inr (RNode b l r h, False)
      else if x < b then
        rbind (insert_routing_membership l x) (\<lambda>(l', inserted).
          if \<not> inserted then Inr (RNode b l r h, False)
          else rbind (balance_routing_membership (make_routing_membership_node b l' r))
                 (\<lambda>t. Inr (t, True)))
      else
        rbind (insert_routing_membership r x) (\<lambda>(r', inserted).
          if \<not> inserted then Inr (RNode b l r h, False)
          else rbind (balance_routing_membership (make_routing_membership_node b l r'))
                 (\<lambda>t. Inr (t, True))))"

text \<open>The \<open>while node.left is not None\<close> loop, returning the id of the leftmost node.\<close>

fun minimum_routing_membership_node :: "'b \<Rightarrow> 'b routing_node \<Rightarrow> 'b" where
  "minimum_routing_membership_node b NoNode = b"
| "minimum_routing_membership_node b (RNode lb ll lr lh) = minimum_routing_membership_node lb ll"

fun remove_routing_membership ::
  "'b::linorder routing_node \<Rightarrow> 'b \<Rightarrow> ('b routing_node \<times> bool) result" where
  "remove_routing_membership NoNode x = Inr (NoNode, False)"
| "remove_routing_membership (RNode b l r h) x =
     (if x < b then
        rbind (remove_routing_membership l x) (\<lambda>(l', removed).
          if \<not> removed then Inr (RNode b l r h, False)
          else rbind (balance_routing_membership (make_routing_membership_node b l' r))
                 (\<lambda>t. Inr (t, True)))
      else if x > b then
        rbind (remove_routing_membership r x) (\<lambda>(r', removed).
          if \<not> removed then Inr (RNode b l r h, False)
          else rbind (balance_routing_membership (make_routing_membership_node b l r'))
                 (\<lambda>t. Inr (t, True)))
      else
        (case l of NoNode \<Rightarrow> Inr (r, True)
         | RNode lb ll lr lh \<Rightarrow>
             (case r of NoNode \<Rightarrow> Inr (l, True)
              | RNode rb rl rr rh \<Rightarrow>
                  (let successor = minimum_routing_membership_node rb rl in
                   rbind (remove_routing_membership r successor) (\<lambda>(r', removed).
                     if \<not> removed
                     then Inl (RuntimeError ''Failed to remove prefix-cache routing membership successor.'')
                     else rbind (balance_routing_membership
                                   (make_routing_membership_node successor l r'))
                            (\<lambda>t. Inr (t, True)))))))"

text \<open>\<open>_PrefixCacheRoutingMembership\<close>: the root and the number of live blocks.\<close>

record 'b routing_membership =
  root :: "'b routing_node"
  live_blocks :: int

definition empty_membership :: "'b routing_membership" where
  "empty_membership = \<lparr>root = NoNode, live_blocks = 0\<rparr>"

fun contains_node :: "'b::linorder routing_node \<Rightarrow> 'b \<Rightarrow> bool" where
  "contains_node NoNode x = False"
| "contains_node (RNode b l r h) x =
     (if x = b then True else if x < b then contains_node l x else contains_node r x)"

definition membership_contains :: "'b::linorder routing_membership \<Rightarrow> 'b \<Rightarrow> bool" where
  "membership_contains m x = contains_node (root m) x"

definition membership_insert ::
  "'b::linorder routing_membership \<Rightarrow> 'b \<Rightarrow> 'b routing_membership result" where
  "membership_insert m x =
     rbind (insert_routing_membership (root m) x) (\<lambda>(t, inserted).
       if \<not> inserted
       then Inl (RuntimeError ''Prefix-cache routing membership already contains inserted block.'')
       else Inr \<lparr>root = t, live_blocks = live_blocks m + 1\<rparr>)"

definition membership_remove ::
  "'b::linorder routing_membership \<Rightarrow> 'b \<Rightarrow> 'b routing_membership result" where
  "membership_remove m x =
     rbind (remove_routing_membership (root m) x) (\<lambda>(t, removed).
       if \<not> removed
       then Inl (RuntimeError ''Prefix-cache routing membership is missing removed block.'')
       else Inr \<lparr>root = t, live_blocks = live_blocks m - 1\<rparr>)"

section \<open>Invariant\<close>

fun node_ids :: "'b routing_node \<Rightarrow> 'b set" where
  "node_ids NoNode = {}"
| "node_ids (RNode b l r h) = insert b (node_ids l \<union> node_ids r)"

fun node_count :: "'b routing_node \<Rightarrow> nat" where
  "node_count NoNode = 0"
| "node_count (RNode b l r h) = Suc (node_count l + node_count r)"

fun search_tree :: "'b::linorder routing_node \<Rightarrow> bool" where
  "search_tree NoNode = True"
| "search_tree (RNode b l r h) =
     (search_tree l \<and> search_tree r \<and> (\<forall>x \<in> node_ids l. x < b) \<and> (\<forall>x \<in> node_ids r. b < x))"

fun balanced :: "'b routing_node \<Rightarrow> bool" where
  "balanced NoNode = True"
| "balanced (RNode b l r h) =
     (balanced l \<and> balanced r
      \<and> h = 1 + max (routing_membership_height l) (routing_membership_height r)
      \<and> \<bar>routing_membership_height l - routing_membership_height r\<bar> \<le> 1)"

definition node_ok :: "'b::linorder routing_node \<Rightarrow> bool" where
  "node_ok t \<longleftrightarrow> search_tree t \<and> balanced t"

definition membership_ok :: "'b::linorder routing_membership \<Rightarrow> bool" where
  "membership_ok m \<longleftrightarrow>
     node_ok (root m) \<and> live_blocks m = int (card (node_ids (root m)))"

section \<open>Rebalancing\<close>

lemma finite_node_ids [simp]: "finite (node_ids t)"
  by (induction t) auto

lemma height_nonneg: "balanced t \<Longrightarrow> 0 \<le> routing_membership_height t"
  by (induction t) auto

lemma height_zero: "balanced t \<Longrightarrow> routing_membership_height t \<le> 0 \<Longrightarrow> t = NoNode"
  by (cases t) (use height_nonneg in fastforce)+

lemma height_make [simp]:
  "routing_membership_height (make_routing_membership_node b l r) =
     1 + max (routing_membership_height l) (routing_membership_height r)"
  by (simp add: make_routing_membership_node_def)

lemma ids_make [simp]:
  "node_ids (make_routing_membership_node b l r) = insert b (node_ids l \<union> node_ids r)"
  by (simp add: make_routing_membership_node_def)

text \<open>
  Rebalancing a node over two balanced subtrees whose heights differ by at most two returns
  a balanced tree with the same ids in the same order, at most one lower than the input.
\<close>

definition joined ::
  "'b::linorder \<Rightarrow> 'b routing_node \<Rightarrow> 'b routing_node \<Rightarrow> 'b routing_node \<Rightarrow> bool" where
  "joined b l r t \<longleftrightarrow> node_ok t \<and> node_ids t = insert b (node_ids l \<union> node_ids r)
     \<and> max (routing_membership_height l) (routing_membership_height r) \<le> routing_membership_height t
     \<and> routing_membership_height t \<le>
          1 + max (routing_membership_height l) (routing_membership_height r)
     \<and> (\<bar>routing_membership_height l - routing_membership_height r\<bar> \<le> 1 \<longrightarrow>
          routing_membership_height t =
            1 + max (routing_membership_height l) (routing_membership_height r))"

lemmas balance_simps = make_routing_membership_node_def node_ok_def joined_def Let_def

lemma balance_left_heavy:
  assumes "routing_membership_height l = routing_membership_height r + 2"
    and "node_ok l" "node_ok r" "\<forall>x \<in> node_ids l. x < b" "\<forall>x \<in> node_ids r. b < x"
  shows "\<exists>t. balance_routing_membership (make_routing_membership_node b l r) = Inr t \<and> joined b l r t"
proof (cases l)
  case NoNode
  with assms height_nonneg [of r] show ?thesis by (simp add: node_ok_def)
next
  case (RNode lb ll lr lh)
  show ?thesis
  proof (cases "routing_membership_height ll < routing_membership_height lr")
    case False
    with RNode assms show ?thesis by (auto simp: balance_simps)
  next
    case True
    with RNode assms(2) height_nonneg [of ll] obtain mb ml mr mh where "lr = RNode mb ml mr mh"
      by (cases lr) (auto simp: node_ok_def)
    with True RNode assms show ?thesis by (auto simp: balance_simps)
  qed
qed

lemma balance_right_heavy:
  assumes "routing_membership_height r = routing_membership_height l + 2"
    and "node_ok l" "node_ok r" "\<forall>x \<in> node_ids l. x < b" "\<forall>x \<in> node_ids r. b < x"
  shows "\<exists>t. balance_routing_membership (make_routing_membership_node b l r) = Inr t \<and> joined b l r t"
proof (cases r)
  case NoNode
  with assms height_nonneg [of l] show ?thesis by (simp add: node_ok_def)
next
  case (RNode rb rl rr rh)
  show ?thesis
  proof (cases "routing_membership_height rr < routing_membership_height rl")
    case False
    with RNode assms show ?thesis by (auto simp: balance_simps)
  next
    case True
    with RNode assms(3) height_nonneg [of rr] obtain mb ml mr mh where "rl = RNode mb ml mr mh"
      by (cases rl) (auto simp: node_ok_def)
    with True RNode assms show ?thesis by (auto simp: balance_simps)
  qed
qed

lemma balance_joined:
  assumes "node_ok l" "node_ok r" "\<forall>x \<in> node_ids l. x < b" "\<forall>x \<in> node_ids r. b < x"
    and "\<bar>routing_membership_height l - routing_membership_height r\<bar> \<le> 2"
  obtains t where "balance_routing_membership (make_routing_membership_node b l r) = Inr t"
    and "joined b l r t"
proof -
  let ?h = routing_membership_height
  consider "?h l = ?h r + 2" | "?h r = ?h l + 2" | "\<bar>?h l - ?h r\<bar> \<le> 1"
    using assms(5) by linarith
  then have "\<exists>t. balance_routing_membership (make_routing_membership_node b l r) = Inr t \<and> joined b l r t"
  proof cases
    case 1
    then show ?thesis using assms(1-4) by (rule balance_left_heavy)
  next
    case 2
    then show ?thesis using assms(1-4) by (rule balance_right_heavy)
  next
    case 3
    then have "\<not> 1 < ?h l - ?h r" "\<not> ?h l - ?h r < - 1" by linarith+
    with 3 assms show ?thesis by (auto simp: balance_simps)
  qed
  then show thesis using that by blast
qed

section \<open>Insertion and removal\<close>

lemma node_okE:
  assumes "node_ok (RNode b l r h)"
  obtains "node_ok l" "node_ok r" "\<forall>x \<in> node_ids l. x < b" "\<forall>x \<in> node_ids r. b < x"
    "h = 1 + max (routing_membership_height l) (routing_membership_height r)"
    "\<bar>routing_membership_height l - routing_membership_height r\<bar> \<le> 1"
  using assms by (auto simp: node_ok_def)

text \<open>
  What insertion leaves: a well-formed tree over one more id, at most one higher (and what
  removal leaves, below: one id fewer, at most one lower).
\<close>

definition grown :: "'b::linorder \<Rightarrow> 'b routing_node \<Rightarrow> 'b routing_node \<Rightarrow> bool" where
  "grown x t t' \<longleftrightarrow> node_ok t' \<and> node_ids t' = insert x (node_ids t)
     \<and> routing_membership_height t \<le> routing_membership_height t'
     \<and> routing_membership_height t' \<le> routing_membership_height t + 1"

definition shrunk :: "'b::linorder \<Rightarrow> 'b routing_node \<Rightarrow> 'b routing_node \<Rightarrow> bool" where
  "shrunk x t t' \<longleftrightarrow> node_ok t' \<and> node_ids t' = node_ids t - {x}
     \<and> routing_membership_height t - 1 \<le> routing_membership_height t'
     \<and> routing_membership_height t' \<le> routing_membership_height t"

lemma grown_left:
  assumes "node_ok (RNode b l r h)" "grown x l l'" "joined b l' r t"
  shows "grown x (RNode b l r h) t"
proof -
  from assms(1) have h: "h = 1 + max (routing_membership_height l) (routing_membership_height r)"
    and diff: "\<bar>routing_membership_height l - routing_membership_height r\<bar> \<le> 1"
    by (auto elim: node_okE)
  have "h \<le> routing_membership_height t \<and> routing_membership_height t \<le> h + 1"
    using assms(2,3) h diff unfolding grown_def joined_def by linarith
  with assms show ?thesis by (auto simp: grown_def joined_def)
qed

lemma grown_right:
  assumes "node_ok (RNode b l r h)" "grown x r r'" "joined b l r' t"
  shows "grown x (RNode b l r h) t"
proof -
  from assms(1) have h: "h = 1 + max (routing_membership_height l) (routing_membership_height r)"
    and diff: "\<bar>routing_membership_height l - routing_membership_height r\<bar> \<le> 1"
    by (auto elim: node_okE)
  have "h \<le> routing_membership_height t \<and> routing_membership_height t \<le> h + 1"
    using assms(2,3) h diff unfolding grown_def joined_def by linarith
  with assms show ?thesis by (auto simp: grown_def joined_def)
qed

lemma insert_node_ok:
  assumes "node_ok t"
  shows "if x \<in> node_ids t then insert_routing_membership t x = Inr (t, False)
         else \<exists>t'. insert_routing_membership t x = Inr (t', True) \<and> grown x t t'"
  using assms
proof (induction t)
  case NoNode
  then show ?case by (simp add: node_ok_def grown_def)
next
  case (RNode b l r h)
  note ok = RNode.prems
  from ok have sub: "node_ok l" "node_ok r"
    and ord: "\<forall>x \<in> node_ids l. x < b" "\<forall>x \<in> node_ids r. b < x"
    and diff: "\<bar>routing_membership_height l - routing_membership_height r\<bar> \<le> 1"
    by (auto elim: node_okE)
  consider "x = b" | "x < b" | "b < x" by (rule linorder_cases)
  then show ?case
  proof cases
    case 1
    then show ?thesis by simp
  next
    case 2
    with ord have side: "x \<notin> node_ids r" by auto
    show ?thesis
    proof (cases "x \<in> node_ids l")
      case True
      with 2 RNode.IH(1) [OF sub(1)] show ?thesis by simp
    next
      case False
      with RNode.IH(1) [OF sub(1)] obtain l' where
        ins: "insert_routing_membership l x = Inr (l', True)" and l': "grown x l l'"
        by auto
      obtain t where "balance_routing_membership (make_routing_membership_node b l' r) = Inr t"
        and "joined b l' r t"
        by (rule balance_joined [of l' r b])
           (use l' sub ord 2 diff in \<open>auto simp: grown_def\<close>)
      with 2 ins False side grown_left [OF ok l'] show ?thesis by auto
    qed
  next
    case 3
    with ord have side: "x \<notin> node_ids l" by auto
    show ?thesis
    proof (cases "x \<in> node_ids r")
      case True
      with 3 RNode.IH(2) [OF sub(2)] show ?thesis by auto
    next
      case False
      with RNode.IH(2) [OF sub(2)] obtain r' where
        ins: "insert_routing_membership r x = Inr (r', True)" and r': "grown x r r'"
        by auto
      obtain t where "balance_routing_membership (make_routing_membership_node b l r') = Inr t"
        and "joined b l r' t"
        by (rule balance_joined [of l r' b])
           (use r' sub ord 3 diff in \<open>auto simp: grown_def\<close>)
      with 3 ins False side grown_right [OF ok r'] show ?thesis by auto
    qed
  qed
qed

lemma shrunk_left:
  assumes "node_ok (RNode b l r h)" "shrunk x l l'" "joined b l' r t" "x \<in> node_ids l"
  shows "shrunk x (RNode b l r h) t"
proof -
  from assms(1) have h: "h = 1 + max (routing_membership_height l) (routing_membership_height r)"
    and diff: "\<bar>routing_membership_height l - routing_membership_height r\<bar> \<le> 1"
    and ord: "\<forall>x \<in> node_ids l. x < b" "\<forall>x \<in> node_ids r. b < x"
    by (auto elim: node_okE)
  have "h - 1 \<le> routing_membership_height t \<and> routing_membership_height t \<le> h"
    using assms(2,3) h diff unfolding shrunk_def joined_def by linarith
  moreover have "x \<notin> node_ids r" "x \<noteq> b" using assms(4) ord by (auto dest: less_asym)
  then have "node_ids t = node_ids (RNode b l r h) - {x}"
    using assms(2,3) unfolding shrunk_def joined_def by auto
  ultimately show ?thesis using assms by (simp add: shrunk_def joined_def)
qed

lemma shrunk_right:
  assumes "node_ok (RNode b l r h)" "shrunk x r r'" "joined b l r' t" "x \<in> node_ids r"
  shows "shrunk x (RNode b l r h) t"
proof -
  from assms(1) have h: "h = 1 + max (routing_membership_height l) (routing_membership_height r)"
    and diff: "\<bar>routing_membership_height l - routing_membership_height r\<bar> \<le> 1"
    and ord: "\<forall>x \<in> node_ids l. x < b" "\<forall>x \<in> node_ids r. b < x"
    by (auto elim: node_okE)
  have "h - 1 \<le> routing_membership_height t \<and> routing_membership_height t \<le> h"
    using assms(2,3) h diff unfolding shrunk_def joined_def by linarith
  moreover have "x \<notin> node_ids l" "x \<noteq> b" using assms(4) ord by (auto dest: less_asym)
  then have "node_ids t = node_ids (RNode b l r h) - {x}"
    using assms(2,3) unfolding shrunk_def joined_def by auto
  ultimately show ?thesis using assms by (simp add: shrunk_def joined_def)
qed

lemma minimum_in: "minimum_routing_membership_node b l \<in> node_ids (RNode b l r h)"
  by (induction b l arbitrary: r h rule: minimum_routing_membership_node.induct) fastforce+

lemma minimum_least:
  "search_tree (RNode b l r h) \<Longrightarrow> x \<in> node_ids (RNode b l r h) \<Longrightarrow>
   minimum_routing_membership_node b l \<le> x"
proof (induction b l arbitrary: r h x rule: minimum_routing_membership_node.induct)
  case (1 b)
  then show ?case by auto
next
  case (2 b lb ll lr lh)
  have left: "minimum_routing_membership_node lb ll \<le> y" if "y \<in> node_ids (RNode lb ll lr lh)" for y
    using "2.prems"(1) that by (intro "2.IH") auto
  then have "minimum_routing_membership_node lb ll < b"
    using "2.prems"(1) minimum_in [of lb ll lr lh] by auto
  with left "2.prems" show ?case by fastforce
qed

lemma remove_node_ok:
  assumes "node_ok t"
  shows "if x \<notin> node_ids t then remove_routing_membership t x = Inr (t, False)
         else \<exists>t'. remove_routing_membership t x = Inr (t', True) \<and> shrunk x t t'"
  using assms
proof (induction t arbitrary: x)
  case NoNode
  then show ?case by simp
next
  case (RNode b l r h)
  note ok = RNode.prems
  from ok have sub: "node_ok l" "node_ok r"
    and ord: "\<forall>x \<in> node_ids l. x < b" "\<forall>x \<in> node_ids r. b < x"
    and diff: "\<bar>routing_membership_height l - routing_membership_height r\<bar> \<le> 1"
    and h: "h = 1 + max (routing_membership_height l) (routing_membership_height r)"
    by (auto elim: node_okE)
  consider "x = b" | "x < b" | "b < x" by (rule linorder_cases)
  then show ?case
  proof cases
    case 2
    with ord have side: "x \<notin> node_ids r" by auto
    show ?thesis
    proof (cases "x \<in> node_ids l")
      case False
      with 2 side RNode.IH(1) [OF sub(1), of x] show ?thesis by auto
    next
      case True
      with RNode.IH(1) [OF sub(1), of x] obtain l' where
        rem: "remove_routing_membership l x = Inr (l', True)" and l': "shrunk x l l'"
        by auto
      obtain t where "balance_routing_membership (make_routing_membership_node b l' r) = Inr t"
        and "joined b l' r t"
        by (rule balance_joined [of l' r b])
           (use l' sub ord 2 diff in \<open>auto simp: shrunk_def\<close>)
      with 2 rem True shrunk_left [OF ok l'] show ?thesis by auto
    qed
  next
    case 3
    with ord have side: "x \<notin> node_ids l" by auto
    show ?thesis
    proof (cases "x \<in> node_ids r")
      case False
      with 3 side RNode.IH(2) [OF sub(2), of x] show ?thesis by auto
    next
      case True
      with RNode.IH(2) [OF sub(2), of x] obtain r' where
        rem: "remove_routing_membership r x = Inr (r', True)" and r': "shrunk x r r'"
        by auto
      obtain t where "balance_routing_membership (make_routing_membership_node b l r') = Inr t"
        and "joined b l r' t"
        by (rule balance_joined [of l r' b])
           (use r' sub ord 3 diff in \<open>auto simp: shrunk_def\<close>)
      with 3 rem True shrunk_right [OF ok r'] show ?thesis by auto
    qed
  next
    case 1
    show ?thesis
    proof (cases "l = NoNode \<or> r = NoNode")
      case True
      from sub have nonneg: "0 \<le> routing_membership_height l" "0 \<le> routing_membership_height r"
        by (auto simp: node_ok_def intro: height_nonneg)
      let ?t = "if l = NoNode then r else l"
      have "remove_routing_membership (RNode b l r h) x = Inr (?t, True)"
        using True 1 by (auto split: routing_node.split)
      moreover have "h - 1 \<le> routing_membership_height ?t \<and> routing_membership_height ?t \<le> h"
        using True nonneg h by auto
      moreover have "node_ids ?t = node_ids (RNode b l r h) - {x}"
        using True 1 ord by auto
      ultimately show ?thesis using 1 sub by (auto simp: shrunk_def)
    next
      case False
      then obtain lb ll lr lh rb rl rr rh
        where l: "l = RNode lb ll lr lh" and r: "r = RNode rb rl rr rh"
        by (cases l; cases r) auto
      define s where "s = minimum_routing_membership_node rb rl"
      have s: "s \<in> node_ids r" "\<forall>y \<in> node_ids r. s \<le> y"
        using minimum_in [of rb rl rr rh] minimum_least [of rb rl rr rh] sub(2)
        by (auto simp: s_def r node_ok_def)
      obtain r' where rem: "remove_routing_membership r s = Inr (r', True)" and r': "shrunk s r r'"
        using RNode.IH(2) [OF sub(2), of s] s(1) by auto
      have below: "\<forall>y \<in> node_ids l. y < s" using ord s(1) by force
      have above: "\<forall>y \<in> node_ids r'. s < y" using r' s(2) by (auto simp: shrunk_def order_less_le)
      obtain t where bal: "balance_routing_membership (make_routing_membership_node s l r') = Inr t"
        and t: "joined s l r' t"
        by (rule balance_joined [OF sub(1) _ below above]) (use r' diff in \<open>auto simp: shrunk_def\<close>)
      have "h - 1 \<le> routing_membership_height t \<and> routing_membership_height t \<le> h"
        using r' t h diff unfolding shrunk_def joined_def by linarith
      then have "shrunk x (RNode b l r h) t"
        using 1 t r' s(1) ord by (auto simp: shrunk_def joined_def)
      with 1 rem bal show ?thesis
        by (auto simp: l r s_def Let_def)
    qed
  qed
qed

lemma contains_node_ids: "search_tree t \<Longrightarrow> contains_node t x \<longleftrightarrow> x \<in> node_ids t"
  by (induction t) auto

section \<open>Height\<close>

lemma node_count_card: "search_tree t \<Longrightarrow> node_count t = card (node_ids t)"
proof (induction t)
  case (RNode b l r h)
  then have "b \<notin> node_ids l \<union> node_ids r" "node_ids l \<inter> node_ids r = {}"
    by (auto dest: less_asym)
  with RNode show ?case by (simp add: card_Un_disjoint)
qed simp

lemma balanced_height_count:
  "balanced t \<Longrightarrow> 2 ^ (nat (routing_membership_height t) div 2) \<le> node_count t + 1"
proof (induction t)
  case NoNode
  then show ?case by simp
next
  case (RNode b l r h)
  let ?n = "\<lambda>t. nat (routing_membership_height t)"
  from RNode.prems have nonneg: "0 \<le> routing_membership_height l" "0 \<le> routing_membership_height r"
    by (auto intro: height_nonneg)
  with RNode.prems have low: "nat h \<le> ?n l + 2" "nat h \<le> ?n r + 2"
    by auto
  show ?case
  proof (cases "nat h < 2")
    case True
    then show ?thesis by simp
  next
    case False
    then obtain k where k: "nat h div 2 = Suc k" by (cases "nat h div 2") auto
    with low have "k \<le> ?n l div 2" "k \<le> ?n r div 2" by linarith+
    then have "(2::nat) ^ k \<le> 2 ^ (?n l div 2)" "(2::nat) ^ k \<le> 2 ^ (?n r div 2)"
      by (auto intro: power_increasing)
    moreover have "2 ^ (?n l div 2) \<le> node_count l + 1" "2 ^ (?n r div 2) \<le> node_count r + 1"
      using RNode by auto
    ultimately have "2 ^ k + 2 ^ k \<le> (node_count l + 1) + (node_count r + 1)" by linarith
    with k show ?thesis by simp
  qed
qed

section \<open>The interface of the routing set\<close>

text \<open>
  What the prefix index relies on: a set of ids with a live count, where adding a present
  id or removing an absent one is refused.
\<close>

locale routing_set =
  fixes empty :: 's
    and ins :: "'s \<Rightarrow> 'b \<Rightarrow> 's result"
    and rem :: "'s \<Rightarrow> 'b \<Rightarrow> 's result"
    and mem :: "'s \<Rightarrow> 'b \<Rightarrow> bool"
    and size_of :: "'s \<Rightarrow> int"
    and ids :: "'s \<Rightarrow> 'b set"
    and ok :: "'s \<Rightarrow> bool"
  assumes ok_empty: "ok empty" and ids_empty: "ids empty = {}"
    and ins_new: "ok s \<Longrightarrow> x \<notin> ids s \<Longrightarrow> \<exists>s'. ins s x = Inr s' \<and> ok s' \<and> ids s' = insert x (ids s)"
    and ins_old: "ok s \<Longrightarrow> x \<in> ids s \<Longrightarrow> \<exists>e. ins s x = Inl (RuntimeError e)"
    and rem_old: "ok s \<Longrightarrow> x \<in> ids s \<Longrightarrow> \<exists>s'. rem s x = Inr s' \<and> ok s' \<and> ids s' = ids s - {x}"
    and rem_new: "ok s \<Longrightarrow> x \<notin> ids s \<Longrightarrow> \<exists>e. rem s x = Inl (RuntimeError e)"
    and mem_ids: "ok s \<Longrightarrow> mem s x \<longleftrightarrow> x \<in> ids s"
    and finite_ids: "ok s \<Longrightarrow> finite (ids s)"
    and size_card: "ok s \<Longrightarrow> size_of s = int (card (ids s))"
begin

lemma insert_behaviour:
  assumes "ok s"
  shows "if mem s x then \<exists>e. ins s x = Inl (RuntimeError e)
         else \<exists>s'. ins s x = Inr s' \<and> ok s' \<and> (\<forall>y. mem s' y \<longleftrightarrow> y = x \<or> mem s y)
              \<and> size_of s' = size_of s + 1"
proof (cases "mem s x")
  case True
  with assms ins_old show ?thesis by (simp add: mem_ids)
next
  case False
  with assms obtain s' where s': "ins s x = Inr s'" "ok s'" "ids s' = insert x (ids s)"
    using ins_new [of s x] by (auto simp: mem_ids)
  with assms False have "size_of s' = size_of s + 1"
    by (simp add: size_card mem_ids finite_ids)
  with assms False s' show ?thesis by (simp add: mem_ids)
qed

lemma remove_behaviour:
  assumes "ok s"
  shows "if \<not> mem s x then \<exists>e. rem s x = Inl (RuntimeError e)
         else \<exists>s'. rem s x = Inr s' \<and> ok s' \<and> (\<forall>y. mem s' y \<longleftrightarrow> y \<noteq> x \<and> mem s y)
              \<and> size_of s' = size_of s - 1"
proof (cases "mem s x")
  case False
  with assms rem_new show ?thesis by (simp add: mem_ids)
next
  case True
  with assms obtain s' where s': "rem s x = Inr s'" "ok s'" "ids s' = ids s - {x}"
    using rem_old [of s x] by (auto simp: mem_ids)
  have "size_of s' = size_of s - 1"
    using assms True s' card_Suc_Diff1 [OF finite_ids, of s x] by (simp add: size_card mem_ids)
  with assms True s' show ?thesis by (auto simp: mem_ids)
qed

end

abbreviation membership_ids :: "'b routing_membership \<Rightarrow> 'b set" where
  "membership_ids m \<equiv> node_ids (root m)"

interpretation rset: routing_set empty_membership membership_insert membership_remove
  membership_contains live_blocks membership_ids membership_ok
proof (unfold_locales, goal_cases)
  case 1
  show ?case by (simp add: membership_ok_def empty_membership_def node_ok_def)
next
  case 2
  show ?case by (simp add: empty_membership_def)
next
  case (3 s x)
  then obtain t where "insert_routing_membership (root s) x = Inr (t, True)" "grown x (root s) t"
    using insert_node_ok [of "root s" x] by (auto simp: membership_ok_def)
  with 3 show ?case
    by (auto simp: membership_insert_def membership_ok_def grown_def)
next
  case (4 s x)
  then show ?case
    using insert_node_ok [of "root s" x] by (auto simp: membership_insert_def membership_ok_def)
next
  case (5 s x)
  then obtain t where "remove_routing_membership (root s) x = Inr (t, True)" "shrunk x (root s) t"
    using remove_node_ok [of "root s" x] by (auto simp: membership_ok_def)
  moreover have "int (card (node_ids (root s) - {x})) = int (card (node_ids (root s))) - 1"
    using 5 card_Suc_Diff1 [of "node_ids (root s)" x] by simp
  ultimately show ?case
    using 5 by (auto simp: membership_remove_def membership_ok_def shrunk_def)
next
  case (6 s x)
  then show ?case
    using remove_node_ok [of "root s" x] by (auto simp: membership_remove_def membership_ok_def)
next
  case (7 s x)
  then show ?case
    by (simp add: membership_contains_def membership_ok_def node_ok_def contains_node_ids)
qed (auto simp: membership_ok_def)

section \<open>Properties\<close>

text \<open>
  Inserting into a well-formed routing set raises exactly when the block is already
  there; otherwise it returns a well-formed set that contains the new block and what was
  there before, with one more live block.  No rotation or rebalancing ever raises.
\<close>

theorem membership_insert_correct:
  assumes "membership_ok m"
  shows "if membership_contains m x then \<exists>e. membership_insert m x = Inl (RuntimeError e)
         else \<exists>m'. membership_insert m x = Inr m' \<and> membership_ok m'
                \<and> (\<forall>y. membership_contains m' y \<longleftrightarrow> y = x \<or> membership_contains m y)
                \<and> live_blocks m' = live_blocks m + 1"
  using assms by (rule rset.insert_behaviour)

theorem membership_insert_correct_witness:
  "\<exists>m'. membership_insert \<lparr>root = RNode (3::int) NoNode NoNode 1, live_blocks = 1\<rparr> 5 = Inr m'
     \<and> membership_ok m' \<and> membership_contains m' 5 \<and> membership_contains m' 3 \<and> live_blocks m' = 2"
  using membership_insert_correct [of "\<lparr>root = RNode (3::int) NoNode NoNode 1, live_blocks = 1\<rparr>" 5]
  by (auto simp: membership_ok_def node_ok_def membership_contains_def)

text \<open>
  Removing from a well-formed routing set raises exactly when the block is absent;
  otherwise it returns a well-formed set without that block and with one live block fewer.
\<close>

theorem membership_remove_correct:
  assumes "membership_ok m"
  shows "if \<not> membership_contains m x then \<exists>e. membership_remove m x = Inl (RuntimeError e)
         else \<exists>m'. membership_remove m x = Inr m' \<and> membership_ok m'
                \<and> (\<forall>y. membership_contains m' y \<longleftrightarrow> y \<noteq> x \<and> membership_contains m y)
                \<and> live_blocks m' = live_blocks m - 1"
  using assms by (rule rset.remove_behaviour)

theorem membership_remove_correct_witness:
  "\<exists>m'. membership_remove \<lparr>root = RNode (3::int) NoNode (RNode 5 NoNode NoNode 1) 2, live_blocks = 2\<rparr> 3
          = Inr m'
     \<and> membership_ok m' \<and> membership_contains m' 5 \<and> \<not> membership_contains m' 3 \<and> live_blocks m' = 1"
  using membership_remove_correct
    [of "\<lparr>root = RNode (3::int) NoNode (RNode 5 NoNode NoNode 1) 2, live_blocks = 2\<rparr>" 3]
  by (auto simp: membership_ok_def node_ok_def membership_contains_def)

text \<open>
  The height of a well-formed routing set is at most about twice the logarithm of the
  number of live blocks, so a lookup takes logarithmically many comparisons.
\<close>

theorem membership_height_logarithmic:
  assumes "membership_ok m"
  shows "2 ^ (nat (routing_membership_height (root m)) div 2) \<le> live_blocks m + 1"
proof -
  from assms have "2 ^ (nat (routing_membership_height (root m)) div 2) \<le> node_count (root m) + 1"
    by (intro balanced_height_count) (simp add: membership_ok_def node_ok_def)
  then have "int (2 ^ (nat (routing_membership_height (root m)) div 2)) \<le> int (node_count (root m) + 1)"
    by (rule zle_int [THEN iffD2])
  with assms show ?thesis
    by (simp add: membership_ok_def node_ok_def node_count_card)
qed

theorem membership_height_logarithmic_witness:
  "(2::int) ^ (nat (routing_membership_height
      (RNode (3::int) (RNode 1 NoNode NoNode 1) (RNode 5 NoNode NoNode 1) 2)) div 2) \<le> 3 + 1"
  using membership_height_logarithmic
    [of "\<lparr>root = RNode (3::int) (RNode 1 NoNode NoNode 1) (RNode 5 NoNode NoNode 1) 2,
          live_blocks = 3\<rparr>"]
  by (simp add: membership_ok_def node_ok_def)

end
