(* ===== verification/Block_Ids.thy ===== *)
theory Block_Ids
  imports Routing_Membership
begin

text \<open>
  How token lists are cut into prefix-cache blocks and how blocks are named
  (\<^verbatim>\<open>engine/prefix_cache.py\<close>): the usable prefix of a prompt, the block size a configuration
  resolves to, the signed 64-bit little-endian packing of token ids, the hash chain of
  stable block ids, and the lookup in an immutable routing snapshot.  SHA-256 is library
  code: it is a parameter \<open>sha256\<close> of the definitions.  What the engine relies on is that it
  does not collide on the inputs that are actually hashed, and the theorems that need this
  say so as \<open>inj_on sha256\<close> of those inputs.
\<close>

section \<open>Model\<close>

subsection \<open>Block size and usable prefix\<close>

definition usable_prefix_cache_tokens :: "int \<Rightarrow> int \<Rightarrow> int result" where
  "usable_prefix_cache_tokens prompt_len block_size =
     (if block_size \<le> 0 then Inl (ValueError ''prefix cache block_size must be > 0'')
      else if prompt_len \<le> 1 then Inr 0
      else Inr (((prompt_len - 1) div block_size) * block_size))"

text \<open>A configured block size: missing, an integer, or a value of another type (or a bool).\<close>

datatype configured_size = NotConfigured | ConfiguredInt int | ConfiguredOther

record block_size_config =
  prefix_cache_block_size :: configured_size
  sparse_method :: string
  quest_chunk_size :: int
  linear_attention_layer_indices :: "int list"

definition resolve_prefix_cache_block_size :: "block_size_config \<Rightarrow> int result" where
  "resolve_prefix_cache_block_size c =
     (if prefix_cache_block_size c = ConfiguredOther
      then Inl (ValueError ''prefix_cache_block_size must be a positive integer'')
      else if sparse_method c = ''quest'' then
        (let is_mixed = (linear_attention_layer_indices c \<noteq> []) in
         if is_mixed then
           (let block_size = (case prefix_cache_block_size c of
                                ConfiguredInt n \<Rightarrow> n | _ \<Rightarrow> quest_chunk_size c) in
            if block_size \<le> 0 then Inl (ValueError ''mixed Quest prefix_cache_block_size'')
            else if quest_chunk_size c = 0 then Inl ZeroDivisionError
            else if block_size mod quest_chunk_size c \<noteq> 0
            then Inl (ValueError ''mixed Quest prefix_cache_block_size'')
            else Inr block_size)
         else (case prefix_cache_block_size c of
                 ConfiguredInt n \<Rightarrow>
                   if n \<noteq> quest_chunk_size c
                   then Inl (ValueError ''prefix_cache_block_size must equal quest_chunk_size'')
                   else Inr (quest_chunk_size c)
               | _ \<Rightarrow> Inr (quest_chunk_size c)))
      else
        (let block_size = (case prefix_cache_block_size c of ConfiguredInt n \<Rightarrow> n | _ \<Rightarrow> 16) in
         if block_size \<le> 0 then Inl (ValueError ''prefix_cache_block_size must be > 0'')
         else Inr block_size))"

subsection \<open>Packing and hashing\<close>

text \<open>
  \<open>struct.pack("<nq", ...)\<close>: eight little-endian bytes per token in two's complement, and
  \<open>struct.error\<close> for a value outside the signed 64-bit range.
\<close>

fun le_bytes :: "nat \<Rightarrow> int \<Rightarrow> bytes" where
  "le_bytes 0 x = []"
| "le_bytes (Suc n) x = word_of_int x # le_bytes n (x div 256)"

definition fits_q :: "int \<Rightarrow> bool" where
  "fits_q x \<longleftrightarrow> - (2 ^ 63) \<le> x \<and> x < 2 ^ 63"

definition pack_token_ids :: "int list \<Rightarrow> bytes result" where
  "pack_token_ids ts =
     (if list_all fits_q ts then Inr (concat (map (le_bytes 8) ts))
      else Inl (StructError ''int too large to convert''))"

definition hash_input :: "bytes \<Rightarrow> bytes \<Rightarrow> block_id option \<Rightarrow> bytes" where
  "hash_input fingerprint packed parent =
     fingerprint @ (case parent of None \<Rightarrow> [0] | Some p \<Rightarrow> 1 # p) @ packed"

definition stable_prefix_block_id ::
  "(bytes \<Rightarrow> bytes) \<Rightarrow> bytes \<Rightarrow> int list \<Rightarrow> block_id option \<Rightarrow> block_id result" where
  "stable_prefix_block_id sha256 fingerprint token_ids parent =
     rbind (pack_token_ids token_ids) (\<lambda>packed. Inr (sha256 (hash_input fingerprint packed parent)))"

text \<open>The method of the index checks that the block is full.\<close>

definition stable_block_id ::
  "(bytes \<Rightarrow> bytes) \<Rightarrow> bytes \<Rightarrow> int \<Rightarrow> int list \<Rightarrow> block_id option \<Rightarrow> block_id result" where
  "stable_block_id sha256 fingerprint block_size token_ids parent =
     (if int (length token_ids) \<noteq> block_size
      then Inl (ValueError ''prefix cache blocks must be full'')
      else stable_prefix_block_id sha256 fingerprint token_ids parent)"

subsection \<open>The block ids of a token list\<close>

definition py_range :: "int \<Rightarrow> int \<Rightarrow> int \<Rightarrow> int list" where
  "py_range start stop stride =
     map (\<lambda>i. start + stride * int i) [0..<nat ((stop - start + stride - 1) div stride)]"

definition py_slice :: "'a list \<Rightarrow> int \<Rightarrow> int \<Rightarrow> 'a list" where
  "py_slice xs start stop = take (nat (stop - start)) (drop (nat start) xs)"

fun block_id_loop ::
  "(bytes \<Rightarrow> bytes) \<Rightarrow> bytes \<Rightarrow> int \<Rightarrow> int list \<Rightarrow> block_id option \<Rightarrow> int list \<Rightarrow> block_id list result" where
  "block_id_loop sha256 fingerprint block_size token_ids parent [] = Inr []"
| "block_id_loop sha256 fingerprint block_size token_ids parent (start # starts) =
     rbind (stable_block_id sha256 fingerprint block_size
              (py_slice token_ids start (start + block_size)) parent) (\<lambda>block_id.
     rbind (block_id_loop sha256 fingerprint block_size token_ids (Some block_id) starts)
       (\<lambda>rest. Inr (block_id # rest)))"

definition block_ids_for_tokens ::
  "(bytes \<Rightarrow> bytes) \<Rightarrow> bytes \<Rightarrow> int \<Rightarrow> int list \<Rightarrow> int option \<Rightarrow> block_id list result" where
  "block_ids_for_tokens sha256 fingerprint block_size token_ids max_tokens =
     (let token_limit = (case max_tokens of None \<Rightarrow> int (length token_ids)
                         | Some m \<Rightarrow> min m (int (length token_ids)));
          token_limit = (token_limit div block_size) * block_size
      in block_id_loop sha256 fingerprint block_size token_ids None
           (py_range 0 token_limit block_size))"

subsection \<open>Routing snapshots\<close>

record routing_snapshot =
  supported :: bool
  enabled :: bool
  snapshot_method :: string
  snapshot_block_size :: "int option"
  snapshot_fingerprint :: bytes
  snapshot_block_ids :: "block_id list"
  snapshot_membership :: "block_id routing_membership option"
  reason :: "string option"

text \<open>
  The answer of \<open>match\<close>.  The ratio is the quotient of two integers; it is kept as the pair
  of numerator and denominator (denominator 0 stands for the constant 0.0).
\<close>

record snapshot_match_info =
  sm_supported :: bool
  sm_enabled :: bool
  sm_method :: string
  sm_block_size :: "int option"
  sm_prompt_tokens :: int
  sm_usable_tokens :: int
  sm_matched_tokens :: int
  sm_matched_blocks :: int
  sm_ratio :: "int \<times> int"
  sm_last_block_id :: "block_id option"
  sm_live_blocks :: int
  sm_reason :: "string option"

definition snapshot_contains :: "routing_snapshot \<Rightarrow> block_id \<Rightarrow> bool" where
  "snapshot_contains s b = (case snapshot_membership s of
       None \<Rightarrow> b \<in> set (snapshot_block_ids s)
     | Some m \<Rightarrow> membership_contains m b)"

text \<open>
  The loop of \<open>match\<close>.  The code assigns \<open>last_block_id\<close> and \<open>parent_block_id\<close> together, so
  one variable carries both.
\<close>

fun snapshot_match_loop ::
  "(bytes \<Rightarrow> bytes) \<Rightarrow> routing_snapshot \<Rightarrow> int \<Rightarrow> int list \<Rightarrow> int \<times> block_id option \<Rightarrow> int list
   \<Rightarrow> (int \<times> block_id option) result" where
  "snapshot_match_loop sha256 s block_size token_ids (hits, last_id) [] = Inr (hits, last_id)"
| "snapshot_match_loop sha256 s block_size token_ids (hits, last_id) (start # starts) =
     rbind (stable_prefix_block_id sha256 (snapshot_fingerprint s)
              (py_slice token_ids start (start + block_size)) last_id) (\<lambda>block_id.
     if \<not> snapshot_contains s block_id then Inr (hits, last_id)
     else snapshot_match_loop sha256 s block_size token_ids (hits + 1, Some block_id) starts)"

definition snapshot_match ::
  "(bytes \<Rightarrow> bytes) \<Rightarrow> routing_snapshot \<Rightarrow> int list \<Rightarrow> snapshot_match_info result" where
  "snapshot_match sha256 s token_ids =
     (if \<not> supported s \<or> \<not> enabled s then
        Inr \<lparr>sm_supported = supported s, sm_enabled = enabled s, sm_method = snapshot_method s,
             sm_block_size = None, sm_prompt_tokens = 0, sm_usable_tokens = 0,
             sm_matched_tokens = 0, sm_matched_blocks = 0, sm_ratio = (0, 0),
             sm_last_block_id = None, sm_live_blocks = 0, sm_reason = reason s\<rparr>
      else (case snapshot_block_size s of
        None \<Rightarrow> Inl (RuntimeError ''Enabled prefix-cache routing snapshot has no valid block size.'')
      | Some block_size \<Rightarrow>
          if block_size \<le> 0
          then Inl (RuntimeError ''Enabled prefix-cache routing snapshot has no valid block size.'')
          else
            rbind (usable_prefix_cache_tokens (int (length token_ids)) block_size) (\<lambda>usable.
            rbind (snapshot_match_loop sha256 s block_size token_ids (0, None)
                     (py_range 0 usable block_size)) (\<lambda>(hit_blocks, last_id).
            Inr \<lparr>sm_supported = True, sm_enabled = True, sm_method = snapshot_method s,
                 sm_block_size = Some block_size, sm_prompt_tokens = int (length token_ids),
                 sm_usable_tokens = usable, sm_matched_tokens = hit_blocks * block_size,
                 sm_matched_blocks = hit_blocks,
                 sm_ratio = (if usable \<le> 0 then (0, 0) else (hit_blocks * block_size, usable)),
                 sm_last_block_id = last_id,
                 sm_live_blocks = (case snapshot_membership s of
                    None \<Rightarrow> int (length (snapshot_block_ids s)) | Some m \<Rightarrow> live_blocks m),
                 sm_reason = None\<rparr>))))"

section \<open>Usable prefix and block size\<close>

lemma usable_cases:
  assumes "0 < block_size"
  shows "usable_prefix_cache_tokens prompt_len block_size =
           Inr (if prompt_len \<le> 1 then 0 else ((prompt_len - 1) div block_size) * block_size)"
  using assms by (simp add: usable_prefix_cache_tokens_def)

text \<open>
  For a positive block size and a non-empty prompt the usable prefix is the largest
  multiple of the block size that leaves at least one prompt token to compute logits for.
\<close>

theorem usable_prefix_is_largest:
  assumes "0 < block_size" and "0 < prompt_len"
  shows "\<exists>u. usable_prefix_cache_tokens prompt_len block_size = Inr u
     \<and> 0 \<le> u \<and> u < prompt_len \<and> block_size dvd u
     \<and> (\<forall>v. block_size dvd v \<and> v < prompt_len \<longrightarrow> v \<le> u)"
proof -
  define u where "u = ((prompt_len - 1) div block_size) * block_size"
  have eq: "usable_prefix_cache_tokens prompt_len block_size = Inr u"
    using assms by (cases "prompt_len = 1") (auto simp: usable_cases u_def)
  have split: "prompt_len - 1 = u + (prompt_len - 1) mod block_size"
    by (simp add: u_def)
  have rem: "0 \<le> (prompt_len - 1) mod block_size" "(prompt_len - 1) mod block_size < block_size"
    using assms by simp_all
  have "v \<le> u" if v: "block_size dvd v" "v < prompt_len" for v
  proof -
    from v(1) obtain k where k: "v = block_size * k" ..
    with v(2) have "block_size * k \<le> prompt_len - 1" by simp
    then have "k \<le> (prompt_len - 1) div block_size"
      using assms(1) by (metis mult.commute nonzero_mult_div_cancel_right order_less_irrefl zdiv_mono1)
    with assms(1) show ?thesis by (simp add: k u_def mult.commute mult_left_mono)
  qed
  moreover have "0 \<le> u" using assms by (simp add: u_def pos_imp_zdiv_nonneg_iff)
  moreover have "u < prompt_len" using split rem by linarith
  moreover have "block_size dvd u" by (simp add: u_def)
  ultimately show ?thesis using eq by blast
qed

theorem usable_prefix_is_largest_witness:
  "\<exists>u. usable_prefix_cache_tokens 33 16 = Inr u \<and> u < 33 \<and> (16::int) dvd u
     \<and> (\<forall>v. 16 dvd v \<and> v < 33 \<longrightarrow> v \<le> u)"
  using usable_prefix_is_largest [of 16 33] by auto

text \<open>
  A resolved block size is always positive when the Quest chunk size is, and for Quest it
  is a multiple of the chunk size (equal to it when the model has no linear-attention
  layers), so a prefix block never splits a Quest page.
\<close>

theorem resolved_block_size_valid:
  assumes "resolve_prefix_cache_block_size c = Inr n" and "0 < quest_chunk_size c"
  shows "0 < n \<and> (sparse_method c = ''quest'' \<longrightarrow> quest_chunk_size c dvd n)
     \<and> (sparse_method c = ''quest'' \<and> linear_attention_layer_indices c = [] \<longrightarrow> n = quest_chunk_size c)"
  using assms
  by (auto simp: resolve_prefix_cache_block_size_def Let_def split: if_splits configured_size.splits)

theorem resolved_block_size_valid_witness:
  "resolve_prefix_cache_block_size \<lparr>prefix_cache_block_size = ConfiguredInt 64,
      sparse_method = ''quest'', quest_chunk_size = 16, linear_attention_layer_indices = [1]\<rparr> = Inr 64
   \<and> (16::int) dvd 64"
  using resolved_block_size_valid [of "\<lparr>prefix_cache_block_size = ConfiguredInt 64,
      sparse_method = ''quest'', quest_chunk_size = 16, linear_attention_layer_indices = [1]\<rparr>" 64]
  by (simp add: resolve_prefix_cache_block_size_def)

section \<open>Packing is injective\<close>

fun le_value :: "bytes \<Rightarrow> int" where
  "le_value [] = 0"
| "le_value (b # bs) = uint b + 256 * le_value bs"

lemma length_le_bytes [simp]: "length (le_bytes n x) = n"
  by (induction n arbitrary: x) auto

lemma le_value_le_bytes: "le_value (le_bytes n x) = x mod 256 ^ n"
proof (induction n arbitrary: x)
  case (Suc n)
  have "uint (word_of_int x :: byte) = x mod 256" by (simp add: uint_word_of_int)
  then show ?case
    using Suc zmod_zmult2_eq [of "256 ^ n" x 256] by simp
qed simp

lemma le_bytes_inj:
  assumes "fits_q x" "fits_q y" "le_bytes 8 x = le_bytes 8 y"
  shows "x = y"
proof -
  from assms(3) have "x mod 256 ^ 8 = y mod 256 ^ 8"
    by (metis le_value_le_bytes)
  then have "256 ^ 8 dvd x - y" by (simp only: mod_eq_dvd_iff)
  moreover have "\<bar>x - y\<bar> < 256 ^ 8"
    using assms(1,2) unfolding fits_q_def by (simp add: abs_if)
  ultimately show ?thesis
    using dvd_imp_le_int [of "x - y" "256 ^ 8"] by fastforce
qed

lemma concat_le_bytes_inj:
  "list_all fits_q xs \<Longrightarrow> list_all fits_q ys \<Longrightarrow> length xs = length ys \<Longrightarrow>
   concat (map (le_bytes 8) xs) = concat (map (le_bytes 8) ys) \<Longrightarrow> xs = ys"
proof (induction xs ys rule: list_induct2')
  case (4 x xs y ys)
  then have "le_bytes 8 x = le_bytes 8 y" "concat (map (le_bytes 8) xs) = concat (map (le_bytes 8) ys)"
    by simp_all
  with 4 le_bytes_inj show ?case by simp
qed auto

lemma length_concat_le_bytes: "length (concat (map (le_bytes 8) xs)) = 8 * length xs"
  by (induction xs) auto

lemma pack_token_ids_Inr:
  "pack_token_ids ts = Inr p \<longleftrightarrow> list_all fits_q ts \<and> p = concat (map (le_bytes 8) ts)"
  by (auto simp: pack_token_ids_def)

lemma hash_input_inj:
  assumes "hash_input fp p par = hash_input fp p' par'" and "length p = length p'"
  shows "p = p' \<and> par = par'"
proof -
  have "(case par of None \<Rightarrow> [0] | Some q \<Rightarrow> 1 # q) @ p = (case par' of None \<Rightarrow> [0] | Some q \<Rightarrow> 1 # q) @ p'"
    using assms(1) by (simp add: hash_input_def)
  then have "(case par of None \<Rightarrow> [0] | Some q \<Rightarrow> 1 # q) = (case par' of None \<Rightarrow> [0::byte] | Some q \<Rightarrow> 1 # q)"
    and "p = p'"
    using assms(2) by auto
  then show ?thesis by (auto split: option.splits)
qed

section \<open>Block id chains\<close>

text \<open>The tokens of block \<open>k\<close> and the input that is hashed for it.\<close>

definition token_block :: "int \<Rightarrow> int list \<Rightarrow> nat \<Rightarrow> int list" where
  "token_block block_size token_ids k = take (nat block_size) (drop (k * nat block_size) token_ids)"

definition chain_parent :: "block_id list \<Rightarrow> nat \<Rightarrow> block_id option" where
  "chain_parent ids k = (if k = 0 then None else Some (ids ! (k - 1)))"

definition hashed_inputs :: "bytes \<Rightarrow> int \<Rightarrow> int list \<Rightarrow> block_id list \<Rightarrow> bytes list" where
  "hashed_inputs fingerprint block_size token_ids ids =
     map (\<lambda>k. hash_input fingerprint (concat (map (le_bytes 8) (token_block block_size token_ids k)))
                (chain_parent ids k)) [0..<length ids]"

lemma py_slice_block:
  assumes "0 < block_size"
  shows "py_slice ts (block_size * int k) (block_size * int k + block_size) = token_block block_size ts k"
proof -
  have "nat (block_size * int k) = k * nat block_size"
    using assms by (simp add: nat_mult_distrib mult.commute)
  then show ?thesis by (simp add: py_slice_def token_block_def)
qed

lemma py_range_blocks:
  assumes "0 < block_size"
  shows "py_range 0 (q * block_size) block_size = map (\<lambda>i. block_size * int i) [0..<nat q]"
proof -
  have "(q * block_size - 0 + block_size - 1) div block_size = q + (block_size - 1) div block_size"
    using assms div_mult_self1 [of block_size "block_size - 1" q]
    by (simp add: algebra_simps)
  also have "\<dots> = q" using assms by (simp add: div_pos_pos_trivial)
  finally show ?thesis by (simp add: py_range_def)
qed

lemma block_id_loop_chain:
  assumes "block_id_loop sha fp bs ts par (map (\<lambda>i. bs * int i) [m..<n]) = Inr ids" and "0 < bs"
  shows "length ids = n - m \<and>
    (\<forall>k < n - m. stable_block_id sha fp bs (token_block bs ts (m + k))
                   (if k = 0 then par else Some (ids ! (k - 1))) = Inr (ids ! k))"
  using assms
proof (induction "n - m" arbitrary: m par ids)
  case 0
  then show ?case by simp
next
  case (Suc d)
  then have cons: "map (\<lambda>i. bs * int i) [m..<n] = (bs * int m) # map (\<lambda>i. bs * int i) [Suc m..<n]"
    by (simp add: upt_conv_Cons)
  with Suc.prems obtain b rest where
    b: "stable_block_id sha fp bs (token_block bs ts m) par = Inr b"
    and rest: "block_id_loop sha fp bs ts (Some b) (map (\<lambda>i. bs * int i) [Suc m..<n]) = Inr rest"
    and ids: "ids = b # rest"
    by (auto simp: rbind_eq_Inr py_slice_block)
  have IH: "length rest = n - Suc m"
    "\<forall>k < n - Suc m. stable_block_id sha fp bs (token_block bs ts (Suc m + k))
                   (if k = 0 then Some b else Some (rest ! (k - 1))) = Inr (rest ! k)"
    using Suc.hyps(1) [OF _ rest Suc.prems(2)] Suc.hyps(2) by auto
  have "stable_block_id sha fp bs (token_block bs ts (m + k))
          (if k = 0 then par else Some (ids ! (k - 1))) = Inr (ids ! k)" if "k < n - m" for k
  proof (cases k)
    case 0
    with b ids show ?thesis by simp
  next
    case (Suc j)
    then show ?thesis
      using IH(2) [rule_format, of j] that ids by (cases j) auto
  qed
  with IH(1) ids Suc.hyps(2) show ?case by simp
qed

lemma block_ids_chain:
  assumes "block_ids_for_tokens sha fp bs ts None = Inr ids" and "0 < bs"
  shows "length ids = nat (int (length ts) div bs)
    \<and> (\<forall>k < length ids. stable_block_id sha fp bs (token_block bs ts k) (chain_parent ids k)
         = Inr (ids ! k))"
proof -
  have "block_id_loop sha fp bs ts None
          (map (\<lambda>i. bs * int i) [0..<nat (int (length ts) div bs)]) = Inr ids"
    using assms by (simp add: block_ids_for_tokens_def Let_def py_range_blocks)
  from block_id_loop_chain [OF this assms(2)] show ?thesis
    by (simp add: chain_parent_def)
qed

lemma stable_block_id_Inr:
  "stable_block_id sha fp bs ts par = Inr b \<longleftrightarrow>
     int (length ts) = bs \<and> list_all fits_q ts
     \<and> b = sha (hash_input fp (concat (map (le_bytes 8) ts)) par)"
  by (auto simp: stable_block_id_def stable_prefix_block_id_def rbind_eq_Inr pack_token_ids_Inr)

lemma stable_block_id_inj:
  assumes "stable_block_id sha fp bs ts par = Inr b" "stable_block_id sha fp bs us par' = Inr b"
    and "inj_on sha {hash_input fp (concat (map (le_bytes 8) ts)) par,
                     hash_input fp (concat (map (le_bytes 8) us)) par'}"
  shows "ts = us \<and> par = par'"
proof -
  let ?in1 = "hash_input fp (concat (map (le_bytes 8) ts)) par"
  let ?in2 = "hash_input fp (concat (map (le_bytes 8) us)) par'"
  have ts: "int (length ts) = bs" "list_all fits_q ts" "b = sha ?in1"
    using assms(1) unfolding stable_block_id_Inr by blast+
  have us: "int (length us) = bs" "list_all fits_q us" "b = sha ?in2"
    using assms(2) unfolding stable_block_id_Inr by blast+
  have len: "length ts = length us" using ts(1) us(1) by linarith
  note fits = ts(2) us(2)
  have eq: "?in1 = ?in2"
    by (rule inj_onD [OF assms(3)]) (use ts(3) us(3) in auto)
  from hash_input_inj [OF eq] len
  have "concat (map (le_bytes 8) ts) = concat (map (le_bytes 8) us)" "par = par'"
    by (auto simp: length_concat_le_bytes)
  with concat_le_bytes_inj [OF fits len] show ?thesis by simp
qed

lemma hashed_inputs_nth:
  "k < length ids \<Longrightarrow>
   hash_input fp (concat (map (le_bytes 8) (token_block bs ts k))) (chain_parent ids k)
     \<in> set (hashed_inputs fp bs ts ids)"
  by (auto simp: hashed_inputs_def)

lemma take_blocks_eq:
  assumes "\<forall>j \<le> k. token_block bs ts j = token_block bs us j"
  shows "take (Suc k * nat bs) ts = take (Suc k * nat bs) us"
  using assms
proof (induction k)
  case 0
  then show ?case by (simp add: token_block_def)
next
  case (Suc k)
  have "take (Suc (Suc k) * nat bs) xs = take (Suc k * nat bs) xs @ token_block bs xs (Suc k)" for xs
    using take_add [of "Suc k * nat bs" "nat bs" xs] by (simp add: token_block_def add.commute)
  with Suc show ?case by simp
qed

text \<open>
  C12. Prefix-cache hits are sound.  If two token lists produce the same id for their block
  \<open>k\<close>, and SHA-256 does not collide on the inputs hashed for the two lists, then the lists
  agree on all tokens up to and including block \<open>k\<close>: an id names its whole prefix.
\<close>

theorem equal_block_id_equal_prefix:
  assumes "block_ids_for_tokens sha256 fp bs ts None = Inr ids"
    and "block_ids_for_tokens sha256 fp bs us None = Inr ids'"
    and "0 < bs" and "k < length ids" "k < length ids'" and "ids ! k = ids' ! k"
    and "inj_on sha256 (set (hashed_inputs fp bs ts ids) \<union> set (hashed_inputs fp bs us ids'))"
  shows "take (Suc k * nat bs) ts = take (Suc k * nat bs) us \<and> take (Suc k) ids = take (Suc k) ids'"
proof -
  let ?S = "set (hashed_inputs fp bs ts ids) \<union> set (hashed_inputs fp bs us ids')"
  have step: "token_block bs ts j = token_block bs us j \<and> chain_parent ids j = chain_parent ids' j"
    if j: "j < length ids" "j < length ids'" "ids ! j = ids' ! j" for j
  proof (rule stable_block_id_inj)
    show "stable_block_id sha256 fp bs (token_block bs ts j) (chain_parent ids j) = Inr (ids ! j)"
      using block_ids_chain [OF assms(1,3)] j by blast
    show "stable_block_id sha256 fp bs (token_block bs us j) (chain_parent ids' j) = Inr (ids ! j)"
      using block_ids_chain [OF assms(2,3)] j by simp
    show "inj_on sha256 {hash_input fp (concat (map (le_bytes 8) (token_block bs ts j))) (chain_parent ids j),
             hash_input fp (concat (map (le_bytes 8) (token_block bs us j))) (chain_parent ids' j)}"
      by (rule inj_on_subset [OF assms(7)]) (use j hashed_inputs_nth in auto)
  qed
  have all: "ids ! (k - d) = ids' ! (k - d)" if "d \<le> k" for d
    using that
  proof (induction d)
    case 0
    then show ?case using assms(6) by simp
  next
    case (Suc d)
    then have "chain_parent ids (k - d) = chain_parent ids' (k - d)"
      using step [of "k - d"] assms(4,5) by simp
    with Suc.prems show ?case by (simp add: chain_parent_def split: if_splits)
  qed
  have each: "ids ! j = ids' ! j" if "j \<le> k" for j
    using all [of "k - j"] that by simp
  with assms(4,5) have "\<forall>j \<le> k. token_block bs ts j = token_block bs us j"
    using step by auto
  moreover have "take (Suc k) ids = take (Suc k) ids'"
    using each assms(4,5) by (intro nth_equalityI) auto
  ultimately show ?thesis using take_blocks_eq by blast
qed

theorem equal_block_id_equal_prefix_witness:
  "\<exists>ids ids'. block_ids_for_tokens id [7] 2 [1, 2, 3, 4] None = Inr ids
     \<and> block_ids_for_tokens id [7] 2 [1, 2, 3, 4, 5, 6] None = Inr ids' \<and> ids ! 1 = ids' ! 1
     \<and> take 4 [1, 2, 3, 4 :: int] = take 4 [1, 2, 3, 4, 5, 6]"
proof -
  let ?a = "block_ids_for_tokens id [7] 2 [1, 2, 3, 4] None"
  let ?b = "block_ids_for_tokens id [7] 2 [1, 2, 3, 4, 5, 6] None"
  have a: "?a = Inr (projr ?a)" "length (projr ?a) = 2"
    and b: "?b = Inr (projr ?b)" "length (projr ?b) = 3"
    and ab: "(projr ?a) ! 1 = (projr ?b) ! 1"
    by code_simp+
  have "take (Suc 1 * nat 2) [1, 2, 3, 4 :: int] = take (Suc 1 * nat 2) [1, 2, 3, 4, 5, 6]"
    using equal_block_id_equal_prefix [OF a(1) b(1), of 1] a(2) b(2) ab by simp
  with a b ab show ?thesis by auto
qed

end
