(* ===== verification/Radix_Tree.thy ===== *)
theory Radix_Tree
  imports Prelude
begin

text \<open>
  The block-level radix tree (\<open>RadixTreeNode\<close>, \<open>RadixTreeBackend\<close> of
  \<^verbatim>\<open>engine/prefix_cache.py\<close>).  Nodes are mutable objects that refer to their parent and
  children, and a location dictionary refers into them, so the model has an explicit store
  of nodes: an address per object, with the root at address 0.  The dictionary orders and
  the stack discipline of the traversals are those of the code.  The theory shows that the
  operations keep the store well formed and implement a plain parent map on block ids; the
  interface the prefix index relies on is the locale \<open>block_tree\<close>.
\<close>

section \<open>Model\<close>

record radix_node =
  segment :: "block_id list"
  parent :: "addr option"
  children :: "(block_id, addr) dict"

record radix_backend =
  nodes :: "addr \<Rightarrow> radix_node"
  next_addr :: addr
  locations :: "(block_id, addr \<times> nat) dict"
  leaf_ids :: "block_id list"

definition empty_node :: radix_node where
  "empty_node = \<lparr>segment = [], parent = None, children = []\<rparr>"

definition init_backend :: radix_backend where
  "init_backend = \<lparr>nodes = (\<lambda>_. empty_node), next_addr = 1, locations = [], leaf_ids = []\<rparr>"

fun index_from :: "addr \<Rightarrow> nat \<Rightarrow> block_id list \<Rightarrow> (block_id, addr \<times> nat) dict
    \<Rightarrow> (block_id, addr \<times> nat) dict" where
  "index_from n i [] locs = locs"
| "index_from n i (b # bs) locs = index_from n (Suc i) bs (AList.update b (n, i) locs)"

definition index_segment :: "addr \<Rightarrow> radix_backend \<Rightarrow> radix_backend" where
  "index_segment n bk = bk\<lparr>locations := index_from n 0 (segment (nodes bk n)) (locations bk)\<rparr>"

definition unindex_segment :: "block_id list \<Rightarrow> radix_backend \<Rightarrow> radix_backend" where
  "unindex_segment seg bk = bk\<lparr>locations := fold AList.delete seg (locations bk)\<rparr>"

text \<open>The set of leaf ids is a list without duplicates; Python leaves its order open.\<close>

definition discard_leaf :: "addr \<Rightarrow> radix_backend \<Rightarrow> radix_backend" where
  "discard_leaf n bk =
     (let seg = segment (nodes bk n) in
      if seg \<noteq> [] then bk\<lparr>leaf_ids := removeAll (last seg) (leaf_ids bk)\<rparr> else bk)"

definition add_leaf :: "addr \<Rightarrow> radix_backend \<Rightarrow> radix_backend" where
  "add_leaf n bk =
     (let nd = nodes bk n in
      if segment nd \<noteq> [] \<and> children nd = []
      then bk\<lparr>leaf_ids := List.insert (last (segment nd)) (leaf_ids bk)\<rparr> else bk)"

definition set_node :: "addr \<Rightarrow> radix_node \<Rightarrow> radix_backend \<Rightarrow> radix_backend" where
  "set_node n nd bk = bk\<lparr>nodes := (nodes bk)(n := nd)\<rparr>"

text \<open>Creating a node object: its address is fresh.\<close>

definition new_node :: "radix_node \<Rightarrow> radix_backend \<Rightarrow> radix_backend" where
  "new_node nd bk = (set_node (next_addr bk) nd bk)\<lparr>next_addr := Suc (next_addr bk)\<rparr>"

definition set_parent :: "addr \<Rightarrow> addr \<Rightarrow> radix_backend \<Rightarrow> radix_backend" where
  "set_parent p c bk = set_node c ((nodes bk c)\<lparr>parent := Some p\<rparr>) bk"

definition split_after :: "addr \<Rightarrow> nat \<Rightarrow> radix_backend \<Rightarrow> radix_backend" where
  "split_after n index bk =
     (let old_segment = segment (nodes bk n);
          prefix = take (Suc index) old_segment;
          suffix = drop (Suc index) old_segment
      in if suffix = [] then bk
      else
        let old_children = children (nodes bk n);
            bk = unindex_segment old_segment bk;
            suffix_node = next_addr bk;
            bk = new_node \<lparr>segment = suffix, parent = Some n, children = old_children\<rparr> bk;
            bk = fold (set_parent suffix_node) (map snd old_children) bk;
            bk = set_node n ((nodes bk n)\<lparr>segment := prefix,
                                          children := [(hd suffix, suffix_node)]\<rparr>) bk
        in index_segment suffix_node (index_segment n bk))"

text \<open>
  The second half of \<open>insert_child\<close>: hang a new one-block node below a node and index it.
\<close>

definition attach_child :: "addr \<Rightarrow> block_id \<Rightarrow> radix_backend \<Rightarrow> radix_backend" where
  "attach_child n b bk =
     (let child = next_addr bk;
          bk = new_node \<lparr>segment = [b], parent = Some n, children = []\<rparr> bk;
          bk = set_node n ((nodes bk n)\<lparr>children := AList.update b child (children (nodes bk n))\<rparr>) bk
      in add_leaf child (index_segment child bk))"

definition insert_child :: "block_id option \<Rightarrow> block_id \<Rightarrow> radix_backend \<Rightarrow> radix_backend result" where
  "insert_child parent_block_id b bk =
     (if map_of (locations bk) b \<noteq> None then Inr bk
      else case parent_block_id of
        None \<Rightarrow>
          if map_of (children (nodes bk 0)) b \<noteq> None
          then Inl (RuntimeError ''Radix tree root child exists without a block location.'')
          else Inr (attach_child 0 b bk)
      | Some p \<Rightarrow>
          (case map_of (locations bk) p of
             None \<Rightarrow> Inl (KeyError ''Prefix cache parent block id is not present in radix tree.'')
           | Some (parent_node, index) \<Rightarrow>
               (let bk = split_after parent_node index bk;
                    bk = (if children (nodes bk parent_node) = []
                          then discard_leaf parent_node bk else bk)
                in if map_of (children (nodes bk parent_node)) b \<noteq> None
                   then Inl (RuntimeError ''Radix tree child exists without a block location.'')
                   else Inr (attach_child parent_node b bk))))"

text \<open>
  \<open>lookup\<close>: the remaining ids are \<open>block_ids[hit_count:limit]\<close>.  The inner loop over a
  segment returns from the method at the first id that differs or is missing.
\<close>

fun segment_loop :: "block_id list \<Rightarrow> block_id list \<Rightarrow> nat \<Rightarrow> block_id option
    \<Rightarrow> bool \<times> block_id list \<times> nat \<times> block_id option" where
  "segment_loop [] remaining hits last_id = (True, remaining, hits, last_id)"
| "segment_loop (s # ss) [] hits last_id = (False, [], hits, last_id)"
| "segment_loop (s # ss) (b # remaining) hits last_id =
     (if b \<noteq> s then (False, b # remaining, hits, last_id)
      else segment_loop ss remaining (Suc hits) (Some s))"

fun lookup_loop :: "nat \<Rightarrow> radix_backend \<Rightarrow> addr \<Rightarrow> block_id list \<Rightarrow> nat \<Rightarrow> block_id option
    \<Rightarrow> (nat \<times> block_id option) result" where
  "lookup_loop 0 bk n remaining hits last_id = Inl NonTermination"
| "lookup_loop (Suc fuel) bk n [] hits last_id = Inr (hits, last_id)"
| "lookup_loop (Suc fuel) bk n (b # remaining) hits last_id =
     (case map_of (children (nodes bk n)) b of
        None \<Rightarrow> Inr (hits, last_id)
      | Some c \<Rightarrow>
          (case segment_loop (segment (nodes bk c)) (b # remaining) hits last_id of
             (matched, remaining', hits', last_id') \<Rightarrow>
               if matched then lookup_loop fuel bk c remaining' hits' last_id'
               else Inr (hits', last_id')))"

definition radix_lookup :: "block_id list \<Rightarrow> int \<Rightarrow> radix_backend \<Rightarrow> (nat \<times> block_id option) result" where
  "radix_lookup block_ids max_blocks bk =
     lookup_loop (Suc (length block_ids)) bk 0 (take (nat max_blocks) block_ids) 0 None"

definition remove_block :: "block_id \<Rightarrow> radix_backend \<Rightarrow> radix_backend result" where
  "remove_block b bk =
     (case map_of (locations bk) b of
        None \<Rightarrow> Inl (KeyError ''Prefix cache block id is not present in radix tree.'')
      | Some (n, index) \<Rightarrow>
          (let nd = nodes bk n in
           if Suc index \<noteq> length (segment nd) \<or> children nd \<noteq> []
           then Inl (RuntimeError ''Cannot remove a prefix cache tree block with live children.'')
           else (case parent nd of
             None \<Rightarrow> Inl (RuntimeError ''Cannot remove radix tree root.'')
           | Some p \<Rightarrow>
               (let bk = bk\<lparr>locations := AList.delete b (locations bk),
                            leaf_ids := removeAll b (leaf_ids bk)\<rparr>
                in if length (segment nd) = 1
                   then Inr (add_leaf p (set_node p ((nodes bk p)\<lparr>children :=
                          AList.delete (hd (segment nd)) (children (nodes bk p))\<rparr>) bk))
                   else Inr (add_leaf n (set_node n (nd\<lparr>segment := butlast (segment nd)\<rparr>) bk))))))"

fun path_loop :: "nat \<Rightarrow> radix_backend \<Rightarrow> addr \<Rightarrow> block_id list list \<Rightarrow> block_id list list result" where
  "path_loop 0 bk n segments = Inl NonTermination"
| "path_loop (Suc fuel) bk n segments =
     (case parent (nodes bk n) of
        None \<Rightarrow> Inr segments
      | Some p \<Rightarrow> path_loop fuel bk p
          (if segment (nodes bk p) \<noteq> [] then segments @ [segment (nodes bk p)] else segments))"

definition path_to_block :: "block_id \<Rightarrow> radix_backend \<Rightarrow> block_id list result" where
  "path_to_block b bk =
     (case map_of (locations bk) b of
        None \<Rightarrow> Inl (KeyError ''Prefix cache block id is not present in radix tree.'')
      | Some (n, index) \<Rightarrow>
          rbind (path_loop (Suc (next_addr bk)) bk n [take (Suc index) (segment (nodes bk n))])
            (\<lambda>segments. Inr (concat (rev segments))))"

fun subtree_loop :: "nat \<Rightarrow> radix_backend \<Rightarrow> addr list \<Rightarrow> block_id list \<Rightarrow> block_id list result" where
  "subtree_loop fuel bk [] found = Inr found"
| "subtree_loop 0 bk (n # ns) found = Inl NonTermination"
| "subtree_loop (Suc fuel) bk (n # ns) found =
     (let top = last (n # ns) in
      subtree_loop fuel bk (butlast (n # ns) @ map snd (children (nodes bk top)))
        (found @ segment (nodes bk top)))"

definition subtree_block_ids :: "block_id \<Rightarrow> radix_backend \<Rightarrow> block_id list result" where
  "subtree_block_ids b bk =
     (case map_of (locations bk) b of
        None \<Rightarrow> Inl (KeyError ''Prefix cache subtree root is not present.'')
      | Some (n, index) \<Rightarrow>
          subtree_loop (next_addr bk) bk (map snd (children (nodes bk n)))
            (drop index (segment (nodes bk n))))"

definition child_count :: "block_id \<Rightarrow> radix_backend \<Rightarrow> nat result" where
  "child_count b bk =
     (case map_of (locations bk) b of
        None \<Rightarrow> Inl (KeyError ''Prefix cache block id is not present in radix tree.'')
      | Some (n, index) \<Rightarrow>
          if Suc index < length (segment (nodes bk n)) then Inr 1
          else Inr (length (children (nodes bk n))))"

definition child_block_ids :: "block_id \<Rightarrow> radix_backend \<Rightarrow> block_id list result" where
  "child_block_ids b bk =
     (case map_of (locations bk) b of
        None \<Rightarrow> Inl (KeyError ''Prefix cache block id is not present in radix tree.'')
      | Some (n, index) \<Rightarrow>
          if Suc index < length (segment (nodes bk n)) then Inr [segment (nodes bk n) ! Suc index]
          else Inr (map (\<lambda>c. hd (segment (nodes bk c))) (map snd (children (nodes bk n)))))"

definition leaf_block_ids :: "radix_backend \<Rightarrow> block_id list" where
  "leaf_block_ids bk = leaf_ids bk"

fun stats_loop :: "nat \<Rightarrow> radix_backend \<Rightarrow> addr list \<Rightarrow> nat \<times> nat \<Rightarrow> (nat \<times> nat) result" where
  "stats_loop fuel bk [] counts = Inr counts"
| "stats_loop 0 bk (n # ns) counts = Inl NonTermination"
| "stats_loop (Suc fuel) bk (n # ns) (node_count, edge_count) =
     (let top = last (n # ns) in
      stats_loop fuel bk (butlast (n # ns) @ map snd (children (nodes bk top)))
        (Suc node_count, edge_count + length (children (nodes bk top))))"

definition radix_stats :: "radix_backend \<Rightarrow> (nat \<times> nat) result" where
  "radix_stats bk = stats_loop (next_addr bk) bk [0] (0, 0)"

section \<open>Well-formed stores\<close>

abbreviation loc :: "radix_backend \<Rightarrow> block_id \<rightharpoonup> addr \<times> nat" where
  "loc bk \<equiv> map_of (locations bk)"

abbreviation seg :: "radix_backend \<Rightarrow> addr \<Rightarrow> block_id list" where
  "seg bk n \<equiv> segment (nodes bk n)"

abbreviation kids :: "radix_backend \<Rightarrow> addr \<Rightarrow> block_id \<rightharpoonup> addr" where
  "kids bk n \<equiv> map_of (children (nodes bk n))"

text \<open>A non-root node is live when some block is located in it.\<close>

definition placed :: "radix_backend \<Rightarrow> addr \<Rightarrow> bool" where
  "placed bk n \<longleftrightarrow> (\<exists>b i. loc bk b = Some (n, i))"

definition live :: "radix_backend \<Rightarrow> addr \<Rightarrow> bool" where
  "live bk n \<longleftrightarrow> n = 0 \<or> placed bk n"

definition located :: "radix_backend \<Rightarrow> bool" where
  "located bk \<longleftrightarrow>
     (\<forall>b n i. loc bk b = Some (n, i) \<longrightarrow> n \<noteq> 0 \<and> n < next_addr bk \<and> i < length (seg bk n) \<and> seg bk n ! i = b)
     \<and> (\<forall>n i. placed bk n \<and> i < length (seg bk n) \<longrightarrow> loc bk (seg bk n ! i) = Some (n, i))"

definition linked :: "radix_backend \<Rightarrow> bool" where
  "linked bk \<longleftrightarrow>
     (\<forall>n. placed bk n \<longrightarrow> (\<exists>p. parent (nodes bk n) = Some p \<and> live bk p \<and> kids bk p (hd (seg bk n)) = Some n))
     \<and> (\<forall>n k c. live bk n \<and> kids bk n k = Some c \<longrightarrow>
           placed bk c \<and> parent (nodes bk c) = Some n \<and> hd (seg bk c) = k)
     \<and> (\<forall>n. live bk n \<longrightarrow> dict_ok (children (nodes bk n)))"

text \<open>The recorded leaves, where the nodes of \<open>X\<close> are about to get a child.\<close>

definition leaves_but :: "addr set \<Rightarrow> radix_backend \<Rightarrow> bool" where
  "leaves_but X bk \<longleftrightarrow> distinct (leaf_ids bk)
     \<and> set (leaf_ids bk) = {last (seg bk n) | n. placed bk n \<and> children (nodes bk n) = [] \<and> n \<notin> X}"

definition ranked :: "radix_backend \<Rightarrow> bool" where
  "ranked bk \<longleftrightarrow> (\<exists>rank :: addr \<Rightarrow> nat. \<forall>n p. placed bk n \<and> parent (nodes bk n) = Some p \<longrightarrow> rank p < rank n)"

definition tree_ok :: "radix_backend \<Rightarrow> bool" where
  "tree_ok bk \<longleftrightarrow> dict_ok (locations bk) \<and> seg bk 0 = [] \<and> parent (nodes bk 0) = None
     \<and> 0 < next_addr bk \<and> located bk \<and> linked bk \<and> ranked bk"

definition radix_ok :: "radix_backend \<Rightarrow> bool" where
  "radix_ok bk \<longleftrightarrow> tree_ok bk \<and> leaves_but {} bk"

text \<open>What the store stands for: the parent of every block (\<open>Some None\<close> below the root).\<close>

definition tree_parent :: "radix_backend \<Rightarrow> block_id \<rightharpoonup> block_id option" where
  "tree_parent bk b =
     (case loc bk b of None \<Rightarrow> None
      | Some (n, i) \<Rightarrow> Some (
          if 0 < i then Some (seg bk n ! (i - 1))
          else case parent (nodes bk n) of None \<Rightarrow> None
             | Some p \<Rightarrow> if seg bk p = [] then None else Some (last (seg bk p))))"

section \<open>Indexing segments\<close>

lemma index_from_other: "b \<notin> set bs \<Longrightarrow> map_of (index_from n i bs locs) b = map_of locs b"
  by (induction bs arbitrary: i locs) (auto simp: dict_simps)

lemma index_from_nth:
  "distinct bs \<Longrightarrow> j < length bs \<Longrightarrow> map_of (index_from n i bs locs) (bs ! j) = Some (n, i + j)"
proof (induction bs arbitrary: i j locs)
  case (Cons b bs)
  then show ?case
    by (cases j) (auto simp: index_from_other dict_simps)
qed simp

lemma index_from_dict_ok [simp]: "dict_ok locs \<Longrightarrow> dict_ok (index_from n i bs locs)"
  by (induction bs arbitrary: i locs) auto

lemma fold_delete_map:
  "map_of (fold AList.delete bs locs) b = (if b \<in> set bs then None else map_of locs b)"
  by (induction bs arbitrary: locs) (auto simp: dict_simps)

lemma fold_delete_dict_ok [simp]: "dict_ok locs \<Longrightarrow> dict_ok (fold AList.delete bs locs)"
  by (induction bs arbitrary: locs) auto

section \<open>Consequences of well-formedness\<close>

lemma tree_okD:
  assumes "tree_ok bk"
  shows "dict_ok (locations bk)" "seg bk 0 = []" "parent (nodes bk 0) = None" "0 < next_addr bk"
    "located bk" "linked bk" "ranked bk"
  using assms by (auto simp: tree_ok_def)

lemma locD:
  assumes "tree_ok bk" "loc bk b = Some (n, i)"
  shows "n \<noteq> 0" "n < next_addr bk" "i < length (seg bk n)" "seg bk n ! i = b" "placed bk n"
  using assms by (auto simp: tree_ok_def located_def placed_def)

lemma loc_nth: "tree_ok bk \<Longrightarrow> placed bk n \<Longrightarrow> i < length (seg bk n) \<Longrightarrow> loc bk (seg bk n ! i) = Some (n, i)"
  by (auto simp: tree_ok_def located_def)

lemma placedD:
  assumes "tree_ok bk" "placed bk n"
  shows "n \<noteq> 0" "n < next_addr bk" "seg bk n \<noteq> []"
  using assms locD unfolding placed_def by fastforce+

lemma live_less: "tree_ok bk \<Longrightarrow> live bk n \<Longrightarrow> n < next_addr bk"
  using placedD tree_okD(4) unfolding live_def by blast

lemma placed_distinct:
  assumes "tree_ok bk" "placed bk n"
  shows "distinct (seg bk n)"
  unfolding distinct_conv_nth
proof (intro allI impI notI)
  fix i j
  assume ij: "i < length (seg bk n)" "j < length (seg bk n)" "i \<noteq> j" "seg bk n ! i = seg bk n ! j"
  then have "Some (n, i) = Some (n, j)"
    using loc_nth [OF assms] by metis
  with ij(3) show False by simp
qed

lemma placed_disjoint:
  assumes "tree_ok bk" "placed bk n" "placed bk m" "b \<in> set (seg bk n)" "b \<in> set (seg bk m)"
  shows "n = m"
  using assms loc_nth unfolding in_set_conv_nth by (metis option.inject prod.inject)

lemma loc_in_seg: "tree_ok bk \<Longrightarrow> placed bk n \<Longrightarrow> b \<in> set (seg bk n) \<Longrightarrow> \<exists>i < length (seg bk n). seg bk n ! i = b \<and> loc bk b = Some (n, i)"
  unfolding in_set_conv_nth using loc_nth by blast

lemma loc_seg_iff:
  assumes "tree_ok bk" "placed bk n"
  shows "(\<exists>i. loc bk b = Some (n, i)) \<longleftrightarrow> b \<in> set (seg bk n)"
  using assms loc_in_seg locD by (metis nth_mem)

lemma parentE:
  assumes "tree_ok bk" "placed bk n"
  obtains p where "parent (nodes bk n) = Some p" "live bk p" "kids bk p (hd (seg bk n)) = Some n"
  using assms unfolding tree_ok_def linked_def by blast

lemma kidD:
  assumes "tree_ok bk" "live bk n" "kids bk n k = Some c"
  shows "placed bk c" "parent (nodes bk c) = Some n" "hd (seg bk c) = k"
  using assms unfolding tree_ok_def linked_def by blast+

lemma kids_dict_ok: "tree_ok bk \<Longrightarrow> live bk n \<Longrightarrow> dict_ok (children (nodes bk n))"
  by (auto simp: tree_ok_def linked_def)

lemma seg_empty_iff: "tree_ok bk \<Longrightarrow> live bk p \<Longrightarrow> seg bk p = [] \<longleftrightarrow> p = 0"
  using placedD(3) tree_okD(2) unfolding live_def by auto

section \<open>Attaching a child\<close>

lemma attach_fields:
  assumes "n < next_addr bk"
  shows "nodes (attach_child n b bk) =
      (nodes bk)(next_addr bk := \<lparr>segment = [b], parent = Some n, children = []\<rparr>,
                 n := (nodes bk n)\<lparr>children := AList.update b (next_addr bk) (children (nodes bk n))\<rparr>)"
    and "locations (attach_child n b bk) = AList.update b (next_addr bk, 0) (locations bk)"
    and "leaf_ids (attach_child n b bk) = List.insert b (leaf_ids bk)"
    and "next_addr (attach_child n b bk) = Suc (next_addr bk)"
  using assms
  by (simp_all add: attach_child_def new_node_def set_node_def index_segment_def add_leaf_def Let_def)

lemma attach_loc:
  assumes "tree_ok bk" "live bk n"
  shows "loc (attach_child n b bk) = (loc bk)(b \<mapsto> (next_addr bk, 0))"
  using live_less [OF assms] by (simp add: attach_fields dict_simps)

lemma attach_placed:
  assumes "tree_ok bk" "live bk n" "loc bk b = None"
  shows "placed (attach_child n b bk) m \<longleftrightarrow> m = next_addr bk \<or> placed bk m"
proof -
  have "loc bk x = Some (m, i) \<Longrightarrow> x \<noteq> b" for x i using assms(3) by auto
  then show ?thesis
    unfolding placed_def attach_loc [OF assms(1,2)] by (metis fun_upd_apply option.inject prod.inject)
qed

lemma attach_next:
  assumes "tree_ok bk" "live bk n"
  shows "next_addr (attach_child n b bk) = Suc (next_addr bk)"
  using live_less [OF assms] by (simp add: attach_fields)

lemma attach_live:
  assumes "tree_ok bk" "live bk n" "loc bk b = None"
  shows "live (attach_child n b bk) m \<longleftrightarrow> m = next_addr bk \<or> live bk m"
  using assms by (auto simp: live_def attach_placed)

lemma attach_seg:
  assumes "tree_ok bk" "live bk n"
  shows "seg (attach_child n b bk) m = (if m = next_addr bk then [b] else seg bk m)"
  using live_less [OF assms] by (auto simp: attach_fields)

lemma attach_parent:
  assumes "tree_ok bk" "live bk n"
  shows "parent (nodes (attach_child n b bk) m) = (if m = next_addr bk then Some n else parent (nodes bk m))"
  using live_less [OF assms] by (auto simp: attach_fields)

lemma attach_kids:
  assumes "tree_ok bk" "live bk n"
  shows "children (nodes (attach_child n b bk) m) =
    (if m = next_addr bk then []
     else if m = n then AList.update b (next_addr bk) (children (nodes bk n)) else children (nodes bk m))"
  using live_less [OF assms] by (auto simp: attach_fields)

lemmas attach_simps = attach_next attach_loc attach_placed attach_live attach_seg attach_parent attach_kids

lemma placed_less_neq: "tree_ok bk \<Longrightarrow> placed bk m \<Longrightarrow> m \<noteq> next_addr bk"
  using placedD(2) by blast

lemma live_less_neq: "tree_ok bk \<Longrightarrow> live bk m \<Longrightarrow> m \<noteq> next_addr bk"
  using live_less by blast

lemma attach_located:
  assumes "tree_ok bk" "live bk n" "loc bk b = None"
  shows "located (attach_child n b bk)"
proof -
  let ?bk = "attach_child n b bk"
  have "m \<noteq> 0 \<and> m < next_addr ?bk \<and> i < length (seg ?bk m) \<and> seg ?bk m ! i = x"
    if "loc ?bk x = Some (m, i)" for x m i
    using that assms locD [OF assms(1), of x m i] tree_okD(4) [OF assms(1)] live_less [OF assms(1,2)]
    by (auto simp: attach_simps split: if_splits)
  moreover have "loc ?bk (seg ?bk m ! i) = Some (m, i)"
    if "placed ?bk m" "i < length (seg ?bk m)" for m i
  proof (cases "m = next_addr bk")
    case True
    with that assms show ?thesis by (simp add: attach_simps)
  next
    case False
    with that assms have "loc bk (seg bk m ! i) = Some (m, i)"
      using loc_nth by (simp add: attach_simps)
    with False assms show ?thesis by (auto simp: attach_simps)
  qed
  ultimately show ?thesis by (simp add: located_def)
qed

lemma attach_linked:
  assumes "tree_ok bk" "live bk n" "loc bk b = None" "kids bk n b = None"
  shows "linked (attach_child n b bk)"
proof -
  let ?bk = "attach_child n b bk"
  have up: "\<exists>p. parent (nodes ?bk m) = Some p \<and> live ?bk p \<and> kids ?bk p (hd (seg ?bk m)) = Some m"
    if "placed ?bk m" for m
  proof (cases "m = next_addr bk")
    case True
    with assms live_less_neq [OF assms(1,2)] show ?thesis by (simp add: attach_simps dict_simps)
  next
    case False
    with that assms have m: "placed bk m" by (simp add: attach_simps)
    then obtain p where p: "parent (nodes bk m) = Some p" "live bk p" "kids bk p (hd (seg bk m)) = Some m"
      using assms(1) by (auto elim: parentE)
    with False assms live_less_neq [OF assms(1) p(2)] show ?thesis
      by (auto simp: attach_simps dict_simps)
  qed
  have down: "placed ?bk c \<and> parent (nodes ?bk c) = Some m \<and> hd (seg ?bk c) = k"
    if "live ?bk m" "kids ?bk m k = Some c" for m k c
  proof -
    have "live bk m \<and> kids bk m k = Some c \<or> m = n \<and> k = b \<and> c = next_addr bk"
      using that assms by (auto simp: attach_simps dict_simps split: if_splits)
    then show ?thesis
    proof
      assume "live bk m \<and> kids bk m k = Some c"
      then have "placed bk c" "parent (nodes bk c) = Some m" "hd (seg bk c) = k"
        using kidD [OF assms(1)] by blast+
      with assms placed_less_neq [OF assms(1)] show ?thesis by (auto simp: attach_simps)
    qed (use assms in \<open>simp add: attach_simps\<close>)
  qed
  have "dict_ok (children (nodes ?bk m))" if "live ?bk m" for m
    using that assms kids_dict_ok [OF assms(1)] by (auto simp: attach_simps)
  with up down show ?thesis unfolding linked_def by blast
qed

lemma attach_ranked:
  assumes "tree_ok bk" "live bk n" "loc bk b = None"
  shows "ranked (attach_child n b bk)"
proof -
  obtain rank :: "addr \<Rightarrow> nat" where
    rank: "\<And>m p. placed bk m \<Longrightarrow> parent (nodes bk m) = Some p \<Longrightarrow> rank p < rank m"
    using tree_okD(7) [OF assms(1)] unfolding ranked_def by blast
  have "((rank(next_addr bk := Suc (rank n))) p) < (rank(next_addr bk := Suc (rank n))) m"
    if "placed (attach_child n b bk) m" "parent (nodes (attach_child n b bk) m) = Some p" for m p
  proof (cases "m = next_addr bk")
    case True
    with that assms live_less_neq [OF assms(1,2)] show ?thesis by (simp add: attach_simps)
  next
    case False
    with that assms have m: "placed bk m" "parent (nodes bk m) = Some p" by (simp_all add: attach_simps)
    then have "live bk p" using parentE [OF assms(1)] by (metis option.inject)
    with m False rank live_less_neq [OF assms(1)] show ?thesis by auto
  qed
  then show ?thesis unfolding ranked_def by blast
qed

lemma attach_leaves:
  assumes "tree_ok bk" "live bk n" "loc bk b = None" "leaves_but {n} bk"
  shows "leaves_but {} (attach_child n b bk)"
proof -
  let ?bk = "attach_child n b bk"
  have "{last (seg ?bk m) | m. placed ?bk m \<and> children (nodes ?bk m) = []}
      = insert b {last (seg bk m) | m. placed bk m \<and> children (nodes bk m) = [] \<and> m \<notin> {n}}"
    (is "?L = insert b ?R")
  proof (intro equalityI subsetI)
    fix x assume "x \<in> ?L"
    then obtain m where m: "x = last (seg ?bk m)" "placed ?bk m" "children (nodes ?bk m) = []" by blast
    show "x \<in> insert b ?R"
    proof (cases "m = next_addr bk")
      case True
      with m assms show ?thesis by (simp add: attach_simps)
    next
      case False
      with m assms have "placed bk m" "x = last (seg bk m)" "m \<noteq> n \<and> children (nodes bk m) = []"
        by (auto simp: attach_simps split: if_splits)
      then show ?thesis by blast
    qed
  next
    fix x assume "x \<in> insert b ?R"
    then show "x \<in> ?L"
    proof
      assume "x = b"
      with assms show ?thesis by (intro CollectI exI [of _ "next_addr bk"]) (simp add: attach_simps)
    next
      assume "x \<in> ?R"
      then obtain m where "x = last (seg bk m)" "placed bk m" "children (nodes bk m) = []" "m \<noteq> n" by blast
      with assms placed_less_neq [OF assms(1)] show ?thesis
        by (intro CollectI exI [of _ m]) (auto simp: attach_simps)
    qed
  qed
  with assms live_less [OF assms(1,2)] show ?thesis
    by (simp add: leaves_but_def attach_fields)
qed

lemma attach_ok:
  assumes "tree_ok bk" "live bk n" "loc bk b = None" "kids bk n b = None" "leaves_but {n} bk"
  shows "radix_ok (attach_child n b bk)"
proof -
  have "seg (attach_child n b bk) 0 = []" "parent (nodes (attach_child n b bk) 0) = None"
    using assms tree_okD [OF assms(1)] by (simp_all add: attach_simps)
  then show ?thesis
    using assms attach_located attach_linked attach_ranked attach_leaves tree_okD [OF assms(1)]
      live_less [OF assms(1,2)]
    by (simp add: radix_ok_def tree_ok_def attach_fields)
qed

lemma attach_tree_parent:
  assumes "tree_ok bk" "live bk n" "loc bk b = None"
  shows "tree_parent (attach_child n b bk) =
           (tree_parent bk)(b \<mapsto> (if n = 0 then None else Some (last (seg bk n))))"
proof
  fix x
  let ?bk = "attach_child n b bk"
  show "tree_parent ?bk x = ((tree_parent bk)(b \<mapsto> (if n = 0 then None else Some (last (seg bk n))))) x"
  proof (cases "x = b")
    case True
    then show ?thesis
      using assms live_less_neq [OF assms(1,2)] seg_empty_iff [OF assms(1,2)]
      by (simp add: tree_parent_def attach_simps)
  next
    case False
    show ?thesis
    proof (cases "loc bk x")
      case None
      with False assms show ?thesis by (simp add: tree_parent_def attach_simps)
    next
      case (Some a)
      then obtain m i where x: "loc bk x = Some (m, i)" by (cases a) auto
      then have m: "placed bk m" "m \<noteq> next_addr bk"
        using locD [OF assms(1)] placed_less_neq [OF assms(1)] by blast+
      from parentE [OF assms(1) m(1)] obtain p where "parent (nodes bk m) = Some p" "live bk p" by blast
      with m False x assms live_less_neq [OF assms(1)] show ?thesis
        by (simp add: tree_parent_def attach_simps)
    qed
  qed
qed

section \<open>Splitting a node\<close>

lemma fold_set_parent:
  "nodes (fold (set_parent q) cs bk) m =
     (if m \<in> set cs then (nodes bk m)\<lparr>parent := Some q\<rparr> else nodes bk m)"
  "locations (fold (set_parent q) cs bk) = locations bk"
  "leaf_ids (fold (set_parent q) cs bk) = leaf_ids bk"
  "next_addr (fold (set_parent q) cs bk) = next_addr bk"
  by (induction cs arbitrary: bk) (auto simp: set_parent_def set_node_def)

text \<open>The children of a node are placed, are not the node itself, and are exactly those that point back.\<close>

lemma child_addrs:
  assumes "tree_ok bk" "placed bk n"
  shows "c \<in> set (map snd (children (nodes bk n))) \<longleftrightarrow> placed bk c \<and> parent (nodes bk c) = Some n"
proof -
  have live: "live bk n" using assms(2) by (simp add: live_def)
  have "c \<in> set (map snd (children (nodes bk n))) \<longleftrightarrow> (\<exists>k. kids bk n k = Some c)"
    by (rule dict_values [OF kids_dict_ok [OF assms(1) live]])
  also have "\<dots> \<longleftrightarrow> placed bk c \<and> parent (nodes bk c) = Some n"
    using kidD [OF assms(1) live] parentE [OF assms(1), of c] by (metis option.inject)
  finally show ?thesis .
qed

lemma parent_neq_self:
  assumes "tree_ok bk" "placed bk n" "parent (nodes bk n) = Some p"
  shows "p \<noteq> n"
  using tree_okD(7) [OF assms(1)] assms(2,3) unfolding ranked_def by (metis less_irrefl)

lemma parent_live:
  assumes "tree_ok bk" "placed bk n" "parent (nodes bk n) = Some p"
  shows "live bk p"
  using assms by (metis option.inject parentE)

definition splittable :: "addr \<Rightarrow> nat \<Rightarrow> radix_backend \<Rightarrow> bool" where
  "splittable n index bk \<longleftrightarrow> tree_ok bk \<and> placed bk n \<and> Suc index < length (seg bk n)"

lemma split_fields:
  assumes "splittable n index bk"
  shows "seg (split_after n index bk) m =
           (if m = n then take (Suc index) (seg bk n)
            else if m = next_addr bk then drop (Suc index) (seg bk n) else seg bk m)" (is ?seg)
    and "parent (nodes (split_after n index bk) m) =
           (if m = next_addr bk then Some n
            else if placed bk m \<and> parent (nodes bk m) = Some n then Some (next_addr bk)
            else parent (nodes bk m))" (is ?parent)
    and "children (nodes (split_after n index bk) m) =
           (if m = n then [(seg bk n ! Suc index, next_addr bk)]
            else if m = next_addr bk then children (nodes bk n) else children (nodes bk m))" (is ?children)
    and "next_addr (split_after n index bk) = Suc (next_addr bk)" (is ?next)
    and "leaf_ids (split_after n index bk) = leaf_ids bk" (is ?leaves)
    and "locations (split_after n index bk) =
           index_from (next_addr bk) 0 (drop (Suc index) (seg bk n))
             (index_from n 0 (take (Suc index) (seg bk n))
               (fold AList.delete (seg bk n) (locations bk)))" (is ?locs)
proof -
  let ?s = "next_addr bk"
  let ?cs = "map snd (children (nodes bk n))"
  have ok: "tree_ok bk" and pn: "placed bk n" and suffix: "drop (Suc index) (seg bk n) \<noteq> []"
    using assms by (auto simp: splittable_def)
  have n: "n \<noteq> ?s" using placed_less_neq [OF ok pn] .
  have cs: "c \<in> set ?cs \<longleftrightarrow> placed bk c \<and> parent (nodes bk c) = Some n" for c
    by (rule child_addrs [OF ok pn])
  have ncs: "n \<notin> set ?cs" "?s \<notin> set ?cs"
    using cs parent_neq_self [OF ok pn] placed_less_neq [OF ok] by blast+
  have hd: "hd (drop (Suc index) (seg bk n)) = seg bk n ! Suc index"
    using suffix by (simp add: hd_drop_conv_nth)
  note defs = split_after_def Let_def unindex_segment_def new_node_def set_node_def index_segment_def
    fold_set_parent
  show ?seg using suffix n ncs by (simp add: defs)
  show ?parent using suffix n ncs cs by (auto simp: defs simp del: set_map)
  show ?children using suffix n ncs hd by (auto simp: defs)
  show ?next using suffix by (simp add: defs)
  show ?leaves using suffix by (simp add: defs)
  show ?locs using suffix n ncs by (simp add: defs)
qed

lemma split_loc:
  assumes "splittable n index bk"
  shows "loc (split_after n index bk) b =
    map_option (\<lambda>(m, i). if m = n \<and> index < i then (next_addr bk, i - Suc index) else (m, i)) (loc bk b)"
proof -
  let ?sg = "seg bk n"
  have ok: "tree_ok bk" and pn: "placed bk n" and len: "Suc index < length ?sg"
    using assms by (auto simp: splittable_def)
  have dist: "distinct ?sg" by (rule placed_distinct [OF ok pn])
  then have dt: "distinct (take (Suc index) ?sg)" "distinct (drop (Suc index) ?sg)" by auto
  show ?thesis
  proof (cases "b \<in> set ?sg")
    case False
    then have "\<nexists>i. loc bk b = Some (n, i)" using loc_seg_iff [OF ok pn] by simp
    moreover have "b \<notin> set (take (Suc index) ?sg)" "b \<notin> set (drop (Suc index) ?sg)"
      using False by (auto dest: in_set_takeD in_set_dropD)
    ultimately show ?thesis
      using False by (cases "loc bk b") (auto simp: split_fields [OF assms] index_from_other fold_delete_map)
  next
    case True
    then obtain i where i: "i < length ?sg" "?sg ! i = b" "loc bk b = Some (n, i)"
      using loc_in_seg [OF ok pn] by blast
    show ?thesis
    proof (cases "index < i")
      case True
      then have "drop (Suc index) ?sg ! (i - Suc index) = b" using i by simp
      then have "map_of (index_from (next_addr bk) 0 (drop (Suc index) ?sg) locs) b
          = Some (next_addr bk, i - Suc index)" for locs
        using index_from_nth [OF dt(2), of "i - Suc index" "next_addr bk" 0 locs] i True by auto
      with True i show ?thesis by (simp add: split_fields [OF assms])
    next
      case False
      then have nth: "take (Suc index) ?sg ! i = b" "i < length (take (Suc index) ?sg)" using i by auto
      then have "b \<in> set (take (Suc index) ?sg)" by (metis nth_mem)
      then have "b \<notin> set (drop (Suc index) ?sg)"
        using dist by (metis append_take_drop_id disjoint_iff distinct_append)
      moreover have "map_of (index_from n 0 (take (Suc index) ?sg) locs) b = Some (n, i)" for locs
        using index_from_nth [OF dt(1) nth(2), of n 0 locs] nth(1) by simp
      ultimately show ?thesis
        using False i by (simp add: split_fields [OF assms] index_from_other)
    qed
  qed
qed

lemma split_placed:
  assumes "splittable n index bk"
  shows "placed (split_after n index bk) m \<longleftrightarrow> m = next_addr bk \<or> placed bk m"
proof -
  let ?bk = "split_after n index bk"
  have ok: "tree_ok bk" and pn: "placed bk n" and len: "Suc index < length (seg bk n)"
    using assms by (auto simp: splittable_def)
  have "loc bk (seg bk n ! Suc index) = Some (n, Suc index)" "loc bk (seg bk n ! 0) = Some (n, 0)"
    using loc_nth [OF ok pn, of "Suc index"] loc_nth [OF ok pn, of 0] len by linarith+
  then have new: "placed ?bk (next_addr bk)" and old: "placed ?bk n"
    unfolding placed_def split_loc [OF assms] by fastforce+
  show ?thesis
  proof
    assume "placed ?bk m"
    then show "m = next_addr bk \<or> placed bk m"
      unfolding placed_def split_loc [OF assms] by (auto split: if_splits)
  next
    assume "m = next_addr bk \<or> placed bk m"
    then show "placed ?bk m"
    proof (elim disjE)
      assume "placed bk m"
      then obtain b i where "loc bk b = Some (m, i)" unfolding placed_def by blast
      then have "m \<noteq> n \<Longrightarrow> loc ?bk b = Some (m, i)" by (simp add: split_loc [OF assms])
      with old show "placed ?bk m" unfolding placed_def by blast
    qed (use new in simp)
  qed
qed

lemma split_live:
  assumes "splittable n index bk"
  shows "live (split_after n index bk) m \<longleftrightarrow> m = next_addr bk \<or> live bk m"
  using split_placed [OF assms] by (auto simp: live_def)

lemma split_located:
  assumes "splittable n index bk"
  shows "located (split_after n index bk)"
proof -
  let ?bk = "split_after n index bk" and ?s = "next_addr bk" and ?sg = "seg bk n"
  have ok: "tree_ok bk" and pn: "placed bk n" and len: "Suc index < length ?sg"
    using assms by (auto simp: splittable_def)
  note simps = split_fields(1-5) [OF assms] split_loc [OF assms]
  have "m \<noteq> 0 \<and> m < next_addr ?bk \<and> i < length (seg ?bk m) \<and> seg ?bk m ! i = x"
    if "loc ?bk x = Some (m, i)" for x m i
  proof -
    from that obtain m' i' where old: "loc bk x = Some (m', i')"
      and new: "(m, i) = (if m' = n \<and> index < i' then (?s, i' - Suc index) else (m', i'))"
      by (auto simp: simps split: prod.splits)
    note d = locD [OF ok old]
    show ?thesis
    proof (cases "m' = n \<and> index < i'")
      case True
      with new have "m = ?s" "i = i' - Suc index" by auto
      moreover have "i' - Suc index < length ?sg - Suc index" using True d(3) by auto
      ultimately show ?thesis
        using True d tree_okD(4) [OF ok] placed_less_neq [OF ok pn]
        by (simp add: split_fields(1-5) [OF assms])
    next
      case False
      with new have "m = m'" "i = i'" by auto
      with False d placed_less_neq [OF ok d(5)] show ?thesis
        by (cases "m' = n") (auto simp: split_fields(1-5) [OF assms])
    qed
  qed
  moreover have "loc ?bk (seg ?bk m ! i) = Some (m, i)" if h: "placed ?bk m" "i < length (seg ?bk m)" for m i
  proof -
    consider "m = n" | "m = ?s" | "placed bk m" "m \<noteq> n" "m \<noteq> ?s"
      using h(1) split_placed [OF assms, of m] by auto
    then show ?thesis
    proof cases
      case 1
      with h(2) len loc_nth [OF ok pn, of i] show ?thesis by (simp add: simps)
    next
      case 2
      with h(2) placed_less_neq [OF ok pn] loc_nth [OF ok pn, of "Suc index + i"]
      show ?thesis by (simp add: simps)
    next
      case 3
      with h(2) loc_nth [OF ok 3(1), of i] show ?thesis by (simp add: simps)
    qed
  qed
  ultimately show ?thesis unfolding located_def by blast
qed

lemma split_linked:
  assumes "splittable n index bk"
  shows "linked (split_after n index bk)"
proof -
  let ?bk = "split_after n index bk" and ?s = "next_addr bk" and ?sg = "seg bk n"
  have ok: "tree_ok bk" and pn: "placed bk n" and len: "Suc index < length ?sg"
    using assms by (auto simp: splittable_def)
  have ns: "n \<noteq> ?s" by (rule placed_less_neq [OF ok pn])
  have hds: "hd (drop (Suc index) ?sg) = ?sg ! Suc index" "hd (take (Suc index) ?sg) = hd ?sg"
    using len by (simp_all add: hd_drop_conv_nth)
  note simps = split_fields(1-5) [OF assms] split_placed [OF assms] split_live [OF assms]
  have ln: "live bk n" using pn by (simp add: live_def)
  have up: "\<exists>p. parent (nodes ?bk m) = Some p \<and> live ?bk p \<and> kids ?bk p (hd (seg ?bk m)) = Some m"
    if "placed ?bk m" for m
  proof (cases "m = ?s")
    case True
    with ns ln hds show ?thesis by (auto simp: simps)
  next
    case False
    with that have m: "placed bk m" by (simp add: simps)
    then obtain p where p: "parent (nodes bk m) = Some p" "live bk p" "kids bk p (hd (seg bk m)) = Some m"
      using ok by (auto elim: parentE)
    have ps: "p \<noteq> ?s" "p \<noteq> m" using live_less_neq [OF ok p(2)] parent_neq_self [OF ok m p(1)] by auto
    show ?thesis
    proof (cases "p = n")
      case True
      with m p(1) False have "parent (nodes ?bk m) = Some ?s" by (simp add: simps)
      moreover have "kids ?bk ?s (hd (seg ?bk m)) = Some m" "live ?bk ?s"
        using True p(3) False ps(2) ns by (simp_all add: simps)
      ultimately show ?thesis by blast
    next
      case pn': False
      with p(1) False have "parent (nodes ?bk m) = Some p" by (simp add: simps)
      moreover have "kids ?bk p (hd (seg ?bk m)) = Some m" "live ?bk p"
        using pn' p(2,3) False ps hds(2) by (auto simp: simps)
      ultimately show ?thesis by blast
    qed
  qed
  have down: "placed ?bk c \<and> parent (nodes ?bk c) = Some m \<and> hd (seg ?bk c) = k"
    if h: "live ?bk m" "kids ?bk m k = Some c" for m k c
  proof -
    consider "m = n" | "m = ?s" | "live bk m" "m \<noteq> n" "m \<noteq> ?s"
      using h(1) split_live [OF assms, of m] by auto
    then show ?thesis
    proof cases
      case 1
      with h(2) have "c = ?s" "k = ?sg ! Suc index" by (simp_all add: simps split: if_splits)
      with 1 ns hds(1) show ?thesis by (simp add: simps)
    next
      case 2
      with h(2) ns have "kids bk n k = Some c" by (auto simp: simps)
      from kidD [OF ok ln this] have c: "placed bk c" "parent (nodes bk c) = Some n" "hd (seg bk c) = k" by auto
      then have "c \<noteq> n" "c \<noteq> ?s" using parent_neq_self [OF ok] placed_less_neq [OF ok] by blast+
      with 2 c show ?thesis by (auto simp: simps)
    next
      case 3
      with h(2) have "kids bk m k = Some c" by (auto simp: simps)
      from kidD [OF ok 3(1) this] have c: "placed bk c" "parent (nodes bk c) = Some m" "hd (seg bk c) = k" by auto
      then have "c \<noteq> ?s" using placed_less_neq [OF ok] by blast
      with 3 c hds show ?thesis by (auto simp: simps)
    qed
  qed
  have "dict_ok (children (nodes ?bk m))" if "live ?bk m" for m
    using that kids_dict_ok [OF ok] ln by (auto simp: simps)
  with up down show ?thesis unfolding linked_def by blast
qed

lemma split_ranked:
  assumes "splittable n index bk"
  shows "ranked (split_after n index bk)"
proof -
  have ok: "tree_ok bk" and pn: "placed bk n" using assms by (auto simp: splittable_def)
  have ns: "n \<noteq> next_addr bk" by (rule placed_less_neq [OF ok pn])
  obtain rank :: "addr \<Rightarrow> nat" where
    rank: "\<And>m p. placed bk m \<Longrightarrow> parent (nodes bk m) = Some p \<Longrightarrow> rank p < rank m"
    using tree_okD(7) [OF ok] unfolding ranked_def by blast
  define rank' where "rank' m = (if m = next_addr bk then Suc (2 * rank n) else 2 * rank m)" for m
  have "rank' p < rank' m"
    if "placed (split_after n index bk) m" "parent (nodes (split_after n index bk) m) = Some p" for m p
  proof (cases "m = next_addr bk")
    case True
    with that ns show ?thesis by (simp add: split_fields(1-5) [OF assms] rank'_def)
  next
    case False
    with that have m: "placed bk m" by (simp add: split_placed [OF assms])
    show ?thesis
    proof (cases "parent (nodes bk m) = Some n")
      case True
      with False m that rank [OF m True] show ?thesis by (simp add: split_fields(1-5) [OF assms] rank'_def)
    next
      case nonchild: False
      with False m that have "parent (nodes bk m) = Some p" by (simp add: split_fields(1-5) [OF assms])
      with False m rank [OF m this] live_less_neq [OF ok parent_live [OF ok m this]]
      show ?thesis by (simp add: rank'_def)
    qed
  qed
  then show ?thesis unfolding ranked_def by blast
qed

lemma split_leaves:
  assumes "splittable n index bk" "leaves_but {} bk"
  shows "leaves_but {} (split_after n index bk)"
proof -
  let ?bk = "split_after n index bk" and ?s = "next_addr bk"
  have ok: "tree_ok bk" and pn: "placed bk n" and len: "Suc index < length (seg bk n)"
    using assms by (auto simp: splittable_def)
  have ns: "n \<noteq> ?s" by (rule placed_less_neq [OF ok pn])
  have last: "last (drop (Suc index) (seg bk n)) = last (seg bk n)" using len by (simp add: last_drop)
  let ?map = "\<lambda>m. if m = n then ?s else m"
  have "{last (seg ?bk m) | m. placed ?bk m \<and> children (nodes ?bk m) = []}
      = {last (seg bk m) | m. placed bk m \<and> children (nodes bk m) = []}" (is "?L = ?R")
  proof (intro equalityI subsetI)
    fix x assume "x \<in> ?L"
    then obtain m where m: "x = last (seg ?bk m)" "placed ?bk m" "children (nodes ?bk m) = []" by blast
    then have "m \<noteq> n" by (auto simp: split_fields(1-5) [OF assms(1)])
    with m pn last show "x \<in> ?R"
      by (cases "m = ?s") (auto simp: split_fields(1-5) [OF assms(1)] split_placed [OF assms(1)])
  next
    fix x assume "x \<in> ?R"
    then obtain m where m: "x = last (seg bk m)" "placed bk m" "children (nodes bk m) = []" by blast
    with ns last placed_less_neq [OF ok m(2)] have "placed ?bk (?map m)" "children (nodes ?bk (?map m)) = []"
      "x = last (seg ?bk (?map m))"
      by (auto simp: split_fields(1-5) [OF assms(1)] split_placed [OF assms(1)])
    then show "x \<in> ?L" by blast
  qed
  with assms(2) show ?thesis by (simp add: leaves_but_def split_fields(1-5) [OF assms(1)])
qed

lemma split_ok:
  assumes "splittable n index bk" "radix_ok bk"
  shows "radix_ok (split_after n index bk)"
proof -
  have ok: "tree_ok bk" and pn: "placed bk n" using assms by (auto simp: splittable_def)
  have "n \<noteq> 0" "0 \<noteq> next_addr bk" using placedD [OF ok pn] tree_okD(4) [OF ok] by auto
  then have "seg (split_after n index bk) 0 = []" "parent (nodes (split_after n index bk) 0) = None"
    using tree_okD [OF ok] by (auto simp: split_fields(1-5) [OF assms(1)])
  then show ?thesis
    using assms split_located split_linked split_ranked split_leaves tree_okD [OF ok]
      split_fields(4,6) [OF assms(1)]
    by (simp add: radix_ok_def tree_ok_def)
qed

lemma split_tree_parent:
  assumes "splittable n index bk"
  shows "tree_parent (split_after n index bk) = tree_parent bk"
proof
  fix b
  let ?bk = "split_after n index bk" and ?s = "next_addr bk" and ?sg = "seg bk n"
  have ok: "tree_ok bk" and pn: "placed bk n" and len: "Suc index < length ?sg"
    using assms by (auto simp: splittable_def)
  have ns: "n \<noteq> ?s" by (rule placed_less_neq [OF ok pn])
  note simps = split_fields(1-5) [OF assms] split_loc [OF assms]
  show "tree_parent ?bk b = tree_parent bk b"
  proof (cases "loc bk b")
    case None
    then show ?thesis by (simp add: tree_parent_def simps)
  next
    case (Some a)
    then obtain m i where b: "loc bk b = Some (m, i)" by (cases a) auto
    note d = locD [OF ok b]
    from d(5) obtain p where p: "parent (nodes bk m) = Some p" "live bk p" using ok by (auto elim: parentE)
    have neq: "m \<noteq> ?s" "p \<noteq> ?s" "p \<noteq> m"
      using placed_less_neq [OF ok d(5)] live_less_neq [OF ok p(2)] parent_neq_self [OF ok d(5) p(1)] by auto
    consider "m = n" "i \<le> index" | "m = n" "index < i" | "m \<noteq> n" "p = n" | "m \<noteq> n" "p \<noteq> n"
      by fastforce
    then show ?thesis
    proof cases
      case 1
      with b p neq ns show ?thesis by (auto simp: tree_parent_def simps)
    next
      case 2
      have "last (take (Suc index) ?sg) = ?sg ! index" "take (Suc index) ?sg \<noteq> []"
        using len by (auto simp: take_Suc_conv_app_nth)
      moreover have "Suc (index + (i - Suc index - 1)) = i - 1" if "i \<noteq> Suc index" using that 2 by simp
      ultimately show ?thesis
        using 2 b ns d by (cases "i = Suc index") (auto simp: tree_parent_def simps)
    next
      case 3
      have "last (drop (Suc index) ?sg) = last ?sg" "?sg \<noteq> []" using len by (auto simp: last_drop)
      with 3 b p d neq ns len show ?thesis by (auto simp: tree_parent_def simps)
    next
      case 4
      with b p d neq show ?thesis by (auto simp: tree_parent_def simps)
    qed
  qed
qed

end
