(* ===== verification/Radix_Spec.thy ===== *)
theory Radix_Spec
  imports Radix_Tree
begin

text \<open>
  What the operations of the radix tree promise, stated over the parent map \<open>tree_parent\<close>
  that a store stands for: the structure of blocks as a forest (the locale \<open>block_forest\<close>,
  interpreted on the stores), insertion, removal, children, leaves, lookups, paths and
  subtrees.
\<close>

section \<open>Forests given by a parent map\<close>

type_synonym 'b parent_map = "'b \<rightharpoonup> 'b option"

definition parent_step :: "'b parent_map \<Rightarrow> 'b \<Rightarrow> 'b \<Rightarrow> bool" where
  "parent_step par b p \<longleftrightarrow> par b = Some (Some p)"

definition kids_of :: "'b parent_map \<Rightarrow> 'b \<Rightarrow> 'b set" where
  "kids_of par p = {b. parent_step par b p}"

definition descends :: "'b parent_map \<Rightarrow> 'b \<Rightarrow> 'b \<Rightarrow> bool" where
  "descends par = (parent_step par)\<^sup>*\<^sup>*"

lemma descends_refl [simp, intro]: "descends par b b"
  by (simp add: descends_def)

lemma descends_step: "parent_step par b p \<Longrightarrow> descends par p a \<Longrightarrow> descends par b a"
  unfolding descends_def by (rule converse_rtranclp_into_rtranclp)

lemma descends_single: "parent_step par b p \<Longrightarrow> descends par b p"
  by (rule descends_step) auto

lemma descends_trans: "descends par b p \<Longrightarrow> descends par p a \<Longrightarrow> descends par b a"
  unfolding descends_def by (rule rtranclp_trans)

lemma descends_cases: "descends par b a \<longleftrightarrow> b = a \<or> (\<exists>p. parent_step par b p \<and> descends par p a)"
proof
  show "b = a \<or> (\<exists>p. parent_step par b p \<and> descends par p a)" if "descends par b a"
    using that unfolding descends_def by (cases rule: converse_rtranclpE) auto
  show "descends par b a" if "b = a \<or> (\<exists>p. parent_step par b p \<and> descends par p a)"
    using that descends_step by (metis descends_refl)
qed

lemma descends_via_kid: "descends par b a \<longleftrightarrow> b = a \<or> (\<exists>k \<in> kids_of par a. descends par b k)"
proof
  show "b = a \<or> (\<exists>k \<in> kids_of par a. descends par b k)" if "descends par b a"
    using that unfolding descends_def kids_of_def by (cases rule: rtranclp.cases) auto
  show "descends par b a" if "b = a \<or> (\<exists>k \<in> kids_of par a. descends par b k)"
    using that by (auto simp: kids_of_def dest: descends_single intro: descends_trans)
qed

text \<open>The longest prefix of a list of ids that is a path of the forest, starting below \<open>q\<close>.\<close>

fun hit_count :: "'b parent_map \<Rightarrow> 'b option \<Rightarrow> 'b list \<Rightarrow> nat" where
  "hit_count par q [] = 0"
| "hit_count par q (b # bs) = (if par b = Some q then Suc (hit_count par (Some b) bs) else 0)"

text \<open>The path from below the root to a block.\<close>

fun root_path :: "'b parent_map \<Rightarrow> 'b option \<Rightarrow> 'b list \<Rightarrow> bool" where
  "root_path par q [] = True"
| "root_path par q (b # bs) = (par b = Some q \<and> root_path par (Some b) bs)"

lemma hit_count_le: "hit_count par q bs \<le> length bs"
  by (induction bs arbitrary: q) auto

lemma hit_count_root_path: "root_path par q (take (hit_count par q bs) bs)"
  by (induction bs arbitrary: q) auto

lemma hit_count_maximal: "root_path par q (take k bs) \<Longrightarrow> k \<le> length bs \<Longrightarrow> k \<le> hit_count par q bs"
proof (induction bs arbitrary: q k)
  case (Cons b bs)
  then show ?case by (cases k) auto
qed simp

lemma root_path_append:
  "root_path par q (xs @ ys) \<longleftrightarrow> root_path par q xs \<and> root_path par (if xs = [] then q else Some (last xs)) ys"
  by (induction xs arbitrary: q) auto

lemma hit_count_append:
  "root_path par q xs \<Longrightarrow>
   hit_count par q (xs @ ys) = length xs + hit_count par (if xs = [] then q else Some (last xs)) ys"
  by (induction xs arbitrary: q) auto

locale block_forest =
  fixes ok :: "'s \<Rightarrow> bool" and par :: "'s \<Rightarrow> 'b parent_map"
  assumes finite_blocks: "ok s \<Longrightarrow> finite (dom (par s))"
    and parent_present: "ok s \<Longrightarrow> parent_step (par s) b p \<Longrightarrow> p \<in> dom (par s)"
    and ranked_blocks: "ok s \<Longrightarrow> \<exists>rank :: 'b \<Rightarrow> nat. \<forall>b p. parent_step (par s) b p \<longrightarrow> rank p < rank b"
begin

lemma no_cycle:
  assumes "ok s" "parent_step (par s) b p"
  shows "\<not> descends (par s) p b"
proof
  assume d: "descends (par s) p b"
  obtain rank :: "'b \<Rightarrow> nat" where r: "\<And>b p. parent_step (par s) b p \<Longrightarrow> rank p < rank b"
    using ranked_blocks [OF assms(1)] by blast
  have "rank b \<le> rank p" using d unfolding descends_def
    by (induction rule: rtranclp_induct) (auto dest: r)
  with r [OF assms(2)] show False by simp
qed

lemma descends_antisym: "ok s \<Longrightarrow> descends (par s) a b \<Longrightarrow> descends (par s) b a \<Longrightarrow> a = b"
  using no_cycle descends_cases descends_trans by metis

lemma descends_present: "ok s \<Longrightarrow> descends (par s) b a \<Longrightarrow> b \<in> dom (par s) \<Longrightarrow> a \<in> dom (par s)"
  unfolding descends_def by (rotate_tac 1, induction rule: rtranclp_induct) (auto dest: parent_present)

text \<open>Ancestors of a block form a chain.\<close>

lemma ancestors_chain:
  assumes "descends (par s) b x" "descends (par s) b y"
  shows "descends (par s) x y \<or> descends (par s) y x"
  using assms unfolding descends_def
proof (induction rule: converse_rtranclp_induct)
  case base
  then show ?case by simp
next
  case (step b p)
  from step.prems show ?case
  proof (cases rule: converse_rtranclpE)
    case base
    have "(parent_step (par s))\<^sup>*\<^sup>* b x" using step.hyps by (rule converse_rtranclp_into_rtranclp)
    with base show ?thesis by simp
  next
    case (step q)
    with \<open>parent_step (par s) b p\<close> have "q = p" by (simp add: parent_step_def)
    with step show ?thesis using \<open>(parent_step (par s))\<^sup>*\<^sup>* p y \<Longrightarrow> _\<close> by simp
  qed
qed

text \<open>Induction from the leaves to the roots, and from the roots to the leaves.\<close>

lemma root_induct:
  assumes "ok s" and "\<And>b. (\<And>p. parent_step (par s) b p \<Longrightarrow> P p) \<Longrightarrow> P b"
  shows "P b"
proof -
  obtain rank :: "'b \<Rightarrow> nat" where r: "\<And>b p. parent_step (par s) b p \<Longrightarrow> rank p < rank b"
    using ranked_blocks [OF assms(1)] by blast
  show ?thesis
  proof (induction "rank b" arbitrary: b rule: less_induct)
    case less
    then show ?case using assms(2) r by blast
  qed
qed

lemma finite_descendants: "ok s \<Longrightarrow> finite {x \<in> dom (par s). descends (par s) x b}"
  using finite_blocks by simp

lemma leaf_induct:
  assumes "ok s" and "\<And>b. (\<And>k. k \<in> kids_of (par s) b \<Longrightarrow> P k) \<Longrightarrow> P b"
  shows "P b"
proof -
  let ?D = "\<lambda>b. {x \<in> dom (par s). descends (par s) x b}"
  show ?thesis
  proof (induction "card (?D b)" arbitrary: b rule: less_induct)
    case less
    show ?case
    proof (rule assms(2))
      fix k
      assume k: "k \<in> kids_of (par s) b"
      then have step: "parent_step (par s) k b" by (simp add: kids_of_def)
      then have "?D k \<subseteq> ?D b"
        using descends_trans [OF _ descends_single [OF step]] by auto
      moreover have "b \<in> ?D b" "b \<notin> ?D k"
        using parent_present [OF assms(1) step] no_cycle [OF assms(1) step] by auto
      ultimately have "card (?D k) < card (?D b)"
        using finite_descendants [OF assms(1)] by (intro psubset_card_mono) auto
      then show "P k" by (rule less)
    qed
  qed
qed

text \<open>Every block has a root path, and it is unique.\<close>

lemma root_path_exists:
  assumes "ok s" "b \<in> dom (par s)"
  shows "\<exists>xs. root_path (par s) None xs \<and> xs \<noteq> [] \<and> last xs = b"
  using assms(2)
proof (induction b rule: root_induct [OF assms(1)])
  case (1 b)
  then obtain q where q: "par s b = Some q" by blast
  show ?case
  proof (cases q)
    case None
    with q show ?thesis by (intro exI [of _ "[b]"]) simp
  next
    case (Some p)
    with q "1"(1) parent_present [OF assms(1)] obtain xs
      where "root_path (par s) None xs" "xs \<noteq> []" "last xs = p" by (auto simp: parent_step_def)
    with q Some show ?thesis by (intro exI [of _ "xs @ [b]"]) (simp add: root_path_append)
  qed
qed

end

section \<open>Stores as forests\<close>

lemma dom_tree_parent: "dom (tree_parent bk) = dom (loc bk)"
  by (auto simp: tree_parent_def split: option.splits)

lemma tree_parent_None: "tree_parent bk b = None \<longleftrightarrow> loc bk b = None"
  by (auto simp: tree_parent_def split: option.splits)

lemma in_tree: "b \<notin> dom (tree_parent bk) \<longleftrightarrow> loc bk b = None"
  unfolding dom_tree_parent domIff by blast

text \<open>Where the children of a block and the blocks below the root are.\<close>

lemma head_of_placed:
  assumes "tree_ok bk" "placed bk c"
  shows "loc bk (hd (seg bk c)) = Some (c, 0)"
  using loc_nth [OF assms, of 0] placedD(3) [OF assms] by (simp add: hd_conv_nth)

lemma kid_loc:
  assumes "tree_ok bk" "live bk n"
  shows "kids bk n b = Some c \<longleftrightarrow> loc bk b = Some (c, 0) \<and> parent (nodes bk c) = Some n"
proof
  show "loc bk b = Some (c, 0) \<and> parent (nodes bk c) = Some n" if "kids bk n b = Some c"
    using kidD [OF assms that] head_of_placed [OF assms(1)] by auto
  show "kids bk n b = Some c" if h: "loc bk b = Some (c, 0) \<and> parent (nodes bk c) = Some n"
  proof -
    from h have c: "placed bk c" "seg bk c ! 0 = b" "parent (nodes bk c) = Some n"
      using locD [OF assms(1)] by blast+
    then show ?thesis using parentE [OF assms(1) c(1)] placedD(3) [OF assms(1) c(1)]
      by (metis hd_conv_nth option.inject)
  qed
qed

lemma last_loc: "tree_ok bk \<Longrightarrow> placed bk n \<Longrightarrow> loc bk (last (seg bk n)) = Some (n, length (seg bk n) - 1)"
  using loc_nth [of bk n "length (seg bk n) - 1"] placedD(3) by (simp add: last_conv_nth)

lemma child_of_block:
  assumes "tree_ok bk" "loc bk p = Some (n, i)"
  shows "tree_parent bk b = Some (Some p) \<longleftrightarrow>
    (if Suc i < length (seg bk n) then b = seg bk n ! Suc i else kids bk n b \<noteq> None)"
proof -
  note p = locD [OF assms]
  have ln: "live bk n" using p(5) by (simp add: live_def)
  have inside: "tree_parent bk b = Some (Some p) \<longleftrightarrow> m = n \<and> j = Suc i"
    if "loc bk b = Some (m, j)" "0 < j" for m j
  proof -
    note b = locD [OF assms(1) that(1)]
    have "loc bk (seg bk m ! (j - 1)) = Some (m, j - 1)"
      using loc_nth [OF assms(1) b(5)] b(3) by simp
    then have "seg bk m ! (j - 1) = p \<longleftrightarrow> m = n \<and> j = Suc i"
      using that(2) assms(2) p(4) by (metis Suc_pred' diff_Suc_1 option.inject prod.inject)
    then show ?thesis using that by (simp add: tree_parent_def)
  qed
  have first: "tree_parent bk b = Some (Some p) \<longleftrightarrow> parent (nodes bk m) = Some n \<and> Suc i = length (seg bk n)"
    if h: "loc bk b = Some (m, 0)" for m
  proof -
    note b = locD [OF assms(1) h]
    from b(5) obtain q where q: "parent (nodes bk m) = Some q" "live bk q"
      using assms(1) by (auto elim: parentE)
    show ?thesis
    proof (cases "q = 0")
      case True
      with h q p(1) tree_okD(2) [OF assms(1)] show ?thesis by (simp add: tree_parent_def)
    next
      case False
      with q have pq: "placed bk q" by (simp add: live_def)
      have "tree_parent bk b = Some (Some p) \<longleftrightarrow> last (seg bk q) = p"
        using h q placedD(3) [OF assms(1) pq] by (simp add: tree_parent_def)
      also have "\<dots> \<longleftrightarrow> q = n \<and> Suc i = length (seg bk n)"
        using last_loc [OF assms(1) pq] assms(2) p(3,4) placedD(3) [OF assms(1) pq]
        by (metis Suc_diff_1 diff_Suc_1 last_conv_nth length_greater_0_conv option.inject prod.inject)
      finally show ?thesis using q by simp
    qed
  qed
  show ?thesis
  proof (cases "loc bk b")
    case None
    then have "tree_parent bk b = None" by (simp add: tree_parent_None)
    moreover have "Suc i < length (seg bk n) \<Longrightarrow> b \<noteq> seg bk n ! Suc i" "kids bk n b = None"
      using None loc_nth [OF assms(1) p(5)] kid_loc [OF assms(1) ln, of b] by force+
    ultimately show ?thesis by simp
  next
    case (Some a)
    then obtain m j where b: "loc bk b = Some (m, j)" by (cases a) auto
    show ?thesis
    proof (cases "j = 0")
      case True
      with b first [of m] show ?thesis
        using kid_loc [OF assms(1) ln, of b] p(3) loc_nth [OF assms(1) p(5), of "Suc i"] by force
    next
      case False
      with b inside [of m j] show ?thesis
        using kid_loc [OF assms(1) ln, of b] locD [OF assms(1) b] loc_nth [OF assms(1) p(5), of "Suc i"] by force
    qed
  qed
qed

lemma child_of_root:
  assumes "tree_ok bk"
  shows "tree_parent bk b = Some None \<longleftrightarrow> kids bk 0 b \<noteq> None"
proof (cases "loc bk b")
  case None
  then show ?thesis using kid_loc [OF assms, of 0 b] by (auto simp: tree_parent_def live_def)
next
  case (Some a)
  then obtain m j where b: "loc bk b = Some (m, j)" by (cases a) auto
  note d = locD [OF assms b]
  from d(5) obtain q where q: "parent (nodes bk m) = Some q" "live bk q" using assms by (auto elim: parentE)
  then have "seg bk q = [] \<longleftrightarrow> q = 0" using seg_empty_iff [OF assms] by blast
  with b q kid_loc [OF assms, of 0 b] show ?thesis by (auto simp: tree_parent_def live_def)
qed

lemma tree_parent_present:
  assumes "tree_ok bk" "tree_parent bk b = Some (Some p)"
  shows "loc bk p \<noteq> None"
proof -
  from assms(2) obtain m i where b: "loc bk b = Some (m, i)"
    by (cases "loc bk b") (auto simp: tree_parent_def)
  note d = locD [OF assms(1) b]
  from d(5) obtain q where q: "parent (nodes bk m) = Some q" "live bk q" using assms(1) by (auto elim: parentE)
  show ?thesis
  proof (cases "0 < i")
    case True
    with assms(2) b d loc_nth [OF assms(1) d(5), of "i - 1"] show ?thesis by (auto simp: tree_parent_def)
  next
    case False
    with assms(2) b q have "seg bk q \<noteq> []" "p = last (seg bk q)"
      by (auto simp: tree_parent_def split: if_splits)
    with q seg_empty_iff [OF assms(1) q(2)] last_loc [OF assms(1)] show ?thesis by (auto simp: live_def)
  qed
qed

lemma tree_parent_ranked:
  assumes "tree_ok bk"
  shows "\<exists>rank :: block_id \<Rightarrow> nat. \<forall>b p. tree_parent bk b = Some (Some p) \<longrightarrow> rank p < rank b"
proof -
  obtain r :: "addr \<Rightarrow> nat" where
    r: "\<And>m p. placed bk m \<Longrightarrow> parent (nodes bk m) = Some p \<Longrightarrow> r p < r m"
    using tree_okD(7) [OF assms] unfolding ranked_def by blast
  define L where "L = Suc (Max ((\<lambda>n. length (seg bk n)) ` {..<next_addr bk}))"
  have L: "i < L" if "loc bk b = Some (n, i)" for b n i
  proof -
    have "length (seg bk n) \<le> Max ((\<lambda>n. length (seg bk n)) ` {..<next_addr bk})"
      using locD(2) [OF assms that] by (intro Max_ge) auto
    with locD(3) [OF assms that] show ?thesis by (simp add: L_def)
  qed
  define rank where "rank b = (case loc bk b of None \<Rightarrow> 0 | Some (n, i) \<Rightarrow> r n * L + i)" for b
  have "rank p < rank b" if h: "tree_parent bk b = Some (Some p)" for b p
  proof -
    from tree_parent_present [OF assms h] obtain n i where p: "loc bk p = Some (n, i)" by auto
    have pn: "placed bk n" using locD [OF assms p] by simp
    from h child_of_block [OF assms p] have c:
      "if Suc i < length (seg bk n) then b = seg bk n ! Suc i else kids bk n b \<noteq> None" by simp
    show ?thesis
    proof (cases "Suc i < length (seg bk n)")
      case True
      with c loc_nth [OF assms pn, of "Suc i"] p show ?thesis by (simp add: rank_def)
    next
      case False
      with c obtain m where m: "kids bk n b = Some m" by auto
      then have b: "loc bk b = Some (m, 0)" "parent (nodes bk m) = Some n"
        using kid_loc [OF assms, of n b m] pn by (auto simp: live_def)
      have "r n < r m" using r [OF _ b(2)] locD [OF assms b(1)] by simp
      then have "Suc (r n) * L \<le> r m * L" by (intro mult_le_mono1) simp
      with L [OF p] p b show ?thesis by (simp add: rank_def)
    qed
  qed
  then show ?thesis by blast
qed

interpretation forest: block_forest radix_ok tree_parent
proof
  fix s b p
  assume ok: "radix_ok s"
  then have t: "tree_ok s" by (simp add: radix_ok_def)
  show "finite (dom (tree_parent s))" by (simp add: dom_tree_parent finite_dom_map_of)
  show "\<exists>rank :: block_id \<Rightarrow> nat. \<forall>b p. parent_step (tree_parent s) b p \<longrightarrow> rank p < rank b"
    using tree_parent_ranked [OF t] by (simp add: parent_step_def)
  show "p \<in> dom (tree_parent s)" if "parent_step (tree_parent s) b p"
    using tree_parent_present [OF t] that by (auto simp: dom_tree_parent parent_step_def)
qed

section \<open>Insertion\<close>

lemma leaf_ids_irrelevant [simp]:
  "placed (bk\<lparr>leaf_ids := ls\<rparr>) n = placed bk n"
  "live (bk\<lparr>leaf_ids := ls\<rparr>) n = live bk n"
  "tree_ok (bk\<lparr>leaf_ids := ls\<rparr>) = tree_ok bk"
  by (simp_all add: tree_ok_def located_def linked_def ranked_def live_def placed_def)

lemma leaf_ids_tree_parent [simp]: "tree_parent (bk\<lparr>leaf_ids := ls\<rparr>) = tree_parent bk"
  by (auto simp: tree_parent_def fun_eq_iff split: option.splits)

lemma radix_okD: "radix_ok bk \<Longrightarrow> tree_ok bk" "radix_ok bk \<Longrightarrow> leaves_but {} bk"
  by (simp_all add: radix_ok_def)

text \<open>After a split (if any) the block is the last one of its node.\<close>

lemma split_at_block:
  assumes "radix_ok bk" "loc bk p = Some (n, i)"
  shows "radix_ok (split_after n i bk)" "tree_parent (split_after n i bk) = tree_parent bk"
    "placed (split_after n i bk) n" "last (seg (split_after n i bk) n) = p"
proof -
  note ok = radix_okD(1) [OF assms(1)]
  note d = locD [OF ok assms(2)]
  have "radix_ok (split_after n i bk) \<and> tree_parent (split_after n i bk) = tree_parent bk
    \<and> placed (split_after n i bk) n \<and> last (seg (split_after n i bk) n) = p"
  proof (cases "splittable n i bk")
    case True
    then have len: "Suc i < length (seg bk n)" by (simp add: splittable_def)
    show ?thesis
      using True assms(1) d split_ok [OF True assms(1)] split_tree_parent [OF True] split_placed [OF True, of n]
        split_fields(1) [OF True, of n] len
      by (simp add: take_Suc_conv_app_nth)
  next
    case False
    with ok d have len: "Suc i = length (seg bk n)" by (simp add: splittable_def)
    then have "split_after n i bk = bk" by (simp add: split_after_def)
    moreover have "last (seg bk n) = p" using d placedD(3) [OF ok d(5)] len by (metis diff_Suc_1 last_conv_nth)
    ultimately show ?thesis using assms d by simp
  qed
  then show "radix_ok (split_after n i bk)" "tree_parent (split_after n i bk) = tree_parent bk"
    "placed (split_after n i bk) n" "last (seg (split_after n i bk) n) = p" by auto
qed

definition clear_leaf :: "addr \<Rightarrow> radix_backend \<Rightarrow> radix_backend" where
  "clear_leaf n bk = (if children (nodes bk n) = [] then discard_leaf n bk else bk)"

lemma clear_leaf_fields [simp]:
  "locations (clear_leaf n bk) = locations bk" "nodes (clear_leaf n bk) = nodes bk"
  by (simp_all add: clear_leaf_def discard_leaf_def Let_def)

lemma last_placed_inj:
  assumes "tree_ok bk" "placed bk n" "placed bk m" "last (seg bk n) = last (seg bk m)"
  shows "n = m"
  using assms last_loc by (metis option.inject prod.inject)

lemma clear_leaf_ok:
  assumes "radix_ok bk" "placed bk n"
  shows "tree_ok (clear_leaf n bk)" "tree_parent (clear_leaf n bk) = tree_parent bk"
    "live (clear_leaf n bk) m \<longleftrightarrow> live bk m" "leaves_but {n} (clear_leaf n bk)"
proof -
  note ok = radix_okD [OF assms(1)]
  note pl = placedD(3) [OF ok(1) assms(2)]
  show "tree_ok (clear_leaf n bk)" "tree_parent (clear_leaf n bk) = tree_parent bk"
    "live (clear_leaf n bk) m \<longleftrightarrow> live bk m"
    using ok by (simp_all add: clear_leaf_def discard_leaf_def Let_def)
  show "leaves_but {n} (clear_leaf n bk)"
  proof (cases "children (nodes bk n) = []")
    case True
    have neq: "last (seg bk m) = last (seg bk n) \<longleftrightarrow> m = n" if "placed bk m" for m
      using last_placed_inj [OF ok(1) that assms(2)] by auto
    from True have "leaf_ids (clear_leaf n bk) = removeAll (last (seg bk n)) (leaf_ids bk)"
      using pl by (simp add: clear_leaf_def discard_leaf_def)
    moreover have "{last (seg bk m) | m. placed bk m \<and> children (nodes bk m) = []} - {last (seg bk n)}
        = {last (seg bk m) | m. placed bk m \<and> children (nodes bk m) = [] \<and> m \<noteq> n}"
      using neq by auto
    ultimately show ?thesis
      using ok(2) True pl
      by (simp add: leaves_but_def clear_leaf_def discard_leaf_def distinct_removeAll)
  next
    case False
    then have "children (nodes bk m) = [] \<and> m \<noteq> n \<longleftrightarrow> children (nodes bk m) = []" for m by auto
    with False ok(2) show ?thesis by (simp add: leaves_but_def clear_leaf_def)
  qed
qed

lemma fresh_child:
  assumes "tree_ok bk" "live bk n" "loc bk b = None"
  shows "kids bk n b = None"
  using kid_loc [OF assms(1,2), of b] assms(3) by (cases "kids bk n b") auto

lemma insert_child_ok:
  assumes "radix_ok bk" "loc bk b = None" "\<And>p. q = Some p \<Longrightarrow> loc bk p \<noteq> None"
  shows "\<exists>bk'. insert_child q b bk = Inr bk' \<and> radix_ok bk' \<and> tree_parent bk' = (tree_parent bk)(b \<mapsto> q)"
proof (cases q)
  case None
  have t: "tree_ok bk" "live bk 0" using assms(1) by (auto simp: radix_ok_def live_def)
  have "leaves_but {0} bk"
    using assms(1) placedD(1) [OF t(1)] by (auto simp: radix_ok_def leaves_but_def)
  then have "radix_ok (attach_child 0 b bk)" "tree_parent (attach_child 0 b bk) = (tree_parent bk)(b \<mapsto> None)"
    using attach_ok [OF t assms(2) fresh_child [OF t assms(2)]] attach_tree_parent [OF t assms(2)] by simp_all
  with None assms(2) fresh_child [OF t assms(2)] show ?thesis by (simp add: insert_child_def)
next
  case (Some p)
  with assms(3) obtain n i where p: "loc bk p = Some (n, i)" by auto
  define bk1 where "bk1 = split_after n i bk"
  note s = split_at_block [OF assms(1) p, folded bk1_def]
  define bk2 where "bk2 = clear_leaf n bk1"
  note c = clear_leaf_ok [OF s(1,3), folded bk2_def]
  have n: "live bk2 n" "n \<noteq> 0" using s(3) c(3) placedD(1) [OF radix_okD(1) [OF s(1)]] by (auto simp: live_def)
  have fresh: "loc bk2 b = None" using assms(2) c(2) s(2) by (metis tree_parent_None)
  have "nodes bk2 = nodes bk1" by (simp add: bk2_def)
  then have "tree_parent (attach_child n b bk2) = (tree_parent bk)(b \<mapsto> Some p)"
    using attach_tree_parent [OF c(1) n(1) fresh] n(2) s(2,4) c(2) by simp
  moreover have "radix_ok (attach_child n b bk2)"
    by (rule attach_ok [OF c(1) n(1) fresh fresh_child [OF c(1) n(1) fresh] c(4)])
  moreover have "insert_child q b bk = Inr (attach_child n b bk2)"
    using Some p assms(2) fresh_child [OF c(1) n(1) fresh]
    by (simp add: insert_child_def Let_def bk2_def bk1_def clear_leaf_def)
  ultimately show ?thesis using Some by blast
qed

section \<open>Removal\<close>

lemma kids_of_block:
  assumes "tree_ok bk" "loc bk b = Some (n, i)"
  shows "kids_of (tree_parent bk) b =
    (if Suc i < length (seg bk n) then {seg bk n ! Suc i} else set (map fst (children (nodes bk n))))"
proof -
  have "x \<in> set (map fst (children (nodes bk n))) \<longleftrightarrow> kids bk n x \<noteq> None" for x
    by (simp only: keys_dict) (auto simp: dom_def)
  then show ?thesis by (simp only: set_eq_iff) (auto simp: kids_of_def parent_step_def child_of_block [OF assms])
qed

lemma childless_block:
  assumes "tree_ok bk" "loc bk b = Some (n, i)"
  shows "kids_of (tree_parent bk) b = {} \<longleftrightarrow> Suc i = length (seg bk n) \<and> children (nodes bk n) = []"
  using locD(3) [OF assms] by (auto simp: kids_of_block [OF assms])

lemma add_leaf_ok:
  assumes "tree_ok bk" "live bk m" "leaves_but {m} bk"
  shows "radix_ok (add_leaf m bk)" "tree_parent (add_leaf m bk) = tree_parent bk"
proof -
  let ?leaf = "seg bk m \<noteq> [] \<and> children (nodes bk m) = []"
  have pm: "?leaf \<longleftrightarrow> placed bk m \<and> children (nodes bk m) = []"
    using assms(1,2) tree_okD(2) placedD(3) by (auto simp: live_def)
  have set: "{last (seg bk n) | n. placed bk n \<and> children (nodes bk n) = []} =
      (if ?leaf then insert (last (seg bk m)) else id)
        {last (seg bk n) | n. placed bk n \<and> children (nodes bk n) = [] \<and> n \<noteq> m}"
    unfolding pm by (auto split: if_splits)
  show "radix_ok (add_leaf m bk)"
    using assms(1,3) set by (cases ?leaf) (auto simp: radix_ok_def leaves_but_def add_leaf_def Let_def)
  show "tree_parent (add_leaf m bk) = tree_parent bk" by (simp add: add_leaf_def Let_def)
qed

text \<open>The two shapes of removal, before the leaf set is completed.\<close>

definition drop_node :: "block_id \<Rightarrow> addr \<Rightarrow> radix_backend \<Rightarrow> radix_backend" where
  "drop_node b p bk = set_node p ((nodes bk p)\<lparr>children := AList.delete b (children (nodes bk p))\<rparr>)
     (bk\<lparr>locations := AList.delete b (locations bk), leaf_ids := removeAll b (leaf_ids bk)\<rparr>)"

definition drop_last :: "block_id \<Rightarrow> addr \<Rightarrow> radix_backend \<Rightarrow> radix_backend" where
  "drop_last b n bk = set_node n ((nodes bk n)\<lparr>segment := butlast (segment (nodes bk n))\<rparr>)
     (bk\<lparr>locations := AList.delete b (locations bk), leaf_ids := removeAll b (leaf_ids bk)\<rparr>)"

lemma drop_node_fields:
  "nodes (drop_node b p bk) =
     (nodes bk)(p := (nodes bk p)\<lparr>children := AList.delete b (children (nodes bk p))\<rparr>)"
  "locations (drop_node b p bk) = AList.delete b (locations bk)"
  "leaf_ids (drop_node b p bk) = removeAll b (leaf_ids bk)"
  "next_addr (drop_node b p bk) = next_addr bk"
  by (simp_all add: drop_node_def set_node_def)

lemma drop_last_fields:
  "nodes (drop_last b n bk) = (nodes bk)(n := (nodes bk n)\<lparr>segment := butlast (segment (nodes bk n))\<rparr>)"
  "locations (drop_last b n bk) = AList.delete b (locations bk)"
  "leaf_ids (drop_last b n bk) = removeAll b (leaf_ids bk)"
  "next_addr (drop_last b n bk) = next_addr bk"
  by (simp_all add: drop_last_def set_node_def)

lemma drop_node_ok:
  assumes ok: "radix_ok bk" and b: "loc bk b = Some (n, 0)" and sg: "seg bk n = [b]"
    and ch: "children (nodes bk n) = []" and p: "parent (nodes bk n) = Some p"
  shows "tree_ok (drop_node b p bk)" "live (drop_node b p bk) p" "leaves_but {p} (drop_node b p bk)"
    "tree_parent (drop_node b p bk) = (tree_parent bk)(b := None)"
proof -
  let ?bk = "drop_node b p bk"
  note t = radix_okD(1) [OF ok] and lv = radix_okD(2) [OF ok]
  note d = locD [OF t b]
  have lp: "live bk p" by (rule parent_live [OF t d(5) p])
  have pn: "p \<noteq> n" by (rule parent_neq_self [OF t d(5) p])
  have loc': "loc ?bk = (loc bk)(b := None)" by (simp add: drop_node_fields dict_simps)
  have seg': "seg ?bk m = seg bk m" "parent (nodes ?bk m) = parent (nodes bk m)" for m
    by (auto simp: drop_node_fields)
  have kids': "children (nodes ?bk m) = (if m = p then AList.delete b (children (nodes bk p)) else children (nodes bk m))" for m
    by (auto simp: drop_node_fields)
  have only: "x = b" if "loc bk x = Some (n, i)" for x i
    using locD [OF t that] sg by simp
  have other: "m \<noteq> n" if "loc bk x = Some (m, i)" "x \<noteq> b" for x m i
    using only that by blast
  have pl: "placed ?bk m \<longleftrightarrow> placed bk m \<and> m \<noteq> n" for m
  proof -
    have "loc ?bk x = Some (m, i) \<longleftrightarrow> loc bk x = Some (m, i) \<and> m \<noteq> n" for x i
      using b other [of x m i] by (cases "x = b") (auto simp: loc')
    then show ?thesis by (auto simp: placed_def)
  qed
  have li: "live ?bk m \<longleftrightarrow> live bk m \<and> m \<noteq> n" for m using pl d(1) by (auto simp: live_def)
  have kb: "kids bk p b = Some n" using kid_loc [OF t lp] b p by blast
  have chn: "kids bk n k = None" for k using ch by simp
  have "located ?bk"
    unfolding located_def
  proof (intro conjI allI impI)
    fix x m i
    assume "loc ?bk x = Some (m, i)"
    then have "loc bk x = Some (m, i)" by (auto simp: loc' split: if_splits)
    from locD [OF t this] show "m \<noteq> 0" "m < next_addr ?bk" "i < length (seg ?bk m)" "seg ?bk m ! i = x"
      by (simp_all add: seg' drop_node_fields(4))
  next
    fix m i
    assume h: "placed ?bk m \<and> i < length (seg ?bk m)"
    then have m: "loc bk (seg bk m ! i) = Some (m, i)" "m \<noteq> n" using loc_nth [OF t] by (auto simp: pl seg')
    then have "seg bk m ! i \<noteq> b" using b by auto
    with m show "loc ?bk (seg ?bk m ! i) = Some (m, i)" by (simp add: loc' seg')
  qed
  moreover have "linked ?bk"
  proof -
    have "\<exists>q. parent (nodes ?bk m) = Some q \<and> live ?bk q \<and> kids ?bk q (hd (seg ?bk m)) = Some m"
      if "placed ?bk m" for m
    proof -
      from that have m: "placed bk m" "m \<noteq> n" by (auto simp: pl)
      obtain q where q: "parent (nodes bk m) = Some q" "live bk q" "kids bk q (hd (seg bk m)) = Some m"
        using parentE [OF t m(1)] by blast
      have "q \<noteq> n" using q(3) chn by auto
      moreover have "hd (seg bk m) \<noteq> b" using head_of_placed [OF t m(1)] b m(2) by auto
      ultimately show ?thesis using q by (auto simp: seg' li kids' dict_simps)
    qed
    moreover have "placed ?bk c \<and> parent (nodes ?bk c) = Some m \<and> hd (seg ?bk c) = k"
      if h: "live ?bk m" "kids ?bk m k = Some c" for m k c
    proof -
      have k: "kids bk m k = Some c" "m = p \<Longrightarrow> k \<noteq> b" using h(2) by (auto simp: kids' dict_simps split: if_splits)
      have lm: "live bk m" using h(1) li by simp
      note kc = kidD [OF t lm k(1)]
      have "c \<noteq> n" using kc p sg k(2) by auto
      with kc show ?thesis by (simp add: pl seg')
    qed
    moreover have "dict_ok (children (nodes ?bk m))" if "live ?bk m" for m
      using that kids_dict_ok [OF t] lp by (simp add: kids' li)
    ultimately show ?thesis unfolding linked_def by blast
  qed
  moreover have "ranked ?bk" using tree_okD(7) [OF t] unfolding ranked_def pl seg' by blast
  ultimately show tk: "tree_ok ?bk"
    using tree_okD [OF t] by (simp add: tree_ok_def seg' drop_node_fields)
  show "live ?bk p" using lp pn by (simp add: li)
  have nonleaf: "children (nodes bk p) \<noteq> []" using kb by auto
  have nb: "last (seg bk m) = b \<longleftrightarrow> m = n" if "placed bk m" for m
    using last_placed_inj [OF t that d(5)] sg by auto
  have "{last (seg ?bk m) | m. placed ?bk m \<and> children (nodes ?bk m) = [] \<and> m \<notin> {p}}
      = {last (seg bk m) | m. placed bk m \<and> children (nodes bk m) = []} - {b}"
  proof -
    have "placed ?bk m \<and> children (nodes ?bk m) = [] \<and> m \<notin> {p}
        \<longleftrightarrow> placed bk m \<and> children (nodes bk m) = [] \<and> last (seg bk m) \<noteq> b" for m
      using nb [of m] nonleaf by (auto simp: pl kids')
    then show ?thesis by (auto simp: seg')
  qed
  then show "leaves_but {p} ?bk" using lv by (simp add: leaves_but_def drop_node_fields distinct_removeAll)
  show "tree_parent ?bk = (tree_parent bk)(b := None)"
    by (auto simp: fun_eq_iff tree_parent_def loc' seg' split: option.splits)
qed

lemma drop_last_ok:
  assumes ok: "radix_ok bk" and b: "loc bk b = Some (n, i)" and len: "Suc i = length (seg bk n)" "0 < i"
    and ch: "children (nodes bk n) = []"
  shows "tree_ok (drop_last b n bk)" "live (drop_last b n bk) n" "leaves_but {n} (drop_last b n bk)"
    "tree_parent (drop_last b n bk) = (tree_parent bk)(b := None)"
proof -
  let ?bk = "drop_last b n bk"
  note t = radix_okD(1) [OF ok] and lv = radix_okD(2) [OF ok]
  note d = locD [OF t b]
  have loc': "loc ?bk = (loc bk)(b := None)" by (simp add: drop_last_fields dict_simps)
  have rest: "children (nodes ?bk m) = children (nodes bk m)" "parent (nodes ?bk m) = parent (nodes bk m)" for m
    by (auto simp: drop_last_fields)
  have seg': "seg ?bk m = (if m = n then butlast (seg bk n) else seg bk m)" for m
    by (auto simp: drop_last_fields)
  have nth': "seg ?bk m ! j = seg bk m ! j" if "j < length (seg ?bk m)" for m j
    using that by (auto simp: seg' nth_butlast split: if_splits)
  have hd': "hd (seg ?bk m) = hd (seg bk m)" for m
    using len by (cases "seg bk n") (auto simp: seg')
  have loc_eq: "loc ?bk x = Some (m, j) \<longleftrightarrow> loc bk x = Some (m, j) \<and> (m, j) \<noteq> (n, i)" for x m j
    using b locD(4) [OF t, of x n i] d(4) by (cases "x = b") (auto simp: loc')
  have pl: "placed ?bk m \<longleftrightarrow> placed bk m" for m
  proof (cases "m = n")
    case True
    have "loc ?bk (seg bk n ! 0) = Some (n, 0)"
      using loc_nth [OF t d(5), of 0] len placedD(3) [OF t d(5)] by (auto simp: loc_eq)
    with True d(5) show ?thesis unfolding placed_def by blast
  qed (auto simp: placed_def loc_eq)
  have li: "live ?bk m \<longleftrightarrow> live bk m" for m by (simp add: live_def pl)
  have "located ?bk"
    unfolding located_def
  proof (intro conjI allI impI)
    fix x m j
    assume "loc ?bk x = Some (m, j)"
    then have h: "loc bk x = Some (m, j)" "(m, j) \<noteq> (n, i)" by (auto simp: loc_eq)
    note x = locD [OF t h(1)]
    show "m \<noteq> 0" "m < next_addr ?bk" using x by (simp_all add: drop_last_fields(4))
    show j: "j < length (seg ?bk m)" using x(3) h(2) len by (auto simp: seg')
    show "seg ?bk m ! j = x" using x nth' [OF j] by simp
  next
    fix m j
    assume h: "placed ?bk m \<and> j < length (seg ?bk m)"
    then have "j < length (seg bk m)" "(m, j) \<noteq> (n, i)" using len by (auto simp: seg' split: if_splits)
    with h nth' [of j m] loc_nth [OF t, of m j] show "loc ?bk (seg ?bk m ! j) = Some (m, j)"
      by (simp add: loc_eq pl)
  qed
  moreover have "linked ?bk" using tree_okD(6) [OF t] unfolding linked_def pl li rest hd' .
  moreover have "ranked ?bk" using tree_okD(7) [OF t] unfolding ranked_def pl rest .
  moreover have "seg ?bk 0 = []" using d(1) tree_okD(2) [OF t] by (simp add: seg')
  ultimately show "tree_ok ?bk" using tree_okD [OF t] by (simp add: tree_ok_def rest drop_last_fields)
  show "live ?bk n" using d(5) by (simp add: live_def pl)
  have last: "last (seg bk n) = b" using last_conv_nth [OF placedD(3) [OF t d(5)]] d(4) len(1) by (metis diff_Suc_1)
  have nb: "last (seg bk m) = b \<longleftrightarrow> m = n" if "placed bk m" for m
    using last_placed_inj [OF t that d(5)] last by auto
  have "{last (seg ?bk m) | m. placed ?bk m \<and> children (nodes ?bk m) = [] \<and> m \<notin> {n}}
      = {last (seg bk m) | m. placed bk m \<and> children (nodes bk m) = []} - {b}"
  proof -
    have "placed ?bk m \<and> children (nodes ?bk m) = [] \<and> m \<notin> {n}
        \<longleftrightarrow> placed bk m \<and> children (nodes bk m) = [] \<and> last (seg bk m) \<noteq> b" for m
      using nb [of m] by (auto simp: pl rest)
    then show ?thesis by (auto simp: seg')
  qed
  then show "leaves_but {n} ?bk" using lv by (simp add: leaves_but_def drop_last_fields distinct_removeAll)
  show "tree_parent ?bk = (tree_parent bk)(b := None)"
  proof
    fix x
    show "tree_parent ?bk x = ((tree_parent bk)(b := None)) x"
    proof (cases "x = b \<or> loc bk x = None")
      case True
      then show ?thesis by (auto simp: tree_parent_def loc')
    next
      case False
      then obtain m j where x: "loc bk x = Some (m, j)" "x \<noteq> b" by auto
      note e = locD [OF t x(1)]
      obtain q where q: "parent (nodes bk m) = Some q" "live bk q" using parentE [OF t e(5)] by blast
      have "q \<noteq> n" using q child_addrs [OF t d(5), of m] e(5) ch by auto
      moreover have "j - 1 < length (seg ?bk m)" if "0 < j"
        using that e(3) len by (auto simp: seg')
      ultimately show ?thesis
        using x q nth' [of "j - 1" m] by (auto simp: tree_parent_def loc' rest seg' [of q])
    qed
  qed
qed

lemma remove_block_ok:
  assumes "radix_ok bk" "loc bk b \<noteq> None" "kids_of (tree_parent bk) b = {}"
  shows "\<exists>bk'. remove_block b bk = Inr bk' \<and> radix_ok bk' \<and> tree_parent bk' = (tree_parent bk)(b := None)"
proof -
  note t = radix_okD(1) [OF assms(1)]
  obtain n i where b: "loc bk b = Some (n, i)" using assms(2) by auto
  note d = locD [OF t b]
  from childless_block [OF t b] assms(3) have leaf: "Suc i = length (seg bk n)" "children (nodes bk n) = []" by auto
  obtain p where p: "parent (nodes bk n) = Some p" using parentE [OF t d(5)] by blast
  show ?thesis
  proof (cases "i = 0")
    case True
    then have sg: "seg bk n = [b]" using leaf(1) d(4) by (cases "seg bk n") auto
    note dn = drop_node_ok [OF assms(1) b [unfolded True] sg leaf(2) p]
    have "remove_block b bk = Inr (add_leaf p (drop_node b p bk))"
      using b leaf p sg True by (simp add: remove_block_def Let_def drop_node_def)
    with add_leaf_ok [OF dn(1-3)] dn(4) show ?thesis by simp
  next
    case False
    then have "0 < i" by simp
    note dl = drop_last_ok [OF assms(1) b leaf(1) this leaf(2)]
    have "remove_block b bk = Inr (add_leaf n (drop_last b n bk))"
      using b leaf p False by (simp add: remove_block_def Let_def drop_last_def flip: leaf(1))
    with add_leaf_ok [OF dl(1-3)] dl(4) show ?thesis by simp
  qed
qed

lemma remove_block_errors:
  assumes "radix_ok bk"
  shows "loc bk b = None \<Longrightarrow> remove_block b bk = Inl (KeyError ''Prefix cache block id is not present in radix tree.'')"
    and "loc bk b \<noteq> None \<Longrightarrow> kids_of (tree_parent bk) b \<noteq> {} \<Longrightarrow>
      remove_block b bk = Inl (RuntimeError ''Cannot remove a prefix cache tree block with live children.'')"
proof -
  note t = radix_okD(1) [OF assms(1)]
  show "remove_block b bk = Inl (KeyError ''Prefix cache block id is not present in radix tree.'')"
    if "loc bk b = None" using that by (simp add: remove_block_def)
  show "remove_block b bk = Inl (RuntimeError ''Cannot remove a prefix cache tree block with live children.'')"
    if h: "loc bk b \<noteq> None" "kids_of (tree_parent bk) b \<noteq> {}"
  proof -
    obtain n i where b: "loc bk b = Some (n, i)" using h(1) by auto
    with h(2) childless_block [OF t b] show ?thesis by (auto simp: remove_block_def Let_def)
  qed
qed

section \<open>Children and leaves\<close>

lemma child_count_spec:
  assumes "radix_ok bk" "loc bk b \<noteq> None"
  shows "child_count b bk = Inr (card (kids_of (tree_parent bk) b))"
proof -
  note t = radix_okD(1) [OF assms(1)]
  obtain n i where b: "loc bk b = Some (n, i)" using assms(2) by auto
  have "dict_ok (children (nodes bk n))" using kids_dict_ok [OF t] locD(5) [OF t b] by (simp add: live_def)
  then have "card (set (map fst (children (nodes bk n)))) = length (children (nodes bk n))"
    by (metis distinct_card length_map)
  with b kids_of_block [OF t b] show ?thesis by (simp add: child_count_def)
qed

lemma child_heads:
  assumes "tree_ok bk" "live bk n"
  shows "map (\<lambda>c. hd (seg bk c)) (map snd (children (nodes bk n))) = map fst (children (nodes bk n))"
proof -
  have "hd (seg bk c) = k" if "(k, c) \<in> set (children (nodes bk n))" for k c
    using kidD(3) [OF assms] that dict_items [OF kids_dict_ok [OF assms]] by blast
  then show ?thesis by (auto simp: comp_def)
qed

lemma child_block_ids_spec:
  assumes "radix_ok bk" "loc bk b \<noteq> None"
  shows "\<exists>ks. child_block_ids b bk = Inr ks \<and> distinct ks \<and> set ks = kids_of (tree_parent bk) b"
proof -
  note t = radix_okD(1) [OF assms(1)]
  obtain n i where b: "loc bk b = Some (n, i)" using assms(2) by auto
  have n: "live bk n" using locD(5) [OF t b] by (simp add: live_def)
  have "dict_ok (children (nodes bk n))" by (rule kids_dict_ok [OF t n])
  with b kids_of_block [OF t b] child_heads [OF t n] show ?thesis
    by (simp add: child_block_ids_def del: map_map)
qed

lemma leaf_block_ids_spec:
  assumes "radix_ok bk"
  shows "distinct (leaf_block_ids bk)"
    "set (leaf_block_ids bk) = {b \<in> dom (tree_parent bk). kids_of (tree_parent bk) b = {}}"
proof -
  note t = radix_okD(1) [OF assms(1)]
  show "distinct (leaf_block_ids bk)"
    using radix_okD(2) [OF assms] by (simp add: leaf_block_ids_def leaves_but_def)
  have "b \<in> dom (tree_parent bk) \<and> kids_of (tree_parent bk) b = {} \<longleftrightarrow>
      (\<exists>n. b = last (seg bk n) \<and> placed bk n \<and> children (nodes bk n) = [])" for b
  proof (cases "loc bk b")
    case None
    then show ?thesis using last_loc [OF t] by (auto simp: dom_tree_parent)
  next
    case (Some a)
    then obtain n i where b: "loc bk b = Some (n, i)" by (cases a) auto
    note d = locD [OF t b]
    have "Suc i = length (seg bk n) \<longleftrightarrow> b = last (seg bk n)"
      using last_loc [OF t d(5)] b d placedD(3) [OF t d(5)]
      by (metis Suc_diff_1 diff_Suc_1 last_conv_nth length_greater_0_conv option.inject prod.inject)
    moreover have "m = n" if "placed bk m" "b = last (seg bk m)" for m
      using last_loc [OF t that(1)] that(2) b by simp
    ultimately show ?thesis
      using childless_block [OF t b] b d(5) by (auto simp: dom_tree_parent)
  qed
  then show "set (leaf_block_ids bk) = {b \<in> dom (tree_parent bk). kids_of (tree_parent bk) b = {}}"
    using radix_okD(2) [OF assms] by (auto simp: leaf_block_ids_def leaves_but_def)
qed

section \<open>Lookup\<close>

text \<open>A chain of only children: where a segment can be followed in one way only.\<close>

fun rigid :: "'b parent_map \<Rightarrow> 'b option \<Rightarrow> 'b list \<Rightarrow> bool" where
  "rigid par q [] = True"
| "rigid par q (s # ss) = ((\<forall>b. par b = Some q \<longleftrightarrow> b = s) \<and> rigid par (Some s) ss)"

definition hit_last :: "'b option \<Rightarrow> 'b list \<Rightarrow> nat \<Rightarrow> 'b option" where
  "hit_last last_id ids h = (if h = 0 then last_id else Some (ids ! (h - 1)))"

lemma hit_last_Suc [simp]: "hit_last l (b # ids) (Suc h) = hit_last (Some b) ids h"
  by (simp add: hit_last_def nth_Cons')

lemma segment_loop_rigid:
  assumes "rigid par q ss"
  shows "(\<exists>rest. ids = ss @ rest \<and> segment_loop ss ids hits l =
             (True, rest, hits + length ss, if ss = [] then l else Some (last ss)))
    \<or> (\<exists>rest. segment_loop ss ids hits l =
             (False, rest, hits + hit_count par q ids, hit_last l ids (hit_count par q ids)))"
  using assms
proof (induction ss ids hits l arbitrary: q rule: segment_loop.induct)
  case (2 s ss hits l)
  then show ?case by (simp add: hit_last_def)
next
  case (3 s ss b ids hits l)
  show ?case
  proof (cases "b = s")
    case False
    with "3.prems" show ?thesis by (simp add: hit_last_def)
  next
    case True
    with "3.prems" have b: "par b = Some q" "rigid par (Some b) ss" by auto
    from "3.IH" [of "Some b"] True b(2) show ?thesis
      using b(1) True by (auto simp: hit_last_def)
  qed
qed simp

lemma rigid_nth:
  assumes "\<And>j. j < length ss \<Longrightarrow> \<forall>b. par b = Some (if j = 0 then q else Some (ss ! (j - 1))) \<longleftrightarrow> b = ss ! j"
  shows "rigid par q ss"
  using assms
proof (induction ss arbitrary: q)
  case (Cons s ss)
  have "rigid par (Some s) ss"
  proof (rule Cons.IH)
    fix j
    assume "j < length ss"
    then show "\<forall>b. par b = Some (if j = 0 then Some s else Some (ss ! (j - 1))) \<longleftrightarrow> b = ss ! j"
      using Cons.prems [of "Suc j"] by (cases j) auto
  qed
  with Cons.prems [of 0] show ?case by simp
qed simp

lemma segment_rigid:
  assumes "tree_ok bk" "placed bk c"
  shows "rigid (tree_parent bk) (Some (hd (seg bk c))) (tl (seg bk c))"
proof (rule rigid_nth)
  fix j
  assume j: "j < length (tl (seg bk c))"
  then have "loc bk (seg bk c ! j) = Some (c, j)" using loc_nth [OF assms] by simp
  moreover have "(if j = 0 then Some (hd (seg bk c)) else Some (tl (seg bk c) ! (j - 1))) = Some (seg bk c ! j)"
    using j placedD(3) [OF assms] by (simp add: hd_conv_nth nth_tl)
  moreover have "Suc j < length (seg bk c)" using j by simp
  ultimately show "\<forall>b. tree_parent bk b = Some (if j = 0 then Some (hd (seg bk c)) else Some (tl (seg bk c) ! (j - 1)))
      \<longleftrightarrow> b = tl (seg bk c) ! j"
    using child_of_block [OF assms(1), of "seg bk c ! j" c j] j by (simp add: nth_tl)
qed

lemma rigid_root_path: "rigid par q ss \<Longrightarrow> root_path par q ss"
  by (induction ss arbitrary: q) auto

definition node_key :: "radix_backend \<Rightarrow> addr \<Rightarrow> block_id option" where
  "node_key bk n = (if n = 0 then None else Some (last (seg bk n)))"

lemma node_key_child:
  assumes "tree_ok bk" "live bk n"
  shows "tree_parent bk b = Some (node_key bk n) \<longleftrightarrow> kids bk n b \<noteq> None"
proof (cases "n = 0")
  case True
  then show ?thesis using child_of_root [OF assms(1)] by (simp add: node_key_def)
next
  case False
  with assms(2) have n: "placed bk n" by (simp add: live_def)
  with False child_of_block [OF assms(1) last_loc [OF assms(1) n]] placedD(3) [OF assms(1) n]
  show ?thesis by (simp add: node_key_def)
qed

lemma lookup_loop_spec:
  assumes "tree_ok bk" "live bk n" "length ids < fuel"
  shows "lookup_loop fuel bk n ids hits l =
    (let h = hit_count (tree_parent bk) (node_key bk n) ids in Inr (hits + h, hit_last l ids h))"
  using assms
proof (induction fuel bk n ids hits l rule: lookup_loop.induct)
  case (2 fuel bk n hits l)
  then show ?case by (simp add: hit_last_def)
next
  case (3 fuel bk n b ids hits l)
  let ?par = "tree_parent bk"
  note key = node_key_child [OF "3.prems"(1,2), of b]
  show ?case
  proof (cases "kids bk n b")
    case None
    with key show ?thesis by (simp add: hit_last_def)
  next
    case (Some c)
    note c = kidD [OF "3.prems"(1,2) Some]
    obtain ss where ss: "seg bk c = b # ss" using c(3) placedD(3) [OF "3.prems"(1) c(1)] by (cases "seg bk c") auto
    have rg: "rigid ?par (Some b) ss" using segment_rigid [OF "3.prems"(1) c(1)] ss by simp
    have pb: "?par b = Some (node_key bk n)" using key Some by simp
    from segment_loop_rigid [OF rg, of ids "Suc hits" "Some b"] show ?thesis
    proof (elim disjE exE conjE)
      fix rest
      assume ids: "ids = ss @ rest" and loop: "segment_loop ss ids (Suc hits) (Some b) =
        (True, rest, Suc hits + length ss, if ss = [] then Some b else Some (last ss))"
      have ck: "node_key bk c = (if ss = [] then Some b else Some (last ss))"
        using ss placedD(1) [OF "3.prems"(1) c(1)] by (simp add: node_key_def)
      have sl: "segment_loop (seg bk c) (b # ids) hits l = (True, rest, Suc hits + length ss, node_key bk c)"
        using ss loop ck by simp
      have "lookup_loop fuel bk c rest (Suc hits + length ss) (node_key bk c) =
          (let h = hit_count ?par (node_key bk c) rest in
             Inr (Suc hits + length ss + h, hit_last (node_key bk c) rest h))"
        using "3.IH" [OF Some sl [symmetric]] "3.prems" c(1) ids by (simp add: live_def)
      moreover have "hit_count ?par (node_key bk n) (b # ids) = Suc (length ss + hit_count ?par (node_key bk c) rest)"
        using pb ids hit_count_append [OF rigid_root_path [OF rg], of rest] by (simp add: ck)
      ultimately show ?thesis using Some ss loop ids ck by (auto simp: hit_last_def nth_append Let_def last_conv_nth)
    next
      fix rest
      assume "segment_loop ss ids (Suc hits) (Some b) =
        (False, rest, Suc hits + hit_count ?par (Some b) ids, hit_last (Some b) ids (hit_count ?par (Some b) ids))"
      with Some ss pb show ?thesis by simp
    qed
  qed
qed simp

lemma radix_lookup_spec:
  assumes "radix_ok bk" "max_blocks \<le> int (length ids)"
  shows "radix_lookup ids max_blocks bk =
    (let h = hit_count (tree_parent bk) None (take (nat max_blocks) ids) in Inr (h, hit_last None ids h))"
proof -
  let ?ids = "take (nat max_blocks) ids"
  have "hit_count (tree_parent bk) None ?ids \<le> length ?ids" by (rule hit_count_le)
  then have "hit_last None ?ids (hit_count (tree_parent bk) None ?ids)
      = hit_last None ids (hit_count (tree_parent bk) None ?ids)"
    by (auto simp: hit_last_def)
  moreover have "live bk 0" "node_key bk 0 = None" by (simp_all add: live_def node_key_def)
  ultimately show ?thesis
    using lookup_loop_spec [OF radix_okD(1) [OF assms(1)], of 0 ?ids "Suc (length ids)" 0 None]
    by (simp add: radix_lookup_def Let_def)
qed

section \<open>Paths and subtrees\<close>

text \<open>The nodes form a forest of their own, with the root node as its only root.\<close>

definition node_parent :: "radix_backend \<Rightarrow> addr parent_map" where
  "node_parent bk n = (if live bk n then Some (parent (nodes bk n)) else None)"

lemma node_step: "tree_ok bk \<Longrightarrow> parent_step (node_parent bk) c n \<longleftrightarrow> placed bk c \<and> parent (nodes bk c) = Some n"
  using tree_okD(3) by (auto simp: parent_step_def node_parent_def live_def)

interpretation node_forest: block_forest tree_ok node_parent
proof
  fix bk c p
  assume t: "tree_ok bk"
  have "dom (node_parent bk) \<subseteq> {..<next_addr bk}"
    using live_less [OF t] by (auto simp: node_parent_def split: if_splits)
  then show "finite (dom (node_parent bk))" by (rule finite_subset) simp
  show "\<exists>rank :: addr \<Rightarrow> nat. \<forall>b p. parent_step (node_parent bk) b p \<longrightarrow> rank p < rank b"
    using tree_okD(7) [OF t] by (simp add: node_step [OF t] ranked_def)
  show "p \<in> dom (node_parent bk)" if "parent_step (node_parent bk) c p"
    using that parent_live [OF t] by (auto simp: node_step [OF t] node_parent_def)
qed

lemma node_kids:
  assumes "tree_ok bk" "live bk n"
  shows "distinct (map snd (children (nodes bk n)))"
    "set (map snd (children (nodes bk n))) = kids_of (node_parent bk) n"
proof -
  note dok = kids_dict_ok [OF assms]
  have "c \<in> set (map snd (children (nodes bk n))) \<longleftrightarrow> placed bk c \<and> parent (nodes bk c) = Some n" for c
  proof -
    have "c \<in> set (map snd (children (nodes bk n))) \<longleftrightarrow> (\<exists>k. kids bk n k = Some c)"
      by (rule dict_values [OF dok])
    then show ?thesis using kid_loc [OF assms] kidD [OF assms] head_of_placed [OF assms(1)] by metis
  qed
  then show "set (map snd (children (nodes bk n))) = kids_of (node_parent bk) n"
    unfolding kids_of_def node_step [OF assms(1)] by blast
  have "inj_on snd (set (children (nodes bk n)))"
  proof (rule inj_onI)
    fix x y
    assume h: "x \<in> set (children (nodes bk n))" "y \<in> set (children (nodes bk n))" "snd x = snd y"
    then have "kids bk n (fst x) = Some (snd x)" "kids bk n (fst y) = Some (snd x)"
      using dict_items [OF dok] by (metis prod.collapse)+
    then have "fst x = fst y" using kidD(3) [OF assms] by metis
    with h(3) show "x = y" by (simp add: prod_eq_iff)
  qed
  then show "distinct (map snd (children (nodes bk n)))"
    using dok by (simp add: distinct_map)
qed

text \<open>
  The order in which a stack traversal visits nodes.  It ends within as many steps as there
  are nodes below the stack, and visits each of them once.
\<close>

fun dfs_order :: "nat \<Rightarrow> radix_backend \<Rightarrow> addr list \<Rightarrow> addr list result" where
  "dfs_order fuel bk [] = Inr []"
| "dfs_order 0 bk (n # ns) = Inl NonTermination"
| "dfs_order (Suc fuel) bk (n # ns) =
     (let top = last (n # ns) in
      rbind (dfs_order fuel bk (butlast (n # ns) @ map snd (children (nodes bk top))))
        (\<lambda>order. Inr (top # order)))"

lemma subtree_loop_dfs:
  "subtree_loop fuel bk ns found =
     rbind (dfs_order fuel bk ns) (\<lambda>order. Inr (found @ concat (map (seg bk) order)))"
  by (induction fuel bk ns found rule: subtree_loop.induct) (simp_all add: Let_def rbind_assoc)

lemma stats_loop_dfs:
  "stats_loop fuel bk ns (k, e) =
     rbind (dfs_order fuel bk ns)
       (\<lambda>order. Inr (k + length order, e + sum_list (map (\<lambda>n. length (children (nodes bk n))) order)))"
  by (induction fuel bk ns "(k, e)" arbitrary: k e rule: stats_loop.induct)
    (simp_all add: Let_def rbind_assoc add.assoc)

definition below_nodes :: "radix_backend \<Rightarrow> addr list \<Rightarrow> addr set" where
  "below_nodes bk ns = {m. live bk m \<and> (\<exists>n \<in> set ns. descends (node_parent bk) m n)}"

definition antichain :: "radix_backend \<Rightarrow> addr list \<Rightarrow> bool" where
  "antichain bk ns \<longleftrightarrow> distinct ns \<and> (\<forall>n \<in> set ns. live bk n)
     \<and> (\<forall>m \<in> set ns. \<forall>n \<in> set ns. descends (node_parent bk) m n \<longrightarrow> m = n)"

lemma descends_kid_top:
  assumes "parent_step par k tp" "descends par k r" "k \<noteq> r"
  shows "descends par tp r"
  using assms unfolding descends_cases [of par k r] by (auto simp: parent_step_def)

lemma kids_antichain:
  assumes t: "tree_ok bk" and step: "parent_step (node_parent bk) k tp" "parent_step (node_parent bk) k' tp"
    and d: "descends (node_parent bk) k k'"
  shows "k = k'"
proof (rule ccontr)
  assume "k \<noteq> k'"
  then have "descends (node_parent bk) tp k'" by (rule descends_kid_top [OF step(1) d])
  with node_forest.no_cycle [OF t step(2)] show False by simp
qed

lemma antichain_expand:
  assumes t: "tree_ok bk" and ac: "antichain bk (ns @ [tp])"
  shows "antichain bk (ns @ map snd (children (nodes bk tp)))"
    "below_nodes bk (ns @ [tp]) = insert tp (below_nodes bk (ns @ map snd (children (nodes bk tp))))"
    "tp \<notin> below_nodes bk (ns @ map snd (children (nodes bk tp)))"
proof -
  let ?d = "descends (node_parent bk)" and ?ks = "map snd (children (nodes bk tp))"
  have tp: "live bk tp" using ac by (simp add: antichain_def)
  note ks = node_kids [OF t tp]
  have step: "parent_step (node_parent bk) k tp" if "k \<in> set ?ks" for k
    using that ks(2) by (simp add: kids_of_def)
  have up: "?d k tp" if "k \<in> set ?ks" for k using descends_single [OF step [OF that]] .
  have rest: "r \<noteq> tp \<and> \<not> ?d r tp \<and> \<not> ?d tp r" if "r \<in> set ns" for r
    using ac that by (auto simp: antichain_def)
  have cross: "\<not> ?d k r \<and> \<not> ?d r k" if "k \<in> set ?ks" "r \<in> set ns" for k r
    using rest [OF that(2)] descends_kid_top [OF step [OF that(1)]] descends_trans [OF _ up [OF that(1)]]
    by (metis descends_refl)
  have live: "live bk k" if "k \<in> set ?ks" for k
    using step [OF that] by (simp add: node_step [OF t] live_def)
  show "antichain bk (ns @ ?ks)"
    unfolding antichain_def
  proof (intro conjI ballI impI)
    show "distinct (ns @ ?ks)" using ac ks(1) cross by (auto simp: antichain_def)
    show "live bk n" if "n \<in> set (ns @ ?ks)" for n using that live ac by (auto simp: antichain_def)
    show "m = n" if h: "m \<in> set (ns @ ?ks)" "n \<in> set (ns @ ?ks)" "?d m n" for m n
    proof -
      consider "m \<in> set ns" "n \<in> set ns" | "m \<in> set ?ks" "n \<in> set ?ks"
        using h cross by (metis Un_iff set_append)
      then show ?thesis
      proof cases
        case 1
        with ac h(3) show ?thesis by (simp add: antichain_def)
      next
        case 2
        with kids_antichain [OF t step step] h(3) show ?thesis by blast
      qed
    qed
  qed
  have split: "?d m tp \<longleftrightarrow> m = tp \<or> (\<exists>k \<in> set ?ks. ?d m k)" for m
    unfolding ks(2) by (rule descends_via_kid)
  show "below_nodes bk (ns @ [tp]) = insert tp (below_nodes bk (ns @ ?ks))"
    using tp split by (auto simp: below_nodes_def)
  have "\<not> ?d tp k" if "k \<in> set ?ks" for k using node_forest.no_cycle [OF t step [OF that]] .
  then show "tp \<notin> below_nodes bk (ns @ ?ks)" using rest by (auto simp: below_nodes_def)
qed

lemma below_nodes_finite: "tree_ok bk \<Longrightarrow> finite (below_nodes bk ns)"
  using live_less finite_subset [of "below_nodes bk ns" "{..<next_addr bk}"] by (auto simp: below_nodes_def)

lemma dfs_order_spec:
  assumes "tree_ok bk" "antichain bk ns" "card (below_nodes bk ns) \<le> fuel"
  shows "\<exists>order. dfs_order fuel bk ns = Inr order \<and> distinct order \<and> set order = below_nodes bk ns"
  using assms
proof (induction fuel bk ns rule: dfs_order.induct)
  case (1 fuel bk)
  then show ?case by (simp add: below_nodes_def)
next
  case (2 bk n ns)
  then have "n \<in> below_nodes bk (n # ns)" by (auto simp: below_nodes_def antichain_def)
  with "2.prems" below_nodes_finite [OF "2.prems"(1)] show ?case by auto
next
  case (3 fuel bk n ns)
  define tp where "tp = last (n # ns)"
  define rest where "rest = butlast (n # ns)"
  have eq: "n # ns = rest @ [tp]" by (simp add: rest_def tp_def)
  note ex = antichain_expand [OF "3.prems"(1) "3.prems"(2) [unfolded eq]]
  have "card (below_nodes bk (rest @ map snd (children (nodes bk tp)))) \<le> fuel"
    using "3.prems"(3) ex(2,3) below_nodes_finite [OF "3.prems"(1)] unfolding eq by simp
  with "3.IH" [OF tp_def, folded rest_def] ex(1) "3.prems"(1) obtain order where
    order: "dfs_order fuel bk (rest @ map snd (children (nodes bk tp))) = Inr order" "distinct order"
    "set order = below_nodes bk (rest @ map snd (children (nodes bk tp)))"
    by blast
  then have "dfs_order (Suc fuel) bk (n # ns) = Inr (tp # order)"
    unfolding dfs_order.simps Let_def tp_def [symmetric] rest_def [symmetric] by simp
  moreover have "distinct (tp # order)" "set (tp # order) = below_nodes bk (n # ns)"
    using order ex(2,3) unfolding eq by simp_all
  ultimately show ?case by blast
qed

lemma descends_in_segment:
  assumes "tree_ok bk" "placed bk n" "i \<le> j" "j < length (seg bk n)"
  shows "descends (tree_parent bk) (seg bk n ! j) (seg bk n ! i)"
  using assms(3,4)
proof (induction j rule: dec_induct)
  case (step j)
  have "loc bk (seg bk n ! j) = Some (n, j)" using loc_nth [OF assms(1,2)] step.prems by simp
  then have "parent_step (tree_parent bk) (seg bk n ! Suc j) (seg bk n ! j)"
    using child_of_block [OF assms(1)] step.prems by (simp add: parent_step_def)
  with step show ?case by (auto intro: descends_step)
qed auto

lemma descends_across:
  assumes "tree_ok bk" "placed bk m" "parent (nodes bk m) = Some p" "p \<noteq> 0" "x \<in> set (seg bk m)"
  shows "descends (tree_parent bk) x (last (seg bk p))"
proof -
  have lp: "live bk p" by (rule parent_live [OF assms(1-3)])
  have "kids bk p (hd (seg bk m)) = Some m"
    using kid_loc [OF assms(1) lp] head_of_placed [OF assms(1,2)] assms(3) by blast
  then have "parent_step (tree_parent bk) (hd (seg bk m)) (last (seg bk p))"
    using node_key_child [OF assms(1) lp, of "hd (seg bk m)"] assms(4) by (simp add: parent_step_def node_key_def)
  moreover from assms(5) obtain j where "j < length (seg bk m)" "x = seg bk m ! j" by (auto simp: in_set_conv_nth)
  then have "descends (tree_parent bk) x (hd (seg bk m))"
    using descends_in_segment [OF assms(1,2), of 0 j] placedD(3) [OF assms(1,2)] by (simp add: hd_conv_nth)
  ultimately show ?thesis using descends_trans descends_single by metis
qed

lemma kids_antichain_list:
  assumes "tree_ok bk" "live bk n"
  shows "antichain bk (map snd (children (nodes bk n)))"
  using antichain_expand(1) [OF assms(1), of "[]" n] assms(2) by (simp add: antichain_def)

lemma descendant_located:
  assumes t: "tree_ok bk" and b: "loc bk b = Some (n, i)" and x: "loc bk x = Some (m, j)"
  shows "descends (tree_parent bk) x b \<longleftrightarrow>
    m = n \<and> i \<le> j \<or> m \<in> below_nodes bk (map snd (children (nodes bk n)))"
proof
  note d = locD [OF t b]
  have ln: "live bk n" using d(5) by (simp add: live_def)
  let ?ks = "map snd (children (nodes bk n))"
  show "m = n \<and> i \<le> j \<or> m \<in> below_nodes bk ?ks" if "descends (tree_parent bk) x b"
    using that x unfolding descends_def
  proof (induction arbitrary: m j rule: converse_rtranclp_induct)
    case base
    with b show ?case by simp
  next
    case (step x p)
    from step.hyps(1) have ps: "tree_parent bk x = Some (Some p)" by (simp add: parent_step_def)
    from tree_parent_present [OF t this] obtain m' j' where p: "loc bk p = Some (m', j')" by auto
    note IH = step.IH [OF p] and e = locD [OF t p]
    have cases: "if Suc j' < length (seg bk m') then x = seg bk m' ! Suc j' else kids bk m' x \<noteq> None"
      using ps child_of_block [OF t p] by simp
    show ?case
    proof (cases "Suc j' < length (seg bk m')")
      case True
      with cases loc_nth [OF t e(5) True] step.prems have "m = m'" "j = Suc j'" by auto
      with IH show ?thesis by auto
    next
      case False
      with cases obtain c where "kids bk m' x = Some c" by auto
      moreover have "live bk m'" using e(5) by (simp add: live_def)
      ultimately have c: "loc bk x = Some (c, 0)" "parent (nodes bk c) = Some m'" using kid_loc [OF t] by blast+
      with step.prems have mc: "m = c" "placed bk m" using locD(5) [OF t c(1)] by auto
      then have st: "parent_step (node_parent bk) m m'" using c(2) by (simp add: node_step [OF t])
      have "m \<in> below_nodes bk ?ks"
      proof (cases "m' = n")
        case True
        then have "m \<in> set ?ks" using st node_kids(2) [OF t ln] by (simp add: kids_of_def)
        then show ?thesis using mc(2) by (auto simp: below_nodes_def live_def)
      next
        case False
        with IH have "m' \<in> below_nodes bk ?ks" by simp
        then show ?thesis using mc(2) descends_step [OF st] by (auto simp: below_nodes_def live_def)
      qed
      then show ?thesis ..
    qed
  qed
  have lastb: "descends (tree_parent bk) (last (seg bk n)) b"
    using descends_in_segment [OF t d(5), of i "length (seg bk n) - 1"] d placedD(3) [OF t d(5)]
    by (simp add: last_conv_nth)
  have across: "\<forall>y \<in> set (seg bk m). descends (tree_parent bk) y b"
    if "descends (node_parent bk) m k" "k \<in> set ?ks" for m k
    using that(1) unfolding descends_def
  proof (induction rule: converse_rtranclp_induct)
    case base
    have k: "placed bk k" "parent (nodes bk k) = Some n"
      using that(2) node_kids(2) [OF t ln] by (simp_all add: kids_of_def node_step [OF t])
    show ?case using descends_across [OF t k d(1)] descends_trans [OF _ lastb] by (auto simp: descends_def)
  next
    case (step m p)
    then have m: "placed bk m" "parent (nodes bk m) = Some p" by (simp_all add: node_step [OF t])
    have "parent_step (node_parent bk) k n" using that(2) node_kids(2) [OF t ln] by (simp add: kids_of_def)
    with step.hyps(2) have "descends (node_parent bk) p n"
      using descends_trans descends_single unfolding descends_def by metis
    with node_forest.descends_antisym [OF t] d(1) tree_okD(3) [OF t] have p0: "p \<noteq> 0"
      by (metis descends_cases node_step [OF t] parent_live [OF t m] placedD(1) [OF t])
    then have "placed bk p" using parent_live [OF t m] by (simp add: live_def)
    then have "last (seg bk p) \<in> set (seg bk p)" using placedD(3) [OF t] by simp
    with step.IH have "descends (tree_parent bk) (last (seg bk p)) b" by (simp add: descends_def)
    with descends_across [OF t m p0] show ?case using descends_trans unfolding descends_def by metis
  qed
  note e = locD [OF t x]
  show "descends (tree_parent bk) x b" if h: "m = n \<and> i \<le> j \<or> m \<in> below_nodes bk ?ks"
  proof (cases "m = n \<and> i \<le> j")
    case True
    with descends_in_segment [OF t d(5), of i j] d(4) e show ?thesis by simp
  next
    case False
    with h obtain k where "k \<in> set ?ks" "descends (node_parent bk) m k" by (auto simp: below_nodes_def)
    with across e show ?thesis by (metis nth_mem)
  qed
qed

lemma below_kids_placed:
  assumes t: "tree_ok bk" and n: "live bk n" and m: "m \<in> below_nodes bk (map snd (children (nodes bk n)))"
  shows "placed bk m" "m \<noteq> n"
proof -
  from m obtain k where k: "parent_step (node_parent bk) k n" "descends (node_parent bk) m k" "live bk m"
    using node_kids(2) [OF t n] by (auto simp: below_nodes_def kids_of_def)
  then have "m = 0 \<Longrightarrow> k = 0"
    using tree_okD(3) [OF t] by (auto simp: descends_cases [of _ 0] node_parent_def parent_step_def split: if_splits)
  with k placedD(1) [OF t, of k] show "placed bk m" by (auto simp: live_def node_step [OF t])
  show "m \<noteq> n" using k node_forest.no_cycle [OF t k(1)] by auto
qed

lemma subtree_block_ids_spec:
  assumes "radix_ok bk" "loc bk b \<noteq> None"
  shows "\<exists>xs. subtree_block_ids b bk = Inr xs \<and> distinct xs
    \<and> set xs = {x \<in> dom (tree_parent bk). descends (tree_parent bk) x b}"
proof -
  note t = radix_okD(1) [OF assms(1)]
  obtain n i where b: "loc bk b = Some (n, i)" using assms(2) by auto
  note d = locD [OF t b]
  have ln: "live bk n" using d(5) by (simp add: live_def)
  let ?ks = "map snd (children (nodes bk n))"
  have "below_nodes bk ?ks \<subseteq> {..<next_addr bk}" using live_less [OF t] by (auto simp: below_nodes_def)
  then have "card (below_nodes bk ?ks) \<le> next_addr bk" using card_mono [of "{..<next_addr bk}"] by fastforce
  from dfs_order_spec [OF t kids_antichain_list [OF t ln] this] obtain order where
    order: "dfs_order (next_addr bk) bk ?ks = Inr order" "distinct order" "set order = below_nodes bk ?ks" by blast
  let ?xs = "drop i (seg bk n) @ concat (map (seg bk) order)"
  have pl: "placed bk m" "m \<noteq> n" if "m \<in> set order" for m
    using below_kids_placed [OF t ln] order(3) that by blast+
  have res: "subtree_block_ids b bk = Inr ?xs"
    using b order(1) by (simp add: subtree_block_ids_def subtree_loop_dfs)
  have seg_loc: "x \<in> set (seg bk m) \<longleftrightarrow> (\<exists>j. loc bk x = Some (m, j))" if "placed bk m" for m x
    using loc_seg_iff [OF t that] by simp
  have drop_loc: "x \<in> set (drop i (seg bk n)) \<longleftrightarrow> (\<exists>j \<ge> i. loc bk x = Some (n, j))" for x
  proof
    assume "x \<in> set (drop i (seg bk n))"
    then obtain k where "k < length (drop i (seg bk n))" "x = seg bk n ! (i + k)" by (auto simp: in_set_conv_nth)
    with loc_nth [OF t d(5), of "i + k"] show "\<exists>j \<ge> i. loc bk x = Some (n, j)" by (auto intro: le_add1)
  next
    assume "\<exists>j \<ge> i. loc bk x = Some (n, j)"
    then obtain j where j: "i \<le> j" "loc bk x = Some (n, j)" by blast
    note e = locD [OF t j(2)]
    have "drop i (seg bk n) ! (j - i) = x" "j - i < length (drop i (seg bk n))" using e j by auto
    then show "x \<in> set (drop i (seg bk n))" by (metis nth_mem)
  qed
  have "x \<in> set ?xs \<longleftrightarrow> loc bk x \<noteq> None \<and> descends (tree_parent bk) x b" for x
  proof (cases "loc bk x")
    case None
    then show ?thesis using drop_loc [of x] seg_loc pl(1) by auto
  next
    case (Some a)
    then obtain m j where x: "loc bk x = Some (m, j)" by (cases a) auto
    then have "x \<in> set ?xs \<longleftrightarrow> m = n \<and> i \<le> j \<or> m \<in> set order"
      using drop_loc [of x] seg_loc [of _ x] pl(1) by auto
    with x order(3) descendant_located [OF t b x] show ?thesis by simp
  qed
  moreover have "distinct ?xs"
  proof -
    have "distinct (concat (map (seg bk) order))"
    proof (rule distinct_concat)
      show "distinct (map (seg bk) order)"
      proof -
        have "m = m'" if "m \<in> set order" "m' \<in> set order" "seg bk m = seg bk m'" for m m'
          using placed_disjoint [OF t pl(1) pl(1)] placedD(3) [OF t pl(1)] that hd_in_set by metis
        with order(2) show ?thesis by (auto simp: distinct_map inj_on_def)
      qed
      show "distinct ys" if "ys \<in> set (map (seg bk) order)" for ys
        using that placed_distinct [OF t pl(1)] by auto
      show "set ys \<inter> set zs = {}" if "ys \<in> set (map (seg bk) order)" "zs \<in> set (map (seg bk) order)" "ys \<noteq> zs" for ys zs
        using that placed_disjoint [OF t pl(1) pl(1)] by fastforce
    qed
    moreover have "distinct (drop i (seg bk n))" using placed_distinct [OF t d(5)] by simp
    moreover have "set (drop i (seg bk n)) \<inter> set (concat (map (seg bk) order)) = {}"
      using placed_disjoint [OF t d(5) pl(1)] pl(2) in_set_dropD by fastforce
    ultimately show ?thesis by simp
  qed
  moreover have "set ?xs = {x \<in> dom (tree_parent bk). descends (tree_parent bk) x b}"
    using calculation(1) unfolding set_eq_iff mem_Collect_eq dom_tree_parent domIff by blast
  ultimately show ?thesis using res by blast
qed

lemma root_descends:
  assumes t: "tree_ok bk" and "live bk m"
  shows "descends (node_parent bk) m 0"
  using assms(2)
proof (induction m rule: node_forest.root_induct [OF t])
  case (1 m)
  show ?case
  proof (cases "m = 0")
    case False
    with "1.prems" have m: "placed bk m" by (simp add: live_def)
    then obtain p where p: "parent (nodes bk m) = Some p" "live bk p" using parentE [OF t] by blast
    with m have "parent_step (node_parent bk) m p" by (simp add: node_step [OF t])
    with "1.IH" p(2) show ?thesis by (auto intro: descends_step)
  qed simp
qed

lemma radix_stats_spec:
  assumes "radix_ok bk"
  shows "radix_stats bk = Inr (card {n. live bk n}, card {n. placed bk n})"
proof -
  note t = radix_okD(1) [OF assms(1)]
  have below: "below_nodes bk [0] = {n. live bk n}" using root_descends [OF t] by (auto simp: below_nodes_def)
  have fin: "finite {n. live bk n}" using below_nodes_finite [OF t] below by metis
  have "antichain bk [0]" by (simp add: antichain_def live_def)
  moreover have "card (below_nodes bk [0]) \<le> next_addr bk"
  proof -
    have "{n. live bk n} \<subseteq> {..<next_addr bk}" using live_less [OF t] by auto
    from card_mono [OF finite_lessThan this] show ?thesis by (simp add: below)
  qed
  ultimately obtain order where order: "dfs_order (next_addr bk) bk [0] = Inr order" "distinct order"
    "set order = {n. live bk n}"
    using dfs_order_spec [OF t] below by metis
  have "sum_list (map (\<lambda>n. length (children (nodes bk n))) order)
      = (\<Sum>n | live bk n. card (kids_of (node_parent bk) n))"
  proof -
    have "length (children (nodes bk n)) = card (kids_of (node_parent bk) n)" if "n \<in> set order" for n
      using node_kids [OF t, of n] that order(3) distinct_card by (metis length_map mem_Collect_eq)
    then have "map (\<lambda>n. length (children (nodes bk n))) order = map (\<lambda>n. card (kids_of (node_parent bk) n)) order"
      by simp
    then show ?thesis using order by (simp only: sum_list_distinct_conv_sum_set)
  qed
  also have "\<dots> = card (\<Union>n \<in> {n. live bk n}. kids_of (node_parent bk) n)"
  proof (rule card_UN_disjoint [symmetric, OF fin])
    show "\<forall>n \<in> {n. live bk n}. finite (kids_of (node_parent bk) n)"
      using node_kids(2) [OF t] by (metis List.finite_set mem_Collect_eq)
    show "\<forall>i \<in> {n. live bk n}. \<forall>j \<in> {n. live bk n}. i \<noteq> j \<longrightarrow>
        kids_of (node_parent bk) i \<inter> kids_of (node_parent bk) j = {}"
      by (auto simp: kids_of_def parent_step_def)
  qed
  also have "(\<Union>n \<in> {n. live bk n}. kids_of (node_parent bk) n) = {n. placed bk n}"
    using parentE [OF t] by (force simp: kids_of_def node_step [OF t])
  finally have edges: "sum_list (map (\<lambda>n. length (children (nodes bk n))) order) = card {n. placed bk n}" .
  show ?thesis
    using order edges distinct_card [OF order(2)] by (simp add: radix_stats_def stats_loop_dfs)
qed

definition depth_bound :: "radix_backend \<Rightarrow> addr \<Rightarrow> nat" where
  "depth_bound bk n = card {a. live bk a \<and> descends (node_parent bk) n a}"

lemma depth_bound_parent:
  assumes t: "tree_ok bk" and st: "parent_step (node_parent bk) n p"
  shows "depth_bound bk p < depth_bound bk n"
proof -
  let ?A = "\<lambda>n. {a. live bk a \<and> descends (node_parent bk) n a}"
  have fin: "finite (?A n)" using finite_subset [of "?A n" "{..<next_addr bk}"] live_less [OF t] by auto
  have "?A p \<subseteq> ?A n" using descends_step [OF st] by auto
  moreover have "n \<in> ?A n" "n \<notin> ?A p"
    using st node_forest.no_cycle [OF t st] by (auto simp: node_step [OF t] live_def)
  ultimately show ?thesis unfolding depth_bound_def using fin by (intro psubset_card_mono) auto
qed

lemma depth_bound_le: "tree_ok bk \<Longrightarrow> depth_bound bk n \<le> next_addr bk"
proof -
  assume t: "tree_ok bk"
  have "{a. live bk a \<and> descends (node_parent bk) n a} \<subseteq> {..<next_addr bk}" using live_less [OF t] by auto
  from card_mono [OF finite_lessThan this] show ?thesis by (simp add: depth_bound_def)
qed

lemma segment_root_path:
  assumes "tree_ok bk" "placed bk n" "parent (nodes bk n) = Some p"
  shows "root_path (tree_parent bk) (node_key bk p) (seg bk n)"
proof -
  have lp: "live bk p" by (rule parent_live [OF assms])
  have "kids bk p (hd (seg bk n)) = Some n"
    using kid_loc [OF assms(1) lp] head_of_placed [OF assms(1,2)] assms(3) by blast
  then have "tree_parent bk (hd (seg bk n)) = Some (node_key bk p)"
    using node_key_child [OF assms(1) lp] by simp
  with rigid_root_path [OF segment_rigid [OF assms(1,2)]] show ?thesis
    using placedD(3) [OF assms(1,2)] by (cases "seg bk n") auto
qed

definition last_key :: "'b list \<Rightarrow> 'b option" where
  "last_key xs = (if xs = [] then None else Some (last xs))"

lemma path_loop_spec:
  assumes "tree_ok bk" "live bk n" "depth_bound bk n < fuel"
  shows "\<exists>segments' ys. path_loop fuel bk n segments = Inr segments'
    \<and> concat (rev segments') = ys @ concat (rev segments) \<and> root_path (tree_parent bk) None ys
    \<and> (n \<noteq> 0 \<longrightarrow> (\<exists>p. parent (nodes bk n) = Some p \<and> last_key ys = node_key bk p))"
  using assms
proof (induction fuel bk n segments rule: path_loop.induct)
  case (2 fuel bk n segments)
  show ?case
  proof (cases "n = 0")
    case True
    with tree_okD(3) [OF "2.prems"(1)] show ?thesis by simp
  next
    case False
    with "2.prems" have n: "placed bk n" by (simp add: live_def)
    then obtain p where p: "parent (nodes bk n) = Some p" "live bk p" using parentE [OF "2.prems"(1)] by blast
    have "depth_bound bk p < fuel"
      using depth_bound_parent [OF "2.prems"(1), of n p] n p "2.prems"(3) by (simp add: node_step [OF "2.prems"(1)])
    define acc where "acc = (if seg bk p \<noteq> [] then segments @ [seg bk p] else segments)"
    have acc: "concat (rev acc) = seg bk p @ concat (rev segments)" by (simp add: acc_def)
    from "2.IH" [OF p(1) "2.prems"(1) p(2) \<open>depth_bound bk p < fuel\<close>, folded acc_def] obtain segments' ys where
      loop: "path_loop fuel bk p acc = Inr segments'" "concat (rev segments') = ys @ concat (rev acc)"
        "root_path (tree_parent bk) None ys"
        "p \<noteq> 0 \<longrightarrow> (\<exists>q. parent (nodes bk p) = Some q \<and> last_key ys = node_key bk q)" by blast
    have run: "path_loop (Suc fuel) bk n segments = Inr segments'" using p(1) loop(1) by (simp add: acc_def)
    show ?thesis
    proof (cases "p = 0")
      case True
      then have "acc = segments" "node_key bk p = None"
        using tree_okD(2) [OF "2.prems"(1)] by (simp_all add: acc_def node_key_def)
      moreover from True tree_okD(3) [OF "2.prems"(1)] loop(1) have "segments' = acc"
        by (cases fuel) auto
      ultimately show ?thesis using run p(1) by (intro exI [of _ segments'] exI [of _ "[]"]) (simp add: last_key_def)
    next
      case False
      with p(2) have pp: "placed bk p" by (simp add: live_def)
      from False loop(4) obtain q where q: "parent (nodes bk p) = Some q" "last_key ys = node_key bk q" by blast
      have "root_path (tree_parent bk) (last_key ys) (seg bk p)"
        using segment_root_path [OF "2.prems"(1) pp q(1)] q(2) by simp
      with loop(3) have "root_path (tree_parent bk) None (ys @ seg bk p)"
        by (simp add: root_path_append last_key_def)
      moreover have "last_key (ys @ seg bk p) = node_key bk p"
        using False placedD(3) [OF "2.prems"(1) pp] by (simp add: last_key_def node_key_def)
      ultimately show ?thesis using run p(1) loop(2) acc
        by (intro exI [of _ segments'] exI [of _ "ys @ seg bk p"]) simp
    qed
  qed
qed simp

lemma path_to_block_spec:
  assumes "radix_ok bk" "loc bk b \<noteq> None"
  shows "\<exists>xs. path_to_block b bk = Inr xs \<and> root_path (tree_parent bk) None xs \<and> xs \<noteq> [] \<and> last xs = b"
proof -
  note t = radix_okD(1) [OF assms(1)]
  obtain n i where b: "loc bk b = Some (n, i)" using assms(2) by auto
  note d = locD [OF t b]
  let ?pre = "take (Suc i) (seg bk n)"
  have "depth_bound bk n < Suc (next_addr bk)" using depth_bound_le [OF t, of n] by simp
  with path_loop_spec [OF t, of n "Suc (next_addr bk)" "[?pre]"] d(1,5) obtain segments' ys p where
    loop: "path_loop (Suc (next_addr bk)) bk n [?pre] = Inr segments'" "concat (rev segments') = ys @ ?pre"
      "root_path (tree_parent bk) None ys" "parent (nodes bk n) = Some p" "last_key ys = node_key bk p"
    by (auto simp: live_def)
  have "root_path (tree_parent bk) (last_key ys) (?pre @ drop (Suc i) (seg bk n))"
    using segment_root_path [OF t d(5) loop(4)] loop(5) by simp
  then have "root_path (tree_parent bk) None (ys @ ?pre)"
    using loop(3) unfolding root_path_append by (simp add: last_key_def)
  moreover have "?pre \<noteq> []" "last ?pre = b" using d(3,4) by (auto simp: take_Suc_conv_app_nth)
  ultimately show ?thesis
    using b loop(1,2) by (auto simp: path_to_block_def)
qed

section \<open>The interface\<close>

text \<open>What the prefix index relies on: the operations of a block tree and their laws.\<close>

locale block_tree = block_forest ok par
  for ok :: "'t \<Rightarrow> bool" and par :: "'t \<Rightarrow> block_id parent_map" +
  fixes insert_op :: "block_id option \<Rightarrow> block_id \<Rightarrow> 't \<Rightarrow> 't result"
    and remove_op :: "block_id \<Rightarrow> 't \<Rightarrow> 't result"
    and lookup_op :: "block_id list \<Rightarrow> int \<Rightarrow> 't \<Rightarrow> (nat \<times> block_id option) result"
    and path_op subtree_op children_op :: "block_id \<Rightarrow> 't \<Rightarrow> block_id list result"
    and count_op :: "block_id \<Rightarrow> 't \<Rightarrow> nat result"
    and leaves_op :: "'t \<Rightarrow> block_id list"
  assumes insert_law: "ok t \<Longrightarrow> b \<notin> dom (par t) \<Longrightarrow> (\<And>p. q = Some p \<Longrightarrow> p \<in> dom (par t)) \<Longrightarrow>
      \<exists>t'. insert_op q b t = Inr t' \<and> ok t' \<and> par t' = (par t)(b \<mapsto> q)"
    and remove_law: "ok t \<Longrightarrow> b \<in> dom (par t) \<Longrightarrow> kids_of (par t) b = {} \<Longrightarrow>
      \<exists>t'. remove_op b t = Inr t' \<and> ok t' \<and> par t' = (par t)(b := None)"
    and lookup_law: "ok t \<Longrightarrow> lookup_op ids (int (length ids)) t =
      (let h = hit_count (par t) None ids in Inr (h, hit_last None ids h))"
    and path_law: "ok t \<Longrightarrow> b \<in> dom (par t) \<Longrightarrow>
      \<exists>xs. path_op b t = Inr xs \<and> root_path (par t) None xs \<and> xs \<noteq> [] \<and> last xs = b"
    and subtree_law: "ok t \<Longrightarrow> b \<in> dom (par t) \<Longrightarrow>
      \<exists>xs. subtree_op b t = Inr xs \<and> distinct xs \<and> set xs = {x \<in> dom (par t). descends (par t) x b}"
    and children_law: "ok t \<Longrightarrow> b \<in> dom (par t) \<Longrightarrow>
      \<exists>xs. children_op b t = Inr xs \<and> distinct xs \<and> set xs = kids_of (par t) b"
    and count_law: "ok t \<Longrightarrow> b \<in> dom (par t) \<Longrightarrow> count_op b t = Inr (card (kids_of (par t) b))"
    and leaves_law: "ok t \<Longrightarrow> distinct (leaves_op t) \<and>
      set (leaves_op t) = {b \<in> dom (par t). kids_of (par t) b = {}}"
begin

lemma finite_kids: "ok t \<Longrightarrow> finite (kids_of (par t) b)"
  by (rule finite_subset [OF _ finite_blocks]) (auto simp: kids_of_def parent_step_def)

lemma kids_present: "k \<in> kids_of (par t) b \<Longrightarrow> k \<in> dom (par t)"
  by (auto simp: kids_of_def parent_step_def)

lemma count_zero_iff: "ok t \<Longrightarrow> b \<in> dom (par t) \<Longrightarrow> count_op b t = Inr 0 \<longleftrightarrow> kids_of (par t) b = {}"
  using count_law finite_kids by simp

text \<open>A root path is determined by its end.\<close>

lemma root_path_unique:
  assumes "ok t" "root_path (par t) None xs" "root_path (par t) None ys" "xs \<noteq> []" "ys \<noteq> []" "last xs = last ys"
  shows "xs = ys"
  using assms(2-)
proof (induction xs arbitrary: ys rule: rev_induct)
  case (snoc x xs)
  from snoc.prems(4) obtain zs where ys: "ys = zs @ [x]" using snoc.prems(5) by (cases ys rule: rev_cases) auto
  have px: "par t x = Some (if xs = [] then None else Some (last xs))"
    and py: "par t x = Some (if zs = [] then None else Some (last zs))"
    using snoc.prems(1,2) ys by (simp_all add: root_path_append)
  show ?case
  proof (cases "xs = []")
    case True
    with px py ys show ?thesis by (simp split: if_splits)
  next
    case False
    with px py have "zs \<noteq> []" "last xs = last zs" by (auto split: if_splits)
    with False snoc.IH [of zs] snoc.prems(1,2) ys show ?thesis by (simp add: root_path_append)
  qed
qed simp

text \<open>Round trip: what was inserted at the end of a path is found again, with the whole path.\<close>

lemma lookup_after_insert:
  assumes "ok t" "b \<notin> dom (par t)" "root_path (par t) None xs"
  shows "\<exists>t'. insert_op (last_key xs) b t = Inr t' \<and> ok t'
    \<and> lookup_op (xs @ [b]) (int (length (xs @ [b]))) t' = Inr (Suc (length xs), Some b)"
proof -
  have mem: "x \<in> dom (par t)" if "x \<in> set xs" for x
    using assms(3) that by (induction xs arbitrary: rule: rev_induct) (auto simp: root_path_append)
  then have "p \<in> dom (par t)" if "last_key xs = Some p" for p
    using that last_in_set by (fastforce simp: last_key_def split: if_splits)
  from insert_law [OF assms(1,2) this] obtain t' where
    t': "insert_op (last_key xs) b t = Inr t'" "ok t'" "par t' = (par t)(b \<mapsto> last_key xs)" by blast
  have "root_path (par t') q ys" if "root_path (par t) q ys" "b \<notin> set ys" for q ys
    using that by (induction ys arbitrary: q) (auto simp: t'(3))
  then have "root_path (par t') None xs" using assms(2,3) mem by blast
  with t'(3) have "hit_count (par t') None (xs @ [b]) = Suc (length xs)"
    by (simp add: hit_count_append last_key_def)
  with t' lookup_law [OF t'(2), of "xs @ [b]"] show ?thesis by (auto simp: hit_last_def)
qed

lemma lookup_full_path:
  assumes "ok t" "lookup_op ids (int (length ids)) t = Inr (length ids, l)" "ids \<noteq> []"
  shows "path_op (last ids) t = Inr ids"
proof -
  from lookup_law [OF assms(1), of ids] assms(2) have "hit_count (par t) None ids = length ids"
    by (simp add: Let_def)
  then have p: "root_path (par t) None ids" by (metis hit_count_root_path take_all order_refl)
  then have "last ids \<in> dom (par t)"
    using assms(3) by (cases ids rule: rev_cases) (auto simp: root_path_append)
  from path_law [OF assms(1) this] root_path_unique [OF assms(1) _ p] assms(3) show ?thesis by auto
qed

end

interpretation tree: block_tree radix_ok tree_parent insert_child remove_block radix_lookup path_to_block
  subtree_block_ids child_block_ids child_count leaf_block_ids
proof
  fix t :: radix_backend and b ids q
  assume ok: "radix_ok t"
  show "\<exists>t'. insert_child q b t = Inr t' \<and> radix_ok t' \<and> tree_parent t' = (tree_parent t)(b \<mapsto> q)"
    if "b \<notin> dom (tree_parent t)" "\<And>p. q = Some p \<Longrightarrow> p \<in> dom (tree_parent t)"
    using insert_child_ok [OF ok] that by (metis domIff tree_parent_None)
  show "radix_lookup ids (int (length ids)) t =
      (let h = hit_count (tree_parent t) None ids in Inr (h, hit_last None ids h))"
    using radix_lookup_spec [OF ok] by simp
  show "distinct (leaf_block_ids t) \<and> set (leaf_block_ids t) = {b \<in> dom (tree_parent t). kids_of (tree_parent t) b = {}}"
    using leaf_block_ids_spec [OF ok] by blast
  assume "b \<in> dom (tree_parent t)"
  then have b: "loc t b \<noteq> None" by (auto simp: dom_tree_parent)
  show "\<exists>t'. remove_block b t = Inr t' \<and> radix_ok t' \<and> tree_parent t' = (tree_parent t)(b := None)"
    if "kids_of (tree_parent t) b = {}"
    by (rule remove_block_ok [OF ok b that])
  show "\<exists>xs. path_to_block b t = Inr xs \<and> root_path (tree_parent t) None xs \<and> xs \<noteq> [] \<and> last xs = b"
    by (rule path_to_block_spec [OF ok b])
  show "\<exists>xs. subtree_block_ids b t = Inr xs \<and> distinct xs
      \<and> set xs = {x \<in> dom (tree_parent t). descends (tree_parent t) x b}"
    by (rule subtree_block_ids_spec [OF ok b])
  show "\<exists>xs. child_block_ids b t = Inr xs \<and> distinct xs \<and> set xs = kids_of (tree_parent t) b"
    by (rule child_block_ids_spec [OF ok b])
  show "child_count b t = Inr (card (kids_of (tree_parent t) b))" by (rule child_count_spec [OF ok b])
qed

lemma init_backend_ok: "radix_ok init_backend" "tree_parent init_backend = Map.empty"
  by (auto simp: radix_ok_def tree_ok_def init_backend_def empty_node_def located_def linked_def leaves_but_def
      ranked_def live_def placed_def tree_parent_def fun_eq_iff)

text \<open>A small store for the witnesses: a root block and a child of it.\<close>

definition sample_backend :: radix_backend where
  "sample_backend = attach_child 1 [2] (clear_leaf 1 (attach_child 0 [1] init_backend))"

lemma sample_backend_insert:
  "rbind (insert_child None [1] init_backend) (insert_child (Some [1]) [2]) = Inr sample_backend"
  by (simp add: insert_child_def sample_backend_def init_backend_def empty_node_def attach_child_def clear_leaf_def
      split_after_def new_node_def set_node_def index_segment_def add_leaf_def discard_leaf_def Let_def)

lemma sample_backend_ok: "radix_ok sample_backend" "tree_parent sample_backend = [[1] \<mapsto> None, [2] \<mapsto> Some [1]]"
proof -
  obtain bk where bk: "insert_child None [1] init_backend = Inr bk" "radix_ok bk" "tree_parent bk = [[1] \<mapsto> None]"
    using tree.insert_law [OF init_backend_ok(1), of "[1]" None] by (auto simp: init_backend_ok(2))
  moreover obtain bk' where "insert_child (Some [1]) [2] bk = Inr bk'" "radix_ok bk'"
    "tree_parent bk' = (tree_parent bk)([2] \<mapsto> Some [1])"
    using tree.insert_law [OF bk(2), of "[2]" "Some [1]"] by (auto simp: bk(3))
  ultimately show "radix_ok sample_backend" "tree_parent sample_backend = [[1] \<mapsto> None, [2] \<mapsto> Some [1]]"
    using sample_backend_insert by simp_all
qed

section \<open>Properties\<close>

text \<open>
  C13. Inserting a block below a parent, or below the root, keeps the store well formed and
  adds exactly one entry to the parent map, however the node of the parent has to be split;
  inserting a block that is present changes nothing, and a missing parent is a KeyError.
\<close>

theorem insert_child_refines:
  assumes "radix_ok bk"
  shows "b \<in> dom (tree_parent bk) \<and> insert_child q b bk = Inr bk
    \<or> b \<notin> dom (tree_parent bk) \<and> (\<exists>p. q = Some p \<and> p \<notin> dom (tree_parent bk))
        \<and> insert_child q b bk = Inl (KeyError ''Prefix cache parent block id is not present in radix tree.'')
    \<or> b \<notin> dom (tree_parent bk) \<and> (\<forall>p. q \<noteq> Some p \<or> p \<in> dom (tree_parent bk))
        \<and> (\<exists>bk'. insert_child q b bk = Inr bk' \<and> radix_ok bk' \<and> tree_parent bk' = (tree_parent bk)(b \<mapsto> q))"
proof (cases "b \<in> dom (tree_parent bk)")
  case True
  then have "insert_child q b bk = Inr bk" by (auto simp: insert_child_def dom_tree_parent)
  with True show ?thesis by blast
next
  case False
  then have b: "loc bk b = None" by (rule in_tree [THEN iffD1])
  show ?thesis
  proof (cases "\<exists>p. q = Some p \<and> p \<notin> dom (tree_parent bk)")
    case True
    then obtain p where p: "q = Some p" "loc bk p = None" unfolding in_tree by blast
    with b True False show ?thesis by (simp add: insert_child_def)
  next
    case present: False
    then have "\<And>p. q = Some p \<Longrightarrow> p \<in> dom (tree_parent bk)" by blast
    from tree.insert_law [OF assms False this] present False show ?thesis by blast
  qed
qed

theorem insert_child_refines_witness:
  "radix_ok sample_backend \<and> (\<exists>bk'. insert_child (Some [1]) [3] sample_backend = Inr bk' \<and> radix_ok bk'
     \<and> tree_parent bk' = [[1] \<mapsto> None, [2] \<mapsto> Some [1], [3] \<mapsto> Some [1]])"
  using insert_child_refines [OF sample_backend_ok(1), of "[3]" "Some [1]"] sample_backend_ok by simp

text \<open>
  C14. Removing a block deletes exactly its entry of the parent map and keeps the store well
  formed; it is refused with the code's exceptions when the block is absent or has children.
\<close>

theorem remove_block_refines:
  assumes "radix_ok bk"
  shows "b \<notin> dom (tree_parent bk)
        \<and> remove_block b bk = Inl (KeyError ''Prefix cache block id is not present in radix tree.'')
    \<or> b \<in> dom (tree_parent bk) \<and> kids_of (tree_parent bk) b \<noteq> {}
        \<and> remove_block b bk = Inl (RuntimeError ''Cannot remove a prefix cache tree block with live children.'')
    \<or> b \<in> dom (tree_parent bk) \<and> kids_of (tree_parent bk) b = {}
        \<and> (\<exists>bk'. remove_block b bk = Inr bk' \<and> radix_ok bk' \<and> tree_parent bk' = (tree_parent bk)(b := None))"
proof (cases "b \<in> dom (tree_parent bk)")
  case False
  with remove_block_errors(1) [OF assms in_tree [THEN iffD1]] show ?thesis by blast
next
  case True
  then have "loc bk b \<noteq> None" by (metis in_tree)
  with True tree.remove_law [OF assms True] remove_block_errors(2) [OF assms, of b] show ?thesis by blast
qed

theorem remove_block_refines_witness:
  "radix_ok sample_backend \<and> (\<exists>bk'. remove_block [2] sample_backend = Inr bk' \<and> radix_ok bk'
     \<and> tree_parent bk' = [[1] \<mapsto> None])"
  using remove_block_refines [OF sample_backend_ok(1), of "[2]"] sample_backend_ok
  by (auto simp: kids_of_def parent_step_def fun_upd_twist split: if_splits)

text \<open>
  C15. A lookup returns the length of the longest prefix of the ids that is a path of blocks
  from the root, and the id where it ends; the loop over nodes and segments always ends.
\<close>

theorem lookup_is_longest_path:
  assumes "radix_ok bk" "radix_lookup ids (int (length ids)) bk = r"
  shows "\<exists>h. r = Inr (h, if h = 0 then None else Some (ids ! (h - 1))) \<and> h \<le> length ids
    \<and> root_path (tree_parent bk) None (take h ids)
    \<and> (\<forall>k \<le> length ids. root_path (tree_parent bk) None (take k ids) \<longrightarrow> k \<le> h)"
  using tree.lookup_law [OF assms(1), of ids] assms(2) hit_count_le [of "tree_parent bk" None ids]
    hit_count_root_path [of "tree_parent bk" None ids] hit_count_maximal [of "tree_parent bk" None _ ids]
  by (auto simp: Let_def hit_last_def)

theorem lookup_is_longest_path_witness:
  "\<exists>h. radix_lookup [[1], [2], [4]] 3 sample_backend = Inr (h, if h = 0 then None else Some ([[1], [2], [4]] ! (h - 1)))
     \<and> h = 2"
proof -
  obtain h where h: "radix_lookup [[1], [2], [4]] 3 sample_backend = Inr (h, if h = 0 then None else Some ([[1], [2], [4]] ! (h - 1)))"
    "h \<le> 3" "root_path (tree_parent sample_backend) None (take h [[1], [2], [4]])"
    "\<And>k. k \<le> 3 \<Longrightarrow> root_path (tree_parent sample_backend) None (take k [[1], [2], [4]]) \<Longrightarrow> k \<le> h"
    using lookup_is_longest_path [OF sample_backend_ok(1) refl, of "[[1], [2], [4]]"] by auto
  from h(4) [of 2] have "2 \<le> h" by (simp add: sample_backend_ok(2) numeral_2_eq_2)
  moreover have "h \<noteq> 3" using h(3) by (auto simp: sample_backend_ok(2) numeral_3_eq_3)
  ultimately have "h = 2" using h(2) by simp
  with h(1) show ?thesis by blast
qed

text \<open>
  A block inserted at the end of a path is found by the lookup of that path, together
  with the whole path above it.
\<close>

theorem inserted_block_found:
  assumes "radix_ok bk" "b \<notin> dom (tree_parent bk)" "root_path (tree_parent bk) None xs"
  shows "\<exists>bk'. insert_child (if xs = [] then None else Some (last xs)) b bk = Inr bk' \<and> radix_ok bk'
    \<and> radix_lookup (xs @ [b]) (int (length (xs @ [b]))) bk' = Inr (Suc (length xs), Some b)
    \<and> path_to_block b bk' = Inr (xs @ [b])"
proof -
  obtain bk' where bk': "insert_child (last_key xs) b bk = Inr bk'" "radix_ok bk'"
    "radix_lookup (xs @ [b]) (int (length (xs @ [b]))) bk' = Inr (Suc (length xs), Some b)"
    using tree.lookup_after_insert [OF assms] by blast
  moreover from tree.lookup_full_path [OF bk'(2), of "xs @ [b]"] bk'(3)
  have "path_to_block b bk' = Inr (xs @ [b])" by simp
  ultimately show ?thesis unfolding last_key_def by blast
qed

theorem inserted_block_found_witness:
  "\<exists>bk'. insert_child (Some [2]) [3] sample_backend = Inr bk' \<and> radix_ok bk'
    \<and> radix_lookup [[1], [2], [3]] 3 bk' = Inr (3, Some [3]) \<and> path_to_block [3] bk' = Inr [[1], [2], [3]]"
  using inserted_block_found [OF sample_backend_ok(1), of "[3]" "[[1], [2]]"]
  by (simp add: sample_backend_ok(2) numeral_3_eq_3)

text \<open>
  The subtree of a block is the set of its descendants, each listed once, and the stack
  traversal that collects it always ends.
\<close>

theorem subtree_is_descendants:
  assumes "radix_ok bk" "b \<in> dom (tree_parent bk)"
  shows "\<exists>xs. subtree_block_ids b bk = Inr xs \<and> distinct xs
    \<and> set xs = {x \<in> dom (tree_parent bk). descends (tree_parent bk) x b}"
  using assms by (rule tree.subtree_law)

theorem subtree_is_descendants_witness:
  "\<exists>xs. subtree_block_ids [1] sample_backend = Inr xs \<and> distinct xs \<and> set xs = {[1], [2]}"
proof -
  have "{x \<in> dom (tree_parent sample_backend). descends (tree_parent sample_backend) x [1]} = {[1], [2]}"
    by (auto simp: sample_backend_ok(2) descends_cases [of _ "[2]"] parent_step_def split: if_splits)
  with subtree_is_descendants [OF sample_backend_ok(1), of "[1]"] show ?thesis
    by (auto simp: sample_backend_ok(2))
qed

end
