(* ===== verification/Prefix_Index.thy ===== *)
theory Prefix_Index
  imports State_Result Block_Ids Radix_Spec
begin

text \<open>
  The prefix index (\<open>RadixPrefixIndex\<close> of \<^verbatim>\<open>engine/prefix_cache.py\<close>): block objects with
  reference counts, eviction priorities and device/host residency, the dictionary of live
  blocks, the radix tree, the incrementally maintained set of freeable blocks with its
  caches, eviction, demotion, and the control operations.  Block objects are mutable and the
  code compares them by identity, so they live in a store indexed by addresses; a method
  takes and returns addresses where the code passes objects.
\<close>

section \<open>Data\<close>

datatype transfer_kind = D2H | H2D

record block_residency =
  device_present :: bool
  host_present :: bool
  transfer :: "transfer_kind option"

definition residency_validate :: "block_residency \<Rightarrow> unit result" where
  "residency_validate r =
     (if \<not> device_present r \<and> \<not> host_present r
      then Inl (RuntimeError ''Prefix cache block has no resident payload.'')
      else if transfer r = Some D2H then
        (if \<not> device_present r \<or> host_present r
         then Inl (RuntimeError ''D2H prefix transfer requires a device payload and no published host payload.'')
         else Inr ())
      else if transfer r = Some H2D then
        (if \<not> device_present r \<or> \<not> host_present r
         then Inl (RuntimeError ''H2D prefix transfer requires allocated device and host payloads.'')
         else Inr ())
      else Inr ())"

text \<open>\<open>'p\<close> is the type of the method-owned payloads and prune records, which the index only stores.\<close>

record 'p prefix_block =
  block_key :: block_id
  parent_block_id :: "block_id option"
  block_tokens :: int
  logical_block_idx :: int
  payload :: 'p
  token_ids :: "int list"
  ref_count :: int
  last_access :: int
  eviction_priority :: int
  residency :: block_residency
  prune_record :: "'p option"

record index_counters =
  lookup_requests :: int
  block_id_generation_requests :: int
  hit_requests :: int
  hit_tokens :: int
  hit_blocks :: int
  committed_blocks :: int
  evicted_blocks :: int
  device_demoted_blocks :: int
  host_evicted_blocks :: int
  deleted_blocks :: int
  duplicate_commits :: int
  control_inspect_requests :: int
  control_delete_requests :: int
  control_priority_updates :: int
  freeable_scans :: int
  freeable_snapshot_builds :: int
  freeable_cache_hits :: int
  evictable_scans :: int
  evictable_cache_hits :: int
  device_reclaimable_scans :: int
  device_reclaimable_cache_hits :: int

record index_epochs =
  mutation_epoch :: int
  capacity_epoch :: int
  lookup_epoch :: int
  insert_epoch :: int
  remove_epoch :: int

text \<open>A cached set of block ids with the capacity epoch it was computed in.\<close>

type_synonym id_cache = "int \<times> block_id set"

record 'p prefix_index =
  objs :: "addr \<Rightarrow> 'p prefix_block"
  idx_block_size :: int
  idx_fingerprint :: bytes
  max_blocks :: "int option"
  backend :: radix_backend
  blocks :: "(block_id, addr) dict"
  clock :: int
  epochs :: index_epochs
  freeable_cache :: id_cache
  freeable_ids :: "block_id set option"
  blocked_freeable_children :: "block_id \<rightharpoonup> int"
  evictable_cache :: id_cache
  device_freeable_cache :: id_cache
  device_reclaimable_cache :: id_cache
  counters :: index_counters
  snapshot :: "routing_snapshot option"
  membership :: "block_id routing_membership"

type_synonym ('p, 'a) index_op = "('p prefix_index, 'a) op"

definition zero_counters :: index_counters where
  "zero_counters = \<lparr>lookup_requests = 0, block_id_generation_requests = 0, hit_requests = 0,
     hit_tokens = 0, hit_blocks = 0, committed_blocks = 0, evicted_blocks = 0,
     device_demoted_blocks = 0, host_evicted_blocks = 0, deleted_blocks = 0, duplicate_commits = 0,
     control_inspect_requests = 0, control_delete_requests = 0, control_priority_updates = 0,
     freeable_scans = 0, freeable_snapshot_builds = 0, freeable_cache_hits = 0, evictable_scans = 0,
     evictable_cache_hits = 0, device_reclaimable_scans = 0, device_reclaimable_cache_hits = 0\<rparr>"

definition init_index :: "(addr \<Rightarrow> 'p prefix_block) \<Rightarrow> int \<Rightarrow> bytes \<Rightarrow> int option \<Rightarrow> 'p prefix_index result" where
  "init_index heap block_size fingerprint limit =
     (if block_size \<le> 0 then Inl (ValueError ''block_size must be > 0'')
      else if (\<exists>m \<in> set_option limit. m \<le> 0) then Inl (ValueError ''max_blocks must be > 0 when set'')
      else Inr \<lparr>objs = heap, idx_block_size = block_size, idx_fingerprint = fingerprint, max_blocks = limit,
        backend = init_backend, blocks = [], clock = 0,
        epochs = \<lparr>mutation_epoch = 0, capacity_epoch = 0, lookup_epoch = 0, insert_epoch = 0, remove_epoch = 0\<rparr>,
        freeable_cache = (-1, {}), freeable_ids = None, blocked_freeable_children = Map.empty,
        evictable_cache = (-1, {}), device_freeable_cache = (-1, {}), device_reclaimable_cache = (-1, {}),
        counters = zero_counters, snapshot = None, membership = empty_membership\<rparr>)"

abbreviation live_block :: "'p prefix_index \<Rightarrow> block_id \<rightharpoonup> addr" where
  "live_block s \<equiv> map_of (blocks s)"

definition get_block :: "'p prefix_index \<Rightarrow> block_id \<Rightarrow> 'p prefix_block option" where
  "get_block s b = map_option (objs s) (live_block s b)"

definition update_block :: "addr \<Rightarrow> ('p prefix_block \<Rightarrow> 'p prefix_block) \<Rightarrow> 'p prefix_index \<Rightarrow> 'p prefix_index" where
  "update_block a f s = s\<lparr>objs := (objs s)(a := f (objs s a))\<rparr>"

definition set_residency :: "addr \<Rightarrow> (block_residency \<Rightarrow> block_residency) \<Rightarrow> 'p prefix_index \<Rightarrow> 'p prefix_index" where
  "set_residency a f = update_block a (\<lambda>blk. blk\<lparr>residency := f (residency blk)\<rparr>)"

definition count_up :: "(index_counters \<Rightarrow> index_counters) \<Rightarrow> ('p, unit) index_op" where
  "count_up f = writes (\<lambda>s. s\<lparr>counters := f (counters s)\<rparr>)"

section \<open>Clock and epochs\<close>

definition tick :: "('p, int) index_op" where
  "tick = oseq (writes (\<lambda>s. s\<lparr>clock := clock s + 1\<rparr>)) (reads clock)"

definition mark_mutated :: "('p, unit) index_op" where
  "mark_mutated = writes (\<lambda>s. s\<lparr>epochs := (epochs s)\<lparr>mutation_epoch := mutation_epoch (epochs s) + 1\<rparr>\<rparr>)"

definition mark_capacity_mutated :: "('p, unit) index_op" where
  "mark_capacity_mutated =
     oseq (writes (\<lambda>s. s\<lparr>epochs := (epochs s)\<lparr>capacity_epoch := capacity_epoch (epochs s) + 1\<rparr>\<rparr>)) mark_mutated"

definition mark_inserted :: "bool \<Rightarrow> ('p, unit) index_op" where
  "mark_inserted capacity_changed =
     oseq (writes (\<lambda>s. s\<lparr>epochs := (epochs s)\<lparr>insert_epoch := insert_epoch (epochs s) + 1,
                                           lookup_epoch := lookup_epoch (epochs s) + 1\<rparr>\<rparr>))
       (if capacity_changed then mark_capacity_mutated else mark_mutated)"

definition mark_removed :: "('p, unit) index_op" where
  "mark_removed =
     oseq (writes (\<lambda>s. s\<lparr>epochs := (epochs s)\<lparr>remove_epoch := remove_epoch (epochs s) + 1,
                                           lookup_epoch := lookup_epoch (epochs s) + 1\<rparr>\<rparr>))
       mark_capacity_mutated"

section \<open>Freeable blocks, incrementally\<close>

definition locally_blocked :: "'p prefix_block \<Rightarrow> bool" where
  "locally_blocked blk \<longleftrightarrow> ref_count blk \<noteq> 0 \<or> eviction_priority blk < 0 \<or> transfer (residency blk) \<noteq> None"

fun refresh_loop :: "nat \<Rightarrow> block_id option \<Rightarrow> ('p, unit) index_op" where
  "refresh_loop fuel None s = (Inr (), s)"
| "refresh_loop 0 (Some b) s = (Inl NonTermination, s)"
| "refresh_loop (Suc fuel) (Some b) s =
     (case live_block s b of
        None \<Rightarrow> (Inl (KeyError ''block_id''), s)
      | Some a \<Rightarrow>
          (case blocked_freeable_children s b of
             None \<Rightarrow> (Inl (KeyError ''block_id''), s)
           | Some c \<Rightarrow>
               (let freeable = the (freeable_ids s);
                    was_freeable = (b \<in> freeable);
                    is_freeable = (c = 0 \<and> \<not> locally_blocked (objs s a))
                in if is_freeable = was_freeable then (Inr (), s)
                else
                  let s = s\<lparr>freeable_ids := Some (if is_freeable then insert b freeable else freeable - {b})\<rparr>
                  in case parent_block_id (objs s a) of
                       None \<Rightarrow> (Inr (), s)
                     | Some p \<Rightarrow>
                         (case blocked_freeable_children s p of
                            None \<Rightarrow> (Inl (KeyError ''block_id''), s)
                          | Some d \<Rightarrow>
                              refresh_loop fuel (Some p) (s\<lparr>blocked_freeable_children :=
                                (blocked_freeable_children s)(p \<mapsto> d + (if is_freeable then -1 else 1))\<rparr>)))))"

definition refresh_freeable_path :: "block_id option \<Rightarrow> ('p, unit) index_op" where
  "refresh_freeable_path b s =
     (if freeable_ids s = None then (Inr (), s) else refresh_loop (Suc (length (blocks s))) b s)"

section \<open>Reference counts\<close>

definition indexed :: "'p prefix_index \<Rightarrow> addr \<Rightarrow> bool" where
  "indexed s a \<longleftrightarrow> live_block s (block_key (objs s a)) = Some a"

definition validate_indexed_block :: "addr \<Rightarrow> ('p, unit) index_op" where
  "validate_indexed_block a s =
     raise_if (\<not> indexed s a) (RuntimeError ''Cannot update a prefix block that is not indexed.'') s"

definition mark_payload_compacted :: "addr list \<Rightarrow> ('p, unit) index_op" where
  "mark_payload_compacted as =
     (if as = [] then ret () else oseq (ofor as validate_indexed_block) mark_capacity_mutated)"

definition set_block_ref_count :: "addr \<Rightarrow> int \<Rightarrow> string \<Rightarrow> ('p, unit) index_op" where
  "set_block_ref_count a n negative_error =
     oseq (validate_indexed_block a)
    (oseq (raise_if (n < 0) (RuntimeError negative_error))
    (obind (reads (\<lambda>s. ref_count (objs s a))) (\<lambda>old.
       if old = n then ret ()
       else oseq (writes (update_block a (\<lambda>blk. blk\<lparr>ref_count := n\<rparr>)))
         (if (old = 0) \<noteq> (n = 0)
          then oseq (obind (reads (\<lambda>s. block_key (objs s a))) (\<lambda>b. refresh_freeable_path (Some b)))
                 mark_capacity_mutated
          else mark_mutated))))"

definition acquire_block_ref :: "addr \<Rightarrow> ('p, unit) index_op" where
  "acquire_block_ref a s =
     set_block_ref_count a (ref_count (objs s a) + 1) ''Prefix cache block ref_count became negative.'' s"

definition release_block_ref :: "addr \<Rightarrow> string \<Rightarrow> ('p, unit) index_op" where
  "release_block_ref a negative_error s =
     set_block_ref_count a (ref_count (objs s a) - 1) negative_error s"

section \<open>Routing membership\<close>

definition record_routing_insert :: "block_id \<Rightarrow> ('p, unit) index_op" where
  "record_routing_insert b =
     obind (lift_result (\<lambda>s. membership_insert (membership s) b)) (\<lambda>m.
       writes (\<lambda>s. s\<lparr>membership := m, snapshot := None\<rparr>))"

definition record_routing_remove :: "block_id \<Rightarrow> ('p, unit) index_op" where
  "record_routing_remove b =
     obind (lift_result (\<lambda>s. membership_remove (membership s) b)) (\<lambda>m.
       writes (\<lambda>s. s\<lparr>membership := m, snapshot := None\<rparr>))"

definition fresh_snapshot :: "string \<Rightarrow> 'p prefix_index \<Rightarrow> routing_snapshot" where
  "fresh_snapshot method s = \<lparr>supported = True, enabled = True, snapshot_method = method,
     snapshot_block_size = Some (idx_block_size s), snapshot_fingerprint = idx_fingerprint s,
     snapshot_block_ids = [], snapshot_membership = Some (membership s), reason = None\<rparr>"

definition rebuild_snapshot :: "string \<Rightarrow> ('p, routing_snapshot) index_op" where
  "rebuild_snapshot method =
     obind (reads (\<lambda>s. live_blocks (membership s) \<noteq> int (length (blocks s)))) (\<lambda>bad.
     oseq (raise_if bad (RuntimeError ''Prefix-cache routing membership is inconsistent with the live index.''))
     (obind (reads (fresh_snapshot method)) (\<lambda>sn.
      oseq (writes (\<lambda>s. s\<lparr>snapshot := Some sn\<rparr>)) (ret sn))))"

definition take_routing_snapshot :: "string \<Rightarrow> ('p, routing_snapshot) index_op" where
  "take_routing_snapshot method s =
     (case snapshot s of
        Some sn \<Rightarrow>
          if snapshot_method sn = method then (Inr sn, s)
          else rebuild_snapshot method s
      | None \<Rightarrow> rebuild_snapshot method s)"

section \<open>Lookups\<close>

definition block_ids_of :: "(bytes \<Rightarrow> bytes) \<Rightarrow> int list \<Rightarrow> int option \<Rightarrow> ('p, block_id list) index_op" where
  "block_ids_of sha256 tokens max_tokens =
     oseq (count_up (\<lambda>c. c\<lparr>block_id_generation_requests := block_id_generation_requests c + 1\<rparr>))
       (lift_result (\<lambda>s. block_ids_for_tokens sha256 (idx_fingerprint s) (idx_block_size s) tokens max_tokens))"

definition match_longest_block_ids :: "block_id list \<Rightarrow> ('p, int \<times> block_id option \<times> int) index_op" where
  "match_longest_block_ids ids =
     obind (lift_result (\<lambda>s. radix_lookup ids (int (length ids)) (backend s))) (\<lambda>(hits, last_id).
     obind (reads idx_block_size) (\<lambda>bs.
       if hits = 0 then ret (0, None, 0) else ret (int hits * bs, last_id, int hits)))"

definition match_longest_prefix ::
  "(bytes \<Rightarrow> bytes) \<Rightarrow> int list \<Rightarrow> int \<Rightarrow> ('p, int \<times> block_id option \<times> int) index_op" where
  "match_longest_prefix sha256 tokens max_usable =
     obind (block_ids_of sha256 tokens (Some max_usable)) match_longest_block_ids"

definition lookup_longest_block_ids :: "block_id list \<Rightarrow> ('p, int \<times> block_id option \<times> int) index_op" where
  "lookup_longest_block_ids ids =
     oseq (count_up (\<lambda>c. c\<lparr>lookup_requests := lookup_requests c + 1\<rparr>))
     (obind (match_longest_block_ids ids) (\<lambda>(hit_len, last_id, hits).
        if hits \<le> 0 then ret (0, None, 0)
        else oseq (count_up (\<lambda>c. c\<lparr>hit_requests := hit_requests c + 1, hit_tokens := hit_tokens c + hit_len,
                                  hit_blocks := hit_blocks c + hits\<rparr>))
               (ret (hit_len, last_id, hits))))"

definition lookup_longest_prefix ::
  "(bytes \<Rightarrow> bytes) \<Rightarrow> int list \<Rightarrow> int \<Rightarrow> ('p, int \<times> block_id option \<times> int) index_op" where
  "lookup_longest_prefix sha256 tokens max_usable =
     obind (block_ids_of sha256 tokens (Some max_usable)) lookup_longest_block_ids"

text \<open>\<open>path[-block_count:]\<close> is the last \<open>block_count\<close> ids of the path.\<close>

definition get_chain :: "block_id \<Rightarrow> int \<Rightarrow> ('p, addr list) index_op" where
  "get_chain last_id block_count =
     oseq (raise_if (block_count \<le> 0) (ValueError ''block_count must be > 0''))
     (obind (lift_result (\<lambda>s. path_to_block last_id (backend s))) (\<lambda>path.
      oseq (raise_if (int (length path) < block_count)
              (RuntimeError ''Prefix cache chain is shorter than expected''))
        (omap (\<lambda>b. lift_result (\<lambda>s. case live_block s b of
                 None \<Rightarrow> Inl (RuntimeError ''Prefix cache chain is incomplete'') | Some a \<Rightarrow> Inr a))
           (drop (length path - nat block_count) path))))"

section \<open>Insertion\<close>

definition parent_block :: "'p prefix_index \<Rightarrow> 'p prefix_block \<Rightarrow> 'p prefix_block option" where
  "parent_block s blk = Option.bind (parent_block_id blk) (get_block s)"

definition touch :: "addr \<Rightarrow> ('p, unit) index_op" where
  "touch a = obind tick (\<lambda>access. writes (update_block a (\<lambda>blk. blk\<lparr>last_access := access\<rparr>)))"

definition touch_chain :: "addr list \<Rightarrow> ('p, unit) index_op" where
  "touch_chain as = obind tick (\<lambda>access.
     ofor as (\<lambda>a. writes (update_block a (\<lambda>blk. blk\<lparr>last_access := access\<rparr>))))"

text \<open>The leaves that are not blocked, cached per capacity epoch.\<close>

definition evictable_block_ids :: "('p, block_id set) index_op" where
  "evictable_block_ids s =
     (if fst (evictable_cache s) = capacity_epoch (epochs s)
      then oseq (count_up (\<lambda>c. c\<lparr>evictable_cache_hits := evictable_cache_hits c + 1\<rparr>))
             (reads (\<lambda>s. snd (evictable_cache s))) s
      else oseq (count_up (\<lambda>c. c\<lparr>evictable_scans := evictable_scans c + 1\<rparr>))
          (oseq (writes (\<lambda>s. s\<lparr>evictable_cache := (capacity_epoch (epochs s),
                   {b \<in> set (leaf_block_ids (backend s)).
                      case get_block s b of None \<Rightarrow> False | Some blk \<Rightarrow> \<not> locally_blocked blk})\<rparr>))
             (reads (\<lambda>s. snd (evictable_cache s)))) s)"

definition check_insert_parent :: "'p prefix_block \<Rightarrow> 'p prefix_index \<Rightarrow> unit result" where
  "check_insert_parent blk s =
     (case parent_block_id blk of
        None \<Rightarrow> Inr ()
      | Some p \<Rightarrow>
          (case get_block s p of
             None \<Rightarrow> Inl (KeyError ''Cannot insert prefix cache block because parent is missing.'')
           | Some pb \<Rightarrow>
               if device_present (residency blk) \<and> \<not> device_present (residency pb)
               then Inl (RuntimeError ''Cannot insert a device-resident prefix block below a host-only parent.'')
               else if host_present (residency blk) \<and> \<not> host_present (residency pb)
               then Inl (RuntimeError ''Cannot insert a host-resident prefix block below a device-only parent.'')
               else Inr ()))"

definition register_freeable :: "block_id \<Rightarrow> block_id option \<Rightarrow> ('p, unit) index_op" where
  "register_freeable b q s =
     (if freeable_ids s = None then (Inr (), s)
      else oseq (writes (\<lambda>s. s\<lparr>blocked_freeable_children := (blocked_freeable_children s)(b \<mapsto> 0)\<rparr>))
        (oseq (case q of
                 None \<Rightarrow> ret ()
               | Some p \<Rightarrow> (\<lambda>s. case blocked_freeable_children s p of
                     None \<Rightarrow> (Inl (KeyError ''block_id''), s)
                   | Some d \<Rightarrow> (Inr (), s\<lparr>blocked_freeable_children := (blocked_freeable_children s)(p \<mapsto> d + 1)\<rparr>)))
        (oseq (refresh_freeable_path (Some b)) (refresh_freeable_path q))) s)"

definition over_capacity :: "'p prefix_index \<Rightarrow> bool" where
  "over_capacity s = (case max_blocks s of None \<Rightarrow> False | Some m \<Rightarrow> m \<le> int (length (blocks s)))"

text \<open>
  The insertion of a block that is not indexed yet.  The message of the capacity error
  evaluates \<open>evictable_blocks()\<close>, which may refresh the cache.
\<close>

definition insert_new_block :: "addr \<Rightarrow> ('p, addr) index_op" where
  "insert_new_block a =
     obind (reads (\<lambda>s. objs s a)) (\<lambda>blk.
     obind (reads over_capacity) (\<lambda>full.
       if full then oseq evictable_block_ids
           (raise_error (RuntimeError ''Prefix cache capacity exceeded before insert''))
       else
     oseq (lift_result (check_insert_parent blk))
    (oseq (touch a)
    (oseq (writes (\<lambda>s. s\<lparr>blocks := AList.update (block_key blk) a (blocks s)\<rparr>))
    (oseq (obind (lift_result (\<lambda>s. insert_child (parent_block_id blk) (block_key blk) (backend s)))
             (\<lambda>bk. writes (\<lambda>s. s\<lparr>backend := bk\<rparr>)))
    (oseq (register_freeable (block_key blk) (parent_block_id blk))
    (oseq (count_up (\<lambda>c. c\<lparr>committed_blocks := committed_blocks c + 1\<rparr>))
    (oseq (record_routing_insert (block_key blk))
    (obind (reads (\<lambda>s. parent_block s blk)) (\<lambda>parent.
     oseq (mark_inserted (\<not> (locally_blocked blk \<and>
             (case parent of None \<Rightarrow> True | Some pb \<Rightarrow> locally_blocked pb))))
       (ret a))))))))))) "

definition insert_block :: "addr \<Rightarrow> ('p, addr) index_op" where
  "insert_block a =
     oseq (lift_result (\<lambda>s. residency_validate (residency (objs s a))))
     (obind (reads (\<lambda>s. live_block s (block_key (objs s a)))) (\<lambda>existing.
        case existing of
          Some e \<Rightarrow> oseq (count_up (\<lambda>c. c\<lparr>duplicate_commits := duplicate_commits c + 1\<rparr>))
                     (oseq (touch e) (ret e))
        | None \<Rightarrow> insert_new_block a))"

end
