(* ===== verification/Prefix_Eviction.thy ===== *)
theory Prefix_Eviction
  imports Prefix_Index
begin

text \<open>
  The operations of the prefix index that move and remove blocks: transfers between device
  and host, the sets of freeable and reclaimable blocks, removal, and eviction and demotion
  in priority order.  Python's \<open>heapq\<close> on a list of distinct tuples is modelled as the sorted
  list of its elements: \<open>heapify\<close> sorts, \<open>heappush\<close> inserts, \<open>heappop\<close> takes the least.
\<close>

section \<open>Residency transitions\<close>

definition device_child_count :: "block_id \<Rightarrow> 'p prefix_index \<Rightarrow> int result" where
  "device_child_count b s =
     rbind (child_block_ids b (backend s)) (\<lambda>ks.
       Inr (int (length (filter (\<lambda>k. case get_block s k of None \<Rightarrow> False
                                     | Some blk \<Rightarrow> device_present (residency blk)) ks))))"

definition validate_block :: "addr \<Rightarrow> ('p, unit) index_op" where
  "validate_block a = lift_result (\<lambda>s. residency_validate (residency (objs s a)))"

text \<open>The common end of the transitions.\<close>

definition residency_changed :: "addr \<Rightarrow> ('p, unit) index_op" where
  "residency_changed a =
     oseq (validate_block a)
    (oseq (obind (reads (\<lambda>s. block_key (objs s a))) (\<lambda>b. refresh_freeable_path (Some b)))
       mark_capacity_mutated)"

definition check_begin_d2h :: "addr \<Rightarrow> 'p prefix_index \<Rightarrow> unit result" where
  "check_begin_d2h a s =
     (let blk = objs s a; r = residency blk in
      if \<not> indexed s a then Inl (RuntimeError ''Cannot back up a prefix block that is not indexed.'')
      else rbind (residency_validate r) (\<lambda>_.
      if ref_count blk \<noteq> 0 then Inl (RuntimeError ''Cannot back up a referenced prefix cache block.'')
      else if host_present r
      then Inl (RuntimeError ''Cannot back up a prefix cache block that already has a host payload.'')
      else if transfer r \<noteq> None
      then Inl (RuntimeError ''Cannot start D2H while another prefix transfer is active.'')
      else (case parent_block_id blk of
          None \<Rightarrow> Inr ()
        | Some p \<Rightarrow>
            (case get_block s p of
               None \<Rightarrow> Inl (RuntimeError ''Prefix D2H backup must preserve a host-resident path from the radix root.'')
             | Some pb \<Rightarrow>
                 if host_present (residency pb) \<or> transfer (residency pb) = Some D2H then Inr ()
                 else Inl (RuntimeError ''Prefix D2H backup must preserve a host-resident path from the radix root.'')))))"

definition begin_d2h :: "addr \<Rightarrow> ('p, unit) index_op" where
  "begin_d2h a =
     oseq (lift_result (check_begin_d2h a))
    (oseq (writes (set_residency a (\<lambda>r. r\<lparr>transfer := Some D2H\<rparr>))) (residency_changed a))"

definition check_finish_d2h :: "addr \<Rightarrow> 'p prefix_index \<Rightarrow> unit result" where
  "check_finish_d2h a s =
     (let blk = objs s a in
      if transfer (residency blk) \<noteq> Some D2H
      then Inl (RuntimeError ''Cannot finish D2H without an active D2H prefix transfer.'')
      else (case parent_block_id blk of
          None \<Rightarrow> Inr ()
        | Some p \<Rightarrow>
            (case get_block s p of
               None \<Rightarrow> Inl (RuntimeError ''Cannot publish a host prefix payload before its parent is host-resident.'')
             | Some pb \<Rightarrow>
                 if host_present (residency pb) then Inr ()
                 else Inl (RuntimeError ''Cannot publish a host prefix payload before its parent is host-resident.''))))"

definition finish_d2h :: "addr \<Rightarrow> ('p, unit) index_op" where
  "finish_d2h a =
     oseq (lift_result (check_finish_d2h a))
    (oseq (writes (set_residency a (\<lambda>r. r\<lparr>host_present := True, transfer := None\<rparr>))) (residency_changed a))"

definition abort_d2h :: "addr \<Rightarrow> ('p, unit) index_op" where
  "abort_d2h a =
     obind (reads (\<lambda>s. transfer (residency (objs s a)))) (\<lambda>t.
     oseq (raise_if (t \<noteq> Some D2H) (RuntimeError ''Cannot abort D2H without an active D2H prefix transfer.''))
    (oseq (writes (set_residency a (\<lambda>r. r\<lparr>transfer := None\<rparr>))) (residency_changed a)))"

definition check_begin_h2d :: "addr \<Rightarrow> 'p prefix_index \<Rightarrow> unit result" where
  "check_begin_h2d a s =
     (let blk = objs s a; r = residency blk in
      if \<not> indexed s a then Inl (RuntimeError ''Cannot promote a prefix block that is not indexed.'')
      else rbind (residency_validate r) (\<lambda>_.
      if device_present r
      then Inl (RuntimeError ''Cannot promote a prefix cache block that already has a device payload.'')
      else if \<not> host_present r
      then Inl (RuntimeError ''Cannot promote a prefix cache block without a host payload.'')
      else if transfer r \<noteq> None
      then Inl (RuntimeError ''Cannot start H2D while another prefix transfer is active.'')
      else (case parent_block_id blk of
          None \<Rightarrow> Inr ()
        | Some p \<Rightarrow>
            (case get_block s p of
               None \<Rightarrow> Inl (RuntimeError ''Prefix H2D promotion must preserve a device-resident path from the radix root.'')
             | Some pb \<Rightarrow>
                 if device_present (residency pb) then Inr ()
                 else Inl (RuntimeError ''Prefix H2D promotion must preserve a device-resident path from the radix root.'')))))"

definition begin_h2d :: "addr \<Rightarrow> ('p, unit) index_op" where
  "begin_h2d a =
     oseq (lift_result (check_begin_h2d a))
    (oseq (writes (set_residency a (\<lambda>r. r\<lparr>device_present := True, transfer := Some H2D\<rparr>))) (residency_changed a))"

definition finish_h2d :: "addr \<Rightarrow> ('p, unit) index_op" where
  "finish_h2d a =
     obind (reads (\<lambda>s. transfer (residency (objs s a)))) (\<lambda>t.
     oseq (raise_if (t \<noteq> Some H2D) (RuntimeError ''Cannot finish H2D without an active H2D prefix transfer.''))
    (oseq (writes (set_residency a (\<lambda>r. r\<lparr>transfer := None\<rparr>))) (residency_changed a)))"

definition abort_h2d :: "addr \<Rightarrow> ('p, unit) index_op" where
  "abort_h2d a =
     obind (reads (\<lambda>s. transfer (residency (objs s a)))) (\<lambda>t.
     oseq (raise_if (t \<noteq> Some H2D) (RuntimeError ''Cannot abort H2D without an active H2D prefix transfer.''))
    (obind (lift_result (\<lambda>s. device_child_count (block_key (objs s a)) s)) (\<lambda>n.
     oseq (raise_if (n \<noteq> 0) (RuntimeError ''Cannot abort H2D while a device-resident child depends on the block.''))
    (oseq (writes (set_residency a (\<lambda>r. r\<lparr>device_present := False, transfer := None\<rparr>))) (residency_changed a)))))"

section \<open>What may be evicted or demoted\<close>

definition can_evict :: "addr \<Rightarrow> 'p prefix_index \<Rightarrow> bool result" where
  "can_evict a s =
     (if locally_blocked (objs s a) then Inr False
      else rbind (child_count (block_key (objs s a)) (backend s)) (\<lambda>n. Inr (n = 0)))"

definition host_blocked :: "'p prefix_block \<Rightarrow> bool" where
  "host_blocked blk \<longleftrightarrow> ref_count blk \<noteq> 0 \<or> eviction_priority blk < 0 \<or> device_present (residency blk)
     \<or> \<not> host_present (residency blk) \<or> transfer (residency blk) \<noteq> None"

definition can_evict_host :: "addr \<Rightarrow> 'p prefix_index \<Rightarrow> bool result" where
  "can_evict_host a s =
     (if host_blocked (objs s a) then Inr False
      else rbind (child_count (block_key (objs s a)) (backend s)) (\<lambda>n. Inr (n = 0)))"

definition demote_blocked :: "'p prefix_block \<Rightarrow> bool" where
  "demote_blocked blk \<longleftrightarrow> ref_count blk \<noteq> 0 \<or> eviction_priority blk < 0 \<or> \<not> device_present (residency blk)
     \<or> \<not> host_present (residency blk) \<or> transfer (residency blk) \<noteq> None"

definition can_demote_device :: "addr \<Rightarrow> 'p prefix_index \<Rightarrow> bool result" where
  "can_demote_device a s =
     (if demote_blocked (objs s a) then Inr False
      else rbind (device_child_count (block_key (objs s a)) s) (\<lambda>n. Inr (n = 0)))"

definition device_evictable_blocks :: "'p prefix_index \<Rightarrow> int result" where
  "device_evictable_blocks s =
     rfold (\<lambda>a n. rbind (can_demote_device a s) (\<lambda>c. Inr (if c then n + 1 else n))) (map snd (blocks s)) 0"

section \<open>The freeable set, built by virtual leaf removal\<close>

text \<open>
  The stack of pending ids is popped at the end.  The counters of children and the freeable
  set are local variables of the method until it stores them.
\<close>

definition count_child :: "'p prefix_index \<Rightarrow> addr \<Rightarrow> (block_id \<rightharpoonup> int) \<Rightarrow> (block_id \<rightharpoonup> int) result" where
  "count_child s a child_counts =
     (case parent_block_id (objs s a) of
        None \<Rightarrow> Inr child_counts
      | Some p \<Rightarrow> (case child_counts p of None \<Rightarrow> Inl (KeyError ''block_id'')
                  | Some n \<Rightarrow> Inr (child_counts(p \<mapsto> n + 1))))"

definition count_children :: "'p prefix_index \<Rightarrow> (block_id \<rightharpoonup> int) result" where
  "count_children s =
     rfold (count_child s)
       (map snd (blocks s)) (map_of (map (\<lambda>b. (b, 0)) (map fst (blocks s))))"

fun free_loop :: "nat \<Rightarrow> 'p prefix_index \<Rightarrow> block_id list \<Rightarrow> block_id set \<Rightarrow> (block_id \<rightharpoonup> int)
    \<Rightarrow> (block_id set \<times> (block_id \<rightharpoonup> int)) result" where
  "free_loop fuel s [] freeable child_counts = Inr (freeable, child_counts)"
| "free_loop 0 s (b # bs) freeable child_counts = Inl NonTermination"
| "free_loop (Suc fuel) s (b # bs) freeable child_counts =
     (let top_id = last (b # bs); pending = butlast (b # bs) in
      case get_block s top_id of
        None \<Rightarrow> Inl (KeyError ''block_id'')
      | Some blk \<Rightarrow>
          if locally_blocked blk then free_loop fuel s pending freeable child_counts
          else (case parent_block_id blk of
              None \<Rightarrow> free_loop fuel s pending (insert top_id freeable) child_counts
            | Some p \<Rightarrow>
                (case child_counts p of
                   None \<Rightarrow> Inl (KeyError ''block_id'')
                 | Some n \<Rightarrow>
                     free_loop fuel s (if n - 1 = 0 then pending @ [p] else pending)
                       (insert top_id freeable) (child_counts(p \<mapsto> n - 1)))))"

definition build_freeable :: "'p prefix_index \<Rightarrow> (block_id set \<times> (block_id \<rightharpoonup> int)) result" where
  "build_freeable s =
     rbind (count_children s) (\<lambda>child_counts.
       free_loop (length (blocks s)) s (filter (\<lambda>b. child_counts b = Some 0) (map fst (blocks s))) {} child_counts)"

definition track_freeable :: "('p, unit) index_op" where
  "track_freeable s =
     (if freeable_ids s = None
      then oseq (count_up (\<lambda>c. c\<lparr>freeable_scans := freeable_scans c + 1\<rparr>))
         (obind (lift_result build_freeable) (\<lambda>(freeable, child_counts).
            writes (\<lambda>s. s\<lparr>freeable_ids := Some freeable, blocked_freeable_children := child_counts\<rparr>))) s
      else (Inr (), s))"

definition freeable_block_ids :: "('p, block_id set) index_op" where
  "freeable_block_ids s =
     (if fst (freeable_cache s) = capacity_epoch (epochs s)
      then oseq (count_up (\<lambda>c. c\<lparr>freeable_cache_hits := freeable_cache_hits c + 1\<rparr>))
             (reads (\<lambda>s. snd (freeable_cache s))) s
      else
        oseq (count_up (\<lambda>c. c\<lparr>freeable_snapshot_builds := freeable_snapshot_builds c + 1\<rparr>))
       (oseq track_freeable
       (oseq (writes (\<lambda>s. s\<lparr>freeable_cache := (capacity_epoch (epochs s), the (freeable_ids s))\<rparr>))
          (reads (\<lambda>s. snd (freeable_cache s))))) s)"

section \<open>Device-reclaimable blocks\<close>

definition device_freeable_now :: "bool \<Rightarrow> 'p prefix_block \<Rightarrow> bool" where
  "device_freeable_now include_inflight blk \<longleftrightarrow>
     (let r = residency blk;
          host_ready = (host_present r \<and> transfer r = None);
          host_pending = (include_inflight \<and> transfer r = Some D2H)
      in ref_count blk = 0 \<and> eviction_priority blk \<ge> 0 \<and> device_present r \<and> (host_ready \<or> host_pending))"

definition device_children_of :: "'p prefix_index \<Rightarrow> (block_id, int) dict result" where
  "device_children_of s =
     rfold (\<lambda>(b, a) d. if device_present (residency (objs s a))
                       then rbind (device_child_count b s) (\<lambda>n. Inr (AList.update b n d)) else Inr d)
       (blocks s) []"

fun reclaim_loop :: "nat \<Rightarrow> bool \<Rightarrow> 'p prefix_index \<Rightarrow> block_id list \<Rightarrow> block_id set \<Rightarrow> (block_id, int) dict
    \<Rightarrow> block_id set result" where
  "reclaim_loop fuel incl s [] freeable d = Inr freeable"
| "reclaim_loop 0 incl s (b # bs) freeable d = Inl NonTermination"
| "reclaim_loop (Suc fuel) incl s (b # bs) freeable d =
     (let top_id = last (b # bs); stack = butlast (b # bs) in
      case get_block s top_id of
        None \<Rightarrow> reclaim_loop fuel incl s stack freeable d
      | Some blk \<Rightarrow>
          if top_id \<in> freeable then reclaim_loop fuel incl s stack freeable d
          else if \<not> device_freeable_now incl blk then reclaim_loop fuel incl s stack freeable d
          else (case parent_block_id blk of
              None \<Rightarrow> reclaim_loop fuel incl s stack (insert top_id freeable) d
            | Some p \<Rightarrow>
                (case map_of d p of
                   None \<Rightarrow> reclaim_loop fuel incl s stack (insert top_id freeable) d
                 | Some n \<Rightarrow>
                     reclaim_loop fuel incl s (if n - 1 = 0 then stack @ [p] else stack)
                       (insert top_id freeable) (AList.update p (n - 1) d))))"

definition scan_reclaimable :: "bool \<Rightarrow> 'p prefix_index \<Rightarrow> block_id set result" where
  "scan_reclaimable incl s =
     rbind (device_children_of s) (\<lambda>d.
       reclaim_loop (length (blocks s)) incl s (map fst (filter (\<lambda>(b, n). n = 0) d)) {} d)"

definition reclaim_cache :: "bool \<Rightarrow> 'p prefix_index \<Rightarrow> id_cache" where
  "reclaim_cache incl s = (if incl then device_reclaimable_cache s else device_freeable_cache s)"

definition device_reclaimable_block_ids :: "bool \<Rightarrow> ('p, block_id set) index_op" where
  "device_reclaimable_block_ids incl s =
     (if fst (reclaim_cache incl s) = capacity_epoch (epochs s)
      then oseq (count_up (\<lambda>c. c\<lparr>device_reclaimable_cache_hits := device_reclaimable_cache_hits c + 1\<rparr>))
             (reads (\<lambda>s. snd (reclaim_cache incl s))) s
      else
        oseq (count_up (\<lambda>c. c\<lparr>device_reclaimable_scans := device_reclaimable_scans c + 1\<rparr>))
       (obind (lift_result (scan_reclaimable incl)) (\<lambda>ids.
        oseq (writes (\<lambda>s. if incl then s\<lparr>device_reclaimable_cache := (capacity_epoch (epochs s), ids)\<rparr>
                          else s\<lparr>device_freeable_cache := (capacity_epoch (epochs s), ids)\<rparr>))
          (ret ids))) s)"

section \<open>Removal\<close>

definition check_remove :: "block_id \<Rightarrow> 'p prefix_index \<Rightarrow> addr result" where
  "check_remove b s =
     (case live_block s b of
        None \<Rightarrow> Inl (KeyError ''Prefix cache block is not present.'')
      | Some a \<Rightarrow>
          (let blk = objs s a in
           if ref_count blk \<noteq> 0 then Inl (RuntimeError ''Cannot remove a referenced prefix cache block.'')
           else if eviction_priority blk < 0
           then Inl (RuntimeError ''Cannot remove a negative-priority prefix cache block.'')
           else if transfer (residency blk) \<noteq> None
           then Inl (RuntimeError ''Cannot remove a prefix cache block with an in-flight transfer.'')
           else rbind (child_count b (backend s)) (\<lambda>n.
             if n \<noteq> 0 then Inl (RuntimeError ''Cannot remove a prefix cache block with live children.'')
             else Inr a)))"

definition unregister_freeable :: "block_id \<Rightarrow> block_id option \<Rightarrow> ('p, unit) index_op" where
  "unregister_freeable b q s =
     (case freeable_ids s of
        None \<Rightarrow> (Inr (), s)
      | Some freeable \<Rightarrow>
          (let was_freeable = (b \<in> freeable);
               s = s\<lparr>freeable_ids := Some (freeable - {b})\<rparr>
           in if blocked_freeable_children s b = None then (Inl (KeyError ''block_id''), s)
              else let s = s\<lparr>blocked_freeable_children := (blocked_freeable_children s)(b := None)\<rparr>
                   in case q of
                        None \<Rightarrow> (Inr (), s)
                      | Some p \<Rightarrow>
                          if was_freeable then (Inr (), s)
                          else (case blocked_freeable_children s p of
                              None \<Rightarrow> (Inl (KeyError ''block_id''), s)
                            | Some d \<Rightarrow>
                                refresh_freeable_path (Some p) (s\<lparr>blocked_freeable_children :=
                                  (blocked_freeable_children s)(p \<mapsto> d - 1)\<rparr>))))"

definition remove_block_from_index :: "block_id \<Rightarrow> ('p, addr) index_op" where
  "remove_block_from_index b =
     obind (lift_result (check_remove b)) (\<lambda>a.
     obind (reads (\<lambda>s. parent_block_id (objs s a))) (\<lambda>q.
     oseq (obind (lift_result (\<lambda>s. remove_block b (backend s))) (\<lambda>bk. writes (\<lambda>s. s\<lparr>backend := bk\<rparr>)))
    (oseq (writes (\<lambda>s. s\<lparr>blocks := AList.delete b (blocks s)\<rparr>))
    (oseq (unregister_freeable b q)
    (oseq (record_routing_remove b)
    (oseq mark_removed (ret a)))))))"

definition check_rollback :: "addr \<Rightarrow> 'p prefix_index \<Rightarrow> unit result" where
  "check_rollback a s =
     (if \<not> indexed s a
      then Inl (RuntimeError ''Cannot roll back a prefix block that is not the current indexed block.'')
      else if ref_count (objs s a) \<noteq> 0 then Inl (RuntimeError ''Cannot roll back a referenced prefix block.'')
      else rbind (child_count (block_key (objs s a)) (backend s)) (\<lambda>n.
        if n \<noteq> 0 then Inl (RuntimeError ''Cannot roll back a prefix block with live children.'')
        else if committed_blocks (counters s) \<le> 0
        then Inl (RuntimeError ''Cannot roll back prefix commit statistics below zero.'')
        else Inr ()))"

definition rollback_inserted_leaf :: "addr \<Rightarrow> ('p, unit) index_op" where
  "rollback_inserted_leaf a =
     oseq (lift_result (check_rollback a))
    (obind (reads (\<lambda>s. block_key (objs s a))) (\<lambda>b.
     oseq (remove_block_from_index b)
       (count_up (\<lambda>c. c\<lparr>committed_blocks := committed_blocks c - 1\<rparr>))))"

section \<open>Eviction in priority order\<close>

type_synonym candidate = "int \<times> int \<times> block_id"

text \<open>
  \<open>queue_if_evictable\<close>: the heap and the set of queued ids.  The method is the same in
  \<open>evict_until_weight\<close> and \<open>evict_host_until_weight\<close> up to the test, which is an argument.
\<close>

definition queue_if :: "(addr \<Rightarrow> 'p prefix_index \<Rightarrow> bool result) \<Rightarrow> 'p prefix_index \<Rightarrow> block_id option
    \<Rightarrow> candidate list \<times> block_id set \<Rightarrow> (candidate list \<times> block_id set) result" where
  "queue_if test s q = (\<lambda>(heap, queued).
     (case q of
        None \<Rightarrow> Inr (heap, queued)
      | Some b \<Rightarrow>
          if b \<in> queued then Inr (heap, queued)
          else (case live_block s b of
              None \<Rightarrow> Inr (heap, queued)
            | Some a \<Rightarrow>
                rbind (test a s) (\<lambda>c.
                  if c then Inr (insort (- eviction_priority (objs s a), last_access (objs s a), b) heap,
                                 insert b queued)
                  else Inr (heap, queued)))))"

text \<open>
  The inner loop pops candidates until one passes the test; \<open>None\<close> is the \<open>else\<close> of the
  \<open>while\<close>, an exhausted heap.
\<close>

fun pop_candidate :: "(addr \<Rightarrow> 'p prefix_index \<Rightarrow> bool result) \<Rightarrow> 'p prefix_index
    \<Rightarrow> candidate list \<Rightarrow> block_id set \<Rightarrow> ((addr \<times> candidate list \<times> block_id set) option) result" where
  "pop_candidate test s [] queued = Inr None"
| "pop_candidate test s ((p, t, b) # heap) queued =
     (case live_block s b of
        None \<Rightarrow> pop_candidate test s heap (queued - {b})
      | Some a \<Rightarrow>
          rbind (test a s) (\<lambda>c.
            if c then Inr (Some (a, heap, queued - {b})) else pop_candidate test s heap (queued - {b})))"

fun evict_loop :: "nat \<Rightarrow> (addr \<Rightarrow> 'p prefix_index \<Rightarrow> bool result) \<Rightarrow> (index_counters \<Rightarrow> index_counters)
    \<Rightarrow> string \<Rightarrow> ('p prefix_block \<Rightarrow> int) \<Rightarrow> int \<Rightarrow> int \<Rightarrow> candidate list \<times> block_id set \<Rightarrow> addr list
    \<Rightarrow> ('p, addr list) index_op" where
  "evict_loop fuel test bump err weight needed done_weight (heap, queued) evicted s =
     (if needed \<le> done_weight then (Inr evicted, s)
      else case fuel of 0 \<Rightarrow> (Inl NonTermination, s)
      | Suc fuel \<Rightarrow>
        obind (lift_result (\<lambda>s. pop_candidate test s heap queued)) (\<lambda>popped.
          case popped of
            None \<Rightarrow> ret evicted
          | Some (a, heap, queued) \<Rightarrow>
              obind (reads (\<lambda>s. objs s a)) (\<lambda>blk.
              oseq (raise_if (weight blk < 0) (ValueError err))
             (obind (remove_block_from_index (block_key blk)) (\<lambda>e.
              oseq (count_up bump)
             (obind (lift_result (\<lambda>s. queue_if test s (parent_block_id blk) (heap, queued))) (\<lambda>hq.
              evict_loop fuel test bump err weight needed (done_weight + weight blk) hq (evicted @ [e]))))))) s)"

text \<open>
  The initial scan appends the evictable leaves and heapifies; inserting them one by one into
  the sorted list gives the same heap.
\<close>

definition evict_leaves :: "(addr \<Rightarrow> 'p prefix_index \<Rightarrow> bool result) \<Rightarrow> (index_counters \<Rightarrow> index_counters)
    \<Rightarrow> string \<Rightarrow> ('p prefix_block \<Rightarrow> int) \<Rightarrow> int \<Rightarrow> ('p, addr list) index_op" where
  "evict_leaves test bump err weight needed =
     (if needed \<le> 0 then ret []
      else obind (lift_result (\<lambda>s. rfold (\<lambda>b. queue_if test s (Some b)) (leaf_block_ids (backend s)) ([], {})))
        (\<lambda>hq s. evict_loop (Suc (length (blocks s))) test bump err weight needed 0 hq [] s))"

definition evict_until_weight :: "('p prefix_block \<Rightarrow> int) \<Rightarrow> int \<Rightarrow> ('p, addr list) index_op" where
  "evict_until_weight weight needed =
     evict_leaves can_evict (\<lambda>c. c\<lparr>evicted_blocks := evicted_blocks c + 1\<rparr>)
       ''Prefix cache eviction weight must be non-negative'' weight needed"

definition evict_until_freeable :: "int \<Rightarrow> ('p, addr list) index_op" where
  "evict_until_freeable needed = evict_until_weight (\<lambda>_. 1) needed"

definition evict_host_until_weight :: "('p prefix_block \<Rightarrow> int) \<Rightarrow> int \<Rightarrow> ('p, addr list) index_op" where
  "evict_host_until_weight weight needed =
     evict_leaves can_evict_host (\<lambda>c. c\<lparr>host_evicted_blocks := host_evicted_blocks c + 1\<rparr>)
       ''Prefix cache host eviction weight must be non-negative'' weight needed"

definition evict_host_until_freeable :: "int \<Rightarrow> ('p, addr list) index_op" where
  "evict_host_until_freeable needed = evict_host_until_weight (\<lambda>_. 1) needed"

definition ensure_insert_capacity :: "int \<Rightarrow> ('p, addr list) index_op" where
  "ensure_insert_capacity needed_blocks s =
     (case max_blocks s of
        None \<Rightarrow> (Inr [], s)
      | Some m \<Rightarrow>
          oseq (raise_if (needed_blocks \<le> 0) (ValueError ''needed_blocks must be > 0''))
         (obind (reads (\<lambda>s. int (length (blocks s)) + needed_blocks - m)) (\<lambda>over.
            if over \<le> 0 then ret []
            else obind (evict_until_freeable over) (\<lambda>evicted.
              if int (length evicted) \<noteq> over
              then oseq evictable_block_ids (raise_error (RuntimeError
                     ''Prefix cache capacity exceeded and not enough blocks are evictable''))
              else ret evicted))) s)"

end
