(* ===== verification/Freeable_Spec.thy ===== *)
theory Freeable_Spec
  imports Radix_Spec
begin

text \<open>
  The specification of freeable blocks: those whose whole subtree holds no blocked block, so
  that repeated removal of leaves reaches them.  The lemmas say how a set of freeable blocks
  and the counters of non-freeable children stay in step; they hold in every block forest.
\<close>

definition freeable_spec :: "'b parent_map \<Rightarrow> ('b \<Rightarrow> bool) \<Rightarrow> 'b set" where
  "freeable_spec par bad = {b \<in> dom par. \<forall>x \<in> dom par. descends par x b \<longrightarrow> \<not> bad x}"

definition right_at :: "'b parent_map \<Rightarrow> ('b \<Rightarrow> bool) \<Rightarrow> 'b set \<Rightarrow> 'b \<Rightarrow> bool" where
  "right_at par bad F b \<longleftrightarrow> (b \<in> F \<longleftrightarrow> kids_of par b \<subseteq> F \<and> \<not> bad b)"

definition counts_ok :: "'b parent_map \<Rightarrow> 'b set \<Rightarrow> ('b \<rightharpoonup> int) \<Rightarrow> bool" where
  "counts_ok par F cnt \<longleftrightarrow> F \<subseteq> dom par \<and>
     (\<forall>b. cnt b = (if b \<in> dom par then Some (int (card (kids_of par b - F))) else None))"

definition height_of :: "'b parent_map \<Rightarrow> 'b \<Rightarrow> nat" where
  "height_of par b = card {a \<in> dom par. descends par b a}"

lemma freeable_spec_subset: "freeable_spec par bad \<subseteq> dom par"
  by (auto simp: freeable_spec_def)

lemma freeable_spec_cong:
  "(\<And>b. b \<in> dom par \<Longrightarrow> bad b = bad' b) \<Longrightarrow> freeable_spec par bad = freeable_spec par bad'"
  by (auto simp: freeable_spec_def)

lemma counts_okD: "counts_ok par F cnt \<Longrightarrow> b \<in> dom par \<Longrightarrow> cnt b = Some (int (card (kids_of par b - F)))"
  by (auto simp: counts_ok_def)

context block_forest
begin

lemma kids_finite: "ok s \<Longrightarrow> finite (kids_of (par s) b)"
  by (rule finite_subset [OF _ finite_blocks]) (auto simp: kids_of_def parent_step_def)

lemma kids_dom: "k \<in> kids_of (par s) b \<Longrightarrow> k \<in> dom (par s)"
  by (auto simp: kids_of_def parent_step_def)

lemma freeable_step:
  assumes "ok s" "b \<in> dom (par s)"
  shows "b \<in> freeable_spec (par s) bad \<longleftrightarrow> kids_of (par s) b \<subseteq> freeable_spec (par s) bad \<and> \<not> bad b"
proof
  assume b: "b \<in> freeable_spec (par s) bad"
  have "k \<in> freeable_spec (par s) bad" if "k \<in> kids_of (par s) b" for k
    using b kids_dom [OF that] descends_trans [of "par s" _ k b] that
    by (auto simp: freeable_spec_def kids_of_def dest: descends_single)
  with b assms(2) show "kids_of (par s) b \<subseteq> freeable_spec (par s) bad \<and> \<not> bad b"
    by (auto simp: freeable_spec_def)
next
  assume h: "kids_of (par s) b \<subseteq> freeable_spec (par s) bad \<and> \<not> bad b"
  have "\<not> bad x" if "x \<in> dom (par s)" "descends (par s) x b" for x
    using that h unfolding descends_via_kid [of "par s" x b] by (auto simp: freeable_spec_def)
  with assms(2) show "b \<in> freeable_spec (par s) bad" by (auto simp: freeable_spec_def)
qed

lemma freeable_right: "ok s \<Longrightarrow> b \<in> dom (par s) \<Longrightarrow> right_at (par s) bad (freeable_spec (par s) bad) b"
  unfolding right_at_def by (rule freeable_step)

text \<open>A set that is right at every block is the freeable set.\<close>

lemma right_unique:
  assumes "ok s" "F \<subseteq> dom (par s)" "\<And>b. b \<in> dom (par s) \<Longrightarrow> right_at (par s) bad F b"
  shows "F = freeable_spec (par s) bad"
proof -
  have "b \<in> F \<longleftrightarrow> b \<in> freeable_spec (par s) bad" if "b \<in> dom (par s)" for b
    using that
  proof (induction b rule: leaf_induct [OF assms(1)])
    case (1 b)
    have "kids_of (par s) b \<subseteq> F \<longleftrightarrow> kids_of (par s) b \<subseteq> freeable_spec (par s) bad"
      using "1.IH" [OF _ kids_dom] by (simp add: subset_iff)
    with assms(3) [OF "1.prems"] freeable_step [OF assms(1) "1.prems", of bad] show ?case
      unfolding right_at_def by simp
  qed
  then show ?thesis using assms(2) freeable_spec_subset [of "par s" bad]
    by (intro equalityI subsetI) (metis subsetD)+
qed

lemma count_zero:
  "ok s \<Longrightarrow> counts_ok (par s) F cnt \<Longrightarrow> b \<in> dom (par s) \<Longrightarrow> cnt b = Some 0 \<longleftrightarrow> kids_of (par s) b \<subseteq> F"
  using kids_finite by (auto simp: counts_okD)

text \<open>Moving one block in or out of the set changes the counter of its parent only.\<close>

lemma kids_flip:
  "kids_of (par s) x - insert b F = (if parent_step (par s) b x then kids_of (par s) x - F - {b} else kids_of (par s) x - F)"
  by (auto simp: kids_of_def)

lemma counts_insert:
  assumes "ok s" "counts_ok (par s) F cnt" "b \<in> dom (par s)" "b \<notin> F"
  shows "counts_ok (par s) (insert b F)
    (case the (par s b) of None \<Rightarrow> cnt | Some p \<Rightarrow> cnt(p \<mapsto> the (cnt p) - 1))"
proof -
  let ?new = "case the (par s b) of None \<Rightarrow> cnt | Some p \<Rightarrow> cnt(p \<mapsto> the (cnt p) - 1)"
  have "?new x = (if x \<in> dom (par s) then Some (int (card (kids_of (par s) x - insert b F))) else None)" for x
  proof (cases "parent_step (par s) b x")
    case True
    then have x: "x \<in> dom (par s)" "the (par s b) = Some x" "b \<in> kids_of (par s) x - F"
      using parent_present [OF assms(1)] assms(4) by (auto simp: parent_step_def kids_of_def)
    have "card (kids_of (par s) x - F) = Suc (card (kids_of (par s) x - F - {b}))"
      using x(3) kids_finite [OF assms(1)] by (metis card_Suc_Diff1 finite_Diff)
    with x True show ?thesis using counts_okD [OF assms(2) x(1)] by (simp add: kids_flip)
  next
    case False
    with assms(3) have "\<And>p. the (par s b) = Some p \<Longrightarrow> p \<noteq> x" by (auto simp: parent_step_def)
    then have "?new x = cnt x" by (auto split: option.splits)
    with False assms(2) show ?thesis unfolding kids_flip counts_ok_def by simp
  qed
  with assms(2,3) show ?thesis by (simp add: counts_ok_def)
qed

lemma counts_remove:
  assumes "ok s" "counts_ok (par s) F cnt" "b \<in> F"
  shows "counts_ok (par s) (F - {b})
    (case the (par s b) of None \<Rightarrow> cnt | Some p \<Rightarrow> cnt(p \<mapsto> the (cnt p) + 1))"
proof -
  let ?new = "case the (par s b) of None \<Rightarrow> cnt | Some p \<Rightarrow> cnt(p \<mapsto> the (cnt p) + 1)"
  have b: "b \<in> dom (par s)" using assms(2,3) by (auto simp: counts_ok_def)
  have "?new x = (if x \<in> dom (par s) then Some (int (card (kids_of (par s) x - (F - {b})))) else None)" for x
  proof (cases "parent_step (par s) b x")
    case True
    then have x: "x \<in> dom (par s)" "the (par s b) = Some x" "b \<in> kids_of (par s) x"
      using parent_present [OF assms(1)] by (auto simp: parent_step_def kids_of_def)
    have "kids_of (par s) x - (F - {b}) = insert b (kids_of (par s) x - F)" using x(3) by auto
    with x assms(3) show ?thesis using counts_okD [OF assms(2) x(1)] kids_finite [OF assms(1)] by simp
  next
    case False
    with b have "\<And>p. the (par s b) = Some p \<Longrightarrow> p \<noteq> x" by (auto simp: parent_step_def)
    then have "?new x = cnt x" by (auto split: option.splits)
    moreover have "kids_of (par s) x - (F - {b}) = kids_of (par s) x - F" using False by (auto simp: kids_of_def)
    ultimately show ?thesis using assms(2) unfolding counts_ok_def by simp
  qed
  with assms(2) show ?thesis by (auto simp: counts_ok_def)
qed

text \<open>Flipping a block disturbs only its parent.\<close>

lemma right_flip_other:
  assumes "x \<noteq> b" "\<not> parent_step (par s) b x" "F - {b} = F' - {b}"
  shows "right_at (par s) bad F' x \<longleftrightarrow> right_at (par s) bad F x"
proof -
  have "b \<notin> kids_of (par s) x" using assms(2) by (simp add: kids_of_def)
  then have "kids_of (par s) x \<subseteq> F' \<longleftrightarrow> kids_of (par s) x \<subseteq> F" "x \<in> F' \<longleftrightarrow> x \<in> F" using assms by blast+
  then show ?thesis by (simp add: right_at_def)
qed

lemma no_self_parent: "ok s \<Longrightarrow> \<not> parent_step (par s) b b"
  using no_cycle by fastforce

lemma height_parent:
  assumes "ok s" "parent_step (par s) b p"
  shows "height_of (par s) p < height_of (par s) b"
proof -
  let ?A = "\<lambda>b. {a \<in> dom (par s). descends (par s) b a}"
  have "?A p \<subseteq> ?A b" using descends_step [OF assms(2)] by auto
  moreover have "b \<in> ?A b" "b \<notin> ?A p"
    using assms no_cycle [OF assms] by (auto simp: parent_step_def)
  ultimately show ?thesis unfolding height_of_def
    using finite_blocks [OF assms(1)] by (intro psubset_card_mono) auto
qed

lemma height_le: "ok s \<Longrightarrow> height_of (par s) b \<le> card (dom (par s))"
  unfolding height_of_def using finite_blocks by (intro card_mono) auto

text \<open>As long as something is freeable, a freeable leaf exists.\<close>

lemma freeable_leaf:
  assumes "ok s" "b \<in> freeable_spec (par s) bad"
  shows "\<exists>l \<in> freeable_spec (par s) bad. kids_of (par s) l = {}"
  using assms(2)
proof (induction b rule: leaf_induct [OF assms(1)])
  case (1 b)
  show ?case
  proof (cases "kids_of (par s) b = {}")
    case False
    then obtain k where k: "k \<in> kids_of (par s) b" by blast
    moreover have "kids_of (par s) b \<subseteq> freeable_spec (par s) bad"
      using "1.prems" freeable_step [OF assms(1), of b bad] freeable_spec_subset [of "par s" bad] by auto
    ultimately show ?thesis using "1.IH" by blast
  qed (use "1.prems" in blast)
qed

lemma leaf_freeable:
  "ok s \<Longrightarrow> b \<in> dom (par s) \<Longrightarrow> kids_of (par s) b = {} \<Longrightarrow> b \<in> freeable_spec (par s) bad \<longleftrightarrow> \<not> bad b"
  using freeable_step by simp

end

text \<open>Removing a leaf, and adding one, in terms of parent maps.\<close>

lemma kids_remove_leaf: "kids_of (par(b := None)) x = kids_of par x - {b}"
  by (auto simp: kids_of_def parent_step_def)

lemma kids_add_leaf: "b \<notin> dom par \<Longrightarrow> kids_of (par(b \<mapsto> q)) x = (if q = Some x then insert b (kids_of par x) else kids_of par x)"
  by (auto simp: kids_of_def parent_step_def)

lemma descends_remove_leaf:
  assumes "kids_of par b = {}" "x \<noteq> b"
  shows "descends (par(b := None)) x y \<longleftrightarrow> descends par x y"
proof
  have step: "parent_step (par(b := None)) u v \<longleftrightarrow> u \<noteq> b \<and> parent_step par u v" for u v
    by (auto simp: parent_step_def)
  show "descends par x y" if "descends (par(b := None)) x y"
    using that unfolding descends_def by (rule rtranclp_mono [THEN predicate2D, rotated]) (auto simp: step)
  show "descends (par(b := None)) x y" if "descends par x y"
    using that assms(2) unfolding descends_def
  proof (induction rule: converse_rtranclp_induct)
    case (step x z)
    then have "z \<noteq> b" using assms(1) by (auto simp: kids_of_def)
    with step show ?case
      by (auto simp: parent_step_def intro: converse_rtranclp_into_rtranclp)
  qed simp
qed

lemma freeable_remove_leaf:
  assumes "kids_of par b = {}" "\<not> bad b"
  shows "freeable_spec (par(b := None)) bad = freeable_spec par bad - {b}"
  using assms descends_remove_leaf [OF assms(1)] by (auto simp: freeable_spec_def)

end
