(* ===== verification/Prefix_Invariant.thy ===== *)
theory Prefix_Invariant
  imports Prefix_Eviction Freeable_Spec
begin

text \<open>
  The invariant of the prefix index and the proof that the incremental maintenance of the
  freeable set restores it: the dictionary of blocks and the radix tree describe the same
  forest, every indexed block has a valid residency with device and host payloads on whole
  paths from the root, the incremental freeable set equals its specification, cached sets of
  the current capacity epoch are up to date, and the routing set holds the indexed ids.
\<close>

section \<open>The invariant\<close>

abbreviation par_of :: "'p prefix_index \<Rightarrow> block_id parent_map" where
  "par_of s \<equiv> tree_parent (backend s)"

definition bad :: "'p prefix_index \<Rightarrow> block_id \<Rightarrow> bool" where
  "bad s b = (case get_block s b of None \<Rightarrow> True | Some blk \<Rightarrow> locally_blocked blk)"

definition linked_ok :: "'p prefix_index \<Rightarrow> bool" where
  "linked_ok s \<longleftrightarrow> dict_ok (blocks s) \<and> radix_ok (backend s) \<and> dom (par_of s) = dom (live_block s)
     \<and> (\<forall>b blk. get_block s b = Some blk \<longrightarrow> block_key blk = b \<and> par_of s b = Some (parent_block_id blk))"

definition resident_ok :: "'p prefix_index \<Rightarrow> bool" where
  "resident_ok s \<longleftrightarrow> (\<forall>b blk. get_block s b = Some blk \<longrightarrow>
     0 \<le> ref_count blk \<and> residency_validate (residency blk) = Inr ()
     \<and> (\<forall>p pb. parent_block_id blk = Some p \<and> get_block s p = Some pb \<longrightarrow>
          (device_present (residency blk) \<longrightarrow> device_present (residency pb))
          \<and> (host_present (residency blk) \<longrightarrow> host_present (residency pb))))"

definition tracked_ok :: "'p prefix_index \<Rightarrow> bool" where
  "tracked_ok s \<longleftrightarrow> (case freeable_ids s of None \<Rightarrow> True
     | Some F \<Rightarrow> F = freeable_spec (par_of s) (bad s) \<and> counts_ok (par_of s) F (blocked_freeable_children s))"

definition evictable_spec :: "'p prefix_index \<Rightarrow> block_id set" where
  "evictable_spec s = {b \<in> dom (par_of s). kids_of (par_of s) b = {} \<and> \<not> bad s b}"

text \<open>A cache never runs ahead of the capacity epoch, and is exact when it is current.\<close>

definition cache_ok :: "int \<Rightarrow> block_id set \<Rightarrow> id_cache \<Rightarrow> bool" where
  "cache_ok epoch spec c \<longleftrightarrow> fst c \<le> epoch \<and> (fst c = epoch \<longrightarrow> snd c = spec)"

definition caches_ok :: "'p prefix_index \<Rightarrow> bool" where
  "caches_ok s \<longleftrightarrow> 0 \<le> capacity_epoch (epochs s)
     \<and> cache_ok (capacity_epoch (epochs s)) (freeable_spec (par_of s) (bad s)) (freeable_cache s)
     \<and> cache_ok (capacity_epoch (epochs s)) (evictable_spec s) (evictable_cache s)"

definition routing_ok :: "'p prefix_index \<Rightarrow> bool" where
  "routing_ok s \<longleftrightarrow> membership_ok (membership s) \<and> membership_ids (membership s) = dom (live_block s)
     \<and> (\<forall>sn. snapshot s = Some sn \<longrightarrow> sn = fresh_snapshot (snapshot_method sn) s)"

definition sized_ok :: "'p prefix_index \<Rightarrow> bool" where
  "sized_ok s \<longleftrightarrow> 0 < idx_block_size s \<and> (\<forall>m. max_blocks s = Some m \<longrightarrow> int (length (blocks s)) \<le> m)"

definition index_ok :: "'p prefix_index \<Rightarrow> bool" where
  "index_ok s \<longleftrightarrow> linked_ok s \<and> resident_ok s \<and> tracked_ok s \<and> caches_ok s \<and> routing_ok s \<and> sized_ok s"

lemma index_okD:
  assumes "index_ok s"
  shows "linked_ok s" "resident_ok s" "tracked_ok s" "caches_ok s" "routing_ok s" "sized_ok s"
  using assms by (simp_all add: index_ok_def)

lemma linked_okD:
  assumes "linked_ok s"
  shows "dict_ok (blocks s)" "radix_ok (backend s)" "dom (par_of s) = dom (live_block s)"
    "get_block s b = Some blk \<Longrightarrow> block_key blk = b"
    "get_block s b = Some blk \<Longrightarrow> par_of s b = Some (parent_block_id blk)"
  using assms by (auto simp: linked_ok_def)

lemma get_block_iff: "get_block s b = Some blk \<longleftrightarrow> (\<exists>a. live_block s b = Some a \<and> blk = objs s a)"
  by (auto simp: get_block_def)

lemma live_block_get: "live_block s b = Some a \<Longrightarrow> get_block s b = Some (objs s a)"
  by (simp add: get_block_def)

lemma live_parE:
  assumes "linked_ok s" "b \<in> dom (par_of s)"
  obtains a where "live_block s b = Some a" "block_key (objs s a) = b" "par_of s b = Some (parent_block_id (objs s a))"
  using assms linked_okD [OF assms(1)] live_block_get by (metis domD)

lemma live_par: "linked_ok s \<Longrightarrow> b \<in> dom (par_of s) \<longleftrightarrow> (\<exists>a. live_block s b = Some a)"
  by (simp only: linked_okD(3)) (auto simp: dom_def)

lemma live_indexed: "linked_ok s \<Longrightarrow> live_block s b = Some a \<Longrightarrow> block_key (objs s a) = b \<and> indexed s a"
  using linked_okD(4) live_block_get by (metis indexed_def)

section \<open>Refreshing the freeable path\<close>

text \<open>
  The loop started at the only block where the set may be wrong makes it right everywhere.
  It changes nothing but the set and the counters, and the number of blocks bounds its steps.
\<close>

lemma refresh_loop_spec:
  assumes "linked_ok s" "freeable_ids s = Some F" "counts_ok (par_of s) F (blocked_freeable_children s)"
    and "b \<in> dom (par_of s)" "\<And>x. x \<in> dom (par_of s) \<Longrightarrow> x \<noteq> b \<Longrightarrow> right_at (par_of s) (bad s) F x"
    and "height_of (par_of s) b \<le> fuel"
  shows "\<exists>F' cnt'. refresh_loop fuel (Some b) s = (Inr (), s\<lparr>freeable_ids := Some F', blocked_freeable_children := cnt'\<rparr>)
    \<and> F' = freeable_spec (par_of s) (bad s) \<and> counts_ok (par_of s) F' cnt'"
  using assms
proof (induction fuel arbitrary: b s F)
  case 0
  then have "b \<in> {a \<in> dom (par_of s). descends (par_of s) b a}" by auto
  moreover have "finite {a \<in> dom (par_of s). descends (par_of s) b a}"
    using forest.finite_blocks [OF linked_okD(2) [OF "0.prems"(1)]] by simp
  ultimately show ?case using "0.prems"(6) by (auto simp: height_of_def)
next
  case (Suc fuel)
  note rok = linked_okD(2) [OF Suc.prems(1)]
  note sub = Suc.prems(3) [unfolded counts_ok_def, THEN conjunct1]
  obtain a where a: "live_block s b = Some a" "par_of s b = Some (parent_block_id (objs s a))"
    using live_parE [OF Suc.prems(1,4)] by metis
  have badb: "bad s b = locally_blocked (objs s a)" using a(1) by (simp add: bad_def get_block_def)
  define isf where "isf = (kids_of (par_of s) b \<subseteq> F \<and> \<not> bad s b)"
  have cnt: "blocked_freeable_children s b = Some (int (card (kids_of (par_of s) b - F)))"
    by (rule counts_okD [OF Suc.prems(3,4)])
  have zero: "int (card (kids_of (par_of s) b - F)) = 0 \<longleftrightarrow> kids_of (par_of s) b \<subseteq> F"
    using forest.kids_finite [OF rok, of b] by auto
  show ?case
  proof (cases "isf = (b \<in> F)")
    case True
    then have "right_at (par_of s) (bad s) F b" by (simp add: right_at_def isf_def)
    then have "\<And>x. x \<in> dom (par_of s) \<Longrightarrow> right_at (par_of s) (bad s) F x" using Suc.prems(5) by blast
    then have "F = freeable_spec (par_of s) (bad s)" by (rule forest.right_unique [OF rok sub])
    moreover have "refresh_loop (Suc fuel) (Some b) s = (Inr (), s)"
      using a cnt True zero badb Suc.prems(2) by (simp add: isf_def)
    ultimately show ?thesis using Suc.prems(2,3)
      by (intro exI [of _ F] exI [of _ "blocked_freeable_children s"]) simp
  next
    case False
    define F1 where "F1 = (if isf then insert b F else F - {b})"
    define cnt1 where "cnt1 = (case parent_block_id (objs s a) of None \<Rightarrow> blocked_freeable_children s
      | Some p \<Rightarrow> (blocked_freeable_children s)(p \<mapsto> the (blocked_freeable_children s p) + (if isf then -1 else 1)))"
    define s1 where "s1 = s\<lparr>freeable_ids := Some F1, blocked_freeable_children := cnt1\<rparr>"
    have c1: "counts_ok (par_of s) F1 cnt1"
    proof (cases "isf")
      case True
      with False have "b \<notin> F" by simp
      from forest.counts_insert [OF rok Suc.prems(3,4) this] True a(2) show ?thesis
        by (simp add: F1_def cnt1_def split: option.splits)
    next
      case isF: False
      with False have "b \<in> F" by simp
      from forest.counts_remove [OF rok Suc.prems(3) this] isF a(2) show ?thesis
        by (simp add: F1_def cnt1_def split: option.splits)
    qed
    have other: "right_at (par_of s) (bad s) F1 x" if "x \<in> dom (par_of s)" "x \<noteq> b" "\<not> parent_step (par_of s) b x" for x
      using forest.right_flip_other [of x b "backend s" F F1] Suc.prems(5) [OF that(1,2)] that by (auto simp: F1_def)
    have self: "right_at (par_of s) (bad s) F1 b"
    proof -
      have "kids_of (par_of s) b \<subseteq> F1 \<longleftrightarrow> kids_of (par_of s) b \<subseteq> F"
        using forest.no_self_parent [OF rok, of b] by (auto simp: F1_def kids_of_def)
      then show ?thesis by (auto simp: right_at_def F1_def isf_def)
    qed
    show ?thesis
    proof (cases "parent_block_id (objs s a)")
      case None
      then have np: "\<not> parent_step (par_of s) b x" for x using a(2) by (simp add: parent_step_def)
      have "F1 = freeable_spec (par_of s) (bad s)"
        using c1 other self np by (intro forest.right_unique [OF rok]) (auto simp: counts_ok_def)
      moreover have "refresh_loop (Suc fuel) (Some b) s = (Inr (), s1)"
        using a cnt False zero badb Suc.prems(2) None
        by (simp add: isf_def s1_def F1_def cnt1_def Let_def)
      ultimately show ?thesis using c1 unfolding s1_def by blast
    next
      case (Some p)
      then have st: "parent_step (par_of s) b p" using a(2) by (simp add: parent_step_def)
      then have p: "p \<in> dom (par_of s)" by (rule forest.parent_present [OF rok])
      have run: "refresh_loop (Suc fuel) (Some b) s = refresh_loop fuel (Some p) s1"
        using a cnt False zero badb Suc.prems(2) Some counts_okD [OF Suc.prems(3) p]
        by (simp add: isf_def s1_def F1_def cnt1_def Let_def)
      have "\<exists>F' cnt'. refresh_loop fuel (Some p) s1 = (Inr (), s1\<lparr>freeable_ids := Some F', blocked_freeable_children := cnt'\<rparr>)
        \<and> F' = freeable_spec (par_of s1) (bad s1) \<and> counts_ok (par_of s1) F' cnt'"
      proof (rule Suc.IH)
        have gb: "get_block s1 = get_block s" by (simp add: s1_def get_block_def fun_eq_iff)
        have bd: "bad s1 = bad s" by (simp add: bad_def gb fun_eq_iff)
        show "linked_ok s1" using Suc.prems(1) unfolding linked_ok_def gb by (simp add: s1_def)
        show "freeable_ids s1 = Some F1" by (simp add: s1_def)
        show "counts_ok (par_of s1) F1 (blocked_freeable_children s1)" using c1 by (simp add: s1_def)
        show "p \<in> dom (par_of s1)" using p by (simp add: s1_def)
        show "right_at (par_of s1) (bad s1) F1 x" if "x \<in> dom (par_of s1)" "x \<noteq> p" for x
        proof -
          have "\<not> parent_step (par_of s) b x" using st that(2) by (auto simp: parent_step_def)
          moreover have "backend s1 = backend s" by (simp add: s1_def)
          ultimately show ?thesis using other [of x] self that by (cases "x = b") (auto simp: bd)
        qed
        show "height_of (par_of s1) p \<le> fuel"
          using forest.height_parent [OF rok st] Suc.prems(6) by (simp add: s1_def)
      qed
      moreover have "bad s1 = bad s" by (simp add: s1_def bad_def get_block_def fun_eq_iff)
      ultimately show ?thesis unfolding run by (simp add: s1_def)
    qed
  qed
qed

lemma refresh_path_spec:
  assumes "linked_ok s" "freeable_ids s = Some F" "counts_ok (par_of s) F (blocked_freeable_children s)"
    and "b \<in> dom (par_of s)" "\<And>x. x \<in> dom (par_of s) \<Longrightarrow> x \<noteq> b \<Longrightarrow> right_at (par_of s) (bad s) F x"
  shows "\<exists>F' cnt'. refresh_freeable_path (Some b) s = (Inr (), s\<lparr>freeable_ids := Some F', blocked_freeable_children := cnt'\<rparr>)
    \<and> F' = freeable_spec (par_of s) (bad s) \<and> counts_ok (par_of s) F' cnt'"
proof -
  have "card (dom (par_of s)) = length (blocks s)"
    using linked_okD(1,3) [OF assms(1)] length_dict by metis
  then have "height_of (par_of s) b \<le> Suc (length (blocks s))"
    using forest.height_le [OF linked_okD(2) [OF assms(1)], of b] by simp
  from refresh_loop_spec [OF assms this] assms(2) show ?thesis by (simp add: refresh_freeable_path_def)
qed

section \<open>Updates that matter and updates that do not\<close>

definition caches_le :: "'p prefix_index \<Rightarrow> bool" where
  "caches_le s \<longleftrightarrow> 0 \<le> capacity_epoch (epochs s) \<and> fst (freeable_cache s) \<le> capacity_epoch (epochs s)
     \<and> fst (evictable_cache s) \<le> capacity_epoch (epochs s)"

text \<open>Everything but the freeable set and the exactness of the caches.\<close>

definition base_ok :: "'p prefix_index \<Rightarrow> bool" where
  "base_ok s \<longleftrightarrow> linked_ok s \<and> resident_ok s \<and> caches_le s \<and> routing_ok s \<and> sized_ok s"

lemma index_base: "index_ok s \<Longrightarrow> base_ok s"
  by (simp add: index_ok_def base_ok_def caches_ok_def caches_le_def cache_ok_def)

lemma get_block_frame [simp]:
  "get_block (s\<lparr>freeable_ids := x1\<rparr>) = get_block s" "get_block (s\<lparr>blocked_freeable_children := x2\<rparr>) = get_block s"
  "get_block (s\<lparr>epochs := x3\<rparr>) = get_block s" "get_block (s\<lparr>counters := x4\<rparr>) = get_block s"
  "get_block (s\<lparr>clock := x5\<rparr>) = get_block s" "get_block (s\<lparr>freeable_cache := x6\<rparr>) = get_block s"
  "get_block (s\<lparr>evictable_cache := x7\<rparr>) = get_block s" "get_block (s\<lparr>membership := x8\<rparr>) = get_block s"
  "get_block (s\<lparr>snapshot := x9\<rparr>) = get_block s" "get_block (s\<lparr>backend := x10\<rparr>) = get_block s"
  "get_block (s\<lparr>device_freeable_cache := x11\<rparr>) = get_block s"
  "get_block (s\<lparr>device_reclaimable_cache := x12\<rparr>) = get_block s"
  by (simp_all add: get_block_def fun_eq_iff)

lemma bad_frame [simp]:
  "bad (s\<lparr>freeable_ids := x1\<rparr>) = bad s" "bad (s\<lparr>blocked_freeable_children := x2\<rparr>) = bad s"
  "bad (s\<lparr>epochs := x3\<rparr>) = bad s" "bad (s\<lparr>counters := x4\<rparr>) = bad s"
  "bad (s\<lparr>clock := x5\<rparr>) = bad s" "bad (s\<lparr>freeable_cache := x6\<rparr>) = bad s"
  "bad (s\<lparr>evictable_cache := x7\<rparr>) = bad s" "bad (s\<lparr>membership := x8\<rparr>) = bad s"
  "bad (s\<lparr>snapshot := x9\<rparr>) = bad s" "bad (s\<lparr>backend := x10\<rparr>) = bad s"
  "bad (s\<lparr>device_freeable_cache := x11\<rparr>) = bad s" "bad (s\<lparr>device_reclaimable_cache := x12\<rparr>) = bad s"
  by (simp_all add: bad_def fun_eq_iff)

text \<open>The invariant reads a block through these fields only.\<close>

definition core :: "'p prefix_block \<Rightarrow> block_id \<times> block_id option \<times> int \<times> int \<times> block_residency" where
  "core blk = (block_key blk, parent_block_id blk, ref_count blk, eviction_priority blk, residency blk)"

definition core_eq :: "'p prefix_index \<Rightarrow> 'p prefix_index \<Rightarrow> bool" where
  "core_eq s s' \<longleftrightarrow> backend s' = backend s \<and> blocks s' = blocks s \<and> freeable_ids s' = freeable_ids s
     \<and> blocked_freeable_children s' = blocked_freeable_children s \<and> membership s' = membership s
     \<and> snapshot s' = snapshot s \<and> idx_block_size s' = idx_block_size s \<and> idx_fingerprint s' = idx_fingerprint s
     \<and> max_blocks s' = max_blocks s \<and> freeable_cache s' = freeable_cache s \<and> evictable_cache s' = evictable_cache s
     \<and> capacity_epoch (epochs s') = capacity_epoch (epochs s)
     \<and> (\<forall>b. map_option core (get_block s' b) = map_option core (get_block s b))"

lemma core_get:
  assumes "core_eq s s'" "get_block s' b = Some blk'"
  obtains blk where "get_block s b = Some blk" "core blk' = core blk"
  using assms unfolding core_eq_def by (metis map_option_eq_Some)

lemma core_bad: "core_eq s s' \<Longrightarrow> bad s' = bad s"
proof
  fix b
  assume e: "core_eq s s'"
  then have "map_option core (get_block s' b) = map_option core (get_block s b)" by (simp add: core_eq_def)
  then show "bad s' b = bad s b"
    by (cases "get_block s b"; cases "get_block s' b") (auto simp: bad_def core_def locally_blocked_def)
qed

lemma core_linked:
  assumes e: "core_eq s s'" and l: "linked_ok s"
  shows "linked_ok s'"
proof -
  have "block_key blk' = b \<and> par_of s' b = Some (parent_block_id blk')" if g: "get_block s' b = Some blk'" for b blk'
  proof -
    obtain blk where "get_block s b = Some blk" "core blk' = core blk" using core_get [OF e g] by blast
    with linked_okD(4,5) [OF l] e show ?thesis by (auto simp: core_def core_eq_def)
  qed
  with e l show ?thesis by (simp add: linked_ok_def core_eq_def)
qed

lemma core_resident:
  assumes e: "core_eq s s'" and r: "resident_ok s"
  shows "resident_ok s'"
  unfolding resident_ok_def
proof (intro allI impI)
  fix b blk'
  assume "get_block s' b = Some blk'"
  then obtain blk where blk: "get_block s b = Some blk" "core blk' = core blk" using core_get [OF e] by blast
  have "(device_present (residency blk') \<longrightarrow> device_present (residency pb'))
      \<and> (host_present (residency blk') \<longrightarrow> host_present (residency pb'))"
    if h: "parent_block_id blk' = Some p" "get_block s' p = Some pb'" for p pb'
  proof -
    obtain pb where "get_block s p = Some pb" "core pb' = core pb" using core_get [OF e h(2)] by blast
    with blk h r show ?thesis unfolding resident_ok_def core_def by fastforce
  qed
  moreover have "0 \<le> ref_count blk'" "residency_validate (residency blk') = Inr ()"
    using blk r by (auto simp: resident_ok_def core_def)
  ultimately show "0 \<le> ref_count blk' \<and> residency_validate (residency blk') = Inr ()
     \<and> (\<forall>p pb. parent_block_id blk' = Some p \<and> get_block s' p = Some pb \<longrightarrow>
          (device_present (residency blk') \<longrightarrow> device_present (residency pb))
          \<and> (host_present (residency blk') \<longrightarrow> host_present (residency pb)))" by blast
qed

lemma core_index:
  assumes e: "core_eq s s'" and ok: "index_ok s"
  shows "index_ok s'"
proof -
  note d = index_okD [OF ok]
  have "evictable_spec s' = evictable_spec s" using e core_bad [OF e] by (simp add: evictable_spec_def core_eq_def)
  moreover have "fresh_snapshot m s' = fresh_snapshot m s" for m using e by (simp add: fresh_snapshot_def core_eq_def)
  moreover have "tracked_ok s'"
    using d(3) e core_bad [OF e] by (auto simp: tracked_ok_def core_eq_def split: option.splits)
  ultimately show ?thesis
    using core_linked [OF e d(1)] core_resident [OF e d(2)] d(4-6) e core_bad [OF e]
    by (simp add: index_ok_def caches_ok_def routing_ok_def sized_ok_def core_eq_def)
qed

lemma core_base:
  assumes e: "core_eq s s'" and ok: "base_ok s"
  shows "base_ok s'"
proof -
  have "fresh_snapshot m s' = fresh_snapshot m s" for m using e by (simp add: fresh_snapshot_def core_eq_def)
  then show ?thesis
    using core_linked [OF e] core_resident [OF e] ok e
    by (simp add: base_ok_def caches_le_def routing_ok_def sized_ok_def core_eq_def)
qed

lemma count_up_keeps [keeps_intro]: "keeps index_ok (count_up f)"
  unfolding count_up_def by (rule keeps_writes, rule core_index) (simp_all add: core_eq_def)

lemma tick_keeps [keeps_intro]: "keeps index_ok tick"
  unfolding tick_def
  by (intro keeps_intro keeps_writes, erule core_index [rotated]) (simp add: core_eq_def)

lemma mark_mutated_keeps [keeps_intro]: "keeps index_ok mark_mutated"
  unfolding mark_mutated_def by (rule keeps_writes, erule core_index [rotated]) (simp add: core_eq_def)

lemma linked_frame:
  "backend s' = backend s \<Longrightarrow> blocks s' = blocks s \<Longrightarrow> get_block s' = get_block s \<Longrightarrow> linked_ok s' = linked_ok s"
  by (simp only: linked_ok_def)

lemma resident_frame: "get_block s' = get_block s \<Longrightarrow> resident_ok s' = resident_ok s"
  by (simp only: resident_ok_def)

lemma base_frame:
  assumes "backend s' = backend s" "blocks s' = blocks s" "get_block s' = get_block s" "membership s' = membership s"
    "snapshot s' = snapshot s" "idx_block_size s' = idx_block_size s" "idx_fingerprint s' = idx_fingerprint s"
    "max_blocks s' = max_blocks s" "freeable_cache s' = freeable_cache s" "evictable_cache s' = evictable_cache s"
    "capacity_epoch (epochs s') = capacity_epoch (epochs s)"
  shows "base_ok s' = base_ok s"
proof -
  have "fresh_snapshot m s' = fresh_snapshot m s" for m using assms by (simp add: fresh_snapshot_def)
  then have "routing_ok s' = routing_ok s" using assms by (simp add: routing_ok_def)
  moreover have "caches_le s' = caches_le s" "sized_ok s' = sized_ok s" using assms by (simp_all add: caches_le_def sized_ok_def)
  ultimately show ?thesis
    using linked_frame [OF assms(1-3)] resident_frame [OF assms(3)] by (simp add: base_ok_def)
qed

text \<open>A new capacity epoch makes every cached set old.\<close>

definition bump_capacity :: "'p prefix_index \<Rightarrow> 'p prefix_index" where
  "bump_capacity s = s\<lparr>epochs := (epochs s)\<lparr>capacity_epoch := capacity_epoch (epochs s) + 1,
     mutation_epoch := mutation_epoch (epochs s) + 1\<rparr>\<rparr>"

lemma mark_capacity_run: "mark_capacity_mutated s = (Inr (), bump_capacity s)"
  by (simp add: mark_capacity_mutated_def mark_mutated_def bump_capacity_def oseq_def obind_def)

lemma bump_capacity_ok:
  assumes "base_ok s" "tracked_ok s"
  shows "index_ok (bump_capacity s)"
proof -
  let ?s = "bump_capacity s"
  have same: "get_block ?s = get_block s" "bad ?s = bad s" "backend ?s = backend s" "blocks ?s = blocks s"
    by (simp_all add: bump_capacity_def)
  have "linked_ok ?s" using assms(1) unfolding base_ok_def linked_ok_def same by blast
  moreover have "resident_ok ?s" using assms(1) unfolding base_ok_def resident_ok_def same by blast
  moreover have "fresh_snapshot m ?s = fresh_snapshot m s" for m by (simp add: bump_capacity_def fresh_snapshot_def)
  then have "routing_ok ?s" using assms(1) unfolding base_ok_def routing_ok_def same by (simp add: bump_capacity_def)
  moreover have "sized_ok ?s" using assms(1) unfolding base_ok_def sized_ok_def same by (simp add: bump_capacity_def)
  moreover have "tracked_ok ?s" using assms(2) unfolding tracked_ok_def same
    by (auto simp: bump_capacity_def split: option.splits)
  moreover have "caches_ok ?s"
    using assms(1) by (simp add: base_ok_def caches_le_def caches_ok_def cache_ok_def bump_capacity_def)
  ultimately show ?thesis by (simp add: index_ok_def)
qed

section \<open>Changing one block\<close>

lemma get_block_update:
  assumes "linked_ok s" "live_block s b = Some a"
  shows "get_block (update_block a f s) = (get_block s)(b \<mapsto> f (objs s a))"
proof
  fix x
  have "a' \<noteq> a" if "live_block s x = Some a'" "x \<noteq> b" for a'
    using live_indexed [OF assms(1)] assms(2) that by metis
  with assms(2) show "get_block (update_block a f s) x = ((get_block s)(b \<mapsto> f (objs s a))) x"
    by (cases "live_block s x") (auto simp: get_block_def update_block_def)
qed

lemma get_block_update_unindexed:
  assumes "linked_ok s" "\<not> indexed s a"
  shows "get_block (update_block a f s) = get_block s"
proof
  fix x
  have "a' \<noteq> a" if "live_block s x = Some a'" for a' using live_indexed [OF assms(1) that] assms(2) by auto
  then show "get_block (update_block a f s) x = get_block s x"
    by (cases "live_block s x") (auto simp: get_block_def update_block_def)
qed

lemma update_block_fields [simp]:
  "backend (update_block a f s) = backend s" "blocks (update_block a f s) = blocks s"
  "freeable_ids (update_block a f s) = freeable_ids s"
  "blocked_freeable_children (update_block a f s) = blocked_freeable_children s"
  "membership (update_block a f s) = membership s" "snapshot (update_block a f s) = snapshot s"
  "idx_block_size (update_block a f s) = idx_block_size s" "idx_fingerprint (update_block a f s) = idx_fingerprint s"
  "max_blocks (update_block a f s) = max_blocks s" "freeable_cache (update_block a f s) = freeable_cache s"
  "evictable_cache (update_block a f s) = evictable_cache s" "epochs (update_block a f s) = epochs s"
  "objs (update_block a f s) = (objs s)(a := f (objs s a))" "counters (update_block a f s) = counters s"
  by (simp_all add: update_block_def)

lemma update_unindexed_core:
  "linked_ok s \<Longrightarrow> \<not> indexed s a \<Longrightarrow> core_eq s (update_block a f s)"
  by (simp add: core_eq_def get_block_update_unindexed)

lemma touch_core:
  assumes "linked_ok s" "\<And>blk. core (f blk) = core blk"
  shows "core_eq s (update_block a f s)"
proof (cases "indexed s a")
  case True
  then show ?thesis
    using assms by (auto simp: core_eq_def indexed_def get_block_update [OF assms(1)] live_block_get)
qed (rule update_unindexed_core [OF assms(1)])

definition same_place :: "('p prefix_block \<Rightarrow> 'p prefix_block) \<Rightarrow> bool" where
  "same_place f \<longleftrightarrow> (\<forall>blk. block_key (f blk) = block_key blk \<and> parent_block_id (f blk) = parent_block_id blk)"

lemma update_linked:
  assumes "linked_ok s" "live_block s b = Some a" "same_place f"
  shows "linked_ok (update_block a f s)"
proof -
  have "block_key blk = x \<and> par_of s x = Some (parent_block_id blk)"
    if "((get_block s)(b \<mapsto> f (objs s a))) x = Some blk" for x blk
    using that linked_okD(4,5) [OF assms(1), of x] live_block_get [OF assms(2)] assms(3)
    by (cases "x = b") (auto simp: same_place_def)
  then show ?thesis
    unfolding linked_ok_def get_block_update [OF assms(1,2)] update_block_fields
    using linked_okD(1-3) [OF assms(1)] by blast
qed

lemma resident_update:
  assumes "linked_ok s" "live_block s b = Some a" "same_place f" "resident_ok s"
    and "0 \<le> ref_count (f (objs s a))" "residency_validate (residency (f (objs s a))) = Inr ()"
    and up: "\<And>p pb. parent_block_id (objs s a) = Some p \<Longrightarrow> get_block s p = Some pb \<Longrightarrow>
      (device_present (residency (f (objs s a))) \<longrightarrow> device_present (residency pb))
      \<and> (host_present (residency (f (objs s a))) \<longrightarrow> host_present (residency pb))"
    and down: "\<And>k kb. get_block s k = Some kb \<Longrightarrow> parent_block_id kb = Some b \<Longrightarrow>
      (device_present (residency kb) \<longrightarrow> device_present (residency (f (objs s a))))
      \<and> (host_present (residency kb) \<longrightarrow> host_present (residency (f (objs s a))))"
  shows "resident_ok (update_block a f s)"
  unfolding resident_ok_def get_block_update [OF assms(1,2)]
proof (intro allI impI)
  fix x blk
  assume x: "((get_block s)(b \<mapsto> f (objs s a))) x = Some blk"
  note old = assms(4) [unfolded resident_ok_def]
  have ps: "par_of s b = Some (parent_block_id (objs s a))" using linked_okD(5) [OF assms(1) live_block_get [OF assms(2)]] .
  have nb: "parent_block_id (objs s a) \<noteq> Some b"
    using forest.no_self_parent [OF linked_okD(2) [OF assms(1)], of b] ps by (auto simp: parent_step_def)
  have "(device_present (residency blk) \<longrightarrow> device_present (residency pb))
      \<and> (host_present (residency blk) \<longrightarrow> host_present (residency pb))"
    if h: "parent_block_id blk = Some p" "((get_block s)(b \<mapsto> f (objs s a))) p = Some pb" for p pb
  proof (cases "x = b")
    case True
    with x have blk: "blk = f (objs s a)" by simp
    then have "parent_block_id (objs s a) = Some p" using h(1) assms(3) by (simp add: same_place_def)
    with up [of p pb] h(2) nb blk show ?thesis by (auto split: if_splits)
  next
    case False
    with x have xs: "get_block s x = Some blk" by simp
    show ?thesis
    proof (cases "p = b")
      case True
      with down [OF xs] h show ?thesis by simp
    next
      case False
      with old xs h show ?thesis by auto
    qed
  qed
  moreover have "0 \<le> ref_count blk" "residency_validate (residency blk) = Inr ()"
    using x assms(5,6) old by (auto split: if_splits)
  ultimately show "0 \<le> ref_count blk \<and> residency_validate (residency blk) = Inr () \<and>
     (\<forall>p pb. parent_block_id blk = Some p \<and> ((get_block s)(b \<mapsto> f (objs s a))) p = Some pb \<longrightarrow>
        (device_present (residency blk) \<longrightarrow> device_present (residency pb)) \<and>
        (host_present (residency blk) \<longrightarrow> host_present (residency pb)))" by blast
qed

lemma update_base:
  assumes "base_ok s" "live_block s b = Some a" "same_place f" "resident_ok (update_block a f s)"
  shows "base_ok (update_block a f s)"
proof -
  have "linked_ok s" using assms(1) by (simp add: base_ok_def)
  moreover have "fresh_snapshot m (update_block a f s) = fresh_snapshot m s" for m by (simp add: fresh_snapshot_def)
  ultimately show ?thesis
    using assms update_linked [OF _ assms(2,3)]
    by (simp add: base_ok_def caches_le_def routing_ok_def sized_ok_def)
qed

lemma bad_update:
  assumes "linked_ok s" "live_block s b = Some a"
  shows "bad (update_block a f s) = (bad s)(b := locally_blocked (f (objs s a)))"
  by (auto simp: bad_def get_block_update [OF assms] fun_eq_iff)

lemma bad_same: "linked_ok s \<Longrightarrow> live_block s b = Some a \<Longrightarrow> bad s b = locally_blocked (objs s a)"
  by (simp add: bad_def live_block_get)

lemma update_same_bad:
  assumes "index_ok s" "base_ok (update_block a f s)" "bad (update_block a f s) = bad s"
  shows "index_ok (update_block a f s)"
proof -
  have "tracked_ok (update_block a f s)"
    using assms(3) index_okD(3) [OF assms(1)] by (simp add: tracked_ok_def cong: option.case_cong)
  moreover have "caches_ok (update_block a f s)"
    using assms(3) index_okD(4) [OF assms(1)] by (simp add: caches_ok_def evictable_spec_def)
  ultimately show ?thesis using assms(2) by (simp add: index_ok_def base_ok_def)
qed

text \<open>The freeable set is right everywhere except perhaps at one block.\<close>

definition tracked_but :: "block_id \<Rightarrow> 'p prefix_index \<Rightarrow> bool" where
  "tracked_but b s \<longleftrightarrow> (case freeable_ids s of None \<Rightarrow> True
     | Some F \<Rightarrow> counts_ok (par_of s) F (blocked_freeable_children s)
         \<and> (\<forall>x \<in> dom (par_of s). x \<noteq> b \<longrightarrow> right_at (par_of s) (bad s) F x))"

lemma tracked_weaken: "linked_ok s \<Longrightarrow> tracked_ok s \<Longrightarrow> tracked_but b s"
  using forest.freeable_right [OF linked_okD(2)]
  by (fastforce simp: tracked_ok_def tracked_but_def split: option.splits)

lemma update_tracked_but:
  assumes "linked_ok s" "live_block s b = Some a" "tracked_ok s"
  shows "tracked_but b (update_block a f s)"
proof -
  have "right_at (par_of s) ((bad s)(b := v)) F x \<longleftrightarrow> right_at (par_of s) (bad s) F x" if "x \<noteq> b" for v F x
    using that by (simp add: right_at_def)
  with tracked_weaken [OF assms(1,3), of b] show ?thesis
    by (auto simp: tracked_but_def bad_update [OF assms(1,2)] split: option.splits)
qed

lemma refresh_restores:
  assumes "base_ok s" "tracked_but b s" "b \<in> dom (par_of s)"
  shows "\<exists>s'. refresh_freeable_path (Some b) s = (Inr (), s') \<and> base_ok s' \<and> tracked_ok s'
    \<and> (\<exists>F cnt. s' = s\<lparr>freeable_ids := F, blocked_freeable_children := cnt\<rparr>)"
proof (cases "freeable_ids s")
  case None
  then have "refresh_freeable_path (Some b) s = (Inr (), s)" "tracked_ok s"
    by (simp_all add: refresh_freeable_path_def tracked_ok_def)
  moreover have "s = s\<lparr>freeable_ids := freeable_ids s, blocked_freeable_children := blocked_freeable_children s\<rparr>" by simp
  ultimately show ?thesis using assms(1) by blast
next
  case (Some F)
  have l: "linked_ok s" using assms(1) by (simp add: base_ok_def)
  from assms(2) Some obtain F' cnt' where r:
    "refresh_freeable_path (Some b) s = (Inr (), s\<lparr>freeable_ids := Some F', blocked_freeable_children := cnt'\<rparr>)"
    "F' = freeable_spec (par_of s) (bad s)" "counts_ok (par_of s) F' cnt'"
    using refresh_path_spec [OF l Some _ assms(3)] by (auto simp: tracked_but_def)
  let ?s = "s\<lparr>freeable_ids := Some F', blocked_freeable_children := cnt'\<rparr>"
  have "base_ok ?s = base_ok s" by (rule base_frame) simp_all
  then have "base_ok ?s" using assms(1) by simp
  moreover have "tracked_ok ?s" using r by (simp add: tracked_ok_def)
  ultimately show ?thesis using r(1) by blast
qed

lemma refresh_missing:
  assumes "b \<notin> dom (live_block s)"
  shows "snd (refresh_freeable_path (Some b) s) = s"
  using assms by (auto simp: refresh_freeable_path_def dom_def split: option.splits)

section \<open>Reference counts and transfers keep the invariant\<close>

lemma key_in_dom: "linked_ok s \<Longrightarrow> indexed s a \<Longrightarrow> block_key (objs s a) \<in> dom (par_of s)"
  by (auto simp: live_par indexed_def)

lemma refresh_and_mark:
  assumes "base_ok s" "tracked_but b s" "b \<in> dom (par_of s)"
  shows "\<exists>s'. oseq (refresh_freeable_path (Some b)) mark_capacity_mutated s = (Inr (), s') \<and> index_ok s'
    \<and> (\<exists>F cnt. s' = bump_capacity (s\<lparr>freeable_ids := F, blocked_freeable_children := cnt\<rparr>))"
proof -
  obtain s1 where s1: "refresh_freeable_path (Some b) s = (Inr (), s1)" "base_ok s1" "tracked_ok s1"
    "\<exists>F cnt. s1 = s\<lparr>freeable_ids := F, blocked_freeable_children := cnt\<rparr>"
    using refresh_restores [OF assms] by blast
  then show ?thesis using bump_capacity_ok by (auto simp: op_simps mark_capacity_run)
qed

lemma validate_indexed_keeps [keeps_intro]: "keeps P (validate_indexed_block a)"
  by (simp add: keeps_def validate_indexed_block_def)

lemma update_core_base: "base_ok s \<Longrightarrow> linked_ok s" by (simp add: base_ok_def)

lemma set_ref_count_run:
  assumes "index_ok s" "indexed s a" "0 \<le> n"
  shows "\<exists>s'. set_block_ref_count a n err s = (Inr (), s') \<and> index_ok s' \<and> objs s' = (objs s)(a := (objs s a)\<lparr>ref_count := n\<rparr>)
    \<and> blocks s' = blocks s \<and> backend s' = backend s"
proof -
  let ?f = "\<lambda>blk. blk\<lparr>ref_count := n\<rparr>" and ?b = "block_key (objs s a)"
  let ?s = "update_block a ?f s"
  note d = index_okD [OF assms(1)]
  have live: "live_block s ?b = Some a" using assms(2) by (simp add: indexed_def)
  have sp: "same_place ?f" by (simp add: same_place_def)
  have blk: "get_block s ?b = Some (objs s a)" by (rule live_block_get [OF live])
  have res: "resident_ok ?s"
  proof (rule resident_update [OF d(1) live sp d(2)])
    show "0 \<le> ref_count (?f (objs s a))" using assms(3) by simp
    show "residency_validate (residency (?f (objs s a))) = Inr ()" using d(2) blk by (auto simp: resident_ok_def)
    show "(device_present (residency (?f (objs s a))) \<longrightarrow> device_present (residency pb))
        \<and> (host_present (residency (?f (objs s a))) \<longrightarrow> host_present (residency pb))"
      if "parent_block_id (objs s a) = Some p" "get_block s p = Some pb" for p pb
      using that d(2) blk by (auto simp: resident_ok_def)
    show "(device_present (residency kb) \<longrightarrow> device_present (residency (?f (objs s a))))
        \<and> (host_present (residency kb) \<longrightarrow> host_present (residency (?f (objs s a))))"
      if "get_block s k = Some kb" "parent_block_id kb = Some ?b" for k kb
      using that d(2) blk by (auto simp: resident_ok_def)
  qed
  have base: "base_ok ?s" by (rule update_base [OF index_base [OF assms(1)] live sp res])
  have dom: "?b \<in> dom (par_of ?s)" using key_in_dom [OF d(1) assms(2)] by simp
  have val: "validate_indexed_block a s = (Inr (), s)" using assms(2) by (simp add: validate_indexed_block_def)
  consider "ref_count (objs s a) = n" | "ref_count (objs s a) \<noteq> n" "(ref_count (objs s a) = 0) \<noteq> (n = 0)"
    | "ref_count (objs s a) \<noteq> n" "(ref_count (objs s a) = 0) = (n = 0)" by blast
  then show ?thesis
  proof cases
    case 1
    then have "objs s = (objs s)(a := (objs s a)\<lparr>ref_count := n\<rparr>)" by auto
    with 1 val assms show ?thesis by (simp add: set_block_ref_count_def op_simps)
  next
    case 2
    obtain s' where "oseq (refresh_freeable_path (Some ?b)) mark_capacity_mutated ?s = (Inr (), s')" "index_ok s'"
      "\<exists>F cnt. s' = bump_capacity (?s\<lparr>freeable_ids := F, blocked_freeable_children := cnt\<rparr>)"
      using refresh_and_mark [OF base update_tracked_but [OF d(1) live d(3)] dom] by blast
    with 2 val assms(3) show ?thesis
      by (auto simp: set_block_ref_count_def op_simps oseq_def obind_def bump_capacity_def)
  next
    case 3
    have "core_eq s' (snd (mark_mutated s'))" for s' :: "'a prefix_index" by (simp add: core_eq_def mark_mutated_def)
    moreover have "bad ?s = bad s"
      using 3 bad_same [OF d(1) live] by (auto simp: bad_update [OF d(1) live] locally_blocked_def fun_eq_iff)
    then have "index_ok ?s" by (rule update_same_bad [OF assms(1) base])
    ultimately show ?thesis using 3 val assms(3) core_index
      by (fastforce simp: set_block_ref_count_def op_simps mark_mutated_def)
  qed
qed

lemma set_block_ref_count_keeps [keeps_intro]: "keeps index_ok (set_block_ref_count a n err)"
proof (rule keepsI)
  fix s :: "'a prefix_index"
  assume ok: "index_ok s"
  show "index_ok (snd (set_block_ref_count a n err s))"
  proof (cases "indexed s a \<and> 0 \<le> n")
    case True
    with set_ref_count_run [OF ok, of a n err] show ?thesis by auto
  next
    case False
    with ok show ?thesis
      by (auto simp: set_block_ref_count_def validate_indexed_block_def oseq_def obind_def)
  qed
qed

lemma acquire_release_keep [keeps_intro]:
  "keeps index_ok (acquire_block_ref a)" "keeps index_ok (release_block_ref a err)"
  using keepsD [OF set_block_ref_count_keeps] by (auto simp: keeps_def acquire_block_ref_def release_block_ref_def)

lemma residency_changed_keeps [keeps_intro]: "keeps index_ok (residency_changed a)"
proof (rule keepsI)
  fix s :: "'a prefix_index"
  assume ok: "index_ok s"
  note d = index_okD [OF ok]
  let ?b = "block_key (objs s a)"
  show "index_ok (snd (residency_changed a s))"
  proof (cases "residency_validate (residency (objs s a))")
    case (Inl e)
    with ok show ?thesis by (simp add: residency_changed_def validate_block_def op_simps)
  next
    case (Inr u)
    then have run: "residency_changed a s = oseq (refresh_freeable_path (Some ?b)) mark_capacity_mutated s"
      by (simp add: residency_changed_def validate_block_def oseq_def obind_def)
    show ?thesis
    proof (cases "?b \<in> dom (par_of s)")
      case True
      from refresh_and_mark [OF index_base [OF ok] tracked_weaken [OF d(1,3)] True] run show ?thesis by auto
    next
      case False
      then have "?b \<notin> dom (live_block s)" using linked_okD(3) [OF d(1)] by simp
      then have "snd (refresh_freeable_path (Some ?b) s) = s" by (rule refresh_missing)
      then obtain r where "refresh_freeable_path (Some ?b) s = (r, s)" by (metis prod.collapse)
      with run ok bump_capacity_ok [OF index_base [OF ok] d(3)] show ?thesis
        by (cases r) (simp_all add: op_simps mark_capacity_run)
    qed
  qed
qed

text \<open>A change of residency that fits between the residencies of the parent and the children.\<close>

definition residency_fits :: "'p prefix_index \<Rightarrow> addr \<Rightarrow> block_residency \<Rightarrow> bool" where
  "residency_fits s a r \<longleftrightarrow> residency_validate r = Inr ()
     \<and> (\<forall>p pb. parent_block_id (objs s a) = Some p \<and> get_block s p = Some pb \<longrightarrow>
          (device_present r \<longrightarrow> device_present (residency pb)) \<and> (host_present r \<longrightarrow> host_present (residency pb)))
     \<and> (\<forall>k kb. get_block s k = Some kb \<and> parent_block_id kb = Some (block_key (objs s a)) \<longrightarrow>
          (device_present (residency kb) \<longrightarrow> device_present r) \<and> (host_present (residency kb) \<longrightarrow> host_present r))"

abbreviation new_residency :: "'p prefix_index \<Rightarrow> addr \<Rightarrow> (block_residency \<Rightarrow> block_residency) \<Rightarrow> addr \<Rightarrow> 'p prefix_block" where
  "new_residency s a f \<equiv> (objs s)(a := (objs s a)\<lparr>residency := f (residency (objs s a))\<rparr>)"

lemma transition_run:
  assumes ok: "index_ok s" and ix: "indexed s a" and fits: "residency_fits s a (f (residency (objs s a)))"
  shows "\<exists>s'. oseq (writes (set_residency a f)) (residency_changed a) s = (Inr (), s') \<and> index_ok s'
    \<and> objs s' = new_residency s a f \<and> blocks s' = blocks s \<and> backend s' = backend s"
proof -
  let ?g = "\<lambda>blk. blk\<lparr>residency := f (residency blk)\<rparr>" and ?b = "block_key (objs s a)"
  let ?s = "update_block a ?g s"
  note d = index_okD [OF ok]
  have live: "live_block s ?b = Some a" using ix by (simp add: indexed_def)
  have sp: "same_place ?g" by (simp add: same_place_def)
  have blk: "get_block s ?b = Some (objs s a)" by (rule live_block_get [OF live])
  have res: "resident_ok ?s"
    using fits d(2) blk by (intro resident_update [OF d(1) live sp d(2)]) (auto simp: residency_fits_def resident_ok_def)
  have base: "base_ok ?s" by (rule update_base [OF index_base [OF ok] live sp res])
  have dom: "?b \<in> dom (par_of ?s)" using key_in_dom [OF d(1) ix] by simp
  obtain s' where s': "oseq (refresh_freeable_path (Some ?b)) mark_capacity_mutated ?s = (Inr (), s')" "index_ok s'"
    "\<exists>F cnt. s' = bump_capacity (?s\<lparr>freeable_ids := F, blocked_freeable_children := cnt\<rparr>)"
    using refresh_and_mark [OF base update_tracked_but [OF d(1) live d(3)] dom] by blast
  have "residency_changed a ?s = (Inr (), s')"
    using s'(1) fits by (simp add: residency_changed_def validate_block_def oseq_def obind_def residency_fits_def)
  with s' show ?thesis by (auto simp: op_simps set_residency_def bump_capacity_def)
qed

lemma transition_keeps:
  assumes ok: "index_ok s" and fits: "indexed s a \<Longrightarrow> residency_fits s a (f (residency (objs s a)))"
  shows "index_ok (snd (oseq (writes (set_residency a f)) (residency_changed a) s))"
proof (cases "indexed s a")
  case True
  with transition_run [OF ok True, of f] fits show ?thesis by auto
next
  case False
  have "index_ok (set_residency a f s)"
    unfolding set_residency_def by (rule core_index [OF update_unindexed_core [OF index_okD(1) [OF ok] False] ok])
  then show ?thesis using keepsD [OF residency_changed_keeps] by (simp add: op_simps)
qed

lemma resident_current: "index_ok s \<Longrightarrow> indexed s a \<Longrightarrow> residency_fits s a (residency (objs s a))"
  using index_okD(2) live_block_get unfolding resident_ok_def residency_fits_def indexed_def by blast

lemmas residency_simps = residency_validate_def residency_fits_def

lemma device_children_none:
  assumes ok: "linked_ok s" and "device_child_count b s = Inr 0" and "b \<in> dom (par_of s)"
  shows "get_block s k = Some kb \<Longrightarrow> parent_block_id kb = Some b \<Longrightarrow> \<not> device_present (residency kb)"
proof -
  assume k: "get_block s k = Some kb" "parent_block_id kb = Some b"
  obtain ks where ks: "child_block_ids b (backend s) = Inr ks" "set ks = kids_of (par_of s) b"
    using tree.children_law [OF linked_okD(2) [OF ok] assms(3)] by blast
  have "k \<in> set ks" using k linked_okD(5) [OF ok k(1)] by (simp add: ks(2) kids_of_def parent_step_def)
  with assms(2) ks(1) k(1) show ?thesis by (auto simp: device_child_count_def filter_empty_conv)
qed

lemma begin_d2h_keeps [keeps_intro]: "keeps index_ok (begin_d2h a)"
proof (rule keepsI)
  fix s :: "'a prefix_index"
  assume ok: "index_ok s"
  show "index_ok (snd (begin_d2h a s))"
  proof (cases "check_begin_d2h a s")
    case (Inl e)
    with ok show ?thesis by (simp add: begin_d2h_def op_simps)
  next
    case (Inr u)
    let ?r = "residency (objs s a)"
    have "indexed s a" "\<not> host_present ?r" "transfer ?r = None" "residency_validate ?r = Inr ()"
      using Inr by (auto simp: check_begin_d2h_def Let_def rbind_eq_Inr split: if_splits)
    then have "residency_fits s a (?r\<lparr>transfer := Some D2H\<rparr>)"
      using resident_current [OF ok] by (auto simp: residency_simps split: if_splits)
    with transition_keeps [OF ok, of a "\<lambda>r. r\<lparr>transfer := Some D2H\<rparr>"] Inr show ?thesis
      by (simp add: begin_d2h_def op_simps)
  qed
qed

lemma finish_d2h_keeps [keeps_intro]: "keeps index_ok (finish_d2h a)"
proof (rule keepsI)
  fix s :: "'a prefix_index"
  assume ok: "index_ok s"
  show "index_ok (snd (finish_d2h a s))"
  proof (cases "check_finish_d2h a s")
    case (Inl e)
    with ok show ?thesis by (simp add: finish_d2h_def op_simps)
  next
    case (Inr u)
    let ?r = "residency (objs s a)"
    have t: "transfer ?r = Some D2H" "\<And>p pb. parent_block_id (objs s a) = Some p \<Longrightarrow> get_block s p = Some pb \<Longrightarrow> host_present (residency pb)"
      using Inr by (auto simp: check_finish_d2h_def Let_def split: if_splits option.splits)
    have "residency_fits s a (?r\<lparr>host_present := True, transfer := None\<rparr>)" if "indexed s a"
      using resident_current [OF ok that] t by (auto simp: residency_simps split: if_splits)
    with transition_keeps [OF ok, of a "\<lambda>r. r\<lparr>host_present := True, transfer := None\<rparr>"] Inr show ?thesis
      by (simp add: finish_d2h_def op_simps)
  qed
qed

lemma abort_d2h_keeps [keeps_intro]: "keeps index_ok (abort_d2h a)"
proof (rule keepsI)
  fix s :: "'a prefix_index"
  assume ok: "index_ok s"
  let ?r = "residency (objs s a)"
  show "index_ok (snd (abort_d2h a s))"
  proof (cases "transfer ?r = Some D2H")
    case True
    have "residency_fits s a (?r\<lparr>transfer := None\<rparr>)" if "indexed s a"
      using resident_current [OF ok that] True by (auto simp: residency_simps split: if_splits)
    with transition_keeps [OF ok, of a "\<lambda>r. r\<lparr>transfer := None\<rparr>"] True show ?thesis
      by (simp add: abort_d2h_def op_simps)
  qed (use ok in \<open>simp add: abort_d2h_def op_simps\<close>)
qed

lemma begin_h2d_keeps [keeps_intro]: "keeps index_ok (begin_h2d a)"
proof (rule keepsI)
  fix s :: "'a prefix_index"
  assume ok: "index_ok s"
  show "index_ok (snd (begin_h2d a s))"
  proof (cases "check_begin_h2d a s")
    case (Inl e)
    with ok show ?thesis by (simp add: begin_h2d_def op_simps)
  next
    case (Inr u)
    let ?r = "residency (objs s a)"
    have t: "indexed s a" "host_present ?r"
      "\<And>p pb. parent_block_id (objs s a) = Some p \<Longrightarrow> get_block s p = Some pb \<Longrightarrow> device_present (residency pb)"
      using Inr by (auto simp: check_begin_h2d_def Let_def rbind_eq_Inr split: if_splits option.splits)
    then have "residency_fits s a (?r\<lparr>device_present := True, transfer := Some H2D\<rparr>)"
      using resident_current [OF ok t(1)] by (auto simp: residency_simps split: if_splits)
    with transition_keeps [OF ok, of a "\<lambda>r. r\<lparr>device_present := True, transfer := Some H2D\<rparr>"] Inr show ?thesis
      by (simp add: begin_h2d_def op_simps)
  qed
qed

lemma finish_h2d_keeps [keeps_intro]: "keeps index_ok (finish_h2d a)"
proof (rule keepsI)
  fix s :: "'a prefix_index"
  assume ok: "index_ok s"
  let ?r = "residency (objs s a)"
  show "index_ok (snd (finish_h2d a s))"
  proof (cases "transfer ?r = Some H2D")
    case True
    have "residency_fits s a (?r\<lparr>transfer := None\<rparr>)" if "indexed s a"
      using resident_current [OF ok that] True by (auto simp: residency_simps split: if_splits)
    with transition_keeps [OF ok, of a "\<lambda>r. r\<lparr>transfer := None\<rparr>"] True show ?thesis
      by (simp add: finish_h2d_def op_simps)
  qed (use ok in \<open>simp add: finish_h2d_def op_simps\<close>)
qed

lemma abort_h2d_keeps [keeps_intro]: "keeps index_ok (abort_h2d a)"
proof (rule keepsI)
  fix s :: "'a prefix_index"
  assume ok: "index_ok s"
  let ?r = "residency (objs s a)" and ?b = "block_key (objs s a)"
  note l = index_okD(1) [OF ok]
  show "index_ok (snd (abort_h2d a s))"
  proof (cases "transfer ?r = Some H2D \<and> device_child_count ?b s = Inr 0")
    case True
    have "residency_fits s a (?r\<lparr>device_present := False, transfer := None\<rparr>)" if ix: "indexed s a"
    proof -
      have "\<not> device_present (residency kb)" if "get_block s k = Some kb" "parent_block_id kb = Some ?b" for k kb
        using device_children_none [OF l _ key_in_dom [OF l ix] that] True by simp
      then show ?thesis using resident_current [OF ok ix] True by (auto simp: residency_simps split: if_splits)
    qed
    with transition_keeps [OF ok, of a "\<lambda>r. r\<lparr>device_present := False, transfer := None\<rparr>"] True show ?thesis
      by (simp add: abort_h2d_def op_simps)
  next
    case False
    with ok show ?thesis
      by (cases "device_child_count ?b s") (auto simp: abort_h2d_def oseq_def obind_def)
  qed
qed

end
