(* ===== verification/Prefix_Freeable.thy ===== *)
theory Prefix_Freeable
  imports Prefix_Invariant
begin

text \<open>
  The queries for freeable and evictable blocks: the scan by virtual leaf removal ends and
  computes the specification, and the cached and incremental answers agree with it.
\<close>

section \<open>Counting children\<close>

lemma count_children_fold:
  assumes "\<And>a p. a \<in> set as \<Longrightarrow> parent_block_id (objs s a) = Some p \<Longrightarrow> p \<in> dom m"
  shows "rfold (count_child s) as m =
    Inr (\<lambda>p. map_option (\<lambda>n. n + int (length (filter (\<lambda>a. parent_block_id (objs s a) = Some p) as))) (m p))"
  using assms
proof (induction as arbitrary: m)
  case Nil
  then show ?case by (simp add: option.map_ident)
next
  case (Cons a as)
  show ?case
  proof (cases "parent_block_id (objs s a)")
    case None
    have "rfold (count_child s) as m =
      Inr (\<lambda>p. map_option (\<lambda>n. n + int (length (filter (\<lambda>a. parent_block_id (objs s a) = Some p) as))) (m p))"
      by (rule Cons.IH, rule Cons.prems) auto
    moreover have "count_child s a m = Inr m" using None by (simp add: count_child_def)
    ultimately show ?thesis using None by simp
  next
    case (Some p)
    then obtain n where n: "m p = Some n" using Cons.prems [of a p] by auto
    have "rfold (count_child s) as (m(p \<mapsto> n + 1)) =
      Inr (\<lambda>q. map_option (\<lambda>n. n + int (length (filter (\<lambda>a. parent_block_id (objs s a) = Some q) as))) ((m(p \<mapsto> n + 1)) q))"
    proof (rule Cons.IH)
      fix a' q
      assume "a' \<in> set as" "parent_block_id (objs s a') = Some q"
      then have "q \<in> dom m" using Cons.prems [of a' q] by simp
      then show "q \<in> dom (m(p \<mapsto> n + 1))" by simp
    qed
    moreover have "count_child s a m = Inr (m(p \<mapsto> n + 1))" using Some n by (simp add: count_child_def)
    ultimately show ?thesis using Some n by (auto simp: fun_eq_iff)
  qed
qed

lemma kids_count:
  assumes "linked_ok s"
  shows "length (filter (\<lambda>a. parent_block_id (objs s a) = Some p) (map snd (blocks s))) = card (kids_of (par_of s) p)"
proof -
  let ?Q = "\<lambda>x. parent_block_id (objs s (snd x)) = Some p"
  note dok = linked_okD(1) [OF assms]
  have "length (filter (\<lambda>a. parent_block_id (objs s a) = Some p) (map snd (blocks s)))
      = length (filter ?Q (blocks s))" by (simp add: filter_map comp_def)
  also have "\<dots> = length (map fst (filter ?Q (blocks s)))" by simp
  also have "\<dots> = card (set (map fst (filter ?Q (blocks s))))"
    using dok by (intro distinct_card [symmetric] distinct_map_filter)
  also have "set (map fst (filter ?Q (blocks s))) = kids_of (par_of s) p"
  proof (intro equalityI subsetI)
    fix b
    assume "b \<in> set (map fst (filter ?Q (blocks s)))"
    then obtain a where a: "live_block s b = Some a" "parent_block_id (objs s a) = Some p"
      using dict_items [OF dok] by auto
    with linked_okD(5) [OF assms live_block_get [OF a(1)]] show "b \<in> kids_of (par_of s) p"
      by (simp add: kids_of_def parent_step_def)
  next
    fix b
    assume "b \<in> kids_of (par_of s) p"
    then have b: "par_of s b = Some (Some p)" by (simp add: kids_of_def parent_step_def)
    then obtain a where "live_block s b = Some a" "par_of s b = Some (parent_block_id (objs s a))"
      using live_parE [OF assms, of b] by blast
    with b dict_items [OF dok, of b a] show "b \<in> set (map fst (filter ?Q (blocks s)))"
      by (auto intro!: image_eqI [of _ _ "(b, a)"])
  qed
  finally show ?thesis .
qed

lemma count_children_spec:
  assumes "linked_ok s"
  shows "\<exists>cnt. count_children s = Inr cnt \<and> counts_ok (par_of s) {} cnt"
proof -
  define m0 :: "block_id \<rightharpoonup> int" where "m0 = map_of (map (\<lambda>b. (b, 0)) (map fst (blocks s)))"
  have m: "m0 b = (if b \<in> dom (par_of s) then Some 0 else None)" for b
    unfolding m0_def linked_okD(3) [OF assms] keys_dict [symmetric] map_of_map_restrict restrict_map_def by simp
  have pd: "p \<in> dom m0" if h: "a \<in> set (map snd (blocks s))" "parent_block_id (objs s a) = Some p" for a p
  proof -
    obtain b where "live_block s b = Some a" using h(1) dict_values [OF linked_okD(1) [OF assms], of a] by blast
    then have "parent_step (par_of s) b p"
      using linked_okD(5) [OF assms live_block_get] h(2) by (simp add: parent_step_def)
    then have "p \<in> dom (par_of s)" by (rule forest.parent_present [OF linked_okD(2) [OF assms]])
    then show ?thesis using m by (simp add: domIff)
  qed
  have "rfold (count_child s) (map snd (blocks s)) m0 = Inr (\<lambda>p. map_option (\<lambda>n. n
      + int (length (filter (\<lambda>a. parent_block_id (objs s a) = Some p) (map snd (blocks s))))) (m0 p))"
    by (rule count_children_fold, rule pd)
  then show ?thesis
    unfolding count_children_def m0_def [symmetric] kids_count [OF assms]
    by (auto simp: counts_ok_def m)
qed

section \<open>The scan\<close>

definition scan_inv :: "'p prefix_index \<Rightarrow> block_id list \<Rightarrow> block_id set \<Rightarrow> (block_id \<rightharpoonup> int) \<Rightarrow> block_id set \<Rightarrow> bool" where
  "scan_inv s pending F cnt seen \<longleftrightarrow> counts_ok (par_of s) F cnt \<and> distinct pending \<and> set pending \<inter> seen = {}
     \<and> seen \<subseteq> dom (par_of s) \<and> F = {b \<in> seen. \<not> bad s b}
     \<and> (\<forall>b \<in> dom (par_of s). b \<in> seen \<or> b \<in> set pending \<longleftrightarrow> kids_of (par_of s) b \<subseteq> F)
     \<and> set pending \<subseteq> dom (par_of s)"

lemma scan_step_blocked:
  assumes "scan_inv s (pending @ [t]) F cnt seen" "bad s t"
  shows "scan_inv s pending F cnt (insert t seen)"
  using assms unfolding scan_inv_def by auto

lemma scan_step_free:
  assumes l: "linked_ok s" and inv: "scan_inv s (pending @ [t]) F cnt seen" and "\<not> bad s t"
    and par: "par_of s t = Some q"
  shows "\<exists>cnt'. scan_inv s (case q of None \<Rightarrow> pending
             | Some p \<Rightarrow> if the (cnt p) - 1 = 0 then pending @ [p] else pending) (insert t F) cnt' (insert t seen)
    \<and> cnt' = (case q of None \<Rightarrow> cnt | Some p \<Rightarrow> cnt(p \<mapsto> the (cnt p) - 1))
    \<and> (\<forall>p. q = Some p \<longrightarrow> p \<in> dom cnt)"
proof -
  note rok = linked_okD(2) [OF l]
  let ?par = "par_of s" and ?cnt = "case q of None \<Rightarrow> cnt | Some p \<Rightarrow> cnt(p \<mapsto> the (cnt p) - 1)"
  let ?new = "case q of None \<Rightarrow> pending | Some p \<Rightarrow> if the (cnt p) - 1 = 0 then pending @ [p] else pending"
  note i = inv [unfolded scan_inv_def]
  have t: "t \<in> dom ?par" "t \<notin> seen" "t \<notin> set pending" "t \<notin> F" using i by auto
  have c: "counts_ok ?par (insert t F) ?cnt"
    using forest.counts_insert [OF rok i [THEN conjunct1] t(1,4)] par by simp
  have zero: "the (?cnt p) = 0 \<longleftrightarrow> kids_of ?par p \<subseteq> insert t F" if "p \<in> dom ?par" for p
    using forest.count_zero [OF rok c that] counts_okD [OF c that] by simp
  have pd: "p \<in> dom ?par" if "q = Some p" for p
    using that par forest.parent_present [OF rok, of t p] by (simp add: parent_step_def)
  have sub: "kids_of ?par b \<subseteq> insert t F \<longleftrightarrow> kids_of ?par b \<subseteq> F" if "q \<noteq> Some b" for b
    using that par by (auto simp: kids_of_def parent_step_def)
  have notF: "\<not> kids_of ?par p \<subseteq> F" if "q = Some p" for p
    using that par t(4) by (auto simp: kids_of_def parent_step_def)
  have mem: "b \<in> set ?new \<longleftrightarrow> b \<in> set pending \<or> q = Some b \<and> kids_of ?par b \<subseteq> insert t F" for b
    using zero [OF pd] by (cases q) auto
  have pn: "p \<notin> seen" "p \<notin> set (pending @ [t])" if "q = Some p" for p
    using notF [OF that] i pd [OF that] by blast+
  have old: "b \<in> seen \<or> b \<in> set pending \<or> b = t \<longleftrightarrow> kids_of ?par b \<subseteq> F" if "b \<in> dom ?par" for b
    using i that by auto
  have iff: "b \<in> insert t seen \<or> b \<in> set ?new \<longleftrightarrow> kids_of ?par b \<subseteq> insert t F" if "b \<in> dom ?par" for b
  proof (cases "q = Some b")
    case True
    with pn [OF True] show ?thesis unfolding mem by auto
  next
    case False
    with old [OF that] sub [OF False] show ?thesis unfolding mem by auto
  qed
  have "distinct ?new" "set ?new \<inter> insert t seen = {}" "set ?new \<subseteq> dom ?par"
    using i pn pd t by (auto split: option.splits)
  moreover have "insert t F = {b \<in> insert t seen. \<not> bad s b}" using i assms(3) by auto
  ultimately have "scan_inv s ?new (insert t F) ?cnt (insert t seen)"
    unfolding scan_inv_def using c iff i t(1) by blast
  moreover have "\<forall>p. q = Some p \<longrightarrow> p \<in> dom cnt" using pd counts_okD [OF i [THEN conjunct1]] by blast
  ultimately show ?thesis by blast
qed

lemma scan_done:
  assumes "linked_ok s" "scan_inv s [] F cnt seen"
  shows "F = freeable_spec (par_of s) (bad s)" "counts_ok (par_of s) F cnt"
proof -
  note i = assms(2) [unfolded scan_inv_def]
  show "counts_ok (par_of s) F cnt" using i by blast
  have "right_at (par_of s) (bad s) F b" if "b \<in> dom (par_of s)" for b
    using i that unfolding right_at_def by auto
  moreover have "F \<subseteq> dom (par_of s)" using i by auto
  ultimately show "F = freeable_spec (par_of s) (bad s)"
    using forest.right_unique [OF linked_okD(2) [OF assms(1)]] by blast
qed

lemma free_loop_spec:
  assumes "linked_ok s" "scan_inv s pending F cnt seen" "card (dom (par_of s) - seen) \<le> fuel"
  shows "\<exists>F' cnt'. free_loop fuel s pending F cnt = Inr (F', cnt')
    \<and> F' = freeable_spec (par_of s) (bad s) \<and> counts_ok (par_of s) F' cnt'"
  using assms
proof (induction fuel arbitrary: pending F cnt seen)
  case 0
  have fin: "finite (dom (par_of s))" by (rule forest.finite_blocks [OF linked_okD(2) [OF "0.prems"(1)]])
  with "0.prems"(3) have "dom (par_of s) \<subseteq> seen" by simp
  with "0.prems"(2) have "set pending \<subseteq> {}" unfolding scan_inv_def by blast
  then have "pending = []" by simp
  then show ?case using scan_done [OF "0.prems"(1)] "0.prems"(2) by simp
next
  case (Suc fuel)
  note rok = linked_okD(2) [OF Suc.prems(1)]
  have fin: "finite (dom (par_of s))" by (rule forest.finite_blocks [OF rok])
  show ?case
  proof (cases pending rule: rev_cases)
    case Nil
    with scan_done [OF Suc.prems(1)] Suc.prems(2) show ?thesis by simp
  next
    case (snoc rest t)
    have t: "t \<in> dom (par_of s)" "t \<notin> seen" using Suc.prems(2) snoc by (auto simp: scan_inv_def)
    obtain a where a: "live_block s t = Some a" "par_of s t = Some (parent_block_id (objs s a))"
      using live_parE [OF Suc.prems(1) t(1)] by metis
    have gb: "get_block s t = Some (objs s a)" by (rule live_block_get [OF a(1)])
    have bad: "bad s t = locally_blocked (objs s a)" by (rule bad_same [OF Suc.prems(1) a(1)])
    have fuel: "card (dom (par_of s) - insert t seen) \<le> fuel"
    proof -
      have "dom (par_of s) - insert t seen = (dom (par_of s) - seen) - {t}" by auto
      with Suc.prems(3) fin t show ?thesis by (simp add: card_Diff_singleton)
    qed
    have "pending \<noteq> []" using snoc by simp
    then obtain b0 bs0 where list: "pending = b0 # bs0" by (metis list.exhaust)
    have lb: "last (b0 # bs0) = t" "butlast (b0 # bs0) = rest"
      using snoc unfolding list by (metis last_snoc, metis butlast_snoc)
    have step: "free_loop (Suc fuel) s pending F cnt =
      (if locally_blocked (objs s a) then free_loop fuel s rest F cnt
       else (case parent_block_id (objs s a) of
          None \<Rightarrow> free_loop fuel s rest (insert t F) cnt
        | Some p \<Rightarrow> (case cnt p of None \<Rightarrow> Inl (KeyError ''block_id'')
           | Some n \<Rightarrow> free_loop fuel s (if n - 1 = 0 then rest @ [p] else rest) (insert t F) (cnt(p \<mapsto> n - 1)))))"
      unfolding list free_loop.simps Let_def lb using gb by simp
    show ?thesis
    proof (cases "bad s t")
      case True
      with step bad Suc.IH [OF Suc.prems(1) scan_step_blocked fuel] Suc.prems(2) snoc show ?thesis by simp
    next
      case False
      from scan_step_free [OF Suc.prems(1) Suc.prems(2) [unfolded snoc] False a(2)]
      obtain cnt' where c: "scan_inv s (case parent_block_id (objs s a) of None \<Rightarrow> rest
             | Some p \<Rightarrow> if the (cnt p) - 1 = 0 then rest @ [p] else rest) (insert t F) cnt' (insert t seen)"
        "cnt' = (case parent_block_id (objs s a) of None \<Rightarrow> cnt | Some p \<Rightarrow> cnt(p \<mapsto> the (cnt p) - 1))"
        "\<forall>p. parent_block_id (objs s a) = Some p \<longrightarrow> p \<in> dom cnt" by blast
      from Suc.IH [OF Suc.prems(1) c(1) fuel] c(2,3) False bad show ?thesis
        unfolding step by (auto split: option.splits)
    qed
  qed
qed

lemma build_freeable_spec:
  assumes "linked_ok s"
  shows "\<exists>cnt. build_freeable s = Inr (freeable_spec (par_of s) (bad s), cnt)
    \<and> counts_ok (par_of s) (freeable_spec (par_of s) (bad s)) cnt"
proof -
  obtain cnt where cnt: "count_children s = Inr cnt" "counts_ok (par_of s) {} cnt"
    using count_children_spec [OF assms] by blast
  let ?pending = "filter (\<lambda>b. cnt b = Some 0) (map fst (blocks s))"
  have keys: "set (map fst (blocks s)) = dom (par_of s)" unfolding linked_okD(3) [OF assms] by (rule keys_dict)
  have zero: "cnt b = Some 0 \<longleftrightarrow> kids_of (par_of s) b \<subseteq> {}" if "b \<in> dom (par_of s)" for b
    by (rule forest.count_zero [OF linked_okD(2) [OF assms] cnt(2) that])
  have "scan_inv s ?pending {} cnt {}"
    using cnt(2) keys zero linked_okD(1) [OF assms] by (auto simp: scan_inv_def)
  moreover have "card (dom (par_of s) - {}) \<le> length (blocks s)"
    using linked_okD(1,3) [OF assms] length_dict by (metis Diff_empty order_refl)
  ultimately show ?thesis
    using free_loop_spec [OF assms] cnt(1) by (auto simp: build_freeable_def)
qed

section \<open>The queries\<close>

definition same_blocks :: "'p prefix_index \<Rightarrow> 'p prefix_index \<Rightarrow> bool" where
  "same_blocks s s' \<longleftrightarrow> objs s' = objs s \<and> blocks s' = blocks s \<and> backend s' = backend s \<and> max_blocks s' = max_blocks s"

lemma same_blocks_refl [simp]: "same_blocks s s" by (simp add: same_blocks_def)

lemma same_blocks_trans: "same_blocks s t \<Longrightarrow> same_blocks t u \<Longrightarrow> same_blocks s u" by (simp add: same_blocks_def)

lemma same_blocksD:
  assumes "same_blocks s s'"
  shows "par_of s' = par_of s" "get_block s' = get_block s" "bad s' = bad s" "live_block s' = live_block s"
proof -
  show g: "get_block s' = get_block s" using assms by (intro ext) (simp add: same_blocks_def get_block_def)
  show "par_of s' = par_of s" "live_block s' = live_block s" using assms by (simp_all add: same_blocks_def)
  show "bad s' = bad s" by (intro ext) (simp add: bad_def g)
qed

lemma tracked_store:
  assumes "index_ok s" "counts_ok (par_of s) (freeable_spec (par_of s) (bad s)) cnt"
  shows "index_ok (s\<lparr>freeable_ids := Some (freeable_spec (par_of s) (bad s)), blocked_freeable_children := cnt\<rparr>)"
    (is "index_ok ?s")
proof -
  have "base_ok ?s = base_ok s" by (rule base_frame) simp_all
  with index_base [OF assms(1)] have "base_ok ?s" by simp
  moreover have "tracked_ok ?s" using assms(2) by (simp add: tracked_ok_def)
  moreover have "caches_ok ?s" using index_okD(4) [OF assms(1)] by (simp add: caches_ok_def evictable_spec_def)
  ultimately show ?thesis by (simp add: index_ok_def base_ok_def)
qed

lemma freeable_cache_store:
  assumes "index_ok s"
  shows "index_ok (s\<lparr>freeable_cache := (capacity_epoch (epochs s), freeable_spec (par_of s) (bad s))\<rparr>)" (is "index_ok ?s")
proof -
  note d = index_okD [OF assms]
  have "linked_ok ?s" "resident_ok ?s" using d(1,2) linked_frame [of ?s s] resident_frame [of ?s s] by simp_all
  moreover have "tracked_ok ?s" using d(3) by (simp add: tracked_ok_def cong: option.case_cong)
  moreover have "fresh_snapshot m ?s = fresh_snapshot m s" for m by (simp add: fresh_snapshot_def)
  ultimately show ?thesis
    using d(4-6) by (simp add: index_ok_def caches_ok_def cache_ok_def evictable_spec_def routing_ok_def sized_ok_def)
qed

lemma evictable_cache_store:
  assumes "index_ok s"
  shows "index_ok (s\<lparr>evictable_cache := (capacity_epoch (epochs s), evictable_spec s)\<rparr>)" (is "index_ok ?s")
proof -
  note d = index_okD [OF assms]
  have "linked_ok ?s" "resident_ok ?s" using d(1,2) linked_frame [of ?s s] resident_frame [of ?s s] by simp_all
  moreover have "tracked_ok ?s" using d(3) by (simp add: tracked_ok_def cong: option.case_cong)
  moreover have "fresh_snapshot m ?s = fresh_snapshot m s" for m by (simp add: fresh_snapshot_def)
  ultimately show ?thesis
    using d(4-6) by (simp add: index_ok_def caches_ok_def cache_ok_def evictable_spec_def routing_ok_def sized_ok_def)
qed

lemma count_up_run: "count_up f s = (Inr (), s\<lparr>counters := f (counters s)\<rparr>)"
  by (simp add: count_up_def)

lemma counters_ok: "index_ok s \<Longrightarrow> index_ok (s\<lparr>counters := c\<rparr>)"
  by (erule core_index [rotated]) (simp add: core_eq_def)

lemma track_freeable_run:
  assumes "index_ok s"
  shows "\<exists>s'. track_freeable s = (Inr (), s') \<and> index_ok s' \<and> same_blocks s s'
    \<and> freeable_ids s' = Some (freeable_spec (par_of s) (bad s))"
proof (cases "freeable_ids s")
  case None
  let ?F = "freeable_spec (par_of s) (bad s)"
  define s1 where "s1 = s\<lparr>counters := (counters s)\<lparr>freeable_scans := freeable_scans (counters s) + 1\<rparr>\<rparr>"
  have s1: "index_ok s1" "same_blocks s s1" using counters_ok [OF assms] by (simp_all add: s1_def same_blocks_def)
  note e = same_blocksD [OF s1(2)]
  obtain cnt where cnt: "build_freeable s1 = Inr (?F, cnt)" "counts_ok (par_of s1) ?F cnt"
    using build_freeable_spec [OF index_okD(1) [OF s1(1)]] unfolding e by auto
  have "index_ok (s1\<lparr>freeable_ids := Some ?F, blocked_freeable_children := cnt\<rparr>)"
    using tracked_store [OF s1(1), of cnt] cnt(2) unfolding e by simp
  moreover have "track_freeable s = (Inr (), s1\<lparr>freeable_ids := Some ?F, blocked_freeable_children := cnt\<rparr>)"
    using None cnt(1) by (simp add: track_freeable_def count_up_run op_simps s1_def [symmetric])
  ultimately show ?thesis using s1(2) by (simp add: same_blocks_def)
next
  case (Some F)
  with assms index_okD(3) [OF assms] show ?thesis by (simp add: track_freeable_def tracked_ok_def)
qed

lemma freeable_block_ids_run:
  assumes "index_ok s"
  shows "\<exists>s'. freeable_block_ids s = (Inr (freeable_spec (par_of s) (bad s)), s') \<and> index_ok s' \<and> same_blocks s s'"
proof (cases "fst (freeable_cache s) = capacity_epoch (epochs s)")
  case True
  then have "snd (freeable_cache s) = freeable_spec (par_of s) (bad s)"
    using index_okD(4) [OF assms] by (simp add: caches_ok_def cache_ok_def)
  with True show ?thesis using counters_ok [OF assms]
    by (simp add: freeable_block_ids_def count_up_run op_simps same_blocks_def)
next
  case False
  let ?F = "freeable_spec (par_of s) (bad s)"
  define s1 where "s1 = s\<lparr>counters := (counters s)\<lparr>freeable_snapshot_builds := freeable_snapshot_builds (counters s) + 1\<rparr>\<rparr>"
  have s1: "index_ok s1" "same_blocks s s1" using counters_ok [OF assms] by (simp_all add: s1_def same_blocks_def)
  obtain s2 where s2: "track_freeable s1 = (Inr (), s2)" "index_ok s2" "same_blocks s1 s2" "freeable_ids s2 = Some ?F"
    using track_freeable_run [OF s1(1)] unfolding same_blocksD [OF s1(2)] by blast
  have e: "par_of s2 = par_of s" "bad s2 = bad s" using same_blocksD [OF same_blocks_trans [OF s1(2) s2(3)]] by simp_all
  let ?s3 = "s2\<lparr>freeable_cache := (capacity_epoch (epochs s2), ?F)\<rparr>"
  have "index_ok ?s3" using freeable_cache_store [OF s2(2)] unfolding e .
  moreover have "same_blocks s ?s3" using same_blocks_trans [OF s1(2) s2(3)] by (simp add: same_blocks_def)
  moreover have "freeable_block_ids s = (Inr ?F, ?s3)"
    using False s2(1,4) by (simp add: freeable_block_ids_def count_up_run op_simps s1_def [symmetric])
  ultimately show ?thesis by blast
qed

lemma leaf_scan:
  assumes "linked_ok s"
  shows "{b \<in> set (leaf_block_ids (backend s)). case get_block s b of None \<Rightarrow> False | Some blk \<Rightarrow> \<not> locally_blocked blk}
    = evictable_spec s"
  using tree.leaves_law [OF linked_okD(2) [OF assms]] by (auto simp: evictable_spec_def bad_def split: option.splits)

lemma evictable_block_ids_run:
  assumes "index_ok s"
  shows "\<exists>s'. evictable_block_ids s = (Inr (evictable_spec s), s') \<and> index_ok s' \<and> same_blocks s s'"
proof -
  note d = index_okD [OF assms]
  show ?thesis
  proof (cases "fst (evictable_cache s) = capacity_epoch (epochs s)")
    case True
    then have "snd (evictable_cache s) = evictable_spec s" using d(4) by (simp add: caches_ok_def cache_ok_def)
    with True show ?thesis using counters_ok [OF assms]
      by (simp add: evictable_block_ids_def count_up_run op_simps same_blocks_def)
  next
    case False
    define s1 where "s1 = s\<lparr>counters := (counters s)\<lparr>evictable_scans := evictable_scans (counters s) + 1\<rparr>\<rparr>"
    have s1: "index_ok s1" "same_blocks s s1" using counters_ok [OF assms] by (simp_all add: s1_def same_blocks_def)
    have "evictable_spec s1 = evictable_spec s" using same_blocksD [OF s1(2)] by (simp add: evictable_spec_def)
    then have "evictable_block_ids s = (Inr (evictable_spec s),
        s1\<lparr>evictable_cache := (capacity_epoch (epochs s1), evictable_spec s1)\<rparr>)"
      using False leaf_scan [OF index_okD(1) [OF s1(1)]]
      by (simp add: evictable_block_ids_def count_up_run op_simps s1_def [symmetric])
    with evictable_cache_store [OF s1(1)] s1(2) show ?thesis by (simp add: same_blocks_def)
  qed
qed

lemma freeable_block_ids_keeps [keeps_intro]: "keeps index_ok freeable_block_ids"
  using freeable_block_ids_run by (fastforce intro: keepsI)

lemma evictable_block_ids_keeps [keeps_intro]: "keeps index_ok evictable_block_ids"
  using evictable_block_ids_run by (fastforce intro: keepsI)

end
