(* ===== verification/Prefix_Commit.thy ===== *)
theory Prefix_Commit
  imports Prefix_Freeable
begin

text \<open>
  Insertion and removal of blocks keep the invariant of the prefix index on every branch,
  exceptions included, and change exactly one block; eviction takes exactly the freeable
  leaves it is asked for, in priority order.
\<close>

section \<open>Removal\<close>

lemma check_remove_spec:
  assumes "linked_ok s"
  shows "check_remove b s = Inr a \<longleftrightarrow> live_block s b = Some a \<and> b \<in> evictable_spec s"
proof (cases "live_block s b")
  case None
  then show ?thesis by (simp add: check_remove_def)
next
  case (Some a')
  have dom: "b \<in> dom (par_of s)" using Some live_par [OF assms] by blast
  have cc: "child_count b (backend s) = Inr (card (kids_of (par_of s) b))"
    by (rule tree.count_law [OF linked_okD(2) [OF assms] dom])
  have "card (kids_of (par_of s) b) = 0 \<longleftrightarrow> kids_of (par_of s) b = {}"
    using tree.finite_kids [OF linked_okD(2) [OF assms]] by simp
  moreover have "bad s b = locally_blocked (objs s a')" by (rule bad_same [OF assms Some])
  ultimately show ?thesis using Some dom
    by (auto simp: check_remove_def Let_def cc evictable_spec_def locally_blocked_def)
qed

lemma unregister_run:
  assumes "linked_ok s" "tracked_ok s" "b \<in> evictable_spec s"
    and s1: "freeable_ids s1 = freeable_ids s" "blocked_freeable_children s1 = blocked_freeable_children s"
  shows "\<exists>F cnt. unregister_freeable b q s1 = (Inr (), s1\<lparr>freeable_ids := F, blocked_freeable_children := cnt\<rparr>)
    \<and> (case F of None \<Rightarrow> True | Some F' \<Rightarrow> F' = freeable_spec (par_of s) (bad s) - {b}
        \<and> counts_ok ((par_of s)(b := None)) F' cnt)"
proof (cases "freeable_ids s")
  case None
  then have "unregister_freeable b q s1 = (Inr (), s1\<lparr>freeable_ids := None, blocked_freeable_children := blocked_freeable_children s1\<rparr>)"
    using s1 by (simp add: unregister_freeable_def)
  then show ?thesis by (intro exI [of _ None] exI [of _ "blocked_freeable_children s1"]) simp
next
  case (Some F)
  let ?cnt = "blocked_freeable_children s"
  have F: "F = freeable_spec (par_of s) (bad s)" "counts_ok (par_of s) F ?cnt"
    using assms(2) Some by (auto simp: tracked_ok_def)
  have b: "b \<in> dom (par_of s)" "kids_of (par_of s) b = {}" "\<not> bad s b" using assms(3) by (auto simp: evictable_spec_def)
  have bF: "b \<in> F" using forest.leaf_freeable [OF linked_okD(2) [OF assms(1)] b(1,2)] b(3) F(1) by simp
  have cb: "?cnt b \<noteq> None" using counts_okD [OF F(2) b(1)] by simp
  have run: "unregister_freeable b q s1 =
      (Inr (), s1\<lparr>freeable_ids := Some (F - {b}), blocked_freeable_children := ?cnt(b := None)\<rparr>)"
    using Some s1 bF cb by (auto simp: unregister_freeable_def Let_def split: option.splits)
  have "kids_of ((par_of s)(b := None)) x - (F - {b}) = kids_of (par_of s) x - F" for x
    using bF by (auto simp: kids_remove_leaf)
  then have "counts_ok ((par_of s)(b := None)) (F - {b}) (?cnt(b := None))"
    using F(2) by (auto simp: counts_ok_def)
  with run F(1) show ?thesis
    by (intro exI [of _ "Some (F - {b})"] exI [of _ "?cnt(b := None)"]) simp
qed

lemma get_block_delete: "get_block (s\<lparr>blocks := AList.delete b (blocks s)\<rparr>) = (get_block s)(b := None)"
  by (auto simp: get_block_def dict_simps fun_eq_iff)

lemma remove_run:
  assumes ok: "index_ok s" and b: "b \<in> evictable_spec s"
  shows "\<exists>a s'. live_block s b = Some a \<and> remove_block_from_index b s = (Inr a, s') \<and> index_ok s'
    \<and> par_of s' = (par_of s)(b := None) \<and> blocks s' = AList.delete b (blocks s) \<and> objs s' = objs s
    \<and> max_blocks s' = max_blocks s"
proof -
  note d = index_okD [OF ok]
  note l = linked_okD [OF d(1)]
  have bd: "b \<in> dom (par_of s)" "kids_of (par_of s) b = {}" "\<not> bad s b" using b by (auto simp: evictable_spec_def)
  obtain a where a: "live_block s b = Some a" using live_par [OF d(1)] bd(1) by blast
  have chk: "check_remove b s = Inr a" using check_remove_spec [OF d(1)] a b by blast
  obtain bk where bk: "remove_block b (backend s) = Inr bk" "radix_ok bk" "tree_parent bk = (par_of s)(b := None)"
    using tree.remove_law [OF l(2) bd(1,2)] by blast
  define s1 where "s1 = s\<lparr>backend := bk, blocks := AList.delete b (blocks s)\<rparr>"
  obtain F cnt where un: "unregister_freeable b (parent_block_id (objs s a)) s1 =
        (Inr (), s1\<lparr>freeable_ids := F, blocked_freeable_children := cnt\<rparr>)"
      "case F of None \<Rightarrow> True | Some F' \<Rightarrow> F' = freeable_spec (par_of s) (bad s) - {b}
        \<and> counts_ok ((par_of s)(b := None)) F' cnt"
    using unregister_run [OF d(1,3) b, of s1 "parent_block_id (objs s a)"] by (simp add: s1_def) blast
  have mem: "membership_ok (membership s)" "b \<in> membership_ids (membership s)"
    using d(5) a by (auto simp: routing_ok_def)
  obtain m where m: "membership_remove (membership s) b = Inr m" "membership_ok m"
      "membership_ids m = membership_ids (membership s) - {b}"
    using rset.rem_old [OF mem] by blast
  define s2 where "s2 = s1\<lparr>freeable_ids := F, blocked_freeable_children := cnt, membership := m, snapshot := None\<rparr>"
  define s3 where "s3 = s2\<lparr>epochs := (epochs s2)\<lparr>remove_epoch := remove_epoch (epochs s2) + 1,
     lookup_epoch := lookup_epoch (epochs s2) + 1\<rparr>\<rparr>"
  have run: "remove_block_from_index b s = (Inr a, bump_capacity s3)"
    using chk bk(1) un(1) m(1)
    by (simp add: remove_block_from_index_def op_simps s1_def [symmetric] record_routing_remove_def
        mark_removed_def mark_capacity_run s2_def s3_def) (simp add: s1_def op_simps mark_capacity_run)
  have gb: "get_block s3 = (get_block s)(b := None)"
    using get_block_delete [of b s] by (simp add: s3_def s2_def s1_def get_block_def fun_eq_iff)
  have badx: "bad s3 x = bad s x" if "x \<noteq> b" for x using that by (simp add: bad_def gb)
  have fields: "backend s3 = bk" "blocks s3 = AList.delete b (blocks s)" "objs s3 = objs s" "membership s3 = m"
    "snapshot s3 = None" "freeable_ids s3 = F" "blocked_freeable_children s3 = cnt" "max_blocks s3 = max_blocks s"
    by (simp_all add: s3_def s2_def s1_def)
  have "linked_ok s3"
    unfolding linked_ok_def gb fields bk(3) using l bk(2) by (auto simp: dict_simps split: if_splits)
  moreover have "resident_ok s3"
    using d(2) unfolding resident_ok_def gb by (auto split: if_splits)
  moreover have "caches_le s3"
    using index_base [OF ok] by (simp add: base_ok_def caches_le_def s3_def s2_def s1_def)
  moreover have "routing_ok s3"
    using m(2,3) d(5) by (auto simp: routing_ok_def fields dict_simps)
  moreover have "sized_ok s3"
    using d(6) length_delete_present [OF l(1) a] by (fastforce simp: sized_ok_def s3_def s2_def s1_def)
  ultimately have base: "base_ok s3" by (simp add: base_ok_def)
  have "freeable_spec ((par_of s)(b := None)) (bad s3) = freeable_spec ((par_of s)(b := None)) (bad s)"
    by (rule freeable_spec_cong) (auto simp: badx split: if_splits)
  then have "freeable_spec (par_of s3) (bad s3) = freeable_spec (par_of s) (bad s) - {b}"
    using freeable_remove_leaf [OF bd(2), of "bad s"] bd(3) by (simp add: fields bk(3))
  then have "tracked_ok s3" using un(2) by (auto simp: tracked_ok_def fields bk(3) split: option.splits)
  from bump_capacity_ok [OF base this] run a fields bk(3) show ?thesis
    by (auto simp: bump_capacity_def)
qed

lemma remove_refused:
  assumes "linked_ok s" "b \<notin> evictable_spec s"
  shows "\<exists>e. remove_block_from_index b s = (Inl e, s)"
proof -
  obtain e where "check_remove b s = Inl e"
    using check_remove_spec [OF assms(1)] assms(2) by (cases "check_remove b s") auto
  then show ?thesis by (simp add: remove_block_from_index_def op_simps)
qed

lemma remove_keeps [keeps_intro]: "keeps index_ok (remove_block_from_index b)"
proof (rule keepsI)
  fix s :: "'a prefix_index"
  assume ok: "index_ok s"
  show "index_ok (snd (remove_block_from_index b s))"
    using remove_run [OF ok, of b] remove_refused [OF index_okD(1) [OF ok], of b] ok
    by (cases "b \<in> evictable_spec s") auto
qed

lemma rollback_keeps [keeps_intro]: "keeps index_ok (rollback_inserted_leaf a)"
  unfolding rollback_inserted_leaf_def by (intro keeps_intro)

section \<open>Insertion\<close>

lemma refresh_linked:
  assumes "linked_ok s" "tracked_but b s" "b \<in> dom (par_of s)"
  shows "\<exists>F cnt. refresh_freeable_path (Some b) s = (Inr (), s\<lparr>freeable_ids := F, blocked_freeable_children := cnt\<rparr>)
    \<and> tracked_ok (s\<lparr>freeable_ids := F, blocked_freeable_children := cnt\<rparr>) \<and> (F = None \<longleftrightarrow> freeable_ids s = None)"
proof (cases "freeable_ids s")
  case None
  then show ?thesis
    by (intro exI [of _ None] exI [of _ "blocked_freeable_children s"]) (simp add: refresh_freeable_path_def tracked_ok_def)
next
  case (Some F)
  obtain F' cnt' where "refresh_freeable_path (Some b) s = (Inr (), s\<lparr>freeable_ids := Some F', blocked_freeable_children := cnt'\<rparr>)"
    "F' = freeable_spec (par_of s) (bad s)" "counts_ok (par_of s) F' cnt'"
    using refresh_path_spec [OF assms(1) Some _ assms(3)] assms(2) Some by (auto simp: tracked_but_def)
  then show ?thesis using Some
    by (intro exI [of _ "Some F'"] exI [of _ cnt']) (simp add: tracked_ok_def)
qed

lemma tracked_frame:
  assumes "linked_ok s" "tracked_ok s" "\<And>p. q = Some p \<Longrightarrow> p \<in> dom (par_of s)"
  shows "\<exists>F cnt. refresh_freeable_path q s = (Inr (), s\<lparr>freeable_ids := F, blocked_freeable_children := cnt\<rparr>)
    \<and> tracked_ok (s\<lparr>freeable_ids := F, blocked_freeable_children := cnt\<rparr>)"
proof (cases q)
  case None
  with assms show ?thesis
    by (intro exI [of _ "freeable_ids s"] exI [of _ "blocked_freeable_children s"]) (simp add: refresh_freeable_path_def)
next
  case (Some p)
  with refresh_linked [OF assms(1) tracked_weaken [OF assms(1,2)]] assms(3) show ?thesis by blast
qed

text \<open>The set and counters right after the new block has been linked, before it is registered.\<close>

lemma register_run:
  assumes s: "linked_ok s" "tracked_ok s" and b: "b \<notin> dom (par_of s)"
    and l1: "linked_ok s1" and par1: "par_of s1 = (par_of s)(b \<mapsto> q)" and q: "\<And>p. q = Some p \<Longrightarrow> p \<in> dom (par_of s)"
    and same: "freeable_ids s1 = freeable_ids s" "blocked_freeable_children s1 = blocked_freeable_children s"
      "\<And>x. x \<noteq> b \<Longrightarrow> bad s1 x = bad s x"
  shows "\<exists>F cnt. register_freeable b q s1 = (Inr (), s1\<lparr>freeable_ids := F, blocked_freeable_children := cnt\<rparr>)
    \<and> tracked_ok (s1\<lparr>freeable_ids := F, blocked_freeable_children := cnt\<rparr>)"
proof (cases "freeable_ids s")
  case None
  then show ?thesis using same
    by (intro exI [of _ None] exI [of _ "blocked_freeable_children s1"]) (simp add: register_freeable_def tracked_ok_def)
next
  case (Some F)
  note rok = linked_okD(2) [OF s(1)]
  have F: "F = freeable_spec (par_of s) (bad s)" "counts_ok (par_of s) F (blocked_freeable_children s)"
    using s(2) Some by (auto simp: tracked_ok_def)
  define cnt1 where "cnt1 = (case q of None \<Rightarrow> (blocked_freeable_children s)(b \<mapsto> 0)
    | Some p \<Rightarrow> (blocked_freeable_children s)(b \<mapsto> 0, p \<mapsto> the (blocked_freeable_children s p) + 1))"
  define s2 where "s2 = s1\<lparr>blocked_freeable_children := cnt1\<rparr>"
  have bF: "b \<notin> F" using b F(1) freeable_spec_subset [of "par_of s" "bad s"] by blast
  have qb: "q \<noteq> Some b" using q b by blast
  have kids: "kids_of (par_of s1) x = (if q = Some x then insert b (kids_of (par_of s) x) else kids_of (par_of s) x)" for x
    unfolding par1 by (rule kids_add_leaf [OF b])
  have nokids: "kids_of (par_of s) b = {}"
    using forest.parent_present [OF rok, of _ b] b by (auto simp: kids_of_def)
  have old: "right_at (par_of s) (bad s) F x" if "x \<in> dom (par_of s)" for x
    using forest.freeable_right [OF rok that] F(1) by simp
  have dom1: "dom (par_of s1) = insert b (dom (par_of s))" by (auto simp: par1)
  have linked2: "linked_ok s2" using l1 linked_frame [of s2 s1] by (simp add: s2_def)
  have bad2: "bad s2 = bad s1" by (simp add: s2_def)
  have c1: "counts_ok (par_of s1) F cnt1"
  proof -
    have "cnt1 x = (if x \<in> dom (par_of s1) then Some (int (card (kids_of (par_of s1) x - F))) else None)" for x
    proof (cases "q = Some x")
      case True
      then have x: "x \<in> dom (par_of s)" "x \<noteq> b" using q b by auto
      have "kids_of (par_of s1) x - F = insert b (kids_of (par_of s) x - F)" using kids True bF by auto
      moreover have "b \<notin> kids_of (par_of s) x" using b by (auto simp: kids_of_def parent_step_def)
      ultimately show ?thesis using True x dom1 counts_okD [OF F(2) x(1)] forest.kids_finite [OF rok]
        by (simp add: cnt1_def)
    next
      case False
      then have "kids_of (par_of s1) x = kids_of (par_of s) x" by (simp add: kids)
      with False F(2) nokids dom1 show ?thesis
        by (auto simp: cnt1_def counts_ok_def split: option.splits)
    qed
    moreover have "F \<subseteq> dom (par_of s1)" using F(2) dom1 by (auto simp: counts_ok_def)
    ultimately show ?thesis by (simp add: counts_ok_def)
  qed
  have other: "right_at (par_of s1) (bad s1) F x" if "x \<in> dom (par_of s1)" "x \<noteq> b" "q \<noteq> Some x" for x
    using old [of x] that same(3) [of x] dom1 by (auto simp: right_at_def kids)
  have reg: "register_freeable b q s1 = oseq (refresh_freeable_path (Some b)) (refresh_freeable_path q) s2"
  proof (cases q)
    case None
    then show ?thesis using Some same by (simp add: register_freeable_def op_simps s2_def cnt1_def)
  next
    case (Some p)
    then obtain n where "blocked_freeable_children s p = Some n" using counts_okD [OF F(2) q] by blast
    with Some \<open>freeable_ids s = Some F\<close> same qb show ?thesis
      by (simp add: register_freeable_def op_simps s2_def cnt1_def)
  qed
  obtain a where a: "live_block s2 b = Some a" using live_par [OF linked2, of b] dom1 by (auto simp: s2_def)
  have badb: "locally_blocked (objs s2 a) = bad s1 b" using bad_same [OF linked2 a] bad2 by simp
  have par2: "par_of s2 = par_of s1" "freeable_ids s2 = Some F" "blocked_freeable_children s2 = cnt1"
    by (simp_all add: s2_def same Some)
  have par_a: "parent_block_id (objs s2 a) = q"
    using linked_okD(5) [OF linked2 live_block_get [OF a]] par1 by (simp add: s2_def)
  have cb: "cnt1 b = Some 0" using c1 kids [of b] qb nokids dom1 by (simp add: counts_ok_def)
  show ?thesis
  proof (cases "bad s1 b")
    case True
    have run: "refresh_freeable_path (Some b) s2 = (Inr (), s2)"
      using True a badb cb bF by (simp add: refresh_freeable_path_def par2)
    have rb: "right_at (par_of s1) (bad s1) F b" using True bF by (simp add: right_at_def)
    show ?thesis
    proof (cases q)
      case None
      then have "\<And>x. x \<in> dom (par_of s1) \<Longrightarrow> right_at (par_of s1) (bad s1) F x" using other rb by fastforce
      then have "F = freeable_spec (par_of s1) (bad s1)"
        using c1 by (intro forest.right_unique [OF linked_okD(2) [OF l1]]) (auto simp: counts_ok_def)
      then have "tracked_ok s2" using c1 by (simp add: tracked_ok_def par2 bad2)
      with tracked_frame [OF linked2, of q] None run reg show ?thesis by (auto simp: op_simps s2_def)
    next
      case (Some p)
      have "tracked_but p s2"
        using c1 other rb Some by (auto simp: tracked_but_def par2 bad2)
      from refresh_linked [OF linked2 this] q [OF Some] dom1 Some run reg show ?thesis
        by (auto simp: op_simps s2_def)
    qed
  next
    case False
    define F2 where "F2 = insert b F"
    define cnt2 where "cnt2 = (case q of None \<Rightarrow> cnt1 | Some p \<Rightarrow> cnt1(p \<mapsto> the (cnt1 p) - 1))"
    define s3 where "s3 = s2\<lparr>freeable_ids := Some F2, blocked_freeable_children := cnt2\<rparr>"
    have c2: "counts_ok (par_of s1) F2 cnt2"
      using forest.counts_insert [OF linked_okD(2) [OF l1] c1 _ bF] dom1 par1 by (simp add: F2_def cnt2_def)
    have right2: "right_at (par_of s1) (bad s1) F2 x" if "x \<in> dom (par_of s1)" for x
    proof (cases "x = b")
      case True
      then show ?thesis using False kids [of b] qb nokids by (simp add: right_at_def F2_def)
    next
      case xb: False
      have "b \<notin> kids_of (par_of s) x" using b by (auto simp: kids_of_def parent_step_def)
      then have "kids_of (par_of s1) x \<subseteq> F2 \<longleftrightarrow> kids_of (par_of s) x \<subseteq> F" by (auto simp: kids F2_def)
      moreover have "x \<in> F2 \<longleftrightarrow> x \<in> F" using xb by (simp add: F2_def)
      ultimately show ?thesis using old [of x] xb that dom1 same(3) [OF xb] by (simp add: right_at_def)
    qed
    have "F2 = freeable_spec (par_of s1) (bad s1)"
      using c2 right2 by (intro forest.right_unique [OF linked_okD(2) [OF l1]]) (auto simp: counts_ok_def)
    then have t3: "tracked_ok s3" "linked_ok s3"
      using c2 linked2 linked_frame [of s3 s2] by (simp_all add: tracked_ok_def s3_def par2 bad2)
    have "\<exists>F' cnt'. refresh_freeable_path (Some b) s2 = (Inr (), s3\<lparr>freeable_ids := F', blocked_freeable_children := cnt'\<rparr>)
      \<and> tracked_ok (s3\<lparr>freeable_ids := F', blocked_freeable_children := cnt'\<rparr>)"
    proof (cases q)
      case None
      then have "refresh_freeable_path (Some b) s2 = (Inr (), s3)"
        using False a badb cb bF par_a by (simp add: refresh_freeable_path_def par2 s3_def F2_def cnt2_def)
      with t3 show ?thesis
        by (intro exI [of _ "freeable_ids s3"] exI [of _ "blocked_freeable_children s3"]) simp
    next
      case (Some p)
      have pd: "p \<in> dom (par_of s1)" using q [OF Some] dom1 by simp
      have run: "refresh_freeable_path (Some b) s2 = refresh_loop (length (blocks s2)) (Some p) s3"
        using False a badb cb bF par_a Some counts_okD [OF c1 pd]
        by (simp add: refresh_freeable_path_def par2 s3_def F2_def cnt2_def)
      have st: "parent_step (par_of s1) b p" using Some by (simp add: parent_step_def par1)
      have "card (dom (par_of s1)) = length (blocks s1)" using linked_okD(1,3) [OF l1] length_dict by metis
      then have "height_of (par_of s3) p \<le> length (blocks s2)"
        using forest.height_parent [OF linked_okD(2) [OF l1] st] forest.height_le [OF linked_okD(2) [OF l1], of b]
        by (simp add: s3_def s2_def)
      moreover have "bad s3 = bad s1" "par_of s3 = par_of s1" "freeable_ids s3 = Some F2"
        "blocked_freeable_children s3 = cnt2" by (simp_all add: s3_def bad2 par2)
      ultimately show ?thesis
        using refresh_loop_spec [OF t3(2), of F2 p "length (blocks s2)"] c2 right2 pd run
        by (fastforce simp: tracked_ok_def)
    qed
    then obtain F' cnt' where r1: "refresh_freeable_path (Some b) s2 = (Inr (), s3\<lparr>freeable_ids := F', blocked_freeable_children := cnt'\<rparr>)"
      "tracked_ok (s3\<lparr>freeable_ids := F', blocked_freeable_children := cnt'\<rparr>)" by blast
    let ?s4 = "s3\<lparr>freeable_ids := F', blocked_freeable_children := cnt'\<rparr>"
    have "linked_ok ?s4" using t3(2) linked_frame [of ?s4 s3] by simp
    from tracked_frame [OF this r1(2), of q] q dom1 r1(1) reg show ?thesis
      by (auto simp: op_simps s3_def s2_def)
  qed
qed

text \<open>
  A blocked block below a blocked parent (or the root) changes neither the freeable nor the
  evictable set, which is why such an insertion keeps the capacity epoch.
\<close>

lemma freeable_add_blocked:
  assumes ok: "radix_ok bk" "radix_ok bk1" and par: "tree_parent bk1 = (tree_parent bk)(b \<mapsto> q)"
    and b: "b \<notin> dom (tree_parent bk)" and bad: "bad1 b" "\<And>x. x \<noteq> b \<Longrightarrow> bad1 x = bad0 x"
    and q: "\<And>p. q = Some p \<Longrightarrow> bad0 p"
  shows "freeable_spec (tree_parent bk1) bad1 = freeable_spec (tree_parent bk) bad0" (is "_ = ?F")
proof (rule forest.right_unique [OF ok(2), symmetric])
  have sub: "?F \<subseteq> dom (tree_parent bk)" by (rule freeable_spec_subset)
  then show "?F \<subseteq> dom (tree_parent bk1)" by (auto simp: par)
  fix x
  assume x: "x \<in> dom (tree_parent bk1)"
  have notF: "y \<notin> ?F" if "bad0 y" for y using that by (auto simp: freeable_spec_def)
  show "right_at (tree_parent bk1) bad1 ?F x"
  proof (cases "x = b")
    case True
    then show ?thesis using sub b bad(1) by (auto simp: right_at_def)
  next
    case False
    then have xd: "x \<in> dom (tree_parent bk)" using x by (auto simp: par)
    show ?thesis
    proof (cases "q = Some x")
      case True
      then show ?thesis using notF q bad(2) [OF False] by (simp add: right_at_def)
    next
      case nq: False
      then have "kids_of (tree_parent bk1) x = kids_of (tree_parent bk) x" by (simp add: par kids_add_leaf [OF b])
      with forest.freeable_right [OF ok(1) xd, of bad0] bad(2) [OF False] show ?thesis by (simp add: right_at_def)
    qed
  qed
qed

lemma evictable_add_blocked:
  assumes "b \<notin> dom par" "bad1 b" "\<And>x. x \<noteq> b \<Longrightarrow> bad1 x = bad0 x" "\<And>p. q = Some p \<Longrightarrow> bad0 p"
  shows "{x \<in> dom (par(b \<mapsto> q)). kids_of (par(b \<mapsto> q)) x = {} \<and> \<not> bad1 x} = {x \<in> dom par. kids_of par x = {} \<and> \<not> bad0 x}"
proof -
  have "x \<in> dom (par(b \<mapsto> q)) \<and> kids_of (par(b \<mapsto> q)) x = {} \<and> \<not> bad1 x
      \<longleftrightarrow> x \<in> dom par \<and> kids_of par x = {} \<and> \<not> bad0 x" for x
    using assms(1,2) assms(3) [of x] assms(4) [of x] by (cases "x = b") (auto simp: kids_add_leaf [OF assms(1)])
  then show ?thesis by blast
qed

lemma get_block_insert: "get_block (s\<lparr>blocks := AList.update b a (blocks s)\<rparr>) = (get_block s)(b \<mapsto> objs s a)"
  by (auto simp: get_block_def dict_simps fun_eq_iff)

definition touched :: "addr \<Rightarrow> 'p prefix_index \<Rightarrow> 'p prefix_index" where
  "touched a s = update_block a (\<lambda>blk. blk\<lparr>last_access := clock s + 1\<rparr>) (s\<lparr>clock := clock s + 1\<rparr>)"

lemma touch_run: "touch a s = (Inr (), touched a s)"
  by (simp add: touch_def tick_def op_simps touched_def)

lemma touched_core: "linked_ok s \<Longrightarrow> core_eq s (touched a s)"
proof -
  assume l: "linked_ok s"
  have e: "core_eq s (s\<lparr>clock := clock s + 1\<rparr>)" by (simp add: core_eq_def)
  have "core_eq (s\<lparr>clock := clock s + 1\<rparr>) (touched a s)"
    unfolding touched_def by (rule touch_core [OF core_linked [OF e l]]) (simp add: core_def)
  with e show ?thesis by (simp add: core_eq_def)
qed

lemma touched_objs: "objs (touched a s) = (objs s)(a := (objs s a)\<lparr>last_access := clock s + 1\<rparr>)"
  by (simp add: touched_def)

lemma touched_fields [simp]: "blocks (touched a s) = blocks s" "backend (touched a s) = backend s" "max_blocks (touched a s) = max_blocks s"
  by (simp_all add: touched_def)

lemma touch_keeps [keeps_intro]: "keeps index_ok (touch a)"
  using core_index [OF touched_core [OF index_okD(1)]] by (auto simp: keeps_def touch_run)

lemma touch_chain_keeps [keeps_intro]: "keeps index_ok (touch_chain as)"
proof -
  have "keeps index_ok (writes (update_block a (\<lambda>blk. blk\<lparr>last_access := n\<rparr>)))" for a n
    by (rule keeps_writes, rule core_index, rule touch_core) (auto simp: core_def index_okD)
  then show ?thesis unfolding touch_chain_def by (intro keeps_intro)
qed

lemma check_parent_ok:
  assumes "linked_ok s" "check_insert_parent blk s = Inr ()" "parent_block_id blk = Some p"
  obtains pb where "get_block s p = Some pb" "p \<in> dom (par_of s)"
    "device_present (residency blk) \<Longrightarrow> device_present (residency pb)"
    "host_present (residency blk) \<Longrightarrow> host_present (residency pb)"
proof -
  obtain pb where pb: "get_block s p = Some pb" "device_present (residency blk) \<longrightarrow> device_present (residency pb)"
    "host_present (residency blk) \<longrightarrow> host_present (residency pb)"
    using assms(2,3) by (auto simp: check_insert_parent_def split: option.splits if_splits)
  moreover have "p \<in> dom (par_of s)" using linked_okD(5) [OF assms(1) pb(1)] by blast
  ultimately show ?thesis by (intro that) auto
qed

text \<open>The state after the new block is linked into the dictionary and the tree.\<close>

lemma link_block:
  assumes ok: "index_ok s" and b: "b = block_key (objs s a)" "b \<notin> dom (live_block s)"
    and chk: "check_insert_parent (objs s a) s = Inr ()"
    and val: "residency_validate (residency (objs s a)) = Inr ()" "0 \<le> ref_count (objs s a)"
    and s1: "s1 = (touched a s)\<lparr>blocks := AList.update b a (blocks s), backend := bk\<rparr>"
    and bk: "radix_ok bk" "tree_parent bk = (par_of s)(b \<mapsto> parent_block_id (objs s a))"
  shows "linked_ok s1" "resident_ok s1" "\<And>x. x \<noteq> b \<Longrightarrow> bad s1 x = bad s x" "bad s1 b = locally_blocked (objs s a)"
proof -
  note d = index_okD [OF ok]
  let ?t = "touched a s"
  have e: "core_eq s ?t" by (rule touched_core [OF d(1)])
  note lt = core_linked [OF e d(1)] and rt = core_resident [OF e d(2)]
  have new: "objs ?t a = (objs s a)\<lparr>last_access := clock s + 1\<rparr>" by (simp add: touched_objs)
  have gb: "get_block s1 = (get_block ?t)(b \<mapsto> objs ?t a)"
    using get_block_insert [of b a ?t] by (simp add: s1 get_block_def fun_eq_iff)
  have blk: "block_key (objs ?t a) = b" "parent_block_id (objs ?t a) = parent_block_id (objs s a)"
    "residency (objs ?t a) = residency (objs s a)" "ref_count (objs ?t a) = ref_count (objs s a)"
    "locally_blocked (objs ?t a) = locally_blocked (objs s a)"
    by (simp_all add: new b(1) locally_blocked_def)
  have none: "get_block ?t b = None" using b(2) by (simp add: get_block_def domIff)
  have dom: "dom (par_of s) = dom (live_block s)" "par_of ?t = par_of s" using linked_okD(3) [OF d(1)] by simp_all
  have "block_key blk' = x \<and> tree_parent bk x = Some (parent_block_id blk')" if "get_block s1 x = Some blk'" for x blk'
    using that blk linked_okD(4,5) [OF lt, of x] by (cases "x = b") (auto simp: gb bk(2))
  moreover have "dom (tree_parent bk) = dom (live_block s1)"
    using dom by (simp add: bk(2) s1 dict_simps)
  ultimately show "linked_ok s1"
    unfolding linked_ok_def using linked_okD(1) [OF d(1)] bk(1) by (simp add: s1)
  show "bad s1 x = bad s x" if "x \<noteq> b" for x
  proof -
    have "bad s1 x = bad ?t x" using that by (simp add: bad_def gb)
    then show ?thesis using core_bad [OF e] by simp
  qed
  show "bad s1 b = locally_blocked (objs s a)" using blk(5) by (simp add: bad_def gb)
  have parb: "parent_block_id kb \<noteq> Some b" if "get_block ?t k = Some kb" for k kb
  proof
    assume "parent_block_id kb = Some b"
    then have "parent_step (par_of s) k b" using linked_okD(5) [OF lt that] dom by (simp add: parent_step_def)
    then show False using forest.parent_present [OF linked_okD(2) [OF d(1)]] b(2) dom by blast
  qed
  have selfb: "parent_block_id (objs s a) \<noteq> Some b"
    using check_parent_ok [OF d(1) chk, of b] b(2) dom by blast
  show "resident_ok s1"
    unfolding resident_ok_def
  proof (intro allI impI)
    fix x blk'
    assume x: "get_block s1 x = Some blk'"
    have up: "(device_present (residency blk') \<longrightarrow> device_present (residency pb))
        \<and> (host_present (residency blk') \<longrightarrow> host_present (residency pb))"
      if h: "parent_block_id blk' = Some p" "get_block s1 p = Some pb" for p pb
    proof (cases "x = b")
      case True
      then have b': "blk' = objs ?t a" using x by (simp add: gb)
      then have pa: "parent_block_id (objs s a) = Some p" using h(1) blk(2) by simp
      then obtain pb0 where pb0: "get_block s p = Some pb0"
        "device_present (residency (objs s a)) \<Longrightarrow> device_present (residency pb0)"
        "host_present (residency (objs s a)) \<Longrightarrow> host_present (residency pb0)"
        using check_parent_ok [OF d(1) chk pa] by blast
      have "p \<noteq> b" using selfb pa by auto
      then have "get_block ?t p = Some pb" using h(2) by (simp add: gb)
      then obtain y where "get_block s p = Some y" "core pb = core y" using core_get [OF e] by blast
      with pb0 b' blk(3) show ?thesis by (simp add: core_def)
    next
      case False
      then have xt: "get_block ?t x = Some blk'" using x by (simp add: gb)
      then have "p \<noteq> b" using parb h(1) by blast
      then have "get_block ?t p = Some pb" using h(2) by (simp add: gb)
      with rt xt h(1) show ?thesis unfolding resident_ok_def by blast
    qed
    have "0 \<le> ref_count blk' \<and> residency_validate (residency blk') = Inr ()"
    proof (cases "x = b")
      case True
      with x blk val show ?thesis by (simp add: gb)
    next
      case False
      with x rt show ?thesis unfolding resident_ok_def by (simp add: gb)
    qed
    with up show "0 \<le> ref_count blk' \<and> residency_validate (residency blk') = Inr ()
      \<and> (\<forall>p pb. parent_block_id blk' = Some p \<and> get_block s1 p = Some pb \<longrightarrow>
          (device_present (residency blk') \<longrightarrow> device_present (residency pb))
          \<and> (host_present (residency blk') \<longrightarrow> host_present (residency pb)))" by blast
  qed
qed

definition bump_insert :: "'p prefix_index \<Rightarrow> 'p prefix_index" where
  "bump_insert s = s\<lparr>epochs := (epochs s)\<lparr>insert_epoch := insert_epoch (epochs s) + 1,
     lookup_epoch := lookup_epoch (epochs s) + 1\<rparr>\<rparr>"

definition bump_mutation :: "'p prefix_index \<Rightarrow> 'p prefix_index" where
  "bump_mutation s = s\<lparr>epochs := (epochs s)\<lparr>mutation_epoch := mutation_epoch (epochs s) + 1\<rparr>\<rparr>"

lemma mark_inserted_run:
  "mark_inserted cc s = (Inr (), if cc then bump_capacity (bump_insert s) else bump_mutation (bump_insert s))"
  by (simp add: mark_inserted_def op_simps mark_capacity_run mark_mutated_def bump_insert_def bump_mutation_def)

lemma insert_new_run:
  assumes ok: "index_ok s" and key: "b = block_key (objs s a)" "b \<notin> dom (live_block s)"
    and cap: "\<not> over_capacity s" and chk: "check_insert_parent (objs s a) s = Inr ()"
    and val: "residency_validate (residency (objs s a)) = Inr ()" "0 \<le> ref_count (objs s a)"
  shows "\<exists>s'. insert_new_block a s = (Inr a, s') \<and> index_ok s'
    \<and> par_of s' = (par_of s)(b \<mapsto> parent_block_id (objs s a)) \<and> live_block s' = (live_block s)(b \<mapsto> a)
    \<and> objs s' = (objs s)(a := (objs s a)\<lparr>last_access := clock s + 1\<rparr>)"
proof -
  note d = index_okD [OF ok]
  let ?blk = "objs s a" let ?q = "parent_block_id ?blk"
  have nd: "b \<notin> dom (par_of s)" using key(2) linked_okD(3) [OF d(1)] by simp
  have qd: "p \<in> dom (par_of s)" if "?q = Some p" for p using check_parent_ok [OF d(1) chk that] by blast
  obtain bk where bk: "insert_child ?q b (backend s) = Inr bk" "radix_ok bk" "tree_parent bk = (par_of s)(b \<mapsto> ?q)"
    using tree.insert_law [OF linked_okD(2) [OF d(1)] nd qd] by blast
  define s1 where "s1 = (touched a s)\<lparr>blocks := AList.update b a (blocks s), backend := bk\<rparr>"
  note L = link_block [OF ok key chk val s1_def bk(2,3)]
  have par1: "par_of s1 = (par_of s)(b \<mapsto> ?q)" by (simp add: s1_def bk(3))
  have e: "core_eq s (touched a s)" by (rule touched_core [OF d(1)])
  obtain F cnt where reg: "register_freeable b ?q s1 = (Inr (), s1\<lparr>freeable_ids := F, blocked_freeable_children := cnt\<rparr>)"
    "tracked_ok (s1\<lparr>freeable_ids := F, blocked_freeable_children := cnt\<rparr>)"
  proof -
    have "freeable_ids s1 = freeable_ids s" "blocked_freeable_children s1 = blocked_freeable_children s"
      using e by (simp_all add: s1_def core_eq_def)
    from register_run [OF d(1,3) nd L(1) par1 qd this L(3)] that show ?thesis by blast
  qed
  have mem: "membership_ok (membership s)" "b \<notin> membership_ids (membership s)"
    using d(5) key(2) by (auto simp: routing_ok_def)
  obtain m where m: "membership_insert (membership s) b = Inr m" "membership_ok m"
      "membership_ids m = insert b (membership_ids (membership s))"
    using rset.ins_new [OF mem] by blast
  define s4 where "s4 = s1\<lparr>freeable_ids := F, blocked_freeable_children := cnt,
    counters := (counters s1)\<lparr>committed_blocks := committed_blocks (counters s1) + 1\<rparr>, membership := m, snapshot := None\<rparr>"
  define cc where "cc = (\<not> (locally_blocked ?blk \<and> (case parent_block s4 ?blk of None \<Rightarrow> True | Some pb \<Rightarrow> locally_blocked pb)))"
  have memt: "membership (s1\<lparr>freeable_ids := F, blocked_freeable_children := cnt\<rparr>) = membership s"
    using e by (simp add: s1_def core_eq_def)
  have run: "insert_new_block a s = (Inr a, snd (mark_inserted cc s4))"
    using cap chk bk(1) reg(1) m(1) memt
    by (simp add: insert_new_block_def op_simps touch_run key(1) [symmetric] s1_def [symmetric] count_up_def
        record_routing_insert_def s4_def cc_def mark_inserted_run)
  have same: "get_block (bump_insert s4) = get_block s1" "bad (bump_insert s4) = bad s1"
    "backend (bump_insert s4) = bk" "blocks (bump_insert s4) = AList.update b a (blocks s)"
    "objs (bump_insert s4) = objs (touched a s)"
    by (simp_all add: bump_insert_def s4_def) (simp_all add: s1_def)
  let ?s = "bump_insert s4"
  have base: "base_ok ?s"
  proof -
    have "linked_ok ?s" using L(1) linked_frame [of ?s s1] same by (simp add: s1_def)
    moreover have "resident_ok ?s" using L(2) resident_frame [of ?s s1] same by simp
    moreover have "caches_le ?s" using index_base [OF ok] e
      by (simp add: base_ok_def caches_le_def bump_insert_def s4_def s1_def core_eq_def)
    moreover have "routing_ok ?s" using m(2,3) d(5) by (simp add: routing_ok_def bump_insert_def s4_def s1_def dict_simps)
    moreover have "sized_ok ?s" using d(6) cap key(2) e
      by (auto simp: sized_ok_def over_capacity_def bump_insert_def s4_def s1_def length_update_new core_eq_def domIff
          split: option.splits)
    ultimately show ?thesis by (simp add: base_ok_def)
  qed
  have track: "tracked_ok ?s" using reg(2) same by (simp add: tracked_ok_def bump_insert_def s4_def cong: option.case_cong)
  have ix: "index_ok (snd (mark_inserted cc s4))"
  proof (cases cc)
    case True
    with bump_capacity_ok [OF base track] show ?thesis by (simp add: mark_inserted_run)
  next
    case False
    have bb: "bad s1 b" using False L(4) by (simp add: cc_def)
    have pb: "bad s p" if "?q = Some p" for p
    proof -
      obtain pb where pb: "get_block s p = Some pb" "p \<in> dom (par_of s)" using check_parent_ok [OF d(1) chk \<open>?q = Some p\<close>] by blast
      have "p \<noteq> b" using pb(2) nd by auto
      then have "bad s4 p = bad s p" using L(3) by (simp add: s4_def)
      moreover have "bad s4 p" using False that by (auto simp: cc_def parent_block_def bad_def split: option.splits)
      ultimately show ?thesis by simp
    qed
    have "freeable_spec (tree_parent bk) (bad s1) = freeable_spec (par_of s) (bad s)"
      using freeable_add_blocked [OF linked_okD(2) [OF d(1)] bk(2,3) nd, of "bad s1" "bad s"] bb L(3) pb by blast
    moreover have "evictable_spec ?s = evictable_spec s"
      using evictable_add_blocked [OF nd, of "bad s1" "bad s" ?q] bb L(3) pb unfolding evictable_spec_def same bk(3) by blast
    moreover have "freeable_cache ?s = freeable_cache s" "evictable_cache ?s = evictable_cache s"
      "capacity_epoch (epochs ?s) = capacity_epoch (epochs s)"
      using e by (simp_all add: bump_insert_def s4_def s1_def core_eq_def)
    ultimately have "caches_ok ?s" using d(4) by (simp add: caches_ok_def same)
    then have "index_ok ?s" using base track by (simp add: index_ok_def base_ok_def)
    moreover have "core_eq ?s (bump_mutation ?s)" by (simp add: core_eq_def bump_mutation_def)
    ultimately show ?thesis using False core_index by (auto simp: mark_inserted_run)
  qed
  have "backend (snd (mark_inserted cc s4)) = backend ?s" "blocks (snd (mark_inserted cc s4)) = blocks ?s"
    "objs (snd (mark_inserted cc s4)) = objs ?s"
    by (simp_all add: mark_inserted_run bump_capacity_def bump_mutation_def)
  then have "par_of (snd (mark_inserted cc s4)) = (par_of s)(b \<mapsto> ?q)"
    "live_block (snd (mark_inserted cc s4)) = (live_block s)(b \<mapsto> a)"
    "objs (snd (mark_inserted cc s4)) = (objs s)(a := (objs s a)\<lparr>last_access := clock s + 1\<rparr>)"
    by (simp_all only: same bk(3) map_of_update touched_objs)
  with run ix show ?thesis by blast
qed

lemma insert_block_ok:
  assumes ok: "index_ok s" and ref: "0 \<le> ref_count (objs s a)"
  shows "index_ok (snd (insert_block a s))"
proof (cases "residency_validate (residency (objs s a))")
  case (Inl e)
  with ok show ?thesis by (simp add: insert_block_def op_simps)
next
  case (Inr u)
  show ?thesis
  proof (cases "live_block s (block_key (objs s a))")
    case (Some e)
    have "keeps index_ok (oseq (count_up (\<lambda>c. c\<lparr>duplicate_commits := duplicate_commits c + 1\<rparr>)) (oseq (touch e) (ret e)))"
      by (intro keeps_intro)
    from keepsD [OF this ok] Some Inr show ?thesis by (simp add: insert_block_def op_simps)
  next
    case None
    then have run: "insert_block a s = insert_new_block a s" using Inr by (simp add: insert_block_def op_simps)
    consider "over_capacity s" | e where "\<not> over_capacity s" "check_insert_parent (objs s a) s = Inl e"
      | "\<not> over_capacity s" "check_insert_parent (objs s a) s = Inr ()"
      by (cases "check_insert_parent (objs s a) s") auto
    then show ?thesis
    proof cases
      case 1
      obtain s' where "evictable_block_ids s = (Inr (evictable_spec s), s')" "index_ok s'"
        using evictable_block_ids_run [OF ok] by blast
      with 1 show ?thesis unfolding run by (simp add: insert_new_block_def op_simps)
    next
      case 2
      with ok show ?thesis unfolding run by (simp add: insert_new_block_def op_simps)
    next
      case 3
      from None have "block_key (objs s a) \<notin> dom (live_block s)" by (simp add: domIff)
      with insert_new_run [OF ok refl _ 3 _ ref] Inr show ?thesis unfolding run by auto
    qed
  qed
qed

section \<open>Eviction\<close>

definition candidate :: "'p prefix_index \<Rightarrow> block_id \<Rightarrow> candidate" where
  "candidate s b = (let blk = the (get_block s b) in (- eviction_priority blk, last_access blk, b))"

text \<open>
  What eviction promises: a run removes, one after the other, the least candidate of the
  moment, in the order of priority, then age, then id.
\<close>

inductive evict_run :: "('p prefix_index \<Rightarrow> block_id set) \<Rightarrow> (index_counters \<Rightarrow> index_counters)
    \<Rightarrow> 'p prefix_index \<Rightarrow> addr list \<Rightarrow> 'p prefix_index \<Rightarrow> bool"
  for cand :: "'p prefix_index \<Rightarrow> block_id set" and bump :: "index_counters \<Rightarrow> index_counters" where
  evict_stop: "evict_run cand bump s [] s"
| evict_next: "b \<in> cand s \<Longrightarrow> (\<And>x. x \<in> cand s \<Longrightarrow> candidate s b \<le> candidate s x) \<Longrightarrow>
    remove_block_from_index b s = (Inr a, s1) \<Longrightarrow>
    evict_run cand bump (s1\<lparr>counters := bump (counters s1)\<rparr>) as s' \<Longrightarrow> evict_run cand bump s (a # as) s'"

inductive_cases evict_run_ConsE: "evict_run cand bump s (a # as) s'"
inductive_cases evict_run_NilE: "evict_run cand bump s [] s'"

text \<open>The heap holds exactly the current candidates.\<close>

definition heap_ok :: "block_id set \<Rightarrow> 'p prefix_index \<Rightarrow> candidate list \<Rightarrow> block_id set \<Rightarrow> bool" where
  "heap_ok C s heap queued \<longleftrightarrow> sorted heap \<and> distinct heap \<and> set heap = candidate s ` C \<and> queued = C"

text \<open>A test that decides membership in \<open>C\<close> for every indexed block.\<close>

definition decides :: "(addr \<Rightarrow> 'p prefix_index \<Rightarrow> bool result) \<Rightarrow> 'p prefix_index \<Rightarrow> block_id set \<Rightarrow> bool" where
  "decides test s C \<longleftrightarrow> C \<subseteq> dom (live_block s) \<and> (\<forall>b a. live_block s b = Some a \<longrightarrow> test a s = Inr (b \<in> C))"

lemma candidate_id [simp]: "snd (snd (candidate s b)) = b"
  by (simp add: candidate_def Let_def)

lemma candidate_inj [simp]: "candidate s b = candidate s b' \<longleftrightarrow> b = b'"
  using candidate_id by metis

lemma candidate_live:
  "live_block s b = Some a \<Longrightarrow> candidate s b = (- eviction_priority (objs s a), last_access (objs s a), b)"
  by (simp add: candidate_def live_block_get Let_def)

text \<open>The head of the heap is the least candidate and passes the test.\<close>

lemma pop_least:
  assumes dec: "decides test s C" and heap: "heap_ok C s (e # heap) queued"
  shows "\<exists>b a. e = candidate s b \<and> b \<in> C \<and> live_block s b = Some a
    \<and> (\<forall>x \<in> C. candidate s b \<le> candidate s x)
    \<and> pop_candidate test s (e # heap) queued = Inr (Some (a, heap, queued - {b}))"
proof -
  have "e \<in> candidate s ` C" using heap unfolding heap_ok_def by (metis list.set_intros(1))
  then obtain b where b: "e = candidate s b" "b \<in> C" by blast
  then obtain a where a: "live_block s b = Some a" using dec by (auto simp: decides_def)
  have "candidate s b \<le> candidate s x" if "x \<in> C" for x
  proof -
    have "candidate s x \<in> set (e # heap)" using heap that unfolding heap_ok_def by blast
    moreover have "sorted (e # heap)" using heap unfolding heap_ok_def by blast
    ultimately show ?thesis using b(1) by auto
  qed
  moreover have "pop_candidate test s (e # heap) queued = Inr (Some (a, heap, queued - {b}))"
    using a b dec by (simp add: candidate_live decides_def)
  ultimately show ?thesis using a b by blast
qed

lemma pop_empty: "heap_ok C s [] queued \<Longrightarrow> C = {} \<and> pop_candidate test s [] queued = Inr None"
  by (simp add: heap_ok_def)

lemma queue_if_run:
  assumes "decides test s C"
  shows "queue_if test s (Some b) (heap, queued) =
    Inr (if b \<notin> queued \<and> b \<in> C then (insort (candidate s b) heap, insert b queued) else (heap, queued))"
proof (cases "live_block s b")
  case None
  then have "b \<notin> C" using assms by (auto simp: decides_def)
  with None show ?thesis by (simp add: queue_if_def)
next
  case (Some a)
  with assms show ?thesis by (simp add: queue_if_def candidate_live decides_def)
qed

lemma queue_leaves:
  assumes "decides test s C" "distinct bs" "sorted heap" "distinct heap" "set heap = candidate s ` queued"
    "queued \<inter> set bs = {}"
  shows "\<exists>heap'. rfold (\<lambda>b. queue_if test s (Some b)) bs (heap, queued) = Inr (heap', queued \<union> (set bs \<inter> C))
    \<and> sorted heap' \<and> distinct heap' \<and> set heap' = candidate s ` (queued \<union> (set bs \<inter> C))"
  using assms(2-)
proof (induction bs arbitrary: heap queued)
  case (Cons b bs)
  show ?case
  proof (cases "b \<in> C")
    case True
    have "candidate s b \<notin> set heap" using Cons.prems(4,5) by auto
    then have "\<exists>heap'. rfold (\<lambda>b. queue_if test s (Some b)) bs (insort (candidate s b) heap, insert b queued)
        = Inr (heap', insert b queued \<union> (set bs \<inter> C)) \<and> sorted heap' \<and> distinct heap'
        \<and> set heap' = candidate s ` (insert b queued \<union> (set bs \<inter> C))"
      using Cons.prems by (intro Cons.IH) (auto simp: sorted_insort distinct_insort set_insort_key)
    moreover have "queued \<union> (set (b # bs) \<inter> C) = insert b queued \<union> (set bs \<inter> C)" using True by auto
    moreover have "rfold (\<lambda>b. queue_if test s (Some b)) (b # bs) (heap, queued)
        = rfold (\<lambda>b. queue_if test s (Some b)) bs (insort (candidate s b) heap, insert b queued)"
      using True Cons.prems(5) by (simp add: queue_if_run [OF assms(1)])
    ultimately show ?thesis by (simp only:)
  next
    case False
    have "\<exists>heap'. rfold (\<lambda>b. queue_if test s (Some b)) bs (heap, queued)
        = Inr (heap', queued \<union> (set bs \<inter> C)) \<and> sorted heap' \<and> distinct heap'
        \<and> set heap' = candidate s ` (queued \<union> (set bs \<inter> C))"
      using Cons.prems by (intro Cons.IH) auto
    moreover have "set (b # bs) \<inter> C = set bs \<inter> C" using False by auto
    moreover have "rfold (\<lambda>b. queue_if test s (Some b)) (b # bs) (heap, queued)
        = rfold (\<lambda>b. queue_if test s (Some b)) bs (heap, queued)"
      using False by (simp add: queue_if_run [OF assms(1)])
    ultimately show ?thesis by (simp only:)
  qed
qed simp

locale leaf_eviction =
  fixes test :: "addr \<Rightarrow> 'p prefix_index \<Rightarrow> bool result" and cand :: "'p prefix_index \<Rightarrow> block_id set"
  assumes test_law: "linked_ok s \<Longrightarrow> live_block s b = Some a \<Longrightarrow> test a s = Inr (b \<in> cand s)"
    and cand_evictable: "cand s \<subseteq> evictable_spec s"
    and cand_local: "linked_ok s \<Longrightarrow> linked_ok s' \<Longrightarrow> get_block s' x = get_block s x \<Longrightarrow>
      (x \<in> dom (par_of s') \<longleftrightarrow> x \<in> dom (par_of s)) \<Longrightarrow>
      (kids_of (par_of s') x = {} \<longleftrightarrow> kids_of (par_of s) x = {}) \<Longrightarrow> x \<in> cand s' \<longleftrightarrow> x \<in> cand s"
begin

lemma cand_decides: "linked_ok s \<Longrightarrow> decides test s (cand s)"
  using cand_evictable [of s] linked_okD(3) [of s] test_law by (auto simp: decides_def evictable_spec_def)

lemma initial_heap:
  assumes "linked_ok s"
  shows "\<exists>heap. rfold (\<lambda>b. queue_if test s (Some b)) (leaf_block_ids (backend s)) ([], {}) = Inr (heap, cand s)
    \<and> heap_ok (cand s) s heap (cand s)"
proof -
  note leaves = tree.leaves_law [OF linked_okD(2) [OF assms]]
  have "set (leaf_block_ids (backend s)) \<inter> cand s = cand s"
    using leaves cand_evictable [of s] unfolding evictable_spec_def by blast
  then obtain heap where "rfold (\<lambda>b. queue_if test s (Some b)) (leaf_block_ids (backend s)) ([], {}) = Inr (heap, cand s)"
    "sorted heap" "distinct heap" "set heap = candidate s ` cand s"
    using queue_leaves [OF cand_decides [OF assms] leaves [THEN conjunct1], of "[]" "{}"] by auto
  then show ?thesis unfolding heap_ok_def by blast
qed

end

text \<open>What a removal leaves behind, as far as eviction is concerned.\<close>

definition removed :: "block_id \<Rightarrow> 'p prefix_index \<Rightarrow> 'p prefix_index \<Rightarrow> bool" where
  "removed b s s' \<longleftrightarrow> index_ok s' \<and> par_of s' = (par_of s)(b := None) \<and> blocks s' = AList.delete b (blocks s)
     \<and> objs s' = objs s \<and> max_blocks s' = max_blocks s"

lemma removed_counters: "removed b s s' \<Longrightarrow> removed b s (s'\<lparr>counters := c\<rparr>)"
  using counters_ok by (auto simp: removed_def)

lemma removed_get: "removed b s s' \<Longrightarrow> get_block s' = (get_block s)(b := None)"
  by (rule ext) (simp add: removed_def get_block_def dict_simps)

lemma removed_candidate: "removed b s s' \<Longrightarrow> x \<noteq> b \<Longrightarrow> candidate s' x = candidate s x"
  by (simp add: candidate_def removed_get)

lemma removed_length:
  assumes "linked_ok s" "live_block s b = Some a" "removed b s s'"
  shows "Suc (length (blocks s')) = length (blocks s)"
  using length_delete_present [OF linked_okD(1) [OF assms(1)] assms(2)] assms(3) by (simp add: removed_def)

lemma remove_removed:
  assumes "index_ok s" "b \<in> evictable_spec s"
  shows "\<exists>a s'. live_block s b = Some a \<and> remove_block_from_index b s = (Inr a, s') \<and> removed b s s'"
  using remove_run [OF assms] unfolding removed_def by blast

context leaf_eviction
begin

lemma cand_removed:
  assumes ok: "index_ok s" and b: "b \<in> cand s" and rm: "removed b s s'" and par: "par_of s b = Some q"
  shows "x \<in> cand s' \<longleftrightarrow> x \<in> cand s \<and> x \<noteq> b \<or> q = Some x \<and> x \<in> cand s'" "q = Some x \<Longrightarrow> x \<notin> cand s"
proof -
  have l: "linked_ok s" "linked_ok s'" using ok rm by (auto simp: removed_def index_ok_def)
  show np: "x \<notin> cand s" if "q = Some x" for x
    using that par cand_evictable [of s] by (auto simp: evictable_spec_def kids_of_def parent_step_def)
  have nb: "b \<notin> cand s'"
    using cand_evictable [of s'] rm by (auto simp: evictable_spec_def removed_def)
  have other: "x \<in> cand s' \<longleftrightarrow> x \<in> cand s" if "x \<noteq> b" "q \<noteq> Some x"
  proof (rule cand_local [OF l])
    show "get_block s' x = get_block s x" using that(1) by (simp add: removed_get [OF rm])
    show "x \<in> dom (par_of s') \<longleftrightarrow> x \<in> dom (par_of s)" using that(1) rm by (simp add: removed_def domIff)
    have "b \<notin> kids_of (par_of s) x" using that(2) par by (auto simp: kids_of_def parent_step_def)
    then show "kids_of (par_of s') x = {} \<longleftrightarrow> kids_of (par_of s) x = {}"
      using rm by (auto simp: removed_def kids_remove_leaf)
  qed
  show "x \<in> cand s' \<longleftrightarrow> x \<in> cand s \<and> x \<noteq> b \<or> q = Some x \<and> x \<in> cand s'"
    using np nb other by (cases "x = b"; cases "q = Some x") auto
qed

lemma heap_removed:
  assumes ok: "index_ok s" and heap: "heap_ok (cand s) s (candidate s b # heap) queued" and b: "b \<in> cand s"
    and rm: "removed b s s'" and par: "par_of s b = Some q"
  shows "\<exists>heap'. queue_if test s' q (heap, queued - {b}) = Inr (heap', cand s') \<and> heap_ok (cand s') s' heap' (cand s')"
proof -
  have l': "linked_ok s'" using rm by (simp add: removed_def index_ok_def)
  have h: "sorted heap" "distinct heap" "queued = cand s" "candidate s b \<notin> set heap"
    "set (candidate s b # heap) = candidate s ` cand s"
    using heap unfolding heap_ok_def by auto
  have "set heap = set (candidate s b # heap) - {candidate s b}" using h(4) by auto
  also have "\<dots> = candidate s ` cand s - candidate s ` {b}" unfolding h(5) by simp
  also have "\<dots> = candidate s ` (cand s - {b})" by (rule image_set_diff [symmetric]) (simp add: inj_def)
  also have "\<dots> = candidate s' ` (cand s - {b})" by (rule image_cong) (simp_all add: removed_candidate [OF rm])
  finally have set: "set heap = candidate s' ` (cand s - {b})" .
  note c = cand_removed [OF ok b rm par]
  show ?thesis
  proof (cases "\<exists>p. q = Some p \<and> p \<in> cand s'")
    case True
    then obtain p where p: "q = Some p" "p \<in> cand s'" by blast
    have eq: "cand s' = insert p (cand s - {b})" using c(1) p by blast
    have "p \<notin> cand s" by (rule c(2) [OF p(1)])
    then have "queue_if test s' q (heap, queued - {b}) = Inr (insort (candidate s' p) heap, cand s')"
      using p h(3) by (simp add: queue_if_run [OF cand_decides [OF l']] eq)
    moreover have "candidate s' p \<notin> set heap" using \<open>p \<notin> cand s\<close> by (auto simp: set)
    then have "heap_ok (cand s') s' (insort (candidate s' p) heap) (cand s')"
      using h(1,2) by (simp add: heap_ok_def sorted_insort distinct_insort set_insort_key set eq)
    ultimately show ?thesis by blast
  next
    case False
    then have eq: "cand s' = cand s - {b}" using c(1) by blast
    have "queue_if test s' q (heap, queued - {b}) = Inr (heap, cand s')"
    proof (cases q)
      case None
      then show ?thesis using h(3) by (simp add: queue_if_def eq)
    next
      case (Some p)
      with False have "p \<notin> cand s'" by simp
      with Some h(3) show ?thesis by (simp add: queue_if_run [OF cand_decides [OF l']]) (simp add: eq)
    qed
    moreover have "heap_ok (cand s') s' heap (cand s')" using h(1,2) by (simp add: heap_ok_def set eq)
    ultimately show ?thesis by blast
  qed
qed

end

context leaf_eviction
begin

lemma evict_loop_spec:
  assumes "index_ok s" "heap_ok (cand s) s heap queued" "length (blocks s) < fuel" "\<And>blk. 0 \<le> weight blk"
  shows "\<exists>as s'. evict_loop fuel test bump err weight needed w (heap, queued) ev s = (Inr (ev @ as), s')
    \<and> evict_run cand bump s as s' \<and> index_ok s' \<and> objs s' = objs s
    \<and> (needed \<le> w + sum_list (map (\<lambda>a. weight (objs s a)) as) \<or> cand s' = {})
    \<and> (as \<noteq> [] \<longrightarrow> w + sum_list (map (\<lambda>a. weight (objs s a)) (butlast as)) < needed)"
  using assms(1-3)
proof (induction fuel arbitrary: s heap queued w ev)
  case (Suc fuel)
  note l = index_okD(1) [OF Suc.prems(1)]
  show ?case
  proof (cases "needed \<le> w")
    case True
    then show ?thesis using Suc.prems(1)
      by (intro exI [of _ "[]"] exI [of _ s]) (simp add: evict_stop)
  next
    case less: False
    show ?thesis
    proof (cases heap)
      case Nil
      with Suc.prems(2) have "cand s = {}" "pop_candidate test s heap queued = Inr None" by (auto simp: heap_ok_def)
      with less Suc.prems(1) show ?thesis
        by (intro exI [of _ "[]"] exI [of _ s]) (simp add: op_simps evict_stop)
    next
      case (Cons e rest)
      obtain b a where b: "e = candidate s b" "b \<in> cand s" "live_block s b = Some a"
        "\<forall>x \<in> cand s. candidate s b \<le> candidate s x"
        "pop_candidate test s heap queued = Inr (Some (a, rest, queued - {b}))"
        using pop_least [OF cand_decides [OF l]] Suc.prems(2) Cons by blast
      have bev: "b \<in> evictable_spec s" using b(2) cand_evictable by blast
      obtain s1 where s1: "remove_block_from_index b s = (Inr a, s1)" "removed b s s1"
        using remove_removed [OF Suc.prems(1) bev] b(3) by auto
      define s2 where "s2 = s1\<lparr>counters := bump (counters s1)\<rparr>"
      have rm: "removed b s s2" unfolding s2_def by (rule removed_counters [OF s1(2)])
      have key: "block_key (objs s a) = b" "par_of s b = Some (parent_block_id (objs s a))"
        using linked_okD(4,5) [OF l live_block_get [OF b(3)]] by simp_all
      obtain heap' where heap': "queue_if test s2 (parent_block_id (objs s a)) (rest, queued - {b}) = Inr (heap', cand s2)"
        "heap_ok (cand s2) s2 heap' (cand s2)"
        using heap_removed [OF Suc.prems(1) _ b(2) rm key(2)] Suc.prems(2) Cons b(1) by blast
      have ok2: "index_ok s2" "objs s2 = objs s" using rm by (simp_all add: removed_def)
      have len: "length (blocks s2) < fuel" using removed_length [OF l b(3) rm] Suc.prems(3) by simp
      let ?w = "weight (objs s a)"
      have run: "evict_loop (Suc fuel) test bump err weight needed w (heap, queued) ev s
          = evict_loop fuel test bump err weight needed (w + ?w) (heap', cand s2) (ev @ [a]) s2"
        using less b(5) assms(4) s1(1) heap'(1) key(1)
        by (simp add: op_simps count_up_run s2_def [symmetric] not_less)
      obtain as s' where IH: "evict_loop fuel test bump err weight needed (w + ?w) (heap', cand s2) (ev @ [a]) s2
            = (Inr ((ev @ [a]) @ as), s')"
          "evict_run cand bump s2 as s'" "index_ok s'" "objs s' = objs s2"
          "needed \<le> w + ?w + sum_list (map (\<lambda>a. weight (objs s2 a)) as) \<or> cand s' = {}"
          "as \<noteq> [] \<longrightarrow> w + ?w + sum_list (map (\<lambda>a. weight (objs s2 a)) (butlast as)) < needed"
        using Suc.IH [OF ok2(1) heap'(2) len] by blast
      have "evict_run cand bump s (a # as) s'"
        using b(2,4) s1(1) IH(2) unfolding s2_def by (intro evict_next) auto
      with run IH less ok2 show ?thesis
        by (intro exI [of _ "a # as"] exI [of _ s']) (auto simp: add.assoc)
    qed
  qed
qed simp

lemma evict_leaves_spec:
  assumes "index_ok s" "\<And>blk. 0 \<le> weight blk"
  shows "\<exists>as s'. evict_leaves test bump err weight needed s = (Inr as, s')
    \<and> evict_run cand bump s as s' \<and> index_ok s' \<and> objs s' = objs s
    \<and> (needed \<le> sum_list (map (\<lambda>a. weight (objs s a)) as) \<or> cand s' = {})
    \<and> (as \<noteq> [] \<longrightarrow> sum_list (map (\<lambda>a. weight (objs s a)) (butlast as)) < needed)"
proof (cases "needed \<le> 0")
  case True
  with assms(1) show ?thesis
    by (intro exI [of _ "[]"] exI [of _ s]) (simp add: evict_leaves_def evict_stop)
next
  case False
  obtain heap where heap: "rfold (\<lambda>b. queue_if test s (Some b)) (leaf_block_ids (backend s)) ([], {}) = Inr (heap, cand s)"
    "heap_ok (cand s) s heap (cand s)"
    using initial_heap [OF index_okD(1) [OF assms(1)]] by blast
  have "evict_leaves test bump err weight needed s =
      evict_loop (Suc (length (blocks s))) test bump err weight needed 0 (heap, cand s) [] s"
    using False heap(1) by (simp add: evict_leaves_def obind_def)
  moreover have "\<exists>as s'. evict_loop (Suc (length (blocks s))) test bump err weight needed 0 (heap, cand s) [] s = (Inr ([] @ as), s')
    \<and> evict_run cand bump s as s' \<and> index_ok s' \<and> objs s' = objs s
    \<and> (needed \<le> 0 + sum_list (map (\<lambda>a. weight (objs s a)) as) \<or> cand s' = {})
    \<and> (as \<noteq> [] \<longrightarrow> 0 + sum_list (map (\<lambda>a. weight (objs s a)) (butlast as)) < needed)"
    by (rule evict_loop_spec [OF assms(1) heap(2) lessI assms(2)])
  ultimately show ?thesis by (simp del: evict_loop.simps)
qed

end

lemma can_evict_spec:
  assumes "linked_ok s" "live_block s b = Some a"
  shows "can_evict a s = Inr (b \<in> evictable_spec s)"
proof -
  have dom: "b \<in> dom (par_of s)" using assms(2) live_par [OF assms(1)] by blast
  have "child_count b (backend s) = Inr (card (kids_of (par_of s) b))" "finite (kids_of (par_of s) b)"
    by (rule tree.count_law [OF linked_okD(2) [OF assms(1)] dom], rule tree.finite_kids [OF linked_okD(2) [OF assms(1)]])
  then show ?thesis
    using live_indexed [OF assms] bad_same [OF assms] dom by (auto simp: can_evict_def evictable_spec_def)
qed

definition host_evictable :: "'p prefix_index \<Rightarrow> block_id set" where
  "host_evictable s = {b \<in> evictable_spec s. case get_block s b of None \<Rightarrow> False
     | Some blk \<Rightarrow> \<not> device_present (residency blk) \<and> host_present (residency blk)}"

lemma can_evict_host_spec:
  assumes "linked_ok s" "live_block s b = Some a"
  shows "can_evict_host a s = Inr (b \<in> host_evictable s)"
  using can_evict_spec [OF assms] live_block_get [OF assms(2)]
  by (auto simp: can_evict_def can_evict_host_def host_evictable_def host_blocked_def locally_blocked_def split: if_splits)

lemma evictable_local:
  "get_block s' x = get_block s x \<Longrightarrow> (x \<in> dom (par_of s') \<longleftrightarrow> x \<in> dom (par_of s)) \<Longrightarrow>
   (kids_of (par_of s') x = {} \<longleftrightarrow> kids_of (par_of s) x = {}) \<Longrightarrow> x \<in> evictable_spec s' \<longleftrightarrow> x \<in> evictable_spec s"
  by (simp add: evictable_spec_def bad_def)

interpretation leaf_evict: leaf_eviction can_evict evictable_spec
proof
  show "can_evict a s = Inr (b \<in> evictable_spec s)" if "linked_ok s" "live_block s b = Some a" for s b a
    by (rule can_evict_spec [OF that])
  show "x \<in> evictable_spec s' \<longleftrightarrow> x \<in> evictable_spec s"
    if "get_block s' x = get_block s x" "(x \<in> dom (par_of s')) = (x \<in> dom (par_of s))"
      "(kids_of (par_of s') x = {}) = (kids_of (par_of s) x = {})" for s s' x
    by (rule evictable_local [OF that])
qed simp

interpretation host_evict: leaf_eviction can_evict_host host_evictable
proof
  show "can_evict_host a s = Inr (b \<in> host_evictable s)" if "linked_ok s" "live_block s b = Some a" for s b a
    by (rule can_evict_host_spec [OF that])
  show "host_evictable s \<subseteq> evictable_spec s" for s by (auto simp: host_evictable_def)
  show "x \<in> host_evictable s' \<longleftrightarrow> x \<in> host_evictable s"
    if "get_block s' x = get_block s x" "(x \<in> dom (par_of s')) = (x \<in> dom (par_of s))"
      "(kids_of (par_of s') x = {}) = (kids_of (par_of s) x = {})" for s s' x
    using evictable_local [OF that] that(1) by (simp add: host_evictable_def)
qed

end
