(* ===== verification/Prefix_Control.thy ===== *)
theory Prefix_Control
  imports Prefix_Commit
begin

text \<open>
  The rest of the prefix index: demotion of device payloads in priority order, the control
  operations on subtrees (inspection, deletion, priorities), the statistics, and the
  selection of blocks for write-through.
\<close>

section \<open>Demotion\<close>

definition device_live :: "'p prefix_index \<Rightarrow> block_id list" where
  "device_live s = map fst (filter (\<lambda>(b, a). device_present (residency (objs s a))) (blocks s))"

definition count_device_child :: "'p prefix_index \<Rightarrow> block_id \<Rightarrow> (block_id \<rightharpoonup> int) \<Rightarrow> (block_id \<rightharpoonup> int) result" where
  "count_device_child s b counts =
     (case get_block s b of
        None \<Rightarrow> Inl (KeyError ''block_id'')
      | Some blk \<Rightarrow>
          (case parent_block_id blk of
             None \<Rightarrow> Inr counts
           | Some p \<Rightarrow> (case counts p of None \<Rightarrow> Inl (KeyError ''block_id'')
                       | Some n \<Rightarrow> Inr (counts(p \<mapsto> n + 1)))))"

definition count_device_children :: "'p prefix_index \<Rightarrow> (block_id \<rightharpoonup> int) result" where
  "count_device_children s =
     rfold (count_device_child s) (device_live s) (map_of (map (\<lambda>b. (b, 0)) (device_live s)))"

definition demotable :: "(block_id \<rightharpoonup> int) \<Rightarrow> 'p prefix_block \<Rightarrow> bool result" where
  "demotable counts blk =
     (if demote_blocked blk then Inr False
      else (case counts (block_key blk) of None \<Rightarrow> Inl (KeyError ''block_id'') | Some n \<Rightarrow> Inr (n = 0)))"

definition queue_if_demotable :: "(block_id \<rightharpoonup> int) \<Rightarrow> 'p prefix_index \<Rightarrow> block_id
    \<Rightarrow> candidate list \<times> block_id set \<Rightarrow> (candidate list \<times> block_id set) result" where
  "queue_if_demotable counts s b = (\<lambda>(heap, queued).
     if b \<in> queued then Inr (heap, queued)
     else (case live_block s b of
         None \<Rightarrow> Inr (heap, queued)
       | Some a \<Rightarrow>
           rbind (demotable counts (objs s a)) (\<lambda>c.
             if c then Inr (insort (- eviction_priority (objs s a), last_access (objs s a), b) heap, insert b queued)
             else Inr (heap, queued))))"

fun pop_demotable :: "(block_id \<rightharpoonup> int) \<Rightarrow> 'p prefix_index \<Rightarrow> candidate list \<Rightarrow> block_id set
    \<Rightarrow> ((addr \<times> candidate list \<times> block_id set) option) result" where
  "pop_demotable counts s [] queued = Inr None"
| "pop_demotable counts s ((p, t, b) # heap) queued =
     (case live_block s b of
        None \<Rightarrow> pop_demotable counts s heap (queued - {b})
      | Some a \<Rightarrow>
          rbind (demotable counts (objs s a)) (\<lambda>c.
            if c then Inr (Some (a, heap, queued - {b})) else pop_demotable counts s heap (queued - {b})))"

text \<open>The end of an iteration: the counter of the parent, which may become demotable.\<close>

definition release_device_child :: "block_id option \<Rightarrow> (block_id \<rightharpoonup> int) \<Rightarrow> candidate list \<times> block_id set
    \<Rightarrow> 'p prefix_index \<Rightarrow> ((block_id \<rightharpoonup> int) \<times> candidate list \<times> block_id set) result" where
  "release_device_child q counts hq s =
     (case q of
        None \<Rightarrow> Inr (counts, hq)
      | Some p \<Rightarrow>
          (case counts p of
             None \<Rightarrow> Inl (KeyError ''block_id'')
           | Some n \<Rightarrow>
               (let counts = counts(p \<mapsto> n - 1) in
                if n - 1 = 0 then rbind (queue_if_demotable counts s p hq) (\<lambda>hq. Inr (counts, hq))
                else Inr (counts, hq))))"

fun demote_loop :: "nat \<Rightarrow> ('p prefix_block \<Rightarrow> int) \<Rightarrow> int \<Rightarrow> int \<Rightarrow> (block_id \<rightharpoonup> int)
    \<Rightarrow> candidate list \<times> block_id set \<Rightarrow> addr list \<Rightarrow> ('p, addr list) index_op" where
  "demote_loop fuel weight needed done_weight counts (heap, queued) demoted s =
     (if needed \<le> done_weight then (Inr demoted, s)
      else case fuel of 0 \<Rightarrow> (Inl NonTermination, s)
      | Suc fuel \<Rightarrow>
        obind (lift_result (\<lambda>s. pop_demotable counts s heap queued)) (\<lambda>popped.
          case popped of
            None \<Rightarrow> ret demoted
          | Some (a, heap, queued) \<Rightarrow>
              obind (reads (\<lambda>s. objs s a)) (\<lambda>blk.
              oseq (raise_if (weight blk < 0) (ValueError ''Prefix cache demotion weight must be non-negative''))
             (oseq (writes (set_residency a (\<lambda>r. r\<lparr>device_present := False\<rparr>)))
             (oseq (validate_block a)
             (oseq (count_up (\<lambda>c. c\<lparr>device_demoted_blocks := device_demoted_blocks c + 1\<rparr>))
             (oseq mark_capacity_mutated
             (obind (lift_result (release_device_child (parent_block_id blk) counts (heap, queued))) (\<lambda>(counts, hq).
              demote_loop fuel weight needed (done_weight + weight blk) counts hq (demoted @ [a]))))))))) s)"

definition demote_device_until_weight :: "('p prefix_block \<Rightarrow> int) \<Rightarrow> int \<Rightarrow> ('p, addr list) index_op" where
  "demote_device_until_weight weight needed =
     (if needed \<le> 0 then ret []
      else obind (lift_result count_device_children) (\<lambda>counts.
           obind (lift_result (\<lambda>s. rfold (queue_if_demotable counts s)
                    (filter (\<lambda>b. counts b = Some 0) (device_live s)) ([], {}))) (\<lambda>hq s.
           demote_loop (Suc (length (blocks s))) weight needed 0 counts hq [] s)))"

definition demote_device_until_freeable :: "int \<Rightarrow> ('p, addr list) index_op" where
  "demote_device_until_freeable needed = demote_device_until_weight (\<lambda>_. 1) needed"

section \<open>Control operations\<close>

record 'p block_status =
  st_block_id :: block_id
  st_logical_block_idx :: int
  st_logical_tokens :: int
  st_resident_kv_tokens :: int
  st_ref_count :: int
  st_eviction_priority :: int
  st_child_count :: int
  st_device_child_count :: int
  st_device_present :: bool
  st_host_present :: bool
  st_transfer :: "transfer_kind option"
  st_last_access :: int
  st_prune :: "'p option"

text \<open>
  The number of retained KV tokens is read off the method-owned payload; \<open>retained\<close> stands
  for that attribute (absent: the whole block is resident).
\<close>

definition effective_prune :: "'p prefix_index \<Rightarrow> block_id list \<Rightarrow> 'p option" where
  "effective_prune s path =
     fold (\<lambda>b acc. case Option.bind (get_block s b) prune_record of None \<Rightarrow> acc | Some r \<Rightarrow> Some r) path None"

definition block_status_dict :: "('p \<Rightarrow> int option) \<Rightarrow> 'p prefix_index \<Rightarrow> block_id \<Rightarrow> 'p block_status result" where
  "block_status_dict retained s b =
     (case get_block s b of
        None \<Rightarrow> Inl (KeyError ''block_id'')
      | Some blk \<Rightarrow>
          rbind (path_to_block b (backend s)) (\<lambda>path.
          rbind (child_count b (backend s)) (\<lambda>n.
          rbind (device_child_count b s) (\<lambda>dn.
          Inr \<lparr>st_block_id = b, st_logical_block_idx = logical_block_idx blk, st_logical_tokens = block_tokens blk,
               st_resident_kv_tokens = (case retained (payload blk) of None \<Rightarrow> block_tokens blk | Some k \<Rightarrow> k),
               st_ref_count = ref_count blk, st_eviction_priority = eviction_priority blk,
               st_child_count = int n, st_device_child_count = dn,
               st_device_present = device_present (residency blk), st_host_present = host_present (residency blk),
               st_transfer = transfer (residency blk), st_last_access = last_access blk,
               st_prune = effective_prune s path\<rparr>))))"

record subtree_summary_info =
  sum_block_count :: int
  sum_referenced :: int
  sum_negative_priority :: int
  sum_leaf :: int

definition subtree_summary :: "'p prefix_index \<Rightarrow> block_id list \<Rightarrow> subtree_summary_info result" where
  "subtree_summary s ids =
     (let existing = List.map_filter (get_block s) ids in
      rbind (rfold (\<lambda>blk n. rbind (child_count (block_key blk) (backend s)) (\<lambda>c. Inr (if c = 0 then n + 1 else n)))
               existing 0) (\<lambda>leaves.
      Inr \<lparr>sum_block_count = int (length existing),
           sum_referenced = int (length (filter (\<lambda>blk. ref_count blk > 0) existing)),
           sum_negative_priority = int (length (filter (\<lambda>blk. eviction_priority blk < 0) existing)),
           sum_leaf = leaves\<rparr>))"

record 'p inspect_info =
  in_matched :: bool
  in_reason :: "string option"
  in_selector_blocks :: int
  in_hit_blocks :: int
  in_hit_len :: int
  in_last_block_id :: "block_id option"
  in_path_blocks :: "'p block_status list"
  in_subtree :: "subtree_summary_info option"

fun collect :: "('a \<Rightarrow> 'b result) \<Rightarrow> 'a list \<Rightarrow> 'b list result" where
  "collect f [] = Inr []"
| "collect f (x # xs) = rbind (f x) (\<lambda>y. rbind (collect f xs) (\<lambda>ys. Inr (y # ys)))"

definition inspect_prefix :: "(bytes \<Rightarrow> bytes) \<Rightarrow> ('p \<Rightarrow> int option) \<Rightarrow> int list \<Rightarrow> bool \<Rightarrow> ('p, 'p inspect_info) index_op" where
  "inspect_prefix sha256 retained tokens include_subtree =
     oseq (count_up (\<lambda>c. c\<lparr>control_inspect_requests := control_inspect_requests c + 1\<rparr>))
    (obind (block_ids_of sha256 tokens None) (\<lambda>ids.
       if ids = [] then ret \<lparr>in_matched = False, in_reason = Some ''prefix_shorter_than_block_size'',
           in_selector_blocks = 0, in_hit_blocks = 0, in_hit_len = 0, in_last_block_id = None,
           in_path_blocks = [], in_subtree = None\<rparr>
       else lift_result (\<lambda>s.
         rbind (radix_lookup ids (int (length ids)) (backend s)) (\<lambda>(hits, last_id).
         rbind (collect (block_status_dict retained s) (filter (\<lambda>b. live_block s b \<noteq> None) (take hits ids))) (\<lambda>path.
         rbind (case last_id of
                  Some b \<Rightarrow> if include_subtree
                    then rbind (subtree_block_ids b (backend s)) (\<lambda>sub. rbind (subtree_summary s sub) (\<lambda>x. Inr (Some x)))
                    else Inr None
                | None \<Rightarrow> Inr None) (\<lambda>sub.
         Inr \<lparr>in_matched = (hits > 0), in_reason = None, in_selector_blocks = int (length ids),
              in_hit_blocks = int hits, in_hit_len = int hits * idx_block_size s, in_last_block_id = last_id,
              in_path_blocks = path, in_subtree = sub\<rparr>))))))"

definition exact_subtree_ids :: "block_id list \<Rightarrow> 'p prefix_index \<Rightarrow> block_id list option result" where
  "exact_subtree_ids ids s =
     (if ids = [] then Inr None
      else rbind (radix_lookup ids (int (length ids)) (backend s)) (\<lambda>(hits, last_id).
        (case last_id of
           None \<Rightarrow> Inr None
         | Some b \<Rightarrow>
             if hits \<noteq> length ids then Inr None
             else rbind (subtree_block_ids b (backend s)) (\<lambda>sub. Inr (Some sub)))))"

datatype block_reason = NotFound | Referenced | NegativePriority | TransferInflight | HasChildren

record delete_result =
  del_blocks :: "addr list"
  del_blocked :: "(block_id option \<times> block_reason) list"

definition delete_reason :: "'p prefix_index \<Rightarrow> block_id set \<Rightarrow> block_id \<Rightarrow> 'p prefix_block \<Rightarrow> block_reason option result" where
  "delete_reason s planned b blk =
     (if ref_count blk > 0 then Inr (Some Referenced)
      else if eviction_priority blk < 0 then Inr (Some NegativePriority)
      else if transfer (residency blk) \<noteq> None then Inr (Some TransferInflight)
      else rbind (child_block_ids b (backend s)) (\<lambda>ks.
        Inr (if \<exists>k \<in> set ks. k \<notin> planned then Some HasChildren else None)))"

fun plan_loop :: "'p prefix_index \<Rightarrow> block_id list \<Rightarrow> addr list \<Rightarrow> (block_id option \<times> block_reason) list
    \<Rightarrow> block_id set \<Rightarrow> delete_result result" where
  "plan_loop s [] deleted blocked planned = Inr \<lparr>del_blocks = deleted, del_blocked = blocked\<rparr>"
| "plan_loop s (b # bs) deleted blocked planned =
     (case live_block s b of
        None \<Rightarrow> plan_loop s bs deleted blocked planned
      | Some a \<Rightarrow>
          rbind (delete_reason s planned b (objs s a)) (\<lambda>r.
            case r of
              Some why \<Rightarrow> plan_loop s bs deleted (blocked @ [(Some b, why)]) planned
            | None \<Rightarrow> plan_loop s bs (deleted @ [a]) blocked (insert b planned)))"

text \<open>
  \<open>sorted(ids, key=depth, reverse=True)\<close>: Python's sort is stable, also with \<open>reverse\<close>, so
  it is the stable sort by the negated depth.
\<close>

definition sort_by_depth :: "'p prefix_index \<Rightarrow> block_id list \<Rightarrow> block_id list result" where
  "sort_by_depth s ids =
     rbind (collect (\<lambda>b. rbind (path_to_block b (backend s)) (\<lambda>path. Inr (int (length path), b))) ids) (\<lambda>keyed.
       Inr (map snd (sort_key (\<lambda>(depth, b). - depth) keyed)))"

definition preview_delete_subtree :: "(bytes \<Rightarrow> bytes) \<Rightarrow> int list \<Rightarrow> ('p, delete_result) index_op" where
  "preview_delete_subtree sha256 tokens =
     obind (block_ids_of sha256 tokens None) (\<lambda>ids.
     obind (lift_result (exact_subtree_ids ids)) (\<lambda>sub.
       case sub of
         None \<Rightarrow> ret \<lparr>del_blocks = [], del_blocked = [(None, NotFound)]\<rparr>
       | Some sub_ids \<Rightarrow> lift_result (\<lambda>s. rbind (sort_by_depth s sub_ids) (\<lambda>ordered. plan_loop s ordered [] [] {}))))"

fun apply_deletes :: "addr list \<Rightarrow> addr list \<Rightarrow> ('p, addr list) index_op" where
  "apply_deletes [] deleted = ret deleted"
| "apply_deletes (a # as) deleted =
     obind (reads (\<lambda>s. \<not> indexed s a)) (\<lambda>stale.
     oseq (raise_if stale (RuntimeError ''Prefix subtree deletion plan became stale before it was applied.''))
    (obind (\<lambda>s. remove_block_from_index (block_key (objs s a)) s) (\<lambda>e.
     oseq (count_up (\<lambda>c. c\<lparr>deleted_blocks := deleted_blocks c + 1\<rparr>))
       (apply_deletes as (deleted @ [e])))))"

definition safe_delete_subtree :: "(bytes \<Rightarrow> bytes) \<Rightarrow> int list \<Rightarrow> ('p, delete_result) index_op" where
  "safe_delete_subtree sha256 tokens =
     oseq (count_up (\<lambda>c. c\<lparr>control_delete_requests := control_delete_requests c + 1\<rparr>))
    (obind (preview_delete_subtree sha256 tokens) (\<lambda>plan.
     obind (apply_deletes (del_blocks plan) []) (\<lambda>deleted.
       ret \<lparr>del_blocks = deleted, del_blocked = del_blocked plan\<rparr>)))"

record priority_result =
  pr_matched :: bool
  pr_reason :: "string option"
  pr_root :: "block_id option"
  pr_updated :: int
  pr_priority :: int

text \<open>The loop over the subtree: how many blocks, whether any changed, whether any changed sign.\<close>

fun priority_loop :: "int \<Rightarrow> block_id list \<Rightarrow> int \<times> bool \<times> bool \<Rightarrow> ('p, int \<times> bool \<times> bool) index_op" where
  "priority_loop priority [] acc = ret acc"
| "priority_loop priority (b # bs) (n, changed, capacity_changed) =
     obind (reads (\<lambda>s. live_block s b)) (\<lambda>la.
       case la of
         None \<Rightarrow> priority_loop priority bs (n, changed, capacity_changed)
       | Some a \<Rightarrow>
           obind (reads (\<lambda>s. eviction_priority (objs s a))) (\<lambda>old.
             if old = priority then priority_loop priority bs (n + 1, changed, capacity_changed)
             else oseq (writes (update_block a (\<lambda>blk. blk\<lparr>eviction_priority := priority\<rparr>)))
                 (oseq (if (old < 0) \<noteq> (priority < 0) then refresh_freeable_path (Some b) else ret ())
                   (priority_loop priority bs
                     (n + 1, True, capacity_changed \<or> (old < 0) \<noteq> (priority < 0))))))"

definition set_subtree_eviction_priority :: "(bytes \<Rightarrow> bytes) \<Rightarrow> int list \<Rightarrow> int \<Rightarrow> ('p, priority_result) index_op" where
  "set_subtree_eviction_priority sha256 tokens priority =
     oseq (count_up (\<lambda>c. c\<lparr>control_priority_updates := control_priority_updates c + 1\<rparr>))
    (obind (block_ids_of sha256 tokens None) (\<lambda>ids.
       if ids = [] then ret \<lparr>pr_matched = False, pr_reason = Some ''prefix_shorter_than_block_size'',
           pr_root = None, pr_updated = 0, pr_priority = priority\<rparr>
       else
    (obind (lift_result (\<lambda>s. radix_lookup ids (int (length ids)) (backend s))) (\<lambda>(hits, last_id).
       if hits \<noteq> length ids \<or> last_id = None then ret \<lparr>pr_matched = False, pr_reason = Some ''not_found'',
           pr_root = None, pr_updated = 0, pr_priority = priority\<rparr>
       else
     obind (lift_result (\<lambda>s. subtree_block_ids (the last_id) (backend s))) (\<lambda>sub.
     obind (priority_loop priority sub (0, False, False)) (\<lambda>(n, changed, capacity_changed).
     oseq (if capacity_changed then mark_capacity_mutated else if changed then mark_mutated else ret ())
       (ret \<lparr>pr_matched = True, pr_reason = None, pr_root = last_id, pr_updated = n, pr_priority = priority\<rparr>)))))))"

section \<open>Statistics\<close>

definition count_blocks :: "('p prefix_block \<Rightarrow> bool) \<Rightarrow> 'p prefix_index \<Rightarrow> int" where
  "count_blocks P s = int (length (filter (\<lambda>(b, a). P (objs s a)) (blocks s)))"

text \<open>
  The two capacity queries run while the dictionary is built and may refresh their caches and
  counters; the counters they touch are read after them.
\<close>

definition index_stats :: "('p, (string \<times> int) list) index_op" where
  "index_stats =
     obind (lift_result (\<lambda>s. radix_stats (backend s))) (\<lambda>(nodes, edges).
     obind (device_reclaimable_block_ids False) (\<lambda>device_freeable.
     obind freeable_block_ids (\<lambda>freeable.
     reads (\<lambda>s. let c = counters s; e = epochs s in
       [(''prefix_cache_lookup_requests'', lookup_requests c),
        (''prefix_cache_block_id_generation_requests'', block_id_generation_requests c),
        (''prefix_cache_hit_requests'', hit_requests c),
        (''prefix_cache_hit_tokens'', hit_tokens c),
        (''prefix_cache_hit_blocks'', hit_blocks c),
        (''prefix_cache_committed_blocks'', committed_blocks c),
        (''prefix_cache_duplicate_commits'', duplicate_commits c),
        (''prefix_cache_deleted_blocks'', deleted_blocks c),
        (''prefix_cache_evicted_blocks'', evicted_blocks c),
        (''prefix_cache_device_demoted_blocks'', device_demoted_blocks c),
        (''prefix_cache_host_evicted_blocks'', host_evicted_blocks c),
        (''prefix_cache_live_blocks'', int (length (blocks s))),
        (''prefix_cache_device_blocks'', count_blocks (\<lambda>b. device_present (residency b)) s),
        (''prefix_cache_host_blocks'', count_blocks (\<lambda>b. host_present (residency b)) s),
        (''prefix_cache_inflight_transfers'', count_blocks (\<lambda>b. transfer (residency b) \<noteq> None) s),
        (''prefix_cache_device_freeable_blocks'', int (card device_freeable)),
        (''prefix_cache_referenced_blocks'', count_blocks (\<lambda>b. ref_count b > 0) s),
        (''prefix_cache_negative_priority_blocks'', count_blocks (\<lambda>b. eviction_priority b < 0) s),
        (''prefix_cache_leaf_blocks'', int (length (leaf_block_ids (backend s)))),
        (''prefix_cache_freeable_blocks'', int (card freeable)),
        (''prefix_cache_control_inspect_requests'', control_inspect_requests c),
        (''prefix_cache_control_delete_requests'', control_delete_requests c),
        (''prefix_cache_control_priority_updates'', control_priority_updates c),
        (''prefix_cache_mutation_epoch'', mutation_epoch e),
        (''prefix_cache_capacity_epoch'', capacity_epoch e),
        (''prefix_cache_lookup_epoch'', lookup_epoch e),
        (''prefix_cache_insert_epoch'', insert_epoch e),
        (''prefix_cache_remove_epoch'', remove_epoch e),
        (''prefix_cache_freeable_scans'', freeable_scans c),
        (''prefix_cache_freeable_snapshot_builds'', freeable_snapshot_builds c),
        (''prefix_cache_freeable_cache_hits'', freeable_cache_hits c),
        (''prefix_cache_evictable_scans'', evictable_scans c),
        (''prefix_cache_evictable_cache_hits'', evictable_cache_hits c),
        (''prefix_cache_device_reclaimable_scans'', device_reclaimable_scans c),
        (''prefix_cache_device_reclaimable_cache_hits'', device_reclaimable_cache_hits c),
        (''prefix_cache_tree_nodes'', int nodes),
        (''prefix_cache_tree_edges'', int edges)]))))"

section \<open>Write-through candidates\<close>

text \<open>\<open>pending\<close> is the caller's dictionary, which the function updates in place.\<close>

definition still_pending :: "'p prefix_index \<Rightarrow> block_id \<times> addr \<Rightarrow> bool" where
  "still_pending s = (\<lambda>(b, a). live_block s b = Some a \<and> ref_count (objs s a) = 0
     \<and> device_present (residency (objs s a)) \<and> \<not> host_present (residency (objs s a))
     \<and> transfer (residency (objs s a)) = None)"

fun select_ready :: "'p prefix_index \<Rightarrow> addr list \<Rightarrow> addr list \<Rightarrow> block_id set \<Rightarrow> addr list" where
  "select_ready s [] selected selected_ids = selected"
| "select_ready s (a # as) selected selected_ids =
     (let ready = (case parent_block_id (objs s a) of
                     None \<Rightarrow> True
                   | Some p \<Rightarrow> (case get_block s p of
                       None \<Rightarrow> False
                     | Some pb \<Rightarrow> host_present (residency pb) \<or> transfer (residency pb) = Some D2H
                         \<or> block_key pb \<in> selected_ids))
      in if ready then select_ready s as (selected @ [a]) (insert (block_key (objs s a)) selected_ids)
         else select_ready s as selected selected_ids)"

definition select_write_through_candidates :: "'p prefix_index \<Rightarrow> (block_id, addr) dict \<Rightarrow> addr list option
    \<Rightarrow> addr list \<times> (block_id, addr) dict" where
  "select_write_through_candidates s pending newly =
     (let newly = (case newly of None \<Rightarrow> map snd (blocks s) | Some as \<Rightarrow> as);
          pending = fold (\<lambda>a d. if ref_count (objs s a) = 0 then AList.update (block_key (objs s a)) a d else d)
                      newly pending;
          kept = filter (still_pending s) pending;
          ordered = sort_key (\<lambda>a. (logical_block_idx (objs s a), last_access (objs s a))) (map snd kept)
      in (select_ready s ordered [] {}, kept))"

end
