(* ===== verification/Prefix_Reach.thy ===== *)
theory Prefix_Reach
  imports Prefix_Control
begin

text \<open>
  Every operation of the prefix index keeps its invariant, on every branch: lookups, chains,
  routing snapshots, capacity queries, eviction with arbitrary weights, demotion, and the
  control operations.  The step relation \<open>index_step\<close> collects them, and the states that
  are reachable from a fresh index satisfy the invariant.
\<close>

section \<open>Queries\<close>

lemma block_ids_of_keeps [keeps_intro]: "keeps index_ok (block_ids_of sha256 tokens m)"
  unfolding block_ids_of_def by (intro keeps_intro)

lemma match_keeps [keeps_intro]: "keeps index_ok (match_longest_block_ids ids)"
  unfolding match_longest_block_ids_def by (intro keeps_intro) (simp split: prod.splits, intro keeps_intro allI impI)

lemma lookup_keeps [keeps_intro]: "keeps index_ok (lookup_longest_block_ids ids)"
  unfolding lookup_longest_block_ids_def by (intro keeps_intro) (auto split: prod.splits intro!: keeps_intro)

lemma match_prefix_keeps [keeps_intro]: "keeps index_ok (match_longest_prefix sha256 tokens m)"
  unfolding match_longest_prefix_def by (intro keeps_intro)

lemma lookup_prefix_keeps [keeps_intro]: "keeps index_ok (lookup_longest_prefix sha256 tokens m)"
  unfolding lookup_longest_prefix_def by (intro keeps_intro)

lemma get_chain_keeps [keeps_intro]: "keeps index_ok (get_chain b n)"
  unfolding get_chain_def by (intro keeps_intro)

lemma mark_capacity_keeps [keeps_intro]: "keeps index_ok mark_capacity_mutated"
  using bump_capacity_ok [OF index_base index_okD(3)] by (auto simp: keeps_def mark_capacity_run)

lemma mark_compacted_keeps [keeps_intro]: "keeps index_ok (mark_payload_compacted as)"
  unfolding mark_payload_compacted_def by (intro keeps_intro)

lemma rebuild_snapshot_keeps [keeps_intro]: "keeps index_ok (rebuild_snapshot m)"
proof (rule keepsI)
  fix s :: "'a prefix_index"
  assume ok: "index_ok s"
  let ?s = "s\<lparr>snapshot := Some (fresh_snapshot m s)\<rparr>"
  have "linked_ok ?s = linked_ok s" by (rule linked_frame) simp_all
  moreover have "resident_ok ?s = resident_ok s" by (rule resident_frame) simp_all
  moreover have "fresh_snapshot n ?s = fresh_snapshot n s" for n by (simp add: fresh_snapshot_def)
  moreover have "snapshot_method (fresh_snapshot m s) = m" by (simp add: fresh_snapshot_def)
  ultimately have "index_ok ?s"
    using ok by (simp add: index_ok_def tracked_ok_def caches_ok_def evictable_spec_def routing_ok_def sized_ok_def
        cong: option.case_cong)
  with ok show "index_ok (snd (rebuild_snapshot m s))"
    by (simp add: rebuild_snapshot_def oseq_def obind_def)
qed

lemma take_snapshot_keeps [keeps_intro]: "keeps index_ok (take_routing_snapshot m)"
  using keepsD [OF rebuild_snapshot_keeps] by (auto simp: keeps_def take_routing_snapshot_def split: option.splits)

lemma reclaim_cache_core:
  "core_eq s (s\<lparr>device_reclaimable_cache := c\<rparr>)" "core_eq s (s\<lparr>device_freeable_cache := c\<rparr>)"
  by (simp_all add: core_eq_def)

lemma device_reclaimable_keeps [keeps_intro]: "keeps index_ok (device_reclaimable_block_ids incl)"
proof -
  have w: "keeps index_ok (writes (\<lambda>s. if incl then s\<lparr>device_reclaimable_cache := (capacity_epoch (epochs s), ids)\<rparr>
      else s\<lparr>device_freeable_cache := (capacity_epoch (epochs s), ids)\<rparr>))" for ids
    using core_index [OF reclaim_cache_core(1)] core_index [OF reclaim_cache_core(2)] by (intro keeps_writes) auto
  show ?thesis
  proof (rule keepsI)
    fix s :: "'a prefix_index"
    assume ok: "index_ok s"
    have "keeps (index_ok :: 'a prefix_index \<Rightarrow> bool) (oseq (count_up (\<lambda>c. c\<lparr>device_reclaimable_cache_hits := device_reclaimable_cache_hits c + 1\<rparr>))
        (reads (\<lambda>s. snd (reclaim_cache incl s))))" by (intro keeps_intro)
    moreover have "keeps (index_ok :: 'a prefix_index \<Rightarrow> bool) (oseq (count_up (\<lambda>c. c\<lparr>device_reclaimable_scans := device_reclaimable_scans c + 1\<rparr>))
       (obind (lift_result (scan_reclaimable incl)) (\<lambda>ids.
        oseq (writes (\<lambda>s. if incl then s\<lparr>device_reclaimable_cache := (capacity_epoch (epochs s), ids)\<rparr>
                          else s\<lparr>device_freeable_cache := (capacity_epoch (epochs s), ids)\<rparr>))
          (ret ids))))" by (intro keeps_intro w)
    ultimately show "index_ok (snd (device_reclaimable_block_ids incl s))"
      using ok unfolding device_reclaimable_block_ids_def keeps_def by simp
  qed
qed

section \<open>Eviction with any weights\<close>

lemma evict_loop_keeps: "keeps index_ok (evict_loop fuel test bump err weight needed w hq ev)"
proof (induction fuel arbitrary: w hq ev)
  case 0
  show ?case by (cases hq) (simp add: keeps_def)
next
  case (Suc fuel)
  obtain heap queued where hq: "hq = (heap, queued)" by (cases hq)
  show ?case
  proof (rule keepsI)
    fix s :: "'a prefix_index"
    assume ok: "index_ok s"
    have "keeps index_ok (obind (lift_result (\<lambda>s. pop_candidate test s heap queued)) (\<lambda>popped.
          case popped of
            None \<Rightarrow> ret ev
          | Some (a, heap, queued) \<Rightarrow>
              obind (reads (\<lambda>s. objs s a)) (\<lambda>blk.
              oseq (raise_if (weight blk < 0) (ValueError err))
             (obind (remove_block_from_index (block_key blk)) (\<lambda>e.
              oseq (count_up bump)
             (obind (lift_result (\<lambda>s. queue_if test s (parent_block_id blk) (heap, queued))) (\<lambda>hq.
              evict_loop fuel test bump err weight needed (w + weight blk) hq (ev @ [e]))))))))"
      by (intro keeps_intro Suc.IH) (auto split: prod.splits intro!: keeps_intro Suc.IH)
    from keepsD [OF this ok] ok show "index_ok (snd (evict_loop (Suc fuel) test bump err weight needed w hq ev s))"
      by (simp add: hq)
  qed
qed

lemma evict_leaves_keeps [keeps_intro]: "keeps index_ok (evict_leaves test bump err weight needed)"
proof -
  have "keeps index_ok (\<lambda>s. evict_loop (Suc (length (blocks s))) test bump err weight needed 0 hq [] s)" for hq
    using keepsD [OF evict_loop_keeps] unfolding keeps_def by blast
  then show ?thesis unfolding evict_leaves_def by (intro keeps_intro)
qed

lemma evict_keeps [keeps_intro]:
  "keeps index_ok (evict_until_weight weight n)" "keeps index_ok (evict_host_until_weight weight n)"
  "keeps index_ok (evict_until_freeable n)" "keeps index_ok (evict_host_until_freeable n)"
  unfolding evict_until_freeable_def evict_host_until_freeable_def evict_until_weight_def evict_host_until_weight_def
  by (intro keeps_intro)+

lemma ensure_capacity_keeps [keeps_intro]: "keeps index_ok (ensure_insert_capacity n)"
proof (rule keepsI)
  fix s :: "'a prefix_index"
  assume ok: "index_ok s"
  have "keeps (index_ok :: 'a prefix_index \<Rightarrow> bool) (oseq (raise_if (n \<le> 0) (ValueError ''needed_blocks must be > 0''))
         (obind (reads (\<lambda>s. int (length (blocks s)) + n - m)) (\<lambda>over.
            if over \<le> 0 then ret []
            else obind (evict_until_freeable over) (\<lambda>evicted.
              if int (length evicted) \<noteq> over
              then oseq evictable_block_ids (raise_error (RuntimeError
                     ''Prefix cache capacity exceeded and not enough blocks are evictable''))
              else ret evicted))))" for m
    by (intro keeps_intro)
  with ok show "index_ok (snd (ensure_insert_capacity n s))"
    by (auto simp: ensure_insert_capacity_def keeps_def split: option.splits)
qed

section \<open>Demotion\<close>

definition on_device :: "'p prefix_index \<Rightarrow> block_id \<Rightarrow> bool" where
  "on_device s b = (case get_block s b of None \<Rightarrow> False | Some blk \<Rightarrow> device_present (residency blk))"

definition device_kids :: "'p prefix_index \<Rightarrow> block_id \<Rightarrow> block_id set" where
  "device_kids s b = {k \<in> kids_of (par_of s) b. on_device s k}"

definition demotable_spec :: "'p prefix_index \<Rightarrow> block_id set" where
  "demotable_spec s = {b. \<exists>blk. get_block s b = Some blk \<and> \<not> demote_blocked blk \<and> device_kids s b = {}}"

definition device_counts :: "'p prefix_index \<Rightarrow> (block_id \<rightharpoonup> int) \<Rightarrow> bool" where
  "device_counts s counts \<longleftrightarrow> (\<forall>b. on_device s b \<longrightarrow> counts b = Some (int (card (device_kids s b))))"

abbreviation demote_test :: "(block_id \<rightharpoonup> int) \<Rightarrow> addr \<Rightarrow> 'p prefix_index \<Rightarrow> bool result" where
  "demote_test counts \<equiv> \<lambda>a s. demotable counts (objs s a)"

lemma pop_demotable_eq: "pop_demotable counts s heap queued = pop_candidate (demote_test counts) s heap queued"
  by (induction counts s heap queued rule: pop_demotable.induct) (auto simp: rbind_def split: option.splits sum.splits)

lemma queue_demotable_eq: "queue_if_demotable counts s b hq = queue_if (demote_test counts) s (Some b) hq"
  by (simp add: queue_if_demotable_def queue_if_def)

lemma device_kids_finite: "linked_ok s \<Longrightarrow> finite (device_kids s b)"
  by (rule finite_subset [OF _ tree.finite_kids [OF linked_okD(2)]]) (auto simp: device_kids_def)

lemma on_device_parent:
  assumes "index_ok s" "on_device s b" "par_of s b = Some (Some p)"
  shows "on_device s p"
proof -
  note d = index_okD [OF assms(1)]
  obtain blk where blk: "get_block s b = Some blk" "device_present (residency blk)"
    using assms(2) by (auto simp: on_device_def split: option.splits)
  have pb: "parent_block_id blk = Some p" using linked_okD(5) [OF d(1) blk(1)] assms(3) by simp
  have "p \<in> dom (par_of s)"
    using forest.parent_present [OF linked_okD(2) [OF d(1)]] assms(3) by (simp add: parent_step_def)
  then obtain x where "get_block s p = Some x" using live_par [OF d(1)] live_block_get by blast
  with blk pb d(2) show ?thesis by (auto simp: resident_ok_def on_device_def)
qed

lemma demote_decides:
  assumes "linked_ok s" "device_counts s counts"
  shows "decides (demote_test counts) s (demotable_spec s)"
proof -
  have "demotable counts (objs s a) = Inr (b \<in> demotable_spec s)" if a: "live_block s b = Some a" for b a
  proof (cases "demote_blocked (objs s a)")
    case True
    with live_block_get [OF a] show ?thesis by (simp add: demotable_def demotable_spec_def)
  next
    case False
    then have "on_device s b" using live_block_get [OF a] by (simp add: on_device_def demote_blocked_def)
    then have "counts b = Some (int (card (device_kids s b)))" using assms(2) by (simp add: device_counts_def)
    with False live_block_get [OF a] live_indexed [OF assms(1) a] device_kids_finite [OF assms(1), of b] show ?thesis
      by (simp add: demotable_def demotable_spec_def)
  qed
  moreover have "demotable_spec s \<subseteq> dom (live_block s)" by (auto simp: demotable_spec_def get_block_iff)
  ultimately show ?thesis by (simp add: decides_def)
qed

text \<open>The scan counts the device-resident children.\<close>

lemma count_device_fold:
  assumes "\<And>b. b \<in> set bs \<Longrightarrow> \<exists>blk. get_block s b = Some blk \<and> (\<forall>p. parent_block_id blk = Some p \<longrightarrow> p \<in> dom m)"
  shows "rfold (count_device_child s) bs m = Inr (\<lambda>p. map_option (\<lambda>n. n
      + int (length (filter (\<lambda>b. parent_block_id (the (get_block s b)) = Some p) bs))) (m p))"
  using assms
proof (induction bs arbitrary: m)
  case Nil
  then show ?case by (simp add: option.map_ident)
next
  case (Cons b bs)
  obtain blk where blk: "get_block s b = Some blk" "\<forall>p. parent_block_id blk = Some p \<longrightarrow> p \<in> dom m"
    using Cons.prems [of b] by auto
  show ?case
  proof (cases "parent_block_id blk")
    case None
    then have "count_device_child s b m = Inr m" using blk by (simp add: count_device_child_def)
    moreover have "rfold (count_device_child s) bs m = Inr (\<lambda>p. map_option (\<lambda>n. n
      + int (length (filter (\<lambda>b. parent_block_id (the (get_block s b)) = Some p) bs))) (m p))"
      by (rule Cons.IH, rule Cons.prems) simp
    ultimately show ?thesis using blk None by simp
  next
    case (Some p)
    then obtain n where n: "m p = Some n" using blk(2) by auto
    then have "count_device_child s b m = Inr (m(p \<mapsto> n + 1))" using blk Some by (simp add: count_device_child_def)
    moreover have "rfold (count_device_child s) bs (m(p \<mapsto> n + 1)) = Inr (\<lambda>q. map_option (\<lambda>n. n
      + int (length (filter (\<lambda>b. parent_block_id (the (get_block s b)) = Some q) bs))) ((m(p \<mapsto> n + 1)) q))"
      using Cons.prems by (intro Cons.IH) (fastforce)
    ultimately show ?thesis using blk Some n by (auto simp: fun_eq_iff)
  qed
qed

lemma device_live_set:
  assumes "linked_ok s"
  shows "distinct (device_live s)" "set (device_live s) = {b. on_device s b}"
proof -
  note dok = linked_okD(1) [OF assms]
  show "distinct (device_live s)" unfolding device_live_def using dok by (rule distinct_map_filter)
  have "b \<in> set (device_live s) \<longleftrightarrow> on_device s b" for b
  proof -
    have "b \<in> set (device_live s) \<longleftrightarrow> (\<exists>a. (b, a) \<in> set (blocks s) \<and> device_present (residency (objs s a)))"
      unfolding device_live_def by force
    also have "\<dots> \<longleftrightarrow> on_device s b"
      by (auto simp: dict_items [OF dok] on_device_def get_block_def split: option.splits)
    finally show ?thesis .
  qed
  then show "set (device_live s) = {b. on_device s b}" by blast
qed

lemma count_device_spec:
  assumes "index_ok s"
  shows "\<exists>counts. count_device_children s = Inr counts \<and> device_counts s counts"
proof -
  note l = index_okD(1) [OF assms]
  note live = device_live_set [OF l]
  define m0 :: "block_id \<rightharpoonup> int" where "m0 = map_of (map (\<lambda>b. (b, 0)) (device_live s))"
  have m: "m0 b = (if on_device s b then Some 0 else None)" for b
    unfolding m0_def map_of_map_restrict restrict_map_def live(2) by simp
  have blk: "\<exists>blk. get_block s b = Some blk \<and> (\<forall>p. parent_block_id blk = Some p \<longrightarrow> p \<in> dom m0)"
    if b: "b \<in> set (device_live s)" for b
  proof -
    from b live(2) have od: "on_device s b" by blast
    then obtain blk where blk: "get_block s b = Some blk" by (auto simp: on_device_def split: option.splits)
    have "p \<in> dom m0" if "parent_block_id blk = Some p" for p
      using on_device_parent [OF assms od] linked_okD(5) [OF l blk] that m by auto
    with blk show ?thesis by blast
  qed
  have "length (filter (\<lambda>b. parent_block_id (the (get_block s b)) = Some p) (device_live s)) = card (device_kids s p)" for p
  proof -
    have "set (filter (\<lambda>b. parent_block_id (the (get_block s b)) = Some p) (device_live s)) = device_kids s p"
      using live(2) linked_okD(5) [OF l]
      by (auto simp: device_kids_def kids_of_def parent_step_def on_device_def split: option.splits)
    then show ?thesis using distinct_card [OF distinct_filter [OF live(1)]] by metis
  qed
  then have "rfold (count_device_child s) (device_live s) m0 = Inr (\<lambda>p. map_option (\<lambda>n. n + int (card (device_kids s p))) (m0 p))"
    using count_device_fold [OF blk] by simp
  then show ?thesis unfolding count_device_children_def m0_def [symmetric] by (simp add: device_counts_def m)
qed

text \<open>Demoting one block.\<close>

definition demoted_from :: "addr \<Rightarrow> block_id \<Rightarrow> 'p prefix_index \<Rightarrow> 'p prefix_index \<Rightarrow> bool" where
  "demoted_from a b s s' \<longleftrightarrow> index_ok s' \<and> backend s' = backend s \<and> blocks s' = blocks s
     \<and> objs s' = new_residency s a (\<lambda>r. r\<lparr>device_present := False\<rparr>)"

lemma demote_one:
  assumes ok: "index_ok s" and b: "b \<in> demotable_spec s" "live_block s b = Some a"
  shows "\<exists>s'. oseq (writes (set_residency a (\<lambda>r. r\<lparr>device_present := False\<rparr>)))
      (oseq (validate_block a)
      (oseq (count_up (\<lambda>c. c\<lparr>device_demoted_blocks := device_demoted_blocks c + 1\<rparr>))
        mark_capacity_mutated)) s = (Inr (), s') \<and> demoted_from a b s s'"
proof -
  let ?f = "\<lambda>blk. blk\<lparr>residency := (residency blk)\<lparr>device_present := False\<rparr>\<rparr>"
  let ?s = "update_block a ?f s"
  note d = index_okD [OF ok]
  have blk: "get_block s b = Some (objs s a)" by (rule live_block_get [OF b(2)])
  then have nb: "\<not> demote_blocked (objs s a)" "device_kids s b = {}" using b(1) by (auto simp: demotable_spec_def)
  have val: "residency_validate (residency (?f (objs s a))) = Inr ()"
    using nb(1) by (simp add: demote_blocked_def residency_validate_def)
  have sp: "same_place ?f" by (simp add: same_place_def)
  have child: "\<not> device_present (residency kb)" if "get_block s k = Some kb" "parent_block_id kb = Some b" for k kb
  proof -
    have "k \<in> kids_of (par_of s) b" using linked_okD(5) [OF d(1) that(1)] that(2) by (simp add: kids_of_def parent_step_def)
    with nb(2) have "\<not> on_device s k" by (auto simp: device_kids_def)
    with that(1) show ?thesis by (simp add: on_device_def)
  qed
  have res: "resident_ok ?s"
  proof (rule resident_update [OF d(1) b(2) sp d(2)])
    show "0 \<le> ref_count (?f (objs s a))" using d(2) blk by (simp add: resident_ok_def)
    show "residency_validate (residency (?f (objs s a))) = Inr ()" by (rule val)
    show "(device_present (residency (?f (objs s a))) \<longrightarrow> device_present (residency pb))
        \<and> (host_present (residency (?f (objs s a))) \<longrightarrow> host_present (residency pb))"
      if "parent_block_id (objs s a) = Some p" "get_block s p = Some pb" for p pb
      using that d(2) blk by (auto simp: resident_ok_def)
    show "(device_present (residency kb) \<longrightarrow> device_present (residency (?f (objs s a))))
        \<and> (host_present (residency kb) \<longrightarrow> host_present (residency (?f (objs s a))))"
      if "get_block s k = Some kb" "parent_block_id kb = Some b" for k kb
      using child [OF that] that d(2) blk by (auto simp: resident_ok_def)
  qed
  have base: "base_ok ?s" by (rule update_base [OF index_base [OF ok] b(2) sp res])
  have "bad ?s = bad s"
    using bad_same [OF d(1) b(2)] by (auto simp: bad_update [OF d(1) b(2)] locally_blocked_def fun_eq_iff)
  then have "index_ok ?s" by (rule update_same_bad [OF ok base])
  then have ok2: "index_ok (?s\<lparr>counters := c\<rparr>)" for c by (rule counters_ok)
  let ?s' = "bump_capacity (?s\<lparr>counters := (counters ?s)\<lparr>device_demoted_blocks := device_demoted_blocks (counters ?s) + 1\<rparr>\<rparr>)"
  have "index_ok ?s'" by (rule bump_capacity_ok [OF index_base [OF ok2] index_okD(3) [OF ok2]])
  then have "demoted_from a b s ?s'" by (simp add: demoted_from_def bump_capacity_def)
  moreover have "oseq (writes (set_residency a (\<lambda>r. r\<lparr>device_present := False\<rparr>)))
      (oseq (validate_block a)
      (oseq (count_up (\<lambda>c. c\<lparr>device_demoted_blocks := device_demoted_blocks c + 1\<rparr>))
        mark_capacity_mutated)) s = (Inr (), ?s')"
    using val by (simp add: op_simps set_residency_def validate_block_def count_up_run mark_capacity_run)
  ultimately show ?thesis by blast
qed

lemma demoted_get:
  assumes "linked_ok s" "live_block s b = Some a" "demoted_from a b s s'"
  shows "get_block s' = (get_block s)(b \<mapsto> (objs s a)\<lparr>residency := (residency (objs s a))\<lparr>device_present := False\<rparr>\<rparr>)"
proof -
  have "get_block s' = get_block (update_block a (\<lambda>blk. blk\<lparr>residency := (residency blk)\<lparr>device_present := False\<rparr>\<rparr>) s)"
    using assms(3) by (intro ext) (simp add: demoted_from_def get_block_def)
  then show ?thesis using get_block_update [OF assms(1,2)] by simp
qed

lemma demoted_state:
  assumes ok: "index_ok s" and b: "b \<in> demotable_spec s" "live_block s b = Some a" and dm: "demoted_from a b s s'"
    and q: "q = parent_block_id (objs s a)"
  shows "par_of s' = par_of s" "live_block s' = live_block s" "\<And>x. on_device s' x \<longleftrightarrow> on_device s x \<and> x \<noteq> b"
    "\<And>x. device_kids s' x = device_kids s x - {b}" "\<And>x. x \<noteq> b \<Longrightarrow> candidate s' x = candidate s x"
    "\<And>x. x \<in> demotable_spec s' \<longleftrightarrow> x \<in> demotable_spec s \<and> x \<noteq> b \<or> q = Some x \<and> x \<in> demotable_spec s'"
    "\<And>x. q = Some x \<Longrightarrow> x \<notin> demotable_spec s \<and> b \<in> device_kids s x"
proof -
  note l = index_okD(1) [OF ok] and gb = demoted_get [OF index_okD(1) [OF ok] b(2) dm]
  show par: "par_of s' = par_of s" and "live_block s' = live_block s" using dm by (simp_all add: demoted_from_def)
  show od: "on_device s' x \<longleftrightarrow> on_device s x \<and> x \<noteq> b" for x by (simp add: on_device_def gb)
  show dk: "device_kids s' x = device_kids s x - {b}" for x by (auto simp: device_kids_def par od)
  show "candidate s' x = candidate s x" if "x \<noteq> b" for x using that by (simp add: candidate_def gb)
  have blk: "get_block s b = Some (objs s a)" by (rule live_block_get [OF b(2)])
  have pb: "par_of s b = Some q" using linked_okD(5) [OF l blk] q by simp
  have odb: "on_device s b" using b(1) blk by (auto simp: demotable_spec_def demote_blocked_def on_device_def)
  show pk: "x \<notin> demotable_spec s \<and> b \<in> device_kids s x" if "q = Some x" for x
    using that pb odb by (auto simp: demotable_spec_def device_kids_def kids_of_def parent_step_def)
  have nb: "b \<notin> demotable_spec s'" by (simp add: demotable_spec_def gb demote_blocked_def)
  have other: "x \<in> demotable_spec s' \<longleftrightarrow> x \<in> demotable_spec s" if "x \<noteq> b" "q \<noteq> Some x" for x
  proof -
    have "b \<notin> device_kids s x" using that(2) pb by (auto simp: device_kids_def kids_of_def parent_step_def)
    then have "device_kids s' x = device_kids s x" by (simp add: dk)
    with that(1) show ?thesis by (simp add: demotable_spec_def gb)
  qed
  show "x \<in> demotable_spec s' \<longleftrightarrow> x \<in> demotable_spec s \<and> x \<noteq> b \<or> q = Some x \<and> x \<in> demotable_spec s'" for x
    using nb other pk by (cases "x = b"; cases "q = Some x") auto
qed

text \<open>The counters and the heap follow a demotion.\<close>

lemma counts_demoted:
  assumes ok: "index_ok s" and b: "b \<in> demotable_spec s" "live_block s b = Some a" and dm: "demoted_from a b s s'"
    and q: "parent_block_id (objs s a) = Some p" and dc: "device_counts s counts"
  shows "counts p = Some (int (card (device_kids s' p)) + 1)"
    "device_counts s' (counts(p \<mapsto> int (card (device_kids s' p))))"
proof -
  note st = demoted_state [OF ok b dm refl]
  note l = index_okD(1) [OF ok]
  have blk: "get_block s b = Some (objs s a)" by (rule live_block_get [OF b(2)])
  have pk: "b \<in> device_kids s p" using st(7) q by blast
  then have card: "card (device_kids s p) = Suc (card (device_kids s' p))"
    using card_Suc_Diff1 [OF device_kids_finite [OF l, of p] pk] by (simp add: st(4))
  have "on_device s p" using pk on_device_parent [OF ok] by (auto simp: device_kids_def kids_of_def parent_step_def)
  then show "counts p = Some (int (card (device_kids s' p)) + 1)" using dc card by (simp add: device_counts_def)
  have "device_kids s' x = device_kids s x" if "x \<noteq> p" for x
  proof -
    have "par_of s b = Some (Some p)" using linked_okD(5) [OF l blk] q by simp
    with that have "b \<notin> device_kids s x" by (auto simp: device_kids_def kids_of_def parent_step_def)
    then show ?thesis by (simp add: st(4))
  qed
  with dc show "device_counts s' (counts(p \<mapsto> int (card (device_kids s' p))))"
    by (simp add: device_counts_def st(3))
qed

lemma release_device_spec:
  assumes ok: "index_ok s" and b: "b \<in> demotable_spec s" "live_block s b = Some a" and dm: "demoted_from a b s s'"
    and dc: "device_counts s counts" and heap: "heap_ok (demotable_spec s) s (candidate s b # heap) queued"
  shows "\<exists>counts' heap'. release_device_child (parent_block_id (objs s a)) counts (heap, queued - {b}) s'
      = Inr (counts', heap', demotable_spec s') \<and> device_counts s' counts'
      \<and> heap_ok (demotable_spec s') s' heap' (demotable_spec s')"
proof -
  note st = demoted_state [OF ok b dm refl]
  have l': "linked_ok s'" using dm index_okD(1) by (auto simp: demoted_from_def)
  have h: "sorted heap" "distinct heap" "queued = demotable_spec s" "candidate s b \<notin> set heap"
    "insert (candidate s b) (set heap) = candidate s ` demotable_spec s"
    using heap by (auto simp: heap_ok_def)
  have hs: "set heap = candidate s ` (demotable_spec s - {b})"
    using h(4,5) by (simp add: image_set_diff inj_def) blast
  have set: "set heap = candidate s' ` (demotable_spec s - {b})"
    unfolding hs by (rule image_cong [OF refl]) (simp add: st(5))
  have plain: "heap_ok (demotable_spec s') s' heap (demotable_spec s')" if "demotable_spec s' = demotable_spec s - {b}"
    using h(1,2) set that by (simp add: heap_ok_def)
  show ?thesis
  proof (cases "parent_block_id (objs s a)")
    case None
    with st(6) have eq: "demotable_spec s' = demotable_spec s - {b}" by auto
    have "par_of s b = Some None"
      using None linked_okD(5) [OF index_okD(1) [OF ok] live_block_get [OF b(2)]] by simp
    then have "device_kids s' x = device_kids s x" for x
      by (auto simp: st(4)) (simp add: device_kids_def kids_of_def parent_step_def)
    then have "device_counts s' counts" using dc by (simp add: device_counts_def st(3))
    with None plain [OF eq] h(3) eq show ?thesis by (simp add: release_device_child_def)
  next
    case (Some p)
    note c = counts_demoted [OF ok b dm Some dc]
    let ?c = "counts(p \<mapsto> int (card (device_kids s' p)))"
    note dec = demote_decides [OF l' c(2)]
    have pn: "p \<notin> demotable_spec s" using st(7) Some by blast
    show ?thesis
    proof (cases "p \<in> demotable_spec s'")
      case True
      then have eq: "demotable_spec s' = insert p (demotable_spec s - {b})"
        using st(6) Some by auto
      have "card (device_kids s' p) = 0" using True by (auto simp: demotable_spec_def)
      then have "release_device_child (Some p) counts (heap, queued - {b}) s'
          = Inr (?c, insort (candidate s' p) heap, demotable_spec s')"
        using c(1) True pn h(3) queue_if_run [OF dec, of p heap "queued - {b}"]
        by (simp add: release_device_child_def queue_demotable_eq eq)
      moreover have "candidate s' p \<notin> set heap" using pn by (auto simp: set)
      then have "heap_ok (demotable_spec s') s' (insort (candidate s' p) heap) (demotable_spec s')"
        using h(1,2) by (simp add: heap_ok_def sorted_insort distinct_insort set_insort_key set eq)
      ultimately show ?thesis using Some c(2) by auto
    next
      case False
      then have eq: "demotable_spec s' = demotable_spec s - {b}" using st(6) Some by auto
      have "release_device_child (Some p) counts (heap, queued - {b}) s' = Inr (?c, heap, demotable_spec s')"
      proof -
        have q: "queue_if (demote_test ?c) s' (Some p) (heap, queued - {b}) = Inr (heap, demotable_spec s')"
          using queue_if_run [OF dec, of p heap "queued - {b}"] False pn h(3) eq by simp
        show ?thesis
          unfolding release_device_child_def option.case c(1) Let_def queue_demotable_eq add_diff_cancel_right' q
          using h(3) eq by simp
      qed
      with Some c(2) plain [OF eq] show ?thesis by auto
    qed
  qed
qed

text \<open>
  What demotion promises: it takes, one after the other, the least of the blocks that may
  leave the device at the moment, until their weights reach the target.
\<close>

inductive demote_run :: "('p prefix_block \<Rightarrow> int) \<Rightarrow> 'p prefix_index \<Rightarrow> addr list \<Rightarrow> int \<Rightarrow> 'p prefix_index \<Rightarrow> bool"
  for weight :: "'p prefix_block \<Rightarrow> int" where
  demote_stop: "demote_run weight s [] 0 s"
| demote_next: "b \<in> demotable_spec s \<Longrightarrow> (\<And>x. x \<in> demotable_spec s \<Longrightarrow> candidate s b \<le> candidate s x) \<Longrightarrow>
    live_block s b = Some a \<Longrightarrow> demoted_from a b s s1 \<Longrightarrow> demote_run weight s1 as w s' \<Longrightarrow>
    demote_run weight s (a # as) (weight (objs s a) + w) s'"

definition demote_outcome :: "('p prefix_block \<Rightarrow> int) \<Rightarrow> int \<Rightarrow> int \<Rightarrow> addr list \<Rightarrow> 'p prefix_index
    \<Rightarrow> addr list result \<times> 'p prefix_index \<Rightarrow> bool" where
  "demote_outcome weight needed w0 ev s res \<longleftrightarrow> index_ok (snd res) \<and>
     (case fst res of
        Inl e \<Rightarrow> e = ValueError ''Prefix cache demotion weight must be non-negative'' \<and> (\<exists>blk. weight blk < 0)
      | Inr as \<Rightarrow> \<exists>as' w. as = ev @ as' \<and> demote_run weight s as' w (snd res)
          \<and> (needed \<le> w0 + w \<or> demotable_spec (snd res) = {}))"

lemma on_device_finite: "linked_ok s \<Longrightarrow> finite {b. on_device s b}"
  using device_live_set(2) [of s] by (metis List.finite_set)

lemma demote_outcome_step:
  assumes "b \<in> demotable_spec s" "\<And>x. x \<in> demotable_spec s \<Longrightarrow> candidate s b \<le> candidate s x"
    "live_block s b = Some a" "demoted_from a b s s1" "demote_outcome weight needed (w + weight (objs s a)) (ev @ [a]) s1 res"
  shows "demote_outcome weight needed w ev s res"
proof (cases "fst res")
  case (Inl e)
  with assms(5) show ?thesis by (simp add: demote_outcome_def)
next
  case (Inr as)
  then obtain as' w' where r: "as = (ev @ [a]) @ as'" "demote_run weight s1 as' w' (snd res)"
    "needed \<le> w + weight (objs s a) + w' \<or> demotable_spec (snd res) = {}" "index_ok (snd res)"
    using assms(5) by (auto simp: demote_outcome_def)
  have "demote_run weight s (a # as') (weight (objs s a) + w') (snd res)"
    using assms(1-4) r(2) by (rule demote_next)
  with r Inr show ?thesis by (force simp: demote_outcome_def add.assoc)
qed

lemma oseq_assoc: "oseq (oseq a b) c = oseq a (oseq b c)"
  by (auto simp: oseq_def obind_def fun_eq_iff split: prod.splits sum.splits)

lemma demote_loop_spec:
  assumes "index_ok s" "device_counts s counts" "heap_ok (demotable_spec s) s heap queued"
    "card {b. on_device s b} < fuel"
  shows "demote_outcome weight needed w ev s (demote_loop fuel weight needed w counts (heap, queued) ev s)"
  using assms
proof (induction fuel arbitrary: s counts heap queued w ev)
  case (Suc fuel)
  note l = index_okD(1) [OF Suc.prems(1)]
  show ?case
  proof (cases "needed \<le> w")
    case True
    then show ?thesis using Suc.prems(1) demote_stop [of weight s] by (force simp: demote_outcome_def)
  next
    case less: False
    show ?thesis
    proof (cases heap)
      case Nil
      with Suc.prems(3) have "demotable_spec s = {}" "pop_demotable counts s heap queued = Inr None" by (auto simp: heap_ok_def)
      with less Suc.prems(1) demote_stop [of weight s] show ?thesis by (force simp: demote_outcome_def op_simps)
    next
      case (Cons e rest)
      obtain b a where b: "e = candidate s b" "b \<in> demotable_spec s" "live_block s b = Some a"
        "\<forall>x \<in> demotable_spec s. candidate s b \<le> candidate s x"
        "pop_demotable counts s heap queued = Inr (Some (a, rest, queued - {b}))"
        using pop_least [OF demote_decides [OF l Suc.prems(2)]] Suc.prems(3) Cons unfolding pop_demotable_eq by blast
      show ?thesis
      proof (cases "weight (objs s a) < 0")
        case True
        with less b(5) Suc.prems(1) show ?thesis by (auto simp: demote_outcome_def op_simps)
      next
        case False
        obtain s1 where s1: "oseq (writes (set_residency a (\<lambda>r. r\<lparr>device_present := False\<rparr>)))
            (oseq (validate_block a)
            (oseq (count_up (\<lambda>c. c\<lparr>device_demoted_blocks := device_demoted_blocks c + 1\<rparr>))
              mark_capacity_mutated)) s = (Inr (), s1)" "demoted_from a b s s1"
          using demote_one [OF Suc.prems(1) b(2,3)] by blast
        obtain counts' heap' where h: "release_device_child (parent_block_id (objs s a)) counts (rest, queued - {b}) s1
            = Inr (counts', heap', demotable_spec s1)" "device_counts s1 counts'"
            "heap_ok (demotable_spec s1) s1 heap' (demotable_spec s1)"
          using release_device_spec [OF Suc.prems(1) b(2,3) s1(2) Suc.prems(2)] Suc.prems(3) Cons b(1) by blast
        let ?w = "weight (objs s a)"
        have "{x. on_device s1 x} = {x. on_device s x} - {b}" "on_device s b"
          using demoted_state(3) [OF Suc.prems(1) b(2,3) s1(2) refl] b(2)
          by (auto simp: demotable_spec_def demote_blocked_def on_device_def)
        then have dev: "card {x. on_device s1 x} < fuel"
          using card_Suc_Diff1 [OF on_device_finite [OF l], of b] Suc.prems(4) by simp
        have cont: "oseq (writes (set_residency a (\<lambda>r. r\<lparr>device_present := False\<rparr>)))
            (oseq (validate_block a)
            (oseq (count_up (\<lambda>c. c\<lparr>device_demoted_blocks := device_demoted_blocks c + 1\<rparr>))
            (oseq mark_capacity_mutated k))) s = k s1" for k :: "('a, addr list) index_op"
          unfolding oseq_assoc [symmetric] using s1(1) by (intro oseq_Inr) (simp add: oseq_assoc)
        have run: "demote_loop (Suc fuel) weight needed w counts (heap, queued) ev s
          = demote_loop fuel weight needed (w + ?w) counts' (heap', demotable_spec s1) (ev @ [a]) s1"
          using less b(5) False h(1) by (subst demote_loop.simps) (simp add: op_simps cont del: demote_loop.simps)
        have "demote_outcome weight needed (w + ?w) (ev @ [a]) s1
            (demote_loop fuel weight needed (w + ?w) counts' (heap', demotable_spec s1) (ev @ [a]) s1)"
          using s1(2) h(2,3) dev by (intro Suc.IH) (simp_all add: demoted_from_def)
        with b(4) show ?thesis unfolding run by (intro demote_outcome_step [OF b(2) _ b(3) s1(2)]) blast
      qed
    qed
  qed
qed simp

lemma demote_device_spec:
  assumes "index_ok s"
  shows "demote_outcome weight needed 0 [] s (demote_device_until_weight weight needed s)"
proof (cases "needed \<le> 0")
  case True
  with assms demote_stop [of weight s] show ?thesis
    by (force simp: demote_device_until_weight_def demote_outcome_def)
next
  case False
  note l = index_okD(1) [OF assms]
  note live = device_live_set [OF l]
  obtain counts where c: "count_device_children s = Inr counts" "device_counts s counts"
    using count_device_spec [OF assms] by blast
  let ?bs = "filter (\<lambda>b. counts b = Some 0) (device_live s)"
  have "demotable_spec s \<subseteq> set ?bs"
  proof
    fix b
    assume b: "b \<in> demotable_spec s"
    then have "on_device s b" "device_kids s b = {}" by (auto simp: demotable_spec_def demote_blocked_def on_device_def)
    with c(2) live(2) show "b \<in> set ?bs" by (simp add: device_counts_def)
  qed
  then have "set ?bs \<inter> demotable_spec s = demotable_spec s" by blast
  then obtain heap where heap: "rfold (queue_if_demotable counts s) ?bs ([], {}) = Inr (heap, demotable_spec s)"
    "heap_ok (demotable_spec s) s heap (demotable_spec s)"
    using queue_leaves [OF demote_decides [OF l c(2)], of ?bs "[]" "{}"] live(1)
    by (auto simp: queue_demotable_eq [abs_def] heap_ok_def)
  have "card {b. on_device s b} \<le> length (blocks s)"
    using distinct_card [OF live(1)] unfolding live(2) [symmetric] by (simp add: device_live_def)
  then have "demote_outcome weight needed 0 [] s
      (demote_loop (Suc (length (blocks s))) weight needed 0 counts (heap, demotable_spec s) [] s)"
    by (intro demote_loop_spec [OF assms c(2) heap(2)]) simp
  moreover have "demote_device_until_weight weight needed s
      = demote_loop (Suc (length (blocks s))) weight needed 0 counts (heap, demotable_spec s) [] s"
    using False c(1) heap(1) by (simp add: demote_device_until_weight_def op_simps del: demote_loop.simps)
  ultimately show ?thesis by simp
qed

lemma demote_keeps [keeps_intro]:
  "keeps index_ok (demote_device_until_weight weight n)" "keeps index_ok (demote_device_until_freeable n)"
  using demote_device_spec by (auto simp: keeps_def demote_outcome_def demote_device_until_freeable_def)

section \<open>Control operations\<close>

lemma inspect_keeps [keeps_intro]: "keeps index_ok (inspect_prefix sha256 retained tokens sub)"
  unfolding inspect_prefix_def by (intro keeps_intro)

lemma preview_keeps [keeps_intro]: "keeps index_ok (preview_delete_subtree sha256 tokens)"
  unfolding preview_delete_subtree_def by (intro keeps_intro)

lemma remove_object_keeps [keeps_intro]: "keeps index_ok (\<lambda>s. remove_block_from_index (block_key (objs s a)) s)"
  using remove_keeps unfolding keeps_def by blast

lemma apply_deletes_keeps [keeps_intro]: "keeps index_ok (apply_deletes as deleted)"
  by (induction as arbitrary: deleted) (auto intro!: keeps_intro)

lemma safe_delete_keeps [keeps_intro]: "keeps index_ok (safe_delete_subtree sha256 tokens)"
  unfolding safe_delete_subtree_def by (intro keeps_intro)

lemma index_stats_keeps [keeps_intro]: "keeps index_ok index_stats"
  unfolding index_stats_def
  by (intro keeps_intro) (auto split: prod.splits intro!: keeps_intro)

text \<open>
  While the priorities of a subtree change, the cached sets may be out of date: they are
  right again as soon as the capacity epoch moves.  Without a change of sign nothing that
  the caches depend on has changed.
\<close>

definition mid_priority :: "bool \<Rightarrow> 'p prefix_index \<Rightarrow> bool" where
  "mid_priority cap s \<longleftrightarrow> base_ok s \<and> tracked_ok s \<and> (\<not> cap \<longrightarrow> index_ok s)"

lemma set_priority_base:
  assumes "base_ok s" "live_block s b = Some a"
  shows "base_ok (update_block a (\<lambda>blk. blk\<lparr>eviction_priority := n\<rparr>) s)"
proof -
  let ?f = "\<lambda>blk. blk\<lparr>eviction_priority := n\<rparr>"
  have l: "linked_ok s" and r: "resident_ok s" using assms(1) by (simp_all add: base_ok_def)
  have sp: "same_place ?f" by (simp add: same_place_def)
  note blk = live_block_get [OF assms(2)]
  have "resident_ok (update_block a ?f s)"
  proof (rule resident_update [OF l assms(2) sp r])
    show "0 \<le> ref_count (?f (objs s a))" "residency_validate (residency (?f (objs s a))) = Inr ()"
      using r blk by (auto simp: resident_ok_def)
    show "(device_present (residency (?f (objs s a))) \<longrightarrow> device_present (residency pb))
        \<and> (host_present (residency (?f (objs s a))) \<longrightarrow> host_present (residency pb))"
      if "parent_block_id (objs s a) = Some p" "get_block s p = Some pb" for p pb
      using that r blk by (auto simp: resident_ok_def)
    show "(device_present (residency kb) \<longrightarrow> device_present (residency (?f (objs s a))))
        \<and> (host_present (residency kb) \<longrightarrow> host_present (residency (?f (objs s a))))"
      if "get_block s k = Some kb" "parent_block_id kb = Some b" for k kb
      using that r blk by (auto simp: resident_ok_def)
  qed
  then show ?thesis by (rule update_base [OF assms(1) assms(2) sp])
qed

lemma set_priority_step:
  assumes mid: "mid_priority cap s" and live: "live_block s b = Some a" and old: "old = eviction_priority (objs s a)"
  shows "\<exists>s'. oseq (writes (update_block a (\<lambda>blk. blk\<lparr>eviction_priority := n\<rparr>)))
      (if (old < 0) \<noteq> (n < 0) then refresh_freeable_path (Some b) else ret ()) s = (Inr (), s')
    \<and> mid_priority (cap \<or> (old < 0) \<noteq> (n < 0)) s' \<and> blocks s' = blocks s \<and> backend s' = backend s
    \<and> objs s' = (objs s)(a := (objs s a)\<lparr>eviction_priority := n\<rparr>)"
proof -
  let ?f = "\<lambda>blk. blk\<lparr>eviction_priority := n\<rparr>"
  let ?s = "update_block a ?f s"
  have l: "linked_ok s" and t: "tracked_ok s" and b: "base_ok s" using mid by (simp_all add: mid_priority_def base_ok_def)
  have base: "base_ok ?s" by (rule set_priority_base [OF b live])
  show ?thesis
  proof (cases "(old < 0) \<noteq> (n < 0)")
    case True
    have "b \<in> dom (par_of ?s)" using live_par [OF l] live by simp
    from refresh_restores [OF base update_tracked_but [OF l live t] this] True show ?thesis
      by (auto simp: op_simps mid_priority_def)
  next
    case False
    then have "bad ?s = bad s"
      using bad_same [OF l live] old by (auto simp: bad_update [OF l live] locally_blocked_def fun_eq_iff)
    moreover have "tracked_ok ?s" using calculation t by (simp add: tracked_ok_def cong: option.case_cong)
    ultimately have "mid_priority cap ?s" using mid base update_same_bad by (auto simp: mid_priority_def)
    with False show ?thesis by (auto simp: op_simps)
  qed
qed

lemma priority_loop_spec:
  assumes "mid_priority cap s"
  shows "\<exists>n' ch' cap' s'. priority_loop priority bs (n, ch, cap) s = (Inr (n', ch', cap'), s') \<and> mid_priority cap' s'
    \<and> blocks s' = blocks s \<and> backend s' = backend s \<and> n' = n + int (length (filter (\<lambda>b. b \<in> dom (live_block s)) bs))
    \<and> (\<forall>b. get_block s' b = (if b \<in> set bs then map_option (\<lambda>blk. blk\<lparr>eviction_priority := priority\<rparr>) (get_block s b)
         else get_block s b))"
  using assms
proof (induction bs arbitrary: n ch cap s)
  case (Cons b bs)
  show ?case
  proof (cases "live_block s b")
    case None
    then have nb: "get_block s b = None" "b \<notin> dom (live_block s)" by (simp_all add: get_block_def domIff)
    obtain n' ch' cap' s' where r: "priority_loop priority bs (n, ch, cap) s = (Inr (n', ch', cap'), s')" "mid_priority cap' s'"
      "blocks s' = blocks s" "backend s' = backend s" "n' = n + int (length (filter (\<lambda>b. b \<in> dom (live_block s)) bs))"
      "\<forall>b. get_block s' b = (if b \<in> set bs then map_option (\<lambda>blk. blk\<lparr>eviction_priority := priority\<rparr>) (get_block s b)
         else get_block s b)" using Cons.IH [OF Cons.prems] by blast
    from r(6) nb have "\<forall>x. get_block s' x = (if x \<in> set (b # bs) then map_option (\<lambda>blk. blk\<lparr>eviction_priority := priority\<rparr>)
        (get_block s x) else get_block s x)" by auto
    with r(1-5) nb None show ?thesis by (simp add: op_simps)
  next
    case (Some a)
    let ?old = "eviction_priority (objs s a)"
    note l = update_core_base [OF Cons.prems [unfolded mid_priority_def, THEN conjunct1]]
    define cap1 where "cap1 = (cap \<or> (?old < 0) \<noteq> (priority < 0))"
    obtain s1 where s1: "oseq (writes (update_block a (\<lambda>blk. blk\<lparr>eviction_priority := priority\<rparr>)))
        (if (?old < 0) \<noteq> (priority < 0) then refresh_freeable_path (Some b) else ret ()) s = (Inr (), s1)"
        "mid_priority cap1 s1" "blocks s1 = blocks s" "backend s1 = backend s"
        "objs s1 = (objs s)(a := (objs s a)\<lparr>eviction_priority := priority\<rparr>)"
      using set_priority_step [OF Cons.prems Some refl] unfolding cap1_def by blast
    have step: "oseq (writes (update_block a (\<lambda>blk. blk\<lparr>eviction_priority := priority\<rparr>)))
        (oseq (if (?old < 0) \<noteq> (priority < 0) then refresh_freeable_path (Some b) else ret ()) k) s = k s1"
      for k :: "('a, int \<times> bool \<times> bool) index_op"
      unfolding oseq_assoc [symmetric] by (rule oseq_Inr [where x = "()"]) (rule s1(1))
    have g1: "get_block s1 = (get_block s)(b \<mapsto> (objs s a)\<lparr>eviction_priority := priority\<rparr>)"
    proof -
      have "get_block s1 = get_block (update_block a (\<lambda>blk. blk\<lparr>eviction_priority := priority\<rparr>) s)"
        using s1(3,5) by (intro ext) (simp add: get_block_def)
      then show ?thesis using get_block_update [OF l Some] by simp
    qed
    note gb = live_block_get [OF Some]
    show ?thesis
    proof (cases "?old = priority")
      case True
      then have "(objs s a)\<lparr>eviction_priority := priority\<rparr> = objs s a" by simp
      with Cons.IH [OF Cons.prems, of "n + 1" ch] Some True gb show ?thesis by (force simp: op_simps)
    next
      case False
      have "\<exists>n' ch' cap' s'. priority_loop priority bs (n + 1, True, cap1) s1 = (Inr (n', ch', cap'), s') \<and> mid_priority cap' s'
        \<and> blocks s' = blocks s \<and> backend s' = backend s \<and> n' = n + 1 + int (length (filter (\<lambda>b. b \<in> dom (live_block s)) bs))
        \<and> (\<forall>b. get_block s' b = (if b \<in> set bs then map_option (\<lambda>blk. blk\<lparr>eviction_priority := priority\<rparr>) (get_block s1 b)
         else get_block s1 b))"
        using Cons.IH [OF s1(2), of "n + 1" True] unfolding s1(3,4) .
      with Some False gb step show ?thesis by (fastforce simp: op_simps g1 cap1_def)
    qed
  qed
qed (simp add: op_simps)

lemma set_priority_keeps [keeps_intro]: "keeps index_ok (set_subtree_eviction_priority sha256 tokens priority)"
proof -
  have loop: "keeps (index_ok :: 'a prefix_index \<Rightarrow> bool) (obind (priority_loop priority sub (0, False, False)) (\<lambda>(n, changed, capacity_changed).
     oseq (if capacity_changed then mark_capacity_mutated else if changed then mark_mutated else ret ())
       (ret \<lparr>pr_matched = True, pr_reason = None, pr_root = last_id, pr_updated = n, pr_priority = priority\<rparr>)))"
    for sub last_id
  proof (rule keepsI)
    fix s :: "'a prefix_index"
    assume ok: "index_ok s"
    then have "mid_priority False s" by (simp add: mid_priority_def index_base index_okD)
    then obtain n ch cap s' where s': "priority_loop priority sub (0, False, False) s = (Inr (n, ch, cap), s')"
      "mid_priority cap s'" using priority_loop_spec by blast
    have "index_ok (bump_capacity s')" using s'(2) bump_capacity_ok by (auto simp: mid_priority_def)
    moreover have "index_ok (snd (mark_mutated s'))" if "\<not> cap"
      using s'(2) that keepsD [OF mark_mutated_keeps] by (auto simp: mid_priority_def)
    ultimately show "index_ok (snd (obind (priority_loop priority sub (0, False, False)) (\<lambda>(n, changed, capacity_changed).
        oseq (if capacity_changed then mark_capacity_mutated else if changed then mark_mutated else ret ())
        (ret \<lparr>pr_matched = True, pr_reason = None, pr_root = last_id, pr_updated = n, pr_priority = priority\<rparr>)) s))"
      using s' by (auto simp: op_simps mark_capacity_run mid_priority_def mark_mutated_def)
  qed
  show ?thesis
    unfolding set_subtree_eviction_priority_def
    by (intro keeps_intro) (auto split: prod.splits intro!: keeps_intro loop)
qed

section \<open>Reachable states\<close>

text \<open>
  The public methods of the index as calls.  \<open>NewObject\<close> is the caller's construction of (or
  assignment to) a block object that the index does not hold; \<open>StorePayload\<close> is the owner of the
  payloads replacing the payload and the prune record of a block.
\<close>

datatype 'p index_call =
    NewObject addr "'p prefix_block"
  | StorePayload addr 'p "'p option"
  | MatchIds "block_id list" | MatchPrefix "int list" int
  | LookupIds "block_id list" | LookupPrefix "int list" int
  | GetChain block_id int | TouchChain "addr list"
  | AcquireRef addr | ReleaseRef addr string
  | BeginD2H addr | FinishD2H addr | AbortD2H addr
  | BeginH2D addr | FinishH2D addr | AbortH2D addr
  | InsertBlock addr | RollbackLeaf addr | RemoveBlock block_id
  | EnsureCapacity int
  | EvictWeight "'p prefix_block \<Rightarrow> int" int | EvictHostWeight "'p prefix_block \<Rightarrow> int" int
  | DemoteWeight "'p prefix_block \<Rightarrow> int" int
  | FreeableIds | EvictableIds | ReclaimableIds bool
  | Compacted "addr list" | Snapshot string
  | Inspect "int list" bool | PreviewDelete "int list" | DeleteSubtree "int list" | SetPriority "int list" int
  | Stats

fun run_call :: "(bytes \<Rightarrow> bytes) \<Rightarrow> ('p \<Rightarrow> int option) \<Rightarrow> 'p index_call \<Rightarrow> 'p prefix_index \<Rightarrow> 'p prefix_index" where
  "run_call h r (NewObject a blk) s = s\<lparr>objs := (objs s)(a := blk)\<rparr>"
| "run_call h r (StorePayload a p q) s = update_block a (\<lambda>blk. blk\<lparr>payload := p, prune_record := q\<rparr>) s"
| "run_call h r (MatchIds ids) s = snd (match_longest_block_ids ids s)"
| "run_call h r (MatchPrefix ts m) s = snd (match_longest_prefix h ts m s)"
| "run_call h r (LookupIds ids) s = snd (lookup_longest_block_ids ids s)"
| "run_call h r (LookupPrefix ts m) s = snd (lookup_longest_prefix h ts m s)"
| "run_call h r (GetChain b n) s = snd (get_chain b n s)"
| "run_call h r (TouchChain as) s = snd (touch_chain as s)"
| "run_call h r (AcquireRef a) s = snd (acquire_block_ref a s)"
| "run_call h r (ReleaseRef a e) s = snd (release_block_ref a e s)"
| "run_call h r (BeginD2H a) s = snd (begin_d2h a s)"
| "run_call h r (FinishD2H a) s = snd (finish_d2h a s)"
| "run_call h r (AbortD2H a) s = snd (abort_d2h a s)"
| "run_call h r (BeginH2D a) s = snd (begin_h2d a s)"
| "run_call h r (FinishH2D a) s = snd (finish_h2d a s)"
| "run_call h r (AbortH2D a) s = snd (abort_h2d a s)"
| "run_call h r (InsertBlock a) s = snd (insert_block a s)"
| "run_call h r (RollbackLeaf a) s = snd (rollback_inserted_leaf a s)"
| "run_call h r (RemoveBlock b) s = snd (remove_block_from_index b s)"
| "run_call h r (EnsureCapacity n) s = snd (ensure_insert_capacity n s)"
| "run_call h r (EvictWeight w n) s = snd (evict_until_weight w n s)"
| "run_call h r (EvictHostWeight w n) s = snd (evict_host_until_weight w n s)"
| "run_call h r (DemoteWeight w n) s = snd (demote_device_until_weight w n s)"
| "run_call h r FreeableIds s = snd (freeable_block_ids s)"
| "run_call h r EvictableIds s = snd (evictable_block_ids s)"
| "run_call h r (ReclaimableIds i) s = snd (device_reclaimable_block_ids i s)"
| "run_call h r (Compacted as) s = snd (mark_payload_compacted as s)"
| "run_call h r (Snapshot m) s = snd (take_routing_snapshot m s)"
| "run_call h r (Inspect ts sub) s = snd (inspect_prefix h r ts sub s)"
| "run_call h r (PreviewDelete ts) s = snd (preview_delete_subtree h ts s)"
| "run_call h r (DeleteSubtree ts) s = snd (safe_delete_subtree h ts s)"
| "run_call h r (SetPriority ts n) s = snd (set_subtree_eviction_priority h ts n s)"
| "run_call h r Stats s = snd (index_stats s)"

text \<open>
  What callers may do: they create objects the index does not hold, and the blocks they
  insert have a reference count that is not negative.
\<close>

fun allowed :: "'p index_call \<Rightarrow> 'p prefix_index \<Rightarrow> bool" where
  "allowed (NewObject a blk) s \<longleftrightarrow> a \<notin> set (map snd (blocks s))"
| "allowed (InsertBlock a) s \<longleftrightarrow> 0 \<le> ref_count (objs s a)"
| "allowed _ s \<longleftrightarrow> True"

inductive reachable_index :: "(bytes \<Rightarrow> bytes) \<Rightarrow> ('p \<Rightarrow> int option) \<Rightarrow> 'p prefix_index \<Rightarrow> bool"
  for h :: "bytes \<Rightarrow> bytes" and r :: "'p \<Rightarrow> int option" where
  fresh_index: "init_index heap block_size fingerprint limit = Inr s \<Longrightarrow> reachable_index h r s"
| next_call: "reachable_index h r s \<Longrightarrow> allowed c s \<Longrightarrow> reachable_index h r (run_call h r c s)"

lemma init_index_ok:
  assumes "init_index heap block_size fingerprint limit = Inr s"
  shows "index_ok s"
proof -
  have s: "0 < block_size" "\<forall>m. limit = Some m \<longrightarrow> 0 < m" "blocks s = []" "backend s = init_backend" "freeable_ids s = None"
    "freeable_cache s = (-1, {})" "evictable_cache s = (-1, {})" "capacity_epoch (epochs s) = 0"
    "membership s = empty_membership" "snapshot s = None" "idx_block_size s = block_size" "max_blocks s = limit"
    using assms by (auto simp: init_index_def not_less split: if_splits)
  show ?thesis
    using s(1,2) by (auto simp: index_ok_def linked_ok_def resident_ok_def tracked_ok_def caches_ok_def routing_ok_def
        sized_ok_def cache_ok_def get_block_def s(3-) init_backend_ok
        rset.ok_empty rset.ids_empty)
qed

lemma new_object_keeps:
  assumes "index_ok s" "a \<notin> set (map snd (blocks s))"
  shows "index_ok (s\<lparr>objs := (objs s)(a := blk)\<rparr>)"
proof -
  have "live_block s b \<noteq> Some a" for b
    using assms dict_values [of "blocks s" a] index_okD(1) linked_okD(1) by auto
  then have "get_block (s\<lparr>objs := (objs s)(a := blk)\<rparr>) = get_block s" by (auto simp: get_block_def fun_eq_iff map_option_case split: option.splits)
  then have "core_eq s (s\<lparr>objs := (objs s)(a := blk)\<rparr>)" by (simp add: core_eq_def)
  then show ?thesis using core_index assms(1) by blast
qed

lemma store_payload_keeps:
  assumes "index_ok s"
  shows "index_ok (update_block a (\<lambda>blk. blk\<lparr>payload := p, prune_record := q\<rparr>) s)"
proof -
  have "core_eq s (update_block a (\<lambda>blk. blk\<lparr>payload := p, prune_record := q\<rparr>) s)"
    by (auto simp: core_eq_def update_block_def get_block_def core_def fun_eq_iff map_option_case split: option.splits)
  then show ?thesis using core_index assms(1) by blast
qed

lemma run_call_ok:
  assumes "index_ok s" "allowed c s"
  shows "index_ok (run_call h r c s)"
  using assms(2)
proof (cases c)
  case (NewObject a blk)
  with assms new_object_keeps show ?thesis by simp
next
  case (InsertBlock a)
  with assms insert_block_ok show ?thesis by simp
qed (simp_all add: store_payload_keeps assms(1) keepsD [where P = index_ok and s = s] keeps_intro del: set_map)

text \<open>
  C1. Every state that the public methods of the prefix index can reach from a fresh index is
  well formed, whatever the arguments and also after a method has raised: the dictionary of
  blocks and the radix tree describe the same forest; reference counts are not negative,
  residencies are valid, and device and host payloads lie on whole paths from the root; the
  incrementally maintained freeable set and the cached sets of the current epoch equal their
  specifications; the routing membership holds exactly the live ids; and the number of
  blocks respects the capacity.
\<close>

theorem reachable_index_ok:
  "reachable_index h r s \<Longrightarrow> index_ok s"
proof (induction rule: reachable_index.induct)
  case (fresh_index heap block_size fingerprint limit s)
  then show ?case by (rule init_index_ok)
next
  case (next_call s c)
  then show ?case by (intro run_call_ok)
qed


section \<open>A concrete index\<close>

text \<open>An index with blocks of two tokens, at most four blocks, and two blocks in one chain.\<close>

definition sample_block :: "block_id \<Rightarrow> block_id option \<Rightarrow> unit prefix_block" where
  "sample_block b q = \<lparr>block_key = b, parent_block_id = q, block_tokens = 2, logical_block_idx = 0, payload = (),
     token_ids = [], ref_count = 0, last_access = 0, eviction_priority = 0,
     residency = \<lparr>device_present = True, host_present = False, transfer = None\<rparr>, prune_record = None\<rparr>"

definition sample_fresh :: "unit prefix_index" where
  "sample_fresh = (case init_index (\<lambda>_. sample_block [] None) 2 [] (Some 4) of Inr s \<Rightarrow> s | Inl _ \<Rightarrow> undefined)"

definition sample_calls :: "unit index_call list" where
  "sample_calls = [NewObject 0 (sample_block [1] None), InsertBlock 0, NewObject 1 (sample_block [2] (Some [1])), InsertBlock 1]"

definition sample_index :: "unit prefix_index" where
  "sample_index = fold (run_call (\<lambda>x. x) (\<lambda>_. None)) sample_calls sample_fresh"

lemma sample_fresh_eq: "init_index (\<lambda>_. sample_block [] None) 2 [] (Some 4) = Inr sample_fresh"
  by (simp add: sample_fresh_def init_index_def)

lemma sample_blocks: "blocks sample_index = [([1], 0), ([2], 1)]"
  by code_simp

fun all_allowed :: "(bytes \<Rightarrow> bytes) \<Rightarrow> ('p \<Rightarrow> int option) \<Rightarrow> 'p index_call list \<Rightarrow> 'p prefix_index \<Rightarrow> bool" where
  "all_allowed h r [] s = True"
| "all_allowed h r (c # cs) s = (allowed c s \<and> all_allowed h r cs (run_call h r c s))"

lemma reachable_calls:
  "reachable_index h r s \<Longrightarrow> all_allowed h r cs s \<Longrightarrow> reachable_index h r (fold (run_call h r) cs s)"
  by (induction cs arbitrary: s) (auto intro: next_call)

lemma sample_reachable: "reachable_index (\<lambda>x. x) (\<lambda>_. None) sample_index"
proof -
  have "all_allowed (\<lambda>x. x) (\<lambda>_. None) sample_calls sample_fresh" by code_simp
  with fresh_index [OF sample_fresh_eq] show ?thesis unfolding sample_index_def by (intro reachable_calls)
qed

theorem reachable_index_ok_witness:
  "reachable_index (\<lambda>x. x) (\<lambda>_. None) sample_index \<and> index_ok sample_index \<and> blocks sample_index = [([1], 0), ([2], 1)]"
  using sample_reachable reachable_index_ok [OF sample_reachable] sample_blocks by blast

lemma sample_index_ok: "index_ok sample_index"
proof -
  have "index_ok s \<Longrightarrow> all_allowed h r cs s \<Longrightarrow> index_ok (fold (run_call h r) cs s)" for h r cs and s :: "unit prefix_index"
    by (induction cs arbitrary: s) (auto intro: run_call_ok)
  moreover have "all_allowed (\<lambda>x. x) (\<lambda>_. None) sample_calls sample_fresh" by code_simp
  ultimately show ?thesis using init_index_ok [OF sample_fresh_eq] unfolding sample_index_def by blast
qed

end
