(* ===== verification/Prefix_Use.thy ===== *)
theory Prefix_Use
  imports Prefix_Capacity
begin

text \<open>
  What insertion, lookup, routing snapshots and the control operations of the prefix index
  promise: commits and their round trip through a lookup, the agreement of a routing snapshot
  with the live index, the deletion of a subtree, and the priorities of a subtree.
\<close>

section \<open>Insertion\<close>

lemma insert_block_cases:
  assumes ok: "index_ok s" and ref: "0 \<le> ref_count (objs s a)" and b: "b = block_key (objs s a)"
  shows "\<exists>r s'. insert_block a s = (r, s') \<and> index_ok s' \<and>
    (case r of
       Inl e \<Rightarrow> blocks s' = blocks s \<and> backend s' = backend s \<and> objs s' = objs s
     | Inr e \<Rightarrow> live_block s b = Some e \<and> blocks s' = blocks s \<and> backend s' = backend s
           \<and> objs s' = (objs s)(e := (objs s e)\<lparr>last_access := clock s + 1\<rparr>)
         \<or> live_block s b = None \<and> e = a \<and> live_block s' = (live_block s)(b \<mapsto> a)
           \<and> par_of s' = (par_of s)(b \<mapsto> parent_block_id (objs s a))
           \<and> objs s' = (objs s)(a := (objs s a)\<lparr>last_access := clock s + 1\<rparr>))"
proof -
  have keep: "index_ok (snd (insert_block a s))" by (rule insert_block_ok [OF ok ref])
  show ?thesis
  proof (cases "residency_validate (residency (objs s a))")
    case (Inl e)
    with ok show ?thesis by (simp add: insert_block_def op_simps)
  next
    case (Inr u)
    show ?thesis
    proof (cases "live_block s b")
      case (Some e)
      then have "insert_block a s = (Inr e, touched e (s\<lparr>counters := (counters s)\<lparr>duplicate_commits := duplicate_commits (counters s) + 1\<rparr>\<rparr>))"
        using Inr b by (simp add: insert_block_def op_simps touch_run count_up_run)
      with keep Some show ?thesis by (simp add: touched_objs)
    next
      case None
      then have run: "insert_block a s = insert_new_block a s" using Inr b by (simp add: insert_block_def op_simps)
      consider "over_capacity s" | e where "\<not> over_capacity s" "check_insert_parent (objs s a) s = Inl e"
        | "\<not> over_capacity s" "check_insert_parent (objs s a) s = Inr ()"
        by (cases "check_insert_parent (objs s a) s") auto
      then show ?thesis
      proof cases
        case 1
        obtain s' where s': "evictable_block_ids s = (Inr (evictable_spec s), s')" "index_ok s'" "same_blocks s s'"
          using evictable_block_ids_run [OF ok] by blast
        with 1 show ?thesis unfolding run by (simp add: insert_new_block_def op_simps same_blocks_def)
      next
        case 2
        with ok show ?thesis unfolding run by (simp add: insert_new_block_def op_simps)
      next
        case 3
        have "b \<notin> dom (live_block s)" using None by (simp add: domIff)
        from insert_new_run [OF ok b this 3 _ ref] Inr None show ?thesis unfolding run by auto
      qed
    qed
  qed
qed

text \<open>
  Committing a block either raises and leaves dictionary, tree and blocks as they were, or
  returns the block that is already indexed under that id and only marks it as used, or adds
  exactly this block below its parent.  The index stays well formed.
\<close>

theorem insert_block_effect:
  assumes "index_ok s" "0 \<le> ref_count (objs s a)"
  shows "\<exists>r s'. insert_block a s = (r, s') \<and> index_ok s' \<and>
    (case r of
       Inl e \<Rightarrow> blocks s' = blocks s \<and> backend s' = backend s \<and> objs s' = objs s
     | Inr e \<Rightarrow> live_block s (block_key (objs s a)) = Some e \<and> blocks s' = blocks s \<and> backend s' = backend s
           \<and> objs s' = (objs s)(e := (objs s e)\<lparr>last_access := clock s + 1\<rparr>)
         \<or> live_block s (block_key (objs s a)) = None \<and> e = a
           \<and> live_block s' = (live_block s)(block_key (objs s a) \<mapsto> a)
           \<and> par_of s' = (par_of s)(block_key (objs s a) \<mapsto> parent_block_id (objs s a))
           \<and> objs s' = (objs s)(a := (objs s a)\<lparr>last_access := clock s + 1\<rparr>))"
  using insert_block_cases [OF assms refl] .

theorem insert_block_effect_witness:
  "0 \<le> ref_count (objs sample_index 0) \<and> (\<exists>r s'. insert_block 0 sample_index = (r, s') \<and> index_ok s'
     \<and> r = Inr 0 \<and> blocks s' = blocks sample_index)"
proof -
  have c: "0 \<le> ref_count (objs sample_index 0)" "block_key (objs sample_index 0) = [1]" by code_simp+
  moreover have "fst (insert_block 0 sample_index) = Inr 0" by code_simp
  ultimately show ?thesis using insert_block_effect [OF sample_index_ok c(1)] by (auto simp: sample_blocks)
qed

text \<open>
  C19. Round trip of a commit: after a new block has been committed at the end of a path of
  indexed blocks, matching the ids of that path finds all of them, and the number of matched
  tokens is the number of blocks times the block size.
\<close>

theorem committed_block_is_matched:
  assumes "index_ok s" "insert_block a s = (Inr a, s')" "0 \<le> ref_count (objs s a)"
    "live_block s (block_key (objs s a)) = None"
    "root_path (par_of s) None xs" "parent_block_id (objs s a) = (if xs = [] then None else Some (last xs))"
  shows "match_longest_block_ids (xs @ [block_key (objs s a)]) s'
    = (Inr (int (length xs + 1) * idx_block_size s', Some (block_key (objs s a)), int (length xs + 1)), s')"
proof -
  let ?b = "block_key (objs s a)"
  have s': "index_ok s'" "par_of s' = (par_of s)(?b \<mapsto> parent_block_id (objs s a))"
    using insert_block_cases [OF assms(1,3) refl] assms(2,4) by auto
  have nb: "?b \<notin> dom (par_of s)" using assms(4) linked_okD(3) [OF index_okD(1) [OF assms(1)]] by (simp add: domIff)
  have "root_path (par_of s') q ys" if "root_path (par_of s) q ys" "?b \<notin> set ys" for q ys
    using that by (induction ys arbitrary: q) (auto simp: s'(2))
  moreover have "x \<in> dom (par_of s)" if "x \<in> set xs" for x
    using assms(5) that by (induction xs rule: rev_induct) (auto simp: root_path_append)
  ultimately have "root_path (par_of s') None xs" using assms(5) nb by blast
  then have "root_path (par_of s') None (xs @ [?b])"
    using assms(6) by (simp add: root_path_append s'(2))
  then have "hit_count (par_of s') None (xs @ [?b]) = length (xs @ [?b])"
    using hit_count_maximal [of "par_of s'" None "length (xs @ [?b])" "xs @ [?b]"]
      hit_count_le [of "par_of s'" None "xs @ [?b]"] by simp
  then show ?thesis
    using tree.lookup_law [OF linked_okD(2) [OF index_okD(1) [OF s'(1)]], of "xs @ [?b]"]
    by (simp add: match_longest_block_ids_def op_simps Let_def hit_last_def nth_append)
qed

theorem committed_block_is_matched_witness:
  "\<exists>s'. insert_block 2 (run_call (\<lambda>x. x) (\<lambda>_. None) (NewObject 2 (sample_block [3] (Some [2]))) sample_index) = (Inr 2, s')
    \<and> match_longest_block_ids [[1], [2], [3]] s' = (Inr (6, Some [3], 3), s')"
proof -
  let ?s = "run_call (\<lambda>x. x) (\<lambda>_. None) (NewObject 2 (sample_block [3] (Some [2]))) sample_index"
  have ok: "index_ok ?s" by (rule run_call_ok [OF sample_index_ok]) (simp add: sample_blocks)
  have ref: "0 \<le> ref_count (objs ?s 2)" and obj: "objs ?s 2 = sample_block [3] (Some [2])" by (simp_all add: sample_block_def)
  have live: "live_block ?s (block_key (objs ?s 2)) = None" by (simp add: sample_blocks sample_block_def)
  have "fst (insert_block 2 ?s) = Inr 2" by code_simp
  then obtain s' where s': "insert_block 2 ?s = (Inr 2, s')" by (metis prod.collapse)
  have "parent_block_id (objs sample_index 0) = None" "parent_block_id (objs sample_index 1) = Some [1]" by code_simp+
  then have par: "par_of ?s [1] = Some None" "par_of ?s [2] = Some (Some [1])"
    using linked_okD(5) [OF index_okD(1) [OF sample_index_ok]] by (auto simp: get_block_def sample_blocks)
  have "idx_block_size (snd (insert_block 2 ?s)) = 2" by code_simp
  then have bs: "idx_block_size s' = 2" by (simp only: s' snd_conv)
  from committed_block_is_matched [OF ok s' ref live, of "[[1], [2]]"] s' bs par show ?thesis
    by (simp add: obj sample_block_def)
qed

section \<open>Routing snapshots\<close>

lemma snapshot_run:
  assumes ok: "index_ok s"
  shows "\<exists>s'. take_routing_snapshot m s = (Inr (fresh_snapshot m s), s') \<and> index_ok s' \<and> same_blocks s s'"
proof -
  note r = index_okD(5) [OF ok]
  have "live_blocks (membership s) = int (card (dom (live_block s)))"
    using r rset.size_card [of "membership s"] by (simp add: routing_ok_def)
  then have "live_blocks (membership s) = int (length (blocks s))"
    using length_dict [OF linked_okD(1) [OF index_okD(1) [OF ok]]] by simp
  then have run: "rebuild_snapshot m s = (Inr (fresh_snapshot m s), s\<lparr>snapshot := Some (fresh_snapshot m s)\<rparr>)"
    by (simp add: rebuild_snapshot_def oseq_def obind_def)
  show ?thesis
  proof (cases "\<exists>sn. snapshot s = Some sn \<and> snapshot_method sn = m")
    case True
    then obtain sn where "snapshot s = Some sn" "snapshot_method sn = m" by blast
    moreover have "sn = fresh_snapshot m s" using r calculation unfolding routing_ok_def by blast
    ultimately show ?thesis using ok by (simp add: take_routing_snapshot_def)
  next
    case False
    then have "take_routing_snapshot m s = rebuild_snapshot m s"
      by (auto simp: take_routing_snapshot_def split: option.splits)
    with run keepsD [OF rebuild_snapshot_keeps ok, of m] show ?thesis by (simp add: same_blocks_def)
  qed
qed

lemma fresh_contains:
  "index_ok s \<Longrightarrow> snapshot_contains (fresh_snapshot m s) b \<longleftrightarrow> b \<in> dom (live_block s)"
  using index_okD(5) rset.mem_ids by (fastforce simp: snapshot_contains_def fresh_snapshot_def routing_ok_def)

text \<open>The loop of a snapshot match counts the leading ids that the snapshot contains.\<close>

lemma snapshot_loop_counts:
  assumes "block_id_loop sha (snapshot_fingerprint sn) bs ts q starts = Inr ids"
    "k = length (takeWhile (snapshot_contains sn) ids)"
  shows "snapshot_match_loop sha sn bs ts (h, q) starts = Inr (h + int k, hit_last q ids k)"
  using assms
proof (induction starts arbitrary: q ids h k)
  case Nil
  then show ?case by (simp add: hit_last_def)
next
  case (Cons x starts)
  obtain b rest where b: "stable_block_id sha (snapshot_fingerprint sn) bs (py_slice ts x (x + bs)) q = Inr b"
    "block_id_loop sha (snapshot_fingerprint sn) bs ts (Some b) starts = Inr rest" "ids = b # rest"
    using Cons.prems(1) by (auto simp: rbind_eq_Inr)
  then have id: "stable_prefix_block_id sha (snapshot_fingerprint sn) (py_slice ts x (x + bs)) q = Inr b"
    by (simp add: stable_block_id_def split: if_splits)
  show ?case
  proof (cases "snapshot_contains sn b")
    case True
    let ?k = "length (takeWhile (snapshot_contains sn) rest)"
    have "snapshot_match_loop sha sn bs ts (h + 1, Some b) starts = Inr (h + 1 + int ?k, hit_last (Some b) rest ?k)"
      by (rule Cons.IH [OF b(2) refl])
    moreover have "k = Suc ?k" using Cons.prems(2) True b(3) by simp
    ultimately show ?thesis using id b(3) True by simp
  next
    case False
    with Cons.prems(2) b(3) id show ?thesis by (simp add: hit_last_def)
  qed
qed

text \<open>
  Ids that name their position: a live block among them hangs below its predecessor.  The
  engine guarantees it by hashing the id of the parent into the id of a block.
\<close>

definition chained :: "'p prefix_index \<Rightarrow> block_id list \<Rightarrow> bool" where
  "chained s ids \<longleftrightarrow> (\<forall>i < length ids. ids ! i \<in> dom (live_block s) \<longrightarrow>
     par_of s (ids ! i) = Some (if i = 0 then None else Some (ids ! (i - 1))))"

lemma hit_count_takeWhile:
  assumes "\<And>i. i < length ids \<Longrightarrow> ids ! i \<in> dom par \<Longrightarrow> par (ids ! i) = Some (if i = 0 then q else Some (ids ! (i - 1)))"
  shows "hit_count par q ids = length (takeWhile (\<lambda>b. b \<in> dom par) ids)"
  using assms
proof (induction ids arbitrary: q)
  case (Cons b ids)
  have "hit_count par (Some b) ids = length (takeWhile (\<lambda>b. b \<in> dom par) ids)"
  proof (rule Cons.IH)
    fix i
    assume i: "i < length ids" "ids ! i \<in> dom par"
    with Cons.prems [of "Suc i"] show "par (ids ! i) = Some (if i = 0 then Some b else Some (ids ! (i - 1)))"
      by (cases i) auto
  qed
  with Cons.prems [of 0] show ?case by auto
qed simp



section \<open>Deleting a subtree\<close>

text \<open>Children come before their parents, given that the ids in \<open>seen\<close> have been handled.\<close>

fun kids_first :: "'b parent_map \<Rightarrow> 'b set \<Rightarrow> 'b list \<Rightarrow> bool" where
  "kids_first par seen [] = True"
| "kids_first par seen (b # bs) = (kids_of par b \<subseteq> seen \<and> kids_first par (insert b seen) bs)"

lemma kids_first_remove: "kids_first par (insert b seen) bs \<Longrightarrow> kids_first (par(b := None)) seen bs"
  by (induction bs arbitrary: seen) (auto simp: kids_remove_leaf insert_commute)

lemma kids_first_filter:
  "kids_first par seen bs \<Longrightarrow> (\<And>b. b \<in> F \<Longrightarrow> kids_of par b \<subseteq> F) \<Longrightarrow> kids_first par (seen \<inter> F) (filter (\<lambda>b. b \<in> F) bs)"
proof (induction bs arbitrary: seen)
  case (Cons b bs)
  then have "kids_first par (insert b seen \<inter> F) (filter (\<lambda>b. b \<in> F) bs)" by simp
  with Cons.prems show ?case by (cases "b \<in> F") (auto simp: Int_insert_left)
qed simp

lemma kids_first_sorted:
  assumes "sorted (map (\<lambda>b. - int (depth b)) bs)" "\<And>b k. k \<in> kids_of par b \<Longrightarrow> b \<in> set bs \<Longrightarrow> depth b < depth k"
    "\<And>b. b \<in> set bs \<Longrightarrow> kids_of par b \<subseteq> seen \<union> set bs"
  shows "kids_first par seen bs"
  using assms
proof (induction bs arbitrary: seen)
  case (Cons b bs)
  have "k \<in> seen" if k: "k \<in> kids_of par b" for k
  proof (rule ccontr)
    assume "k \<notin> seen"
    then have "k \<in> set (b # bs)" using Cons.prems(3) [of b] k by auto
    then have "depth k \<le> depth b" using Cons.prems(1) by auto
    with Cons.prems(2) [OF k] show False by simp
  qed
  moreover have "kids_first par (insert b seen) bs"
  proof (rule Cons.IH)
    show "sorted (map (\<lambda>b. - int (depth b)) bs)" using Cons.prems(1) by simp
    show "depth x < depth k" if "k \<in> kids_of par x" "x \<in> set bs" for x k using Cons.prems(2) that by simp
    show "kids_of par x \<subseteq> insert b seen \<union> set bs" if "x \<in> set bs" for x using Cons.prems(3) [of x] that by auto
  qed
  ultimately show ?case by auto
qed simp

definition depth_of :: "'p prefix_index \<Rightarrow> block_id \<Rightarrow> nat" where
  "depth_of s b = (case path_to_block b (backend s) of Inl e \<Rightarrow> 0 | Inr path \<Rightarrow> length path)"

lemma depth_kid:
  assumes "linked_ok s" "k \<in> kids_of (par_of s) b"
  shows "depth_of s k = Suc (depth_of s b)"
proof -
  note ok = linked_okD(2) [OF assms(1)]
  have k: "par_of s k = Some (Some b)" using assms(2) by (simp add: kids_of_def parent_step_def)
  have "b \<in> dom (par_of s)" using forest.parent_present [OF ok] k by (simp add: parent_step_def)
  then obtain xs where xs: "path_to_block b (backend s) = Inr xs" "root_path (par_of s) None xs" "xs \<noteq> []" "last xs = b"
    using tree.path_law [OF ok] by blast
  obtain ys where ys: "path_to_block k (backend s) = Inr ys" "root_path (par_of s) None ys" "ys \<noteq> []" "last ys = k"
    using tree.path_law [OF ok, of k] k by blast
  have "root_path (par_of s) None (xs @ [k])" using xs k by (simp add: root_path_append)
  then have "ys = xs @ [k]" using tree.root_path_unique [OF ok ys(2)] ys(3,4) by simp
  with xs(1) ys(1) show ?thesis by (simp add: depth_of_def)
qed

lemma collect_map: "(\<And>x. x \<in> set xs \<Longrightarrow> f x = Inr (g x)) \<Longrightarrow> collect f xs = Inr (map g xs)"
  by (induction xs) auto

lemma sort_by_depth_spec:
  assumes "linked_ok s" "set sub \<subseteq> dom (par_of s)" "distinct sub" "\<And>b. b \<in> set sub \<Longrightarrow> kids_of (par_of s) b \<subseteq> set sub"
  shows "\<exists>ordered. sort_by_depth s sub = Inr ordered \<and> set ordered = set sub \<and> distinct ordered
    \<and> kids_first (par_of s) {} ordered"
proof -
  let ?key = "\<lambda>(d :: int, b :: block_id). - d" and ?keyed = "map (\<lambda>b. (int (depth_of s b), b)) sub"
  define L where "L = sort_key ?key ?keyed"
  have "collect (\<lambda>b. rbind (path_to_block b (backend s)) (\<lambda>path. Inr (int (length path), b))) sub = Inr ?keyed"
    using assms(2) tree.path_law [OF linked_okD(2) [OF assms(1)]]
    by (intro collect_map) (force simp: depth_of_def)
  then have run: "sort_by_depth s sub = Inr (map snd L)" by (simp add: sort_by_depth_def L_def)
  have set: "set L = set ?keyed" by (simp add: L_def)
  have eq: "map (\<lambda>b. - int (depth_of s b)) (map snd L) = map ?key L" using set by (auto simp: L_def)
  have "sorted (map ?key L)" unfolding L_def by (rule sorted_sort_key)
  then have "sorted (map (\<lambda>b. - int (depth_of s b)) (map snd L))" unfolding eq .
  moreover have mem: "set (map snd L) = set sub" unfolding set_map set by force
  ultimately have "kids_first (par_of s) {} (map snd L)"
    using assms(4) depth_kid [OF assms(1)] by (intro kids_first_sorted [where depth = "depth_of s"]) auto
  moreover have "mset (map snd L) = mset sub" unfolding mset_map by (simp add: L_def image_mset.compositionality comp_def)
  then have "distinct (map snd L)" using assms(3) by (metis distinct_count_atmost_1 set_mset_mset)
  ultimately show ?thesis using run mem by blast
qed

text \<open>The plan takes the freeable blocks of the list and blocks the others.\<close>

lemma delete_reason_spec:
  assumes "index_ok s" "live_block s b = Some a" "kids_of (par_of s) b \<subseteq> seen"
  shows "\<exists>r. delete_reason s (seen \<inter> freeable_now s) b (objs s a) = Inr r \<and> (r = None \<longleftrightarrow> b \<in> freeable_now s)"
proof -
  note l = index_okD(1) [OF assms(1)]
  have dom: "b \<in> dom (par_of s)" using live_par [OF l] assms(2) by blast
  obtain ks where ks: "child_block_ids b (backend s) = Inr ks" "set ks = kids_of (par_of s) b"
    using tree.children_law [OF linked_okD(2) [OF l] dom] by blast
  have ref: "0 \<le> ref_count (objs s a)"
    using index_okD(2) [OF assms(1)] live_block_get [OF assms(2)] by (auto simp: resident_ok_def)
  have "b \<in> freeable_now s \<longleftrightarrow> kids_of (par_of s) b \<subseteq> freeable_now s \<and> \<not> locally_blocked (objs s a)"
    using forest.freeable_step [OF linked_okD(2) [OF l] dom] bad_same [OF l assms(2)] by simp
  with ks ref assms(3) show ?thesis by (auto simp: delete_reason_def locally_blocked_def)
qed

lemma plan_loop_spec:
  assumes "index_ok s" "set bs \<subseteq> dom (live_block s)" "kids_first (par_of s) seen bs"
  shows "\<exists>blocked'. plan_loop s bs deleted blocked (seen \<inter> freeable_now s)
      = Inr \<lparr>del_blocks = deleted @ map (the \<circ> live_block s) (filter (\<lambda>b. b \<in> freeable_now s) bs),
             del_blocked = blocked @ blocked'\<rparr>
    \<and> map fst blocked' = map Some (filter (\<lambda>b. b \<notin> freeable_now s) bs)"
  using assms(2,3)
proof (induction bs arbitrary: deleted blocked seen)
  case (Cons b bs)
  obtain a where a: "live_block s b = Some a" using Cons.prems(1) by auto
  obtain r where r: "delete_reason s (seen \<inter> freeable_now s) b (objs s a) = Inr r" "r = None \<longleftrightarrow> b \<in> freeable_now s"
    using delete_reason_spec [OF assms(1) a] Cons.prems(2) by auto
  have rest: "set bs \<subseteq> dom (live_block s)" "kids_first (par_of s) (insert b seen) bs" using Cons.prems by auto
  show ?case
  proof (cases "b \<in> freeable_now s")
    case True
    with Cons.IH [OF rest, of "deleted @ [a]" blocked] a r show ?thesis by (simp add: Int_insert_left)
  next
    case False
    with r obtain why where why: "r = Some why" by auto
    obtain blocked' where "plan_loop s bs deleted (blocked @ [(Some b, why)]) (seen \<inter> freeable_now s)
        = Inr \<lparr>del_blocks = deleted @ map (the \<circ> live_block s) (filter (\<lambda>b. b \<in> freeable_now s) bs),
               del_blocked = (blocked @ [(Some b, why)]) @ blocked'\<rparr>"
        "map fst blocked' = map Some (filter (\<lambda>b. b \<notin> freeable_now s) bs)"
      using Cons.IH [OF rest, of deleted "blocked @ [(Some b, why)]"] False by auto
    with False a r why show ?thesis by (intro exI [of _ "(Some b, why) # blocked'"]) simp
  qed
qed simp

text \<open>Applying the plan never finds it stale.\<close>

lemma apply_deletes_spec:
  assumes "index_ok s" "distinct bs" "set bs \<subseteq> freeable_now s" "kids_first (par_of s) {} bs"
    "as = map (the \<circ> live_block s) bs"
  shows "\<exists>s'. apply_deletes as deleted s = (Inr (deleted @ as), s') \<and> without (set bs) s s'"
  using assms
proof (induction bs arbitrary: s as deleted)
  case Nil
  then show ?case by (simp add: op_simps without_def restrict_map_def)
next
  case (Cons b bs)
  note l = index_okD(1) [OF Cons.prems(1)]
  have dom: "b \<in> dom (par_of s)" and nb: "\<not> bad s b"
    using Cons.prems(3) by (auto simp: freeable_spec_def)
  with Cons.prems(4) have ev: "b \<in> evictable_spec s" by (simp add: evictable_spec_def)
  obtain a s1 where r: "live_block s b = Some a" "remove_block_from_index b s = (Inr a, s1)" "removed b s s1"
    using remove_removed [OF Cons.prems(1) ev] by blast
  have key: "block_key (objs s a) = b" using linked_okD(4) [OF l live_block_get [OF r(1)]] .
  define s2 where "s2 = s1\<lparr>counters := (counters s1)\<lparr>deleted_blocks := deleted_blocks (counters s1) + 1\<rparr>\<rparr>"
  have rm: "removed b s s2" unfolding s2_def by (rule removed_counters [OF r(3)])
  let ?as = "map (the \<circ> live_block s) bs"
  have step: "apply_deletes as deleted s = apply_deletes ?as (deleted @ [a]) s2"
    using r key Cons.prems(5) by (simp add: oseq_def obind_def indexed_def count_up_run s2_def [symmetric] comp_def)
  have as2: "?as = map (the \<circ> live_block s2) bs"
    using Cons.prems(2) rm by (auto simp: removed_def dict_simps)
  have fr2: "set bs \<subseteq> freeable_now s2"
    using removed_freeable [OF Cons.prems(1) ev rm] Cons.prems(2,3) by auto
  have kf2: "kids_first (par_of s2) {} bs"
    using Cons.prems(4) kids_first_remove [of "par_of s" b "{}" bs] rm by (simp add: removed_def)
  have "index_ok s2" "distinct bs" using rm Cons.prems(2) by (simp_all add: removed_def)
  then obtain s' where "apply_deletes ?as (deleted @ [a]) s2 = (Inr ((deleted @ [a]) @ ?as), s')"
    "without (set bs) s2 s'"
    using Cons.IH [OF _ _ fr2 kf2 as2] by blast
  with step without_removed [OF Cons.prems(1) r(1) rm] r(1) Cons.prems(2,5) show ?case by auto
qed

text \<open>
  Deleting the subtree below an indexed prefix deletes exactly its freeable blocks, children
  before parents, and reports every other block of the subtree as blocked; it never raises, and
  the rest of the index is untouched.
\<close>

theorem delete_subtree_exact:
  assumes "index_ok s" "block_ids_for_tokens sha (idx_fingerprint s) (idx_block_size s) ts None = Inr ids"
    "ids \<noteq> []" "root_path (par_of s) None ids"
    "sub = {x \<in> dom (live_block s). descends (par_of s) x (last ids)}"
  shows "\<exists>res s'. safe_delete_subtree sha ts s = (Inr res, s')
    \<and> set (keys_of s (del_blocks res)) = sub \<inter> freeable_now s \<and> set (map fst (del_blocked res)) = Some ` (sub - freeable_now s)
    \<and> index_ok s' \<and> live_block s' = live_block s |` (- (sub \<inter> freeable_now s)) \<and> objs s' = objs s"
proof -
  define s0 where "s0 = s\<lparr>counters := (counters s)\<lparr>control_delete_requests := control_delete_requests (counters s) + 1\<rparr>\<rparr>"
  define s1 where "s1 = s0\<lparr>counters := (counters s0)\<lparr>block_id_generation_requests := block_id_generation_requests (counters s0) + 1\<rparr>\<rparr>"
  have ok: "index_ok s1" unfolding s1_def s0_def by (intro counters_ok assms(1))
  have same: "par_of s1 = par_of s" "blocks s1 = blocks s" "objs s1 = objs s" "freeable_now s1 = freeable_now s"
    by (simp_all add: s1_def s0_def bad_def get_block_def)
  note l = index_okD(1) [OF ok]
  have ids: "block_ids_of sha ts None s0 = (Inr ids, s1)"
    using assms(2) by (simp add: block_ids_of_def oseq_def obind_def count_up_run s1_def s0_def)
  have "hit_count (par_of s1) None ids = length ids"
    using assms(4) hit_count_maximal [of "par_of s" None "length ids" ids] hit_count_le [of "par_of s" None ids] same by simp
  then have look: "radix_lookup ids (int (length ids)) (backend s1) = Inr (length ids, Some (last ids))"
    using tree.lookup_law [OF linked_okD(2) [OF l], of ids] assms(3) by (simp add: Let_def hit_last_def last_conv_nth)
  have dom: "last ids \<in> dom (par_of s1)"
    using assms(3,4) same by (cases ids rule: rev_cases) (auto simp: root_path_append)
  obtain subl where subl: "subtree_block_ids (last ids) (backend s1) = Inr subl" "distinct subl" "set subl = sub"
    using tree.subtree_law [OF linked_okD(2) [OF l] dom] linked_okD(3) [OF l] same assms(5) by auto
  have kids: "kids_of (par_of s1) b \<subseteq> set subl" if "b \<in> set subl" for b
    using that subl(3) assms(5) same linked_okD(3) [OF l]
    by (auto simp: kids_of_def parent_step_def intro: descends_step [where p = b])
  obtain ordered where o: "sort_by_depth s1 subl = Inr ordered" "set ordered = sub" "distinct ordered"
    "kids_first (par_of s1) {} ordered"
    using sort_by_depth_spec [OF l _ subl(2) kids] subl(3) assms(5) linked_okD(3) [OF l] same by auto
  let ?F = "freeable_now s1" let ?bs = "filter (\<lambda>b. b \<in> ?F) ordered"
  obtain blocked where plan: "plan_loop s1 ordered [] [] {} = Inr \<lparr>del_blocks = map (the \<circ> live_block s1) ?bs, del_blocked = blocked\<rparr>"
    "map fst blocked = map Some (filter (\<lambda>b. b \<notin> ?F) ordered)"
    using plan_loop_spec [OF ok _ o(4), of "[]" "[]"] o(2) assms(5) same by auto
  have prev: "preview_delete_subtree sha ts s0 = (Inr \<lparr>del_blocks = map (the \<circ> live_block s1) ?bs, del_blocked = blocked\<rparr>, s1)"
    using ids look subl(1) o(1) plan(1) assms(3)
    by (simp add: preview_delete_subtree_def obind_def exact_subtree_ids_def)
  have "kids_of (par_of s1) b \<subseteq> ?F" if "b \<in> ?F" for b
    using forest.freeable_step [OF linked_okD(2) [OF l] subsetD [OF freeable_spec_subset that]] that by blast
  then have "kids_first (par_of s1) ({} \<inter> ?F) ?bs" by (rule kids_first_filter [OF o(4)])
  then obtain s' where ap: "apply_deletes (map (the \<circ> live_block s1) ?bs) [] s1 = (Inr (map (the \<circ> live_block s1) ?bs), s')"
    "without (set ?bs) s1 s'"
    using apply_deletes_spec [OF ok _ _ _ refl, of ?bs "[]"] o(3) by auto
  have run: "safe_delete_subtree sha ts s = (Inr \<lparr>del_blocks = map (the \<circ> live_block s1) ?bs, del_blocked = blocked\<rparr>, s')"
    using prev ap(1) by (simp add: safe_delete_subtree_def oseq_def obind_def count_up_run s0_def [symmetric])
  have keys: "keys_of s (map (the \<circ> live_block s1) ?bs) = ?bs"
  proof -
    have "block_key (objs s (the (live_block s1 b))) = b" if h: "b \<in> set ?bs" for b
    proof -
      obtain a where a: "live_block s1 b = Some a" using h o(2) assms(5) same by auto
      then show ?thesis using linked_okD(4) [OF l live_block_get [OF a]] same by simp
    qed
    then show ?thesis unfolding map_map by (intro map_idI) simp
  qed
  let ?res = "\<lparr>del_blocks = map (the \<circ> live_block s1) ?bs, del_blocked = blocked\<rparr>"
  have bs: "set ?bs = sub \<inter> freeable_now s" using o(2) same by auto
  have "set (keys_of s (del_blocks ?res)) = sub \<inter> freeable_now s" unfolding delete_result.select_convs keys bs ..
  moreover have "set (map fst (del_blocked ?res)) = Some ` (sub - freeable_now s)"
    unfolding delete_result.select_convs plan(2) using o(2) same by auto
  moreover have "index_ok s'" "live_block s' = live_block s |` (- (sub \<inter> freeable_now s))" "objs s' = objs s"
    using ap(2) same unfolding without_def bs by auto
  ultimately show ?thesis using run by blast
qed

theorem delete_subtree_exact_witness:
  "\<exists>res s'. safe_delete_subtree (\<lambda>_. [1]) [7, 8, 9] sample_index = (Inr res, s') \<and> index_ok s'
    \<and> set (keys_of sample_index (del_blocks res)) = {[1], [2]} \<and> live_block s' = Map.empty"
proof -
  have ids: "block_ids_for_tokens (\<lambda>_. [1]) (idx_fingerprint sample_index) (idx_block_size sample_index) [7, 8, 9] None = Inr [[1]]"
    by code_simp
  have "parent_block_id (objs sample_index 0) = None" "parent_block_id (objs sample_index 1) = Some [1]" by code_simp+
  then have par: "par_of sample_index [1] = Some None" "par_of sample_index [2] = Some (Some [1])"
    using linked_okD(5) [OF index_okD(1) [OF sample_index_ok]] by (auto simp: get_block_def sample_blocks)
  have "fst (freeable_block_ids sample_index) = Inr {[1], [2]}" by code_simp
  with freeable_block_ids_run [OF sample_index_ok] have f: "freeable_now sample_index = {[1], [2]}" by auto
  have "descends (par_of sample_index) [2] [1]" using par by (intro descends_single) (simp add: parent_step_def)
  then have sub: "{x \<in> dom (live_block sample_index). descends (par_of sample_index) x (last [[1]])} = {[1], [2]}"
    by (auto simp: sample_blocks split: if_splits)
  have "live_block sample_index |` (- {[1], [2]}) = Map.empty" by (auto simp: sample_blocks restrict_map_def)
  with delete_subtree_exact [OF sample_index_ok ids _ _ refl, unfolded sub f] par show ?thesis by fastforce
qed

section \<open>Priorities of a subtree\<close>

text \<open>
  Setting the eviction priority below an indexed prefix sets it on every block of the
  subtree and on no other block, counts those blocks, and keeps the freeable set and the
  caches exact.
\<close>

theorem set_priority_exact:
  assumes "index_ok s" "block_ids_for_tokens sha (idx_fingerprint s) (idx_block_size s) ts None = Inr ids"
    "ids \<noteq> []" "root_path (par_of s) None ids"
    "sub = {x \<in> dom (live_block s). descends (par_of s) x (last ids)}"
  shows "\<exists>s'. set_subtree_eviction_priority sha ts priority s = (Inr \<lparr>pr_matched = True, pr_reason = None,
        pr_root = Some (last ids), pr_updated = int (card sub), pr_priority = priority\<rparr>, s') \<and> index_ok s'
    \<and> (\<forall>b. get_block s' b = (if b \<in> sub then map_option (\<lambda>blk. blk\<lparr>eviction_priority := priority\<rparr>) (get_block s b)
          else get_block s b))"
proof -
  define s0 where "s0 = s\<lparr>counters := (counters s)\<lparr>control_priority_updates := control_priority_updates (counters s) + 1\<rparr>\<rparr>"
  define s1 where "s1 = s0\<lparr>counters := (counters s0)\<lparr>block_id_generation_requests := block_id_generation_requests (counters s0) + 1\<rparr>\<rparr>"
  have ok: "index_ok s1" unfolding s1_def s0_def by (intro counters_ok assms(1))
  have same: "par_of s1 = par_of s" "blocks s1 = blocks s" "get_block s1 = get_block s"
    by (simp_all add: s1_def s0_def)
  note l = index_okD(1) [OF ok]
  have ids: "block_ids_of sha ts None s0 = (Inr ids, s1)"
    using assms(2) by (simp add: block_ids_of_def oseq_def obind_def count_up_run s1_def s0_def)
  have "hit_count (par_of s1) None ids = length ids"
    using assms(4) hit_count_maximal [of "par_of s" None "length ids" ids] hit_count_le [of "par_of s" None ids] same by simp
  then have look: "radix_lookup ids (int (length ids)) (backend s1) = Inr (length ids, Some (last ids))"
    using tree.lookup_law [OF linked_okD(2) [OF l], of ids] assms(3) by (simp add: Let_def hit_last_def last_conv_nth)
  have dom: "last ids \<in> dom (par_of s1)"
    using assms(3,4) same by (cases ids rule: rev_cases) (auto simp: root_path_append)
  obtain subl where subl: "subtree_block_ids (last ids) (backend s1) = Inr subl" "distinct subl" "set subl = sub"
    using tree.subtree_law [OF linked_okD(2) [OF l] dom] linked_okD(3) [OF l] same assms(5) by auto
  have "mid_priority False s1" using ok by (simp add: mid_priority_def index_base index_okD)
  then obtain n ch cap s2 where r: "priority_loop priority subl (0, False, False) s1 = (Inr (n, ch, cap), s2)"
    "n = int (length (filter (\<lambda>b. b \<in> dom (live_block s1)) subl))"
    "\<forall>b. get_block s2 b = (if b \<in> set subl then map_option (\<lambda>blk. blk\<lparr>eviction_priority := priority\<rparr>) (get_block s1 b)
         else get_block s1 b)"
    using priority_loop_spec [of False s1 priority subl 0 False] by auto
  have "filter (\<lambda>b. b \<in> dom (live_block s1)) subl = subl"
    using subl(3) assms(5) same by (intro filter_True) auto
  then have n: "n = int (card sub)" using r(2) subl(2,3) by (simp add: distinct_card [symmetric])
  define s3 where "s3 = snd ((if cap then mark_capacity_mutated else if ch then mark_mutated else ret ()) s2)"
  have mark: "(if cap then mark_capacity_mutated else if ch then mark_mutated else ret ()) s2 = (Inr (), s3)"
    "get_block s3 = get_block s2"
    by (auto simp: s3_def mark_capacity_run mark_mutated_def bump_capacity_def get_block_def fun_eq_iff)
  have run: "set_subtree_eviction_priority sha ts priority s = (Inr \<lparr>pr_matched = True, pr_reason = None,
        pr_root = Some (last ids), pr_updated = int (card sub), pr_priority = priority\<rparr>, s3)"
    using ids look subl(1) r(1) mark(1) assms(3) n
    by (simp add: set_subtree_eviction_priority_def oseq_def obind_def count_up_run s0_def [symmetric])
  have "index_ok s3" using keepsE [OF set_priority_keeps run assms(1)] .
  with run r(3) mark(2) subl(3) same show ?thesis by simp
qed

theorem set_priority_exact_witness:
  "\<exists>s'. set_subtree_eviction_priority (\<lambda>_. [1]) [7, 8, 9] (-1) sample_index = (Inr \<lparr>pr_matched = True, pr_reason = None,
     pr_root = Some [1], pr_updated = 2, pr_priority = -1\<rparr>, s') \<and> index_ok s'"
proof -
  have ids: "block_ids_for_tokens (\<lambda>_. [1]) (idx_fingerprint sample_index) (idx_block_size sample_index) [7, 8, 9] None = Inr [[1]]"
    by code_simp
  have "parent_block_id (objs sample_index 0) = None" "parent_block_id (objs sample_index 1) = Some [1]" by code_simp+
  then have par: "par_of sample_index [1] = Some None" "par_of sample_index [2] = Some (Some [1])"
    using linked_okD(5) [OF index_okD(1) [OF sample_index_ok]] by (auto simp: get_block_def sample_blocks)
  have "descends (par_of sample_index) [2] [1]" using par by (intro descends_single) (simp add: parent_step_def)
  then have sub: "{x \<in> dom (live_block sample_index). descends (par_of sample_index) x (last [[1]])} = {[1], [2]}"
    by (auto simp: sample_blocks split: if_splits)
  from set_priority_exact [OF sample_index_ok ids _ _ refl, unfolded sub, of "-1"] par show ?thesis by auto
qed

section \<open>Write-through\<close>

text \<open>A block may be copied to the host when its parent has or is getting a host copy.\<close>

definition host_ready :: "'p prefix_index \<Rightarrow> block_id set \<Rightarrow> addr \<Rightarrow> bool" where
  "host_ready s chosen a \<longleftrightarrow> (\<forall>p. parent_block_id (objs s a) = Some p \<longrightarrow>
     (\<exists>pb. get_block s p = Some pb \<and> (host_present (residency pb) \<or> transfer (residency pb) = Some D2H
        \<or> block_key pb \<in> chosen)))"

fun ready_in_order :: "'p prefix_index \<Rightarrow> block_id set \<Rightarrow> addr list \<Rightarrow> bool" where
  "ready_in_order s chosen [] = True"
| "ready_in_order s chosen (a # as) = (host_ready s chosen a \<and> ready_in_order s (insert (block_key (objs s a)) chosen) as)"

lemma select_ready_order:
  "\<exists>rest. select_ready s as selected ids = selected @ rest \<and> set rest \<subseteq> set as \<and> ready_in_order s ids rest"
proof (induction as arbitrary: selected ids)
  case (Cons a as)
  let ?ready = "case parent_block_id (objs s a) of None \<Rightarrow> True
     | Some p \<Rightarrow> (case get_block s p of None \<Rightarrow> False
         | Some pb \<Rightarrow> host_present (residency pb) \<or> transfer (residency pb) = Some D2H \<or> block_key pb \<in> ids)"
  have hr: "?ready \<longleftrightarrow> host_ready s ids a" by (auto simp: host_ready_def split: option.splits)
  show ?case
  proof (cases ?ready)
    case True
    obtain rest where "select_ready s as (selected @ [a]) (insert (block_key (objs s a)) ids) = (selected @ [a]) @ rest"
      "set rest \<subseteq> set as" "ready_in_order s (insert (block_key (objs s a)) ids) rest" using Cons by blast
    with True hr show ?thesis by (intro exI [of _ "a # rest"]) auto
  next
    case False
    with Cons [of selected ids] show ?thesis by (auto simp: Let_def)
  qed
qed simp

lemma select_ready_distinct: "distinct (selected @ as) \<Longrightarrow> distinct (select_ready s as selected ids)"
  by (induction s as selected ids rule: select_ready.induct) (auto simp: Let_def)

definition copyable :: "'p prefix_index \<Rightarrow> addr \<Rightarrow> bool" where
  "copyable s a \<longleftrightarrow> indexed s a \<and> ref_count (objs s a) = 0 \<and> device_present (residency (objs s a))
     \<and> \<not> host_present (residency (objs s a)) \<and> transfer (residency (objs s a)) = None"

lemma begin_d2h_run:
  assumes "index_ok s" "copyable s a" "host_ready s chosen a"
    "\<And>p pb. get_block s p = Some pb \<Longrightarrow> block_key pb \<in> chosen \<Longrightarrow> transfer (residency pb) = Some D2H"
  shows "\<exists>s'. begin_d2h a s = (Inr (), s') \<and> index_ok s' \<and> objs s' = new_residency s a (\<lambda>r. r\<lparr>transfer := Some D2H\<rparr>)
    \<and> blocks s' = blocks s \<and> backend s' = backend s"
proof -
  let ?r = "residency (objs s a)"
  have c: "indexed s a" "ref_count (objs s a) = 0" "device_present ?r" "\<not> host_present ?r" "transfer ?r = None"
    using assms(2) by (simp_all add: copyable_def)
  have "residency_validate ?r = Inr ()" using c by (simp add: residency_validate_def)
  then have "check_begin_d2h a s = Inr ()"
    using c assms(3,4) by (fastforce simp: check_begin_d2h_def Let_def host_ready_def split: option.splits)
  moreover have "residency_fits s a (?r\<lparr>transfer := Some D2H\<rparr>)"
    using resident_current [OF assms(1) c(1)] c by (auto simp: residency_simps split: if_splits)
  ultimately show ?thesis
    using transition_run [OF assms(1) c(1), of "\<lambda>r. r\<lparr>transfer := Some D2H\<rparr>"] by (simp add: begin_d2h_def op_simps)
qed

lemma start_copies_run:
  assumes "index_ok s" "distinct as" "\<And>a. a \<in> set as \<Longrightarrow> copyable s a" "ready_in_order s chosen as"
    "\<And>p pb. get_block s p = Some pb \<Longrightarrow> block_key pb \<in> chosen \<Longrightarrow> transfer (residency pb) = Some D2H"
  shows "\<exists>s'. ofor as begin_d2h s = (Inr (), s') \<and> index_ok s'
    \<and> (\<forall>a. residency (objs s' a) = (if a \<in> set as then (residency (objs s a))\<lparr>transfer := Some D2H\<rparr> else residency (objs s a)))"
  using assms
proof (induction as arbitrary: s chosen)
  case Nil
  then show ?case by (simp add: op_simps)
next
  case (Cons a as)
  have rd: "host_ready s chosen a" "ready_in_order s (insert (block_key (objs s a)) chosen) as"
    using Cons.prems(4) by simp_all
  obtain s1 where s1: "begin_d2h a s = (Inr (), s1)" "index_ok s1" "objs s1 = new_residency s a (\<lambda>r. r\<lparr>transfer := Some D2H\<rparr>)"
    "blocks s1 = blocks s" "backend s1 = backend s"
    using begin_d2h_run [OF Cons.prems(1) Cons.prems(3) rd(1) Cons.prems(5)] by force
  have keys: "block_key (objs s1 x) = block_key (objs s x)" "parent_block_id (objs s1 x) = parent_block_id (objs s x)" for x
    by (simp_all add: s1(3))
  have up: "\<exists>pb'. get_block s1 p = Some pb' \<and> block_key pb' = block_key pb
      \<and> (host_present (residency pb) \<longrightarrow> host_present (residency pb'))
      \<and> (transfer (residency pb) = Some D2H \<longrightarrow> transfer (residency pb') = Some D2H)"
    if h: "get_block s p = Some pb" for p pb
  proof -
    obtain x where "live_block s p = Some x" "pb = objs s x" using h by (auto simp: get_block_def)
    then show ?thesis by (intro exI [of _ "objs s1 x"]) (auto simp: get_block_def s1(3,4))
  qed
  have "ready_in_order s1 ch xs" if "ready_in_order s ch xs" for ch xs
    using that by (induction xs arbitrary: ch) (auto simp: keys host_ready_def, (metis up)+)
  then have ord: "ready_in_order s1 (insert (block_key (objs s a)) chosen) as" using rd(2) by blast
  have cp: "copyable s1 x" if "x \<in> set as" for x
    using Cons.prems(2) Cons.prems(3) [of x] that by (auto simp: copyable_def indexed_def s1(3,4))
  have tr: "transfer (residency pb) = Some D2H"
    if h: "get_block s1 p = Some pb" "block_key pb \<in> insert (block_key (objs s a)) chosen" for p pb
  proof -
    obtain x where x: "live_block s p = Some x" "pb = objs s1 x" using h(1) by (auto simp: get_block_def s1(4))
    have "block_key (objs s x) = p" using linked_okD(4) [OF index_okD(1) [OF Cons.prems(1)] live_block_get [OF x(1)]] .
    moreover have "indexed s a" using Cons.prems(3) [of a] by (simp add: copyable_def)
    ultimately have "x = a" if h: "block_key pb = block_key (objs s a)"
    proof -
      have "block_key (objs s a) = p" using h keys(1) [of x] \<open>block_key (objs s x) = p\<close> unfolding x(2) by simp
      with \<open>indexed s a\<close> x(1) show ?thesis unfolding indexed_def by simp
    qed
    moreover have "transfer (residency (objs s x)) = Some D2H" if "block_key pb \<in> chosen"
      using Cons.prems(5) [OF live_block_get [OF x(1)]] that unfolding x(2) keys(1) [of x] .
    ultimately have "x = a \<or> transfer (residency (objs s x)) = Some D2H" using h(2) by blast
    then show ?thesis unfolding x(2) s1(3) by (cases "x = a") simp_all
  qed
  have "distinct as" using Cons.prems(2) by simp
  from Cons.IH [OF s1(2) this _ ord] cp tr obtain s' where "ofor as begin_d2h s1 = (Inr (), s')" "index_ok s'"
    "\<forall>x. residency (objs s' x) = (if x \<in> set as then (residency (objs s1 x))\<lparr>transfer := Some D2H\<rparr> else residency (objs s1 x))"
    by blast
  with s1(1,3) Cons.prems(2) show ?case by (auto simp: op_simps)
qed

text \<open>
  Write-through: starting the device-to-host copy of the blocks that
  \<open>select_write_through_candidates\<close> returns, in the order it returns them, never raises, and
  marks exactly those blocks as being copied; every selected block is unreferenced and has
  no host copy yet.
\<close>

theorem write_through_copies_start:
  assumes "index_ok s" "dict_ok pending" "select_write_through_candidates s pending newly = (selected, kept)"
  shows "\<exists>s'. ofor selected begin_d2h s = (Inr (), s') \<and> index_ok s'
    \<and> (\<forall>a. residency (objs s' a) = (if a \<in> set selected then (residency (objs s a))\<lparr>transfer := Some D2H\<rparr> else residency (objs s a)))
    \<and> (\<forall>a \<in> set selected. copyable s a)"
proof -
  let ?new = "case newly of None \<Rightarrow> map snd (blocks s) | Some as \<Rightarrow> as"
  let ?add = "\<lambda>a d. if ref_count (objs s a) = 0 then AList.update (block_key (objs s a)) a d else d"
  let ?p = "fold ?add ?new pending"
  let ?ord = "sort_key (\<lambda>a. (logical_block_idx (objs s a), last_access (objs s a))) (map snd (filter (still_pending s) ?p))"
  have sel: "selected = select_ready s ?ord [] {}"
    using assms(3) unfolding select_write_through_candidates_def Let_def by blast
  have "dict_ok (fold ?add xs d)" if "dict_ok d" for xs d
    using that by (induction xs arbitrary: d) auto
  then have dk: "dict_ok (filter (still_pending s) ?p)" using assms(2) by (intro distinct_map_filter) blast
  have cp: "copyable s a \<and> block_key (objs s a) = b" if "(b, a) \<in> set (filter (still_pending s) ?p)" for b a
  proof -
    have h: "live_block s b = Some a" "still_pending s (b, a)" using that by (auto simp: still_pending_def)
    have "block_key (objs s a) = b" using linked_okD(4) [OF index_okD(1) [OF assms(1)] live_block_get [OF h(1)]] .
    with h show ?thesis by (simp add: copyable_def indexed_def still_pending_def)
  qed
  have "inj_on snd (set (filter (still_pending s) ?p))"
  proof (rule inj_onI)
    fix x y
    assume "x \<in> set (filter (still_pending s) ?p)" "y \<in> set (filter (still_pending s) ?p)" "snd x = snd y"
    then have "block_key (objs s (snd x)) = fst x" "block_key (objs s (snd y)) = fst y" "snd x = snd y"
      using cp [of "fst x" "snd x"] cp [of "fst y" "snd y"] unfolding prod.collapse by blast+
    then show "x = y" by (simp add: prod_eq_iff)
  qed
  then have dist: "distinct (map snd (filter (still_pending s) ?p))"
    using dk by (simp add: distinct_map del: set_filter)
  obtain rest where rest: "selected = rest" "set rest \<subseteq> set ?ord" "ready_in_order s {} rest"
    using select_ready_order [of s ?ord "[]" "{}"] sel by auto
  have "\<And>a. a \<in> set selected \<Longrightarrow> copyable s a" using rest(1,2) cp by fastforce
  moreover have "distinct selected" using dist sel by (auto intro!: select_ready_distinct)
  ultimately show ?thesis using start_copies_run [OF assms(1), of selected "{}"] rest by auto
qed

theorem write_through_copies_start_witness:
  "\<exists>s'. fst (select_write_through_candidates sample_index [] None) = [0, 1]
    \<and> ofor [0, 1] begin_d2h sample_index = (Inr (), s') \<and> index_ok s'"
proof -
  have sel: "fst (select_write_through_candidates sample_index [] None) = [0, 1]" by code_simp
  then have "select_write_through_candidates sample_index [] None = ([0, 1], snd (select_write_through_candidates sample_index [] None))"
    by (metis prod.collapse)
  with write_through_copies_start [OF sample_index_ok _ this] sel show ?thesis by auto
qed

end
