(* ===== verification/Chain_Index.thy ===== *)
theory Chain_Index
  imports Block_Ids State_Result "HOL-Library.Char_ord"
begin

text \<open>
  The logical lifecycle of chains (\<open>ChainCacheIndex\<close> of \<^verbatim>\<open>engine/chain_cache.py\<close>).  A chain is a
  conversation whose sparse KV stays resident between turns: it is ACTIVE while a request writes it
  and IDLE in between, and an evicted or invalidated chain leaves a tombstone.  A record object is
  referred to by its chain id: \<open>active_records\<close> holds the same objects as \<open>records\<close>, so only its keys are
  kept.  Token histories are arrays of unsigned 32-bit integers.
\<close>

section \<open>Data\<close>

datatype chain_state = Active | Idle

record chain_record =
  rec_chain_id :: string
  rec_seq_id :: nat
  rec_fingerprint :: bytes
  rec_state :: chain_state
  processed_token_count :: int
  processed_token_digest :: bytes
  rec_token_ids :: "32 word list"
  last_input_token_count :: int
  rec_last_access :: int
  physical_slots_by_layer :: "int list"
  resident_rows :: int
  reserved_slots_by_layer :: "int list"
  reserved_rows :: int

record chain_plan =
  plan_chain_id :: string
  plan_seq_id :: nat
  plan_status :: string
  plan_reused_tokens :: int
  plan_input_token_count :: int
  victim_chain_ids :: "string list"
  plan_reserved_slots :: "int list"
  plan_reserved_rows :: int
  demote_chain_ids :: "string list"
  plan_decode_reserved_slots :: "int list"

record chain_snapshot =
  snap_active :: "string set"
  snap_idle :: "string set"
  snap_tombstones :: "string set"

record chain_index =
  max_tombstones :: int
  max_token_history_tokens :: "int option"
  token_history_tokens :: int
  chain_records :: "(string, chain_record) dict"
  active_chain_ids :: "string list"
  routing_snapshot_cache :: "chain_snapshot option"
  seq_id_to_chain_id :: "(nat, string) dict"
  tombstones :: "(string, int) dict"
  chain_clock :: int
  chain_stats :: "(string, int) dict"

type_synonym 'a chain_op = "(chain_index, 'a) op"

definition chain_stat_names :: "string list" where
  "chain_stat_names = [''chain_cache_created'', ''chain_cache_resumed'', ''chain_cache_finished'', ''chain_cache_evicted'',
     ''chain_cache_invalidated'', ''chain_cache_prefix_mismatch'', ''chain_cache_busy'']"

definition init_chain_index :: "int \<Rightarrow> int option \<Rightarrow> chain_index result" where
  "init_chain_index tombs history =
     (if tombs \<le> 0 then Inl (ValueError ''chain_cache_max_tombstones must be > 0'')
      else if (case history of None \<Rightarrow> False | Some n \<Rightarrow> n \<le> 0) then Inl (ValueError ''max_token_history_tokens must be > 0 when set'')
      else Inr \<lparr>max_tombstones = tombs, max_token_history_tokens = history, token_history_tokens = 0, chain_records = [],
        active_chain_ids = [], routing_snapshot_cache = None, seq_id_to_chain_id = [], tombstones = [], chain_clock = 0,
        chain_stats = map (\<lambda>n. (n, 0)) chain_stat_names\<rparr>)"

section \<open>Digests\<close>

text \<open>
  \<open>array("q", \<dots>)\<close> packs signed 64-bit integers, little endian, and raises \<open>OverflowError\<close> out of range.
  \<open>islice\<close> takes at most \<open>count\<close> tokens before they are packed.
\<close>

definition stable_token_digest :: "(bytes \<Rightarrow> bytes) \<Rightarrow> int list \<Rightarrow> int option \<Rightarrow> bytes result" where
  "stable_token_digest sha256 ts limit =
     (let values = (case limit of None \<Rightarrow> ts | Some n \<Rightarrow> take (nat n) ts) in
      if \<not> list_all fits_q values then Inl (OverflowError ''int too big to convert'')
      else if (case limit of None \<Rightarrow> False | Some n \<Rightarrow> int (length values) \<noteq> n)
      then Inl (ChainCacheError ChainPrefixMismatch ''Input is shorter than the chain's processed token boundary'')
      else Inr (sha256 (concat (map (le_bytes 8) values))))"

section \<open>Helpers of the index\<close>

definition bump :: "string \<Rightarrow> unit chain_op" where
  "bump name = writes (\<lambda>s. s\<lparr>chain_stats := AList.update name (the (map_of (chain_stats s) name) + 1) (chain_stats s)\<rparr>)"

definition tick :: "int chain_op" where
  "tick s = (Inr (chain_clock s + 1), s\<lparr>chain_clock := chain_clock s + 1\<rparr>)"

text \<open>A record is changed in place.\<close>

definition alter :: "'k \<Rightarrow> ('v \<Rightarrow> 'v) \<Rightarrow> ('k, 'v) dict \<Rightarrow> ('k, 'v) dict" where
  "alter c f d = map (\<lambda>(k, r). (k, if k = c then f r else r)) d"

definition update_record :: "string \<Rightarrow> (chain_record \<Rightarrow> chain_record) \<Rightarrow> unit chain_op" where
  "update_record c f = writes (\<lambda>s. s\<lparr>chain_records := alter c f (chain_records s)\<rparr>)"

text \<open>The keys of \<open>active_records\<close> after an assignment and after a \<open>pop\<close>.\<close>

definition activate :: "string \<Rightarrow> string list \<Rightarrow> string list" where
  "activate c cs = (if c \<in> set cs then cs else cs @ [c])"

definition set_record_state :: "string \<Rightarrow> chain_state \<Rightarrow> unit chain_op" where
  "set_record_state c st =
     oseq (writes (\<lambda>s. s\<lparr>routing_snapshot_cache := None\<rparr>))
     (oseq (update_record c (\<lambda>r. r\<lparr>rec_state := st\<rparr>))
     (writes (\<lambda>s. s\<lparr>active_chain_ids := (if st = Active then activate c (active_chain_ids s) else remove1 c (active_chain_ids s))\<rparr>)))"

text \<open>\<open>while len(tombstones) > max_tombstones: popitem(last=False)\<close>, which drops the oldest ones.\<close>

definition trim_tombstones :: "int \<Rightarrow> (string, int) dict \<Rightarrow> (string, int) dict" where
  "trim_tombstones m d = drop (length d - nat m) d"

definition add_tombstone :: "string \<Rightarrow> unit chain_op" where
  "add_tombstone c =
     oseq (writes (\<lambda>s. s\<lparr>routing_snapshot_cache := None, tombstones := AList.delete c (tombstones s)\<rparr>))
     (obind tick (\<lambda>t. writes (\<lambda>s. s\<lparr>tombstones := trim_tombstones (max_tombstones s) (AList.update c t (tombstones s))\<rparr>)))"

definition chain_lookup :: "string \<Rightarrow> chain_record chain_op" where
  "chain_lookup c =
     obind (reads id) (\<lambda>s. case map_of (chain_records s) c of
       Some r \<Rightarrow> ret r
     | None \<Rightarrow> if map_of (tombstones s) c \<noteq> None then raise_error (ChainCacheError ChainGone ''Chain was evicted or invalidated.'')
               else raise_error (ChainCacheError ChainNotFound ''Unknown chain_id''))"

section \<open>Token histories\<close>

definition fits_I :: "int \<Rightarrow> bool" where
  "fits_I x \<longleftrightarrow> 0 \<le> x \<and> x < 2 ^ 32"

definition check_token_history_capacity :: "chain_record \<Rightarrow> int \<Rightarrow> unit chain_op" where
  "check_token_history_capacity r n =
     obind (reads id) (\<lambda>s.
     raise_if (case max_token_history_tokens s of None \<Rightarrow> False
               | Some m \<Rightarrow> m < token_history_tokens s - int (length (rec_token_ids r)) + n)
       (ChainCacheError ChainCapacity ''Chain logical token history exceeds its configured resident capacity''))"

definition prepare_token_history :: "chain_record \<Rightarrow> int list \<Rightarrow> int \<Rightarrow> 32 word list chain_op" where
  "prepare_token_history r ts n =
     oseq (raise_if (n < 0) (ValueError ''processed_token_count must be >= 0''))
     (oseq (raise_if (\<not> list_all fits_I ts) (ChainCacheError ChainOwnerMismatch ''Chain token IDs must fit unsigned 32-bit storage.''))
     (oseq (raise_if (int (length ts) < n)
       (ChainCacheError ChainOwnerMismatch ''Finished token sequence is shorter than the processed boundary''))
     (oseq (check_token_history_capacity r (int (length ts)))
     (ret (map word_of_int ts)))))"

definition store_token_history :: "string \<Rightarrow> 32 word list \<Rightarrow> unit chain_op" where
  "store_token_history c ts =
     obind (chain_lookup c) (\<lambda>r.
     oseq (check_token_history_capacity r (int (length ts)))
     (oseq (writes (\<lambda>s. s\<lparr>token_history_tokens := token_history_tokens s - int (length (rec_token_ids r))\<rparr>))
     (oseq (update_record c (\<lambda>r. r\<lparr>rec_token_ids := ts\<rparr>))
     (writes (\<lambda>s. s\<lparr>token_history_tokens := token_history_tokens s + int (length ts)\<rparr>)))))"

definition drop_token_history :: "string \<Rightarrow> chain_record \<Rightarrow> unit chain_op" where
  "drop_token_history c r =
     oseq (writes (\<lambda>s. s\<lparr>token_history_tokens := token_history_tokens s - int (length (rec_token_ids r))\<rparr>))
     (update_record c (\<lambda>r. r\<lparr>rec_token_ids := []\<rparr>))"

section \<open>Admission\<close>

text \<open>Idle chains with device rows, least recently used first.\<close>

definition idle_resident_lru :: "chain_index \<Rightarrow> chain_record list" where
  "idle_resident_lru s = sort_key (\<lambda>r. (rec_last_access r, rec_chain_id r))
     (filter (\<lambda>r. rec_state r = Idle \<and> 0 < resident_rows r) (map snd (chain_records s)))"

definition slot_at :: "int list \<Rightarrow> nat \<Rightarrow> int" where
  "slot_at xs i = (if i < length xs then xs ! i else 0)"

definition reduce_slots :: "int list \<Rightarrow> int list \<Rightarrow> int list" where
  "reduce_slots deficits freed = map (\<lambda>i. max 0 (deficits ! i - slot_at freed i)) [0..<length deficits]"

definition no_deficit :: "int \<Rightarrow> int list \<Rightarrow> bool" where
  "no_deficit rows slots \<longleftrightarrow> rows \<le> 0 \<and> list_all (\<lambda>x. x = 0) slots"

fun victim_loop :: "chain_record list \<Rightarrow> int \<Rightarrow> int list \<Rightarrow> string list \<Rightarrow> int \<times> int list \<times> string list" where
  "victim_loop [] rows slots victims = (rows, slots, victims)"
| "victim_loop (v # vs) rows slots victims =
     (if no_deficit rows slots then (rows, slots, victims)
      else victim_loop vs (max 0 (rows - resident_rows v)) (reduce_slots slots (physical_slots_by_layer v)) (victims @ [rec_chain_id v]))"

definition select_victims :: "string \<Rightarrow> int list \<Rightarrow> int \<Rightarrow> string list chain_op" where
  "select_victims c required row_deficit =
     obind (reads id) (\<lambda>s.
     let slots = map (max 0) required; rows = max 0 row_deficit;
         candidates = (if no_deficit rows slots then [] else filter (\<lambda>r. rec_chain_id r \<noteq> c) (idle_resident_lru s))
     in case victim_loop candidates rows slots [] of (rows, slots, victims) \<Rightarrow>
        if no_deficit rows slots then ret victims
        else raise_error (ChainCacheError ChainCapacity ''No capacity is available for the chain request after evicting all IDLE chains''))"

text \<open>The driver plans from the tokens of the request, the other ranks from the digest they were sent.\<close>

datatype chain_input = TokenIds "int list" | PrefixDigest int bytes

definition input_count :: "chain_input \<Rightarrow> int" where
  "input_count input = (case input of TokenIds ts \<Rightarrow> int (length ts) | PrefixDigest n _ \<Rightarrow> n)"

definition input_digest :: "(bytes \<Rightarrow> bytes) \<Rightarrow> chain_input \<Rightarrow> int \<Rightarrow> bytes result" where
  "input_digest sha256 input n = (case input of
     TokenIds ts \<Rightarrow> stable_token_digest sha256 ts (Some n)
   | PrefixDigest m d \<Rightarrow> if m < n then Inl (ChainCacheError ChainPrefixMismatch ''Input is shorter than the chain's processed token boundary'')
                         else Inr d)"

definition check_input_prefix :: "(bytes \<Rightarrow> bytes) \<Rightarrow> chain_input \<Rightarrow> chain_record \<Rightarrow> unit chain_op" where
  "check_input_prefix sha256 input r =
     (case input_digest sha256 input (processed_token_count r) of
        Inl (ChainCacheError ChainPrefixMismatch x) \<Rightarrow>
          oseq (bump ''chain_cache_prefix_mismatch'') (raise_error (ChainCacheError ChainPrefixMismatch x))
      | Inl err \<Rightarrow> raise_error err
      | Inr d \<Rightarrow> if d \<noteq> processed_token_digest r
          then oseq (bump ''chain_cache_prefix_mismatch'')
                 (raise_error (ChainCacheError ChainPrefixMismatch ''Input prefix does not match chain''))
          else ret ())"

definition check_resume :: "(bytes \<Rightarrow> bytes) \<Rightarrow> chain_input \<Rightarrow> bytes \<Rightarrow> nat \<Rightarrow> chain_record \<Rightarrow> unit chain_op" where
  "check_resume sha256 input fp seq r =
     (if rec_state r = Active
      then oseq (bump ''chain_cache_busy'') (raise_error (ChainCacheError ChainBusy ''Chain already has an active writer.''))
      else oseq (raise_if (rec_fingerprint r \<noteq> fp)
                  (ChainCacheError ChainFingerprintMismatch ''Chain was created with a different method/config fingerprint.''))
           (oseq (raise_if (rec_seq_id r \<noteq> seq) (ChainCacheError ChainOwnerMismatch ''Chain owner mismatch''))
           (check_input_prefix sha256 input r)))"

definition plan_chain_admission :: "(bytes \<Rightarrow> bytes) \<Rightarrow> string \<Rightarrow> nat \<Rightarrow> chain_input \<Rightarrow> bytes \<Rightarrow> int list \<Rightarrow> int \<Rightarrow> int list \<Rightarrow> int
    \<Rightarrow> chain_plan chain_op" where
  "plan_chain_admission sha256 c seq input fp required row_deficit reserved rows =
     obind (reads id) (\<lambda>s.
     obind (case map_of (chain_records s) c of
         None \<Rightarrow> if map_of (tombstones s) c \<noteq> None then oseq (chain_lookup c) (ret (''created'', 0)) else ret (''created'', 0)
       | Some r \<Rightarrow> oseq (check_resume sha256 input fp seq r) (ret (''resumed'', processed_token_count r))) (\<lambda>(status, reused).
     obind (select_victims c required row_deficit) (\<lambda>victims.
     ret \<lparr>plan_chain_id = c, plan_seq_id = seq, plan_status = status, plan_reused_tokens = reused, plan_input_token_count = input_count input,
       victim_chain_ids = victims, plan_reserved_slots = map (max 0) reserved, plan_reserved_rows = max 0 rows,
       demote_chain_ids = [], plan_decode_reserved_slots = []\<rparr>)))"

section \<open>Removal\<close>

definition remove_record :: "string \<Rightarrow> string \<Rightarrow> chain_record \<Rightarrow> unit chain_op" where
  "remove_record stat c r =
     oseq (drop_token_history c r)
     (oseq (writes (\<lambda>s. s\<lparr>chain_records := AList.delete c (chain_records s), active_chain_ids := remove1 c (active_chain_ids s),
         seq_id_to_chain_id := AList.delete (rec_seq_id r) (seq_id_to_chain_id s)\<rparr>))
     (oseq (add_tombstone c) (bump stat)))"

definition evict_chain :: "string \<Rightarrow> chain_record chain_op" where
  "evict_chain c =
     obind (chain_lookup c) (\<lambda>r.
     oseq (raise_if (rec_state r = Active) (ChainCacheError ChainBusy ''Cannot evict ACTIVE chain''))
     (oseq (remove_record ''chain_cache_evicted'' c r) (ret (r\<lparr>rec_token_ids := []\<rparr>))))"

definition invalidate_chain :: "string \<Rightarrow> chain_record chain_op" where
  "invalidate_chain c =
     obind (chain_lookup c) (\<lambda>r. oseq (remove_record ''chain_cache_invalidated'' c r) (ret (r\<lparr>rec_token_ids := []\<rparr>)))"

section \<open>Turns\<close>

definition new_record :: "chain_plan \<Rightarrow> bytes \<Rightarrow> int \<Rightarrow> chain_record" where
  "new_record plan fp t = \<lparr>rec_chain_id = plan_chain_id plan, rec_seq_id = plan_seq_id plan, rec_fingerprint = fp, rec_state = Active,
     processed_token_count = 0, processed_token_digest = [], rec_token_ids = [], last_input_token_count = plan_input_token_count plan,
     rec_last_access = t, physical_slots_by_layer = [], resident_rows = 1, reserved_slots_by_layer = [], reserved_rows = 0\<rparr>"

definition reserve_plan :: "chain_plan \<Rightarrow> chain_record \<Rightarrow> chain_record" where
  "reserve_plan plan r = r\<lparr>reserved_slots_by_layer := plan_reserved_slots plan, reserved_rows := plan_reserved_rows plan\<rparr>"

definition create_chain :: "chain_plan \<Rightarrow> bytes \<Rightarrow> string chain_op" where
  "create_chain plan fp =
     (let c = plan_chain_id plan in
     obind (reads id) (\<lambda>s.
     oseq (raise_if (map_of (chain_records s) c \<noteq> None) (ChainCacheError ChainOwnerMismatch ''Chain appeared between plan and admission.''))
     (oseq (raise_if (map_of (seq_id_to_chain_id s) (plan_seq_id plan) \<noteq> None) (ChainCacheError ChainOwnerMismatch ''resident_seq_id already owns chain''))
     (obind tick (\<lambda>t.
     oseq (writes (\<lambda>s. s\<lparr>chain_records := AList.update c (new_record plan fp t) (chain_records s)\<rparr>))
     (oseq (set_record_state c Active)
     (oseq (writes (\<lambda>s. s\<lparr>seq_id_to_chain_id := AList.update (plan_seq_id plan) c (seq_id_to_chain_id s)\<rparr>))
     (oseq (update_record c (reserve_plan plan))
     (oseq (bump ''chain_cache_created'') (ret c))))))))))"

definition resume_chain :: "chain_plan \<Rightarrow> string chain_op" where
  "resume_chain plan =
     (let c = plan_chain_id plan in
     obind (chain_lookup c) (\<lambda>r.
     oseq (raise_if (rec_state r \<noteq> Idle) (ChainCacheError ChainBusy ''Chain is not IDLE during admission.''))
     (oseq (set_record_state c Active)
     (oseq (update_record c (\<lambda>r. r\<lparr>last_input_token_count := plan_input_token_count plan\<rparr>))
     (obind tick (\<lambda>t.
     oseq (update_record c (\<lambda>r. r\<lparr>rec_last_access := t\<rparr>))
     (oseq (update_record c (reserve_plan plan))
     (oseq (bump ''chain_cache_resumed'') (ret c)))))))))"

definition apply_chain_admission :: "chain_plan \<Rightarrow> bytes \<Rightarrow> string chain_op" where
  "apply_chain_admission plan fp =
     oseq (ofor (victim_chain_ids plan) (\<lambda>c. oseq (evict_chain c) (ret ())))
     (if plan_status plan = ''created'' then create_chain plan fp else resume_chain plan)"

definition finish_chain_digest :: "string \<Rightarrow> bytes \<Rightarrow> int \<Rightarrow> int list \<Rightarrow> int \<Rightarrow> string chain_op" where
  "finish_chain_digest c d n slots rows =
     obind (chain_lookup c) (\<lambda>r.
     oseq (raise_if (rec_state r \<noteq> Active) (ChainCacheError ChainOwnerMismatch ''Cannot finish non-ACTIVE chain''))
     (oseq (raise_if (n < processed_token_count r) (ChainCacheError ChainOwnerMismatch ''Chain processed boundary moved backwards''))
     (oseq (raise_if (length d \<noteq> 32) (ValueError ''processed_token_digest must be a SHA-256 digest''))
     (oseq (update_record c (\<lambda>r. r\<lparr>processed_token_digest := d, processed_token_count := n, physical_slots_by_layer := slots,
         resident_rows := rows, reserved_slots_by_layer := [], reserved_rows := 0\<rparr>))
     (oseq (set_record_state c Idle)
     (obind tick (\<lambda>t.
     oseq (update_record c (\<lambda>r. r\<lparr>rec_last_access := t\<rparr>))
     (oseq (bump ''chain_cache_finished'') (ret c)))))))))"

definition finish_chain :: "(bytes \<Rightarrow> bytes) \<Rightarrow> string \<Rightarrow> int list \<Rightarrow> int \<Rightarrow> int list \<Rightarrow> int \<Rightarrow> string chain_op" where
  "finish_chain sha256 c ts n slots rows =
     obind (chain_lookup c) (\<lambda>r.
     obind (prepare_token_history r ts n) (\<lambda>history.
     obind (lift_result (\<lambda>_. stable_token_digest sha256 ts (Some n))) (\<lambda>d.
     obind (finish_chain_digest c d n slots rows) (\<lambda>c.
     oseq (store_token_history c history) (ret c)))))"

section \<open>Routing and statistics\<close>

definition fresh_snapshot :: "chain_index \<Rightarrow> chain_snapshot" where
  "fresh_snapshot s = \<lparr>snap_active = set (map rec_chain_id (filter (\<lambda>r. rec_state r = Active) (map snd (chain_records s)))),
     snap_idle = set (map rec_chain_id (filter (\<lambda>r. rec_state r = Idle) (map snd (chain_records s)))),
     snap_tombstones = set (map fst (tombstones s))\<rparr>"

definition routing_snapshot :: "chain_snapshot chain_op" where
  "routing_snapshot =
     obind (reads routing_snapshot_cache) (\<lambda>cache. case cache of
       Some sn \<Rightarrow> ret sn
     | None \<Rightarrow> obind (reads fresh_snapshot) (\<lambda>sn. oseq (writes (\<lambda>s. s\<lparr>routing_snapshot_cache := Some sn\<rparr>)) (ret sn)))"

text \<open>Present with its state, or absent with the tombstone flag.\<close>

definition snapshot_chain_match :: "chain_snapshot \<Rightarrow> string \<Rightarrow> chain_state option \<times> bool" where
  "snapshot_chain_match sn c = (if c \<in> snap_active sn then (Some Active, False) else if c \<in> snap_idle sn then (Some Idle, False)
     else (None, c \<in> snap_tombstones sn))"

definition routing_match :: "chain_index \<Rightarrow> string \<Rightarrow> chain_state option \<times> bool" where
  "routing_match s c = (case map_of (chain_records s) c of
     Some r \<Rightarrow> (Some (rec_state r), False) | None \<Rightarrow> (None, map_of (tombstones s) c \<noteq> None))"

definition chain_index_stats :: "chain_index \<Rightarrow> (string, int) dict" where
  "chain_index_stats s = (let cap = (case max_token_history_tokens s of None \<Rightarrow> -1 | Some n \<Rightarrow> n) in
     chain_stats s @ [(''chain_cache_entries'', int (length (chain_records s))), (''chain_cache_active'', int (length (active_chain_ids s))),
       (''chain_cache_idle'', int (length (chain_records s)) - int (length (active_chain_ids s))),
       (''chain_cache_tombstones'', int (length (tombstones s))), (''chain_cache_tombstone_capacity'', max_tombstones s),
       (''chain_cache_token_history_tokens'', token_history_tokens s), (''chain_cache_token_history_capacity'', cap),
       (''chain_cache_token_history_bytes'', token_history_tokens s * 4),
       (''chain_cache_token_history_byte_capacity'', if max_token_history_tokens s = None then -1 else cap * 4)])"

definition reset_chains :: "unit chain_op" where
  "reset_chains = writes (\<lambda>s. s\<lparr>routing_snapshot_cache := None, chain_records := [], active_chain_ids := [], seq_id_to_chain_id := [],
     tombstones := [], chain_clock := 0, token_history_tokens := 0, chain_stats := map (\<lambda>(n, _). (n, 0)) (chain_stats s)\<rparr>)"

end
