(* ===== verification/Chain_Lifecycle.thy ===== *)
theory Chain_Lifecycle
  imports Chain_Index
begin

text \<open>
  The invariant of the chain index and what its operations do.  Every operation either raises, and then
  it has changed at most the counters (and evicted the victims it was told to), or it moves exactly one chain through
  its lifecycle.
\<close>

section \<open>Altered dictionaries\<close>

lemma map_of_alter [simp]: "map_of (alter c f d) k = (if k = c then map_option f (map_of d c) else map_of d k)"
  by (induction d) (auto simp: alter_def)

lemma keys_alter [simp]: "map fst (alter c f d) = map fst d"
  by (induction d) (auto simp: alter_def)

lemma alter_alter [simp]: "alter c g (alter c f d) = alter c (\<lambda>r. g (f r)) d"
  by (auto simp: alter_def)

lemma alter_absent: "c \<notin> fst ` set d \<Longrightarrow> alter c f d = d"
  by (induction d) (auto simp: alter_def)

lemma length_alter [simp]: "length (alter c f d) = length d" by (simp add: alter_def)

lemma sum_alter:
  fixes g :: "'v \<Rightarrow> int"
  assumes "dict_ok d" "map_of d c = Some r"
  shows "sum_list (map (\<lambda>kv. g (snd kv)) (alter c f d)) = sum_list (map (\<lambda>kv. g (snd kv)) d) - g r + g (f r)"
  using assms
proof (induction d)
  case Nil
  then show ?case by simp
next
  case (Cons p d)
  obtain k v where p: "p = (k, v)" by (cases p)
  show ?case
  proof (cases "k = c")
    case True
    then have "alter c f d = d" using Cons.prems(1) p by (intro alter_absent) auto
    with True Cons.prems(2) p show ?thesis by (simp add: alter_def)
  next
    case False
    with Cons p show ?thesis by (simp add: alter_def)
  qed
qed

lemma sum_delete:
  fixes g :: "'v \<Rightarrow> int"
  assumes "dict_ok d" "map_of d c = Some r"
  shows "sum_list (map (\<lambda>kv. g (snd kv)) (AList.delete c d)) = sum_list (map (\<lambda>kv. g (snd kv)) d) - g r"
  using assms
proof (induction d)
  case Nil
  then show ?case by simp
next
  case (Cons p d)
  obtain k v where p: "p = (k, v)" by (cases p)
  show ?case
  proof (cases "k = c")
    case True
    then have "AList.delete c d = d" using Cons.prems(1) p by (intro delete_id) auto
    with True Cons.prems(2) p show ?thesis by simp
  next
    case False
    with Cons p show ?thesis by simp
  qed
qed

lemma sum_insert:
  fixes g :: "'v \<Rightarrow> int"
  shows "map_of d c = None \<Longrightarrow> sum_list (map (\<lambda>kv. g (snd kv)) (AList.update c r d)) = sum_list (map (\<lambda>kv. g (snd kv)) d) + g r"
  by (induction d) (auto split: if_splits)

section \<open>The invariant\<close>

definition records_keyed :: "chain_index \<Rightarrow> bool" where
  "records_keyed s \<longleftrightarrow> dict_ok (chain_records s) \<and> (\<forall>c r. map_of (chain_records s) c = Some r \<longrightarrow> rec_chain_id r = c)"

definition active_exact :: "chain_index \<Rightarrow> bool" where
  "active_exact s \<longleftrightarrow> distinct (active_chain_ids s)
     \<and> (\<forall>c. c \<in> set (active_chain_ids s) \<longleftrightarrow> (\<exists>r. map_of (chain_records s) c = Some r \<and> rec_state r = Active))"

text \<open>One chain per owner, and one owner per chain.\<close>

definition owners_exact :: "chain_index \<Rightarrow> bool" where
  "owners_exact s \<longleftrightarrow> dict_ok (seq_id_to_chain_id s)
     \<and> (\<forall>q c. map_of (seq_id_to_chain_id s) q = Some c \<longleftrightarrow> (\<exists>r. map_of (chain_records s) c = Some r \<and> rec_seq_id r = q))"

definition history_exact :: "chain_index \<Rightarrow> bool" where
  "history_exact s \<longleftrightarrow> token_history_tokens s = sum_list (map (\<lambda>kv. int (length (rec_token_ids (snd kv)))) (chain_records s))
     \<and> (\<forall>m. max_token_history_tokens s = Some m \<longrightarrow> token_history_tokens s \<le> m)"

definition tombstones_bounded :: "chain_index \<Rightarrow> bool" where
  "tombstones_bounded s \<longleftrightarrow> dict_ok (tombstones s) \<and> 0 < max_tombstones s \<and> int (length (tombstones s)) \<le> max_tombstones s"

definition accesses_ordered :: "chain_index \<Rightarrow> bool" where
  "accesses_ordered s \<longleftrightarrow> (\<forall>c r. map_of (chain_records s) c = Some r \<longrightarrow> rec_last_access r \<le> chain_clock s)
     \<and> (\<forall>c r c' r'. map_of (chain_records s) c = Some r \<longrightarrow> map_of (chain_records s) c' = Some r' \<longrightarrow> c \<noteq> c'
          \<longrightarrow> rec_last_access r \<noteq> rec_last_access r')"

definition snapshot_fresh :: "chain_index \<Rightarrow> bool" where
  "snapshot_fresh s \<longleftrightarrow> (\<forall>sn. routing_snapshot_cache s = Some sn \<longrightarrow> sn = fresh_snapshot s)"

text \<open>An idle chain has no reservation, and the processed boundary is not negative.\<close>

definition records_settled :: "chain_index \<Rightarrow> bool" where
  "records_settled s \<longleftrightarrow> (\<forall>c r. map_of (chain_records s) c = Some r \<longrightarrow> 0 \<le> processed_token_count r
     \<and> (rec_state r = Idle \<longrightarrow> reserved_slots_by_layer r = [] \<and> reserved_rows r = 0))"

definition stat :: "chain_index \<Rightarrow> string \<Rightarrow> int" where
  "stat s name = the (map_of (chain_stats s) name)"

text \<open>Every chain that was created is there, or was evicted or invalidated.\<close>

definition counters_balance :: "chain_index \<Rightarrow> bool" where
  "counters_balance s \<longleftrightarrow> map fst (chain_stats s) = chain_stat_names
     \<and> stat s ''chain_cache_created'' = int (length (chain_records s)) + stat s ''chain_cache_evicted'' + stat s ''chain_cache_invalidated''"

definition chain_ok :: "chain_index \<Rightarrow> bool" where
  "chain_ok s \<longleftrightarrow> records_keyed s \<and> active_exact s \<and> owners_exact s \<and> history_exact s \<and> tombstones_bounded s
     \<and> accesses_ordered s \<and> snapshot_fresh s \<and> records_settled s \<and> counters_balance s"

lemmas chain_ok_defs = chain_ok_def records_keyed_def active_exact_def owners_exact_def history_exact_def tombstones_bounded_def
  accesses_ordered_def snapshot_fresh_def records_settled_def

lemma init_chain_ok: "init_chain_index tombs history = Inr s \<Longrightarrow> chain_ok s"
  by (auto simp: init_chain_index_def chain_ok_defs counters_balance_def stat_def chain_stat_names_def split: if_splits option.splits)

section \<open>Counters\<close>

definition bumped :: "string \<Rightarrow> chain_index \<Rightarrow> chain_index" where
  "bumped name s = s\<lparr>chain_stats := AList.update name (stat s name + 1) (chain_stats s)\<rparr>"

lemma run_bump [simp]: "bump name s = (Inr (), bumped name s)"
  by (simp add: bump_def bumped_def stat_def)

lemma keys_update: "k \<in> fst ` set d \<Longrightarrow> map fst (AList.update k v d) = map fst d"
  by (induction d) auto

lemma stat_bumped: "name \<in> set chain_stat_names \<Longrightarrow> map fst (chain_stats s) = chain_stat_names
    \<Longrightarrow> stat (bumped name s) n = (if n = name then stat s name + 1 else stat s n) \<and> map fst (chain_stats (bumped name s)) = chain_stat_names"
proof -
  assume name: "name \<in> set chain_stat_names" and keys: "map fst (chain_stats s) = chain_stat_names"
  have "name \<in> fst ` set (chain_stats s)" using name keys by (metis list.set_map)
  then show ?thesis using keys by (simp add: stat_def bumped_def update_conv' keys_update)
qed

lemma bumped_fields [simp]:
  "chain_records (bumped n s) = chain_records s" "active_chain_ids (bumped n s) = active_chain_ids s"
  "seq_id_to_chain_id (bumped n s) = seq_id_to_chain_id s" "tombstones (bumped n s) = tombstones s"
  "chain_clock (bumped n s) = chain_clock s" "token_history_tokens (bumped n s) = token_history_tokens s"
  "max_tombstones (bumped n s) = max_tombstones s" "max_token_history_tokens (bumped n s) = max_token_history_tokens s"
  "routing_snapshot_cache (bumped n s) = routing_snapshot_cache s" "fresh_snapshot (bumped n s) = fresh_snapshot s"
  by (simp_all add: bumped_def fresh_snapshot_def)

lemma bumped_parts [simp]:
  "records_keyed (bumped n s) = records_keyed s" "active_exact (bumped n s) = active_exact s" "owners_exact (bumped n s) = owners_exact s"
  "history_exact (bumped n s) = history_exact s" "tombstones_bounded (bumped n s) = tombstones_bounded s"
  "accesses_ordered (bumped n s) = accesses_ordered s" "snapshot_fresh (bumped n s) = snapshot_fresh s"
  "records_settled (bumped n s) = records_settled s"
  by (simp_all add: chain_ok_defs)

text \<open>Counters that the balance does not mention.\<close>

lemma bumped_ok:
  assumes "chain_ok s" "n \<in> {''chain_cache_resumed'', ''chain_cache_finished'', ''chain_cache_prefix_mismatch'', ''chain_cache_busy''}"
  shows "chain_ok (bumped n s)"
proof -
  have keys: "map fst (chain_stats s) = chain_stat_names" using assms(1) by (simp add: chain_ok_def counters_balance_def)
  have "n \<in> set chain_stat_names" using assms(2) by (auto simp: chain_stat_names_def)
  note st = stat_bumped [OF this keys]
  have "counters_balance (bumped n s)"
    using assms st [of "''chain_cache_created''"] st [of "''chain_cache_evicted''"] st [of "''chain_cache_invalidated''"]
    by (auto simp: chain_ok_def counters_balance_def)
  then show ?thesis using assms(1) by (simp add: chain_ok_def)
qed

section \<open>Altering one record\<close>

text \<open>The index after a record has changed: its state, its history, and maybe its access time.\<close>

definition altered :: "string \<Rightarrow> (chain_record \<Rightarrow> chain_record) \<Rightarrow> string list \<Rightarrow> int \<Rightarrow> int \<Rightarrow> chain_snapshot option \<Rightarrow> chain_index \<Rightarrow> chain_index" where
  "altered c f actives history t cache s = s\<lparr>chain_records := alter c f (chain_records s), active_chain_ids := actives,
     token_history_tokens := history, chain_clock := t, routing_snapshot_cache := cache\<rparr>"

lemma fresh_snapshot_alter:
  assumes "records_keyed s" "\<And>r. map_of (chain_records s) c = Some r \<Longrightarrow> rec_chain_id (f r) = rec_chain_id r \<and> rec_state (f r) = rec_state r"
  shows "fresh_snapshot (s\<lparr>chain_records := alter c f (chain_records s)\<rparr>) = fresh_snapshot s"
proof -
  have "\<And>k r. (k, r) \<in> set (chain_records s) \<Longrightarrow> map_of (chain_records s) k = Some r"
    using assms(1) by (simp add: records_keyed_def)
  then have "map (\<lambda>kv. (rec_chain_id (snd kv), rec_state (snd kv))) (alter c f (chain_records s))
      = map (\<lambda>kv. (rec_chain_id (snd kv), rec_state (snd kv))) (chain_records s)"
    using assms(2) by (auto simp: alter_def)
  then have "(\<lambda>kv. (rec_chain_id (snd kv), rec_state (snd kv))) ` set (alter c f (chain_records s))
      = (\<lambda>kv. (rec_chain_id (snd kv), rec_state (snd kv))) ` set (chain_records s)" by (metis list.set_map)
  moreover have "{c. \<exists>x \<in> set d. rec_state (snd x) = st \<and> c = rec_chain_id (snd x)}
      = {c. (c, st) \<in> (\<lambda>kv. (rec_chain_id (snd kv), rec_state (snd kv))) ` set d}" for st and d :: "(string, chain_record) dict"
    by (auto simp: image_iff)
  moreover have "set (map rec_chain_id (filter (\<lambda>r. rec_state r = st) (map snd d))) = {c. \<exists>x \<in> set d. rec_state (snd x) = st \<and> c = rec_chain_id (snd x)}"
    for st and d :: "(string, chain_record) dict" by auto
  ultimately show ?thesis by (simp only: fresh_snapshot_def) simp
qed

lemma altered_ok:
  assumes ok: "chain_ok s" and r: "map_of (chain_records s) c = Some r"
    and keeps: "rec_chain_id (f r) = rec_chain_id r" "rec_seq_id (f r) = rec_seq_id r" "0 \<le> processed_token_count (f r)"
      "rec_state (f r) = Idle \<Longrightarrow> reserved_slots_by_layer (f r) = [] \<and> reserved_rows (f r) = 0"
    and actives: "actives = (if rec_state (f r) = Active then activate c (active_chain_ids s) else remove1 c (active_chain_ids s))"
    and history: "history = token_history_tokens s - int (length (rec_token_ids r)) + int (length (rec_token_ids (f r)))"
      "\<And>m. max_token_history_tokens s = Some m \<Longrightarrow> history \<le> m"
    and time: "rec_last_access (f r) = rec_last_access r \<and> t = chain_clock s \<or> rec_last_access (f r) = t \<and> t = chain_clock s + 1"
    and cache: "cache = None \<or> cache = routing_snapshot_cache s \<and> rec_state (f r) = rec_state r"
  shows "chain_ok (altered c f actives history t cache s)"
proof -
  let ?t = "altered c f actives history t cache s"
  have D: "chain_records ?t = alter c f (chain_records s)" by (simp add: altered_def)
  have keyed: "records_keyed ?t" using ok r keeps(1) by (auto simp: chain_ok_def records_keyed_def D)
  moreover have "active_exact ?t"
    using ok r unfolding chain_ok_def active_exact_def D
    by (auto simp: altered_def actives activate_def split: if_splits)
  moreover have "owners_exact ?t"
    using ok r keeps(2) unfolding chain_ok_def owners_exact_def D by (auto simp: altered_def split: if_splits)
  moreover have "history_exact ?t"
    using ok history sum_alter [OF _ r, of "\<lambda>r. int (length (rec_token_ids r))" f] unfolding chain_ok_def history_exact_def D records_keyed_def
    by (simp add: altered_def)
  moreover have "tombstones_bounded ?t" using ok by (simp add: chain_ok_def tombstones_bounded_def altered_def)
  moreover have "accesses_ordered ?t"
    using ok r time unfolding chain_ok_def accesses_ordered_def D
    by (auto simp: altered_def) (smt (verit))+
  moreover have "records_settled ?t"
    using ok r keeps(3,4) unfolding chain_ok_def records_settled_def D by auto
  moreover have "counters_balance ?t" using ok by (simp add: chain_ok_def counters_balance_def altered_def stat_def)
  moreover have "snapshot_fresh ?t"
  proof (cases "cache = None")
    case False
    then have same: "cache = routing_snapshot_cache s" "rec_state (f r) = rec_state r" using cache by auto
    have "fresh_snapshot ?t = fresh_snapshot (s\<lparr>chain_records := alter c f (chain_records s)\<rparr>)" by (simp add: altered_def fresh_snapshot_def)
    also have "\<dots> = fresh_snapshot s" using ok r keeps(1) same(2) by (intro fresh_snapshot_alter) (auto simp: chain_ok_def)
    finally show ?thesis using ok same(1) by (simp add: chain_ok_def snapshot_fresh_def altered_def)
  qed (simp add: snapshot_fresh_def altered_def)
  ultimately show ?thesis by (simp add: chain_ok_def)
qed

section \<open>Removal and creation\<close>

lemma delete_alter [simp]: "AList.delete c (alter c f d) = AList.delete c d"
  by (induction d) (auto simp: alter_def)

text \<open>The owner map stays the inverse of the ownership of the records.\<close>

lemma owners_delete:
  assumes ex: "\<And>q c. O' q = Some c \<longleftrightarrow> (\<exists>r. D c = Some r \<and> own r = q)" and r: "D c = Some r"
  shows "(O'(own r := None)) q = Some c' \<longleftrightarrow> (\<exists>x. (D(c := None)) c' = Some x \<and> own x = q)"
proof (cases "q = own r")
  case True
  have "O' (own r) = Some c" using ex [of "own r" c] r by blast
  then have "\<not> (\<exists>x. D c' = Some x \<and> own x = own r)" if "c' \<noteq> c" using ex [of "own r" c'] that by simp
  then show ?thesis using True by (simp add: fun_upd_apply)
next
  case False
  have "O' q \<noteq> Some c" using ex [of q c] r False by simp
  then show ?thesis using False ex [of q c'] by (cases "c' = c") (simp_all add: fun_upd_apply)
qed

lemma owners_insert:
  assumes ex: "\<And>q c. O' q = Some c \<longleftrightarrow> (\<exists>r. D c = Some r \<and> own r = q)" and new: "D c = None" "O' (own r) = None"
  shows "(O'(own r := Some c)) q = Some c' \<longleftrightarrow> (\<exists>x. (D(c := Some r)) c' = Some x \<and> own x = q)"
proof (cases "q = own r")
  case True
  have "\<not> (\<exists>x. D c' = Some x \<and> own x = own r)" using ex [of "own r" c'] new(2) by simp
  then show ?thesis using True by (auto simp: fun_upd_apply)
next
  case False
  have "O' q \<noteq> Some c" using ex [of q c] new(1) by simp
  then show ?thesis using False ex [of q c'] by (cases "c' = c") (simp_all add: fun_upd_apply)
qed

definition removed :: "string \<Rightarrow> string \<Rightarrow> chain_record \<Rightarrow> chain_index \<Rightarrow> chain_index" where
  "removed name c r s = bumped name (s\<lparr>token_history_tokens := token_history_tokens s - int (length (rec_token_ids r)),
     chain_records := AList.delete c (chain_records s), active_chain_ids := remove1 c (active_chain_ids s),
     seq_id_to_chain_id := AList.delete (rec_seq_id r) (seq_id_to_chain_id s), routing_snapshot_cache := None,
     chain_clock := chain_clock s + 1,
     tombstones := trim_tombstones (max_tombstones s) (AList.update c (chain_clock s + 1) (AList.delete c (tombstones s)))\<rparr>)"

lemma run_remove: "remove_record name c r s = (Inr (), removed name c r s)"
  by (simp add: remove_record_def removed_def drop_token_history_def update_record_def add_tombstone_def tick_def oseq_def obind_def)

lemma removed_fields:
  "chain_records (removed name c r s) = AList.delete c (chain_records s)"
  "active_chain_ids (removed name c r s) = remove1 c (active_chain_ids s)"
  "seq_id_to_chain_id (removed name c r s) = AList.delete (rec_seq_id r) (seq_id_to_chain_id s)"
  "tombstones (removed name c r s) = trim_tombstones (max_tombstones s) (AList.update c (chain_clock s + 1) (AList.delete c (tombstones s)))"
  "token_history_tokens (removed name c r s) = token_history_tokens s - int (length (rec_token_ids r))"
  "chain_clock (removed name c r s) = chain_clock s + 1" "routing_snapshot_cache (removed name c r s) = None"
  "max_tombstones (removed name c r s) = max_tombstones s" "max_token_history_tokens (removed name c r s) = max_token_history_tokens s"
  by (simp_all add: removed_def)

lemma trim_bounded: "dict_ok d \<Longrightarrow> 0 < m \<Longrightarrow> dict_ok (trim_tombstones m d) \<and> int (length (trim_tombstones m d)) \<le> m"
  by (auto simp: trim_tombstones_def drop_map [symmetric])

lemma removed_ok:
  assumes ok: "chain_ok s" and r: "map_of (chain_records s) c = Some r" and name: "name \<in> {''chain_cache_evicted'', ''chain_cache_invalidated''}"
  shows "chain_ok (removed name c r s)"
proof -
  let ?t = "removed name c r s"
  have keyed: "dict_ok (chain_records s)" using ok by (simp add: chain_ok_defs)
  have keys: "map fst (chain_stats s) = chain_stat_names" using ok by (simp add: chain_ok_def counters_balance_def)
  have owner: "map_of (seq_id_to_chain_id s) (rec_seq_id r) = Some c" using ok r by (auto simp: chain_ok_defs)
  have "records_keyed ?t" using ok by (auto simp: chain_ok_def records_keyed_def removed_fields delete_conv' split: if_splits)
  moreover have "active_exact ?t"
    using ok by (auto simp: chain_ok_def active_exact_def removed_fields delete_conv')
  moreover have "owners_exact ?t"
  proof -
    have o: "dict_ok (seq_id_to_chain_id s)" "\<And>q c. map_of (seq_id_to_chain_id s) q = Some c \<longleftrightarrow> (\<exists>r. map_of (chain_records s) c = Some r \<and> rec_seq_id r = q)"
      using ok unfolding chain_ok_def owners_exact_def by blast+
    show ?thesis unfolding owners_exact_def removed_fields delete_conv' using o(1) owners_delete [OF o(2) r] by (auto simp del: fun_upd_apply)
  qed
  moreover have "history_exact ?t"
    using ok sum_delete [OF keyed r, of "\<lambda>r. int (length (rec_token_ids r))"]
    by (auto simp: chain_ok_def history_exact_def removed_fields)
  moreover have "tombstones_bounded ?t"
    using ok trim_bounded [of "AList.update c (chain_clock s + 1) (AList.delete c (tombstones s))" "max_tombstones s"]
    by (auto simp: chain_ok_def tombstones_bounded_def removed_fields)
  moreover have "accesses_ordered ?t"
    using ok by (auto simp: chain_ok_def accesses_ordered_def removed_fields delete_conv' split: if_splits) fastforce+
  moreover have "snapshot_fresh ?t" by (simp add: snapshot_fresh_def removed_fields)
  moreover have "records_settled ?t" using ok by (auto simp: chain_ok_def records_settled_def removed_fields delete_conv' split: if_splits)
  moreover have "counters_balance ?t"
  proof -
    have names: "name \<in> set chain_stat_names" using name by (auto simp: chain_stat_names_def)
    note st = stat_bumped [of name "s\<lparr>token_history_tokens := token_history_tokens s - int (length (rec_token_ids r)),
     chain_records := AList.delete c (chain_records s), active_chain_ids := remove1 c (active_chain_ids s),
     seq_id_to_chain_id := AList.delete (rec_seq_id r) (seq_id_to_chain_id s), routing_snapshot_cache := None,
     chain_clock := chain_clock s + 1,
     tombstones := trim_tombstones (max_tombstones s) (AList.update c (chain_clock s + 1) (AList.delete c (tombstones s)))\<rparr>",
     folded removed_def, OF names]
    have "int (length (AList.delete c (chain_records s))) = int (length (chain_records s)) - 1"
      using length_delete_present [OF keyed r] by linarith
    then show ?thesis
      using ok name st [of "''chain_cache_created''"] st [of "''chain_cache_evicted''"] st [of "''chain_cache_invalidated''"] keys
      by (auto simp: chain_ok_def counters_balance_def removed_fields stat_def)
  qed
  ultimately show ?thesis by (simp add: chain_ok_def)
qed

definition created :: "chain_plan \<Rightarrow> bytes \<Rightarrow> chain_index \<Rightarrow> chain_index" where
  "created plan fp s = (let c = plan_chain_id plan in
     bumped ''chain_cache_created'' (s\<lparr>chain_records := AList.update c (reserve_plan plan (new_record plan fp (chain_clock s + 1))) (chain_records s),
       active_chain_ids := activate c (active_chain_ids s), seq_id_to_chain_id := AList.update (plan_seq_id plan) c (seq_id_to_chain_id s),
       routing_snapshot_cache := None, chain_clock := chain_clock s + 1\<rparr>))"

lemma alter_update: "dict_ok d \<Longrightarrow> map_of d c = None \<Longrightarrow> alter c f (AList.update c r d) = AList.update c (f r) d"
  by (induction d) (auto simp: alter_def split: if_splits)

lemma run_create:
  assumes "chain_ok s" "map_of (chain_records s) (plan_chain_id plan) = None" "map_of (seq_id_to_chain_id s) (plan_seq_id plan) = None"
  shows "create_chain plan fp s = (Inr (plan_chain_id plan), created plan fp s)"
proof -
  have "dict_ok (chain_records s)" using assms(1) by (simp add: chain_ok_defs)
  note upd = alter_update [OF this assms(2)]
  have same: "new_record plan fp t\<lparr>rec_state := Active\<rparr> = new_record plan fp t" for t by (simp add: new_record_def)
  show ?thesis
    using assms(2,3) upd
    by (auto simp: create_chain_def created_def Let_def tick_def set_record_state_def update_record_def oseq_def obind_def same
        intro!: arg_cong [where f = "bumped ''chain_cache_created''"] chain_index.equality)
qed

lemma created_fields:
  "chain_records (created plan fp s) = AList.update (plan_chain_id plan) (reserve_plan plan (new_record plan fp (chain_clock s + 1))) (chain_records s)"
  "active_chain_ids (created plan fp s) = activate (plan_chain_id plan) (active_chain_ids s)"
  "seq_id_to_chain_id (created plan fp s) = AList.update (plan_seq_id plan) (plan_chain_id plan) (seq_id_to_chain_id s)"
  "tombstones (created plan fp s) = tombstones s" "token_history_tokens (created plan fp s) = token_history_tokens s"
  "chain_clock (created plan fp s) = chain_clock s + 1" "routing_snapshot_cache (created plan fp s) = None"
  "max_tombstones (created plan fp s) = max_tombstones s" "max_token_history_tokens (created plan fp s) = max_token_history_tokens s"
  by (simp_all add: created_def Let_def)

lemma created_ok:
  assumes ok: "chain_ok s" and fresh: "map_of (chain_records s) (plan_chain_id plan) = None" "map_of (seq_id_to_chain_id s) (plan_seq_id plan) = None"
  shows "chain_ok (created plan fp s)"
proof -
  let ?t = "created plan fp s" let ?r = "reserve_plan plan (new_record plan fp (chain_clock s + 1))"
  have r: "rec_chain_id ?r = plan_chain_id plan" "rec_seq_id ?r = plan_seq_id plan" "rec_state ?r = Active" "rec_token_ids ?r = []"
    "rec_last_access ?r = chain_clock s + 1" "processed_token_count ?r = 0" by (simp_all add: reserve_plan_def new_record_def)
  have keys: "map fst (chain_stats s) = chain_stat_names" using ok by (simp add: chain_ok_def counters_balance_def)
  have "records_keyed ?t" using ok r by (auto simp: chain_ok_def records_keyed_def created_fields update_conv' split: if_splits)
  moreover have "active_exact ?t"
    using ok r fresh by (auto simp: chain_ok_def active_exact_def created_fields update_conv' activate_def)
  moreover have "owners_exact ?t"
  proof -
    have o: "dict_ok (seq_id_to_chain_id s)" "\<And>q c. map_of (seq_id_to_chain_id s) q = Some c \<longleftrightarrow> (\<exists>r. map_of (chain_records s) c = Some r \<and> rec_seq_id r = q)"
      using ok unfolding chain_ok_def owners_exact_def by blast+
    show ?thesis unfolding owners_exact_def created_fields update_conv'
      using o(1) owners_insert [OF o(2) fresh(1), of ?r, unfolded r(2), OF fresh(2)] by (auto simp del: fun_upd_apply)
  qed
  moreover have "history_exact ?t"
    using ok r sum_insert [OF fresh(1), of "\<lambda>r. int (length (rec_token_ids r))"] by (auto simp: chain_ok_def history_exact_def created_fields)
  moreover have "tombstones_bounded ?t" using ok by (simp add: chain_ok_def tombstones_bounded_def created_fields)
  moreover have "accesses_ordered ?t"
    using ok r by (auto simp: chain_ok_def accesses_ordered_def created_fields update_conv' split: if_splits) (fastforce+)?
  moreover have "snapshot_fresh ?t" by (simp add: snapshot_fresh_def created_fields)
  moreover have "records_settled ?t" using ok r by (auto simp: chain_ok_def records_settled_def created_fields update_conv' split: if_splits)
  moreover have "counters_balance ?t"
  proof -
    have "''chain_cache_created'' \<in> set chain_stat_names" by (simp add: chain_stat_names_def)
    note st = stat_bumped [OF this, of "s\<lparr>chain_records := AList.update (plan_chain_id plan) ?r (chain_records s),
       active_chain_ids := activate (plan_chain_id plan) (active_chain_ids s),
       seq_id_to_chain_id := AList.update (plan_seq_id plan) (plan_chain_id plan) (seq_id_to_chain_id s),
       routing_snapshot_cache := None, chain_clock := chain_clock s + 1\<rparr>"]
    show ?thesis
      using ok st [of "''chain_cache_created''"] st [of "''chain_cache_evicted''"] st [of "''chain_cache_invalidated''"] keys
        length_update_new [OF fresh(1), of ?r]
      by (auto simp: chain_ok_def counters_balance_def created_def Let_def stat_def)
  qed
  ultimately show ?thesis by (simp add: chain_ok_def)
qed

section \<open>Outcomes\<close>

lemma run_lookup: "chain_lookup c s = (case map_of (chain_records s) c of Some r \<Rightarrow> Inr r
    | None \<Rightarrow> Inl (ChainCacheError (if map_of (tombstones s) c \<noteq> None then ChainGone else ChainNotFound)
        (if map_of (tombstones s) c \<noteq> None then ''Chain was evicted or invalidated.'' else ''Unknown chain_id'')), s)"
  by (auto simp: chain_lookup_def obind_def split: option.splits)

lemma lookup_cases:
  obtains (found) r where "map_of (chain_records s) c = Some r" "chain_lookup c s = (Inr r, s)"
  | (absent) err where "map_of (chain_records s) c = None" "chain_lookup c s = (Inl err, s)"
  by (cases "map_of (chain_records s) c") (auto simp: run_lookup)

lemma run_evict: "evict_chain c s = (case map_of (chain_records s) c of
    None \<Rightarrow> (case chain_lookup c s of (Inl err, t) \<Rightarrow> (Inl err, t) | (Inr r, t) \<Rightarrow> (Inr r, t))
  | Some r \<Rightarrow> if rec_state r = Active then (Inl (ChainCacheError ChainBusy ''Cannot evict ACTIVE chain''), s)
      else (Inr (r\<lparr>rec_token_ids := []\<rparr>), removed ''chain_cache_evicted'' c r s))"
  by (auto simp: evict_chain_def oseq_def obind_def run_lookup run_remove split: option.splits)

lemma run_invalidate: "map_of (chain_records s) c = Some r
    \<Longrightarrow> invalidate_chain c s = (Inr (r\<lparr>rec_token_ids := []\<rparr>), removed ''chain_cache_invalidated'' c r s)"
  by (simp add: invalidate_chain_def oseq_def obind_def run_lookup run_remove)

definition resumed_as :: "chain_plan \<Rightarrow> int \<Rightarrow> chain_record \<Rightarrow> chain_record" where
  "resumed_as plan t r = reserve_plan plan (r\<lparr>rec_state := Active, last_input_token_count := plan_input_token_count plan, rec_last_access := t\<rparr>)"

definition resumed :: "chain_plan \<Rightarrow> chain_index \<Rightarrow> chain_index" where
  "resumed plan s = bumped ''chain_cache_resumed'' (altered (plan_chain_id plan) (resumed_as plan (chain_clock s + 1))
     (activate (plan_chain_id plan) (active_chain_ids s)) (token_history_tokens s) (chain_clock s + 1) None s)"

lemma run_resume:
  "map_of (chain_records s) (plan_chain_id plan) = Some r \<Longrightarrow> resume_chain plan s =
     (if rec_state r \<noteq> Idle then (Inl (ChainCacheError ChainBusy ''Chain is not IDLE during admission.''), s)
      else (Inr (plan_chain_id plan), resumed plan s))"
  by (auto simp: resume_chain_def Let_def oseq_def obind_def run_lookup set_record_state_def update_record_def tick_def resumed_def
      altered_def resumed_as_def [abs_def] intro!: arg_cong [where f = "bumped ''chain_cache_resumed''"] chain_index.equality)

definition finished_as :: "bytes \<Rightarrow> int \<Rightarrow> int list \<Rightarrow> int \<Rightarrow> int \<Rightarrow> chain_record \<Rightarrow> chain_record" where
  "finished_as d n slots rows t r = r\<lparr>processed_token_digest := d, processed_token_count := n, physical_slots_by_layer := slots,
     resident_rows := rows, reserved_slots_by_layer := [], reserved_rows := 0, rec_state := Idle, rec_last_access := t\<rparr>"

definition finished :: "string \<Rightarrow> bytes \<Rightarrow> int \<Rightarrow> int list \<Rightarrow> int \<Rightarrow> chain_index \<Rightarrow> chain_index" where
  "finished c d n slots rows s = bumped ''chain_cache_finished'' (altered c (finished_as d n slots rows (chain_clock s + 1))
     (remove1 c (active_chain_ids s)) (token_history_tokens s) (chain_clock s + 1) None s)"

lemma run_finish_digest:
  "map_of (chain_records s) c = Some r \<Longrightarrow> finish_chain_digest c d n slots rows s =
     (if rec_state r \<noteq> Active then (Inl (ChainCacheError ChainOwnerMismatch ''Cannot finish non-ACTIVE chain''), s)
      else if n < processed_token_count r then (Inl (ChainCacheError ChainOwnerMismatch ''Chain processed boundary moved backwards''), s)
      else if length d \<noteq> 32 then (Inl (ValueError ''processed_token_digest must be a SHA-256 digest''), s)
      else (Inr c, finished c d n slots rows s))"
  by (auto simp: finish_chain_digest_def oseq_def obind_def run_lookup set_record_state_def update_record_def tick_def finished_def
      altered_def finished_as_def [abs_def] intro!: arg_cong [where f = "bumped ''chain_cache_finished''"] chain_index.equality)

definition stored :: "string \<Rightarrow> 32 word list \<Rightarrow> chain_record \<Rightarrow> chain_index \<Rightarrow> chain_index" where
  "stored c ts r s = altered c (\<lambda>r. r\<lparr>rec_token_ids := ts\<rparr>) (active_chain_ids s)
     (token_history_tokens s - int (length (rec_token_ids r)) + int (length ts)) (chain_clock s) (routing_snapshot_cache s) s"

definition history_fits :: "chain_index \<Rightarrow> chain_record \<Rightarrow> int \<Rightarrow> bool" where
  "history_fits s r n \<longleftrightarrow> (\<forall>m. max_token_history_tokens s = Some m \<longrightarrow> token_history_tokens s - int (length (rec_token_ids r)) + n \<le> m)"

lemma run_check_history: "check_token_history_capacity r n s =
    (if history_fits s r n then Inr () else Inl (ChainCacheError ChainCapacity ''Chain logical token history exceeds its configured resident capacity''), s)"
  by (auto simp: check_token_history_capacity_def obind_def history_fits_def split: option.splits)

lemma run_store:
  "map_of (chain_records s) c = Some r \<Longrightarrow> store_token_history c ts s =
     (if history_fits s r (int (length ts)) then (Inr (), stored c ts r s)
      else (Inl (ChainCacheError ChainCapacity ''Chain logical token history exceeds its configured resident capacity''), s))"
  by (auto simp: store_token_history_def oseq_def obind_def run_lookup run_check_history update_record_def stored_def altered_def
      intro!: chain_index.equality)

section \<open>Every operation keeps the invariant\<close>

lemma actives_same: "active_exact s \<Longrightarrow> map_of (chain_records s) c = Some r
    \<Longrightarrow> active_chain_ids s = (if rec_state r = Active then activate c (active_chain_ids s) else remove1 c (active_chain_ids s))"
  by (auto simp: active_exact_def activate_def remove1_idem)

lemma settled: "chain_ok s \<Longrightarrow> map_of (chain_records s) c = Some r
    \<Longrightarrow> 0 \<le> processed_token_count r \<and> (rec_state r = Idle \<longrightarrow> reserved_slots_by_layer r = [] \<and> reserved_rows r = 0)"
  by (simp add: chain_ok_def records_settled_def)

lemma history_within: "chain_ok s \<Longrightarrow> max_token_history_tokens s = Some m \<Longrightarrow> token_history_tokens s \<le> m"
  by (simp add: chain_ok_def history_exact_def)

lemma resumed_ok:
  assumes "chain_ok s" "map_of (chain_records s) (plan_chain_id plan) = Some r"
  shows "chain_ok (resumed plan s)"
  unfolding resumed_def
  by (rule bumped_ok [OF altered_ok [OF assms]])
     (use settled [OF assms] in \<open>auto simp: resumed_as_def reserve_plan_def dest: history_within [OF assms(1)]\<close>)

lemma finished_ok:
  assumes "chain_ok s" "map_of (chain_records s) c = Some r" "processed_token_count r \<le> n"
  shows "chain_ok (finished c d n slots rows s)"
  unfolding finished_def
  by (rule bumped_ok [OF altered_ok [OF assms(1,2)]])
     (use settled [OF assms(1,2)] assms(3) in \<open>auto simp: finished_as_def dest: history_within [OF assms(1)]\<close>)

lemma stored_ok:
  assumes "chain_ok s" "map_of (chain_records s) c = Some r" "history_fits s r (int (length ts))"
  shows "chain_ok (stored c ts r s)"
  unfolding stored_def
  by (rule altered_ok [OF assms(1,2)])
     (use settled [OF assms(1,2)] assms(3) actives_same [of s c r] assms(1,2) in \<open>auto simp: history_fits_def chain_ok_def\<close>)

named_theorems chain_keeps \<open>operations of the chain index that keep its invariant\<close>

lemma keeps_lookup [chain_keeps]: "keeps P (chain_lookup c)" by (rule keepsI) (simp add: run_lookup)

lemma keeps_evict [chain_keeps]: "keeps chain_ok (evict_chain c)"
  by (rule keepsI) (auto simp: run_evict run_lookup intro: removed_ok split: option.splits)

lemma keeps_invalidate [chain_keeps]: "keeps chain_ok (invalidate_chain c)"
proof (rule keepsI)
  fix s
  assume ok: "chain_ok s"
  show "chain_ok (snd (invalidate_chain c s))"
    by (cases rule: lookup_cases [where s = s and c = c]) (use ok in \<open>auto simp: run_invalidate invalidate_chain_def oseq_def obind_def run_remove intro: removed_ok\<close>)
qed

lemma keeps_resume [chain_keeps]: "keeps chain_ok (resume_chain plan)"
proof (rule keepsI)
  fix s
  assume ok: "chain_ok s"
  show "chain_ok (snd (resume_chain plan s))"
  proof (cases rule: lookup_cases [where s = s and c = "plan_chain_id plan"])
    case (found r)
    then show ?thesis using ok by (simp add: run_resume resumed_ok)
  next
    case (absent err)
    then show ?thesis using ok by (simp add: resume_chain_def Let_def obind_def)
  qed
qed

lemma keeps_create [chain_keeps]: "keeps chain_ok (create_chain plan fp)"
proof (rule keepsI)
  fix s
  assume ok: "chain_ok s"
  show "chain_ok (snd (create_chain plan fp s))"
  proof (cases "map_of (chain_records s) (plan_chain_id plan) = None \<and> map_of (seq_id_to_chain_id s) (plan_seq_id plan) = None")
    case True
    then show ?thesis using ok by (simp add: run_create created_ok)
  next
    case False
    then have "snd (create_chain plan fp s) = s" by (auto simp: create_chain_def Let_def oseq_def obind_def)
    then show ?thesis using ok by simp
  qed
qed

lemma keeps_apply [chain_keeps]: "keeps chain_ok (apply_chain_admission plan fp)"
  by (auto simp: apply_chain_admission_def intro!: keeps_intro chain_keeps)

lemma keeps_bump:
  "n \<in> {''chain_cache_resumed'', ''chain_cache_finished'', ''chain_cache_prefix_mismatch'', ''chain_cache_busy''} \<Longrightarrow> keeps chain_ok (bump n)"
  by (rule keepsI) (simp add: bumped_ok)

lemma keeps_plan [chain_keeps]: "keeps chain_ok (plan_chain_admission sha256 c seq input fp required deficit reserved rows)"
  unfolding plan_chain_admission_def check_resume_def check_input_prefix_def select_victims_def
  by (auto intro!: keeps_intro chain_keeps keeps_bump simp: Let_def split: option.splits sum.splits py_error.splits chain_error.splits prod.splits)

lemma keeps_finish_digest [chain_keeps]: "keeps chain_ok (finish_chain_digest c d n slots rows)"
proof (rule keepsI)
  fix s
  assume ok: "chain_ok s"
  show "chain_ok (snd (finish_chain_digest c d n slots rows s))"
  proof (cases rule: lookup_cases [where s = s and c = c])
    case (found r)
    then show ?thesis using ok by (simp add: run_finish_digest finished_ok)
  next
    case (absent err)
    then show ?thesis using ok by (simp add: finish_chain_digest_def obind_def)
  qed
qed

lemma keeps_store [chain_keeps]: "keeps chain_ok (store_token_history c ts)"
proof (rule keepsI)
  fix s
  assume ok: "chain_ok s"
  show "chain_ok (snd (store_token_history c ts s))"
  proof (cases rule: lookup_cases [where s = s and c = c])
    case (found r)
    then show ?thesis using ok by (simp add: run_store stored_ok)
  next
    case (absent err)
    then show ?thesis using ok by (simp add: store_token_history_def obind_def)
  qed
qed

lemma keeps_prepare [chain_keeps]: "keeps P (prepare_token_history r ts n)"
  by (auto simp: prepare_token_history_def check_token_history_capacity_def intro!: keeps_intro)

lemma keeps_finish [chain_keeps]: "keeps chain_ok (finish_chain sha256 c ts n slots rows)"
  by (auto simp: finish_chain_def intro!: keeps_intro chain_keeps)

lemma keeps_routing [chain_keeps]: "keeps chain_ok routing_snapshot"
proof (rule keepsI)
  fix s
  assume ok: "chain_ok s"
  have "fresh_snapshot (s\<lparr>routing_snapshot_cache := x\<rparr>) = fresh_snapshot s" for x by (simp add: fresh_snapshot_def)
  then have "chain_ok (s\<lparr>routing_snapshot_cache := Some (fresh_snapshot s)\<rparr>)"
    using ok by (auto simp: chain_ok_defs counters_balance_def stat_def)
  then show "chain_ok (snd (routing_snapshot s))"
    using ok by (simp add: routing_snapshot_def obind_def oseq_def split: option.splits)
qed

lemma keeps_reset [chain_keeps]: "keeps chain_ok reset_chains"
proof (rule keepsI)
  fix s
  assume ok: "chain_ok s"
  have zero: "map_of (map (\<lambda>(n, _). (n, 0 :: int)) d) k = (if k \<in> fst ` set d then Some 0 else None)" for d :: "(string, int) dict" and k
    by (induction d) auto
  have keys: "map fst (chain_stats s) = chain_stat_names" using ok by (simp add: chain_ok_def counters_balance_def)
  then have "fst ` set (chain_stats s) = set chain_stat_names" by (metis list.set_map)
  then have "stat (snd (reset_chains s)) n = 0" if "n \<in> set chain_stat_names" for n
    using that by (simp add: reset_chains_def stat_def zero)
  moreover have "map fst (chain_stats (snd (reset_chains s))) = chain_stat_names"
    using keys by (simp add: reset_chains_def comp_def case_prod_beta)
  ultimately have "counters_balance (snd (reset_chains s))"
    by (simp add: counters_balance_def chain_stat_names_def) (simp add: reset_chains_def)
  moreover have "token_history_tokens s \<ge> 0" using ok by (auto simp: chain_ok_defs intro!: sum_list_nonneg)
  ultimately show "chain_ok (snd (reset_chains s))"
    using ok by (auto simp: chain_ok_defs reset_chains_def dest: spec)
qed

end
