(* ===== verification/Chain_Turns.thy ===== *)
theory Chain_Turns
  imports Chain_Lifecycle
begin

text \<open>
  What the chain index promises to its clients: the invariant in every reachable state, which chains an
  admission evicts, when a turn may resume, that all ranks plan alike, and that a chain has one writer.
\<close>

section \<open>Reachable states\<close>

inductive chain_reach :: "(bytes \<Rightarrow> bytes) \<Rightarrow> chain_index \<Rightarrow> bool" for sha256 where
  init: "init_chain_index tombs history = Inr s \<Longrightarrow> chain_reach sha256 s"
| plan: "chain_reach sha256 s \<Longrightarrow> plan_chain_admission sha256 c q input fp required deficit reserved rows s = (p, t) \<Longrightarrow> chain_reach sha256 t"
| admit: "chain_reach sha256 s \<Longrightarrow> apply_chain_admission plan fp s = (x, t) \<Longrightarrow> chain_reach sha256 t"
| finish: "chain_reach sha256 s \<Longrightarrow> finish_chain sha256 c ts n slots rows s = (x, t) \<Longrightarrow> chain_reach sha256 t"
| finish_rank: "chain_reach sha256 s \<Longrightarrow> finish_chain_digest c d n slots rows s = (x, t) \<Longrightarrow> chain_reach sha256 t"
| remember: "chain_reach sha256 s \<Longrightarrow> store_token_history c ws s = (u, t) \<Longrightarrow> chain_reach sha256 t"
| evict: "chain_reach sha256 s \<Longrightarrow> evict_chain c s = (r, t) \<Longrightarrow> chain_reach sha256 t"
| invalidate: "chain_reach sha256 s \<Longrightarrow> invalidate_chain c s = (r, t) \<Longrightarrow> chain_reach sha256 t"
| snapshot: "chain_reach sha256 s \<Longrightarrow> routing_snapshot s = (sn, t) \<Longrightarrow> chain_reach sha256 t"
| reset: "chain_reach sha256 s \<Longrightarrow> reset_chains s = (u, t) \<Longrightarrow> chain_reach sha256 t"

lemma reach_ok: "chain_reach sha256 s \<Longrightarrow> chain_ok s"
proof (induction rule: chain_reach.induct)
  case init
  then show ?case using init_chain_ok by blast
next
  case plan
  then show ?case using keepsE [OF keeps_plan] by blast
next
  case admit
  then show ?case using keepsE [OF keeps_apply] by blast
next
  case finish
  then show ?case using keepsE [OF keeps_finish] by blast
next
  case finish_rank
  then show ?case using keepsE [OF keeps_finish_digest] by blast
next
  case remember
  then show ?case using keepsE [OF keeps_store] by blast
next
  case evict
  then show ?case using keepsE [OF keeps_evict] by blast
next
  case invalidate
  then show ?case using keepsE [OF keeps_invalidate] by blast
next
  case snapshot
  then show ?case using keepsE [OF keeps_routing] by blast
next
  case reset
  then show ?case using keepsE [OF keeps_reset] by blast
qed

section \<open>Victims\<close>

definition freed_rows :: "chain_record list \<Rightarrow> int" where
  "freed_rows vs = sum_list (map resident_rows vs)"

definition freed_slots :: "chain_record list \<Rightarrow> nat \<Rightarrow> int" where
  "freed_slots vs i = sum_list (map (\<lambda>v. slot_at (physical_slots_by_layer v) i) vs)"

text \<open>The rows and slots of the chains cover the deficits.\<close>

definition covers :: "chain_record list \<Rightarrow> int \<Rightarrow> int list \<Rightarrow> bool" where
  "covers vs rows slots \<longleftrightarrow> rows \<le> freed_rows vs \<and> (\<forall>i < length slots. slots ! i \<le> freed_slots vs i)"

definition sizes_ok :: "chain_record \<Rightarrow> bool" where
  "sizes_ok r \<longleftrightarrow> 0 \<le> resident_rows r \<and> (\<forall>x \<in> set (physical_slots_by_layer r). 0 \<le> x)"

lemma slot_at_nonneg: "sizes_ok r \<Longrightarrow> 0 \<le> slot_at (physical_slots_by_layer r) i"
  by (auto simp: sizes_ok_def slot_at_def)

lemma freed_nonneg: "\<forall>v \<in> set vs. sizes_ok v \<Longrightarrow> 0 \<le> freed_rows vs \<and> 0 \<le> freed_slots vs i"
  by (auto simp: freed_rows_def freed_slots_def sizes_ok_def slot_at_def intro!: sum_list_nonneg)

lemma reduce_slots_nth: "i < length ds \<Longrightarrow> reduce_slots ds xs ! i = max 0 (ds ! i - slot_at xs i)"
  by (simp add: reduce_slots_def)

lemma length_reduce [simp]: "length (reduce_slots ds xs) = length ds" by (simp add: reduce_slots_def)

lemma covers_Nil: "(\<forall>x \<in> set slots. 0 \<le> x) \<Longrightarrow> covers [] rows slots \<longleftrightarrow> no_deficit rows slots"
  by (auto simp: covers_def no_deficit_def freed_rows_def freed_slots_def list_all_length all_set_conv_all_nth intro: order.antisym)

lemma covers_Cons:
  assumes "sizes_ok v" "\<forall>u \<in> set vs. sizes_ok u"
  shows "covers vs (max 0 (rows - resident_rows v)) (reduce_slots slots (physical_slots_by_layer v)) \<longleftrightarrow> covers (v # vs) rows slots"
  using freed_nonneg [OF assms(2)]
  by (fastforce simp: covers_def reduce_slots_nth freed_rows_def freed_slots_def)

lemma covers_more:
  assumes "covers [] rows slots" "\<forall>v \<in> set vs. sizes_ok v"
  shows "covers vs rows slots"
proof -
  have "rows \<le> 0" "\<forall>i < length slots. slots ! i \<le> 0" using assms(1) by (auto simp: covers_def freed_rows_def freed_slots_def)
  then show ?thesis unfolding covers_def using freed_nonneg [OF assms(2)] by (meson order_trans)
qed

lemma victim_loop_shortest:
  assumes "\<forall>v \<in> set L. sizes_ok v" "\<forall>x \<in> set slots. 0 \<le> x" "victim_loop L rows slots acc = (rows', slots', victims)"
  shows "(no_deficit rows' slots' \<longleftrightarrow> covers L rows slots)
    \<and> (covers L rows slots \<longrightarrow> (\<exists>k \<le> length L. victims = acc @ map rec_chain_id (take k L) \<and> covers (take k L) rows slots
        \<and> (\<forall>j < k. \<not> covers (take j L) rows slots)))"
  using assms
proof (induction L arbitrary: rows slots acc)
  case Nil
  then show ?case by (auto simp: covers_Nil)
next
  case (Cons v vs)
  show ?case
  proof (cases "no_deficit rows slots")
    case True
    then have "covers [] rows slots" using covers_Nil [OF Cons.prems(2)] by simp
    then show ?thesis using True Cons.prems(3) covers_more [OF _ Cons.prems(1)] by (auto intro: exI [of _ 0])
  next
    case False
    let ?rows = "max 0 (rows - resident_rows v)" and ?slots = "reduce_slots slots (physical_slots_by_layer v)"
    have nonneg: "\<forall>x \<in> set ?slots. 0 \<le> x" by (simp add: reduce_slots_def)
    have sizes: "sizes_ok v" "\<forall>u \<in> set vs. sizes_ok u" using Cons.prems(1) by auto
    have cov: "covers (take j vs) ?rows ?slots \<longleftrightarrow> covers (take (Suc j) (v # vs)) rows slots" for j
      using covers_Cons [OF sizes(1), of "take j vs"] sizes(2) by (auto dest: in_set_takeD)
    have first: "\<not> covers (take 0 (v # vs)) rows slots" using False covers_Nil [OF Cons.prems(2)] by simp
    note IH = Cons.IH [OF sizes(2) nonneg, of ?rows "acc @ [rec_chain_id v]"]
    have run: "victim_loop vs ?rows ?slots (acc @ [rec_chain_id v]) = (rows', slots', victims)" using Cons.prems(3) False by simp
    have all: "covers vs ?rows ?slots \<longleftrightarrow> covers (v # vs) rows slots" by (rule covers_Cons [OF sizes])
    show ?thesis
    proof (intro conjI impI)
      show "no_deficit rows' slots' \<longleftrightarrow> covers (v # vs) rows slots" using IH [OF run] all by simp
      assume "covers (v # vs) rows slots"
      then obtain k where k: "k \<le> length vs" "victims = (acc @ [rec_chain_id v]) @ map rec_chain_id (take k vs)" "covers (take k vs) ?rows ?slots"
        "\<forall>j < k. \<not> covers (take j vs) ?rows ?slots" using IH [OF run] all by blast
      have "\<not> covers (take j (v # vs)) rows slots" if "j < Suc k" for j
        using that first k(4) cov by (cases j) auto
      then show "\<exists>k \<le> length (v # vs). victims = acc @ map rec_chain_id (take k (v # vs)) \<and> covers (take k (v # vs)) rows slots
          \<and> (\<forall>j < k. \<not> covers (take j (v # vs)) rows slots)"
        using k cov by (intro exI [of _ "Suc k"]) auto
    qed
  qed
qed

lemma covers_clamp:
  assumes "\<forall>v \<in> set vs. sizes_ok v"
  shows "covers vs (max 0 rows) (map (max 0) slots) \<longleftrightarrow> covers vs rows slots"
  using freed_nonneg [OF assms] by (auto simp: covers_def)

text \<open>Every chain record has sizes that are not negative.\<close>

definition sizes_known :: "chain_index \<Rightarrow> bool" where
  "sizes_known s \<longleftrightarrow> list_all (\<lambda>kv. sizes_ok (snd kv)) (chain_records s)"

text \<open>The chains that an admission of \<open>c\<close> may evict, in the order in which it does.\<close>

definition lru_candidates :: "string \<Rightarrow> chain_index \<Rightarrow> chain_record list" where
  "lru_candidates c s = filter (\<lambda>r. rec_chain_id r \<noteq> c) (idle_resident_lru s)"

lemma candidates_sizes: "sizes_known s \<Longrightarrow> v \<in> set (lru_candidates c s) \<Longrightarrow> sizes_ok v"
  by (auto simp: sizes_known_def lru_candidates_def idle_resident_lru_def list_all_iff)

lemma take_sizes: "sizes_known s \<Longrightarrow> \<forall>v \<in> set (take k (lru_candidates c s)). sizes_ok v"
  by (auto dest: in_set_takeD candidates_sizes)

lemma select_victims_run:
  assumes "sizes_known s"
  shows "if covers (lru_candidates c s) deficit required
    then \<exists>k \<le> length (lru_candidates c s). select_victims c required deficit s = (Inr (map rec_chain_id (take k (lru_candidates c s))), s)
      \<and> covers (take k (lru_candidates c s)) deficit required \<and> (\<forall>j < k. \<not> covers (take j (lru_candidates c s)) deficit required)
    else select_victims c required deficit s
      = (Inl (ChainCacheError ChainCapacity ''No capacity is available for the chain request after evicting all IDLE chains''), s)"
proof -
  let ?L = "lru_candidates c s" and ?rows = "max 0 deficit" and ?slots = "map (max 0) required"
  have nonneg: "\<forall>x \<in> set ?slots. 0 \<le> x" by auto
  have clamp: "covers (take j ?L) ?rows ?slots \<longleftrightarrow> covers (take j ?L) deficit required" for j
    by (rule covers_clamp [OF take_sizes [OF assms]])
  have clamp_all: "covers ?L ?rows ?slots \<longleftrightarrow> covers ?L deficit required" using clamp [of "length ?L"] by simp
  show ?thesis
  proof (cases "no_deficit ?rows ?slots")
    case True
    then have zero: "covers (take 0 ?L) deficit required" using covers_Nil [OF nonneg] clamp [of 0] by simp
    then have "covers ?L deficit required"
      using covers_more candidates_sizes [OF assms] by (metis take0)
    moreover have "select_victims c required deficit s = (Inr (map rec_chain_id (take 0 ?L)), s)"
      using True by (simp add: select_victims_def obind_def Let_def)
    ultimately show ?thesis using zero by auto
  next
    case False
    obtain rows' slots' victims where loop: "victim_loop ?L ?rows ?slots [] = (rows', slots', victims)" by (metis prod_cases3)
    have sizes: "\<forall>v \<in> set ?L. sizes_ok v" using candidates_sizes [OF assms] by blast
    note short = victim_loop_shortest [OF sizes nonneg loop, unfolded clamp clamp_all]
    have run: "select_victims c required deficit s = (if no_deficit rows' slots' then ret victims
        else raise_error (ChainCacheError ChainCapacity ''No capacity is available for the chain request after evicting all IDLE chains'')) s"
      using False loop by (simp add: select_victims_def obind_def Let_def lru_candidates_def)
    show ?thesis using short run by auto
  qed
qed

lemma check_resume_run:
  assumes "check_resume sha256 input fp q r s = (Inr u, t)"
  shows "t = s \<and> rec_state r = Idle \<and> rec_fingerprint r = fp \<and> rec_seq_id r = q
    \<and> input_digest sha256 input (processed_token_count r) = Inr (processed_token_digest r)"
  using assms unfolding check_resume_def check_input_prefix_def
  by (cases "rec_state r"; cases "input_digest sha256 input (processed_token_count r)")
     (auto simp: oseq_def obind_def split: if_splits py_error.splits chain_error.splits)

lemma check_resume_ok:
  "rec_state r = Idle \<Longrightarrow> rec_fingerprint r = fp \<Longrightarrow> rec_seq_id r = q
    \<Longrightarrow> input_digest sha256 input (processed_token_count r) = Inr (processed_token_digest r) \<Longrightarrow> check_resume sha256 input fp q r s = (Inr (), s)"
  by (simp add: check_resume_def check_input_prefix_def oseq_def obind_def)

text \<open>A plan that is made: its parts, and that planning has changed nothing.\<close>

lemma plan_made:
  assumes "plan_chain_admission sha256 c q input fp required deficit reserved rows s = (Inr p, t)"
  obtains "t = s" "plan_chain_id p = c" "plan_seq_id p = q" "plan_input_token_count p = input_count input"
    "select_victims c required deficit s = (Inr (victim_chain_ids p), s)"
    "map_of (chain_records s) c = None \<and> plan_status p = ''created'' \<and> plan_reused_tokens p = 0 \<and> map_of (tombstones s) c = None
     \<or> (\<exists>r. map_of (chain_records s) c = Some r \<and> plan_status p = ''resumed'' \<and> plan_reused_tokens p = processed_token_count r
          \<and> check_resume sha256 input fp q r s = (Inr (), s))"
proof -
  have sel: "snd (select_victims c required deficit s) = s" for s
    by (simp add: select_victims_def obind_def Let_def split: prod.splits)
  show ?thesis
  proof (cases "map_of (chain_records s) c")
    case None
    then show ?thesis
      using assms that sel [of s]
      by (auto simp: plan_chain_admission_def obind_def oseq_def run_lookup split: if_splits prod.splits sum.splits)
  next
    case (Some r)
    then obtain u where u: "check_resume sha256 input fp q r s = (Inr (), u)"
      using assms by (auto simp: plan_chain_admission_def obind_def oseq_def split: prod.splits sum.splits)
    then have us: "u = s" using check_resume_run by blast
    show ?thesis
      using assms that sel [of s] Some u unfolding us
      by (auto simp: plan_chain_admission_def obind_def oseq_def split: prod.splits sum.splits)
  qed
qed

text \<open>Only the search for victims reports that there is no capacity.\<close>

lemma plan_full:
  assumes "plan_chain_admission sha256 c q input fp required deficit reserved rows s = (Inl (ChainCacheError ChainCapacity m), t)"
  shows "t = s \<and> fst (select_victims c required deficit s) = Inl (ChainCacheError ChainCapacity m)"
proof -
  have sel: "snd (select_victims c required deficit s) = s" for s
    by (simp add: select_victims_def obind_def Let_def split: prod.splits)
  have other: "fst (check_resume sha256 input fp q r s) \<noteq> Inl (ChainCacheError ChainCapacity m)" for r
    unfolding check_resume_def check_input_prefix_def input_digest_def stable_token_digest_def
    by (auto simp: oseq_def obind_def Let_def split: if_splits chain_input.splits option.splits)
  show ?thesis
  proof (cases "map_of (chain_records s) c")
    case None
    then show ?thesis
      using assms sel [of s] by (auto simp: plan_chain_admission_def obind_def oseq_def run_lookup split: if_splits prod.splits sum.splits)
  next
    case (Some r)
    obtain y u where u: "check_resume sha256 input fp q r s = (y, u)" by fastforce
    with assms Some other [of r] have y: "y = Inr ()"
      by (cases y) (auto simp: plan_chain_admission_def obind_def oseq_def)
    then have "u = s" using check_resume_run u by blast
    then show ?thesis
      using assms Some u y sel [of s] by (auto simp: plan_chain_admission_def obind_def oseq_def split: prod.splits sum.splits)
  qed
qed

section \<open>Admission\<close>

lemma candidates_spec:
  assumes "chain_ok s"
  shows "set (lru_candidates c s) = {r. map_of (chain_records s) (rec_chain_id r) = Some r \<and> rec_state r = Idle \<and> 0 < resident_rows r \<and> rec_chain_id r \<noteq> c}"
    "distinct (map rec_chain_id (lru_candidates c s))" "sorted (map rec_last_access (lru_candidates c s))"
proof -
  have keyed: "dict_ok (chain_records s)" "\<And>k r. (k, r) \<in> set (chain_records s) \<Longrightarrow> rec_chain_id r = k"
    using assms by (auto simp: chain_ok_def records_keyed_def)
  have mem: "r \<in> set (map snd (chain_records s)) \<longleftrightarrow> map_of (chain_records s) (rec_chain_id r) = Some r" for r
  proof
    assume "r \<in> set (map snd (chain_records s))"
    then obtain k where "(k, r) \<in> set (chain_records s)" by auto
    with keyed show "map_of (chain_records s) (rec_chain_id r) = Some r" by force
  next
    assume "map_of (chain_records s) (rec_chain_id r) = Some r"
    then show "r \<in> set (map snd (chain_records s))" by (force dest: map_of_SomeD)
  qed
  show "set (lru_candidates c s) = {r. map_of (chain_records s) (rec_chain_id r) = Some r \<and> rec_state r = Idle \<and> 0 < resident_rows r \<and> rec_chain_id r \<noteq> c}"
    by (auto simp: lru_candidates_def idle_resident_lru_def mem simp del: set_map)
  have "map rec_chain_id (map snd (chain_records s)) = map fst (chain_records s)" using keyed(2) by auto
  then have "distinct (map rec_chain_id (map snd (chain_records s)))" using keyed(1) by (simp only:)
  then have inj: "inj_on rec_chain_id (set (map snd (chain_records s)))" and dist: "distinct (map snd (chain_records s))"
    by (simp_all only: distinct_map)
  have "distinct (lru_candidates c s)" "set (lru_candidates c s) \<subseteq> set (map snd (chain_records s))"
    using dist by (auto simp: lru_candidates_def idle_resident_lru_def)
  then show "distinct (map rec_chain_id (lru_candidates c s))" using inj by (auto simp: distinct_map intro: inj_on_subset)
  have "sorted (map (\<lambda>r. (rec_last_access r, rec_chain_id r)) (lru_candidates c s))"
    unfolding lru_candidates_def idle_resident_lru_def by (intro sorted_filter) simp
  then show "sorted (map rec_last_access (lru_candidates c s))"
    by (simp add: sorted_iff_nth_mono less_eq_prod_simp) (metis order.strict_implies_order order_refl)
qed

lemma evict_all:
  assumes "chain_ok s" "distinct vs" "\<forall>v \<in> set vs. \<exists>r. map_of (chain_records s) v = Some r \<and> rec_state r = Idle"
  shows "\<exists>t. ofor vs (\<lambda>c. oseq (evict_chain c) (ret ())) s = (Inr (), t) \<and> chain_ok t \<and> map_of (chain_records t) = map_of (chain_records s) |` (- set vs)"
  using assms
proof (induction vs arbitrary: s)
  case Nil
  then show ?case by (simp add: restrict_map_def fun_eq_iff)
next
  case (Cons v vs)
  obtain r where r: "map_of (chain_records s) v = Some r" "rec_state r = Idle" using Cons.prems(3) by auto
  let ?u = "removed ''chain_cache_evicted'' v r s"
  have step: "oseq (evict_chain v) (ret ()) s = (Inr (), ?u)" using r by (simp add: oseq_def obind_def run_evict)
  have recs: "map_of (chain_records ?u) = (map_of (chain_records s))(v := None)" by (simp add: removed_fields delete_conv')
  have "\<forall>v' \<in> set vs. \<exists>r. map_of (chain_records ?u) v' = Some r \<and> rec_state r = Idle"
    using Cons.prems(2,3) unfolding recs by auto
  moreover have "chain_ok ?u" "distinct vs" using removed_ok [OF Cons.prems(1) r(1)] Cons.prems(2) by simp_all
  ultimately obtain t where t: "ofor vs (\<lambda>c. oseq (evict_chain c) (ret ())) ?u = (Inr (), t)" "chain_ok t"
    "map_of (chain_records t) = map_of (chain_records ?u) |` (- set vs)" using Cons.IH [of ?u] by blast
  have "map_of (chain_records t) = map_of (chain_records s) |` (- set (v # vs))"
    unfolding t(3) recs by (auto simp: restrict_map_def fun_eq_iff)
  moreover have "ofor (v # vs) (\<lambda>c. oseq (evict_chain c) (ret ())) s = (Inr (), t)"
    unfolding ofor.simps oseq_Inr [where m = "oseq (evict_chain v) (ret ())" and s = s, OF step] by (rule t(1))
  ultimately show ?case using t(2) by blast
qed

lemma victims_idle:
  assumes "chain_ok s" "sizes_known s" "select_victims c required deficit s = (Inr vs, s)"
  shows "distinct vs" "c \<notin> set vs" "\<forall>v \<in> set vs. \<exists>r. map_of (chain_records s) v = Some r \<and> rec_state r = Idle"
proof -
  obtain k where vs: "vs = map rec_chain_id (take k (lru_candidates c s))"
    using select_victims_run [OF assms(2), of c deficit required] assms(3) by (auto split: if_splits)
  have sub: "set (take k (lru_candidates c s)) \<subseteq> set (lru_candidates c s)" by (rule set_take_subset)
  show "distinct vs" unfolding vs using candidates_spec(2) [OF assms(1)] by (simp add: take_map [symmetric])
  show "c \<notin> set vs" "\<forall>v \<in> set vs. \<exists>r. map_of (chain_records s) v = Some r \<and> rec_state r = Idle"
    using sub candidates_spec(1) [OF assms(1), of c] unfolding vs by auto
qed


lemma apply_planned:
  assumes "chain_ok s" "sizes_known s"
    "plan_chain_admission sha256 c q input fp required deficit reserved rows s = (Inr p, u)"
    "map_of (chain_records s) c = None \<Longrightarrow> map_of (seq_id_to_chain_id s) q = None"
  obtains t r where "apply_chain_admission p fp s = (Inr c, t)" "chain_ok t" "map_of (chain_records t) c = Some r" "rec_state r = Active"
    "rec_seq_id r = q" "rec_fingerprint r = fp" "processed_token_count r = plan_reused_tokens p"
    "\<And>c'. c' \<noteq> c \<Longrightarrow> map_of (chain_records t) c' = (if c' \<in> set (victim_chain_ids p) then None else map_of (chain_records s) c')"
proof -
  note made = plan_made [OF assms(3)]
  have vs: "select_victims c required deficit s = (Inr (victim_chain_ids p), s)" and cid: "plan_chain_id p = c" "plan_seq_id p = q"
    using made by blast+
  obtain w where w: "ofor (victim_chain_ids p) (\<lambda>c. oseq (evict_chain c) (ret ())) s = (Inr (), w)" "chain_ok w"
    "map_of (chain_records w) = map_of (chain_records s) |` (- set (victim_chain_ids p))"
    using evict_all [OF assms(1) victims_idle(1,3) [OF assms(1,2) vs]] by blast
  have run: "apply_chain_admission p fp s = (if plan_status p = ''created'' then create_chain p fp else resume_chain p) w"
    unfolding apply_chain_admission_def oseq_Inr [where m = "ofor (victim_chain_ids p) (\<lambda>c. oseq (evict_chain c) (ret ()))" and s = s, OF w(1)] by simp
  have cw: "map_of (chain_records w) c = map_of (chain_records s) c" using victims_idle(2) [OF assms(1,2) vs] w(3) by simp
  show thesis
  proof (cases "map_of (chain_records s) c")
    case None
    then have st: "plan_status p = ''created''" "plan_reused_tokens p = 0" using made by auto
    have "map_of (seq_id_to_chain_id w) q = None"
    proof (rule ccontr)
      assume "map_of (seq_id_to_chain_id w) q \<noteq> None"
      then obtain c' where "map_of (seq_id_to_chain_id w) q = Some c'" by auto
      then obtain r where r: "map_of (chain_records w) c' = Some r" "rec_seq_id r = q"
        using w(2) unfolding chain_ok_def owners_exact_def by blast
      then have "map_of (chain_records s) c' = Some r" using w(3) by (simp add: restrict_map_def split: if_splits)
      then have "map_of (seq_id_to_chain_id s) q = Some c'" using assms(1) r(2) unfolding chain_ok_def owners_exact_def by blast
      then show False using assms(4) None by simp
    qed
    moreover have absent: "map_of (chain_records w) (plan_chain_id p) = None" using cw None cid by simp
    ultimately have made': "create_chain p fp w = (Inr c, created p fp w)" "chain_ok (created p fp w)"
      using run_create [OF w(2)] created_ok [OF w(2)] cid by simp_all
    show thesis
      by (rule that [of "created p fp w" "reserve_plan p (new_record p fp (chain_clock w + 1))"])
         (use run st made' cid w(3) in \<open>auto simp: created_fields update_conv' reserve_plan_def new_record_def restrict_map_def\<close>)
  next
    case (Some r)
    then have st: "plan_status p = ''resumed''" "plan_reused_tokens p = processed_token_count r" "check_resume sha256 input fp q r s = (Inr (), s)"
      using made by auto
    note checked = check_resume_run [OF st(3)]
    have r: "map_of (chain_records w) (plan_chain_id p) = Some r" using cw Some cid by simp
    have made': "resume_chain p w = (Inr c, resumed p w)" "chain_ok (resumed p w)"
      using run_resume [OF r] resumed_ok [OF w(2) r] checked cid by simp_all
    show thesis
      by (rule that [of "resumed p w" "resumed_as p (chain_clock w + 1) r"])
         (use run st made' cid w(3) r checked in \<open>auto simp: resumed_def altered_def resumed_as_def reserve_plan_def restrict_map_def\<close>)
  qed
qed


lemma evictions_keep:
  "chain_ok s \<Longrightarrow> ofor vs (\<lambda>c. oseq (evict_chain c) (ret ())) s = (x, t) \<Longrightarrow> chain_ok t"
  by (erule keepsE [rotated], assumption, intro keeps_ofor keeps_oseq keeps_evict keeps_ret)

lemma apply_active:
  assumes "chain_ok s" "apply_chain_admission p fp s = (Inr c, t)"
  shows "\<exists>r. map_of (chain_records t) c = Some r \<and> rec_state r = Active"
proof -
  obtain w where w: "ofor (victim_chain_ids p) (\<lambda>c. oseq (evict_chain c) (ret ())) s = (Inr (), w)"
    "(if plan_status p = ''created'' then create_chain p fp else resume_chain p) w = (Inr c, t)"
    using assms(2) unfolding apply_chain_admission_def oseq_def [of "ofor _ _"] obind_def [of "ofor _ _"]
    by (auto split: prod.splits sum.splits)
  have ok: "chain_ok w" by (rule evictions_keep [OF assms(1) w(1)])
  show ?thesis
  proof (cases "plan_status p = ''created''")
    case True
    then have run: "create_chain p fp w = (Inr c, t)" using w(2) by simp
    then have "map_of (chain_records w) (plan_chain_id p) = None" "map_of (seq_id_to_chain_id w) (plan_seq_id p) = None"
      by (auto simp: create_chain_def Let_def oseq_def obind_def split: if_splits)
    with run run_create [OF ok] show ?thesis by (auto simp: created_fields update_conv' reserve_plan_def new_record_def)
  next
    case False
    then have run: "resume_chain p w = (Inr c, t)" using w(2) by simp
    show ?thesis
    proof (cases rule: lookup_cases [where s = w and c = "plan_chain_id p"])
      case (found r)
      then show ?thesis using run run_resume [OF found(1)]
        by (auto simp: resumed_def altered_def resumed_as_def reserve_plan_def split: if_splits)
    next
      case (absent err)
      then show ?thesis using run by (simp add: resume_chain_def Let_def obind_def)
    qed
  qed
qed

text \<open>
  One writer: once a chain has been admitted, it can neither be admitted again nor be evicted, whatever the request presents,
  until its turn has finished or it is invalidated; a refused attempt changes only a counter.
\<close>

theorem admitted_chain_has_one_writer:
  assumes "chain_ok s" "apply_chain_admission p fp s = (Inr c, t)"
  shows "plan_chain_admission sha256 c q input fp' required deficit reserved rows t
      = (Inl (ChainCacheError ChainBusy ''Chain already has an active writer.''), bumped ''chain_cache_busy'' t)
    \<and> evict_chain c t = (Inl (ChainCacheError ChainBusy ''Cannot evict ACTIVE chain''), t)"
proof -
  obtain r where r: "map_of (chain_records t) c = Some r" "rec_state r = Active" using apply_active [OF assms] by blast
  have "check_resume sha256 input fp' q r t = (Inl (ChainCacheError ChainBusy ''Chain already has an active writer.''), bumped ''chain_cache_busy'' t)"
    using r(2) by (simp add: check_resume_def oseq_def obind_def)
  then show ?thesis using r by (simp add: plan_chain_admission_def obind_def oseq_def run_evict)
qed

section \<open>Resuming\<close>

lemma run_prepare: "prepare_token_history r ts n s = (if n < 0 then (Inl (ValueError ''processed_token_count must be >= 0''), s)
    else if \<not> list_all fits_I ts then (Inl (ChainCacheError ChainOwnerMismatch ''Chain token IDs must fit unsigned 32-bit storage.''), s)
    else if int (length ts) < n then (Inl (ChainCacheError ChainOwnerMismatch ''Finished token sequence is shorter than the processed boundary''), s)
    else if history_fits s r (int (length ts)) then (Inr (map word_of_int ts), s)
    else (Inl (ChainCacheError ChainCapacity ''Chain logical token history exceeds its configured resident capacity''), s))"
  by (simp add: prepare_token_history_def oseq_def obind_def run_check_history)

lemma fits_I_q: "list_all fits_I ts \<Longrightarrow> list_all fits_q ts"
  by (auto simp: list_all_iff fits_I_def fits_q_def)

lemma digest_prefix:
  "list_all fits_q (take (nat n) ts) \<Longrightarrow> 0 \<le> n \<Longrightarrow> n \<le> int (length ts)
    \<Longrightarrow> stable_token_digest sha256 ts (Some n) = Inr (sha256 (concat (map (le_bytes 8) (take (nat n) ts))))"
  by (simp add: stable_token_digest_def Let_def)

lemma digest_made:
  "stable_token_digest sha256 ts (Some n) = Inr d \<Longrightarrow> list_all fits_q (take (nat n) ts) \<and> 0 \<le> n \<and> n \<le> int (length ts)
    \<and> d = sha256 (concat (map (le_bytes 8) (take (nat n) ts)))"
  by (auto simp: stable_token_digest_def Let_def split: if_splits)

text \<open>The digest of the boundary and the history that a turn leaves behind.\<close>

definition turn_digest :: "(bytes \<Rightarrow> bytes) \<Rightarrow> int list \<Rightarrow> int \<Rightarrow> bytes" where
  "turn_digest sha256 ts n = sha256 (concat (map (le_bytes 8) (take (nat n) ts)))"

lemma finish_run:
  assumes "map_of (chain_records s) c = Some r"
  shows "finish_chain sha256 c ts n slots rows s =
    (if n < 0 then (Inl (ValueError ''processed_token_count must be >= 0''), s)
     else if \<not> list_all fits_I ts then (Inl (ChainCacheError ChainOwnerMismatch ''Chain token IDs must fit unsigned 32-bit storage.''), s)
     else if int (length ts) < n then (Inl (ChainCacheError ChainOwnerMismatch ''Finished token sequence is shorter than the processed boundary''), s)
     else if \<not> history_fits s r (int (length ts))
     then (Inl (ChainCacheError ChainCapacity ''Chain logical token history exceeds its configured resident capacity''), s)
     else if rec_state r \<noteq> Active then (Inl (ChainCacheError ChainOwnerMismatch ''Cannot finish non-ACTIVE chain''), s)
     else if n < processed_token_count r then (Inl (ChainCacheError ChainOwnerMismatch ''Chain processed boundary moved backwards''), s)
     else if length (turn_digest sha256 ts n) \<noteq> 32 then (Inl (ValueError ''processed_token_digest must be a SHA-256 digest''), s)
     else (Inr c, stored c (map word_of_int ts) (finished_as (turn_digest sha256 ts n) n slots rows (chain_clock s + 1) r)
             (finished c (turn_digest sha256 ts n) n slots rows s)))"
proof -
  have lk: "chain_lookup c s = (Inr r, s)" using assms by (simp add: run_lookup)
  let ?t = "finished c (turn_digest sha256 ts n) n slots rows s" and ?r = "finished_as (turn_digest sha256 ts n) n slots rows (chain_clock s + 1) r"
  have t: "map_of (chain_records ?t) c = Some ?r" using assms by (simp add: finished_def altered_def)
  have same: "history_fits ?t ?r k = history_fits s r k" for k
    by (simp add: history_fits_def finished_def altered_def finished_as_def)
  have dig: "stable_token_digest sha256 ts (Some n) = Inr (turn_digest sha256 ts n)"
    if "list_all fits_I ts" "0 \<le> n" "n \<le> int (length ts)"
    using digest_prefix [of n ts sha256] fits_I_q [OF that(1)] that by (auto simp: turn_digest_def list_all_iff dest: in_set_takeD)
  show ?thesis
    using dig by (auto simp: finish_chain_def obind_def [of "chain_lookup c"] lk run_prepare obind_def oseq_def run_finish_digest [OF assms] run_store [OF t] same)
qed

lemma finished_record:
  assumes "finish_chain sha256 c ts n slots rows s = (Inr c', t)"
  shows "0 \<le> n \<and> n \<le> int (length ts) \<and> list_all fits_q ts \<and> (\<exists>r. map_of (chain_records t) c = Some r \<and> rec_state r = Idle
    \<and> processed_token_count r = n \<and> processed_token_digest r = turn_digest sha256 ts n)"
proof (cases rule: lookup_cases [where s = s and c = c])
  case (found r)
  then show ?thesis
    using assms finish_run [OF found(1), of sha256 ts n slots rows] fits_I_q
    by (auto simp: stored_def finished_def altered_def finished_as_def split: if_splits)
next
  case (absent err)
  then show ?thesis using assms by (simp add: finish_chain_def obind_def)
qed

text \<open>
  C8. Resuming is sound: when a chain whose turn has finished with the tokens \<open>ts\<close>, processed up to \<open>n\<close>, is admitted again for a
  request with the tokens \<open>us\<close>, then the \<open>n\<close> tokens whose KV is reused are the first \<open>n\<close> tokens of the request,
  provided that SHA-256 does not collide on the two prefixes.
\<close>

theorem resumed_prefix_is_processed_prefix:
  assumes "finish_chain sha256 c ts n slots rows s = (Inr c', t)" "map_of (chain_records u) c = map_of (chain_records t) c"
    "plan_chain_admission sha256 c q (TokenIds us) fp required deficit reserved rows' u = (Inr p, v)"
    "inj_on sha256 {concat (map (le_bytes 8) (take (nat n) ts)), concat (map (le_bytes 8) (take (nat n) us))}"
  shows "plan_status p = ''resumed'' \<and> plan_reused_tokens p = n \<and> n \<le> int (length us) \<and> take (nat n) us = take (nat n) ts"
proof -
  obtain r where r: "0 \<le> n" "n \<le> int (length ts)" "list_all fits_q ts" "map_of (chain_records u) c = Some r"
    "processed_token_count r = n" "processed_token_digest r = turn_digest sha256 ts n"
    using finished_record [OF assms(1)] assms(2) by auto
  then have p: "plan_status p = ''resumed''" "plan_reused_tokens p = n" "check_resume sha256 (TokenIds us) fp q r u = (Inr (), u)"
    using plan_made [OF assms(3)] by auto
  from check_resume_run [OF p(3)] r(5,6)
  have dig: "stable_token_digest sha256 us (Some n) = Inr (turn_digest sha256 ts n)" by (simp add: input_digest_def)
  note us = digest_made [OF dig]
  then have eq: "concat (map (le_bytes 8) (take (nat n) us)) = concat (map (le_bytes 8) (take (nat n) ts))"
    using inj_onD [OF assms(4), of "concat (map (le_bytes 8) (take (nat n) us))" "concat (map (le_bytes 8) (take (nat n) ts))"]
    by (simp only: turn_digest_def insert_iff simp_thms)
  have fits: "list_all fits_q (take (nat n) ts)" using r(3) by (auto simp: list_all_iff dest: in_set_takeD)
  have fits': "list_all fits_q (take (nat n) us)" and "nat n \<le> length us" "nat n \<le> length ts" using us r(1,2) by (simp_all add: nat_le_iff)
  then have len: "length (take (nat n) us) = length (take (nat n) ts)" by simp
  from concat_le_bytes_inj [OF fits' fits len eq] show ?thesis using p(1,2) us by simp
qed

text \<open>
  C35. Ranks agree: the plan that a rank makes from the length of the input and the digest of the prefix that the driver reuses is the
  driver's plan, whenever both hold the same chains.
\<close>

theorem ranks_plan_alike:
  assumes "plan_chain_admission sha256 c q (TokenIds us) fp required deficit reserved rows s = (Inr p, t)"
    "stable_token_digest sha256 us (Some (plan_reused_tokens p)) = Inr d"
  shows "plan_chain_admission sha256 c q (PrefixDigest (int (length us)) d) fp required deficit reserved rows s = (Inr p, t)"
proof -
  have counts: "input_count (PrefixDigest (int (length us)) d) = input_count (TokenIds us)" by (simp add: input_count_def)
  show ?thesis
  proof (cases "map_of (chain_records s) c")
    case None
    then show ?thesis using assms(1) by (simp add: plan_chain_admission_def obind_def counts)
  next
    case (Some r)
    then have p: "plan_reused_tokens p = processed_token_count r" "check_resume sha256 (TokenIds us) fp q r s = (Inr (), s)"
      using plan_made [OF assms(1)] by auto
    note checked = check_resume_run [OF p(2)]
    have "processed_token_count r \<le> int (length us)" using digest_made [OF assms(2)] p(1) by simp
    then have "input_digest sha256 (PrefixDigest (int (length us)) d) (processed_token_count r) = Inr (processed_token_digest r)"
      using assms(2) p(1) checked by (auto simp: input_digest_def)
    then have "check_resume sha256 (PrefixDigest (int (length us)) d) fp q r s = (Inr (), s)" using checked by (intro check_resume_ok) auto
    then show ?thesis using assms(1) Some p(2) by (simp add: plan_chain_admission_def obind_def oseq_def counts)
  qed
qed

section \<open>Every reachable index\<close>


lemma fresh_match:
  assumes "records_keyed s"
  shows "snapshot_chain_match (fresh_snapshot s) c = routing_match s c"
proof -
  have some: "map_of (chain_records s) k = Some r \<longleftrightarrow> (k, r) \<in> set (chain_records s)" for k r
    using assms by (simp add: records_keyed_def map_of_eq_Some_iff)
  have mem: "c \<in> set (map rec_chain_id (filter (\<lambda>r. rec_state r = st) (map snd (chain_records s))))
      \<longleftrightarrow> (\<exists>r. map_of (chain_records s) c = Some r \<and> rec_state r = st)" for st
    using assms unfolding records_keyed_def some by force
  have tomb: "c \<in> set (map fst (tombstones s)) \<longleftrightarrow> map_of (tombstones s) c \<noteq> None" by (simp add: map_of_eq_None_iff)
  have "(\<exists>r. map_of (chain_records s) c = Some r \<and> rec_state r = st) \<longleftrightarrow> (case map_of (chain_records s) c of None \<Rightarrow> False | Some r \<Rightarrow> rec_state r = st)" for st
    by (auto split: option.splits)
  then show ?thesis
    unfolding snapshot_chain_match_def fresh_snapshot_def routing_match_def chain_snapshot.simps mem tomb
    by (auto split: option.splits) (metis chain_state.exhaust)+
qed

text \<open>
  Routing: the snapshot that a router gets, cached or not, answers every chain id as the index itself does at that moment.
\<close>

theorem routing_snapshot_is_current:
  assumes "chain_reach sha256 s"
  shows "\<exists>sn t. routing_snapshot s = (Inr sn, t) \<and> snapshot_chain_match sn c = routing_match s c \<and> chain_records t = chain_records s"
proof -
  have ok: "records_keyed s" "snapshot_fresh s" using reach_ok [OF assms] by (simp_all add: chain_ok_def)
  show ?thesis
    using fresh_match [OF ok(1)] ok(2)
    by (auto simp: routing_snapshot_def obind_def oseq_def snapshot_fresh_def split: option.splits)
qed

section \<open>A run\<close>

text \<open>Two chains: the first has finished its turn and holds two rows' worth of slots, the second is active.\<close>

definition toy_hash :: "bytes \<Rightarrow> bytes" where
  "toy_hash b = take 32 (b @ replicate 32 0)"

definition sample_plan :: "string \<Rightarrow> nat \<Rightarrow> chain_plan" where
  "sample_plan c q = \<lparr>plan_chain_id = c, plan_seq_id = q, plan_status = ''created'', plan_reused_tokens = 0, plan_input_token_count = 3,
     victim_chain_ids = [], plan_reserved_slots = [3], plan_reserved_rows = 1, demote_chain_ids = [], plan_decode_reserved_slots = []\<rparr>"

definition sample_start :: chain_index where
  "sample_start = (case init_chain_index 4 (Some 100) of Inr s \<Rightarrow> s | Inl _ \<Rightarrow> undefined)"

definition sample_admitted :: chain_index where
  "sample_admitted = snd (apply_chain_admission (sample_plan ''a'' 1) [7] sample_start)"

definition sample_idle :: chain_index where
  "sample_idle = snd (finish_chain toy_hash ''a'' [5, 6, 9] 2 [2] 1 sample_admitted)"

definition sample_chains :: chain_index where
  "sample_chains = snd (apply_chain_admission (sample_plan ''b'' 2) [7] sample_idle)"

lemma sample_reach:
  "chain_reach toy_hash sample_start" "chain_reach toy_hash sample_admitted" "chain_reach toy_hash sample_idle" "chain_reach toy_hash sample_chains"
proof -
  have "init_chain_index 4 (Some 100) = Inr sample_start" by (simp add: sample_start_def init_chain_index_def)
  then show start: "chain_reach toy_hash sample_start" by (rule chain_reach.init)
  show admitted: "chain_reach toy_hash sample_admitted" unfolding sample_admitted_def by (rule chain_reach.admit [OF start prod.collapse [symmetric]])
  show idle: "chain_reach toy_hash sample_idle" unfolding sample_idle_def by (rule chain_reach.finish [OF admitted prod.collapse [symmetric]])
  show "chain_reach toy_hash sample_chains" unfolding sample_chains_def by (rule chain_reach.admit [OF idle prod.collapse [symmetric]])
qed

definition evicting_plan :: chain_plan where
  "evicting_plan = (sample_plan ''c'' 3)\<lparr>plan_input_token_count := 1, victim_chain_ids := [''a''], plan_reserved_slots := [1]\<rparr>"

definition resuming_plan :: chain_plan where
  "resuming_plan = (sample_plan ''a'' 1)\<lparr>plan_status := ''resumed'', plan_reused_tokens := 2, plan_reserved_slots := [4], plan_reserved_rows := 0\<rparr>"

lemma sample_values:
  "fst (finish_chain toy_hash ''a'' [5, 6, 9] 2 [2] 1 sample_admitted) = Inr ''a''"
  "fst (apply_chain_admission (sample_plan ''b'' 2) [7] sample_idle) = Inr ''b''"
  "sizes_known sample_chains" "map rec_chain_id (lru_candidates ''c'' sample_chains) = [''a'']"
  "fst (plan_chain_admission toy_hash ''c'' 3 (TokenIds [1]) [7] [1] 1 [1] 1 sample_chains)
    = Inr evicting_plan"
  "fst (plan_chain_admission toy_hash ''a'' 1 (TokenIds [5, 6, 8]) [7] [] 0 [4] 0 sample_idle)
    = Inr resuming_plan"
  by code_simp+

lemma plan_fields: "victim_chain_ids evicting_plan = [''a'']" "plan_reused_tokens resuming_plan = 2"
  by (simp_all add: evicting_plan_def resuming_plan_def)


theorem routing_snapshot_is_current_witness:
  "\<exists>sn t. routing_snapshot sample_chains = (Inr sn, t) \<and> snapshot_chain_match sn ''b'' = (Some Active, False)"
proof -
  have "routing_match sample_chains ''b'' = (Some Active, False)" by code_simp
  then show ?thesis using routing_snapshot_is_current [OF sample_reach(4), of "''b''"] by auto
qed



theorem admitted_chain_has_one_writer_witness:
  "fst (plan_chain_admission toy_hash ''b'' 2 (TokenIds [5]) [7] [] 0 [] 0 sample_chains)
     = Inl (ChainCacheError ChainBusy ''Chain already has an active writer.'')"
proof -
  have "apply_chain_admission (sample_plan ''b'' 2) [7] sample_idle = (Inr ''b'', sample_chains)"
    unfolding sample_chains_def using sample_values(2) by (metis prod.collapse)
  from admitted_chain_has_one_writer [OF reach_ok [OF sample_reach(3)] this] show ?thesis by simp
qed

theorem resumed_prefix_is_processed_prefix_witness:
  "\<exists>p. plan_chain_admission toy_hash ''a'' 1 (TokenIds [5, 6, 8]) [7] [] 0 [4] 0 sample_idle = (Inr p, sample_idle)
     \<and> plan_reused_tokens p = 2 \<and> take 2 [5, 6, 8 :: int] = take 2 [5, 6, 9]"
proof -
  have fin: "finish_chain toy_hash ''a'' [5, 6, 9] 2 [2] 1 sample_admitted = (Inr ''a'', sample_idle)"
    unfolding sample_idle_def using sample_values(1) by (metis prod.collapse)
  obtain p t where run: "plan_chain_admission toy_hash ''a'' 1 (TokenIds [5, 6, 8]) [7] [] 0 [4] 0 sample_idle = (Inr p, t)"
    using sample_values(6) by (metis prod.collapse)
  have "inj_on toy_hash {concat (map (le_bytes 8) (take (nat 2) [5, 6, 9])), concat (map (le_bytes 8) (take (nat 2) [5, 6, 8]))}" by simp
  from resumed_prefix_is_processed_prefix [OF fin refl run this] have "plan_reused_tokens p = 2" by simp
  moreover have "t = sample_idle" using run by (auto elim: plan_made)
  ultimately show ?thesis using run by simp
qed

theorem ranks_plan_alike_witness:
  "plan_chain_admission toy_hash ''a'' 1 (PrefixDigest 3 (turn_digest toy_hash [5, 6] 2)) [7] [] 0 [4] 0 sample_idle
    = plan_chain_admission toy_hash ''a'' 1 (TokenIds [5, 6, 8]) [7] [] 0 [4] 0 sample_idle"
proof -
  let ?p = resuming_plan
  obtain t where run: "plan_chain_admission toy_hash ''a'' 1 (TokenIds [5, 6, 8]) [7] [] 0 [4] 0 sample_idle = (Inr ?p, t)"
    using sample_values(6) by (metis prod.collapse)
  have "stable_token_digest toy_hash [5, 6, 8] (Some (plan_reused_tokens ?p)) = Inr (turn_digest toy_hash [5, 6] 2)"
    unfolding plan_fields by code_simp
  from ranks_plan_alike [OF run this] run show ?thesis by simp
qed

end
