(* ===== verification/Chain_Offload.thy ===== *)
theory Chain_Offload
  imports Chain_Lifecycle
begin

text \<open>
  Host snapshots of whole chains (\<open>ChainOffloadController\<close> of \<^verbatim>\<open>engine/cache_manager/chain_offload.py\<close>).
  The model keeps the bookkeeping: which requests have a snapshot, its size, whether it is valid or
  its copy is still in flight, and the bytes in use.  What happens on the device (allocation,
  copies, events) is a record of operations on the physical state that may raise.
\<close>

section \<open>State\<close>

record host_snapshot =
  snap_nbytes :: int
  snap_valid :: bool
  snap_in_flight :: bool

record 'p offload_state =
  snapshots :: "(nat, host_snapshot) dict"
  pending_snapshots :: "nat list"
  used_bytes :: int
  d2h_bytes :: int
  h2d_bytes :: int
  kv_payload :: 'p

text \<open>
  The device: waiting for and asking about a copy, the bytes that a snapshot of a request needs, submitting the copies
  to and from the host (a failure synchronises the stream, and a failed restore frees the rows again).
\<close>

record ('p, 't) offload_device =
  capacity_bytes :: int
  stream_capturing :: "('p, bool) op"
  synchronize_copy :: "nat \<Rightarrow> ('p, unit) op"
  copy_complete :: "nat \<Rightarrow> ('p, bool) op"
  bytes_needed :: "nat \<Rightarrow> 't \<Rightarrow> ('p, int) op"
  submit_save :: "nat \<Rightarrow> 't \<Rightarrow> ('p, unit) op"
  resident_on_device :: "nat \<Rightarrow> ('p, bool) op"
  submit_restore :: "nat \<Rightarrow> ('p, unit) op"

definition init_offload :: "('p, 't) offload_device \<Rightarrow> 'p \<Rightarrow> 'p offload_state result" where
  "init_offload d p = (if capacity_bytes d \<le> 0 then Inl (ValueError ''Chain offload requires a positive host byte budget.'')
     else Inr \<lparr>snapshots = [], pending_snapshots = [], used_bytes = 0, d2h_bytes = 0, h2d_bytes = 0, kv_payload = p\<rparr>)"

definition on_device :: "('p, 'a) op \<Rightarrow> ('p offload_state, 'a) op" where
  "on_device f s = (case f (kv_payload s) of (x, p) \<Rightarrow> (x, s\<lparr>kv_payload := p\<rparr>))"

section \<open>Operations\<close>

definition settle_copy :: "nat \<Rightarrow> 'p offload_state \<Rightarrow> 'p offload_state" where
  "settle_copy q s = s\<lparr>pending_snapshots := remove1 q (pending_snapshots s),
     snapshots := alter q (\<lambda>n. n\<lparr>snap_in_flight := False, snap_valid := True\<rparr>) (snapshots s)\<rparr>"

definition wait_snapshot :: "('p, 't) offload_device \<Rightarrow> nat \<Rightarrow> ('p offload_state, host_snapshot) op" where
  "wait_snapshot d q =
     obind (reads (\<lambda>s. map_of (snapshots s) q)) (\<lambda>n. case n of
       None \<Rightarrow> raise_error (KeyError ''seq_id'')
     | Some n \<Rightarrow> if snap_in_flight n
         then oseq (on_device (synchronize_copy d q))
              (oseq (writes (settle_copy q)) (ret (n\<lparr>snap_in_flight := False, snap_valid := True\<rparr>)))
         else ret n)"

text \<open>The loop takes finished copies from the front of the queue; the bound is its length.\<close>

fun poll_loop :: "('p, 't) offload_device \<Rightarrow> nat \<Rightarrow> ('p offload_state, unit) op" where
  "poll_loop d 0 = ret ()"
| "poll_loop d (Suc k) =
     obind (reads pending_snapshots) (\<lambda>qs. case qs of [] \<Rightarrow> ret ()
     | q # _ \<Rightarrow> obind (on_device (copy_complete d q)) (\<lambda>complete.
         if complete then oseq (writes (settle_copy q)) (poll_loop d k) else ret ()))"

definition poll_copies :: "('p, 't) offload_device \<Rightarrow> ('p offload_state, unit) op" where
  "poll_copies d = obind (reads (\<lambda>s. length (pending_snapshots s))) (poll_loop d)"

definition invalidate_snapshot :: "('p, 't) offload_device \<Rightarrow> nat \<Rightarrow> ('p offload_state, unit) op" where
  "invalidate_snapshot d q =
     obind (reads (\<lambda>s. map_of (snapshots s) q \<noteq> None)) (\<lambda>present.
     if present then oseq (wait_snapshot d q) (writes (\<lambda>s. s\<lparr>snapshots := alter q (\<lambda>n. n\<lparr>snap_valid := False\<rparr>) (snapshots s)\<rparr>))
     else ret ())"

definition drop_snapshot :: "('p, 't) offload_device \<Rightarrow> nat \<Rightarrow> ('p offload_state, unit) op" where
  "drop_snapshot d q =
     obind (reads (\<lambda>s. map_of (snapshots s) q \<noteq> None)) (\<lambda>present.
     if present then obind (wait_snapshot d q) (\<lambda>n.
       writes (\<lambda>s. s\<lparr>snapshots := AList.delete q (snapshots s), used_bytes := used_bytes s - snap_nbytes n\<rparr>))
     else ret ())"

definition snapshot_bytes :: "nat \<Rightarrow> 'p offload_state \<Rightarrow> int" where
  "snapshot_bytes q s = (case map_of (snapshots s) q of None \<Rightarrow> 0 | Some n \<Rightarrow> snap_nbytes n)"

definition save_snapshot :: "('p, 't) offload_device \<Rightarrow> nat \<Rightarrow> 't \<Rightarrow> ('p offload_state, unit) op" where
  "save_snapshot d q st =
     obind (on_device (stream_capturing d)) (\<lambda>capturing.
     oseq (raise_if capturing (RuntimeError ''Chain offload is forbidden during graph capture.''))
     (oseq (poll_copies d)
     (obind (on_device (bytes_needed d q st)) (\<lambda>n.
     obind (reads (\<lambda>s. used_bytes s - snapshot_bytes q s + n)) (\<lambda>total_bytes.
     oseq (raise_if (capacity_bytes d < total_bytes) (RuntimeError ''Chain host capacity must be reserved before D2H submission.''))
     (oseq (drop_snapshot d q)
     (oseq (on_device (submit_save d q st))
     (writes (\<lambda>s. s\<lparr>snapshots := AList.update q \<lparr>snap_nbytes = n, snap_valid = False, snap_in_flight = True\<rparr> (snapshots s),
        pending_snapshots := pending_snapshots s @ [q], used_bytes := used_bytes s + n, d2h_bytes := d2h_bytes s + n\<rparr>)))))))))"

definition restore_snapshot :: "('p, 't) offload_device \<Rightarrow> nat \<Rightarrow> ('p offload_state, unit) op" where
  "restore_snapshot d q =
     obind (on_device (stream_capturing d)) (\<lambda>capturing.
     oseq (raise_if capturing (RuntimeError ''Chain restore is forbidden during graph capture.''))
     (obind (wait_snapshot d q) (\<lambda>n.
     oseq (raise_if (\<not> snap_valid n) (RuntimeError ''Cannot restore an invalid chain snapshot.''))
     (obind (on_device (resident_on_device d q)) (\<lambda>resident.
     oseq (raise_if resident (RuntimeError ''Cannot restore over a resident chain.''))
     (oseq (on_device (submit_restore d q))
     (writes (\<lambda>s. s\<lparr>h2d_bytes := h2d_bytes s + snap_nbytes n\<rparr>))))))))"

definition reset_offload :: "('p, 't) offload_device \<Rightarrow> ('p offload_state, unit) op" where
  "reset_offload d =
     obind (reads (\<lambda>s. map fst (snapshots s))) (\<lambda>qs.
     oseq (ofor qs (drop_snapshot d)) (writes (\<lambda>s. s\<lparr>d2h_bytes := 0, h2d_bytes := 0\<rparr>)))"

section \<open>The byte budget\<close>

definition sizes_nonneg :: "('p, 't) offload_device \<Rightarrow> bool" where
  "sizes_nonneg d \<longleftrightarrow> (\<forall>q st p n p'. bytes_needed d q st p = (Inr n, p') \<longrightarrow> 0 \<le> n)"

text \<open>
  One snapshot per request, the bytes in use are the sum of the snapshots and within the budget, the queue holds exactly
  the snapshots whose copy is in flight, and such a snapshot is not valid yet.
\<close>

definition offload_ok :: "('p, 't) offload_device \<Rightarrow> 'p offload_state \<Rightarrow> bool" where
  "offload_ok d s \<longleftrightarrow> dict_ok (snapshots s) \<and> used_bytes s = sum_list (map (\<lambda>kv. snap_nbytes (snd kv)) (snapshots s))
     \<and> used_bytes s \<le> capacity_bytes d \<and> distinct (pending_snapshots s)
     \<and> (\<forall>q n. map_of (snapshots s) q = Some n \<longrightarrow> 0 \<le> snap_nbytes n \<and> (snap_in_flight n \<longrightarrow> \<not> snap_valid n))
     \<and> (\<forall>q. q \<in> set (pending_snapshots s) \<longleftrightarrow> (\<exists>n. map_of (snapshots s) q = Some n \<and> snap_in_flight n))"

lemma init_offload_ok: "init_offload d p = Inr s \<Longrightarrow> offload_ok d s"
  by (auto simp: init_offload_def offload_ok_def split: if_splits)

lemma keeps_on_device [keeps_intro]: "(\<And>s p. P s \<Longrightarrow> P (s\<lparr>kv_payload := p\<rparr>)) \<Longrightarrow> keeps P (on_device f)"
  by (rule keepsI) (simp add: on_device_def split: prod.splits)

lemma offload_ok_device [simp]: "offload_ok d (s\<lparr>kv_payload := p\<rparr>) = offload_ok d s" by (simp add: offload_ok_def)

lemma alter_ok:
  assumes "offload_ok d s" "map_of (snapshots s) q = Some n" "snap_nbytes (f n) = snap_nbytes n" "\<not> snap_in_flight (f n)"
  shows "offload_ok d (s\<lparr>pending_snapshots := remove1 q (pending_snapshots s), snapshots := alter q f (snapshots s)\<rparr>)"
proof -
  have "sum_list (map (\<lambda>kv. snap_nbytes (snd kv)) (alter q f (snapshots s))) = sum_list (map (\<lambda>kv. snap_nbytes (snd kv)) (snapshots s))"
    using assms sum_alter [of "snapshots s" q n snap_nbytes f] by (simp add: offload_ok_def)
  then show ?thesis using assms by (auto simp: offload_ok_def)
qed

lemma settle_ok: "offload_ok d s \<Longrightarrow> map_of (snapshots s) q \<noteq> None \<Longrightarrow> offload_ok d (settle_copy q s)"
  unfolding settle_copy_def by (auto intro!: alter_ok)

text \<open>After waiting for a snapshot it is not in flight.\<close>

lemma wait_ok:
  assumes "offload_ok d s" "wait_snapshot d q s = (x, t)"
  shows "offload_ok d t \<and> (\<forall>n. x = Inr n \<longrightarrow> map_of (snapshots t) q = Some n \<and> \<not> snap_in_flight n \<and> q \<notin> set (pending_snapshots t))
    \<and> map fst (snapshots t) = map fst (snapshots s) \<and> used_bytes t = used_bytes s
    \<and> (\<forall>k. map_option snap_nbytes (map_of (snapshots t) k) = map_option snap_nbytes (map_of (snapshots s) k))"
proof (cases "map_of (snapshots s) q")
  case None
  then show ?thesis using assms by (auto simp: wait_snapshot_def obind_def)
next
  case (Some m)
  show ?thesis
  proof (cases "snap_in_flight m")
    case True
    obtain y p where sync: "synchronize_copy d q (kv_payload s) = (y, p)" by fastforce
    have ok: "offload_ok d (settle_copy q (s\<lparr>kv_payload := p\<rparr>))" using settle_ok [of d "s\<lparr>kv_payload := p\<rparr>" q] assms(1) Some by simp
    have "distinct (pending_snapshots s)" using assms(1) by (simp add: offload_ok_def)
    then show ?thesis
      using assms Some True sync ok
      by (cases y) (auto simp: wait_snapshot_def obind_def oseq_def on_device_def settle_copy_def)
  next
    case False
    then have "q \<notin> set (pending_snapshots s)" using assms(1) Some by (auto simp: offload_ok_def)
    with False show ?thesis using assms Some by (auto simp: wait_snapshot_def obind_def)
  qed
qed

lemma keeps_wait [keeps_intro]: "keeps (offload_ok d) (wait_snapshot d q)"
  by (rule keepsI) (metis wait_ok prod.collapse)

lemma keeps_poll [keeps_intro]: "keeps (offload_ok d) (poll_copies d)"
proof -
  have "offload_ok d (snd (poll_loop d k s))" if "offload_ok d s" for k s
    using that
  proof (induction k arbitrary: s)
    case 0
    then show ?case by simp
  next
    case (Suc k)
    show ?case
    proof (cases "pending_snapshots s")
      case Nil
      then show ?thesis using Suc.prems by (simp add: obind_def)
    next
      case (Cons q qs)
      obtain y p where call: "copy_complete d q (kv_payload s) = (y, p)" by fastforce
      have "q \<in> set (pending_snapshots s)" using Cons by simp
      then have "map_of (snapshots s) q \<noteq> None" using Suc.prems unfolding offload_ok_def by blast
      then have "offload_ok d (settle_copy q (s\<lparr>kv_payload := p\<rparr>))" using settle_ok [of d "s\<lparr>kv_payload := p\<rparr>" q] Suc.prems by simp
      with Suc Cons call show ?thesis by (cases y) (auto simp: obind_def oseq_def on_device_def)
    qed
  qed
  then show ?thesis by (auto simp: poll_copies_def obind_def keeps_def)
qed

lemma keeps_invalidate_snapshot [keeps_intro]: "keeps (offload_ok d) (invalidate_snapshot d q)"
proof (rule keepsI)
  fix s
  assume ok: "offload_ok d s"
  obtain x t where w: "wait_snapshot d q s = (x, t)" by fastforce
  note t = wait_ok [OF ok w]
  have "offload_ok d (t\<lparr>snapshots := alter q (\<lambda>n. n\<lparr>snap_valid := False\<rparr>) (snapshots t)\<rparr>)" if "x = Inr n" for n
  proof -
    have "offload_ok d (t\<lparr>pending_snapshots := remove1 q (pending_snapshots t), snapshots := alter q (\<lambda>n. n\<lparr>snap_valid := False\<rparr>) (snapshots t)\<rparr>)"
      using t that by (intro alter_ok [of d t q n]) auto
    moreover have "remove1 q (pending_snapshots t) = pending_snapshots t" using t that by (simp add: remove1_idem)
    ultimately show ?thesis by simp
  qed
  then show "offload_ok d (snd (invalidate_snapshot d q s))"
    using ok t w by (cases x) (auto simp: invalidate_snapshot_def obind_def oseq_def)
qed

lemma dropped_ok:
  assumes "offload_ok d u" "map_of (snapshots u) q = Some n" "q \<notin> set (pending_snapshots u)"
  shows "offload_ok d (u\<lparr>snapshots := AList.delete q (snapshots u), used_bytes := used_bytes u - snap_nbytes n\<rparr>)"
proof -
  have keyed: "dict_ok (snapshots u)" and pos: "0 \<le> snap_nbytes n" and cap: "used_bytes u \<le> capacity_bytes d"
    using assms(1,2) unfolding offload_ok_def by blast+
  have "used_bytes u - snap_nbytes n \<le> capacity_bytes d" using pos cap by simp
  then show ?thesis
    using assms sum_delete [OF keyed assms(2), of snap_nbytes] unfolding offload_ok_def
    by (auto simp: delete_conv' distinct_delete simp del: map_of_eq_Some_iff split: if_splits)
qed

lemma drop_ok:
  assumes "offload_ok d s" "drop_snapshot d q s = (x, t)"
  shows "offload_ok d t \<and> (\<forall>u. x = Inr u \<longrightarrow> map_of (snapshots t) q = None \<and> used_bytes t = used_bytes s - snapshot_bytes q s
    \<and> (\<forall>k. k \<noteq> q \<longrightarrow> map_option snap_nbytes (map_of (snapshots t) k) = map_option snap_nbytes (map_of (snapshots s) k)))
    \<and> (\<forall>err. x = Inl err \<longrightarrow> used_bytes t = used_bytes s \<and> map fst (snapshots t) = map fst (snapshots s))"
proof (cases "map_of (snapshots s) q")
  case None
  then show ?thesis using assms by (simp add: drop_snapshot_def obind_def snapshot_bytes_def)
next
  case (Some m)
  obtain y u where w: "wait_snapshot d q s = (y, u)" by fastforce
  note u = wait_ok [OF assms(1) w]
  show ?thesis
  proof (cases y)
    case (Inl err)
    then show ?thesis using assms Some w u by (auto simp: drop_snapshot_def obind_def)
  next
    case (Inr n)
    then have n: "map_of (snapshots u) q = Some n" "\<not> snap_in_flight n" "q \<notin> set (pending_snapshots u)" using u by auto
    have "map_option snap_nbytes (map_of (snapshots u) q) = map_option snap_nbytes (map_of (snapshots s) q)" using u by blast
    then have bytes: "snap_nbytes n = snapshot_bytes q s" using n(1) Some by (simp add: snapshot_bytes_def)
    have t: "t = u\<lparr>snapshots := AList.delete q (snapshots u), used_bytes := used_bytes u - snap_nbytes n\<rparr>" "x = Inr ()"
      using assms(2) Some w Inr by (auto simp: drop_snapshot_def obind_def)
    have "offload_ok d t" unfolding t(1) using u n by (intro dropped_ok) auto
    then show ?thesis using t u bytes by (auto simp: delete_conv')
  qed
qed

lemma keeps_drop [keeps_intro]: "keeps (offload_ok d) (drop_snapshot d q)"
  by (rule keepsI) (metis drop_ok prod.collapse)

lemma added_ok:
  assumes "offload_ok d s" "map_of (snapshots s) q = None" "0 \<le> n" "used_bytes s + n \<le> capacity_bytes d"
  shows "offload_ok d (s\<lparr>snapshots := AList.update q \<lparr>snap_nbytes = n, snap_valid = False, snap_in_flight = True\<rparr> (snapshots s),
    pending_snapshots := pending_snapshots s @ [q], used_bytes := used_bytes s + n, d2h_bytes := d2h_bytes s + n\<rparr>)"
proof -
  have "q \<notin> set (pending_snapshots s)" using assms(1,2) by (auto simp: offload_ok_def)
  then show ?thesis
    using assms sum_insert [OF assms(2), of snap_nbytes] unfolding offload_ok_def
    by (auto simp: update_conv' distinct_update split: if_splits)
qed

text \<open>The save checks the budget against the snapshot it is about to replace.\<close>

lemma save_ok:
  assumes sizes: "sizes_nonneg d" and ok: "offload_ok d s"
  shows "offload_ok d (snd (save_snapshot d q st s))"
proof -
  let ?store = "\<lambda>n. writes (\<lambda>s :: 'a offload_state. s\<lparr>snapshots := AList.update q \<lparr>snap_nbytes = n, snap_valid = False, snap_in_flight = True\<rparr> (snapshots s),
        pending_snapshots := pending_snapshots s @ [q], used_bytes := used_bytes s + n, d2h_bytes := d2h_bytes s + n\<rparr>)"
  have submit: "offload_ok d (snd (oseq (drop_snapshot d q) (oseq (on_device (submit_save d q st)) (?store n)) s))"
    if ok: "offload_ok d s" and n: "0 \<le> n" "used_bytes s - snapshot_bytes q s + n \<le> capacity_bytes d" for n s
  proof -
    obtain x u where drop: "drop_snapshot d q s = (x, u)" by fastforce
    note u = drop_ok [OF ok drop]
    show ?thesis
    proof (cases x)
      case (Inl err)
      then show ?thesis using drop u by (simp add: oseq_def obind_def)
    next
      case (Inr v)
      obtain y p where call: "submit_save d q st (kv_payload u) = (y, p)" by fastforce
      have "offload_ok d (snd (?store n (u\<lparr>kv_payload := p\<rparr>)))"
        using added_ok [of d "u\<lparr>kv_payload := p\<rparr>" q n] u Inr n by auto
      then show ?thesis using drop Inr call u by (cases y) (simp_all add: oseq_def obind_def on_device_def)
    qed
  qed
  have body: "keeps (offload_ok d) (obind (on_device (bytes_needed d q st)) (\<lambda>n. obind (reads (\<lambda>s. used_bytes s - snapshot_bytes q s + n)) (\<lambda>total_bytes.
     oseq (raise_if (capacity_bytes d < total_bytes) (RuntimeError ''Chain host capacity must be reserved before D2H submission.''))
     (oseq (drop_snapshot d q) (oseq (on_device (submit_save d q st)) (?store n))))))"
  proof (rule keepsI)
    fix s
    assume ok: "offload_ok d s"
    obtain y p where call: "bytes_needed d q st (kv_payload s) = (y, p)" by fastforce
    have bytes: "snapshot_bytes q (s\<lparr>kv_payload := p\<rparr>) = snapshot_bytes q s" by (simp add: snapshot_bytes_def)
    show "offload_ok d (snd (obind (on_device (bytes_needed d q st)) (\<lambda>n. obind (reads (\<lambda>s. used_bytes s - snapshot_bytes q s + n)) (\<lambda>total_bytes.
     oseq (raise_if (capacity_bytes d < total_bytes) (RuntimeError ''Chain host capacity must be reserved before D2H submission.''))
     (oseq (drop_snapshot d q) (oseq (on_device (submit_save d q st)) (?store n))))) s))"
    proof (cases y)
      case (Inl err)
      then show ?thesis using call ok by (simp add: obind_def on_device_def)
    next
      case (Inr n)
      have "0 \<le> n" using sizes call unfolding sizes_nonneg_def Inr by blast
      then show ?thesis
        using submit [of "s\<lparr>kv_payload := p\<rparr>" n] ok call Inr bytes
        by (simp add: obind_def [of "on_device _"] obind_def [of "reads _"] oseq_def [of "raise_if _ _"] obind_def [of "raise_if _ _"] on_device_def)
    qed
  qed
  have "keeps (offload_ok d) (save_snapshot d q st)"
    unfolding save_snapshot_def
    by (rule keeps_obind, rule keeps_on_device, simp, rule keeps_oseq, rule keeps_raise_if, rule keeps_oseq, rule keeps_poll, rule body)
  then show ?thesis using ok by (rule keepsD)
qed

lemma keeps_save: "sizes_nonneg d \<Longrightarrow> keeps (offload_ok d) (save_snapshot d q st)"
  by (rule keepsI) (rule save_ok)

lemma keeps_restore [keeps_intro]: "keeps (offload_ok d) (restore_snapshot d q)"
proof -
  have "keeps (offload_ok d) (writes (\<lambda>s. s\<lparr>h2d_bytes := h2d_bytes s + k\<rparr>))" for k by (rule keeps_writes) (simp add: offload_ok_def)
  then show ?thesis unfolding restore_snapshot_def by (auto intro!: keeps_intro)
qed

lemma keeps_reset_offload [keeps_intro]: "keeps (offload_ok d) (reset_offload d)"
proof -
  have "keeps (offload_ok d) (writes (\<lambda>s. s\<lparr>d2h_bytes := 0, h2d_bytes := 0\<rparr>))" by (rule keeps_writes) (simp add: offload_ok_def)
  then show ?thesis unfolding reset_offload_def by (auto intro!: keeps_intro)
qed

end
