(* ===== verification/Sequences.thy ===== *)
theory Sequences
  imports Complex_Main Prelude
begin

text \<open>
  Requests: sampling parameters (\<^verbatim>\<open>sampling_params.py\<close>), the token history for sampling
  penalties, and the request object \<open>Sequence\<close> with its replay state and its wire format
  (\<^verbatim>\<open>engine/sequence.py\<close>).  Floating point parameters are rationals with infinities and NaN,
  compared as Python compares them.
\<close>

section \<open>Floats and end-of-sequence tokens\<close>

datatype py_float = Float rat | PosInf | NegInf | NaN

fun float_less :: "py_float \<Rightarrow> py_float \<Rightarrow> bool" where
  "float_less (Float x) (Float y) = (x < y)"
| "float_less NaN y = False"
| "float_less x NaN = False"
| "float_less PosInf y = False"
| "float_less x NegInf = False"
| "float_less NegInf y = True"
| "float_less x PosInf = True"

fun float_eq :: "py_float \<Rightarrow> py_float \<Rightarrow> bool" where
  "float_eq NaN y = False"
| "float_eq x NaN = False"
| "float_eq x y = (x = y)"

definition float_le :: "py_float \<Rightarrow> py_float \<Rightarrow> bool" where
  "float_le x y \<longleftrightarrow> float_less x y \<or> float_eq x y"

text \<open>\<open>int | Iterable[int] | None\<close>\<close>

datatype token_spec = NoTokens | OneTokenId int | ManyTokenIds "int list"

definition as_eos_token_id_set :: "token_spec \<Rightarrow> int set" where
  "as_eos_token_id_set v = (case v of NoTokens \<Rightarrow> {} | OneTokenId t \<Rightarrow> {t} | ManyTokenIds ts \<Rightarrow> set ts)"

definition resolve_eos_token_ids :: "token_spec \<Rightarrow> token_spec \<Rightarrow> int option \<Rightarrow> int set" where
  "resolve_eos_token_ids request configured fallback =
     (let requested = as_eos_token_id_set request; conf = as_eos_token_id_set configured in
      if requested \<noteq> {} then requested
      else if conf \<noteq> {} then conf
      else (case fallback of None \<Rightarrow> {} | Some t \<Rightarrow> if t \<ge> 0 then {t} else {}))"

record sampling_params =
  sp_temperature :: py_float
  sp_top_p :: py_float
  sp_top_k :: int
  sp_presence_penalty :: py_float
  sp_repetition_penalty :: py_float
  sp_max_tokens :: int
  sp_ignore_eos :: bool
  sp_eos_token_ids :: "int list"
  sp_logprobs :: "int option"

text \<open>
  \<open>__post_init__\<close>: the checks in their order, and the normalisation of the end-of-sequence ids
  (\<open>tuple(dict.fromkeys(\<dots>))\<close> keeps the first occurrence of each id).
\<close>

definition init_sampling_params :: "py_float \<Rightarrow> py_float \<Rightarrow> int \<Rightarrow> py_float \<Rightarrow> py_float \<Rightarrow> int \<Rightarrow> bool
    \<Rightarrow> token_spec \<Rightarrow> int option \<Rightarrow> sampling_params result" where
  "init_sampling_params temperature top_p top_k presence repetition max_tokens ignore_eos eos logprobs =
     (let ids = (case eos of NoTokens \<Rightarrow> [] | OneTokenId t \<Rightarrow> [t]
                 | ManyTokenIds ts \<Rightarrow> rev (fold (\<lambda>t acc. if t \<in> set acc then acc else t # acc) ts []))
      in
      if float_less temperature (Float 0) then Inl (ValueError ''temperature must be non-negative'')
      else if \<not> (float_less (Float 0) top_p \<and> float_le top_p (Float 1)) then Inl (ValueError ''top_p must be in (0, 1]'')
      else if top_k < 0 then Inl (ValueError ''top_k must be non-negative'')
      else if \<not> (float_le (Float (-2)) presence \<and> float_le presence (Float 2))
        then Inl (ValueError ''presence_penalty must be in [-2, 2]'')
      else if \<not> float_less (Float 0) repetition then Inl (ValueError ''repetition_penalty must be positive'')
      else if max_tokens \<le> 0 then Inl (ValueError ''max_tokens must be positive'')
      else if (\<exists>t \<in> set ids. t < 0) then Inl (ValueError ''eos_token_ids must contain non-negative token ids'')
      else if (\<exists>n \<in> set_option logprobs. n < 0) then Inl (ValueError ''logprobs must be non-negative'')
      else Inr \<lparr>sp_temperature = temperature, sp_top_p = top_p, sp_top_k = top_k, sp_presence_penalty = presence,
                sp_repetition_penalty = repetition, sp_max_tokens = max_tokens, sp_ignore_eos = ignore_eos,
                sp_eos_token_ids = ids, sp_logprobs = logprobs\<rparr>)"

section \<open>Unique tokens and their device buffer\<close>

text \<open>
  A device tensor is the list of its elements; \<open>torch.empty\<close> returns a list of the requested
  length with arbitrary contents, which the parameter \<open>junk\<close> stands for.
\<close>

record 'd unique_tokens =
  ut_values :: "int list"
  ut_seen :: "int set"
  device_tensor :: "int list option"
  device :: "'d option"
  vocab_size :: "int option"
  synced_count :: int

definition ut_add :: "int \<Rightarrow> 'd unique_tokens \<Rightarrow> 'd unique_tokens" where
  "ut_add t u = (if t \<in> ut_seen u then u
     else u\<lparr>ut_seen := insert t (ut_seen u), ut_values := ut_values u @ [t]\<rparr>)"

definition init_unique_tokens :: "int list \<Rightarrow> 'd unique_tokens" where
  "init_unique_tokens ts = fold ut_add ts \<lparr>ut_values = [], ut_seen = {}, device_tensor = None, device = None,
     vocab_size = None, synced_count = 0\<rparr>"

definition ensure_buffer :: "(nat \<Rightarrow> int list) \<Rightarrow> 'd \<Rightarrow> int \<Rightarrow> int \<Rightarrow> 'd unique_tokens \<Rightarrow> 'd unique_tokens" where
  "ensure_buffer junk dev vocab max_new u =
     (let token_count = int (length (ut_values u)) in
      if (case device_tensor u of None \<Rightarrow> True | Some buf \<Rightarrow> int (length buf) < token_count)
         \<or> device u \<noteq> Some dev \<or> vocab_size u \<noteq> Some vocab
      then u\<lparr>device_tensor := Some (junk (nat (max token_count (min vocab (token_count + max 0 max_new))))),
             device := Some dev, vocab_size := Some vocab, synced_count := 0\<rparr>
      else u)"

definition sync_buffer :: "'d unique_tokens \<Rightarrow> 'd unique_tokens" where
  "sync_buffer u =
     (let token_count = length (ut_values u); k = nat (synced_count u); buf = the (device_tensor u) in
      if synced_count u < int token_count
      then u\<lparr>device_tensor := Some (take k buf @ drop k (ut_values u) @ drop token_count buf),
             synced_count := int token_count\<rparr>
      else u)"

definition to_tensor :: "(nat \<Rightarrow> int list) \<Rightarrow> 'd \<Rightarrow> int \<Rightarrow> int \<Rightarrow> 'd unique_tokens
    \<Rightarrow> int list option result \<times> 'd unique_tokens" where
  "to_tensor junk dev vocab max_new u =
     (if ut_values u = [] then (Inr None, u)
      else if vocab \<le> 0 then (Inl (ValueError ''vocab_size must be positive''), u)
      else (let u = sync_buffer (ensure_buffer junk dev vocab max_new u)
            in (Inr (Some (take (length (ut_values u)) (the (device_tensor u)))), u)))"

section \<open>Sequences\<close>

datatype sequence_status = WAITING | RUNNING | FINISHED

record 'd sequence =
  seq_id :: nat
  status :: sequence_status
  seq_token_ids :: "int list"
  prompt_ids :: "int list option"
  last_token :: "int option"
  num_tokens :: int
  num_pending_outputs :: int
  num_prompt_tokens :: int
  num_prefilled_tokens :: int
  current_chunk_size :: "int option"
  prefix_cache_enabled :: bool
  prefix_cache_hit_len :: int
  prefix_cache_hit_block_count :: int
  prefix_cache_hit_last_block_id :: "block_id option"
  prefix_cache_block_size :: int
  prefix_cache_method :: string
  chain_id :: "string option"
  chain_status :: string
  chain_reused_tokens :: int
  multimodal_digest :: "string option"
  multimodal_position_delta :: int
  multimodal_full_prefill :: bool
  recompute_replay_cursor :: "int option"
  decode_progress_checkpoint :: int
  temperature :: py_float
  top_p :: py_float
  top_k :: int
  presence_penalty :: py_float
  repetition_penalty :: py_float
  max_tokens :: int
  ignore_eos :: bool
  eos_token_ids :: "int list"
  logprobs :: "int option"
  completion_token_logprobs :: "py_float option list"
  completion_top_logprobs :: "(int, py_float) dict option list"
  presence_tokens :: "'d unique_tokens option"
  repetition_tokens :: "'d unique_tokens option"

definition init_sequence :: "nat \<Rightarrow> int list \<Rightarrow> sampling_params \<Rightarrow> 'd sequence" where
  "init_sequence next_id ts sp = \<lparr>seq_id = next_id, status = WAITING, seq_token_ids = ts, prompt_ids = Some ts,
     last_token = (if ts = [] then None else Some (last ts)), num_tokens = int (length ts), num_pending_outputs = 0,
     num_prompt_tokens = int (length ts), num_prefilled_tokens = 0, current_chunk_size = None,
     prefix_cache_enabled = False, prefix_cache_hit_len = 0, prefix_cache_hit_block_count = 0,
     prefix_cache_hit_last_block_id = None, prefix_cache_block_size = 0, prefix_cache_method = '''',
     chain_id = None, chain_status = ''disabled'', chain_reused_tokens = 0, multimodal_digest = None,
     multimodal_position_delta = 0, multimodal_full_prefill = False, recompute_replay_cursor = None,
     decode_progress_checkpoint = 0, temperature = sp_temperature sp, top_p = sp_top_p sp, top_k = sp_top_k sp,
     presence_penalty = sp_presence_penalty sp, repetition_penalty = sp_repetition_penalty sp,
     max_tokens = sp_max_tokens sp, ignore_eos = sp_ignore_eos sp, eos_token_ids = sp_eos_token_ids sp,
     logprobs = sp_logprobs sp, completion_token_logprobs = [], completion_top_logprobs = [],
     presence_tokens = (if \<not> float_eq (sp_presence_penalty sp) (Float 0) then Some (init_unique_tokens []) else None),
     repetition_tokens = (if \<not> float_eq (sp_repetition_penalty sp) (Float 1) then Some (init_unique_tokens ts) else None)\<rparr>"

definition num_completion_tokens :: "'d sequence \<Rightarrow> int" where
  "num_completion_tokens q = num_tokens q - num_prompt_tokens q"

definition has_sampling_penalty :: "'d sequence \<Rightarrow> bool" where
  "has_sampling_penalty q \<longleftrightarrow> \<not> float_eq (presence_penalty q) (Float 0) \<or> \<not> float_eq (repetition_penalty q) (Float 1)"

definition track_sampling_penalty_token :: "int \<Rightarrow> 'd sequence \<Rightarrow> 'd sequence" where
  "track_sampling_penalty_token t q = q\<lparr>presence_tokens := map_option (ut_add t) (presence_tokens q),
     repetition_tokens := map_option (ut_add t) (repetition_tokens q)\<rparr>"

datatype penalty_kind = Presence | Repetition | UnknownKind

definition sampling_penalty_token_tensor :: "(nat \<Rightarrow> int list) \<Rightarrow> penalty_kind \<Rightarrow> 'd \<Rightarrow> int \<Rightarrow> 'd sequence
    \<Rightarrow> int list option result \<times> 'd sequence" where
  "sampling_penalty_token_tensor junk kind dev vocab q =
     (let budget = max 0 (max_tokens q - num_completion_tokens q);
          history_missing = Inl (RuntimeError ''Sampling penalty token history is unavailable on this TP worker.'')
      in case kind of
        UnknownKind \<Rightarrow> (Inl (ValueError ''Unknown sampling penalty token kind''), q)
      | Presence \<Rightarrow>
          if float_eq (presence_penalty q) (Float 0) then (Inr None, q)
          else (case presence_tokens q of None \<Rightarrow> (history_missing, q)
                | Some u \<Rightarrow> (case to_tensor junk dev vocab budget u of (r, u) \<Rightarrow> (r, q\<lparr>presence_tokens := Some u\<rparr>)))
      | Repetition \<Rightarrow>
          if float_eq (repetition_penalty q) (Float 1) then (Inr None, q)
          else (case repetition_tokens q of None \<Rightarrow> (history_missing, q)
                | Some u \<Rightarrow> (case to_tensor junk dev vocab budget u of (r, u) \<Rightarrow> (r, q\<lparr>repetition_tokens := Some u\<rparr>))))"

datatype kv_state = FirstPrefill | MidPrefill | DecodeState

definition kv_change_state :: "'d sequence \<Rightarrow> kv_state result" where
  "kv_change_state q =
     (if num_prefilled_tokens q = 0 then Inr FirstPrefill
      else if num_prefilled_tokens q < num_prompt_tokens q then Inr MidPrefill
      else if num_prefilled_tokens q = num_prompt_tokens q then Inr DecodeState
      else Inl (ValueError ''''))"

definition prompt_token_ids :: "'d sequence \<Rightarrow> int list" where
  "prompt_token_ids q = (case prompt_ids q of Some ts \<Rightarrow> ts | None \<Rightarrow> take (nat (num_prompt_tokens q)) (seq_token_ids q))"

definition completion_token_ids :: "'d sequence \<Rightarrow> int list" where
  "completion_token_ids q = drop (nat (num_prompt_tokens q)) (seq_token_ids q)"

section \<open>Recompute replay\<close>

definition is_recompute_replay :: "'d sequence \<Rightarrow> bool" where
  "is_recompute_replay q \<longleftrightarrow> recompute_replay_cursor q \<noteq> None"

definition is_recompute_prefill :: "'d sequence \<Rightarrow> bool" where
  "is_recompute_prefill q \<longleftrightarrow> is_recompute_replay q \<and> num_prefilled_tokens q < num_prompt_tokens q"

definition is_recompute_decode :: "'d sequence \<Rightarrow> bool" where
  "is_recompute_decode q \<longleftrightarrow> is_recompute_replay q \<and> num_prompt_tokens q \<le> num_prefilled_tokens q"

definition replay_decode_token_count :: "'d sequence \<Rightarrow> int" where
  "replay_decode_token_count q = max 0 (num_completion_tokens q - 1)"

definition replay_cursor :: "'d sequence \<Rightarrow> int" where
  "replay_cursor q = (case recompute_replay_cursor q of None \<Rightarrow> 0 | Some c \<Rightarrow> c)"

definition token_slice :: "int list \<Rightarrow> int \<Rightarrow> int \<Rightarrow> int list" where
  "token_slice ts start n = take (nat n) (drop (nat start) ts)"

definition replay_input_token_ids :: "'d sequence \<Rightarrow> int list" where
  "replay_input_token_ids q =
     (if \<not> is_recompute_prefill q then []
      else let n = (case current_chunk_size q of None \<Rightarrow> 0 | Some c \<Rightarrow> c)
           in if int (length (seq_token_ids q)) = n then seq_token_ids q
              else token_slice (seq_token_ids q) (num_prefilled_tokens q) n)"

definition decode_input_token :: "'d sequence \<Rightarrow> int result" where
  "decode_input_token q =
     (if \<not> is_recompute_decode q
      then (case last_token q of None \<Rightarrow> Inl (RuntimeError ''Decode input token is missing'') | Some t \<Rightarrow> Inr t)
      else if replay_decode_token_count q \<le> replay_cursor q
      then Inl (RuntimeError ''Recompute replay cursor is past the accepted decode history'')
      else if num_prompt_tokens q + replay_cursor q < int (length (seq_token_ids q))
      then Inr (seq_token_ids q ! nat (num_prompt_tokens q + replay_cursor q))
      else (case last_token q of None \<Rightarrow> Inl (RuntimeError ''Replay decode input token is missing'') | Some t \<Rightarrow> Inr t))"

definition decode_input_position :: "'d sequence \<Rightarrow> int" where
  "decode_input_position q =
     (if is_recompute_decode q then num_prompt_tokens q + replay_cursor q else num_tokens q - 1)
       + multimodal_position_delta q"

definition should_publish_sample :: "'d sequence \<Rightarrow> bool" where
  "should_publish_sample q \<longleftrightarrow> \<not> is_recompute_replay q"

definition seq_clear_prefix_hit :: "'d sequence \<Rightarrow> 'd sequence" where
  "seq_clear_prefix_hit q = q\<lparr>prefix_cache_enabled := False, prefix_cache_hit_len := 0, prefix_cache_hit_block_count := 0,
     prefix_cache_hit_last_block_id := None, prefix_cache_block_size := 0, prefix_cache_method := ''''\<rparr>"

definition start_recompute_replay :: "'d sequence \<Rightarrow> 'd sequence result" where
  "start_recompute_replay q =
     (if num_completion_tokens q \<le> 0
      then Inl (RuntimeError ''Recompute replay requires at least one accepted completion token'')
      else Inr (seq_clear_prefix_hit (q\<lparr>recompute_replay_cursor := Some 0,
             decode_progress_checkpoint := num_completion_tokens q, num_prefilled_tokens := 0,
             current_chunk_size := None, status := WAITING\<rparr>)))"

definition finish_recompute_replay :: "'d sequence \<Rightarrow> 'd sequence result" where
  "finish_recompute_replay q =
     (if \<not> is_recompute_replay q then Inl (RuntimeError ''Sequence is not in recompute replay.'')
      else Inr (q\<lparr>recompute_replay_cursor := None, decode_progress_checkpoint := num_completion_tokens q\<rparr>))"

definition advance_recompute_replay :: "'d sequence \<Rightarrow> 'd sequence result" where
  "advance_recompute_replay q =
     (if \<not> is_recompute_decode q then Inl (RuntimeError ''Sequence is not replaying decode tokens.'')
      else let q = q\<lparr>recompute_replay_cursor := Some (replay_cursor q + 1)\<rparr>
           in if replay_decode_token_count q \<le> replay_cursor q then finish_recompute_replay q else Inr q)"

definition is_last_chunk_prefill :: "'d sequence \<Rightarrow> bool result" where
  "is_last_chunk_prefill q =
     (case current_chunk_size q of
        None \<Rightarrow> Inl (TypeError ''unsupported operand type(s) for +'')
      | Some c \<Rightarrow> Inr (num_prompt_tokens q \<le> num_prefilled_tokens q + c))"

definition append_token :: "int \<Rightarrow> py_float option \<Rightarrow> (int, py_float) dict option \<Rightarrow> 'd sequence \<Rightarrow> 'd sequence" where
  "append_token t lp tops q =
     (let q = (if has_sampling_penalty q then track_sampling_penalty_token t q else q);
          q = q\<lparr>seq_token_ids := seq_token_ids q @ [t]\<rparr>;
          q = (if num_completion_tokens q \<ge> 0
               then q\<lparr>completion_token_logprobs := completion_token_logprobs q @ [lp],
                      completion_top_logprobs := completion_top_logprobs q @ [tops]\<rparr> else q)
      in q\<lparr>last_token := Some t, num_tokens := num_tokens q + 1\<rparr>)"

section \<open>The wire format\<close>

text \<open>
  \<open>__getstate__\<close> sends the metadata and only the tokens the receiving worker needs: the active
  prompt chunk (a tuple when it is the whole prompt), or one token.
\<close>

datatype wire_tokens = PromptTuple "int list" | TokenChunk "int list" | OneToken "int option"

record wire_state =
  w_seq_id :: nat
  w_status :: sequence_status
  w_num_tokens :: int
  w_num_prompt_tokens :: int
  w_num_prefilled_tokens :: int
  w_current_chunk_size :: "int option"
  w_temperature :: py_float
  w_top_p :: py_float
  w_top_k :: int
  w_presence_penalty :: py_float
  w_repetition_penalty :: py_float
  w_max_tokens :: int
  w_ignore_eos :: bool
  w_eos_token_ids :: "int list"
  w_logprobs :: "int option"
  w_data :: wire_tokens
  w_prefix_cache_enabled :: bool
  w_prefix_cache_hit_len :: int
  w_prefix_cache_hit_block_count :: int
  w_prefix_cache_hit_last_block_id :: "block_id option"
  w_prefix_cache_block_size :: int
  w_prefix_cache_method :: string
  w_chain_id :: "string option"
  w_chain_status :: string
  w_chain_reused_tokens :: int
  w_recompute_replay_cursor :: "int option"
  w_decode_progress_checkpoint :: int
  w_multimodal_digest :: "string option"
  w_multimodal_position_delta :: int
  w_multimodal_full_prefill :: bool

definition wire_data :: "'d sequence \<Rightarrow> wire_tokens result" where
  "wire_data q =
     (if num_completion_tokens q = 0 \<or> is_recompute_prefill q then
        (let chunk_size = (case current_chunk_size q of None \<Rightarrow> num_prompt_tokens q | Some c \<Rightarrow> c) in
         if num_prefilled_tokens q = 0 \<and> chunk_size = num_prompt_tokens q \<and> prompt_ids q \<noteq> None
         then Inr (PromptTuple (the (prompt_ids q)))
         else Inr (TokenChunk (token_slice (seq_token_ids q) (num_prefilled_tokens q) chunk_size)))
      else if is_recompute_decode q then rbind (decode_input_token q) (\<lambda>t. Inr (OneToken (Some t)))
      else Inr (OneToken (last_token q)))"

definition getstate :: "'d sequence \<Rightarrow> wire_state result" where
  "getstate q = rbind (wire_data q) (\<lambda>tokens. Inr
     \<lparr>w_seq_id = seq_id q, w_status = status q, w_num_tokens = num_tokens q, w_num_prompt_tokens = num_prompt_tokens q,
      w_num_prefilled_tokens = num_prefilled_tokens q, w_current_chunk_size = current_chunk_size q,
      w_temperature = temperature q, w_top_p = top_p q, w_top_k = top_k q, w_presence_penalty = presence_penalty q,
      w_repetition_penalty = repetition_penalty q, w_max_tokens = max_tokens q, w_ignore_eos = ignore_eos q,
      w_eos_token_ids = eos_token_ids q, w_logprobs = logprobs q, w_data = tokens,
      w_prefix_cache_enabled = prefix_cache_enabled q, w_prefix_cache_hit_len = prefix_cache_hit_len q,
      w_prefix_cache_hit_block_count = prefix_cache_hit_block_count q,
      w_prefix_cache_hit_last_block_id = prefix_cache_hit_last_block_id q,
      w_prefix_cache_block_size = prefix_cache_block_size q, w_prefix_cache_method = prefix_cache_method q,
      w_chain_id = chain_id q, w_chain_status = chain_status q, w_chain_reused_tokens = chain_reused_tokens q,
      w_recompute_replay_cursor = recompute_replay_cursor q, w_decode_progress_checkpoint = decode_progress_checkpoint q,
      w_multimodal_digest = multimodal_digest q, w_multimodal_position_delta = multimodal_position_delta q,
      w_multimodal_full_prefill = multimodal_full_prefill q\<rparr>)"

text \<open>
  \<open>__setstate__\<close> on the worker.  The branch is chosen by the received metadata.  Data of the
  other shape (a token where the metadata announce a chunk, a list where they announce a token)
  would be ill typed in the code; it is the TypeError here, and \<open>worker_reads_same_inputs\<close> shows
  that \<open>__getstate__\<close> never sends it.
\<close>

definition worker_tokens :: "wire_state \<Rightarrow> (int list \<times> int option \<times> int list option) result" where
  "worker_tokens w =
     (if w_num_tokens w - w_num_prompt_tokens w = 0
         \<or> w_recompute_replay_cursor w \<noteq> None \<and> w_num_prefilled_tokens w < w_num_prompt_tokens w
      then (case w_data w of
          OneToken _ \<Rightarrow> Inl (TypeError ''object is not subscriptable'')
        | PromptTuple ts \<Rightarrow> Inr (ts, if ts = [] then None else Some (last ts),
              if w_num_prefilled_tokens w = 0 \<and> int (length ts) = w_num_prompt_tokens w then Some ts else None)
        | TokenChunk ts \<Rightarrow> Inr (ts, if ts = [] then None else Some (last ts),
              if w_num_prefilled_tokens w = 0 \<and> int (length ts) = w_num_prompt_tokens w then Some ts else None))
      else (case w_data w of
          OneToken t \<Rightarrow> Inr ([], t, None)
        | _ \<Rightarrow> Inl (TypeError ''int() argument must not be a list'')))"

definition setstate :: "wire_state \<Rightarrow> 'd sequence result" where
  "setstate w = rbind (worker_tokens w) (\<lambda>(ts, lt, prompt). Inr
     \<lparr>seq_id = w_seq_id w, status = w_status w, seq_token_ids = ts, prompt_ids = prompt, last_token = lt,
      num_tokens = w_num_tokens w, num_pending_outputs = 0, num_prompt_tokens = w_num_prompt_tokens w,
      num_prefilled_tokens = w_num_prefilled_tokens w, current_chunk_size = w_current_chunk_size w,
      prefix_cache_enabled = w_prefix_cache_enabled w, prefix_cache_hit_len = w_prefix_cache_hit_len w,
      prefix_cache_hit_block_count = w_prefix_cache_hit_block_count w,
      prefix_cache_hit_last_block_id = w_prefix_cache_hit_last_block_id w,
      prefix_cache_block_size = w_prefix_cache_block_size w, prefix_cache_method = w_prefix_cache_method w,
      chain_id = w_chain_id w, chain_status = w_chain_status w, chain_reused_tokens = w_chain_reused_tokens w,
      multimodal_digest = w_multimodal_digest w, multimodal_position_delta = w_multimodal_position_delta w,
      multimodal_full_prefill = w_multimodal_full_prefill w, recompute_replay_cursor = w_recompute_replay_cursor w,
      decode_progress_checkpoint = w_decode_progress_checkpoint w, temperature = w_temperature w, top_p = w_top_p w,
      top_k = w_top_k w, presence_penalty = w_presence_penalty w, repetition_penalty = w_repetition_penalty w,
      max_tokens = w_max_tokens w, ignore_eos = w_ignore_eos w, eos_token_ids = w_eos_token_ids w,
      logprobs = w_logprobs w, completion_token_logprobs = [], completion_top_logprobs = [],
      presence_tokens = None, repetition_tokens = None\<rparr>)"

section \<open>Well-formed sequences on rank 0\<close>

definition seq_ok :: "'d sequence \<Rightarrow> bool" where
  "seq_ok q \<longleftrightarrow> num_tokens q = int (length (seq_token_ids q)) \<and> 0 \<le> num_prompt_tokens q
     \<and> num_prompt_tokens q \<le> num_tokens q \<and> 0 \<le> num_prefilled_tokens q
     \<and> prompt_ids q = Some (take (nat (num_prompt_tokens q)) (seq_token_ids q))
     \<and> last_token q = (if seq_token_ids q = [] then None else Some (last (seq_token_ids q)))
     \<and> int (length (completion_token_logprobs q)) = num_completion_tokens q
     \<and> length (completion_top_logprobs q) = length (completion_token_logprobs q)
     \<and> (\<forall>c \<in> set_option (recompute_replay_cursor q). 0 \<le> c \<and> 0 < num_completion_tokens q)"

lemmas sequence_defs = num_completion_tokens_def is_recompute_replay_def is_recompute_prefill_def
  is_recompute_decode_def replay_decode_token_count_def replay_cursor_def

lemma init_sequence_ok: "seq_ok (init_sequence i ts sp)"
  by (simp add: seq_ok_def init_sequence_def num_completion_tokens_def)

lemma append_token_ok:
  assumes "seq_ok q"
  shows "seq_ok (append_token t lp tops q)"
    "completion_token_ids (append_token t lp tops q) = completion_token_ids q @ [t]"
    "prompt_token_ids (append_token t lp tops q) = prompt_token_ids q"
    "num_completion_tokens (append_token t lp tops q) = num_completion_tokens q + 1"
proof -
  have "nat (num_prompt_tokens q) \<le> length (seq_token_ids q)" using assms by (auto simp: seq_ok_def)
  with assms show "seq_ok (append_token t lp tops q)"
    by (auto simp: seq_ok_def append_token_def track_sampling_penalty_token_def num_completion_tokens_def Let_def)
  show "completion_token_ids (append_token t lp tops q) = completion_token_ids q @ [t]"
    "prompt_token_ids (append_token t lp tops q) = prompt_token_ids q"
    "num_completion_tokens (append_token t lp tops q) = num_completion_tokens q + 1"
    using \<open>nat (num_prompt_tokens q) \<le> length (seq_token_ids q)\<close> assms
    by (auto simp: completion_token_ids_def prompt_token_ids_def append_token_def track_sampling_penalty_token_def
        num_completion_tokens_def seq_ok_def Let_def)
qed

lemma start_replay_ok:
  assumes "seq_ok q" "start_recompute_replay q = Inr q'"
  shows "seq_ok q'" "is_recompute_prefill q' \<longleftrightarrow> 0 < num_prompt_tokens q" "seq_token_ids q' = seq_token_ids q"
    "num_tokens q' = num_tokens q" "num_prompt_tokens q' = num_prompt_tokens q"
  using assms by (auto simp: start_recompute_replay_def seq_ok_def seq_clear_prefix_hit_def sequence_defs split: if_splits)

lemma finish_replay_ok:
  "seq_ok q \<Longrightarrow> finish_recompute_replay q = Inr q' \<Longrightarrow> seq_ok q' \<and> \<not> is_recompute_replay q' \<and> seq_token_ids q' = seq_token_ids q"
  by (auto simp: finish_recompute_replay_def seq_ok_def sequence_defs split: if_splits)

lemma advance_replay_ok:
  "seq_ok q \<Longrightarrow> advance_recompute_replay q = Inr q' \<Longrightarrow> seq_ok q' \<and> seq_token_ids q' = seq_token_ids q"
  by (auto simp: advance_recompute_replay_def finish_recompute_replay_def seq_ok_def sequence_defs Let_def split: if_splits)


section \<open>What the worker reads\<close>

definition sends_prompt_chunk :: "'d sequence \<Rightarrow> bool" where
  "sends_prompt_chunk q \<longleftrightarrow> num_completion_tokens q = 0 \<or> is_recompute_prefill q"

definition active_chunk :: "'d sequence \<Rightarrow> int" where
  "active_chunk q = (case current_chunk_size q of None \<Rightarrow> num_prompt_tokens q | Some c \<Rightarrow> c)"

text \<open>The chunk the scheduler has set lies in the rest of the prompt, and a replay is not past its end.\<close>

definition scheduled_ok :: "'d sequence \<Rightarrow> bool" where
  "scheduled_ok q \<longleftrightarrow>
     (sends_prompt_chunk q \<longrightarrow> 0 < active_chunk q \<and> num_prefilled_tokens q + active_chunk q \<le> num_prompt_tokens q
        \<and> current_chunk_size q \<noteq> None)
     \<and> (is_recompute_decode q \<longrightarrow> replay_cursor q < replay_decode_token_count q)"

lemma wire_data_chunk:
  assumes "seq_ok q" "sends_prompt_chunk q" "scheduled_ok q"
  shows "\<exists>b. wire_data q = Inr (if b then PromptTuple (token_slice (seq_token_ids q) (num_prefilled_tokens q) (active_chunk q))
                        else TokenChunk (token_slice (seq_token_ids q) (num_prefilled_tokens q) (active_chunk q)))"
  using assms unfolding wire_data_def sends_prompt_chunk_def active_chunk_def seq_ok_def token_slice_def
  by (auto simp: Let_def if_distrib split: if_splits intro: exI [of _ True] exI [of _ False])

lemma replay_input_slice:
  assumes "seq_ok q" "is_recompute_prefill q" "scheduled_ok q"
  shows "replay_input_token_ids q = token_slice (seq_token_ids q) (num_prefilled_tokens q) (active_chunk q)"
proof -
  obtain c where c: "current_chunk_size q = Some c" "num_prefilled_tokens q + c \<le> num_prompt_tokens q" "0 < c"
    using assms by (auto simp: scheduled_ok_def sends_prompt_chunk_def active_chunk_def)
  have "0 < num_completion_tokens q" using assms by (auto simp: seq_ok_def is_recompute_prefill_def is_recompute_replay_def)
  then have "num_prompt_tokens q < int (length (seq_token_ids q))"
    using assms(1) by (simp add: seq_ok_def num_completion_tokens_def)
  then have "int (length (seq_token_ids q)) \<noteq> c" using c(2) assms(1) by (auto simp: seq_ok_def)
  with assms(2) c(1) show ?thesis by (simp add: replay_input_token_ids_def active_chunk_def)
qed

lemma length_token_slice:
  "0 \<le> a \<Longrightarrow> 0 \<le> n \<Longrightarrow> a + n \<le> int (length ts) \<Longrightarrow> int (length (token_slice ts a n)) = n"
  by (simp add: token_slice_def)

lemma setstate_fields:
  assumes "getstate q = Inr s" "setstate s = Inr (w :: 'd sequence)"
  shows "num_tokens w = num_tokens q" "num_prompt_tokens w = num_prompt_tokens q"
    "num_prefilled_tokens w = num_prefilled_tokens q" "current_chunk_size w = current_chunk_size q"
    "recompute_replay_cursor w = recompute_replay_cursor q" "multimodal_position_delta w = multimodal_position_delta q"
  using assms by (auto simp: getstate_def setstate_def rbind_eq_Inr)

lemma phase_of_fields:
  assumes "num_tokens w = num_tokens q" "num_prompt_tokens w = num_prompt_tokens q"
    "num_prefilled_tokens w = num_prefilled_tokens q" "current_chunk_size w = current_chunk_size q"
    "recompute_replay_cursor w = recompute_replay_cursor q" "multimodal_position_delta w = multimodal_position_delta q"
  shows "is_recompute_prefill w = is_recompute_prefill q" "is_recompute_decode w = is_recompute_decode q"
    "replay_cursor w = replay_cursor q" "replay_decode_token_count w = replay_decode_token_count q"
    "decode_input_position w = decode_input_position q" "kv_change_state w = kv_change_state q"
    "is_last_chunk_prefill w = is_last_chunk_prefill q"
  using assms by (auto simp: sequence_defs decode_input_position_def kv_change_state_def is_last_chunk_prefill_def
      split: option.splits)

lemma sent_chunk:
  assumes "seq_ok q" "scheduled_ok q" "sends_prompt_chunk q"
  shows "\<exists>s w. getstate q = Inr s \<and> setstate s = Inr (w :: 'd sequence)
    \<and> seq_token_ids w = token_slice (seq_token_ids q) (num_prefilled_tokens q) (active_chunk q)"
proof -
  let ?ts = "token_slice (seq_token_ids q) (num_prefilled_tokens q) (active_chunk q)"
  have shape: "num_tokens q - num_prompt_tokens q = 0
      \<or> recompute_replay_cursor q \<noteq> None \<and> num_prefilled_tokens q < num_prompt_tokens q"
    using assms(3) by (auto simp: sends_prompt_chunk_def sequence_defs)
  obtain b where "wire_data q = Inr (if b then PromptTuple ?ts else TokenChunk ?ts)"
    using wire_data_chunk assms by blast
  with shape show ?thesis by (cases b) (auto simp: getstate_def setstate_def worker_tokens_def)
qed

lemma sent_token:
  assumes "seq_ok q" "scheduled_ok q" "\<not> sends_prompt_chunk q"
  shows "\<exists>s w. getstate q = Inr s \<and> setstate s = Inr (w :: 'd sequence)
    \<and> seq_token_ids w = [] \<and> decode_input_token q = (case last_token w of None \<Rightarrow> decode_input_token q | Some t \<Rightarrow> Inr t)
    \<and> last_token w \<noteq> None"
proof -
  have shape: "\<not> (num_tokens q - num_prompt_tokens q = 0
      \<or> recompute_replay_cursor q \<noteq> None \<and> num_prefilled_tokens q < num_prompt_tokens q)"
    using assms(3) by (auto simp: sends_prompt_chunk_def sequence_defs)
  obtain t where t: "decode_input_token q = Inr t" "wire_data q = Inr (OneToken (Some t))"
  proof (cases "is_recompute_decode q")
    case True
    then have "replay_cursor q < replay_decode_token_count q" using assms(2) by (simp add: scheduled_ok_def)
    then have "num_prompt_tokens q + replay_cursor q < int (length (seq_token_ids q))"
      using assms(1) by (auto simp: seq_ok_def sequence_defs)
    with True \<open>replay_cursor q < _\<close> have "decode_input_token q = Inr (seq_token_ids q ! nat (num_prompt_tokens q + replay_cursor q))"
      by (simp add: decode_input_token_def)
    moreover from this have "wire_data q = Inr (OneToken (Some (seq_token_ids q ! nat (num_prompt_tokens q + replay_cursor q))))"
      using True assms(3) by (auto simp: wire_data_def sends_prompt_chunk_def)
    ultimately show ?thesis by (rule that)
  next
    case False
    have "seq_token_ids q \<noteq> []" using assms(1,3) by (auto simp: seq_ok_def sends_prompt_chunk_def sequence_defs)
    then have "last_token q = Some (last (seq_token_ids q))" using assms(1) by (simp add: seq_ok_def)
    with False assms(3) show ?thesis
      by (intro that [of "last (seq_token_ids q)"]) (auto simp: decode_input_token_def wire_data_def sends_prompt_chunk_def)
  qed
  with shape show ?thesis by (auto simp: getstate_def setstate_def worker_tokens_def)
qed

text \<open>
  C22. Round trip of the wire format: for a well-formed request that the scheduler has scheduled,
  \<open>__getstate__\<close> and \<open>__setstate__\<close> succeed, and the worker's copy reads the same model inputs as
  rank 0: while prompt tokens are computed (also again, in a replay) exactly the tokens of the
  active chunk, otherwise the same decode token, at the same position, in the same phase.
\<close>

theorem worker_reads_same_inputs:
  assumes "seq_ok q" "scheduled_ok q"
  shows "\<exists>s w. getstate q = Inr s \<and> setstate s = Inr (w :: 'd sequence)
    \<and> (sends_prompt_chunk q \<longrightarrow>
         seq_token_ids w = token_slice (seq_token_ids q) (num_prefilled_tokens q) (active_chunk q)
         \<and> int (length (seq_token_ids w)) = active_chunk q
         \<and> replay_input_token_ids w = replay_input_token_ids q)
    \<and> (\<not> sends_prompt_chunk q \<longrightarrow> decode_input_token w = decode_input_token q)
    \<and> decode_input_position w = decode_input_position q
    \<and> kv_change_state w = kv_change_state q \<and> is_last_chunk_prefill w = is_last_chunk_prefill q"
proof (cases "sends_prompt_chunk q")
  case True
  obtain s w where w: "getstate q = Inr s" "setstate s = Inr (w :: 'd sequence)"
    "seq_token_ids w = token_slice (seq_token_ids q) (num_prefilled_tokens q) (active_chunk q)"
    using sent_chunk [OF assms True] by blast
  note same = setstate_fields [OF w(1,2)] and phase = phase_of_fields [OF setstate_fields [OF w(1,2)]]
  have len: "int (length (seq_token_ids w)) = active_chunk q"
    using assms True unfolding w(3) by (intro length_token_slice) (auto simp: scheduled_ok_def seq_ok_def)
  have "current_chunk_size q = Some (active_chunk q)"
    using assms(2) True by (auto simp: scheduled_ok_def active_chunk_def)
  then have "replay_input_token_ids w = replay_input_token_ids q"
    using replay_input_slice [OF assms(1) _ assms(2)] phase len w(3) same(4)
    by (cases "is_recompute_prefill q") (simp_all add: replay_input_token_ids_def)
  with w len phase True show ?thesis by blast
next
  case False
  obtain s w where w: "getstate q = Inr s" "setstate s = Inr (w :: 'd sequence)" "seq_token_ids w = []"
    "decode_input_token q = (case last_token w of None \<Rightarrow> decode_input_token q | Some t \<Rightarrow> Inr t)" "last_token w \<noteq> None"
    using sent_token [OF assms False] by blast
  note same = setstate_fields [OF w(1,2)] and phase = phase_of_fields [OF setstate_fields [OF w(1,2)]]
  have "decode_input_token w = decode_input_token q"
    using assms w(3,4,5) phase same(2) by (auto simp: decode_input_token_def scheduled_ok_def seq_ok_def replay_cursor_def
        split: option.splits)
  with w phase False show ?thesis by blast
qed

definition sample_params :: sampling_params where
  "sample_params = \<lparr>sp_temperature = Float 1, sp_top_p = Float 1, sp_top_k = 0, sp_presence_penalty = Float 0,
     sp_repetition_penalty = Float 1, sp_max_tokens = 16, sp_ignore_eos = False, sp_eos_token_ids = [2], sp_logprobs = None\<rparr>"

definition sample_sequence :: "nat sequence" where
  "sample_sequence = (append_token 9 None None (append_token 8 None None (append_token 7 None None
     (init_sequence 0 [3, 4, 5] sample_params))))"

text \<open>The second chunk of a prompt that is computed again.\<close>

definition sample_replay :: "nat sequence" where
  "sample_replay = (case start_recompute_replay sample_sequence of
     Inr q \<Rightarrow> q\<lparr>num_prefilled_tokens := 1, current_chunk_size := Some 2\<rparr> | Inl _ \<Rightarrow> sample_sequence)"

lemma sample_replay_ok: "seq_ok sample_replay" "scheduled_ok sample_replay"
  by code_simp+

theorem worker_reads_same_inputs_witness:
  "seq_ok sample_replay \<and> scheduled_ok sample_replay
   \<and> (\<exists>s w. getstate sample_replay = Inr s \<and> setstate s = Inr (w :: nat sequence) \<and> seq_token_ids w = [4, 5])"
proof -
  have "sends_prompt_chunk sample_replay" by code_simp
  moreover have "token_slice (seq_token_ids sample_replay) (num_prefilled_tokens sample_replay) (active_chunk sample_replay) = [4, 5]"
    by code_simp
  ultimately show ?thesis using worker_reads_same_inputs [OF sample_replay_ok] sample_replay_ok by metis
qed

section \<open>A replay feeds the accepted history\<close>

text \<open>
  The decode steps of a replay: each feeds the decode input at its position and then advances the
  cursor, as the runner and the post-processing of the scheduler do.
\<close>

fun replay_feed :: "nat \<Rightarrow> 'd sequence \<Rightarrow> ((int \<times> int) list \<times> 'd sequence) result" where
  "replay_feed 0 q = Inr ([], q)"
| "replay_feed (Suc n) q =
     rbind (decode_input_token q) (\<lambda>t.
     rbind (advance_recompute_replay q) (\<lambda>q'.
     rbind (replay_feed n q') (\<lambda>(fed, r). Inr ((t, decode_input_position q) # fed, r))))"

lemma completions_facts:
  assumes "seq_ok q"
  shows "int (length (completion_token_ids q)) = num_completion_tokens q"
    and "i < length (completion_token_ids q) \<Longrightarrow>
      completion_token_ids q ! i = seq_token_ids q ! nat (num_prompt_tokens q + int i)"
proof -
  have "nat (num_prompt_tokens q) \<le> length (seq_token_ids q)" using assms by (auto simp: seq_ok_def)
  then show "i < length (completion_token_ids q) \<Longrightarrow>
      completion_token_ids q ! i = seq_token_ids q ! nat (num_prompt_tokens q + int i)"
    using assms by (simp add: completion_token_ids_def seq_ok_def nat_add_distrib)
  show "int (length (completion_token_ids q)) = num_completion_tokens q"
    using assms by (auto simp: completion_token_ids_def seq_ok_def num_completion_tokens_def)
qed

text \<open>One replay step at cursor \<open>i\<close>, before the end of the history.\<close>

lemma replay_step:
  assumes ok: "seq_ok q" and c: "recompute_replay_cursor q = Some (int i)"
    and full: "num_prompt_tokens q \<le> num_prefilled_tokens q" and i: "Suc i < length (completion_token_ids q)"
  shows "decode_input_token q = Inr (completion_token_ids q ! i)"
    and "decode_input_position q = num_prompt_tokens q + int i + multimodal_position_delta q"
    and "advance_recompute_replay q = Inr (if Suc (Suc i) < length (completion_token_ids q)
           then q\<lparr>recompute_replay_cursor := Some (int (Suc i))\<rparr>
           else q\<lparr>recompute_replay_cursor := None, decode_progress_checkpoint := num_completion_tokens q\<rparr>)"
proof -
  have n: "num_completion_tokens q = int (length (completion_token_ids q))" using completions_facts(1) [OF ok] by simp
  have d: "is_recompute_decode q" using c full by (simp add: sequence_defs)
  have room: "num_prompt_tokens q + int i < int (length (seq_token_ids q))"
    using i n ok by (auto simp: seq_ok_def num_completion_tokens_def)
  have cur: "replay_cursor q = int i" "int i < replay_decode_token_count q"
    using c i n by (simp_all add: replay_cursor_def replay_decode_token_count_def)
  then have "decode_input_token q = Inr (seq_token_ids q ! nat (num_prompt_tokens q + int i))"
    using d room by (simp add: decode_input_token_def)
  then show "decode_input_token q = Inr (completion_token_ids q ! i)"
    using completions_facts(2) [OF ok, of i] i by simp
  show "decode_input_position q = num_prompt_tokens q + int i + multimodal_position_delta q"
    using d cur(1) by (simp add: decode_input_position_def)
  show "advance_recompute_replay q = Inr (if Suc (Suc i) < length (completion_token_ids q)
           then q\<lparr>recompute_replay_cursor := Some (int (Suc i))\<rparr>
           else q\<lparr>recompute_replay_cursor := None, decode_progress_checkpoint := num_completion_tokens q\<rparr>)"
    using d cur n c by (auto simp: advance_recompute_replay_def finish_recompute_replay_def is_recompute_replay_def
        replay_decode_token_count_def replay_cursor_def num_completion_tokens_def Let_def)
qed

text \<open>The rest of the replay from cursor \<open>i\<close>: \<open>k\<close> steps before the last token.\<close>

lemma replay_rest:
  assumes "seq_ok q" "recompute_replay_cursor q = Some (int i)" "num_prompt_tokens q \<le> num_prefilled_tokens q"
    and "length (completion_token_ids q) = Suc i + Suc k"
  shows "replay_feed (Suc k) q = Inr
    (map (\<lambda>j. (completion_token_ids q ! j, num_prompt_tokens q + int j + multimodal_position_delta q)) [i..<Suc i + k],
     q\<lparr>recompute_replay_cursor := None, decode_progress_checkpoint := num_completion_tokens q\<rparr>)"
  using assms
proof (induction k arbitrary: q i)
  case 0
  then show ?case using replay_step [of q i] by simp
next
  case (Suc k)
  let ?q = "q\<lparr>recompute_replay_cursor := Some (int (Suc i))\<rparr>"
  note step = replay_step [of q i]
  have same: "completion_token_ids ?q = completion_token_ids q" "num_completion_tokens ?q = num_completion_tokens q"
    by (simp_all add: completion_token_ids_def num_completion_tokens_def)
  have "seq_ok ?q" using Suc.prems(1,2) by (auto simp: seq_ok_def num_completion_tokens_def)
  then have rest: "replay_feed (Suc k) ?q = Inr
    (map (\<lambda>j. (completion_token_ids q ! j, num_prompt_tokens q + int j + multimodal_position_delta q)) [Suc i..<Suc (Suc i) + k],
     q\<lparr>recompute_replay_cursor := None, decode_progress_checkpoint := num_completion_tokens q\<rparr>)"
    using Suc.IH [of ?q "Suc i"] Suc.prems same by simp
  have "[i..<Suc i + Suc k] = i # [Suc i..<Suc (Suc i) + k]" by (simp add: upt_conv_Cons del: upt_Suc)
  then show ?case
    using Suc.prems step rest by (simp del: upt_Suc replay_feed.simps add: replay_feed.simps(2) [of "Suc k"])
qed

text \<open>
  C23. Recompute replay rebuilds exactly the accepted history: after a preempted request with
  \<open>n \<ge> 2\<close> completion tokens has been restarted and its prompt computed again, the next \<open>n - 1\<close>
  decode steps feed its completion tokens but the last, in order and at the positions at which they
  were first computed; no step raises, no token changes, the replay is then over, and the next
  ordinary decode step reads the last accepted token at its position.
\<close>

theorem replay_feeds_accepted_history:
  assumes "seq_ok q" "start_recompute_replay q = Inr q1" "2 \<le> num_completion_tokens q"
  shows "\<exists>r. replay_feed (nat (num_completion_tokens q - 1)) (q1\<lparr>num_prefilled_tokens := num_prompt_tokens q\<rparr>)
      = Inr (zip (butlast (completion_token_ids q))
               (map (\<lambda>j. num_prompt_tokens q + int j + multimodal_position_delta q) [0..<nat (num_completion_tokens q - 1)]), r)
    \<and> \<not> is_recompute_replay r \<and> seq_token_ids r = seq_token_ids q
    \<and> decode_input_token r = Inr (last (completion_token_ids q))
    \<and> decode_input_position r = num_tokens q - 1 + multimodal_position_delta q"
proof -
  let ?q = "q1\<lparr>num_prefilled_tokens := num_prompt_tokens q\<rparr>"
  let ?r = "?q\<lparr>recompute_replay_cursor := None, decode_progress_checkpoint := num_completion_tokens q\<rparr>"
  let ?n = "nat (num_completion_tokens q - 1)"
  have q1: "recompute_replay_cursor q1 = Some 0" "seq_token_ids q1 = seq_token_ids q" "num_prompt_tokens q1 = num_prompt_tokens q"
    "num_tokens q1 = num_tokens q" "multimodal_position_delta q1 = multimodal_position_delta q"
    using assms(2,3) by (auto simp: start_recompute_replay_def seq_clear_prefix_hit_def)
  then have same: "completion_token_ids ?q = completion_token_ids q" "num_completion_tokens ?q = num_completion_tokens q"
    by (simp_all add: completion_token_ids_def num_completion_tokens_def)
  have ok: "seq_ok ?q" using start_replay_ok [OF assms(1,2)] assms(1) q1 by (auto simp: seq_ok_def num_completion_tokens_def)
  have len: "int (length (completion_token_ids q)) = num_completion_tokens q" by (rule completions_facts(1) [OF assms(1)])
  obtain k where k: "?n = Suc k" using assms(3) by (cases ?n) auto
  with len assms(3) have lk: "length (completion_token_ids q) = Suc 0 + Suc k" by linarith
  have fed: "replay_feed ?n ?q = Inr (map (\<lambda>j. (completion_token_ids q ! j,
      num_prompt_tokens q + int j + multimodal_position_delta q)) [0..<?n], ?r)"
    using replay_rest [OF ok, of 0 k] q1 same lk k by simp
  have zipped: "map (\<lambda>j. (completion_token_ids q ! j, num_prompt_tokens q + int j + multimodal_position_delta q)) [0..<?n]
    = zip (butlast (completion_token_ids q)) (map (\<lambda>j. num_prompt_tokens q + int j + multimodal_position_delta q) [0..<?n])"
    using lk k by (intro nth_equalityI) (auto simp: nth_butlast simp del: upt_Suc)
  have "seq_token_ids q \<noteq> []" using assms(1,3) by (auto simp: seq_ok_def num_completion_tokens_def)
  then have last: "last (seq_token_ids q) = last (completion_token_ids q)" "last_token q1 = Some (last (seq_token_ids q))"
    using assms lk by (auto simp: completion_token_ids_def last_drop start_recompute_replay_def seq_clear_prefix_hit_def seq_ok_def)
  then show ?thesis using fed q1 unfolding zipped
    by (intro exI [of _ ?r]) (simp add: sequence_defs decode_input_token_def decode_input_position_def)
qed

theorem replay_feeds_accepted_history_witness:
  "\<exists>q1 r. seq_ok sample_sequence \<and> start_recompute_replay sample_sequence = Inr q1
     \<and> replay_feed 2 (q1\<lparr>num_prefilled_tokens := 3\<rparr>) = Inr ([(7, 3), (8, 4)], r) \<and> decode_input_token r = Inr 9"
proof -
  have vals: "seq_ok sample_sequence" "2 \<le> num_completion_tokens sample_sequence" "num_prompt_tokens sample_sequence = 3"
    "nat (num_completion_tokens sample_sequence - 1) = 2" "completion_token_ids sample_sequence = [7, 8, 9]"
    "multimodal_position_delta sample_sequence = 0" by code_simp+
  obtain q1 where q1: "start_recompute_replay sample_sequence = Inr q1"
    using vals(2) by (auto simp: start_recompute_replay_def)
  show ?thesis using replay_feeds_accepted_history [OF vals(1) q1 vals(2)] vals q1
    by (auto simp: upt_rec [of _ 2] upt_rec [of _ "Suc (Suc 0)"] numeral_2_eq_2)
qed

section \<open>The penalty history on the device\<close>

text \<open>Calls on a penalty history: tokens are recorded, the device copy is read at any device and size.\<close>

datatype 'd history_call = AddToken int | ReadTensor 'd int int

fun history_step :: "(nat \<Rightarrow> int list) \<Rightarrow> 'd history_call \<Rightarrow> 'd unique_tokens \<Rightarrow> 'd unique_tokens" where
  "history_step junk (AddToken t) u = ut_add t u"
| "history_step junk (ReadTensor dev vocab max_new) u = snd (to_tensor junk dev vocab max_new u)"

definition ut_ok :: "'d unique_tokens \<Rightarrow> bool" where
  "ut_ok u \<longleftrightarrow> ut_seen u = set (ut_values u) \<and> 0 \<le> synced_count u \<and> synced_count u \<le> int (length (ut_values u))
     \<and> (case device_tensor u of None \<Rightarrow> synced_count u = 0
        | Some buf \<Rightarrow> synced_count u \<le> int (length buf)
            \<and> take (nat (synced_count u)) buf = take (nat (synced_count u)) (ut_values u))"

text \<open>The distinct tokens of a history in the order of their first occurrence.\<close>

definition first_occurrences :: "int list \<Rightarrow> int list" where
  "first_occurrences ts = rev (remdups (rev ts))"

lemma first_occurrences_snoc:
  "first_occurrences (ts @ [t]) = (if t \<in> set ts then first_occurrences ts else first_occurrences ts @ [t])"
  by (simp add: first_occurrences_def)

lemma set_first_occurrences: "set (first_occurrences ts) = set ts"
  by (simp add: first_occurrences_def)

lemma ut_add_ok:
  assumes "ut_ok u" "ut_values u = first_occurrences ts"
  shows "ut_ok (ut_add t u)" "ut_values (ut_add t u) = first_occurrences (ts @ [t])"
  using assms by (auto simp: ut_ok_def ut_add_def first_occurrences_snoc set_first_occurrences split: option.splits)

lemma init_unique_tokens_ok:
  "ut_ok (init_unique_tokens ts :: 'd unique_tokens)" (is ?ok)
  "ut_values (init_unique_tokens ts :: 'd unique_tokens) = first_occurrences ts" (is ?vals)
proof -
  let ?u = "\<lparr>ut_values = [], ut_seen = {}, device_tensor = None, device = None, vocab_size = None,
    synced_count = 0\<rparr> :: 'd unique_tokens"
  have "ut_ok (fold ut_add ts ?u) \<and> ut_values (fold ut_add ts ?u) = first_occurrences ts"
  proof (induction ts rule: rev_induct)
    case Nil
    show ?case by (simp add: ut_ok_def first_occurrences_def)
  next
    case (snoc t ts)
    then show ?case using ut_add_ok [of "fold ut_add ts ?u" ts t] by simp
  qed
  then show ?ok ?vals
    by (simp_all add: init_unique_tokens_def)
qed

lemma ensure_buffer_ok:
  assumes "ut_ok u" "\<And>n. length (junk n) = n"
  shows "ut_ok (ensure_buffer junk dev vocab max_new u)"
    "ut_values (ensure_buffer junk dev vocab max_new u) = ut_values u"
    "\<exists>buf. device_tensor (ensure_buffer junk dev vocab max_new u) = Some buf \<and> length (ut_values u) \<le> length buf"
  using assms by (auto simp: ensure_buffer_def ut_ok_def Let_def split: option.splits)

lemma sync_buffer_ok:
  assumes "ut_ok u" "device_tensor u = Some buf" "length (ut_values u) \<le> length buf"
  shows "ut_ok (sync_buffer u)" "ut_values (sync_buffer u) = ut_values u"
    "\<exists>buf. device_tensor (sync_buffer u) = Some buf \<and> take (length (ut_values u)) buf = ut_values u"
proof -
  let ?k = "nat (synced_count u)"
  have pre: "take ?k buf = take ?k (ut_values u)" "?k \<le> length (ut_values u)" "synced_count u = int ?k"
    using assms by (auto simp: ut_ok_def)
  have joined: "take ?k buf @ drop ?k (ut_values u) = ut_values u" unfolding pre(1) by simp
  have stale: "take (length (ut_values u)) buf = ut_values u" if "\<not> synced_count u < int (length (ut_values u))"
  proof -
    have "?k = length (ut_values u)" using that pre(2,3) by linarith
    with pre(1) show ?thesis by simp
  qed
  have "take ?k buf @ drop ?k (ut_values u) @ drop (length (ut_values u)) buf = ut_values u @ drop (length (ut_values u)) buf"
    unfolding append_assoc [symmetric] joined ..
  then have cases: "sync_buffer u = (if synced_count u < int (length (ut_values u))
      then u\<lparr>device_tensor := Some (ut_values u @ drop (length (ut_values u)) buf), synced_count := int (length (ut_values u))\<rparr>
      else u)"
    using assms(2) by (simp add: sync_buffer_def Let_def)
  show "ut_ok (sync_buffer u)" "ut_values (sync_buffer u) = ut_values u"
    "\<exists>buf. device_tensor (sync_buffer u) = Some buf \<and> take (length (ut_values u)) buf = ut_values u"
    using assms stale unfolding cases by (auto simp: ut_ok_def)
qed

lemma to_tensor_ok:
  assumes "ut_ok u" "\<And>n. length (junk n) = n"
  shows "ut_ok (snd (to_tensor junk dev vocab max_new u))"
    "ut_values (snd (to_tensor junk dev vocab max_new u)) = ut_values u"
    "fst (to_tensor junk dev vocab max_new u) =
       (if ut_values u = [] then Inr None
        else if vocab \<le> 0 then Inl (ValueError ''vocab_size must be positive'') else Inr (Some (ut_values u)))"
proof -
  let ?u = "ensure_buffer junk dev vocab max_new u"
  note buf = ensure_buffer_ok [OF assms, of dev vocab max_new]
  obtain b where b: "device_tensor ?u = Some b" "length (ut_values ?u) \<le> length b" using buf by auto
  note sync = sync_buffer_ok [OF buf(1) b]
  then show "ut_ok (snd (to_tensor junk dev vocab max_new u))"
    "ut_values (snd (to_tensor junk dev vocab max_new u)) = ut_values u"
    "fst (to_tensor junk dev vocab max_new u) =
       (if ut_values u = [] then Inr None
        else if vocab \<le> 0 then Inl (ValueError ''vocab_size must be positive'') else Inr (Some (ut_values u)))"
    using assms(1) buf(2) by (auto simp: to_tensor_def Let_def)
qed

definition recorded :: "'d history_call list \<Rightarrow> int list" where
  "recorded calls = concat (map (\<lambda>c. case c of AddToken t \<Rightarrow> [t] | ReadTensor _ _ _ \<Rightarrow> []) calls)"

lemma history_run:
  assumes "\<And>n. length (junk n) = n"
  shows "ut_ok (fold (history_step junk) calls (init_unique_tokens ts :: 'd unique_tokens))
    \<and> ut_values (fold (history_step junk) calls (init_unique_tokens ts :: 'd unique_tokens)) = first_occurrences (ts @ recorded calls)"
proof (induction calls rule: rev_induct)
  case Nil
  show ?case using init_unique_tokens_ok [where 'd = 'd] by (simp add: recorded_def)
next
  case (snoc c calls)
  then show ?case
    using ut_add_ok [of "fold (history_step junk) calls (init_unique_tokens ts)" "ts @ recorded calls"]
      to_tensor_ok [of "fold (history_step junk) calls (init_unique_tokens ts)" junk] assms
    by (cases c) (auto simp: recorded_def)
qed

text \<open>
  C24. The incrementally synchronised device buffer always shows the whole penalty history:
  whatever tokens have been recorded and whatever reads (of other devices and vocabulary sizes,
  reallocating the buffer or not) have happened before, a read returns each recorded token once,
  in the order of first occurrence, or None when there is none; a vocabulary size that is not
  positive raises.  \<open>torch.empty\<close> may return any contents of the requested length.
\<close>

theorem penalty_tensor_is_history:
  assumes "\<And>n. length (junk n) = n"
  shows "fst (to_tensor junk dev vocab max_new (fold (history_step junk) calls (init_unique_tokens ts)))
    = (if ts @ recorded calls = [] then Inr None
       else if vocab \<le> 0 then Inl (ValueError ''vocab_size must be positive'')
       else Inr (Some (first_occurrences (ts @ recorded calls))))"
proof -
  have "first_occurrences (ts @ recorded calls) = [] \<longleftrightarrow> ts @ recorded calls = []"
    using set_first_occurrences [of "ts @ recorded calls"] by (metis set_empty)
  then show ?thesis
    using to_tensor_ok(3) [of "fold (history_step junk) calls (init_unique_tokens ts)" junk dev vocab max_new]
      history_run [of junk calls ts] assms by simp
qed

theorem penalty_tensor_is_history_witness:
  "(\<forall>n. length (replicate n (99 :: int)) = n)
   \<and> fst (to_tensor (\<lambda>n. replicate n 99) (0 :: nat) 50 4
       (fold (history_step (\<lambda>n. replicate n 99)) [ReadTensor 0 50 4, AddToken 7, ReadTensor 1 50 4, AddToken 5, AddToken 8]
         (init_unique_tokens [5, 6, 5]))) = Inr (Some [5, 6, 7, 8])"
  using penalty_tensor_is_history [of "\<lambda>n. replicate n 99" "0 :: nat" 50 4
      "[ReadTensor 0 50 4, AddToken 7, ReadTensor 1 50 4, AddToken 5, AddToken 8]" "[5, 6, 5]"]
  by (simp add: recorded_def first_occurrences_def)

section \<open>Accepted sampling parameters\<close>

lemma dedup_fold:
  "distinct acc \<Longrightarrow> distinct (fold (\<lambda>t acc. if t \<in> set acc then acc else t # acc) ts acc)
     \<and> set (fold (\<lambda>t acc. if t \<in> set acc then acc else t # acc) ts acc) = set ts \<union> set acc"
  by (induction ts arbitrary: acc) auto

text \<open>
  Sampling parameters that pass the checks of \<open>SamplingParams\<close> are in the documented ranges:
  the probability mass lies in \<open>(0, 1]\<close>, the presence penalty in \<open>[-2, 2]\<close> and neither is NaN or
  infinite, the repetition penalty is positive, the token budget is positive, the
  end-of-sequence ids are distinct, non-negative and exactly the requested ones.  The temperature
  is not negative, but it may be NaN or infinite: the check \<open>temperature < 0\<close> does not reject NaN.
\<close>

theorem accepted_sampling_params:
  assumes "init_sampling_params temp tp tk pp rp mt ie eos lps = Inr p"
  shows "(\<exists>x. sp_top_p p = Float x \<and> 0 < x \<and> x \<le> 1) \<and> (\<exists>x. sp_presence_penalty p = Float x \<and> -2 \<le> x \<and> x \<le> 2)
    \<and> (sp_repetition_penalty p = PosInf \<or> (\<exists>x. sp_repetition_penalty p = Float x \<and> 0 < x))
    \<and> 0 \<le> sp_top_k p \<and> 0 < sp_max_tokens p \<and> (\<forall>n \<in> set_option (sp_logprobs p). 0 \<le> n)
    \<and> distinct (sp_eos_token_ids p) \<and> set (sp_eos_token_ids p) = as_eos_token_id_set eos
    \<and> (\<forall>t \<in> set (sp_eos_token_ids p). 0 \<le> t)
    \<and> (sp_temperature p = NaN \<or> sp_temperature p = PosInf \<or> (\<exists>x. sp_temperature p = Float x \<and> 0 \<le> x))"
proof -
  have acc: "\<not> float_less temp (Float 0)" "float_less (Float 0) tp \<and> float_le tp (Float 1)" "0 \<le> tk"
    "float_le (Float (-2)) pp \<and> float_le pp (Float 2)" "float_less (Float 0) rp" "0 < mt"
    "\<forall>n \<in> set_option lps. 0 \<le> n" and p: "sp_temperature p = temp" "sp_top_p p = tp" "sp_top_k p = tk"
    "sp_presence_penalty p = pp" "sp_repetition_penalty p = rp" "sp_max_tokens p = mt" "sp_logprobs p = lps"
    using assms by (auto simp: init_sampling_params_def Let_def not_less not_le split: if_splits)
  have ids: "distinct (sp_eos_token_ids p)" "set (sp_eos_token_ids p) = as_eos_token_id_set eos"
    "\<forall>t \<in> set (sp_eos_token_ids p). 0 \<le> t"
    using assms by (auto simp: init_sampling_params_def as_eos_token_id_set_def Let_def dedup_fold not_less
        split: if_splits token_spec.splits)
  have "\<exists>x. tp = Float x \<and> 0 < x \<and> x \<le> 1" using acc(2) by (cases tp) (auto simp: float_le_def)
  moreover have "\<exists>x. pp = Float x \<and> -2 \<le> x \<and> x \<le> 2" using acc(4) by (cases pp) (auto simp: float_le_def)
  moreover have "rp = PosInf \<or> (\<exists>x. rp = Float x \<and> 0 < x)" using acc(5) by (cases rp) auto
  moreover have "temp = NaN \<or> temp = PosInf \<or> (\<exists>x. temp = Float x \<and> 0 \<le> x)" using acc(1) by (cases temp) auto
  ultimately show ?thesis using acc ids unfolding p by blast
qed

theorem accepted_sampling_params_witness:
  "init_sampling_params NaN (Float (1/2)) 0 (Float 0) (Float 1) 16 False (ManyTokenIds [2, 7, 2]) None
     = Inr \<lparr>sp_temperature = NaN, sp_top_p = Float (1/2), sp_top_k = 0, sp_presence_penalty = Float 0,
         sp_repetition_penalty = Float 1, sp_max_tokens = 16, sp_ignore_eos = False, sp_eos_token_ids = [2, 7],
         sp_logprobs = None\<rparr>
   \<and> distinct [2, 7 :: int]"
proof -
  let ?r = "init_sampling_params NaN (Float (1/2)) 0 (Float 0) (Float 1) 16 False (ManyTokenIds [2, 7, 2]) None"
  have ok: "?r = Inr \<lparr>sp_temperature = NaN, sp_top_p = Float (1/2), sp_top_k = 0, sp_presence_penalty = Float 0,
         sp_repetition_penalty = Float 1, sp_max_tokens = 16, sp_ignore_eos = False, sp_eos_token_ids = [2, 7],
         sp_logprobs = None\<rparr>"
    by (simp add: init_sampling_params_def float_le_def)
  then show ?thesis using accepted_sampling_params [OF ok] by simp
qed

text \<open>
  A NaN temperature passes validation (every other float parameter rejects NaN).
\<close>

theorem nan_temperature_accepted:
  "\<exists>p. init_sampling_params NaN (Float 1) 0 (Float 0) (Float 1) 16 False NoTokens None = Inr p \<and> sp_temperature p = NaN"
  by (simp add: init_sampling_params_def float_le_def)

end
