(* ===== verification/Decode_Windows.thy ===== *)
theory Decode_Windows
  imports Sequences State_Result
begin

text \<open>
  Future decode capacity (\<^verbatim>\<open>engine/cache_manager/decode_reservation.py\<close>): every decoding request owns
  a window of output tokens whose worst-case cost is set aside.  The code's reservation holds the
  request object; here the reservation of a request is filed under its id and the object is looked
  up in the heap of requests.  The costs of a window are a hook of the cache manager, a function
  that may raise.
\<close>

section \<open>Reservations\<close>

record reservations =
  window :: int
  reserved_ends :: "(nat, int) dict"

type_synonym resources = "(string, int) dict"
type_synonym 'd cost_hook = "'d sequence \<Rightarrow> int \<Rightarrow> resources result"

definition submitted_output_count :: "'d sequence \<Rightarrow> int" where
  "submitted_output_count q = num_completion_tokens q + num_pending_outputs q"

definition init_reservations :: "int \<Rightarrow> reservations result" where
  "init_reservations w = (if w \<le> 0 then Inl (ValueError ''Decode reservation window must be a positive integer.'')
     else Inr \<lparr>window = w, reserved_ends = []\<rparr>)"

definition release_window :: "nat \<Rightarrow> reservations \<Rightarrow> reservations" where
  "release_window r R = R\<lparr>reserved_ends := AList.delete r (reserved_ends R)\<rparr>"

text \<open>\<open>total.get(name, 0)\<close>, and adding the costs of a window to a total.\<close>

definition amount :: "resources \<Rightarrow> string \<Rightarrow> int" where
  "amount d name = (case map_of d name of None \<Rightarrow> 0 | Some n \<Rightarrow> n)"

definition add_costs :: "resources \<Rightarrow> resources \<Rightarrow> resources" where
  "add_costs costs used = fold (\<lambda>(name, c) t. AList.update name (amount t name + c) t) costs used"

fun outstanding_loop :: "'d cost_hook \<Rightarrow> (nat \<Rightarrow> 'd sequence) \<Rightarrow> nat option \<Rightarrow> (nat, int) dict \<Rightarrow> resources \<Rightarrow> resources result" where
  "outstanding_loop costs heap exclude [] used = Inr used"
| "outstanding_loop costs heap exclude ((r, end') # rest) used =
     (let left = max 0 (end' - submitted_output_count (heap r)) in
      if Some r = exclude \<or> left = 0 then outstanding_loop costs heap exclude rest used
      else rbind (costs (heap r) left) (\<lambda>cs. outstanding_loop costs heap exclude rest (add_costs cs used)))"

definition outstanding :: "'d cost_hook \<Rightarrow> (nat \<Rightarrow> 'd sequence) \<Rightarrow> nat option \<Rightarrow> reservations \<Rightarrow> resources result" where
  "outstanding costs heap exclude R = outstanding_loop costs heap exclude (reserved_ends R) []"

definition needs_acquisition :: "(nat \<Rightarrow> 'd sequence) \<Rightarrow> nat \<Rightarrow> reservations \<Rightarrow> bool" where
  "needs_acquisition heap r R =
     (let submitted = submitted_output_count (heap r) in
      if (case map_of (reserved_ends R) r of None \<Rightarrow> False | Some end' \<Rightarrow> submitted < end') then False
      else submitted < max_tokens (heap r) \<and> \<not> is_recompute_replay (heap r))"

section \<open>Acquisition\<close>

text \<open>\<open>all(\<dots> <= budgets[name] for \<dots>)\<close> stops at the first resource that does not fit; a resource without a budget is a KeyError.\<close>

fun fits :: "resources \<Rightarrow> resources \<Rightarrow> resources option \<Rightarrow> resources \<Rightarrow> bool result" where
  "fits used budgets reserve [] = Inr True"
| "fits used budgets reserve ((name, c) # rest) =
     (case map_of budgets name of
        None \<Rightarrow> Inl (KeyError name)
      | Some b \<Rightarrow> if c + amount used name + amount (case reserve of None \<Rightarrow> [] | Some d \<Rightarrow> d) name \<le> b
                  then fits used budgets reserve rest else Inr False)"

text \<open>The longest window that fits, by binary search between \<open>lo\<close> and \<open>hi\<close>.\<close>

function widest_window :: "(int \<Rightarrow> bool result) \<Rightarrow> int \<Rightarrow> int \<Rightarrow> int result" where
  "widest_window ok lo hi =
     (if lo < hi
      then let mid = (lo + hi + 1) div 2
           in rbind (ok mid) (\<lambda>yes. if yes then widest_window ok mid hi else widest_window ok lo (mid - 1))
      else Inr lo)"
  by auto
termination by (relation "measure (\<lambda>(ok, lo, hi). nat (hi - lo))") auto

declare widest_window.simps [simp del]

text \<open>\<open>_acquire\<close>: whether the window was granted, and the new total (the code updates the dictionary in place).\<close>

definition window_length :: "'d cost_hook \<Rightarrow> bool \<Rightarrow> resources option \<Rightarrow> resources \<Rightarrow> resources \<Rightarrow> int \<Rightarrow> 'd sequence
    \<Rightarrow> int option result" where
  "window_length costs allow_short reserve budgets used w q =
     (let tokens = min w (max_tokens q - submitted_output_count q);
          ok = (\<lambda>n. rbind (costs q n) (fits used budgets reserve))
      in rbind (ok tokens) (\<lambda>whole.
         if whole then Inr (Some tokens)
         else if \<not> allow_short then Inr None
         else rbind (ok 1) (\<lambda>one. if \<not> one then Inr None
              else rbind (widest_window ok 1 tokens) (\<lambda>n. Inr (Some n)))))"

definition acquire_one :: "'d cost_hook \<Rightarrow> (nat \<Rightarrow> 'd sequence) \<Rightarrow> bool \<Rightarrow> resources option \<Rightarrow> resources \<Rightarrow> resources \<Rightarrow> nat
    \<Rightarrow> (reservations, resources option) op" where
  "acquire_one costs heap allow_short reserve budgets used r =
     obind (lift_result (\<lambda>R. window_length costs allow_short reserve budgets used (window R) (heap r))) (\<lambda>granted.
     case granted of None \<Rightarrow> ret None
     | Some n \<Rightarrow>
         obind (lift_result (\<lambda>_. costs (heap r) n)) (\<lambda>cs.
         oseq (writes (\<lambda>R. R\<lparr>reserved_ends := AList.update r (submitted_output_count (heap r) + n) (reserved_ends R)\<rparr>))
         (ret (Some (add_costs cs used)))))"

text \<open>
  \<open>acquire_many\<close>: the total and the budgets are read when the first request needs a window.  The
  result is the first request that got none.
\<close>

fun acquire_loop :: "'d cost_hook \<Rightarrow> (nat \<Rightarrow> 'd sequence) \<Rightarrow> bool \<Rightarrow> resources option \<Rightarrow> resources result \<Rightarrow> nat list
    \<Rightarrow> (resources \<times> resources) option \<Rightarrow> (reservations, nat option) op" where
  "acquire_loop costs heap allow_short reserve budgets [] state = ret None"
| "acquire_loop costs heap allow_short reserve budgets (r # rs) state =
     obind (reads (needs_acquisition heap r)) (\<lambda>needs.
     if \<not> needs then acquire_loop costs heap allow_short reserve budgets rs state
     else
     obind (case state of Some x \<Rightarrow> ret x
            | None \<Rightarrow> obind (lift_result (\<lambda>_. budgets)) (\<lambda>b.
                      obind (lift_result (outstanding costs heap None)) (\<lambda>used. ret (b, used)))) (\<lambda>(b, used).
     obind (acquire_one costs heap allow_short reserve b used r) (\<lambda>granted.
     case granted of None \<Rightarrow> ret (Some r)
     | Some used' \<Rightarrow> acquire_loop costs heap allow_short reserve budgets rs (Some (b, used')))))"

definition acquire_many :: "'d cost_hook \<Rightarrow> (nat \<Rightarrow> 'd sequence) \<Rightarrow> bool \<Rightarrow> resources option \<Rightarrow> resources result \<Rightarrow> nat list
    \<Rightarrow> (reservations, nat option) op" where
  "acquire_many costs heap allow_short reserve budgets rs = acquire_loop costs heap allow_short reserve budgets rs None"

definition acquire :: "'d cost_hook \<Rightarrow> (nat \<Rightarrow> 'd sequence) \<Rightarrow> bool \<Rightarrow> resources option \<Rightarrow> resources result \<Rightarrow> nat
    \<Rightarrow> (reservations, bool) op" where
  "acquire costs heap allow_short reserve budgets r =
     obind (acquire_many costs heap allow_short reserve budgets [r]) (\<lambda>failed. ret (failed = None))"

text \<open>The hook of the base class: one slot per token.\<close>

definition base_window_costs :: "'d cost_hook" where
  "base_window_costs q tokens = Inr [(''slots'', tokens)]"

section \<open>Amounts\<close>

lemma amount_simps [simp]: "amount [] n = 0" "amount (AList.update n v d) m = (if m = n then v else amount d m)"
  "amount ((n, v) # d) m = (if m = n then v else amount d m)"
  by (simp_all add: amount_def update_conv')

lemma amount_notin: "n \<notin> fst ` set d \<Longrightarrow> amount d n = 0"
  by (induction d) auto

lemma amount_add_costs:
  "distinct (map fst cs) \<Longrightarrow> amount (add_costs cs d) n = amount d n + amount cs n"
proof (induction cs arbitrary: d)
  case Nil
  then show ?case by (simp add: add_costs_def)
next
  case (Cons c cs)
  then obtain m v where c: "c = (m, v)" by fastforce
  have "add_costs (c # cs) d = add_costs cs (AList.update m (amount d m + v) d)" by (simp add: add_costs_def c)
  with Cons show ?case by (auto simp: c amount_notin)
qed

definition reserve_of :: "resources option \<Rightarrow> string \<Rightarrow> int" where
  "reserve_of reserve n = amount (case reserve of None \<Rightarrow> [] | Some d \<Rightarrow> d) n"

text \<open>A cost fits when every resource it names has a budget for it, beside what is already set aside.\<close>

definition affordable :: "resources \<Rightarrow> resources \<Rightarrow> resources option \<Rightarrow> resources \<Rightarrow> bool" where
  "affordable used budgets reserve cs \<longleftrightarrow>
     (\<forall>(n, c) \<in> set cs. \<exists>b. map_of budgets n = Some b \<and> c + amount used n + reserve_of reserve n \<le> b)"

lemma fits_True: "fits used budgets reserve cs = Inr True \<longleftrightarrow> affordable used budgets reserve cs"
  by (induction used budgets reserve cs rule: fits.induct) (auto simp: affordable_def reserve_of_def split: option.splits)

lemma fits_returns: "fst ` set cs \<subseteq> dom (map_of budgets) \<Longrightarrow> fits used budgets reserve cs = Inr (affordable used budgets reserve cs)"
  by (induction used budgets reserve cs rule: fits.induct) (auto simp: affordable_def reserve_of_def split: option.splits)

lemma fits_same_amounts: "(\<And>n. amount used n = amount used' n) \<Longrightarrow> fits used budgets reserve cs = fits used' budgets reserve cs"
  by (induction cs) (auto split: option.splits)

section \<open>Binary search\<close>

lemma widest_window_spec:
  assumes "lo \<le> hi" "P lo" "\<And>n. lo \<le> n \<Longrightarrow> n \<le> hi \<Longrightarrow> ok n = Inr (P n)" "\<And>a b. lo \<le> a \<Longrightarrow> a \<le> b \<Longrightarrow> b \<le> hi \<Longrightarrow> P b \<Longrightarrow> P a"
  shows "\<exists>n. widest_window ok lo hi = Inr n \<and> lo \<le> n \<and> n \<le> hi \<and> P n \<and> (\<forall>m. n < m \<longrightarrow> m \<le> hi \<longrightarrow> \<not> P m)"
  using assms
proof (induction ok lo hi rule: widest_window.induct)
  case (1 ok lo hi)
  show ?case
  proof (cases "lo < hi")
    case False
    then show ?thesis using 1(3,4) by (subst widest_window.simps) auto
  next
    case True
    define mid where "mid = (lo + hi + 1) div 2"
    have mid: "lo < mid" "mid \<le> hi" using True by (auto simp: mid_def)
    have ok: "ok mid = Inr (P mid)" using 1(5) mid by simp
    have step: "widest_window ok lo hi = (if P mid then widest_window ok mid hi else widest_window ok lo (mid - 1))"
      by (subst widest_window.simps) (simp add: True ok flip: mid_def)
    show ?thesis
    proof (cases "P mid")
      case True
      then show ?thesis
        unfolding step using 1(1) [OF \<open>lo < hi\<close> mid_def, of True] mid 1(5,6) by auto
    next
      case False
      have "\<exists>n. widest_window ok lo (mid - 1) = Inr n \<and> lo \<le> n \<and> n \<le> mid - 1 \<and> P n \<and> (\<forall>m. n < m \<longrightarrow> m \<le> mid - 1 \<longrightarrow> \<not> P m)"
        using 1(2) [OF \<open>lo < hi\<close> mid_def, of False] mid 1(4-6) False by auto
      moreover have "\<not> P m" if "mid \<le> m" "m \<le> hi" for m using False that mid 1(6) [of mid m] by auto
      ultimately show ?thesis unfolding step using False mid by (smt (verit))
    qed
  qed
qed

text \<open>Whatever the hook, the result has passed the check.\<close>

lemma widest_window_sound:
  "widest_window ok lo hi = Inr n \<Longrightarrow> ok lo = Inr True \<Longrightarrow> lo \<le> hi \<Longrightarrow> ok n = Inr True \<and> lo \<le> n \<and> n \<le> hi"
proof (induction ok lo hi rule: widest_window.induct)
  case (1 ok lo hi)
  show ?case
  proof (cases "lo < hi")
    case False
    then show ?thesis using 1(3-5) by (simp add: widest_window.simps)
  next
    case True
    define mid where "mid = (lo + hi + 1) div 2"
    have mid: "lo < mid" "mid \<le> hi" using True by (auto simp: mid_def)
    have "widest_window ok lo hi = rbind (ok mid) (\<lambda>yes. if yes then widest_window ok mid hi else widest_window ok lo (mid - 1))"
      unfolding mid_def by (subst widest_window.simps) (simp add: True Let_def)
    with 1(3) obtain yes where yes: "ok mid = Inr yes" "(if yes then widest_window ok mid hi else widest_window ok lo (mid - 1)) = Inr n"
      by (auto simp: rbind_eq_Inr)
    then show ?thesis
      using 1(1,2) [OF True mid_def, of yes] 1(4) mid by (cases yes) auto
  qed
qed

section \<open>The ledger\<close>

text \<open>What one reservation sets aside of a resource.\<close>

definition held :: "'d cost_hook \<Rightarrow> (nat \<Rightarrow> 'd sequence) \<Rightarrow> string \<Rightarrow> nat \<times> int \<Rightarrow> int" where
  "held costs heap n = (\<lambda>(r, end'). let left = max 0 (end' - submitted_output_count (heap r)) in
     if left = 0 then 0 else (case costs (heap r) left of Inl _ \<Rightarrow> 0 | Inr cs \<Rightarrow> amount cs n))"

definition priced :: "'d cost_hook \<Rightarrow> (nat \<Rightarrow> 'd sequence) \<Rightarrow> nat \<times> int \<Rightarrow> bool" where
  "priced costs heap = (\<lambda>(r, end'). submitted_output_count (heap r) < end'
     \<longrightarrow> (\<exists>cs. costs (heap r) (end' - submitted_output_count (heap r)) = Inr cs))"

definition ledger :: "'d cost_hook \<Rightarrow> (nat \<Rightarrow> 'd sequence) \<Rightarrow> reservations \<Rightarrow> string \<Rightarrow> int" where
  "ledger costs heap R n = sum_list (map (held costs heap n) (reserved_ends R))"

lemma held_simps:
  "end' \<le> submitted_output_count (heap r) \<Longrightarrow> held costs heap n (r, end') = 0"
  "submitted_output_count (heap r) < end' \<Longrightarrow> costs (heap r) (end' - submitted_output_count (heap r)) = Inr cs
    \<Longrightarrow> held costs heap n (r, end') = amount cs n"
  by (simp_all add: held_def Let_def)

lemma priced_simps:
  "end' \<le> submitted_output_count (heap r) \<Longrightarrow> priced costs heap (r, end')"
  "submitted_output_count (heap r) < end'
    \<Longrightarrow> priced costs heap (r, end') \<longleftrightarrow> (\<exists>cs. costs (heap r) (end' - submitted_output_count (heap r)) = Inr cs)"
  by (simp_all add: priced_def)

text \<open>
  The hook of a cache manager: costs are dictionaries, and a longer window never costs less of any
  resource than a shorter one (\<open>Cost hooks are monotone upper bounds over a horizon\<close>).
\<close>

locale window_costs =
  fixes costs :: "'d cost_hook"
  assumes costs_dict: "costs q n = Inr cs \<Longrightarrow> distinct (map fst cs)"
    and costs_mono: "costs q a = Inr cs \<Longrightarrow> costs q b = Inr cs' \<Longrightarrow> 1 \<le> a \<Longrightarrow> a \<le> b \<Longrightarrow> (name, c) \<in> set cs
      \<Longrightarrow> \<exists>c'. (name, c') \<in> set cs' \<and> c \<le> c'"

lemma sum_update:
  fixes f :: "nat \<times> int \<Rightarrow> int"
  assumes "distinct (map fst ds)"
  shows "sum_list (map f (AList.update k v ds))
    = sum_list (map f ds) + f (k, v) - (case map_of ds k of None \<Rightarrow> 0 | Some w \<Rightarrow> f (k, w))"
  using assms by (induction ds) (auto split: option.splits dest: map_of_SomeD)

text \<open>A window of \<open>n\<close> tokens of a request fits.\<close>

definition window_fits :: "'d cost_hook \<Rightarrow> resources option \<Rightarrow> resources \<Rightarrow> resources \<Rightarrow> 'd sequence \<Rightarrow> int \<Rightarrow> bool" where
  "window_fits costs reserve budgets used q n \<longleftrightarrow> (\<exists>cs. costs q n = Inr cs \<and> affordable used budgets reserve cs)"

lemma set_update_subset: "set (AList.update k v ds) \<subseteq> insert (k, v) (set ds)"
  by (induction ds) auto

text \<open>One entry per request, and a positive window.\<close>

definition window_state :: "reservations \<Rightarrow> bool" where
  "window_state R \<longleftrightarrow> distinct (map fst (reserved_ends R)) \<and> 0 < window R"

context window_costs
begin

lemma outstanding_loop_sum:
  "if \<forall>p \<in> set ds. priced costs heap p
   then \<exists>out. outstanding_loop costs heap None ds used = Inr out
     \<and> (\<forall>n. amount out n = amount used n + sum_list (map (held costs heap n) ds))
   else \<exists>x. outstanding_loop costs heap None ds used = Inl x"
proof (induction ds arbitrary: used)
  case Nil
  then show ?case by simp
next
  case (Cons d ds)
  obtain r end' where d: "d = (r, end')" by fastforce
  let ?left = "end' - submitted_output_count (heap r)"
  consider "?left \<le> 0" | x where "0 < ?left" "costs (heap r) ?left = Inl x" | cs where "0 < ?left" "costs (heap r) ?left = Inr cs"
    by (cases "costs (heap r) ?left") force+
  then show ?case
  proof cases
    case 1
    then show ?thesis using Cons.IH [of used] by (simp add: d held_simps priced_simps Let_def)
  next
    case 2
    then show ?thesis by (simp add: d priced_simps Let_def)
  next
    case 3
    then have "priced costs heap d" by (simp add: d priced_simps)
    with 3 show ?thesis
      using Cons.IH [of "add_costs cs used"]
      by (auto simp: d held_simps Let_def amount_add_costs [OF costs_dict [OF 3(2)]] split: if_splits)
  qed
qed

lemma outstanding_ledger:
  "outstanding costs heap None R = Inr out \<Longrightarrow> amount out n = ledger costs heap R n"
  "outstanding costs heap None R = Inr out \<Longrightarrow> p \<in> set (reserved_ends R) \<Longrightarrow> priced costs heap p"
  "\<forall>p \<in> set (reserved_ends R). priced costs heap p \<Longrightarrow> \<exists>out. outstanding costs heap None R = Inr out"
  using outstanding_loop_sum [of "reserved_ends R" heap "[]"]
  by (auto simp: outstanding_def ledger_def split: if_splits)

text \<open>
  The longest window: when the hook prices every length and every resource it names has a budget,
  the search returns, and the window is the longest one that fits.
\<close>

lemma window_length_spec:
  assumes "0 < w" "submitted_output_count q < max_tokens q"
    and priced: "\<And>n. 1 \<le> n \<Longrightarrow> n \<le> min w (max_tokens q - submitted_output_count q)
      \<Longrightarrow> \<exists>cs. costs q n = Inr cs \<and> fst ` set cs \<subseteq> dom (map_of budgets)"
  shows "\<exists>g. window_length costs allow_short reserve budgets used w q = Inr g
    \<and> (let ok = window_fits costs reserve budgets used q in case g of None \<Rightarrow> \<not> ok (min w (max_tokens q - submitted_output_count q)) \<and> (allow_short \<longrightarrow> \<not> ok 1)
       | Some n \<Rightarrow> 1 \<le> n \<and> n \<le> min w (max_tokens q - submitted_output_count q) \<and> ok n
          \<and> (\<forall>m. n < m \<longrightarrow> m \<le> min w (max_tokens q - submitted_output_count q) \<longrightarrow> \<not> ok m)
          \<and> (allow_short \<or> n = min w (max_tokens q - submitted_output_count q)))"
proof -
  let ?hi = "min w (max_tokens q - submitted_output_count q)"
  let ?fits = "window_fits costs reserve budgets used q"
  let ?ok = "\<lambda>n. rbind (costs q n) (fits used budgets reserve)"
  have ok: "?ok n = Inr (?fits n)" if "1 \<le> n" "n \<le> ?hi" for n
    using priced [OF that] fits_returns by (fastforce simp: window_fits_def)
  have hi: "1 \<le> ?hi" using assms(1,2) by simp
  have mono: "?fits a" if h: "1 \<le> a" "a \<le> b" "b \<le> ?hi" "?fits b" for a b
  proof -
    obtain ca cb where c: "costs q a = Inr ca" "costs q b = Inr cb" using priced h by (meson order_trans)
    then have "affordable used budgets reserve cb" using that(4) by (simp add: window_fits_def)
    then have "affordable used budgets reserve ca"
      unfolding affordable_def using costs_mono [OF c that(1,2)] by fastforce
    then show ?thesis using c by (simp add: window_fits_def)
  qed
  show ?thesis
  proof (cases "?fits ?hi \<or> \<not> allow_short \<or> \<not> ?fits 1")
    case True
    then show ?thesis using ok [of ?hi] ok [of 1] hi by (auto simp: window_length_def Let_def)
  next
    case False
    then obtain n where "widest_window ?ok 1 ?hi = Inr n" "1 \<le> n" "n \<le> ?hi" "?fits n" "\<forall>m. n < m \<longrightarrow> m \<le> ?hi \<longrightarrow> \<not> ?fits m"
      using widest_window_spec [of 1 ?hi ?fits ?ok] hi ok mono by blast
    then show ?thesis using False ok [of ?hi] ok [of 1] hi by (auto simp: window_length_def Let_def)
  qed
qed

lemma granted_window_fits:
  assumes "window_length costs allow_short reserve budgets used w q = Inr (Some n)" "0 < w" "submitted_output_count q < max_tokens q"
  shows "1 \<le> n" "n \<le> w" "submitted_output_count q + n \<le> max_tokens q" "window_fits costs reserve budgets used q n"
proof -
  let ?hi = "min w (max_tokens q - submitted_output_count q)" and ?ok = "\<lambda>n. rbind (costs q n) (fits used budgets reserve)"
  have "?ok n = Inr True \<and> 1 \<le> n \<and> n \<le> ?hi"
  proof (cases "?ok ?hi = Inr True")
    case True
    then show ?thesis using assms by (auto simp: window_length_def Let_def)
  next
    case False
    then have "?ok 1 = Inr True" "widest_window ?ok 1 ?hi = Inr n"
      using assms(1) by (auto simp: window_length_def Let_def rbind_eq_Inr split: if_splits)
    then show ?thesis using widest_window_sound [of ?ok 1 ?hi n] assms(2,3) by simp
  qed
  then show "1 \<le> n" "n \<le> w" "submitted_output_count q + n \<le> max_tokens q" "window_fits costs reserve budgets used q n"
    by (auto simp: rbind_eq_Inr window_fits_def fits_True)
qed

text \<open>The ledger is consistent: one entry per request, all priced, and \<open>used\<close> is its sum.\<close>

definition tracks :: "(nat \<Rightarrow> 'd sequence) \<Rightarrow> reservations \<Rightarrow> resources \<Rightarrow> bool" where
  "tracks heap R used \<longleftrightarrow> distinct (map fst (reserved_ends R)) \<and> 0 < window R
     \<and> (\<forall>p \<in> set (reserved_ends R). priced costs heap p) \<and> (\<forall>n. amount used n = ledger costs heap R n)"

lemma acquire_one_tracks:
  assumes "tracks heap R used" "needs_acquisition heap r R"
    and run: "acquire_one costs heap allow_short reserve budgets used r R = (x, R')"
  shows "case x of Inr (Some used') \<Rightarrow> tracks heap R' used' \<and> \<not> needs_acquisition heap r R'
      \<and> window R' = window R \<and> (\<forall>y. y \<noteq> r \<longrightarrow> map_of (reserved_ends R') y = map_of (reserved_ends R) y)
      \<and> (\<forall>n. amount used' n = amount used n
            \<or> (\<exists>b. map_of budgets n = Some b \<and> amount used' n + reserve_of reserve n \<le> b))
    | _ \<Rightarrow> R' = R"
proof (cases "window_length costs allow_short reserve budgets used (window R) (heap r)")
  case (Inl err)
  then show ?thesis using run by (auto simp: acquire_one_def obind_def)
next
  case (Inr g)
  let ?q = "heap r"
  have need: "submitted_output_count ?q < max_tokens ?q" "0 < window R"
    "case map_of (reserved_ends R) r of None \<Rightarrow> True | Some end' \<Rightarrow> end' \<le> submitted_output_count ?q"
    using assms(1,2)
    by (cases "map_of (reserved_ends R) r"; simp add: needs_acquisition_def tracks_def Let_def split: if_splits)+
  show ?thesis
  proof (cases g)
    case None
    then show ?thesis using run Inr by (auto simp: acquire_one_def obind_def)
  next
    case (Some n)
    note g = granted_window_fits [OF Inr [unfolded Some] need(2,1)]
    then obtain cs where cs: "costs ?q n = Inr cs" "affordable used budgets reserve cs" by (auto simp: window_fits_def)
    let ?upto = "submitted_output_count ?q + n"
    have out: "x = Inr (Some (add_costs cs used))" "R' = R\<lparr>reserved_ends := AList.update r ?upto (reserved_ends R)\<rparr>"
      using run Inr Some cs(1) by (auto simp: acquire_one_def obind_def oseq_def)
    have "held costs heap m (r, ?upto) = amount cs m" for m using g(1) cs(1) by (intro held_simps(2)) auto
    moreover have "(case map_of (reserved_ends R) r of None \<Rightarrow> 0 | Some w \<Rightarrow> held costs heap m (r, w)) = 0" for m
      using need(3) by (auto simp: held_simps(1) split: option.splits)
    ultimately have sum: "amount (add_costs cs used) m = ledger costs heap R' m" for m
      using assms(1) amount_add_costs [OF costs_dict [OF cs(1)]]
      by (simp add: out(2) ledger_def tracks_def sum_update)
    have "priced costs heap (r, ?upto)" using g(1) cs(1) by (subst priced_simps) auto
    then have tr: "tracks heap R' (add_costs cs used)"
      using assms(1) sum set_update_subset [of r ?upto "reserved_ends R"] by (auto simp: tracks_def out(2) distinct_update)
    have "\<not> needs_acquisition heap r R'" using g(1) by (simp add: needs_acquisition_def out(2) update_conv' Let_def)
    moreover have "amount (add_costs cs used) m = amount used m
        \<or> (\<exists>b. map_of budgets m = Some b \<and> amount (add_costs cs used) m + reserve_of reserve m \<le> b)" for m
    proof (cases "m \<in> fst ` set cs")
      case False
      then show ?thesis by (simp add: amount_add_costs [OF costs_dict [OF cs(1)]] amount_notin)
    next
      case True
      then obtain c where c: "(m, c) \<in> set cs" by auto
      then have "amount cs m = c" using costs_dict [OF cs(1)] by (simp add: amount_def)
      then show ?thesis using cs(2) c by (force simp: affordable_def amount_add_costs [OF costs_dict [OF cs(1)]])
    qed
    ultimately show ?thesis using tr by (simp add: out update_conv')
  qed
qed

text \<open>What an acquisition may do, from \<open>R\<close> to \<open>R'\<close> with result \<open>x\<close>.\<close>

definition acquired :: "(nat \<Rightarrow> 'd sequence) \<Rightarrow> bool \<Rightarrow> resources option \<Rightarrow> resources \<Rightarrow> nat list \<Rightarrow> reservations
    \<Rightarrow> nat option result \<Rightarrow> reservations \<Rightarrow> bool" where
  "acquired heap allow_short reserve budgets rs R x R' \<longleftrightarrow> window_state R' \<and> window R' = window R
     \<and> (\<forall>y. \<not> needs_acquisition heap y R \<or> y \<notin> set rs \<longrightarrow> map_of (reserved_ends R') y = map_of (reserved_ends R) y)
     \<and> ((\<forall>p \<in> set (reserved_ends R). priced costs heap p) \<longrightarrow> (\<forall>p \<in> set (reserved_ends R'). priced costs heap p))
     \<and> (\<forall>n. ledger costs heap R' n = ledger costs heap R n
          \<or> (\<exists>b. map_of budgets n = Some b \<and> ledger costs heap R' n + reserve_of reserve n \<le> b))
     \<and> (x = Inr None \<longrightarrow> (\<forall>r \<in> set rs. \<not> needs_acquisition heap r R'))
     \<and> (\<forall>r. x = Inr (Some r) \<longrightarrow> r \<in> set rs \<and> needs_acquisition heap r R'
          \<and> (\<exists>used. tracks heap R' used \<and> window_length costs allow_short reserve budgets used (window R) (heap r) = Inr None))"

lemma needs_same: "map_of (reserved_ends R') r = map_of (reserved_ends R) r \<Longrightarrow> needs_acquisition heap r R' = needs_acquisition heap r R"
  by (simp add: needs_acquisition_def)

lemma acquired_same: "window_state R \<Longrightarrow> acquired heap allow_short reserve budgets rs R (Inl err) R"
  by (simp add: acquired_def)

lemma acquired_after:
  assumes "tracks heap R used" "tracks heap R1 used1" "\<not> needs_acquisition heap r R1" "window R1 = window R"
    "needs_acquisition heap r R"
    "\<forall>y. y \<noteq> r \<longrightarrow> map_of (reserved_ends R1) y = map_of (reserved_ends R) y"
    "\<forall>n. amount used1 n = amount used n \<or> (\<exists>b. map_of budgets n = Some b \<and> amount used1 n + reserve_of reserve n \<le> b)"
    and later: "acquired heap allow_short reserve budgets rs R1 x R'"
  shows "acquired heap allow_short reserve budgets (r # rs) R x R'"
proof -
  have same: "map_of (reserved_ends R') y = map_of (reserved_ends R) y" if "\<not> needs_acquisition heap y R \<or> y \<notin> set (r # rs)" for y
  proof -
    have "y \<noteq> r" using that assms(5) by auto
    then have "map_of (reserved_ends R1) y = map_of (reserved_ends R) y" using assms(6) by simp
    moreover from this needs_same have "needs_acquisition heap y R1 = needs_acquisition heap y R" by blast
    ultimately show ?thesis using later that by (simp add: acquired_def)
  qed
  have "\<not> needs_acquisition heap r R'" using later assms(3) needs_same [of R' r R1 heap] by (simp add: acquired_def)
  moreover have "ledger costs heap R' n = ledger costs heap R n
      \<or> (\<exists>b. map_of budgets n = Some b \<and> ledger costs heap R' n + reserve_of reserve n \<le> b)" for n
  proof -
    have "ledger costs heap R1 n = ledger costs heap R n
      \<or> (\<exists>b. map_of budgets n = Some b \<and> ledger costs heap R1 n + reserve_of reserve n \<le> b)"
      using assms(1,2,7) by (simp add: tracks_def)
    moreover have "ledger costs heap R' n = ledger costs heap R1 n
      \<or> (\<exists>b. map_of budgets n = Some b \<and> ledger costs heap R' n + reserve_of reserve n \<le> b)"
      using later by (simp add: acquired_def)
    ultimately show ?thesis by metis
  qed
  ultimately show ?thesis using same later assms(2,4) by (simp add: acquired_def tracks_def)
qed

lemma acquire_loop_acquired:
  assumes "acquire_loop costs heap allow_short reserve (Inr budgets) rs state R = (x, R')"
    and "case state of None \<Rightarrow> window_state R | Some (b, used) \<Rightarrow> b = budgets \<and> tracks heap R used"
  shows "acquired heap allow_short reserve budgets rs R x R'"
  using assms
proof (induction rs arbitrary: state R)
  case Nil
  then show ?case by (auto simp: acquired_def window_state_def tracks_def split: option.splits)
next
  case (Cons r rs)
  have ws: "window_state R" using Cons.prems(2) by (auto simp: window_state_def tracks_def split: option.splits)
  show ?case
  proof (cases "needs_acquisition heap r R")
    case False
    then have "acquired heap allow_short reserve budgets rs R x R'"
      using Cons.IH [OF _ Cons.prems(2)] Cons.prems(1) by (simp add: obind_def)
    moreover from this False have "\<not> needs_acquisition heap r R'"
      using needs_same [of R' r R heap] by (simp add: acquired_def)
    ultimately show ?thesis by (auto simp: acquired_def)
  next
    case True
    let ?rest = "\<lambda>used. obind (acquire_one costs heap allow_short reserve budgets used r) (\<lambda>granted. case granted of
        None \<Rightarrow> ret (Some r) | Some used' \<Rightarrow> acquire_loop costs heap allow_short reserve (Inr budgets) rs (Some (budgets, used')))"
    consider err where "x = Inl err" "R' = R" | used where "tracks heap R used" "?rest used R = (x, R')"
    proof (cases state)
      case (Some p)
      then show ?thesis using Cons.prems True that(2) by (cases p) (simp add: obind_def)
    next
      case None
      show ?thesis
      proof (cases "outstanding costs heap None R")
        case (Inl err)
        then show ?thesis using Cons.prems(1) True None that(1) by (auto simp: obind_def)
      next
        case (Inr used)
        then have "tracks heap R used" using ws outstanding_ledger by (auto simp: tracks_def window_state_def)
        then show ?thesis using Cons.prems(1) True None Inr that(2) by (simp add: obind_def)
      qed
    qed
    then show ?thesis
    proof cases
      case 1
      then show ?thesis using ws by (simp add: acquired_same)
    next
      case (2 used)
      obtain y R1 where one: "acquire_one costs heap allow_short reserve budgets used r R = (y, R1)" by fastforce
      note step = acquire_one_tracks [OF 2(1) True one]
      consider err where "y = Inl err" | "y = Inr None" | used' where "y = Inr (Some used')" by (metis sum.exhaust option.exhaust)
      then show ?thesis
      proof cases
        case (1 err)
        then show ?thesis using step 2(2) one ws by (auto simp: obind_def acquired_same)
      next
        case a: 2
        then have "window_length costs allow_short reserve budgets used (window R) (heap r) = Inr None"
          using one by (auto simp: acquire_one_def obind_def oseq_def split: sum.splits option.splits)
        then show ?thesis
          using step 2 one ws True a by (auto simp: obind_def acquired_def)
      next
        case (3 used')
        then have "acquired heap allow_short reserve budgets rs R1 x R'"
          using step 2(2) one by (intro Cons.IH [of "Some (budgets, used')"]) (simp_all add: obind_def)
        then show ?thesis
          using step 3 2(1) True acquired_after [of heap R used R1 used' r] by simp
      qed
    qed
  qed
qed

end

section \<open>Properties\<close>

interpretation base_hook: window_costs base_window_costs
  by unfold_locales (auto simp: base_window_costs_def)

lemma init_window_state: "init_reservations w = Inr R \<Longrightarrow> window_state R"
  by (auto simp: init_reservations_def window_state_def split: if_splits)

lemma release_window_state: "window_state R \<Longrightarrow> window_state (release_window r R)"
  by (simp add: window_state_def release_window_def distinct_delete)


text \<open>
  C32. The window of a request: when the costs of every length are defined and budgeted, \<open>_acquire\<close> always decides,
  and grants the longest window, up to the configured length and the tokens left, that fits; a window that is
  shorter than that is granted only with \<open>allow_short\<close>, and a request is refused only when the whole window does not
  fit and, with \<open>allow_short\<close>, not even one token fits.  The binary search therefore agrees with trying every length.
\<close>

theorem granted_window_is_longest:
  assumes "window_costs costs" "0 < w" "submitted_output_count q < max_tokens q"
    and "\<And>n. 1 \<le> n \<Longrightarrow> n \<le> min w (max_tokens q - submitted_output_count q)
      \<Longrightarrow> \<exists>cs. costs q n = Inr cs \<and> fst ` set cs \<subseteq> dom (map_of budgets)"
  shows "let whole = min w (max_tokens q - submitted_output_count q); ok = window_fits costs reserve budgets used q in
    \<exists>g. window_length costs allow_short reserve budgets used w q = Inr g
      \<and> (case g of None \<Rightarrow> \<not> ok whole \<and> (allow_short \<longrightarrow> \<not> ok 1)
         | Some n \<Rightarrow> 1 \<le> n \<and> n \<le> whole \<and> ok n \<and> (\<forall>m. n < m \<longrightarrow> m \<le> whole \<longrightarrow> \<not> ok m) \<and> (allow_short \<or> n = whole))"
  using window_costs.window_length_spec [OF assms] by (simp only: Let_def)

text \<open>Two requests decode with a window of four tokens; the second already has a reservation.\<close>

definition sample_reservations :: reservations where
  "sample_reservations = \<lparr>window = 4, reserved_ends = [(2, 6)]\<rparr>"


theorem granted_window_is_longest_witness:
  "window_length base_window_costs True None [(''slots'', 3)] [] 8 sample_sequence = Inr (Some 3)
   \<and> window_fits base_window_costs None [(''slots'', 3)] [] sample_sequence 3
   \<and> \<not> window_fits base_window_costs None [(''slots'', 3)] [] sample_sequence 4"
proof -
  have q: "submitted_output_count sample_sequence = 3" "max_tokens sample_sequence = 16" by code_simp+
  have fit: "window_fits base_window_costs None [(''slots'', 3)] [] sample_sequence n \<longleftrightarrow> n \<le> 3" for n
    by (simp add: window_fits_def base_window_costs_def affordable_def reserve_of_def)
  have pre: "\<exists>cs. base_window_costs sample_sequence n = Inr cs \<and> fst ` set cs \<subseteq> dom (map_of [(''slots'', 3 :: int)])" for n
    by (simp add: base_window_costs_def)
  have min: "min 8 (max_tokens sample_sequence - submitted_output_count sample_sequence) = 8" by (simp add: q)
  obtain g where g: "window_length base_window_costs True None [(''slots'', 3)] [] 8 sample_sequence = Inr g"
    "case g of None \<Rightarrow> \<not> 8 \<le> (3 :: int) \<and> (True \<longrightarrow> \<not> 1 \<le> (3 :: int))
     | Some n \<Rightarrow> 1 \<le> n \<and> n \<le> 8 \<and> n \<le> 3 \<and> (\<forall>m. n < m \<longrightarrow> m \<le> 8 \<longrightarrow> \<not> m \<le> 3) \<and> (True \<or> n = 8)"
    using granted_window_is_longest [OF base_hook.window_costs_axioms _ _ pre, of 8 None "[]" True] q(1,2)
    unfolding Let_def min fit by auto
  have "g = Some 3"
  proof (cases g)
    case None
    then show ?thesis using g(2) by simp
  next
    case (Some n)
    then have "n \<le> 3" "\<forall>m. n < m \<longrightarrow> m \<le> 8 \<longrightarrow> \<not> m \<le> 3" using g(2) by simp_all
    with spec [OF this(2), of 3] Some show ?thesis by simp
  qed
  then show ?thesis using g(1) fit by simp
qed

end
