(* ===== verification/Page_Pool.thy ===== *)
theory Page_Pool
  imports Decode_Windows
begin

text \<open>
  Ownership of whole pages (\<^verbatim>\<open>engine/cache_manager/quantized_pages.py\<close>), and the hooks by which the
  cache managers price a decode window: the base class, StreamingLLM, H2O, QuEST and the quantized
  cache.  Each is shown to be a \<open>window_costs\<close> hook.
\<close>

section \<open>The page pool\<close>

record page_pool =
  pool_page_size :: int
  max_length :: int
  free_pages :: "nat list"
  pool_pages :: "(nat, nat list) dict"
  pool_lengths :: "(nat, int) dict"

record page_append =
  append_start :: int
  append_end :: int
  append_pages :: "nat list"

definition init_pool :: "int \<Rightarrow> int \<Rightarrow> int \<Rightarrow> page_pool result" where
  "init_pool num_pages page_size max_len =
     (if min num_pages (min page_size max_len) \<le> 0
      then Inl (ValueError ''Page capacity, size, and maximum length must be positive.'')
      else Inr \<lparr>pool_page_size = page_size, max_length = max_len, free_pages = [0..<nat num_pages],
                pool_pages = [], pool_lengths = []\<rparr>)"

definition pool_length :: "page_pool \<Rightarrow> nat \<Rightarrow> int" where
  "pool_length P r = (case map_of (pool_lengths P) r of None \<Rightarrow> 0 | Some n \<Rightarrow> n)"

text \<open>Pages that hold \<open>n\<close> tokens.\<close>

definition pages_for :: "int \<Rightarrow> int \<Rightarrow> int" where
  "pages_for page n = (n + page - 1) div page"

definition append_cost :: "page_pool \<Rightarrow> nat \<Rightarrow> int \<Rightarrow> int result" where
  "append_cost P r k =
     (if k < 0 then Inl (ValueError ''Append token count cannot be negative.'')
      else if max_length P < pool_length P r + k then Inl (ValueError ''Append exceeds max_model_len.'')
      else Inr (pages_for (pool_page_size P) (pool_length P r + k) - pages_for (pool_page_size P) (pool_length P r)))"

text \<open>\<open>append\<close>: the last \<open>needed\<close> free pages move to the request.\<close>

definition append_tokens :: "nat \<Rightarrow> int \<Rightarrow> (page_pool, page_append) op" where
  "append_tokens r k =
     obind (lift_result (\<lambda>P. append_cost P r k)) (\<lambda>needed.
     obind (reads id) (\<lambda>P.
     let start = pool_length P r; keep = length (free_pages P) - nat needed;
         added = drop keep (free_pages P);
         old = (case map_of (pool_pages P) r of None \<Rightarrow> [] | Some ps \<Rightarrow> ps);
         first = nat (start div pool_page_size P); last' = nat (pages_for (pool_page_size P) (start + k))
     in oseq (raise_if (int (length (free_pages P)) < needed) (RuntimeError ''Out of quantized KV pages''))
        (oseq (writes (\<lambda>P. P\<lparr>free_pages := take keep (free_pages P),
                 pool_pages := AList.update r (old @ added) (pool_pages P),
                 pool_lengths := AList.update r (start + k) (pool_lengths P)\<rparr>))
        (ret \<lparr>append_start = start, append_end = start + k,
              append_pages = (if k = 0 then [] else drop first (take last' (old @ added)))\<rparr>))))"

definition release_pages :: "nat \<Rightarrow> (page_pool, unit) op" where
  "release_pages r =
     obind (reads (\<lambda>P. map_of (pool_pages P) r)) (\<lambda>owned. case owned of
       None \<Rightarrow> raise_error (ValueError ''Unknown quantized cache sequence'')
     | Some ps \<Rightarrow> oseq (writes (\<lambda>P. P\<lparr>free_pages := free_pages P @ ps, pool_pages := AList.delete r (pool_pages P)\<rparr>))
         (obind (reads (\<lambda>P. map_of (pool_lengths P) r)) (\<lambda>len.
          oseq (raise_if (len = None) (KeyError ''seq_id''))
          (writes (\<lambda>P. P\<lparr>pool_lengths := AList.delete r (pool_lengths P)\<rparr>)))))"

section \<open>Window hooks\<close>

text \<open>A dictionary built by assignments, where a later key replaces an earlier one.\<close>

definition dict_of :: "('k \<times> 'v) list \<Rightarrow> ('k, 'v) dict" where
  "dict_of kvs = fold (\<lambda>(k, v) d. AList.update k v d) kvs []"

text \<open>The decimal digits of \<open>f"layer_{layer}"\<close>.\<close>

fun decimal :: "nat \<Rightarrow> string" where
  "decimal n = (if n < 10 then [char_of (48 + n)] else decimal (n div 10) @ [char_of (48 + n mod 10)])"

declare decimal.simps [simp del]

definition layer_name :: "nat \<Rightarrow> string" where
  "layer_name layer = ''layer_'' @ decimal layer"

text \<open>\<open>chain_physical_residency\<close>: the stored length of a request in every layer.\<close>

definition chain_physical_residency :: "nat list \<Rightarrow> (nat \<Rightarrow> (nat, nat) dict) \<Rightarrow> (nat \<Rightarrow> nat \<Rightarrow> int) \<Rightarrow> nat \<Rightarrow> int list result" where
  "chain_physical_residency layers rows lens r =
     rfold (\<lambda>layer acc. case map_of (rows layer) r of
        None \<Rightarrow> Inl (RuntimeError ''Missing chain row'') | Some row \<Rightarrow> Inr (acc @ [lens layer row])) layers []"

definition streaming_window_costs :: "int \<Rightarrow> int \<Rightarrow> nat list \<Rightarrow> (nat \<Rightarrow> int list result) \<Rightarrow> 'd cost_hook" where
  "streaming_window_costs sink recent layers residency q tokens =
     rbind (residency (seq_id q)) (\<lambda>residents.
     let tokens = max 0 tokens; budget = sink + recent in
     Inr (dict_of (map (\<lambda>(layer, resident). (layer_name layer,
       if 0 < budget then min tokens (max 1 (2 * budget - resident)) else tokens)) (zip layers residents))))"

definition decode_append_peak :: "bool \<Rightarrow> int \<Rightarrow> int \<Rightarrow> int \<Rightarrow> int" where
  "decode_append_peak eviction trigger resident tokens =
     (if eviction \<and> tokens \<noteq> 0 then min (resident + tokens) (max (resident + 1) trigger) else resident + tokens)"

text \<open>\<open>trigger\<close> is \<open>h2o_decode_budget + h2o_decode_eviction_interval\<close>.\<close>

definition h2o_window_costs :: "bool \<Rightarrow> int \<Rightarrow> nat list \<Rightarrow> (nat \<Rightarrow> int list result) \<Rightarrow> 'd cost_hook" where
  "h2o_window_costs eviction trigger layers residency q tokens =
     rbind (residency (seq_id q)) (\<lambda>residents.
     let tokens = max 0 tokens in
     Inr (dict_of (map (\<lambda>(layer, resident). (layer_name layer, decode_append_peak eviction trigger resident tokens - resident))
       (zip layers residents))))"

definition required_new_pages :: "int \<Rightarrow> (nat, nat) dict \<Rightarrow> (nat \<Rightarrow> int) \<Rightarrow> nat \<Rightarrow> int \<Rightarrow> int" where
  "required_new_pages page_size rows lens r k =
     (let cur_len = (case map_of rows r of None \<Rightarrow> 0 | Some row \<Rightarrow> lens row)
      in max 0 (pages_for page_size (cur_len + k) - pages_for page_size cur_len))"

definition quest_window_costs :: "int \<Rightarrow> (nat, nat) dict \<Rightarrow> (nat \<Rightarrow> int) \<Rightarrow> 'd cost_hook" where
  "quest_window_costs page_size rows lens q tokens =
     Inr [(''slots'', required_new_pages page_size rows lens (seq_id q) tokens * page_size)]"

definition quantized_window_costs :: "page_pool \<Rightarrow> 'd cost_hook" where
  "quantized_window_costs P q tokens =
     rbind (append_cost P (seq_id q) tokens) (\<lambda>n. Inr [(''slots'', n * pool_page_size P)])"

section \<open>The hooks are monotone\<close>

lemma dict_of_distinct: "distinct (map fst (dict_of kvs))"
proof -
  have "distinct (map fst (fold (\<lambda>(k, v) d. AList.update k v d) kvs d))" if "distinct (map fst d)" for d
    using that by (induction kvs arbitrary: d) (auto simp: distinct_update)
  then show ?thesis by (simp add: dict_of_def)
qed

lemma map_of_dict_of: "map_of (dict_of kvs) k = map_of (rev kvs) k"
proof -
  have "map_of (fold (\<lambda>(k, v) d. AList.update k v d) kvs d) k = (case map_of (rev kvs) k of None \<Rightarrow> map_of d k | Some v \<Rightarrow> Some v)" for d
    by (induction kvs arbitrary: d) (auto simp: update_conv' map_add_def split: option.splits)
  then show ?thesis by (simp add: dict_of_def split: option.splits)
qed

lemma in_dict_of: "(k, v) \<in> set (dict_of kvs) \<longleftrightarrow> map_of (rev kvs) k = Some v"
  using map_of_dict_of [of kvs] dict_of_distinct [of kvs] by (metis map_of_eq_Some_iff)

lemma dict_of_mono:
  assumes "(k, c) \<in> set (dict_of (map (\<lambda>x. (name x, f x)) xs))" "\<And>x. x \<in> set xs \<Longrightarrow> f x \<le> (g x :: int)"
  shows "\<exists>c'. (k, c') \<in> set (dict_of (map (\<lambda>x. (name x, g x)) xs)) \<and> c \<le> c'"
proof -
  have "map_of (map (\<lambda>x. (name x, f x)) ys) k = Some c \<Longrightarrow> \<exists>c'. map_of (map (\<lambda>x. (name x, g x)) ys) k = Some c' \<and> c \<le> c'"
    if "set ys \<subseteq> set xs" for ys using that assms(2) by (induction ys) auto
  from this [of "rev xs"] assms(1) show ?thesis by (simp add: in_dict_of rev_map)
qed

lemma dict_of_mono2:
  assumes "(k, c) \<in> set (dict_of (map2 (\<lambda>x y. (name x, f x y)) xs ys))" "\<And>x y. f x y \<le> (g x y :: int)"
  shows "\<exists>c'. (k, c') \<in> set (dict_of (map2 (\<lambda>x y. (name x, g x y)) xs ys)) \<and> c \<le> c'"
  using dict_of_mono [of k c "\<lambda>p. name (fst p)" "\<lambda>p. f (fst p) (snd p)" "zip xs ys" "\<lambda>p. g (fst p) (snd p)"] assms
  by (simp add: case_prod_unfold)

lemma pages_for_mono: "0 < page \<Longrightarrow> a \<le> b \<Longrightarrow> pages_for page a \<le> pages_for page b"
  by (simp add: pages_for_def zdiv_mono1)

interpretation streaming_hook: window_costs "streaming_window_costs sink recent layers residency"
  for sink :: int and recent :: int and layers :: "nat list" and residency :: "nat \<Rightarrow> int list result"
proof unfold_locales
  fix q :: "'d sequence" and n :: int and cs
  assume "streaming_window_costs sink recent layers residency q n = Inr cs"
  then show "distinct (map fst cs)" by (auto simp: streaming_window_costs_def rbind_eq_Inr Let_def dict_of_distinct)
next
  fix q :: "'d sequence" and a b cs cs' name c
  assume h: "streaming_window_costs sink recent layers residency q a = Inr cs"
    "streaming_window_costs sink recent layers residency q b = Inr cs'" "1 \<le> a" "a \<le> b" "(name, c) \<in> set cs"
  then show "\<exists>c'. (name, c') \<in> set cs' \<and> c \<le> c'"
    by (auto simp: streaming_window_costs_def rbind_eq_Inr Let_def elim!: dict_of_mono2)
       (simp_all add: min_def max_def)
qed

interpretation h2o_hook: window_costs "h2o_window_costs eviction trigger layers residency"
  for eviction :: bool and trigger :: int and layers :: "nat list" and residency :: "nat \<Rightarrow> int list result"
proof unfold_locales
  fix q :: "'d sequence" and n :: int and cs
  assume "h2o_window_costs eviction trigger layers residency q n = Inr cs"
  then show "distinct (map fst cs)" by (auto simp: h2o_window_costs_def rbind_eq_Inr Let_def dict_of_distinct)
next
  fix q :: "'d sequence" and a b cs cs' name c
  assume h: "h2o_window_costs eviction trigger layers residency q a = Inr cs"
    "h2o_window_costs eviction trigger layers residency q b = Inr cs'" "1 \<le> a" "a \<le> b" "(name, c) \<in> set cs"
  then show "\<exists>c'. (name, c') \<in> set cs' \<and> c \<le> c'"
    by (auto simp: h2o_window_costs_def rbind_eq_Inr Let_def decode_append_peak_def elim!: dict_of_mono2)
       (simp_all add: min_def max_def)
qed

lemma quest_hook:
  assumes "0 < page_size"
  shows "window_costs (quest_window_costs page_size rows lens)"
proof -
  have "required_new_pages page_size rows lens r a \<le> required_new_pages page_size rows lens r b" if "a \<le> b" for r a b
    using that pages_for_mono [OF assms, of "(case map_of rows r of None \<Rightarrow> 0 | Some row \<Rightarrow> lens row) + a"
        "(case map_of rows r of None \<Rightarrow> 0 | Some row \<Rightarrow> lens row) + b"] by (simp add: required_new_pages_def Let_def)
  then show ?thesis
    using assms by unfold_locales (auto simp: quest_window_costs_def intro: mult_right_mono)
qed

lemma quantized_hook:
  assumes "0 < pool_page_size P"
  shows "window_costs (quantized_window_costs P)"
  using assms
  by unfold_locales
     (auto simp: quantized_window_costs_def rbind_eq_Inr append_cost_def split: if_splits intro!: mult_right_mono pages_for_mono)

section \<open>The pool invariant\<close>

definition pages_of :: "page_pool \<Rightarrow> nat \<Rightarrow> nat list" where
  "pages_of P r = (case map_of (pool_pages P) r of None \<Rightarrow> [] | Some ps \<Rightarrow> ps)"

text \<open>
  Every page is free or belongs to one request, and a request owns exactly the pages its tokens need.
\<close>

definition pool_ok :: "nat \<Rightarrow> page_pool \<Rightarrow> bool" where
  "pool_ok n P \<longleftrightarrow> 0 < pool_page_size P \<and> distinct (map fst (pool_pages P)) \<and> distinct (map fst (pool_lengths P))
     \<and> fst ` set (pool_pages P) = fst ` set (pool_lengths P)
     \<and> mset (free_pages P) + mset (concat (map snd (pool_pages P))) = mset [0..<n]
     \<and> (\<forall>r. 0 \<le> pool_length P r \<and> pool_length P r \<le> max 0 (max_length P)
          \<and> int (length (pages_of P r)) = pages_for (pool_page_size P) (pool_length P r))"

lemma keys_delete: "fst ` set (AList.delete r ds) = fst ` set ds - {r}"
  using arg_cong [OF delete_keys [of r ds], of set] by simp

lemma concat_update:
  "distinct (map fst ds) \<Longrightarrow> mset (concat (map snd (AList.update k (case map_of ds k of None \<Rightarrow> xs | Some ys \<Rightarrow> ys @ xs) ds)))
    = mset (concat (map snd ds)) + mset xs"
  by (induction ds) (auto split: option.splits dest: map_of_SomeD)

lemma concat_delete:
  "distinct (map fst ds) \<Longrightarrow> map_of ds k = Some xs
    \<Longrightarrow> mset (concat (map snd (AList.delete k ds))) + mset xs = mset (concat (map snd ds))"
proof (induction ds)
  case (Cons d ds)
  then show ?case by (cases d) auto
qed simp

lemma init_pool_ok: "init_pool n page m = Inr P \<Longrightarrow> pool_ok (nat n) P"
  by (auto simp: init_pool_def pool_ok_def pool_length_def pages_of_def pages_for_def split: if_splits)

lemma pages_for_bounds:
  assumes "0 < page"
  shows "n \<le> pages_for page n * page" "pages_for page n * page < n + page" "0 \<le> n \<Longrightarrow> 0 \<le> pages_for page n"
proof -
  have "pages_for page n * page = (n + page - 1) - (n + page - 1) mod page"
    by (simp add: pages_for_def minus_mod_eq_div_mult [symmetric])
  moreover have "0 \<le> (n + page - 1) mod page" "(n + page - 1) mod page < page" using assms by simp_all
  ultimately show "n \<le> pages_for page n * page" "pages_for page n * page < n + page" by linarith+
  show "0 \<le> n \<Longrightarrow> 0 \<le> pages_for page n" using assms by (simp add: pages_for_def pos_imp_zdiv_nonneg_iff)
qed

text \<open>What a successful append does.\<close>

definition appended :: "nat \<Rightarrow> int \<Rightarrow> page_pool \<Rightarrow> page_pool" where
  "appended r k P = (let needed = nat (pages_for (pool_page_size P) (pool_length P r + k) - pages_for (pool_page_size P) (pool_length P r));
       keep = length (free_pages P) - needed
     in P\<lparr>free_pages := take keep (free_pages P),
          pool_pages := AList.update r (pages_of P r @ drop keep (free_pages P)) (pool_pages P),
          pool_lengths := AList.update r (pool_length P r + k) (pool_lengths P)\<rparr>)"

lemma append_tokens_run:
  "append_tokens r k P = (case append_cost P r k of Inl err \<Rightarrow> (Inl err, P)
     | Inr needed \<Rightarrow> if int (length (free_pages P)) < needed then (Inl (RuntimeError ''Out of quantized KV pages''), P)
         else (Inr \<lparr>append_start = pool_length P r, append_end = pool_length P r + k,
                append_pages = (if k = 0 then [] else drop (nat (pool_length P r div pool_page_size P))
                  (take (nat (pages_for (pool_page_size P) (pool_length P r + k))) (pages_of (appended r k P) r)))\<rparr>, appended r k P))"
  by (auto simp: append_tokens_def obind_def oseq_def Let_def appended_def append_cost_def pages_of_def update_conv'
      split: sum.splits option.splits)

lemma appended_lengths: "pool_length (appended r k P) x = (if x = r then pool_length P r + k else pool_length P x)"
  by (simp add: appended_def pool_length_def Let_def update_conv')

lemma appended_pages:
  "pages_of (appended r k P) x = (if x = r then pages_of P r @ drop (length (free_pages P)
     - nat (pages_for (pool_page_size P) (pool_length P r + k) - pages_for (pool_page_size P) (pool_length P r))) (free_pages P)
     else pages_of P x)"
  by (simp add: appended_def pages_of_def Let_def update_conv')

lemma append_keeps_pool:
  assumes "pool_ok n P" "append_cost P r k = Inr needed" "needed \<le> int (length (free_pages P))"
  shows "pool_ok n (appended r k P)"
proof -
  let ?page = "pool_page_size P" and ?len = "pool_length P r"
  let ?keep = "length (free_pages P) - nat needed"
  have k: "0 \<le> k" "?len + k \<le> max_length P" and needed: "needed = pages_for ?page (?len + k) - pages_for ?page ?len"
    using assms(2) by (auto simp: append_cost_def split: if_splits)
  have ok: "0 < ?page" "0 \<le> ?len" "int (length (pages_of P r)) = pages_for ?page ?len" using assms(1) by (auto simp: pool_ok_def)
  have "0 \<le> needed" using pages_for_mono [OF ok(1), of ?len "?len + k"] k needed by simp
  have app: "appended r k P = P\<lparr>free_pages := take ?keep (free_pages P),
      pool_pages := AList.update r (pages_of P r @ drop ?keep (free_pages P)) (pool_pages P),
      pool_lengths := AList.update r (?len + k) (pool_lengths P)\<rparr>"
    by (simp add: appended_def needed Let_def)
  have "pages_of P r @ drop ?keep (free_pages P)
      = (case map_of (pool_pages P) r of None \<Rightarrow> drop ?keep (free_pages P) | Some ys \<Rightarrow> ys @ drop ?keep (free_pages P))"
    by (simp add: pages_of_def split: option.splits)
  then have "mset (concat (map snd (pool_pages (appended r k P)))) = mset (concat (map snd (pool_pages P))) + mset (drop ?keep (free_pages P))"
    using concat_update [of "pool_pages P" r "drop ?keep (free_pages P)"] assms(1) by (simp add: app pool_ok_def)
  then have "mset (free_pages (appended r k P)) + mset (concat (map snd (pool_pages (appended r k P))))
      = (mset (take ?keep (free_pages P)) + mset (drop ?keep (free_pages P))) + mset (concat (map snd (pool_pages P)))"
    by (simp add: app)
  also have "\<dots> = mset (free_pages P) + mset (concat (map snd (pool_pages P)))" by (simp flip: mset_append)
  finally have pages: "mset (free_pages (appended r k P)) + mset (concat (map snd (pool_pages (appended r k P)))) = mset [0..<n]"
    using assms(1) by (simp add: pool_ok_def)
  have "int (length (pages_of (appended r k P) x)) = pages_for ?page (pool_length (appended r k P) x)" for x
    using assms(1,3) ok(3) \<open>0 \<le> needed\<close> needed by (simp add: appended_pages appended_lengths pool_ok_def nat_diff_distrib)
  moreover have "0 \<le> pool_length (appended r k P) x \<and> pool_length (appended r k P) x \<le> max 0 (max_length P)" for x
    using assms(1) k ok(2) by (auto simp: appended_lengths pool_ok_def max_def)
  moreover have "fst ` set (pool_pages (appended r k P)) = fst ` set (pool_lengths (appended r k P))"
    using assms(1) by (simp add: app pool_ok_def dom_update)
  ultimately show ?thesis
    using assms(1) pages by (simp add: pool_ok_def app distinct_update)
qed

lemma release_pages_run:
  assumes "pool_ok n P"
  shows "release_pages r P = (case map_of (pool_pages P) r of None \<Rightarrow> (Inl (ValueError ''Unknown quantized cache sequence''), P)
     | Some ps \<Rightarrow> (Inr (), P\<lparr>free_pages := free_pages P @ ps, pool_pages := AList.delete r (pool_pages P),
                                pool_lengths := AList.delete r (pool_lengths P)\<rparr>))"
proof (cases "map_of (pool_pages P) r")
  case None
  then show ?thesis by (simp add: release_pages_def obind_def)
next
  case (Some ps)
  then have "r \<in> fst ` set (pool_lengths P)"
    using assms map_of_SomeD [OF Some] by (force simp: pool_ok_def)
  then have "map_of (pool_lengths P) r \<noteq> None" by (simp add: map_of_eq_None_iff)
  then show ?thesis using Some by (simp add: release_pages_def obind_def oseq_def)
qed

lemma release_keeps_pool:
  assumes "pool_ok n P" shows "pool_ok n (snd (release_pages r P))"
proof (cases "map_of (pool_pages P) r")
  case None
  then show ?thesis using assms by (simp add: release_pages_run [OF assms])
next
  case (Some ps)
  let ?P = "P\<lparr>free_pages := free_pages P @ ps, pool_pages := AList.delete r (pool_pages P), pool_lengths := AList.delete r (pool_lengths P)\<rparr>"
  have "pool_length ?P x = (if x = r then 0 else pool_length P x)" "pages_of ?P x = (if x = r then [] else pages_of P x)" for x
    by (simp_all add: pool_length_def pages_of_def delete_conv')
  moreover have "mset (free_pages P @ ps) + mset (concat (map snd (AList.delete r (pool_pages P)))) = mset [0..<n]"
  proof -
    have d: "distinct (map fst (pool_pages P))" using assms by (simp add: pool_ok_def)
    show ?thesis using assms by (simp add: pool_ok_def concat_delete [OF d Some, symmetric] ac_simps)
  qed
  ultimately show ?thesis
    using assms by (simp add: release_pages_run [OF assms] Some pool_ok_def distinct_delete pages_for_def keys_delete)
qed

text \<open>
  C33. Page ownership: appending tokens to a request keeps every page either free or owned by one request and gives
  each request exactly the pages its tokens need.  It succeeds exactly when the token number is not negative,
  the maximal length is respected and enough pages are free; a failure changes nothing.  After a success the
  request's own pages are extended, no other request changes, and the page of every new token is listed
  in the result at its offset from the first touched page.
\<close>

theorem append_tokens_correct:
  assumes "pool_ok n P" "append_tokens r k P = (x, P')"
  shows "pool_ok n P' \<and> (case x of Inl _ \<Rightarrow> P' = P
      \<and> (k < 0 \<or> max_length P < pool_length P r + k
         \<or> int (length (free_pages P)) < pages_for (pool_page_size P) (pool_length P r + k) - pages_for (pool_page_size P) (pool_length P r))
    | Inr a \<Rightarrow> append_start a = pool_length P r \<and> append_end a = pool_length P r + k
      \<and> pool_length P' r = pool_length P r + k \<and> pool_length P' r \<le> max_length P
      \<and> (\<exists>added. pages_of P' r = pages_of P r @ added \<and> set added \<subseteq> set (free_pages P))
      \<and> (\<forall>y. y \<noteq> r \<longrightarrow> pages_of P' y = pages_of P y \<and> pool_length P' y = pool_length P y)
      \<and> (\<forall>i. append_start a \<le> i \<and> i < append_end a \<longrightarrow>
           (let j = nat (i div pool_page_size P) - nat (append_start a div pool_page_size P)
            in j < length (append_pages a) \<and> append_pages a ! j = pages_of P' r ! nat (i div pool_page_size P))))"
proof (cases "append_cost P r k")
  case (Inl err)
  then show ?thesis using assms by (auto simp: append_tokens_run append_cost_def split: if_splits)
next
  case (Inr needed)
  let ?page = "pool_page_size P" and ?len = "pool_length P r"
  have k: "0 \<le> k" "?len + k \<le> max_length P" "needed = pages_for ?page (?len + k) - pages_for ?page ?len"
    using Inr by (auto simp: append_cost_def split: if_splits)
  show ?thesis
  proof (cases "int (length (free_pages P)) < needed")
    case True
    then show ?thesis using assms Inr k(3) by (auto simp: append_tokens_run)
  next
    case False
    then have P': "P' = appended r k P" and a: "x = Inr \<lparr>append_start = ?len, append_end = ?len + k,
        append_pages = (if k = 0 then [] else drop (nat (?len div ?page)) (take (nat (pages_for ?page (?len + k))) (pages_of P' r)))\<rparr>"
      using assms(2) Inr by (auto simp: append_tokens_run)
    have ok: "pool_ok n P'" unfolding P' using append_keeps_pool [OF assms(1) Inr] False by simp
    have page: "0 < ?page" "0 \<le> ?len" using assms(1) by (auto simp: pool_ok_def)
    have "pool_page_size P' = ?page" by (simp add: P' appended_def Let_def)
    then have len: "int (length (pages_of P' r)) = pages_for ?page (?len + k)"
      using ok appended_lengths [of r k P r] by (simp add: pool_ok_def P')
    have listed: "let j = nat (i div ?page) - nat (?len div ?page)
        in j < length (drop (nat (?len div ?page)) (pages_of P' r))
          \<and> drop (nat (?len div ?page)) (pages_of P' r) ! j = pages_of P' r ! nat (i div ?page)"
      if "?len \<le> i" "i < ?len + k" for i
    proof -
      have "i div ?page * ?page \<le> i" using page(1) by (simp add: minus_mod_eq_div_mult [symmetric])
      then have "i div ?page * ?page < pages_for ?page (?len + k) * ?page"
        using that pages_for_bounds(1) [OF page(1), of "?len + k"] by linarith
      then have "i div ?page < pages_for ?page (?len + k)" using page(1) by (simp add: mult_less_cancel_right)
      moreover have "?len div ?page \<le> i div ?page" "0 \<le> ?len div ?page"
        using that page by (simp_all add: zdiv_mono1 pos_imp_zdiv_nonneg_iff)
      ultimately have "nat (?len div ?page) \<le> nat (i div ?page)" "nat (i div ?page) < length (pages_of P' r)"
        using len by linarith+
      then show ?thesis by (simp add: Let_def)
    qed
    have "nat (pages_for ?page (?len + k)) = length (pages_of P' r)" using len by linarith
    then have "append_pages (case x of Inr a \<Rightarrow> a | Inl _ \<Rightarrow> undefined) = (if k = 0 then [] else drop (nat (?len div ?page)) (pages_of P' r))"
      by (simp add: a)
    then show ?thesis
      using ok k listed by (auto simp: a P' appended_pages appended_lengths Let_def dest: in_set_dropD)
  qed
qed

text \<open>Three pages of four tokens; request 7 owns one page with three tokens.\<close>

definition sample_pool :: page_pool where
  "sample_pool = \<lparr>pool_page_size = 4, max_length = 16, free_pages = [0, 1], pool_pages = [(7, [2])], pool_lengths = [(7, 3)]\<rparr>"

lemma sample_pool_ok: "pool_ok 3 sample_pool"
  by (auto simp: pool_ok_def sample_pool_def pool_length_def pages_of_def pages_for_def eval_nat_numeral)

theorem append_tokens_correct_witness:
  "\<exists>a P'. append_tokens 7 3 sample_pool = (Inr a, P') \<and> append_pages a = [2, 1] \<and> pool_ok 3 P' \<and> pages_of P' 7 = [2, 1]"
proof -
  obtain a P' where run: "append_tokens 7 3 sample_pool = (Inr a, P')" "append_pages a = [2, 1]" "pages_of P' 7 = [2, 1]"
    by (simp add: append_tokens_run append_cost_def sample_pool_def pool_length_def pages_of_def pages_for_def appended_def Let_def)
  from append_tokens_correct [OF sample_pool_ok run(1)] run show ?thesis by auto
qed

end
