(* ===== verification/Chain_Coordinator.thy ===== *)
theory Chain_Coordinator
  imports Chain_Turns Chain_Offload Page_Pool
begin

text \<open>
  The coordinator of chains (\<open>ChainCacheCoordinator\<close> of \<^verbatim>\<open>engine/chain_cache.py\<close>): it joins the index, the host
  snapshots and the hooks of the cache manager.  The hooks are optional operations on the physical
  state; without offload the host part of the state is not used.
\<close>

section \<open>State and hooks\<close>

record 'p chain_cache =
  chains :: chain_index
  host :: "'p offload_state"

record ('p, 't) chain_hooks =
  hook_capacity_deficits :: "(int \<Rightarrow> int list \<Rightarrow> int list \<Rightarrow> int \<Rightarrow> bool \<Rightarrow> ('p, int list \<times> int \<times> int list \<times> int) op) option"
  hook_has_residency :: "(nat \<Rightarrow> ('p, bool) op) option"
  hook_physical_residency :: "(nat \<Rightarrow> ('p, int list) op) option"
  hook_free_seq :: "nat \<Rightarrow> ('p, unit) op"
  hook_turn_finished :: "nat \<Rightarrow> int \<Rightarrow> ('p, unit) op"
  hook_method_state :: "nat \<Rightarrow> ('p, 't) op"
  hook_layers :: "nat list"
  chain_fingerprint :: bytes
  chain_sha256 :: "bytes \<Rightarrow> bytes"
  offload :: "('p, 't) offload_device option"

definition on_index :: "'a chain_op \<Rightarrow> ('p chain_cache, 'a) op" where
  "on_index f s = (case f (chains s) of (x, i) \<Rightarrow> (x, s\<lparr>chains := i\<rparr>))"

definition on_host :: "('p offload_state, 'a) op \<Rightarrow> ('p chain_cache, 'a) op" where
  "on_host f s = (case f (host s) of (x, h) \<Rightarrow> (x, s\<lparr>host := h\<rparr>))"

definition on_payload :: "('p, 'a) op \<Rightarrow> ('p chain_cache, 'a) op" where
  "on_payload f = on_host (on_device f)"

text \<open>\<open>if self.offload is not None:\<close>\<close>

definition when_offload :: "('p, 't) chain_hooks \<Rightarrow> (('p, 't) offload_device \<Rightarrow> ('p chain_cache, unit) op) \<Rightarrow> ('p chain_cache, unit) op" where
  "when_offload h f = (case offload h of None \<Rightarrow> ret () | Some d \<Rightarrow> f d)"

section \<open>Capacity\<close>

text \<open>What an active chain still owes per layer: its promise less what it has grown since the turn began.\<close>

definition owed_slots :: "int list \<Rightarrow> int list \<Rightarrow> int list \<Rightarrow> nat \<Rightarrow> int" where
  "owed_slots reserved current baseline i =
     (if i < length reserved then max 0 (reserved ! i - max 0 (slot_at current i - slot_at baseline i)) else 0)"

definition add_owed :: "int list \<Rightarrow> int list \<Rightarrow> int list \<Rightarrow> int list \<Rightarrow> int list" where
  "add_owed outs reserved current baseline =
     (let outs = outs @ replicate (length reserved - length outs) 0
      in map (\<lambda>i. outs ! i + owed_slots reserved current baseline i) [0..<length outs])"

definition current_slots :: "('p, 't) chain_hooks \<Rightarrow> chain_record \<Rightarrow> bool \<Rightarrow> ('p chain_cache, int list) op" where
  "current_slots h r resident = (case hook_physical_residency h of
     Some f \<Rightarrow> if resident then on_payload (f (rec_seq_id r)) else ret (physical_slots_by_layer r)
   | None \<Rightarrow> ret (physical_slots_by_layer r))"

fun outstanding_active_loop :: "('p, 't) chain_hooks \<Rightarrow> nat set option \<Rightarrow> string list \<Rightarrow> int list \<Rightarrow> int \<Rightarrow> ('p chain_cache, int list \<times> int) op" where
  "outstanding_active_loop h exclude [] outs rows = ret (outs, rows)"
| "outstanding_active_loop h exclude (c # cs) outs rows =
     obind (reads (\<lambda>s. the (map_of (chain_records (chains s)) c))) (\<lambda>r.
     if (case exclude of None \<Rightarrow> False | Some qs \<Rightarrow> rec_seq_id r \<in> qs) then outstanding_active_loop h exclude cs outs rows
     else if reserved_slots_by_layer r = [] \<and> reserved_rows r \<le> 0 then outstanding_active_loop h exclude cs outs rows
     else obind (case hook_has_residency h of None \<Rightarrow> ret False | Some f \<Rightarrow> on_payload (f (rec_seq_id r))) (\<lambda>resident.
       obind (current_slots h r resident) (\<lambda>current.
       outstanding_active_loop h exclude cs (add_owed outs (reserved_slots_by_layer r) current (physical_slots_by_layer r))
         (rows + max 0 (reserved_rows r - (if resident then 1 else 0))))))"

definition outstanding_active_reservations :: "('p, 't) chain_hooks \<Rightarrow> nat set option \<Rightarrow> ('p chain_cache, int list \<times> int) op" where
  "outstanding_active_reservations h exclude =
     obind (reads (\<lambda>s. active_chain_ids (chains s))) (\<lambda>cs. outstanding_active_loop h exclude cs [] 0)"

definition sum_slots :: "int list \<Rightarrow> int list \<Rightarrow> int list" where
  "sum_slots xs ys = map (\<lambda>i. slot_at xs i + slot_at ys i) [0..<max (length xs) (length ys)]"

definition admission_requirements :: "('p, 't) chain_hooks \<Rightarrow> string \<Rightarrow> int \<Rightarrow> int list \<Rightarrow> ('p chain_cache, int list \<times> int \<times> int list \<times> int) op" where
  "admission_requirements h c token_count decode_reserved =
     oseq (when_offload h (\<lambda>d. on_host (poll_copies d)))
     (obind (reads (\<lambda>s. map_of (chain_records (chains s)) c)) (\<lambda>r.
     case hook_capacity_deficits h of None \<Rightarrow> ret ([], 0, [], 0)
     | Some hook \<Rightarrow>
       obind (outstanding_active_reservations h None) (\<lambda>(slots, rows).
       on_payload (hook (max 0 (token_count - (case r of None \<Rightarrow> 0 | Some r \<Rightarrow> processed_token_count r)))
         (case r of None \<Rightarrow> [] | Some r \<Rightarrow> physical_slots_by_layer r) (sum_slots slots decode_reserved) rows
         (case r of None \<Rightarrow> True | Some r \<Rightarrow> resident_rows r = 0)))))"

section \<open>Admission\<close>

text \<open>Chains with a snapshot are demoted instead of evicted.\<close>

definition offload_plan :: "('p, 't) chain_hooks \<Rightarrow> chain_plan \<Rightarrow> ('p chain_cache, chain_plan) op" where
  "offload_plan h p = (case offload h of None \<Rightarrow> ret p
     | Some d \<Rightarrow> lift_result (\<lambda>s. if \<exists>c \<in> set (victim_chain_ids p). map_of (chain_records (chains s)) c = None then Inl (KeyError ''chain_id'')
         else let saved = (\<lambda>c. map_of (snapshots (host s)) (rec_seq_id (the (map_of (chain_records (chains s)) c))) \<noteq> None)
         in Inr (p\<lparr>demote_chain_ids := filter saved (victim_chain_ids p), victim_chain_ids := filter (\<lambda>c. \<not> saved c) (victim_chain_ids p)\<rparr>)))"

definition decode_reserved_by_layer :: "resources \<Rightarrow> nat list \<Rightarrow> int list" where
  "decode_reserved_by_layer reserved layers =
     (if reserved = [] then [] else map (\<lambda>l. case map_of reserved (layer_name l) of Some n \<Rightarrow> n | None \<Rightarrow> amount reserved ''slots'') layers)"

definition plan_with :: "('p, 't) chain_hooks \<Rightarrow> string \<Rightarrow> nat \<Rightarrow> chain_input \<Rightarrow> int list \<Rightarrow> ('p chain_cache, chain_plan) op" where
  "plan_with h c q input decode_reserved =
     obind (admission_requirements h c (input_count input) decode_reserved) (\<lambda>(required, rows, deficits, row_deficit).
     obind (on_index (plan_chain_admission (chain_sha256 h) c q input (chain_fingerprint h) deficits row_deficit required rows)) (\<lambda>p.
     obind (offload_plan h p) (\<lambda>p. ret (p\<lparr>plan_decode_reserved_slots := decode_reserved\<rparr>))))"

definition coordinator_plan :: "('p, 't) chain_hooks \<Rightarrow> string \<Rightarrow> nat \<Rightarrow> int list \<Rightarrow> resources \<Rightarrow> ('p chain_cache, chain_plan) op" where
  "coordinator_plan h c q ts reserved = plan_with h c q (TokenIds ts) (decode_reserved_by_layer reserved (hook_layers h))"

definition validate_admission_plan :: "('p, 't) chain_hooks \<Rightarrow> chain_plan \<Rightarrow> int \<Rightarrow> bytes \<Rightarrow> ('p chain_cache, chain_plan) op" where
  "validate_admission_plan h expected count' digest =
     obind (plan_with h (plan_chain_id expected) (plan_seq_id expected) (PrefixDigest count' digest) (plan_decode_reserved_slots expected)) (\<lambda>p.
     oseq (raise_if (p \<noteq> expected) (RuntimeError ''Chain-cache admission plan diverged from the rank-0 plan'')) (ret p))"

definition demote_chain :: "('p, 't) chain_hooks \<Rightarrow> ('p, 't) offload_device \<Rightarrow> string \<Rightarrow> ('p chain_cache, unit) op" where
  "demote_chain h d c =
     obind (on_index (chain_lookup c)) (\<lambda>r.
     oseq (raise_if (rec_state r \<noteq> Idle) (ChainCacheError ChainBusy ''Cannot demote an ACTIVE chain.''))
     (obind (on_host (wait_snapshot d (rec_seq_id r))) (\<lambda>n.
     oseq (raise_if (\<not> snap_valid n) (RuntimeError ''Cannot demote a chain without a valid CPU snapshot.''))
     (oseq (on_payload (hook_free_seq h (rec_seq_id r)))
     (on_index (update_record c (\<lambda>r. r\<lparr>resident_rows := 0\<rparr>)))))))"

definition coordinator_apply :: "('p, 't) chain_hooks \<Rightarrow> chain_plan \<Rightarrow> ('p chain_cache, string) op" where
  "coordinator_apply h p =
     oseq (when_offload h (\<lambda>d.
       oseq (ofor (demote_chain_ids p) (demote_chain h d))
       (ofor (victim_chain_ids p) (\<lambda>c. obind (on_index (chain_lookup c)) (\<lambda>r. on_host (drop_snapshot d (rec_seq_id r)))))))
     (on_index (apply_chain_admission p (chain_fingerprint h)))"

definition restored_as :: "chain_record \<Rightarrow> chain_record" where
  "restored_as r = r\<lparr>resident_rows := 1, reserved_rows := 0,
     reserved_slots_by_layer := map (\<lambda>(reserved, existing). reserved - existing) (zip (reserved_slots_by_layer r) (physical_slots_by_layer r))\<rparr>"

definition prepare_resumed_chain :: "('p, 't) chain_hooks \<Rightarrow> string \<Rightarrow> ('p chain_cache, unit) op" where
  "prepare_resumed_chain h c = when_offload h (\<lambda>d.
     obind (on_index (chain_lookup c)) (\<lambda>r.
     oseq (if resident_rows r = 0 then oseq (on_host (restore_snapshot d (rec_seq_id r))) (on_index (update_record c restored_as)) else ret ())
     (on_host (invalidate_snapshot d (rec_seq_id r)))))"

section \<open>Finishing a turn\<close>

text \<open>Snapshots that may be dropped for room: those of active chains first, which are obsolete, then least recently used.\<close>

definition snapshot_victims :: "string \<Rightarrow> 'p chain_cache \<Rightarrow> chain_record list" where
  "snapshot_victims c s = sort_key (\<lambda>r. (rec_state r \<noteq> Active, rec_last_access r, rec_chain_id r))
     (filter (\<lambda>r. rec_chain_id r \<noteq> c \<and> map_of (snapshots (host s)) (rec_seq_id r) \<noteq> None) (map snd (chain_records (chains s))))"

definition over_budget :: "('p, 't) offload_device \<Rightarrow> int \<Rightarrow> int \<Rightarrow> 'p chain_cache \<Rightarrow> bool" where
  "over_budget d old_bytes required s \<longleftrightarrow> capacity_bytes d < used_bytes (host s) - old_bytes + required"

fun make_room :: "('p, 't) offload_device \<Rightarrow> int \<Rightarrow> int \<Rightarrow> chain_record list \<Rightarrow> ('p chain_cache, unit) op" where
  "make_room d old_bytes required [] = ret ()"
| "make_room d old_bytes required (v # vs) =
     obind (reads (over_budget d old_bytes required)) (\<lambda>over.
     if \<not> over then ret ()
     else oseq (on_host (drop_snapshot d (rec_seq_id v)))
          (oseq (if resident_rows v = 0 then oseq (on_index (evict_chain (rec_chain_id v))) (ret ()) else ret ())
          (make_room d old_bytes required vs)))"

definition save_finished_chain :: "('p, 't) chain_hooks \<Rightarrow> string \<Rightarrow> ('p chain_cache, unit) op" where
  "save_finished_chain h c = when_offload h (\<lambda>d.
     obind (on_index (chain_lookup c)) (\<lambda>r.
     obind (on_payload (hook_method_state h (rec_seq_id r))) (\<lambda>st.
     obind (on_payload (bytes_needed d (rec_seq_id r) st)) (\<lambda>required.
     oseq (raise_if (capacity_bytes d < required) (ChainCacheError ChainCapacity ''Whole-chain CPU snapshot exceeds the host budget.''))
     (obind (reads (\<lambda>s. snapshot_bytes (rec_seq_id r) (host s))) (\<lambda>old_bytes.
     obind (reads (\<lambda>s. if over_budget d old_bytes required s then snapshot_victims c s else [])) (\<lambda>candidates.
     oseq (make_room d old_bytes required candidates)
     (on_host (save_snapshot d (rec_seq_id r) st)))))))))"

definition physical_slots_now :: "('p, 't) chain_hooks \<Rightarrow> nat \<Rightarrow> ('p chain_cache, int list) op" where
  "physical_slots_now h q = (case hook_physical_residency h of None \<Rightarrow> ret [] | Some f \<Rightarrow> on_payload (f q))"

definition coordinator_finish :: "('p, 't) chain_hooks \<Rightarrow> string \<Rightarrow> nat \<Rightarrow> int list \<Rightarrow> ('p chain_cache, string) op" where
  "coordinator_finish h c q ts =
     oseq (raise_if (c = []) (ChainCacheError ChainOwnerMismatch ''Sequence has no chain_id.''))
     (obind (physical_slots_now h q) (\<lambda>slots.
     on_index (finish_chain (chain_sha256 h) c ts (max 0 (int (length ts) - 1)) slots 1)))"

definition finish_values :: "('p, 't) chain_hooks \<Rightarrow> string \<Rightarrow> nat \<Rightarrow> bytes \<Rightarrow> int \<Rightarrow> ('p chain_cache, string) op" where
  "finish_values h c q digest n =
     obind (on_index (chain_lookup c)) (\<lambda>r.
     oseq (raise_if (rec_seq_id r \<noteq> q) (ChainCacheError ChainOwnerMismatch ''Chain owner mismatch''))
     (obind (physical_slots_now h q) (\<lambda>slots. on_index (finish_chain_digest c digest n slots 1))))"

section \<open>Token histories\<close>

record prepared_tokens =
  prep_chain_id :: string
  prep_seq_id :: nat
  prep_count :: int
  prep_digest :: bytes
  prep_bytes :: bytes

text \<open>\<open>array("I").tobytes()\<close> and \<open>frombytes\<close>: four bytes per item; \<open>frombytes\<close> rejects a length that is not a multiple.\<close>

definition history_bytes :: "32 word list \<Rightarrow> bytes" where
  "history_bytes ws = concat (map (\<lambda>w. le_bytes 4 (uint w)) ws)"

fun history_of_bytes :: "bytes \<Rightarrow> 32 word list result" where
  "history_of_bytes [] = Inr []"
| "history_of_bytes (a # b # c # d # rest) = rbind (history_of_bytes rest) (\<lambda>ws. Inr (word_of_int (le_value [a, b, c, d]) # ws))"
| "history_of_bytes _ = Inl (ValueError ''bytes length not a multiple of item size'')"

definition prepare_processed_tokens :: "('p, 't) chain_hooks \<Rightarrow> string \<Rightarrow> nat \<Rightarrow> int list \<Rightarrow> int \<Rightarrow> ('p chain_cache, prepared_tokens) op" where
  "prepare_processed_tokens h c q ts n =
     obind (on_index (chain_lookup c)) (\<lambda>r.
     oseq (raise_if (rec_seq_id r \<noteq> q) (ChainCacheError ChainOwnerMismatch ''Chain owner mismatch''))
     (obind (on_index (prepare_token_history r ts n)) (\<lambda>ws.
     obind (lift_result (\<lambda>_. stable_token_digest (chain_sha256 h) (map uint ws) (Some n))) (\<lambda>d.
     ret \<lparr>prep_chain_id = c, prep_seq_id = q, prep_count = n, prep_digest = d, prep_bytes = history_bytes ws\<rparr>))))"

definition remember_prepared_tokens :: "prepared_tokens \<Rightarrow> ('p chain_cache, string) op" where
  "remember_prepared_tokens p =
     obind (on_index (chain_lookup (prep_chain_id p))) (\<lambda>r.
     oseq (raise_if (rec_seq_id r \<noteq> prep_seq_id p \<or> rec_state r \<noteq> Idle)
       (ChainCacheError ChainOwnerMismatch ''Prepared history requires its original owner in IDLE state.''))
     (oseq (raise_if (prep_count p \<noteq> processed_token_count r \<or> prep_digest p \<noteq> processed_token_digest r)
       (ChainCacheError ChainOwnerMismatch ''Finished logical tokens do not match the recorded chain boundary.''))
     (obind (lift_result (\<lambda>_. history_of_bytes (prep_bytes p))) (\<lambda>ws.
     oseq (on_index (store_token_history (prep_chain_id p) ws)) (ret (prep_chain_id p))))))"

definition remember_processed_tokens :: "('p, 't) chain_hooks \<Rightarrow> string \<Rightarrow> nat \<Rightarrow> int list \<Rightarrow> int \<Rightarrow> ('p chain_cache, string) op" where
  "remember_processed_tokens h c q ts n = obind (prepare_processed_tokens h c q ts n) remember_prepared_tokens"

section \<open>Removal\<close>

definition coordinator_invalidate :: "('p, 't) chain_hooks \<Rightarrow> string \<Rightarrow> ('p chain_cache, chain_record) op" where
  "coordinator_invalidate h c =
     oseq (when_offload h (\<lambda>d. obind (on_index (chain_lookup c)) (\<lambda>r. on_host (drop_snapshot d (rec_seq_id r)))))
     (on_index (invalidate_chain c))"

definition coordinator_reset :: "('p, 't) chain_hooks \<Rightarrow> ('p chain_cache, unit) op" where
  "coordinator_reset h = oseq (when_offload h (\<lambda>d. on_host (reset_offload d))) (on_index reset_chains)"

definition coordinator_stats :: "('p, 't) chain_hooks \<Rightarrow> ('p chain_cache, resources) op" where
  "coordinator_stats h =
     obind (reads (\<lambda>s. chain_index_stats (chains s))) (\<lambda>stats.
     case offload h of None \<Rightarrow> ret stats
     | Some d \<Rightarrow> oseq (on_host (poll_copies d)) (obind (reads id) (\<lambda>s.
         ret (stats @ [(''chain_cache_host_bytes'', used_bytes (host s)), (''chain_cache_d2h_bytes'', d2h_bytes (host s)),
           (''chain_cache_h2d_bytes'', h2d_bytes (host s)),
           (''chain_cache_d2h_inflight'', int (length (filter (\<lambda>kv. snap_in_flight (snd kv)) (snapshots (host s))))),
           (''chain_cache_cpu_only'', int (length (filter (\<lambda>kv. resident_rows (snd kv) = 0) (chain_records (chains s)))))]))))"

end
