(* ===== verification/Chain_Backing.thy ===== *)
theory Chain_Backing
  imports Chain_Coordinator
begin

text \<open>
  The two invariants of the coordinator.  The first joins those of the index and of the host
  snapshots.  The second says that a chain whose device rows were given up is backed: while
  it is idle the host holds a valid snapshot of it.  Both hold after an exception too.
\<close>

section \<open>Lifting\<close>

lemma keeps_on_index [keeps_intro]: "keeps P f \<Longrightarrow> keeps (\<lambda>s. P (chains s)) (on_index f)"
  by (rule keepsI) (auto simp: on_index_def dest: keepsD split: prod.split)

lemma keeps_on_index_host [keeps_intro]: "keeps (\<lambda>s. Q (host s)) (on_index f)"
  by (auto simp: keeps_def on_index_def split: prod.splits)

lemma keeps_on_host [keeps_intro]: "keeps Q f \<Longrightarrow> keeps (\<lambda>s. Q (host s)) (on_host f)"
  by (rule keepsI) (auto simp: on_host_def dest: keepsD split: prod.split)

lemma keeps_on_host_index [keeps_intro]: "keeps (\<lambda>s. P (chains s)) (on_host f)"
  by (auto simp: keeps_def on_host_def split: prod.splits)

lemma keeps_on_payload [keeps_intro]:
  "keeps (\<lambda>s. P (chains s)) (on_payload f)" "(\<And>s p. Q s \<Longrightarrow> Q (s\<lparr>kv_payload := p\<rparr>)) \<Longrightarrow> keeps (\<lambda>s. Q (host s)) (on_payload f)"
  unfolding on_payload_def by (rule keeps_on_host_index) (intro keeps_on_host keeps_on_device)

lemma keeps_when_offload [keeps_intro]: "(\<And>d. offload h = Some d \<Longrightarrow> keeps P (f d)) \<Longrightarrow> keeps P (when_offload h f)"
  by (auto simp: when_offload_def intro: keeps_ret split: option.splits)

lemma keeps_conj: "keeps P f \<Longrightarrow> keeps Q f \<Longrightarrow> keeps (\<lambda>s. P s \<and> Q s) f" by (simp add: keeps_def)

section \<open>The index under the coordinator\<close>

lemma keeps_alter:
  assumes "\<And>r. rec_chain_id (f r) = rec_chain_id r \<and> rec_seq_id (f r) = rec_seq_id r \<and> rec_state (f r) = rec_state r
      \<and> processed_token_count (f r) = processed_token_count r \<and> rec_token_ids (f r) = rec_token_ids r \<and> rec_last_access (f r) = rec_last_access r"
    "\<And>r. reserved_slots_by_layer r = [] \<Longrightarrow> reserved_rows r = 0 \<Longrightarrow> reserved_slots_by_layer (f r) = [] \<and> reserved_rows (f r) = 0"
  shows "keeps chain_ok (update_record c f)"
proof (rule keepsI)
  fix s
  assume ok: "chain_ok s"
  show "chain_ok (snd (update_record c f s))"
  proof (cases "map_of (chain_records s) c")
    case None
    then have "alter c f (chain_records s) = chain_records s" by (intro alter_absent) (simp add: map_of_eq_None_iff)
    then show ?thesis using ok by (simp add: update_record_def)
  next
    case (Some r)
    have "snd (update_record c f s) = altered c f (active_chain_ids s) (token_history_tokens s) (chain_clock s) (routing_snapshot_cache s) s"
      by (simp add: update_record_def altered_def)
    then show ?thesis
      using altered_ok [OF ok Some, of f "active_chain_ids s" "token_history_tokens s" "chain_clock s" "routing_snapshot_cache s"]
        assms [of r] settled [OF ok Some] actives_same [of s c r] ok Some history_within [OF ok]
      by (auto simp: chain_ok_def)
  qed
qed

lemma keeps_rows [chain_keeps]: "keeps chain_ok (update_record c (\<lambda>r. r\<lparr>resident_rows := n\<rparr>))"
  by (rule keeps_alter) auto

lemma keeps_restored [chain_keeps]: "keeps chain_ok (update_record c restored_as)"
  by (rule keeps_alter) (auto simp: restored_as_def)

abbreviation index_ok :: "'p chain_cache \<Rightarrow> bool" where
  "index_ok s \<equiv> chain_ok (chains s)"

lemma keeps_outstanding_loop: "keeps (\<lambda>s. P (chains s)) (outstanding_active_loop h X cs outs rows)"
proof (induction cs arbitrary: outs rows)
  case Nil
  show ?case unfolding outstanding_active_loop.simps by (rule keeps_ret)
next
  case (Cons c cs)
  have "keeps (\<lambda>s. P (chains s)) (current_slots h r b)" for r b
    unfolding current_slots_def by (cases "hook_physical_residency h") (auto intro!: keeps_ret keeps_on_payload(1))
  moreover have "keeps (\<lambda>s. P (chains s)) (case hook_has_residency h of None \<Rightarrow> ret False | Some f \<Rightarrow> on_payload (f q))" for q
    by (cases "hook_has_residency h") (auto intro!: keeps_ret keeps_on_payload(1))
  ultimately show ?case
    unfolding outstanding_active_loop.simps by (intro keeps_obind keeps_reads keeps_if Cons.IH)
qed

lemma keeps_requirements: "keeps (\<lambda>s. P (chains s)) (admission_requirements h c n reserved)"
  unfolding admission_requirements_def outstanding_active_reservations_def
  by (auto intro!: keeps_intro keeps_outstanding_loop split: option.splits prod.splits)

named_theorems coordinator_keeps \<open>operations of the coordinator that keep the invariant of the index\<close>

lemma index_ok_plan [coordinator_keeps]: "keeps index_ok (plan_with h c q input reserved)"
  unfolding plan_with_def offload_plan_def
  by (auto intro!: keeps_intro keeps_on_index [where P = chain_ok] chain_keeps keeps_requirements [where P = chain_ok] split: option.splits prod.splits)

lemma index_ok_demote [coordinator_keeps]: "keeps index_ok (demote_chain h d c)"
  unfolding demote_chain_def
  by (auto intro!: keeps_intro keeps_on_index [where P = chain_ok] keeps_on_host_index [where P = chain_ok] keeps_on_payload(1) [where P = chain_ok] chain_keeps)

lemma index_ok_apply [coordinator_keeps]: "keeps index_ok (coordinator_apply h p)"
  unfolding coordinator_apply_def
  by (auto intro!: keeps_intro keeps_on_index [where P = chain_ok] keeps_on_host_index [where P = chain_ok] chain_keeps coordinator_keeps)

lemma index_ok_prepare [coordinator_keeps]: "keeps index_ok (prepare_resumed_chain h c)"
  unfolding prepare_resumed_chain_def
  by (auto intro!: keeps_intro keeps_on_index [where P = chain_ok] keeps_on_host_index [where P = chain_ok] chain_keeps)

lemma index_ok_room: "keeps index_ok (make_room d old_bytes required vs)"
proof (induction vs)
  case Nil
  show ?case unfolding make_room.simps by (rule keeps_ret)
next
  case (Cons v vs)
  then show ?case
    unfolding make_room.simps
    by (intro keeps_obind keeps_oseq keeps_reads keeps_if keeps_ret keeps_on_host_index [where P = chain_ok] keeps_on_index [where P = chain_ok] keeps_evict)
qed

lemma index_ok_save [coordinator_keeps]: "keeps index_ok (save_finished_chain h c)"
  unfolding save_finished_chain_def
  by (auto intro!: keeps_intro keeps_on_index [where P = chain_ok] keeps_on_host_index [where P = chain_ok] keeps_on_payload(1) [where P = chain_ok]
      chain_keeps index_ok_room)

lemma index_ok_finish [coordinator_keeps]: "keeps index_ok (finish_values h c q dig n)" "keeps index_ok (coordinator_finish h c q ts)"
  unfolding finish_values_def coordinator_finish_def physical_slots_now_def
  by (auto intro!: keeps_intro keeps_on_index [where P = chain_ok] keeps_on_payload(1) [where P = chain_ok] chain_keeps split: option.splits)

lemma index_ok_remember [coordinator_keeps]: "keeps index_ok (remember_processed_tokens h c q ts n)"
  unfolding remember_processed_tokens_def prepare_processed_tokens_def remember_prepared_tokens_def
  by (auto intro!: keeps_intro keeps_on_index [where P = chain_ok] chain_keeps)

lemma index_ok_invalidate [coordinator_keeps]: "keeps index_ok (coordinator_invalidate h c)" "keeps index_ok (coordinator_reset h)"
  unfolding coordinator_invalidate_def coordinator_reset_def
  by (auto intro!: keeps_intro keeps_on_index [where P = chain_ok] keeps_on_host_index [where P = chain_ok] chain_keeps)

section \<open>The host under the coordinator\<close>

definition host_ok :: "('p, 't) chain_hooks \<Rightarrow> 'p chain_cache \<Rightarrow> bool" where
  "host_ok h s \<longleftrightarrow> (case offload h of None \<Rightarrow> True | Some d \<Rightarrow> offload_ok d (host s))"

text \<open>The device never reports a negative size.\<close>

definition offload_sizes :: "('p, 't) chain_hooks \<Rightarrow> bool" where
  "offload_sizes h \<longleftrightarrow> (case offload h of None \<Rightarrow> True | Some d \<Rightarrow> sizes_nonneg d)"

named_theorems host_keeps \<open>operations of the coordinator that keep the invariant of the host\<close>

lemma host_ok_parts [host_keeps]: "keeps (host_ok h) (on_index f)" "keeps (host_ok h) (on_payload g)"
  by (rule keepsI, simp add: host_ok_def on_index_def on_payload_def on_host_def on_device_def split: option.splits prod.splits)+

lemma host_ok_host: "offload h = Some d \<Longrightarrow> keeps (offload_ok d) f \<Longrightarrow> keeps (host_ok h) (on_host f)"
  by (rule keepsI) (auto simp: host_ok_def on_host_def dest: keepsD split: prod.split)

lemmas host_ok_ops [host_keeps] = host_ok_host [OF _ keeps_wait] host_ok_host [OF _ keeps_poll] host_ok_host [OF _ keeps_invalidate_snapshot]
  host_ok_host [OF _ keeps_drop] host_ok_host [OF _ keeps_restore] host_ok_host [OF _ keeps_reset_offload]

lemma host_ok_save_op: "offload_sizes h \<Longrightarrow> offload h = Some d \<Longrightarrow> keeps (host_ok h) (on_host (save_snapshot d q st))"
  by (rule host_ok_host) (auto simp: offload_sizes_def intro: keeps_save)

lemma host_ok_outstanding: "keeps (host_ok h) (outstanding_active_loop h X cs outs rows)"
proof (induction cs arbitrary: outs rows)
  case Nil
  show ?case unfolding outstanding_active_loop.simps by (rule keeps_ret)
next
  case (Cons c cs)
  have "keeps (host_ok h) (current_slots h r b)" for r b
    unfolding current_slots_def by (cases "hook_physical_residency h") (auto intro!: keeps_ret host_keeps)
  moreover have "keeps (host_ok h) (case hook_has_residency h of None \<Rightarrow> ret False | Some f \<Rightarrow> on_payload (f q))" for q
    by (cases "hook_has_residency h") (auto intro!: keeps_ret host_keeps)
  ultimately show ?case
    unfolding outstanding_active_loop.simps by (intro keeps_obind keeps_reads keeps_if Cons.IH)
qed

lemma host_ok_plan [host_keeps]: "keeps (host_ok h) (plan_with h c q input reserved)"
proof -
  have "keeps (host_ok h) (admission_requirements h c (input_count input) reserved)"
    unfolding admission_requirements_def outstanding_active_reservations_def
    by (auto intro!: keeps_intro host_keeps host_ok_outstanding split: option.splits prod.splits)
  then show ?thesis
    unfolding plan_with_def offload_plan_def by (auto intro!: keeps_intro host_keeps split: option.splits prod.splits)
qed

lemma host_ok_apply [host_keeps]: "keeps (host_ok h) (coordinator_apply h p)"
  unfolding coordinator_apply_def demote_chain_def by (auto intro!: keeps_intro host_keeps)

lemma host_ok_prepare [host_keeps]: "keeps (host_ok h) (prepare_resumed_chain h c)"
  unfolding prepare_resumed_chain_def by (auto intro!: keeps_intro host_keeps)

lemma host_ok_room: "offload h = Some d \<Longrightarrow> keeps (host_ok h) (make_room d old_bytes required vs)"
proof (induction vs)
  case Nil
  show ?case unfolding make_room.simps by (rule keeps_ret)
next
  case (Cons v vs)
  then show ?case unfolding make_room.simps by (intro keeps_obind keeps_oseq keeps_reads keeps_if keeps_ret host_keeps)
qed

lemma host_ok_save [host_keeps]: "offload_sizes h \<Longrightarrow> keeps (host_ok h) (save_finished_chain h c)"
  unfolding save_finished_chain_def by (auto intro!: keeps_intro host_keeps host_ok_save_op host_ok_room)

lemma host_ok_finish [host_keeps]: "keeps (host_ok h) (finish_values h c q dig n)" "keeps (host_ok h) (coordinator_finish h c q ts)"
  unfolding finish_values_def coordinator_finish_def physical_slots_now_def by (auto intro!: keeps_intro host_keeps split: option.splits)

lemma host_ok_remember [host_keeps]: "keeps (host_ok h) (remember_processed_tokens h c q ts n)"
  unfolding remember_processed_tokens_def prepare_processed_tokens_def remember_prepared_tokens_def by (auto intro!: keeps_intro host_keeps)

lemma host_ok_invalidate [host_keeps]: "keeps (host_ok h) (coordinator_invalidate h c)" "keeps (host_ok h) (coordinator_reset h)"
  unfolding coordinator_invalidate_def coordinator_reset_def by (auto intro!: keeps_intro host_keeps)

section \<open>Chains without device rows\<close>

text \<open>
  The owners of the chains that have no device rows and are idle (or listed in \<open>A\<close>), and the requests with a
  valid snapshot.
\<close>

definition cpu_only :: "string set \<Rightarrow> chain_index \<Rightarrow> nat set" where
  "cpu_only A i = {q. \<exists>c r. map_of (chain_records i) c = Some r \<and> q = rec_seq_id r \<and> resident_rows r = 0 \<and> (rec_state r = Idle \<or> c \<in> A)}"

definition saved :: "'p offload_state \<Rightarrow> nat set" where
  "saved s = {q. \<exists>n. map_of (snapshots s) q = Some n \<and> snap_valid n}"

definition backed :: "string set \<Rightarrow> 'p chain_cache \<Rightarrow> bool" where
  "backed A s \<longleftrightarrow> cpu_only A (chains s) \<subseteq> saved (host s)"

lemma cpu_onlyI: "map_of (chain_records i) c = Some r \<Longrightarrow> resident_rows r = 0 \<Longrightarrow> rec_state r = Idle \<or> c \<in> A \<Longrightarrow> rec_seq_id r \<in> cpu_only A i"
  by (auto simp: cpu_only_def)

text \<open>A chain with rows is not among them, and no other chain has its owner.\<close>

lemma owner_unique:
  assumes "chain_ok i" "map_of (chain_records i) c = Some r" "map_of (chain_records i) c' = Some r'" "rec_seq_id r = rec_seq_id r'"
  shows "c = c'"
proof -
  have "map_of (seq_id_to_chain_id i) (rec_seq_id r) = Some c" "map_of (seq_id_to_chain_id i) (rec_seq_id r) = Some c'"
    using assms unfolding chain_ok_def owners_exact_def by auto
  then show ?thesis by simp
qed

lemma resident_not_cpu_only:
  assumes "chain_ok i" "map_of (chain_records i) c = Some r" "resident_rows r \<noteq> 0 \<or> rec_state r = Active \<and> c \<notin> A"
  shows "rec_seq_id r \<notin> cpu_only A i"
proof
  assume "rec_seq_id r \<in> cpu_only A i"
  then obtain c' r' where r': "map_of (chain_records i) c' = Some r'" "rec_seq_id r = rec_seq_id r'" "resident_rows r' = 0" "rec_state r' = Idle \<or> c' \<in> A"
    unfolding cpu_only_def by blast
  then have "c' = c" using owner_unique [OF assms(1,2) r'(1,2)] by simp
  then show False using assms(2,3) r' by auto
qed

lemma saved_payload [simp]: "saved (s\<lparr>kv_payload := p\<rparr>) = saved s" by (simp add: saved_def)

lemma saved_device: "keeps (\<lambda>s. X \<subseteq> saved s) (on_device f)" by (rule keeps_on_device) simp

lemma saved_settle: "saved s \<subseteq> saved (settle_copy q s)" by (auto simp: saved_def settle_copy_def)

named_theorems saved_keeps \<open>valid snapshots that an operation of the host leaves valid\<close>

lemma saved_wait [saved_keeps]: "keeps (\<lambda>s. X \<subseteq> saved s) (wait_snapshot d q)"
proof -
  have "keeps (\<lambda>s. X \<subseteq> saved s) (writes (settle_copy q))" by (rule keeps_writes) (use saved_settle in blast)
  then show ?thesis unfolding wait_snapshot_def by (auto intro!: keeps_intro saved_device split: option.splits)
qed

lemma saved_poll [saved_keeps]: "keeps (\<lambda>s. X \<subseteq> saved s) (poll_copies d)"
proof -
  have settle: "keeps (\<lambda>s. X \<subseteq> saved s) (writes (settle_copy q))" for q by (rule keeps_writes) (use saved_settle in blast)
  have "keeps (\<lambda>s. X \<subseteq> saved s) (poll_loop d k)" for k
  proof (induction k)
    case 0
    show ?case unfolding poll_loop.simps by (rule keeps_ret)
  next
    case (Suc k)
    have "keeps (\<lambda>s. X \<subseteq> saved s) (case qs of [] \<Rightarrow> ret () | q # _ \<Rightarrow> obind (on_device (copy_complete d q)) (\<lambda>complete.
        if complete then oseq (writes (settle_copy q)) (poll_loop d k) else ret ()))" for qs :: "nat list"
      by (cases qs) (auto intro!: keeps_ret keeps_obind keeps_oseq keeps_if saved_device settle Suc)
    then show ?case unfolding poll_loop.simps by (intro keeps_obind keeps_reads)
  qed
  then show ?thesis unfolding poll_copies_def by (intro keeps_obind keeps_reads)
qed

lemma saved_delete: "q \<notin> X \<Longrightarrow> keeps (\<lambda>s. X \<subseteq> saved s) (writes (\<lambda>s. s\<lparr>snapshots := AList.delete q (snapshots s), used_bytes := f s\<rparr>))"
  by (rule keeps_writes) (auto simp: saved_def delete_conv')

lemma saved_drop [saved_keeps]: "q \<notin> X \<Longrightarrow> keeps (\<lambda>s. X \<subseteq> saved s) (drop_snapshot d q)"
  unfolding drop_snapshot_def by (auto intro!: keeps_intro saved_wait saved_delete)

lemma saved_invalidate [saved_keeps]: "q \<notin> X \<Longrightarrow> keeps (\<lambda>s. X \<subseteq> saved s) (invalidate_snapshot d q)"
proof -
  assume q: "q \<notin> X"
  have "keeps (\<lambda>s. X \<subseteq> saved s) (writes (\<lambda>s. s\<lparr>snapshots := alter q (\<lambda>n. n\<lparr>snap_valid := False\<rparr>) (snapshots s)\<rparr>))"
    by (rule keeps_writes) (use q in \<open>auto simp: saved_def\<close>)
  then show ?thesis unfolding invalidate_snapshot_def by (auto intro!: keeps_intro saved_wait)
qed

lemma saved_save [saved_keeps]: "q \<notin> X \<Longrightarrow> keeps (\<lambda>s. X \<subseteq> saved s) (save_snapshot d q st)"
proof -
  assume q: "q \<notin> X"
  have "keeps (\<lambda>s. X \<subseteq> saved s) (writes (\<lambda>s. s\<lparr>snapshots := AList.update q v (snapshots s), pending_snapshots := pending_snapshots s @ [q],
      used_bytes := used_bytes s + n, d2h_bytes := d2h_bytes s + n\<rparr>))" for v n
    by (rule keeps_writes) (use q in \<open>auto simp: saved_def update_conv'\<close>)
  then show ?thesis unfolding save_snapshot_def by (auto intro!: keeps_intro saved_device saved_poll saved_drop [OF q])
qed

lemma saved_restore [saved_keeps]: "keeps (\<lambda>s. X \<subseteq> saved s) (restore_snapshot d q)"
proof -
  have "keeps (\<lambda>s. X \<subseteq> saved s) (writes (\<lambda>s. s\<lparr>h2d_bytes := h2d_bytes s + k\<rparr>))" for k by (rule keeps_writes) (simp add: saved_def)
  then show ?thesis unfolding restore_snapshot_def by (auto intro!: keeps_intro saved_device saved_wait)
qed

text \<open>Operations of the index add no chain without rows.\<close>

lemma cpu_only_bumped [simp]: "cpu_only A (bumped n i) = cpu_only A i" by (simp add: cpu_only_def)

lemma cpu_only_removed:
  assumes "chain_ok i" "map_of (chain_records i) c = Some r"
  shows "cpu_only A (removed name c r i) \<subseteq> cpu_only A i - {rec_seq_id r}"
  using owner_unique [OF assms] by (auto simp: cpu_only_def removed_fields delete_conv' split: if_splits)

lemma cpu_only_alter:
  assumes "\<And>r. map_of (chain_records i) c = Some r \<Longrightarrow> rec_seq_id (f r) = rec_seq_id r
      \<and> (resident_rows (f r) = 0 \<longrightarrow> resident_rows r = 0 \<and> (rec_state (f r) = Idle \<or> c \<in> A \<longrightarrow> rec_state r = Idle \<or> c \<in> B))"
    "A - {c} \<subseteq> B"
  shows "cpu_only A (i\<lparr>chain_records := alter c f (chain_records i)\<rparr>) \<subseteq> cpu_only B i"
proof
  fix q
  assume "q \<in> cpu_only A (i\<lparr>chain_records := alter c f (chain_records i)\<rparr>)"
  then obtain c' x where x: "map_of (alter c f (chain_records i)) c' = Some x" "q = rec_seq_id x" "resident_rows x = 0" "rec_state x = Idle \<or> c' \<in> A"
    unfolding cpu_only_def by auto
  show "q \<in> cpu_only B i"
  proof (cases "c' = c")
    case True
    then obtain r where "map_of (chain_records i) c = Some r" "x = f r" using x(1) by auto
    then show ?thesis using assms(1) [of r] x True by (auto intro: cpu_onlyI)
  next
    case False
    then show ?thesis using x assms(2) by (auto intro: cpu_onlyI)
  qed
qed

lemma cpu_only_records: "chain_records i = chain_records j \<Longrightarrow> cpu_only A i = cpu_only A j" by (simp add: cpu_only_def)

definition idle_in :: "string set \<Rightarrow> nat set \<Rightarrow> chain_index \<Rightarrow> bool" where
  "idle_in A X i \<longleftrightarrow> chain_ok i \<and> cpu_only A i \<subseteq> X"

named_theorems idle_keeps \<open>operations of the index that add no chain without rows\<close>

lemma idle_evict [idle_keeps]: "keeps (idle_in A X) (evict_chain c)"
proof (rule keepsI)
  fix i
  assume ok: "idle_in A X i"
  have "chain_ok (snd (evict_chain c i))" using ok keepsD [OF keeps_evict] by (simp add: idle_in_def)
  moreover have "cpu_only A (snd (evict_chain c i)) \<subseteq> X"
    using ok cpu_only_removed [of i c _ A "''chain_cache_evicted''"] by (auto simp: run_evict run_lookup idle_in_def split: option.splits)
  ultimately show "idle_in A X (snd (evict_chain c i))" by (simp add: idle_in_def)
qed

lemma idle_alter:
  assumes "keeps chain_ok (update_record c f)" "\<And>r. rec_seq_id (f r) = rec_seq_id r \<and> (resident_rows (f r) = 0 \<longrightarrow> resident_rows r = 0) \<and> rec_state (f r) = rec_state r"
  shows "keeps (idle_in A X) (update_record c f)"
proof (rule keepsI)
  fix i
  assume ok: "idle_in A X i"
  have "cpu_only A (i\<lparr>chain_records := alter c f (chain_records i)\<rparr>) \<subseteq> cpu_only A i" by (rule cpu_only_alter) (use assms(2) in auto)
  then show "idle_in A X (snd (update_record c f i))"
    using ok keepsD [OF assms(1), of i] by (auto simp: idle_in_def update_record_def)
qed

lemma idle_restored [idle_keeps]: "keeps (idle_in A X) (update_record c restored_as)"
  by (rule idle_alter [OF keeps_restored]) (simp add: restored_as_def)

lemma idle_same:
  assumes "keeps chain_ok f" "\<And>i. chain_records (snd (f i)) = chain_records i"
  shows "keeps (idle_in A X) f"
  by (rule keepsI) (use keepsD [OF assms(1)] cpu_only_records [OF assms(2)] in \<open>auto simp: idle_in_def\<close>)

lemma idle_lookup [idle_keeps]: "keeps (idle_in A X) (chain_lookup c)" by (rule keeps_lookup)

lemma plan_records: "chain_records (snd (plan_chain_admission sha256 c q input fp required deficit reserved rows i)) = chain_records i"
proof -
  have "keeps (\<lambda>j. chain_records j = chain_records i) (bump n)" for n by (rule keepsI) simp
  then have "keeps (\<lambda>j. chain_records j = chain_records i) (plan_chain_admission sha256 c q input fp required deficit reserved rows)"
    unfolding plan_chain_admission_def check_resume_def check_input_prefix_def select_victims_def
    by (auto intro!: keeps_intro keeps_lookup simp: Let_def split: option.splits sum.splits py_error.splits chain_error.splits prod.splits)
  then show ?thesis by (auto dest: keepsD)
qed

lemma idle_plan [idle_keeps]: "keeps (idle_in A X) (plan_chain_admission sha256 c q input fp required deficit reserved rows)"
  by (rule idle_same [OF keeps_plan plan_records])

lemma idle_finish [idle_keeps]: "keeps (idle_in A X) (finish_chain_digest c dig n slots 1)"
proof (rule keepsI)
  fix i
  assume ok: "idle_in A X i"
  show "idle_in A X (snd (finish_chain_digest c dig n slots 1 i))"
  proof (cases rule: lookup_cases [where s = i and c = c])
    case (found r)
    have "cpu_only A (finished c dig n slots 1 i) \<subseteq> cpu_only A i"
      using cpu_only_alter [of i c "finished_as dig n slots 1 (chain_clock i + 1)" A A]
        cpu_only_records [of "finished c dig n slots 1 i" "i\<lparr>chain_records := alter c (finished_as dig n slots 1 (chain_clock i + 1)) (chain_records i)\<rparr>"]
      by (simp add: finished_def altered_def) (simp add: finished_as_def)
    then show ?thesis
      using ok found keepsD [OF keeps_finish_digest, of i c dig n slots 1] by (auto simp: run_finish_digest idle_in_def)
  next
    case (absent err)
    then show ?thesis using ok by (simp add: finish_chain_digest_def obind_def)
  qed
qed

lemma idle_store [idle_keeps]: "keeps (idle_in A X) (store_token_history c ts)"
proof (rule keepsI)
  fix i
  assume ok: "idle_in A X i"
  show "idle_in A X (snd (store_token_history c ts i))"
  proof (cases rule: lookup_cases [where s = i and c = c])
    case (found r)
    have "cpu_only A (stored c ts r i) \<subseteq> cpu_only A i"
      using cpu_only_alter [of i c "\<lambda>r. r\<lparr>rec_token_ids := ts\<rparr>" A A]
        cpu_only_records [of "stored c ts r i" "i\<lparr>chain_records := alter c (\<lambda>r. r\<lparr>rec_token_ids := ts\<rparr>) (chain_records i)\<rparr>"]
      by (simp add: stored_def altered_def)
    then show ?thesis
      using ok found keepsD [OF keeps_store, of i c ts] by (auto simp: run_store idle_in_def)
  next
    case (absent err)
    then show ?thesis using ok by (simp add: store_token_history_def obind_def)
  qed
qed

lemma idle_create [idle_keeps]: "keeps (idle_in A X) (create_chain plan fp)"
proof (rule keepsI)
  fix i
  assume ok: "idle_in A X i"
  show "idle_in A X (snd (create_chain plan fp i))"
  proof (cases "map_of (chain_records i) (plan_chain_id plan) = None \<and> map_of (seq_id_to_chain_id i) (plan_seq_id plan) = None")
    case True
    then have "cpu_only A (created plan fp i) \<subseteq> cpu_only A i"
      by (auto simp: cpu_only_def created_fields update_conv' reserve_plan_def new_record_def split: if_splits)
    then show ?thesis using ok True created_ok [of i plan fp] by (auto simp: run_create idle_in_def)
  next
    case False
    then have "snd (create_chain plan fp i) = i" by (auto simp: create_chain_def Let_def oseq_def obind_def)
    then show ?thesis using ok by simp
  qed
qed

text \<open>An admitted chain was idle or is new, so it counts among the chains without rows only if it did before.\<close>

lemma cpu_only_resumed:
  assumes "map_of (chain_records i) (plan_chain_id plan) = Some r" "rec_state r = Idle"
  shows "cpu_only (insert (plan_chain_id plan) A) (resumed plan i) \<subseteq> cpu_only A i"
proof -
  let ?c = "plan_chain_id plan" and ?f = "resumed_as plan (chain_clock i + 1)"
  have "cpu_only (insert ?c A) (i\<lparr>chain_records := alter ?c ?f (chain_records i)\<rparr>) \<subseteq> cpu_only A i"
    by (rule cpu_only_alter) (use assms in \<open>auto simp: resumed_as_def reserve_plan_def\<close>)
  moreover have "chain_records (resumed plan i) = alter ?c ?f (chain_records i)" by (simp add: resumed_def altered_def)
  ultimately show ?thesis using cpu_only_records [of "resumed plan i" "i\<lparr>chain_records := alter ?c ?f (chain_records i)\<rparr>"] by simp
qed

lemma cpu_only_mono: "A \<subseteq> B \<Longrightarrow> cpu_only A i \<subseteq> cpu_only B i" by (auto simp: cpu_only_def)

lemma apply_admits:
  assumes ok: "idle_in {} X i" and run: "apply_chain_admission p fp i = (x, j)"
  shows "idle_in {} X j \<and> (\<forall>c. x = Inr c \<longrightarrow> c = plan_chain_id p \<and> idle_in {c} X j \<and> map_of (chain_records j) c \<noteq> None)"
proof -
  let ?c = "plan_chain_id p"
  obtain y k where ev: "ofor (victim_chain_ids p) (\<lambda>c. oseq (evict_chain c) (ret ())) i = (y, k)" by fastforce
  have "keeps (idle_in {} X) (ofor (victim_chain_ids p) (\<lambda>c. oseq (evict_chain c) (ret ())))" by (auto intro!: keeps_intro idle_keeps)
  then have k: "idle_in {} X k" using ev ok by (rule keepsE)
  show ?thesis
  proof (cases y)
    case (Inl err)
    then show ?thesis using run ev k by (auto simp: apply_chain_admission_def oseq_def obind_def)
  next
    case (Inr u)
    show ?thesis
    proof (cases "plan_status p = ''created''")
      case True
      then have run': "create_chain p fp k = (x, j)" using run ev Inr by (simp add: apply_chain_admission_def oseq_def obind_def)
      have j: "idle_in {} X j" using keepsE [OF idle_create run' k] .
      have "c = ?c \<and> idle_in {c} X j \<and> map_of (chain_records j) c \<noteq> None" if "x = Inr c" for c
      proof -
        have fresh: "map_of (chain_records k) ?c = None" "map_of (seq_id_to_chain_id k) (plan_seq_id p) = None"
          using run' that by (auto simp: create_chain_def Let_def oseq_def obind_def split: if_splits)
        have jc: "j = created p fp k" "c = ?c" using run' that run_create [OF _ fresh, of fp] k by (auto simp: idle_in_def)
        have "cpu_only {?c} (created p fp k) \<subseteq> cpu_only {} k"
          using fresh by (auto simp: cpu_only_def created_fields update_conv' reserve_plan_def new_record_def split: if_splits)
        then show ?thesis using j jc k by (auto simp: idle_in_def created_fields update_conv')
      qed
      then show ?thesis using j by blast
    next
      case False
      then have run': "resume_chain p k = (x, j)" using run ev Inr by (simp add: apply_chain_admission_def oseq_def obind_def)
      have ok': "chain_ok j" using keepsE [OF keeps_resume run'] k by (simp add: idle_in_def)
      show ?thesis
      proof (cases rule: lookup_cases [where s = k and c = ?c])
        case (absent err)
        then show ?thesis using run' k by (auto simp: resume_chain_def Let_def obind_def)
      next
        case (found r)
        show ?thesis
        proof (cases "rec_state r = Idle")
          case False
          then show ?thesis using run' k found by (auto simp: run_resume)
        next
          case True
          then have j: "j = resumed p k" "x = Inr ?c" using run' found by (auto simp: run_resume)
          have "cpu_only {?c} j \<subseteq> X" using cpu_only_resumed [OF found(1) True, of "{}"] k unfolding j(1) by (auto simp: idle_in_def)
          moreover have "cpu_only {} j \<subseteq> cpu_only {?c} j" by (rule cpu_only_mono) simp
          moreover have "map_of (chain_records j) ?c \<noteq> None" using found(1) by (simp add: j resumed_def altered_def)
          ultimately show ?thesis using j ok' by (auto simp: idle_in_def)
        qed
      qed
    qed
  qed
qed

section \<open>The coordinator keeps chains backed\<close>

definition residents :: "string set \<Rightarrow> chain_index \<Rightarrow> bool" where
  "residents V i \<longleftrightarrow> (\<forall>c \<in> V. \<exists>r. map_of (chain_records i) c = Some r \<and> resident_rows r \<noteq> 0)"

text \<open>The index is consistent, the chains without rows are backed, and the chains in \<open>V\<close> have rows.\<close>

definition sound :: "string set \<Rightarrow> string set \<Rightarrow> 'p chain_cache \<Rightarrow> bool" where
  "sound A V s \<longleftrightarrow> chain_ok (chains s) \<and> backed A s \<and> residents V (chains s)"

lemma sound_weaken: "sound A V s \<Longrightarrow> B \<subseteq> A \<Longrightarrow> W \<subseteq> V \<Longrightarrow> sound B W s"
  using cpu_only_mono [of B A "chains s"] by (auto simp: sound_def backed_def residents_def)

lemma sound_on_host:
  assumes "sound A V s" "on_host f s = (x, t)" "keeps (\<lambda>h. cpu_only A (chains s) \<subseteq> saved h) f"
  shows "sound A V t \<and> chains t = chains s"
  using assms keepsD [OF assms(3), of "host s"] by (auto simp: sound_def backed_def on_host_def split: prod.splits)

named_theorems sound_keeps \<open>operations that keep chains backed\<close>

lemma sound_payload [sound_keeps]: "keeps (sound A V) (on_payload f)"
  by (rule keepsI) (metis sound_on_host [OF _ _ saved_device] on_payload_def prod.collapse)

lemma sound_host:
  assumes "\<And>X. keeps (\<lambda>h. X \<subseteq> saved h) f"
  shows "keeps (sound A V) (on_host f)"
  by (rule keepsI) (metis sound_on_host [OF _ _ assms] prod.collapse)

lemmas sound_host_ops [sound_keeps] = sound_host [OF saved_wait] sound_host [OF saved_poll] sound_host [OF saved_restore]

lemma sound_index:
  assumes "\<And>X. keeps (idle_in A X) f" "keeps (residents V) f"
  shows "keeps (sound A V) (on_index f)"
proof (rule keepsI)
  fix s
  assume s: "sound A V s"
  have "idle_in A (saved (host s)) (chains s)" using s by (simp add: sound_def backed_def idle_in_def)
  then have "idle_in A (saved (host s)) (snd (f (chains s)))" by (rule keepsD [OF assms(1)])
  moreover have "residents V (snd (f (chains s)))" using keepsD [OF assms(2)] s by (simp add: sound_def)
  ultimately show "sound A V (snd (on_index f s))" by (auto simp: on_index_def sound_def backed_def idle_in_def split: prod.splits)
qed

lemma residents_none [simp]: "keeps (residents {}) f" by (simp add: keeps_def residents_def)

lemma residents_restored: "keeps (residents V) (update_record c restored_as)"
  by (rule keepsI) (auto simp: residents_def update_record_def restored_as_def)

lemma residents_evict: "c \<notin> V \<Longrightarrow> keeps (residents V) (evict_chain c)"
  by (rule keepsI) (auto simp: residents_def run_evict run_lookup removed_fields delete_conv' split: option.splits)

lemmas sound_index_ops [sound_keeps] = sound_index [OF idle_lookup keeps_lookup] sound_index [OF idle_restored residents_restored]
  sound_index [OF idle_plan residents_none] sound_index [OF idle_finish residents_none] sound_index [OF idle_store residents_none]
  sound_index [OF idle_evict residents_evict]

text \<open>Dropping, invalidating or replacing the snapshot of a chain that does not need it.\<close>

lemma sound_not_needed:
  assumes "\<And>X. rec_seq_id r \<notin> X \<Longrightarrow> keeps (\<lambda>h. X \<subseteq> saved h) f"
    "sound A V s" "map_of (chain_records (chains s)) c = Some r" "resident_rows r \<noteq> 0 \<or> rec_state r = Active \<and> c \<notin> A"
  shows "sound A V (snd (on_host f s)) \<and> chains (snd (on_host f s)) = chains s"
proof -
  have "rec_seq_id r \<notin> cpu_only A (chains s)" using assms by (intro resident_not_cpu_only) (auto simp: sound_def)
  then show ?thesis using sound_on_host [OF assms(2) prod.collapse [symmetric] assms(1)] by blast
qed

lemma sound_drop: "sound A V s \<Longrightarrow> map_of (chain_records (chains s)) c = Some r \<Longrightarrow> resident_rows r \<noteq> 0 \<or> rec_state r = Active \<and> c \<notin> A
    \<Longrightarrow> sound A V (snd (on_host (drop_snapshot d (rec_seq_id r)) s)) \<and> chains (snd (on_host (drop_snapshot d (rec_seq_id r)) s)) = chains s"
  by (rule sound_not_needed [OF saved_drop])

lemma sound_retire: "sound A V s \<Longrightarrow> map_of (chain_records (chains s)) c = Some r \<Longrightarrow> resident_rows r \<noteq> 0 \<or> rec_state r = Active \<and> c \<notin> A
    \<Longrightarrow> sound A V (snd (on_host (invalidate_snapshot d (rec_seq_id r)) s)) \<and> chains (snd (on_host (invalidate_snapshot d (rec_seq_id r)) s)) = chains s"
  by (rule sound_not_needed [OF saved_invalidate])

lemma sound_replace: "sound A V s \<Longrightarrow> map_of (chain_records (chains s)) c = Some r \<Longrightarrow> resident_rows r \<noteq> 0 \<or> rec_state r = Active \<and> c \<notin> A
    \<Longrightarrow> sound A V (snd (on_host (save_snapshot d (rec_seq_id r) st) s)) \<and> chains (snd (on_host (save_snapshot d (rec_seq_id r) st) s)) = chains s"
  by (rule sound_not_needed [OF saved_save])

lemma wait_valid:
  assumes "wait_snapshot d q s = (Inr n, t)" "snap_valid n"
  shows "q \<in> saved t"
  using assms by (auto simp: wait_snapshot_def obind_def oseq_def on_device_def saved_def settle_copy_def split: option.splits if_splits prod.splits sum.splits)

lemma run_on_index: "on_index f s = (fst (f (chains s)), s\<lparr>chains := snd (f (chains s))\<rparr>)"
  by (simp add: on_index_def split: prod.splits)

lemma sound_give_up:
  assumes "sound {} V s" "map_of (chain_records (chains s)) c = Some r" "rec_seq_id r \<in> saved (host s)" "c \<notin> V"
  shows "sound {} V (snd (on_index (update_record c (\<lambda>r. r\<lparr>resident_rows := 0\<rparr>)) s))"
proof -
  let ?i = "snd (update_record c (\<lambda>r. r\<lparr>resident_rows := 0\<rparr>) (chains s))"
  have "chain_ok ?i" using keepsD [OF keeps_rows] assms(1) by (simp add: sound_def)
  moreover have "cpu_only {} ?i \<subseteq> insert (rec_seq_id r) (cpu_only {} (chains s))"
    using assms(2) by (auto simp: cpu_only_def update_record_def split: if_splits)
  moreover have "residents V ?i" using assms(1,4) by (auto simp: sound_def residents_def update_record_def)
  ultimately show ?thesis using assms(1,3) by (auto simp: sound_def backed_def run_on_index)
qed

lemma sound_demote: "c \<notin> V \<Longrightarrow> keeps (sound {} V) (demote_chain h d c)"
proof (rule keepsI)
  fix s :: "'a chain_cache"
  assume c: "c \<notin> V" and s: "sound {} V s"
  show "sound {} V (snd (demote_chain h d c s))"
  proof (cases rule: lookup_cases [where s = "chains s" and c = c])
    case (absent err)
    then show ?thesis using s by (simp add: demote_chain_def obind_def run_on_index)
  next
    case (found r)
    obtain x t where w: "on_host (wait_snapshot d (rec_seq_id r)) s = (x, t)" by fastforce
    have t: "sound {} V t" "chains t = chains s" using sound_on_host [OF s w saved_wait] by auto
    obtain y u where f: "on_payload (hook_free_seq h (rec_seq_id r)) t = (y, u)" by fastforce
    have u: "sound {} V u" "chains u = chains s" using sound_on_host [OF t(1) f [unfolded on_payload_def] saved_device] t(2) by auto
    have "saved (host u) = saved (host t)" using f by (auto simp: on_payload_def on_host_def on_device_def split: prod.splits)
    moreover have "rec_seq_id r \<in> saved (host t)" if "x = Inr n" "snap_valid n" for n
      using w that wait_valid [of d "rec_seq_id r" "host s" n] by (auto simp: on_host_def split: prod.splits)
    ultimately have "sound {} V (snd (on_index (update_record c (\<lambda>r. r\<lparr>resident_rows := 0\<rparr>)) u))" if "x = Inr n" "snap_valid n" for n
      using sound_give_up [OF u(1), of c r] found(1) u(2) c that by auto
    then show ?thesis
      using s found w f t u by (cases x; cases y) (auto simp: demote_chain_def obind_def oseq_def run_on_index)
  qed
qed

lemma sound_drop_victim: "c \<in> V \<Longrightarrow> keeps (sound {} V) (obind (on_index (chain_lookup c)) (\<lambda>r. on_host (drop_snapshot d (rec_seq_id r))))"
proof (rule keepsI)
  fix s :: "'a chain_cache"
  assume c: "c \<in> V" and s: "sound {} V s"
  then obtain r where r: "map_of (chain_records (chains s)) c = Some r" "resident_rows r \<noteq> 0" by (auto simp: sound_def residents_def)
  then show "sound {} V (snd (obind (on_index (chain_lookup c)) (\<lambda>r. on_host (drop_snapshot d (rec_seq_id r))) s))"
    using sound_drop [OF s r(1), of d] by (simp add: obind_def run_on_index run_lookup)
qed

text \<open>Applying a plan whose victims have rows; the admitted chain is still backed, so that it can be restored.\<close>

lemma coordinator_apply_sound:
  assumes s: "sound {} (set (victim_chain_ids p)) s" and fresh: "set (demote_chain_ids p) \<inter> set (victim_chain_ids p) = {}"
    and run: "coordinator_apply h p s = (x, t)"
  shows "sound {} {} t \<and> (\<forall>c. x = Inr c \<longrightarrow> c = plan_chain_id p \<and> sound {c} {} t \<and> map_of (chain_records (chains t)) c \<noteq> None)"
proof -
  let ?V = "set (victim_chain_ids p)"
  let ?pre = "when_offload h (\<lambda>d. oseq (ofor (demote_chain_ids p) (demote_chain h d))
       (ofor (victim_chain_ids p) (\<lambda>c. obind (on_index (chain_lookup c)) (\<lambda>r. on_host (drop_snapshot d (rec_seq_id r))))))"
  obtain y u where pre: "?pre s = (y, u)" by fastforce
  have "keeps (sound {} ?V) ?pre"
    using fresh by (intro keeps_when_offload keeps_oseq keeps_ofor sound_demote sound_drop_victim) auto
  then have u: "sound {} ?V u" using pre s by (rule keepsE)
  show ?thesis
  proof (cases y)
    case (Inl err)
    then show ?thesis using run pre u by (auto simp: coordinator_apply_def oseq_def obind_def intro: sound_weaken)
  next
    case (Inr v)
    obtain x' j where ap: "apply_chain_admission p (chain_fingerprint h) (chains u) = (x', j)" by fastforce
    have "idle_in {} (saved (host u)) (chains u)" using u by (simp add: sound_def backed_def idle_in_def)
    note done' = apply_admits [OF this ap]
    have "x = x'" "t = u\<lparr>chains := j\<rparr>" using run pre Inr ap by (simp_all add: coordinator_apply_def oseq_def obind_def run_on_index)
    then show ?thesis using done' by (auto simp: sound_def backed_def idle_in_def residents_def)
  qed
qed

lemma sound_prepare:
  fixes h :: "('p, 't) chain_hooks"
  shows "keeps (sound {c} {}) (prepare_resumed_chain h c)"
proof -
  have "keeps (sound {c} {}) (obind (on_index (chain_lookup c)) (\<lambda>r.
     oseq (if resident_rows r = 0 then oseq (on_host (restore_snapshot d (rec_seq_id r))) (on_index (update_record c restored_as)) else ret ())
     (on_host (invalidate_snapshot d (rec_seq_id r)))))" for d :: "('p, 't) offload_device"
  proof (rule keepsI)
    fix s :: "'p chain_cache"
    assume s: "sound {c} {} s"
    show "sound {c} {} (snd (obind (on_index (chain_lookup c)) (\<lambda>r.
     oseq (if resident_rows r = 0 then oseq (on_host (restore_snapshot d (rec_seq_id r))) (on_index (update_record c restored_as)) else ret ())
     (on_host (invalidate_snapshot d (rec_seq_id r)))) s))"
    proof (cases rule: lookup_cases [where s = "chains s" and c = c])
      case (absent err)
      then show ?thesis using s by (simp add: obind_def run_on_index)
    next
      case (found r)
      let ?restore = "if resident_rows r = 0 then oseq (on_host (restore_snapshot d (rec_seq_id r))) (on_index (update_record c restored_as)) else ret ()"
      obtain x t where re: "?restore s = (x, t)" by fastforce
      have "keeps (sound {c} {}) ?restore" by (intro keeps_if keeps_oseq keeps_ret sound_keeps)
      then have t: "sound {c} {} t" using re s by (rule keepsE)
      have "\<exists>r'. map_of (chain_records (chains t)) c = Some r' \<and> rec_seq_id r' = rec_seq_id r \<and> resident_rows r' \<noteq> 0" if "x = Inr u" for u
      proof (cases "resident_rows r = 0")
        case True
        obtain y k where k: "on_host (restore_snapshot d (rec_seq_id r)) s = (y, k)" by fastforce
        have ch: "chains k = chains s" using sound_on_host [OF s k saved_restore] by simp
        have "y = Inr ()" using re True k that by (cases y) (auto simp: oseq_def obind_def)
        then have "t = k\<lparr>chains := snd (update_record c restored_as (chains s))\<rparr>" using re True k ch by (simp add: oseq_def obind_def run_on_index)
        then show ?thesis using found(1) by (simp add: update_record_def restored_as_def)
      next
        case False
        then show ?thesis using re found(1) by auto
      qed
      then have "sound {c} {} (snd (on_host (invalidate_snapshot d (rec_seq_id r)) t))" if "x = Inr u" for u
        using sound_retire [OF t] that by metis
      then show ?thesis using found re t by (cases x) (auto simp: obind_def oseq_def run_on_index)
    qed
  qed
  then show ?thesis unfolding prepare_resumed_chain_def by (intro keeps_when_offload)
qed

lemma drop_failed:
  assumes "sound A V s" "on_host (drop_snapshot d q) s = (Inl err, t)"
  shows "sound A V t"
proof -
  have "saved (host s) \<subseteq> saved (snd (wait_snapshot d q (host s)))" using keepsD [OF saved_wait] by blast
  then have "saved (host s) \<subseteq> saved (host t) \<and> chains t = chains s"
    using assms(2) by (auto simp: on_host_def drop_snapshot_def obind_def split: if_splits prod.splits sum.splits)
  then show ?thesis using assms(1) by (auto simp: sound_def backed_def)
qed

text \<open>Making room drops snapshots; a chain that loses its only copy is evicted with it.\<close>

lemma room_sound:
  assumes "sound {} {c} s" "\<forall>v \<in> set vs. map_of (chain_records (chains s)) (rec_chain_id v) = Some v" "distinct (c # map rec_chain_id vs)"
  shows "sound {} {c} (snd (make_room d old_bytes required vs s))"
  using assms
proof (induction vs arbitrary: s)
  case Nil
  then show ?case by simp
next
  case (Cons v vs)
  let ?drop = "on_host (drop_snapshot d (rec_seq_id v))" and ?id = "rec_chain_id v"
  have v: "map_of (chain_records (chains s)) ?id = Some v" and ok: "chain_ok (chains s)" using Cons.prems by (auto simp: sound_def)
  obtain x t where dr: "?drop s = (x, t)" by fastforce
  have ch: "chains t = chains s" using dr by (auto simp: on_host_def split: prod.splits)
  have "cpu_only {} (chains s) - {rec_seq_id v} \<subseteq> saved (host s)" using Cons.prems(1) by (auto simp: sound_def backed_def)
  moreover have "keeps (\<lambda>h. cpu_only {} (chains s) - {rec_seq_id v} \<subseteq> saved h) (drop_snapshot d (rec_seq_id v))" by (rule saved_drop) simp
  ultimately have "cpu_only {} (chains s) - {rec_seq_id v} \<subseteq> saved (snd (drop_snapshot d (rec_seq_id v) (host s)))" by (auto dest: keepsD)
  then have X: "cpu_only {} (chains s) - {rec_seq_id v} \<subseteq> saved (host t)" using dr by (auto simp: on_host_def split: prod.splits)
  have failed: "sound {} {c} t" if "x = Inl err" for err using drop_failed Cons.prems(1) dr that by blast
  show ?case
  proof (cases "over_budget d old_bytes required s \<and> x = Inr ()")
    case False
    then show ?thesis using Cons.prems(1) dr failed by (cases x) (auto simp: obind_def oseq_def)
  next
    case True
    show ?thesis
    proof (cases "resident_rows v = 0")
      case False
      have "sound {} {c} t" using sound_drop [OF Cons.prems(1) v, of d] False dr by simp
      then show ?thesis using Cons.IH [of t] Cons.prems(2,3) ch True dr False by (simp add: obind_def oseq_def)
    next
      case rows: True
      show ?thesis
      proof (cases "rec_state v")
        case Active
        have "sound {} {c} t" using sound_drop [OF Cons.prems(1) v, of d] Active dr by simp
        moreover have "evict_chain ?id (chains t) = (Inl (ChainCacheError ChainBusy ''Cannot evict ACTIVE chain''), chains t)"
          using v Active ch by (simp add: run_evict)
        ultimately show ?thesis using True dr rows by (simp add: obind_def oseq_def run_on_index)
      next
        case Idle
        let ?i = "removed ''chain_cache_evicted'' ?id v (chains s)" and ?e = "''chain_cache_evicted''"
        have ev: "evict_chain ?id (chains t) = (Inr (v\<lparr>rec_token_ids := []\<rparr>), ?i)" using v Idle ch by (simp add: run_evict)
        have "sound {} {c} (t\<lparr>chains := ?i\<rparr>)"
          using Cons.prems(1,3) removed_ok [OF ok v, of ?e] cpu_only_removed [OF ok v, of "{}" ?e] X
          by (auto simp: sound_def backed_def residents_def removed_fields delete_conv')
        moreover have "?id \<notin> rec_chain_id ` set vs" using Cons.prems(3) by simp
        then have "\<forall>w \<in> set vs. rec_chain_id w \<noteq> ?id" by (metis image_eqI)
        then have "\<forall>w \<in> set vs. map_of (chain_records ?i) (rec_chain_id w) = Some w"
          using Cons.prems(2) by (simp add: removed_fields delete_conv')
        ultimately show ?thesis using Cons.IH [of "t\<lparr>chains := ?i\<rparr>"] Cons.prems(3) True dr rows ev by (simp add: obind_def oseq_def run_on_index)
      qed
    qed
  qed
qed

lemma victims_known:
  assumes "chain_ok (chains s)"
  shows "(\<forall>v \<in> set (snapshot_victims c s). map_of (chain_records (chains s)) (rec_chain_id v) = Some v)
    \<and> distinct (c # map rec_chain_id (snapshot_victims c s))"
proof -
  let ?R = "chain_records (chains s)"
  have keyed: "dict_ok ?R" "\<And>k r. (k, r) \<in> set ?R \<Longrightarrow> rec_chain_id r = k" using assms by (auto simp: chain_ok_defs)
  have "map (rec_chain_id \<circ> snd) ?R = map fst ?R" using keyed(2) by auto
  then have ids: "distinct (map rec_chain_id (map snd ?R))" using keyed(1) by (simp only: map_map)
  have "map_of ?R (rec_chain_id r) = Some r" if "r \<in> set (map snd ?R)" for r
    using that keyed by (auto simp: map_of_eq_Some_iff)
  then show ?thesis using ids by (auto simp: snapshot_victims_def distinct_map distinct_filter inj_on_def)
qed

lemma room_other:
  "c \<notin> rec_chain_id ` set vs \<Longrightarrow> keeps (\<lambda>s. map_of (chain_records (chains s)) c = R) (make_room d old_bytes required vs)"
proof (induction vs)
  case Nil
  show ?case unfolding make_room.simps by (rule keeps_ret)
next
  case (Cons v vs)
  have "keeps (\<lambda>i. map_of (chain_records i) c = R) (evict_chain (rec_chain_id v))"
    by (rule keepsI) (use Cons.prems in \<open>auto simp: run_evict run_lookup removed_fields delete_conv' split: option.splits\<close>)
  then show ?case
    using Cons unfolding make_room.simps
    by (intro keeps_obind keeps_oseq keeps_reads keeps_if keeps_ret keeps_on_host_index [where P = "\<lambda>i. map_of (chain_records i) c = R"]
        keeps_on_index [where P = "\<lambda>i. map_of (chain_records i) c = R"]) auto
qed

lemma obind_oseq: "obind m (\<lambda>x. oseq (f x) n) = oseq (obind m f) n"
  by (rule ext) (auto simp: obind_def oseq_def split: prod.splits sum.splits)

lemma sound_save:
  fixes h :: "('p, 't) chain_hooks"
  shows "keeps (sound {} {c}) (save_finished_chain h c)"
proof -
  let ?at = "\<lambda>r s. sound {} {c} s \<and> map_of (chain_records (chains s)) c = Some r"
  let ?room = "\<lambda>d old_bytes required. obind (reads (\<lambda>s. if over_budget d old_bytes required s then snapshot_victims c s else [])) (make_room d old_bytes required)"
  have room: "keeps (?at r) (?room d old_bytes required)" for r and d :: "('p, 't) offload_device" and old_bytes required
  proof (rule keepsI)
    fix s :: "'p chain_cache"
    assume s: "?at r s"
    note known = victims_known [of s c]
    have "c \<notin> rec_chain_id ` set (snapshot_victims c s)" using known s by (auto simp: sound_def)
    from keepsD [OF room_other [OF this, of "Some r" d old_bytes required], of s]
    show "?at r (snd (?room d old_bytes required s))"
      using known room_sound [of c s "snapshot_victims c s" d old_bytes required] s by (auto simp: obind_def sound_def)
  qed
  have replace: "keeps (?at r) (on_host (save_snapshot d (rec_seq_id r) st))" for r and d :: "('p, 't) offload_device" and st
    by (rule keepsI) (use sound_replace [of "{}" "{c}" _ c _ d st] in \<open>force simp: sound_def residents_def\<close>)
  have pay: "keeps (?at r) (on_payload f)" for r and f :: "('p, 'x) op"
    by (rule keeps_conj [OF sound_payload keeps_on_payload(1) [where P = "\<lambda>i. map_of (chain_records i) c = Some r"]])
  show ?thesis
  proof (rule keepsI)
    fix s :: "'p chain_cache"
    assume s: "sound {} {c} s"
    then obtain r where r: "map_of (chain_records (chains s)) c = Some r" by (auto simp: sound_def residents_def)
    have "keeps (?at r) (obind (on_payload (hook_method_state h (rec_seq_id r))) (\<lambda>st.
       obind (on_payload (bytes_needed d (rec_seq_id r) st)) (\<lambda>required.
       oseq (raise_if (capacity_bytes d < required) (ChainCacheError ChainCapacity ''Whole-chain CPU snapshot exceeds the host budget.''))
       (obind (reads (\<lambda>s. snapshot_bytes (rec_seq_id r) (host s))) (\<lambda>old_bytes.
       obind (reads (\<lambda>s. if over_budget d old_bytes required s then snapshot_victims c s else [])) (\<lambda>candidates.
       oseq (make_room d old_bytes required candidates) (on_host (save_snapshot d (rec_seq_id r) st))))))))" for d :: "('p, 't) offload_device"
      unfolding obind_oseq by (intro keeps_obind keeps_oseq keeps_raise_if keeps_reads pay room replace)
    from keepsD [OF this, of s] show "sound {} {c} (snd (save_finished_chain h c s))"
      using s r by (auto simp: save_finished_chain_def when_offload_def obind_def [of "on_index _"] run_on_index run_lookup split: option.splits)
  qed
qed

text \<open>A finished chain has a row again, and an invalidated chain takes its snapshot with it.\<close>

lemma finish_values_sound:
  assumes s: "sound {} {} s" and run: "finish_values h c q dig n s = (x, t)"
  shows "sound {} {} t \<and> (\<forall>c'. x = Inr c' \<longrightarrow> c' = c \<and> sound {} {c} t)"
proof -
  have "keeps (sound {} {}) (finish_values h c q dig n)"
    unfolding finish_values_def physical_slots_now_def
    by (auto intro!: keeps_obind keeps_oseq keeps_ret keeps_raise_if sound_keeps split: option.splits)
  then have t: "sound {} {} t" using run s by (rule keepsE)
  have "c' = c \<and> residents {c} (chains t)" if x: "x = Inr c'" for c'
  proof -
    obtain slots u where u: "on_index (finish_chain_digest c dig n slots 1) u = (Inr c', t)"
      using run x by (auto simp: finish_values_def obind_def oseq_def split: prod.splits sum.splits)
    show ?thesis
    proof (cases rule: lookup_cases [where s = "chains u" and c = c])
      case (found r)
      then show ?thesis using u by (auto simp: run_on_index run_finish_digest residents_def finished_def altered_def finished_as_def split: if_splits)
    next
      case (absent err)
      then show ?thesis using u by (simp add: run_on_index finish_chain_digest_def obind_def)
    qed
  qed
  then show ?thesis using t by (auto simp: sound_def)
qed

text \<open>Dropping the snapshot of a chain and then removing the chain.\<close>

lemma sound_drop_remove:
  assumes s: "sound {} {} s" and r: "map_of (chain_records (chains s)) c = Some r" and dr: "on_host (drop_snapshot d (rec_seq_id r)) s = (x, t)"
    and name: "name \<in> {''chain_cache_evicted'', ''chain_cache_invalidated''}"
  shows "sound {} {} (t\<lparr>chains := removed name c r (chains t)\<rparr>) \<and> chains t = chains s"
proof -
  let ?Y = "cpu_only {} (chains s) - {rec_seq_id r}"
  have ok: "chain_ok (chains s)" using s by (simp add: sound_def)
  have ch: "chains t = chains s" using dr by (auto simp: on_host_def split: prod.splits)
  have "keeps (\<lambda>h. ?Y \<subseteq> saved h) (drop_snapshot d (rec_seq_id r))" by (rule saved_drop) simp
  then have "?Y \<subseteq> saved (snd (drop_snapshot d (rec_seq_id r) (host s)))" using s by (auto simp: sound_def backed_def dest!: keepsD [of _ _ "host s"])
  then have "?Y \<subseteq> saved (host t)" using dr by (auto simp: on_host_def split: prod.splits)
  then show ?thesis
    using removed_ok [OF ok r name] cpu_only_removed [OF ok r, of "{}" name] ch
    by (auto simp: sound_def backed_def residents_def)
qed

lemma sound_invalidate:
  fixes h :: "('p, 't) chain_hooks"
  shows "keeps (sound {} {}) (coordinator_invalidate h c)"
proof (rule keepsI)
  fix s :: "'p chain_cache"
  assume s: "sound {} {} s"
  show "sound {} {} (snd (coordinator_invalidate h c s))"
  proof (cases rule: lookup_cases [where s = "chains s" and c = c])
    case (absent err)
    then show ?thesis using s by (auto simp: coordinator_invalidate_def when_offload_def invalidate_chain_def oseq_def obind_def run_on_index split: option.splits)
  next
    case (found r)
    have ok: "chain_ok (chains s)" using s by (simp add: sound_def)
    show ?thesis
    proof (cases "offload h")
      case None
      have "idle_in {} (saved (host s)) (removed ''chain_cache_invalidated'' c r (chains s))"
        using s removed_ok [OF ok found(1)] cpu_only_removed [OF ok found(1), of "{}"] by (fastforce simp: idle_in_def sound_def backed_def)
      then show ?thesis
        using None found by (simp add: coordinator_invalidate_def when_offload_def oseq_def obind_def run_on_index run_invalidate sound_def backed_def idle_in_def residents_def)
    next
      case (Some d)
      obtain x t where dr: "on_host (drop_snapshot d (rec_seq_id r)) s = (x, t)" by fastforce
      note rm = sound_drop_remove [OF s found(1) dr, of "''chain_cache_invalidated''"]
      show ?thesis
      proof (cases x)
        case (Inl err)
        then show ?thesis using drop_failed s dr Some found by (auto simp: coordinator_invalidate_def when_offload_def oseq_def obind_def run_on_index)
      next
        case (Inr u)
        then show ?thesis
          using rm dr Some found by (auto simp: coordinator_invalidate_def when_offload_def oseq_def obind_def run_on_index run_invalidate)
      qed
    qed
  qed
qed

text \<open>The victims of a fresh plan have rows, and those with a snapshot are demoted instead.\<close>

definition fresh_plan :: "chain_plan \<Rightarrow> 'p chain_cache \<Rightarrow> bool" where
  "fresh_plan p s \<longleftrightarrow> residents (set (victim_chain_ids p)) (chains s) \<and> set (demote_chain_ids p) \<inter> set (victim_chain_ids p) = {}"

lemma loop_victims: "victim_loop L rows slots acc = (rows', slots', victims) \<Longrightarrow> set victims \<subseteq> set acc \<union> rec_chain_id ` set L"
  by (induction L arbitrary: rows slots acc) (fastforce split: if_splits)+

lemma selected_resident:
  assumes ok: "chain_ok i" and run: "select_victims c required deficit i = (Inr victims, j)"
  shows "residents (set victims) i"
proof -
  obtain rows' slots' vs where loop: "victim_loop (lru_candidates c i) (max 0 deficit) (map (max 0) required) [] = (rows', slots', vs)" by (metis prod_cases3)
  have "victims = vs \<or> victims = []" using run loop by (auto simp: select_victims_def obind_def Let_def lru_candidates_def split: if_splits)
  moreover have "\<exists>r. map_of (chain_records i) v = Some r \<and> resident_rows r \<noteq> 0" if v: "v \<in> set vs" for v
  proof -
    obtain r where "r \<in> set (lru_candidates c i)" "v = rec_chain_id r" using loop_victims [OF loop] v by auto
    then obtain k where "(k, r) \<in> set (chain_records i)" "0 < resident_rows r" by (auto simp: lru_candidates_def idle_resident_lru_def)
    moreover from this have "k = v" "map_of (chain_records i) k = Some r" using ok \<open>v = rec_chain_id r\<close> by (auto simp: chain_ok_defs)
    ultimately show ?thesis by auto
  qed
  ultimately show ?thesis by (auto simp: residents_def)
qed

lemma plan_with_fresh:
  assumes s: "index_ok s" and run: "plan_with h c q input reserved s = (Inr p, t)"
  shows "fresh_plan p t"
proof -
  obtain req u where u: "admission_requirements h c (input_count input) reserved s = (Inr req, u)"
    using run by (auto simp: plan_with_def obind_def split: prod.splits sum.splits)
  obtain required rows deficits row_deficit where req: "req = (required, rows, deficits, row_deficit)" by (metis prod_cases4)
  have ok: "chain_ok (chains u)" using keepsE [OF keeps_requirements [where P = chain_ok] u s] .
  obtain p0 i where pl: "plan_chain_admission (chain_sha256 h) c q input (chain_fingerprint h) deficits row_deficit required rows (chains u) = (Inr p0, i)"
    using run u req by (auto simp: plan_with_def obind_def on_index_def split: prod.splits sum.splits)
  have i: "i = chains u" by (rule plan_made [OF pl])
  have "select_victims c deficits row_deficit (chains u) = (Inr (victim_chain_ids p0), chains u)" by (rule plan_made [OF pl])
  note res = selected_resident [OF ok this]
  obtain p1 where p1: "offload_plan h p0 (u\<lparr>chains := i\<rparr>) = (Inr p1, t)" "p = p1\<lparr>plan_decode_reserved_slots := reserved\<rparr>"
  proof -
    from run u req pl obtain p1 t' where "offload_plan h p0 (u\<lparr>chains := i\<rparr>) = (Inr p1, t')" "p = p1\<lparr>plan_decode_reserved_slots := reserved\<rparr>" "t' = t"
      by (auto simp: plan_with_def obind_def on_index_def split: prod.splits sum.splits)
    then show ?thesis using that by blast
  qed
  have t: "t = u" using p1(1) i by (auto simp: offload_plan_def split: option.splits)
  have none: "demote_chain_ids p0 = []"
    using pl by (auto simp: plan_chain_admission_def obind_def split: prod.splits sum.splits)
  show ?thesis
    using p1 i res none unfolding t fresh_plan_def
    by (auto simp: offload_plan_def residents_def Let_def split: option.splits if_splits)
qed

lemma sound_plan: "keeps (sound A {}) (plan_with h c q input reserved)"
proof -
  have loop: "keeps (sound A {}) (outstanding_active_loop h X cs outs rows)" for X cs outs rows
  proof (induction cs arbitrary: outs rows)
    case Nil
    show ?case unfolding outstanding_active_loop.simps by (rule keeps_ret)
  next
    case (Cons c cs)
    have "keeps (sound A {}) (current_slots h r b)" for r b
      unfolding current_slots_def by (cases "hook_physical_residency h") (auto intro!: keeps_ret sound_keeps)
    moreover have "keeps (sound A {}) (case hook_has_residency h of None \<Rightarrow> ret False | Some f \<Rightarrow> on_payload (f q))" for q
      by (cases "hook_has_residency h") (auto intro!: keeps_ret sound_keeps)
    ultimately show ?case
      unfolding outstanding_active_loop.simps by (intro keeps_obind keeps_reads keeps_if Cons.IH)
  qed
  show ?thesis
    unfolding plan_with_def admission_requirements_def outstanding_active_reservations_def offload_plan_def
    by (auto intro!: keeps_intro sound_keeps loop split: option.splits prod.splits)
qed

end
