(* ===== verification/Scheduler.thy ===== *)
theory Scheduler
  imports Sequences State_Result
begin

text \<open>
  The request scheduler (\<^verbatim>\<open>engine/scheduler.py\<close>).  Its state holds the two queues of requests,
  the request objects, the timers and counters, and the state of the memory oracle behind the
  protocol \<open>MemoryOracle\<close> of \<^verbatim>\<open>engine/runtime_state.py\<close>.  Request ids are unique, so the queues hold
  ids and \<open>requests\<close> is the heap of the \<open>Sequence\<close> objects.  Every call of the oracle or of a
  callback may raise; queries may read every request (the reservations of \<open>RuntimeState\<close> hold request
  objects) and change the oracle's own state, hooks also the requests they are given.  Debug logging is left out.  Times are rationals; each call of \<open>time.monotonic()\<close> takes the
  next reading of \<open>clock\<close>.
\<close>

section \<open>Data\<close>

datatype sched_phase = PrefillPhase | DecodePhase

record phase_decision =
  pd_phase :: sched_phase
  pd_reason :: string
  pd_switched :: bool
  pd_previous_phase_seconds :: rat
  pd_decode_batch :: nat
  pd_prefill_waits :: "(nat \<times> bool \<times> rat) list"

record ('d, 'o) scheduler =
  waiting :: "nat list"
  decoding :: "nat list"
  requests :: "nat \<Rightarrow> 'd sequence"
  oracle_state :: 'o
  phase :: sched_phase
  prefill_wait_since :: "(nat, rat) dict"
  phase_started_at :: rat
  last_phase_decision :: "phase_decision option"
  phase_reason :: string
  defer_warned :: "nat set"
  total_preemptions :: int
  total_recompute_replays :: int
  async_inflight :: nat
  clock :: "nat \<Rightarrow> rat"
  clock_readings :: nat
  skipped_prefill :: "nat list"

text \<open>
  \<open>skipped_prefill\<close> is the local deque of the same name of \<open>_schedule_impl\<close>; it is part of the state
  because its \<open>finally\<close> block reads it after an exception.
\<close>

datatype 'k compatibility = Hashable 'k | Unhashable

type_synonym ('d, 'o, 'a) oracle_op = "(nat \<Rightarrow> 'd sequence) \<Rightarrow> ('o, 'a) op"
type_synonym ('d, 'o, 'a) query = "'d sequence \<Rightarrow> ('d, 'o, 'a) oracle_op"
type_synonym ('d, 'o) hook = "('d sequence \<times> 'o, unit) op"
type_synonym ('d, 'o, 'a) heap_hook = "((nat \<Rightarrow> 'd sequence) \<times> 'o, 'a) op"
type_synonym ('d, 'o, 'a) sched_op = "(('d, 'o) scheduler, 'a) op"

record ('d, 'o, 'k, 'r) memory_oracle =
  num_free_slots :: "('d, 'o, int) oracle_op"
  reserve_decode_windows :: "nat list \<Rightarrow> nat list \<Rightarrow> ('d, 'o, nat option) heap_hook"
  prefill_batched_tokens_margin :: "('d, 'o, int) oracle_op"
  remaining_prefill_tokens :: "('d, 'o, int) query"
  oracle_execution_mode :: "('d, 'o, string) query"
  prefill_batch_compatibility_key :: "('d, 'o, 'k compatibility) query"
  reset_prefill_execution_state :: "nat \<Rightarrow> ('d, 'o, unit) oracle_op"
  complete_prefill_execution :: "('d, 'o) hook"
  reserved_prefill_slots :: "'d sequence list \<Rightarrow> int \<Rightarrow> ('d, 'o, int) oracle_op"
  should_schedule_full_prefill :: "('d, 'o, bool) query"
  prefill_step_free_slots :: "('d, 'o, int) oracle_op"
  prefill_step_free_slots_for :: "('d, 'o, int) query"
  prefill_private_slots_for :: "('d, 'o, int) query"
  min_final_prefill_chunk_size :: "('d, 'o, int) query"
  prefill_step_reservation_cost :: "int \<Rightarrow> ('d, 'o, int) query"
  decode_step_free_slots :: "('d, 'o, int) oracle_op"
  decode_step_free_slots_for :: "('d, 'o, int) query"
  decode_step_reservation_cost :: "('d, 'o, int) query"
  prompt_admission_free_slots :: "('d, 'o, int) oracle_op"
  prompt_admission_budgets :: "'d sequence list \<Rightarrow> int \<Rightarrow> ('d, 'o, (string, int) dict) oracle_op"
  prompt_admission_costs :: "('d, 'o, (string, int) dict) query"
  prompt_admission_shared_costs :: "('d, 'o, (string, ('r, int) dict) dict) query option"
  prompt_logical_reservation_cost :: "('d, 'o, int) query"
  prompt_admission_failure_action :: "('d, 'o, string) oracle_op"
  on_prompt_admitted :: "(string, int) dict \<Rightarrow> ('d, 'o) hook"
  refresh_prefix_cache_hit :: "('d, 'o) hook"
  clear_prefix_cache_hit :: "('d, 'o) hook"
  scheduler_capacity_snapshot :: "(('d, 'o, unit) oracle_op \<times> ('d, 'o, unit) oracle_op) option"
  free_slot_stats :: "('d, 'o, (string, int) dict) oracle_op"

record ('d, 'o, 'k, 'r) sched_env =
  max_num_seqs_in_batch :: int
  max_num_batched_tokens :: int
  max_decoding_seqs :: int
  favor_min_decoding_seqs :: int
  engine_prefill_chunk_size :: int
  sched_eos_token_ids :: "int list"
  memory_oracle :: "('d, 'o, 'k, 'r) memory_oracle"
  prefix_cache_hit_refresher :: "('d, 'o) hook"
  prefix_cache_hits_refresher :: "(nat list \<Rightarrow> ('d, 'o, unit) heap_hook) option"
  decode_capacity_reclaimer :: "(nat \<Rightarrow> ('d, 'o, nat option) heap_hook) option"
  prefill_capacity_reclaimer :: "(nat \<Rightarrow> ('d, 'o, bool) heap_hook) option"

text \<open>\<open>__init__\<close>: the refresher falls back to the oracle's, the queues are empty.\<close>

definition resolve_refresher :: "('d, 'o, 'k, 'r) memory_oracle \<Rightarrow> ('d, 'o) hook option \<Rightarrow> ('d, 'o) hook" where
  "resolve_refresher mo f = (case f of None \<Rightarrow> refresh_prefix_cache_hit mo | Some h \<Rightarrow> h)"

definition init_scheduler :: "(nat \<Rightarrow> 'd sequence) \<Rightarrow> 'o \<Rightarrow> (nat \<Rightarrow> rat) \<Rightarrow> ('d, 'o) scheduler" where
  "init_scheduler heap ost readings = \<lparr>waiting = [], decoding = [], requests = heap, oracle_state = ost,
     phase = PrefillPhase, prefill_wait_since = [], phase_started_at = readings 0, last_phase_decision = None,
     phase_reason = ''prefill_priority'', defer_warned = {}, total_preemptions = 0, total_recompute_replays = 0,
     async_inflight = 0, clock = readings, clock_readings = 1, skipped_prefill = []\<rparr>"

section \<open>Calls, reads and writes\<close>

definition on_oracle :: "('d, 'o, 'a) oracle_op \<Rightarrow> ('d, 'o, 'a) sched_op" where
  "on_oracle m s = (case m (requests s) (oracle_state s) of (r, ost) \<Rightarrow> (r, s\<lparr>oracle_state := ost\<rparr>))"

definition ask :: "('d, 'o, 'a) query \<Rightarrow> nat \<Rightarrow> ('d, 'o, 'a) sched_op" where
  "ask m r s = on_oracle (m (requests s r)) s"

definition run_hook :: "('d, 'o) hook \<Rightarrow> nat \<Rightarrow> ('d, 'o, unit) sched_op" where
  "run_hook m r s = (case m (requests s r, oracle_state s) of
     (x, q, ost) \<Rightarrow> (x, s\<lparr>requests := (requests s)(r := q), oracle_state := ost\<rparr>))"

definition on_heap :: "('d, 'o, 'a) heap_hook \<Rightarrow> ('d, 'o, 'a) sched_op" where
  "on_heap m s = (case m (requests s, oracle_state s) of
     (x, heap, ost) \<Rightarrow> (x, s\<lparr>requests := heap, oracle_state := ost\<rparr>))"

definition update_request :: "nat \<Rightarrow> ('d sequence \<Rightarrow> 'd sequence) \<Rightarrow> ('d, 'o, unit) sched_op" where
  "update_request r f = writes (\<lambda>s. s\<lparr>requests := (requests s)(r := f (requests s r))\<rparr>)"

definition on_request :: "nat \<Rightarrow> ('d sequence \<Rightarrow> 'd sequence result) \<Rightarrow> ('d, 'o, unit) sched_op" where
  "on_request r f s = (case f (requests s r) of
     Inl x \<Rightarrow> (Inl x, s) | Inr q \<Rightarrow> (Inr (), s\<lparr>requests := (requests s)(r := q)\<rparr>))"

definition monotonic :: "('d, 'o, rat) sched_op" where
  "monotonic s = (Inr (clock s (clock_readings s)), s\<lparr>clock_readings := Suc (clock_readings s)\<rparr>)"

definition wait_setdefault :: "nat \<Rightarrow> rat \<Rightarrow> ('d, 'o, unit) sched_op" where
  "wait_setdefault r t = writes (\<lambda>s. if map_of (prefill_wait_since s) r = None
     then s\<lparr>prefill_wait_since := AList.update r t (prefill_wait_since s)\<rparr> else s)"

definition decoding_remove :: "nat \<Rightarrow> ('d, 'o, unit) sched_op" where
  "decoding_remove r s = (if r \<in> set (decoding s) then (Inr (), s\<lparr>decoding := remove1 r (decoding s)\<rparr>)
     else (Inl (ValueError ''deque.remove(x): x not in deque''), s))"

definition ofinally :: "('s, 'a) op \<Rightarrow> ('s \<Rightarrow> 's) \<Rightarrow> ('s, 'a) op" where
  "ofinally m f s = (case m s of (r, s') \<Rightarrow> (r, f s'))"

section \<open>Prefill buckets\<close>

definition validate_prefill_execution_mode :: "string \<Rightarrow> string result" where
  "validate_prefill_execution_mode m =
     (if m \<in> {''chunked'', ''full'', ''raw_offload''} then Inr m
      else Inl (ValueError ''Unsupported prefill execution mode''))"

definition prefill_execution_mode :: "('d, 'o, 'k, 'r) sched_env \<Rightarrow> nat \<Rightarrow> ('d, 'o, string) sched_op" where
  "prefill_execution_mode e r =
     obind (ask (oracle_execution_mode (memory_oracle e)) r) (\<lambda>m. lift_result (\<lambda>_. validate_prefill_execution_mode m))"

definition prefill_batch_key :: "('d, 'o, 'k, 'r) sched_env \<Rightarrow> nat \<Rightarrow> ('d, 'o, string \<times> 'k) sched_op" where
  "prefill_batch_key e r =
     obind (prefill_execution_mode e r) (\<lambda>mode.
     obind (ask (prefill_batch_compatibility_key (memory_oracle e)) r) (\<lambda>key.
     case key of Hashable k \<Rightarrow> ret (mode, k)
       | Unhashable \<Rightarrow> raise_error (TypeError ''prefill_batch_compatibility_key must be hashable'')))"

definition prefill_execution_mode_counts :: "('d, 'o, 'k, 'r) sched_env \<Rightarrow> ('d, 'o, (string, nat) dict) sched_op" where
  "prefill_execution_mode_counts e =
     obind (reads waiting) (\<lambda>rs.
     obind (omap (prefill_execution_mode e) rs) (\<lambda>modes.
     ret (map (\<lambda>m. (m, length (filter (\<lambda>m'. m' = m) modes))) [''chunked'', ''full'', ''raw_offload''])))"

definition prefill_execution_mode_for_batch :: "('d, 'o, 'k, 'r) sched_env \<Rightarrow> nat list \<Rightarrow> ('d, 'o, string) sched_op" where
  "prefill_execution_mode_for_batch e rs =
     obind (omap (prefill_batch_key e) rs) (\<lambda>keys.
     case remdups keys of [k] \<Rightarrow> ret (fst k)
       | _ \<Rightarrow> raise_error (RuntimeError ''Scheduler produced an incompatible prefill batch''))"

definition is_fresh :: "'d sequence \<Rightarrow> bool" where
  "is_fresh q \<longleftrightarrow> num_prefilled_tokens q = 0 \<and> num_completion_tokens q = 0"

definition refresh_prefill_metadata :: "('d, 'o, 'k, 'r) sched_env \<Rightarrow> nat \<Rightarrow> ('d, 'o, unit) sched_op" where
  "refresh_prefill_metadata e r =
     obind (reads (\<lambda>s. is_fresh (requests s r))) (\<lambda>fresh.
     if fresh then run_hook (prefix_cache_hit_refresher e) r else ret ())"

definition any_replay :: "('d, 'o) scheduler \<Rightarrow> nat list \<Rightarrow> bool" where
  "any_replay s rs \<longleftrightarrow> (\<exists>r \<in> set rs. is_recompute_replay (requests s r))"

text \<open>The guard of candidates: replays go first, and fresh prompts wait while the decode set is full.\<close>

definition prefill_eligible :: "('d, 'o, 'k, 'r) sched_env \<Rightarrow> bool \<Rightarrow> ('d, 'o) scheduler \<Rightarrow> nat \<Rightarrow> bool" where
  "prefill_eligible e replay_pending s r \<longleftrightarrow>
     (\<not> replay_pending \<or> is_recompute_replay (requests s r))
     \<and> \<not> (max_decoding_seqs e \<le> int (length (decoding s)) \<and> num_prefilled_tokens (requests s r) = 0)"

fun collect_modes :: "('d, 'o, 'k, 'r) sched_env \<Rightarrow> nat list \<Rightarrow> (string \<times> 'k) list \<Rightarrow> ('d, 'o, (string \<times> 'k) list) sched_op" where
  "collect_modes e [] modes = ret modes"
| "collect_modes e (r # rs) modes =
     oseq (if prefix_cache_hits_refresher e = None then refresh_prefill_metadata e r else ret ())
     (obind (prefill_batch_key e r) (\<lambda>k.
      collect_modes e rs (if k \<in> set modes then modes else modes @ [k])))"

definition prefill_mode_order :: "('d, 'o, 'k, 'r) sched_env \<Rightarrow> ('d, 'o, (string \<times> 'k) list) sched_op" where
  "prefill_mode_order e =
     obind (reads (\<lambda>s. filter (prefill_eligible e (any_replay s (waiting s)) s) (waiting s))) (\<lambda>candidates.
     obind (reads (\<lambda>s. filter (\<lambda>r. is_fresh (requests s r)) candidates)) (\<lambda>fresh.
     oseq (case prefix_cache_hits_refresher e of
             Some f \<Rightarrow> if fresh \<noteq> [] then on_heap (f fresh) else ret () | None \<Rightarrow> ret ())
     (collect_modes e candidates [])))"

text \<open>The loop ends when the queue is empty; the bound is the length of the queue.\<close>

fun pop_loop :: "('d, 'o, 'k, 'r) sched_env \<Rightarrow> string \<times> 'k \<Rightarrow> bool \<Rightarrow> nat \<Rightarrow> ('d, 'o, nat option) sched_op" where
  "pop_loop e target replay_pending 0 = ret None"
| "pop_loop e target replay_pending (Suc n) =
     obind (reads waiting) (\<lambda>rs. case rs of [] \<Rightarrow> ret None
     | r # _ \<Rightarrow>
       obind (reads (\<lambda>s. prefill_eligible e replay_pending s r)) (\<lambda>eligible.
       obind (if eligible then prefill_batch_key e r else ret target) (\<lambda>k.
       if eligible \<and> k = target then oseq (writes (\<lambda>s. s\<lparr>waiting := tl (waiting s)\<rparr>)) (ret (Some r))
       else oseq (writes (\<lambda>s. s\<lparr>skipped_prefill := skipped_prefill s @ [r], waiting := tl (waiting s)\<rparr>))
              (pop_loop e target replay_pending n))))"

definition pop_next_prefill_seq :: "('d, 'o, 'k, 'r) sched_env \<Rightarrow> string \<times> 'k \<Rightarrow> bool \<Rightarrow> ('d, 'o, nat option) sched_op" where
  "pop_next_prefill_seq e target replay_pending =
     obind (reads (\<lambda>s. length (waiting s))) (\<lambda>n. pop_loop e target replay_pending n)"

section \<open>Queues\<close>

definition is_finished :: "('d, 'o) scheduler \<Rightarrow> bool" where
  "is_finished s \<longleftrightarrow> waiting s = [] \<and> decoding s = []"

definition add_request :: "nat \<Rightarrow> ('d, 'o, unit) sched_op" where
  "add_request r =
     obind (reads is_finished) (\<lambda>idle.
     oseq (if idle then obind monotonic (\<lambda>t. writes (\<lambda>s. s\<lparr>phase := PrefillPhase, phase_started_at := t\<rparr>)) else ret ())
     (obind monotonic (\<lambda>t.
     oseq (wait_setdefault r t)
     (writes (\<lambda>s. s\<lparr>waiting := waiting s @ [r]\<rparr>)))))"

datatype queue_name = Waiting | Decoding

definition get_queue :: "queue_name \<Rightarrow> ('d, 'o) scheduler \<Rightarrow> nat list" where
  "get_queue w s = (case w of Waiting \<Rightarrow> waiting s | Decoding \<Rightarrow> decoding s)"

definition set_queue :: "queue_name \<Rightarrow> nat list \<Rightarrow> ('d, 'o) scheduler \<Rightarrow> ('d, 'o) scheduler" where
  "set_queue w rs s = (case w of Waiting \<Rightarrow> s\<lparr>waiting := rs\<rparr> | Decoding \<Rightarrow> s\<lparr>decoding := rs\<rparr>)"

definition may_own_slots :: "queue_name \<Rightarrow> 'd sequence \<Rightarrow> bool" where
  "may_own_slots w q \<longleftrightarrow> status q = RUNNING \<or> 0 < num_prefilled_tokens q \<or> w = Decoding"

text \<open>One queue of \<open>abort_many\<close>: \<open>n\<close> is its length, \<open>retained\<close> the local deque (lost by an exception).\<close>

fun abort_loop :: "('d, 'o, 'k, 'r) sched_env \<Rightarrow> queue_name \<Rightarrow> nat set \<Rightarrow> nat \<Rightarrow> nat list \<Rightarrow> (nat, bool) dict
    \<Rightarrow> ('d, 'o, (nat, bool) dict) sched_op" where
  "abort_loop e w requested 0 retained removed =
     oseq (writes (\<lambda>s. set_queue w (get_queue w s @ retained) s)) (ret removed)"
| "abort_loop e w requested (Suc n) retained removed =
     obind (reads (\<lambda>s. hd (get_queue w s))) (\<lambda>r.
     oseq (writes (\<lambda>s. set_queue w (tl (get_queue w s)) s))
     (if r \<notin> requested then abort_loop e w requested n (retained @ [r]) removed
      else obind (reads (\<lambda>s. may_own_slots w (requests s r))) (\<lambda>own.
        oseq (update_request r (\<lambda>q. q\<lparr>status := FINISHED\<rparr>))
        (oseq (writes (\<lambda>s. s\<lparr>defer_warned := defer_warned s - {r}\<rparr>))
        (oseq (on_oracle (reset_prefill_execution_state (memory_oracle e) r))
        (abort_loop e w requested n retained
           (AList.update r (map_of removed r = Some True \<or> own) removed)))))))"

definition abort_queue :: "('d, 'o, 'k, 'r) sched_env \<Rightarrow> queue_name \<Rightarrow> nat set \<Rightarrow> (nat, bool) dict
    \<Rightarrow> ('d, 'o, (nat, bool) dict) sched_op" where
  "abort_queue e w requested removed =
     obind (reads (\<lambda>s. length (get_queue w s))) (\<lambda>n. abort_loop e w requested n [] removed)"

definition abort_many :: "('d, 'o, 'k, 'r) sched_env \<Rightarrow> nat list \<Rightarrow> ('d, 'o, (nat, bool) dict) sched_op" where
  "abort_many e ids =
     (if ids = [] then ret []
      else oseq (writes (\<lambda>s. s\<lparr>prefill_wait_since := filter (\<lambda>kv. fst kv \<notin> set ids) (prefill_wait_since s)\<rparr>))
        (obind (abort_queue e Waiting (set ids) []) (abort_queue e Decoding (set ids))))"

definition abort_request :: "('d, 'o, 'k, 'r) sched_env \<Rightarrow> nat \<Rightarrow> ('d, 'o, bool) sched_op" where
  "abort_request e r = obind (abort_many e [r]) (\<lambda>removed. ret (map_of removed r = Some True))"

definition request_may_own_slots :: "nat \<Rightarrow> ('d, 'o) scheduler \<Rightarrow> bool" where
  "request_may_own_slots r s =
     (if r \<in> set (waiting s) then may_own_slots Waiting (requests s r)
      else if r \<in> set (decoding s) then may_own_slots Decoding (requests s r) else False)"

definition reserved_prefill_tokens :: "('d, 'o, 'k, 'r) sched_env \<Rightarrow> ('d, 'o, int) sched_op" where
  "reserved_prefill_tokens e =
     obind (reads (\<lambda>s. map (requests s) (waiting s))) (\<lambda>qs.
     on_oracle (reserved_prefill_slots (memory_oracle e) qs (engine_prefill_chunk_size e)))"

section \<open>Chunk sizes\<close>

text \<open>The local variables of \<open>_schedule_impl\<close> that the prefill scan updates.\<close>

record 'r prefill_run =
  scheduled_seqs :: "nat list"
  num_batched_seqs :: int
  num_batched_tokens :: int
  step_free_count :: int
  prompt_logical_free_count :: int
  admission_budgets :: "(string, int) dict"
  charged_shared_resources :: "string \<Rightarrow> 'r set"
  deferred_prompt_failure :: "(nat \<times> string \<times> int \<times> int) option"
  blocked_prefill_step_failure :: "(nat \<times> int \<times> int) option"
  blocked_prefill_capacity_failure :: "(nat \<times> int \<times> int \<times> int) option"
  blocked_final_prefill_window_failure :: "(nat \<times> int \<times> int) option"

definition can_continue_prefill_batch :: "('d, 'o, 'k, 'r) sched_env \<Rightarrow> string \<Rightarrow> 'r prefill_run \<Rightarrow> int
    \<Rightarrow> ('d, 'o) scheduler \<Rightarrow> bool" where
  "can_continue_prefill_batch e mode run margin s =
     (if waiting s = [] then False
      else if scheduled_seqs run \<noteq> [] \<and> is_recompute_replay (requests s (hd (scheduled_seqs run))) then False
      else if mode = ''raw_offload'' then scheduled_seqs run = [] \<and> 0 < step_free_count run
      else num_batched_tokens run \<le> max_num_batched_tokens e - margin
           \<and> num_batched_seqs run < max_num_seqs_in_batch e)"

definition prefill_step_tokens :: "('d, 'o, 'k, 'r) sched_env \<Rightarrow> string \<Rightarrow> int \<Rightarrow> int \<Rightarrow> int \<Rightarrow> int result" where
  "prefill_step_tokens e mode remaining batched free =
     (if mode = ''full''
      then (let available = min (max_num_batched_tokens e - batched) free
            in Inr (if remaining \<le> available then remaining else 0))
      else if mode = ''chunked'' \<or> mode = ''raw_offload''
      then Inr (min remaining (min (engine_prefill_chunk_size e) (min (max_num_batched_tokens e - batched) free)))
      else Inl (ValueError ''Unknown prefill execution mode''))"

definition respect_min_final_prefill_chunk :: "('d, 'o, 'k, 'r) sched_env \<Rightarrow> nat \<Rightarrow> int \<Rightarrow> int \<Rightarrow> ('d, 'o, int) sched_op" where
  "respect_min_final_prefill_chunk e r remaining proposed =
     obind (ask (min_final_prefill_chunk_size (memory_oracle e)) r) (\<lambda>min_final.
     oseq (raise_if (min_final < 0) (ValueError ''min_final_prefill_chunk_size must be non-negative''))
     (ret (if min_final = 0 \<or> remaining - proposed \<le> 0 \<or> min_final \<le> remaining - proposed then proposed
           else max 0 (remaining - min_final))))"

section \<open>Preemption\<close>

type_synonym schedule_result = "nat list \<times> bool \<times> nat list"

text \<open>The victim starts over, the survivors get a new progress checkpoint.\<close>

definition restart_victim :: "('d, 'o, 'k, 'r) sched_env \<Rightarrow> nat \<Rightarrow> ('d, 'o, unit) sched_op" where
  "restart_victim e victim =
     oseq (update_request victim (\<lambda>q. q\<lparr>status := WAITING\<rparr>))
     (obind (reads (\<lambda>s. 0 < num_completion_tokens (requests s victim))) (\<lambda>replay.
     oseq (if replay
           then oseq (on_request victim start_recompute_replay)
                  (writes (\<lambda>s. s\<lparr>total_recompute_replays := total_recompute_replays s + 1\<rparr>))
           else update_request victim (\<lambda>q. q\<lparr>num_prefilled_tokens := 0\<rparr>))
     (obind (reads decoding) (\<lambda>survivors.
     oseq (ofor survivors (\<lambda>r. update_request r (\<lambda>q. q\<lparr>decode_progress_checkpoint := num_completion_tokens q\<rparr>)))
     (oseq (run_hook (clear_prefix_cache_hit (memory_oracle e)) victim)
     (oseq (on_oracle (reset_prefill_execution_state (memory_oracle e) victim))
     (obind monotonic (wait_setdefault victim))))))))"

text \<open>A sole decode request that made no progress since its last handoff may not be preempted.\<close>

definition sole_decode :: "nat \<Rightarrow> ('d, 'o) scheduler \<Rightarrow> bool" where
  "sole_decode victim s \<longleftrightarrow> 0 < num_completion_tokens (requests s victim) \<and> decoding s = []
     \<and> \<not> (any_replay s (waiting s)
          \<and> decode_progress_checkpoint (requests s victim) < num_completion_tokens (requests s victim))"

definition preempt_decode_victim :: "('d, 'o, 'k, 'r) sched_env \<Rightarrow> nat \<Rightarrow> nat list \<Rightarrow> nat list
    \<Rightarrow> ('d, 'o, schedule_result) sched_op" where
  "preempt_decode_victim e victim scheduled preempted =
     obind (reads async_inflight) (\<lambda>inflight.
     if inflight \<noteq> 0
     then oseq (writes (\<lambda>s. s\<lparr>decoding := scheduled @ victim # decoding s\<rparr>))
            (raise_error (AsyncDrainRequired ''Preemption requires completed in-flight KV users''))
     else
     obind (reads (sole_decode victim)) (\<lambda>sole.
     if sole
     then oseq (writes (\<lambda>s. s\<lparr>decoding := scheduled @ victim # decoding s\<rparr>))
            (raise_error (RuntimeError ''KV cache is too small for the sole remaining decode request''))
     else
     oseq (restart_victim e victim)
     (oseq (writes (\<lambda>s. s\<lparr>waiting := waiting s @ [victim], decoding := scheduled @ decoding s,
                          total_preemptions := total_preemptions s + 1\<rparr>))
     (oseq (on_oracle (free_slot_stats (memory_oracle e)))
     (ret ([], False, preempted @ [victim]))))))"

fun eligible_decode_loop :: "('d, 'o, 'k, 'r) sched_env \<Rightarrow> int \<Rightarrow> nat list \<Rightarrow> nat list \<Rightarrow> ('d, 'o, nat list) sched_op" where
  "eligible_decode_loop e free batch [] = ret batch"
| "eligible_decode_loop e free batch (r # rs) =
     obind (reads (\<lambda>s. requests s r)) (\<lambda>q.
     if max_tokens q \<le> num_completion_tokens q + num_pending_outputs q then eligible_decode_loop e free batch rs
     else
     obind (ask (decode_step_reservation_cost (memory_oracle e)) r) (\<lambda>cost.
     obind (ask (decode_step_free_slots_for (memory_oracle e)) r) (\<lambda>mine.
     if min free mine < cost
     then (if free \<le> 0 then ret batch else eligible_decode_loop e free batch rs)
     else if int (length (batch @ [r])) = max_decoding_seqs e then ret (batch @ [r])
     else eligible_decode_loop e (free - cost) (batch @ [r]) rs)))"

definition eligible_decode_batch :: "('d, 'o, 'k, 'r) sched_env \<Rightarrow> ('d, 'o, nat list) sched_op" where
  "eligible_decode_batch e =
     obind (reads decoding) (\<lambda>rs.
     if rs = [] then ret []
     else obind (on_oracle (decode_step_free_slots (memory_oracle e))) (\<lambda>free.
          eligible_decode_loop e (max 0 free) [] rs))"

section \<open>Before the prefill scan\<close>

text \<open>Renew the decode windows; a callback may reclaim capacity for the request that failed.\<close>

definition decode_window_failure :: "('d, 'o, 'k, 'r) sched_env \<Rightarrow> ('d, 'o, nat option) sched_op" where
  "decode_window_failure e =
     obind (reads (\<lambda>s. (decoding s, waiting s))) (\<lambda>(ds, ws).
     obind (on_heap (reserve_decode_windows (memory_oracle e) ds ws)) (\<lambda>failure.
     case (failure, decode_capacity_reclaimer e) of
       (Some r, Some reclaim) \<Rightarrow> on_heap (reclaim r) | _ \<Rightarrow> ret failure))"

text \<open>\<open>any(time.monotonic() - since >= 60.0 for since in \<dots>)\<close>\<close>

fun any_overdue :: "rat list \<Rightarrow> ('d, 'o, bool) sched_op" where
  "any_overdue [] = ret False"
| "any_overdue (since # rest) = obind monotonic (\<lambda>t. if 60 \<le> t - since then ret True else any_overdue rest)"

definition set_reason :: "string \<Rightarrow> ('d, 'o, unit) sched_op" where
  "set_reason x = writes (\<lambda>s. s\<lparr>phase_reason := x\<rparr>)"

text \<open>Decode affinity: whether prefill work is overdue, and the decode batch when decode goes on.\<close>

definition decode_affinity :: "('d, 'o, 'k, 'r) sched_env \<Rightarrow> nat option \<Rightarrow> ('d, 'o, bool \<times> nat list option) sched_op" where
  "decode_affinity e failure =
     oseq (set_reason ''prefill_priority'')
     (if favor_min_decoding_seqs e = 0 then ret (False, None)
      else
      obind (reads (\<lambda>s. map snd (prefill_wait_since s))) (\<lambda>waits.
      obind (any_overdue waits) (\<lambda>overdue.
      obind (reads phase) (\<lambda>ph.
      oseq (set_reason (if overdue then ''prefill_wait_timeout''
              else if ph = PrefillPhase then ''prefill_continue'' else ''decode_below_threshold''))
      (if ph = DecodePhase \<and> \<not> overdue \<and> failure = None
       then obind (eligible_decode_batch e) (\<lambda>batch.
            obind (reads waiting) (\<lambda>ws.
            if batch \<noteq> [] \<and> (ws = [] \<or> favor_min_decoding_seqs e \<le> int (length batch))
            then oseq (set_reason (if ws = [] then ''no_prefill'' else ''decode_affinity'')) (ret (overdue, Some batch))
            else ret (overdue, None)))
       else ret (overdue, None))))))"

text \<open>The capacity the step starts from: the run's budgets, the margin, and the decode capacity.\<close>

definition initial_run :: "int \<Rightarrow> int \<Rightarrow> (string, int) dict \<Rightarrow> 'r prefill_run" where
  "initial_run logical step budgets = \<lparr>scheduled_seqs = [], num_batched_seqs = 0, num_batched_tokens = 0,
     step_free_count = step, prompt_logical_free_count = logical, admission_budgets = budgets,
     charged_shared_resources = (\<lambda>_. {}), deferred_prompt_failure = None, blocked_prefill_step_failure = None,
     blocked_prefill_capacity_failure = None, blocked_final_prefill_window_failure = None\<rparr>"

definition query_capacity :: "('d, 'o, 'k, 'r) sched_env \<Rightarrow> ('d, 'o, 'r prefill_run \<times> int \<times> int) sched_op" where
  "query_capacity e =
     obind (on_oracle (num_free_slots (memory_oracle e))) (\<lambda>physical.
     obind (reads waiting) (\<lambda>ws.
     obind (if ws \<noteq> []
       then obind (reserved_prefill_tokens e) (\<lambda>reserved.
            obind (on_oracle (prompt_admission_free_slots (memory_oracle e))) (\<lambda>prompt_free.
            obind (on_oracle (prefill_step_free_slots (memory_oracle e))) (\<lambda>step.
            obind (reads (\<lambda>s. map (requests s) ws)) (\<lambda>qs.
            obind (on_oracle (prompt_admission_budgets (memory_oracle e) qs (engine_prefill_chunk_size e))) (\<lambda>budgets.
            obind (on_oracle (prefill_batched_tokens_margin (memory_oracle e))) (\<lambda>margin.
            ret (initial_run (max 0 (prompt_free - reserved)) step budgets, margin)))))))
       else ret (initial_run 0 physical [], 0)) (\<lambda>(run, margin).
     obind (on_oracle (decode_step_free_slots (memory_oracle e))) (\<lambda>decode_free.
     ret (run, margin, max 0 decode_free)))))"

definition sort_overdue :: "bool \<Rightarrow> ('d, 'o, unit) sched_op" where
  "sort_overdue overdue =
     (if \<not> overdue then ret ()
      else obind (reads (\<lambda>s. \<exists>r \<in> set (waiting s). map_of (prefill_wait_since s) r = None)) (\<lambda>missing.
        oseq (raise_if missing (KeyError ''seq_id''))
        (writes (\<lambda>s. s\<lparr>waiting := sort_key (\<lambda>r. the (map_of (prefill_wait_since s) r)) (waiting s)\<rparr>))))"

definition bucket_order :: "('d, 'o, 'k, 'r) sched_env \<Rightarrow> ('d, 'o, (string \<times> 'k) list) sched_op" where
  "bucket_order e =
     obind (reads (\<lambda>s. waiting s \<noteq> [] \<and> \<not> (any_replay s (waiting s) \<and> decoding s \<noteq> []))) (\<lambda>scan.
     if scan then prefill_mode_order e else ret [])"

section \<open>One prefill candidate\<close>

text \<open>The remaining prompt tokens of the candidate and the step capacity it may use.\<close>

definition candidate_capacity :: "('d, 'o, 'k, 'r) sched_env \<Rightarrow> string \<Rightarrow> nat \<Rightarrow> int \<Rightarrow> ('d, 'o, int \<times> int) sched_op" where
  "candidate_capacity e mode r step_free =
     obind (ask (remaining_prefill_tokens (memory_oracle e)) r) (\<lambda>remaining.
     obind (ask (prefill_step_free_slots_for (memory_oracle e)) r) (\<lambda>mine.
     obind (ask (should_schedule_full_prefill (memory_oracle e)) r) (\<lambda>staging.
     if mode \<noteq> ''raw_offload'' \<and> \<not> staging
     then obind (ask (prefill_private_slots_for (memory_oracle e)) r) (\<lambda>private.
          ret (remaining, min (step_free + private) mine))
     else ret (remaining, mine))))"

text \<open>The proposed chunk and the chunk after the rule for the final chunk.\<close>

definition candidate_tokens :: "('d, 'o, 'k, 'r) sched_env \<Rightarrow> string \<Rightarrow> nat \<Rightarrow> int \<Rightarrow> int \<Rightarrow> int \<Rightarrow> ('d, 'o, int \<times> int) sched_op" where
  "candidate_tokens e mode r remaining batched free =
     oseq (raise_if (remaining \<le> 0) (ValueError ''BUG''))
     (obind (lift_result (\<lambda>_. prefill_step_tokens e mode remaining batched free)) (\<lambda>proposed.
      obind (respect_min_final_prefill_chunk e r remaining proposed) (\<lambda>can. ret (proposed, can))))"

text \<open>The candidate gets no tokens: record why, and put it at the end of the queue.\<close>

definition block_candidate :: "('d, 'o, 'k, 'r) sched_env \<Rightarrow> string \<Rightarrow> nat \<Rightarrow> int \<Rightarrow> int \<Rightarrow> int \<Rightarrow> 'r prefill_run
    \<Rightarrow> ('d, 'o, 'r prefill_run) sched_op" where
  "block_candidate e mode r remaining free proposed run =
     obind (ask (min_final_prefill_chunk_size (memory_oracle e)) r) (\<lambda>min_final.
     oseq (writes (\<lambda>s. s\<lparr>waiting := waiting s @ [r]\<rparr>))
     (let run = (if 0 < min_final \<and> remaining \<le> min_final \<and> proposed < remaining
                    \<and> blocked_final_prefill_window_failure run = None
                 then run\<lparr>blocked_final_prefill_window_failure := Some (r, min_final, proposed)\<rparr> else run);
          run = (if free \<le> 0 \<and> 0 < step_free_count run \<and> blocked_prefill_capacity_failure run = None
                 then run\<lparr>blocked_prefill_capacity_failure := Some (r, remaining, free, step_free_count run)\<rparr> else run);
          run = (if mode = ''full''
                 then run\<lparr>blocked_prefill_step_failure :=
                   Some (r, remaining, min (max_num_batched_tokens e - num_batched_tokens run) free)\<rparr> else run)
      in ret run))"

section \<open>Prompt admission\<close>

definition budget :: "(string, int) dict \<Rightarrow> string \<Rightarrow> int" where
  "budget d name = (case map_of d name of None \<Rightarrow> 0 | Some n \<Rightarrow> n)"

text \<open>The part of a shared cost that this step has already charged.\<close>

definition charged_cost :: "'r set \<Rightarrow> ('r, int) dict \<Rightarrow> int" where
  "charged_cost charged resources = sum_list (map snd (filter (\<lambda>(x, _). x \<in> charged) resources))"

fun adjust_shared_costs :: "(string \<Rightarrow> 'r set) \<Rightarrow> (string, ('r, int) dict) dict \<Rightarrow> (string, int) dict
    \<Rightarrow> (string, int) dict result" where
  "adjust_shared_costs charged [] costs = Inr costs"
| "adjust_shared_costs charged ((name, resources) # rest) costs =
     (let adjusted = budget costs name - charged_cost (charged name) resources in
      if adjusted < 0 then Inl (RuntimeError ''Shared prompt admission costs exceed the raw budget cost'')
      else adjust_shared_costs charged rest (AList.update name adjusted costs))"

fun first_failed_budget :: "(string, int) dict \<Rightarrow> (string, int) dict \<Rightarrow> (string \<times> int \<times> int) option" where
  "first_failed_budget budgets [] = None"
| "first_failed_budget budgets ((name, need) # rest) =
     (if budget budgets name < need then Some (name, need, budget budgets name) else first_failed_budget budgets rest)"

definition charge_budgets :: "(string, int) dict \<Rightarrow> (string, int) dict \<Rightarrow> (string, int) dict" where
  "charge_budgets costs budgets = fold (\<lambda>(name, need) b. AList.update name (budget b name - need) b) costs budgets"

definition charge_resources :: "(string, ('r, int) dict) dict \<Rightarrow> (string \<Rightarrow> 'r set) \<Rightarrow> string \<Rightarrow> 'r set" where
  "charge_resources shared charged = fold (\<lambda>(name, resources) c. c(name := c name \<union> set (map fst resources))) shared charged"

text \<open>The costs of the prompt: raw, shared, and net of what the step has already charged.\<close>

definition admission_costs :: "('d, 'o, 'k, 'r) sched_env \<Rightarrow> nat \<Rightarrow> 'r prefill_run
    \<Rightarrow> ('d, 'o, (string, int) dict \<times> (string, ('r, int) dict) dict \<times> (string, int) dict) sched_op" where
  "admission_costs e r run =
     obind (ask (prompt_admission_costs (memory_oracle e)) r) (\<lambda>raw.
     obind (case prompt_admission_shared_costs (memory_oracle e) of Some f \<Rightarrow> ask f r | None \<Rightarrow> ret []) (\<lambda>shared.
     obind (lift_result (\<lambda>_. adjust_shared_costs (charged_shared_resources run) shared raw)) (\<lambda>costs.
     ret (raw, shared, costs))))"

text \<open>The budget is exhausted: defer the prompt or fail.\<close>

definition refuse_admission :: "('d, 'o, 'k, 'r) sched_env \<Rightarrow> nat \<Rightarrow> string \<times> int \<times> int \<Rightarrow> 'r prefill_run
    \<Rightarrow> ('d, 'o, 'r prefill_run) sched_op" where
  "refuse_admission e r failed run =
     obind (on_oracle (prompt_admission_failure_action (memory_oracle e))) (\<lambda>action.
     if action = ''defer''
     then oseq (writes (\<lambda>s. s\<lparr>defer_warned := insert r (defer_warned s), waiting := waiting s @ [r]\<rparr>))
            (ret (if deferred_prompt_failure run = None then run\<lparr>deferred_prompt_failure := Some (r, failed)\<rparr> else run))
     else raise_error (RuntimeError ''Insufficient KV cache slots to admit prompt.''))"

text \<open>The prompt fits: charge it, and take over the prefix cache hit.\<close>

definition accept_admission :: "('d, 'o, 'k, 'r) sched_env \<Rightarrow> nat \<Rightarrow> (string, int) dict \<Rightarrow> (string, ('r, int) dict) dict
    \<Rightarrow> (string, int) dict \<Rightarrow> 'r prefill_run \<Rightarrow> ('d, 'o, 'r prefill_run) sched_op" where
  "accept_admission e r raw shared costs run =
     oseq (writes (\<lambda>s. s\<lparr>defer_warned := defer_warned s - {r}\<rparr>))
     (oseq (update_request r (\<lambda>q. q\<lparr>status := RUNNING\<rparr>))
     (oseq (run_hook (on_prompt_admitted (memory_oracle e) raw) r)
     (oseq (update_request r (\<lambda>q. if 0 < prefix_cache_hit_len q
                                  then q\<lparr>num_prefilled_tokens := prefix_cache_hit_len q\<rparr> else q))
     (obind (ask (prompt_logical_reservation_cost (memory_oracle e)) r) (\<lambda>cost.
     (let need = cost - sum_list (map (\<lambda>(name, resources). charged_cost (charged_shared_resources run name) resources) shared) in
     oseq (raise_if (prompt_logical_free_count run < need)
             (RuntimeError ''Prompt admission budget mismatch after reservation check.''))
     (ret (run\<lparr>admission_budgets := charge_budgets costs (admission_budgets run),
               prompt_logical_free_count := prompt_logical_free_count run - need,
               charged_shared_resources := charge_resources shared (charged_shared_resources run)\<rparr>))))))))"

text \<open>A request with computed tokens has been admitted before.  The flag tells whether it may run.\<close>

definition admit_prompt :: "('d, 'o, 'k, 'r) sched_env \<Rightarrow> nat \<Rightarrow> 'r prefill_run \<Rightarrow> ('d, 'o, 'r prefill_run \<times> bool) sched_op" where
  "admit_prompt e r run =
     obind (reads (\<lambda>s. num_prefilled_tokens (requests s r) = 0)) (\<lambda>new.
     if \<not> new then ret (run, True)
     else obind (admission_costs e r run) (\<lambda>(raw, shared, costs).
       case first_failed_budget (admission_budgets run) costs of
         Some failed \<Rightarrow> obind (refuse_admission e r failed run) (\<lambda>run. ret (run, False))
       | None \<Rightarrow> obind (accept_admission e r raw shared costs run) (\<lambda>run. ret (run, True))))"

definition schedule_chunk :: "('d, 'o, 'k, 'r) sched_env \<Rightarrow> nat \<Rightarrow> int \<Rightarrow> 'r prefill_run \<Rightarrow> ('d, 'o, 'r prefill_run) sched_op" where
  "schedule_chunk e r can run =
     oseq (update_request r (\<lambda>q. q\<lparr>current_chunk_size := Some can\<rparr>))
     (obind (ask (prefill_step_reservation_cost (memory_oracle e) can) r) (\<lambda>cost.
     oseq (update_request r (\<lambda>q. q\<lparr>status := RUNNING\<rparr>))
     (ret (run\<lparr>num_batched_seqs := num_batched_seqs run + 1, num_batched_tokens := num_batched_tokens run + can,
               step_free_count := max 0 (step_free_count run - cost), scheduled_seqs := scheduled_seqs run @ [r]\<rparr>))))"

definition prefill_candidate :: "('d, 'o, 'k, 'r) sched_env \<Rightarrow> string \<Rightarrow> nat \<Rightarrow> 'r prefill_run
    \<Rightarrow> ('d, 'o, 'r prefill_run \<times> bool) sched_op" where
  "prefill_candidate e mode r run =
     obind (candidate_capacity e mode r (step_free_count run)) (\<lambda>(remaining, free).
     obind (candidate_tokens e mode r remaining (num_batched_tokens run) free) (\<lambda>(proposed, can).
     if can \<le> 0 then obind (block_candidate e mode r remaining free proposed run) (\<lambda>run. ret (run, False))
     else obind (admit_prompt e r run) (\<lambda>(run, admitted).
       if admitted then obind (schedule_chunk e r can run) (\<lambda>run. ret (run, mode = ''raw_offload''))
       else ret (run, False))))"

section \<open>The prefill scan\<close>

text \<open>\<open>bucket_scan_budget\<close> bounds the loop: it is decremented for every candidate.\<close>

fun bucket_loop :: "('d, 'o, 'k, 'r) sched_env \<Rightarrow> string \<times> 'k \<Rightarrow> bool \<Rightarrow> int \<Rightarrow> nat \<Rightarrow> 'r prefill_run
    \<Rightarrow> ('d, 'o, 'r prefill_run) sched_op" where
  "bucket_loop e target replay_pending margin 0 run = ret run"
| "bucket_loop e target replay_pending margin (Suc n) run =
     obind (reads (can_continue_prefill_batch e (fst target) run margin)) (\<lambda>go.
     if \<not> go then ret run
     else obind (pop_next_prefill_seq e target replay_pending) (\<lambda>next.
       case next of None \<Rightarrow> ret run
       | Some r \<Rightarrow> obind (prefill_candidate e (fst target) r run) (\<lambda>(run, stop).
           if stop then ret run else bucket_loop e target replay_pending margin n run)))"

definition restore_skipped :: "('d, 'o) scheduler \<Rightarrow> ('d, 'o) scheduler" where
  "restore_skipped s = s\<lparr>waiting := skipped_prefill s @ waiting s, skipped_prefill := []\<rparr>"

definition scan_bucket :: "('d, 'o, 'k, 'r) sched_env \<Rightarrow> string \<times> 'k \<Rightarrow> bool \<Rightarrow> int \<Rightarrow> 'r prefill_run
    \<Rightarrow> ('d, 'o, 'r prefill_run) sched_op" where
  "scan_bucket e target replay_pending margin run =
     ofinally
       (obind (reads (\<lambda>s. length (waiting s))) (\<lambda>n.
        oseq (writes (\<lambda>s. s\<lparr>skipped_prefill := []\<rparr>))
        (bucket_loop e target replay_pending margin n run)))
       restore_skipped"

fun scan_buckets :: "('d, 'o, 'k, 'r) sched_env \<Rightarrow> (string \<times> 'k) list \<Rightarrow> bool \<Rightarrow> int \<Rightarrow> 'r prefill_run
    \<Rightarrow> ('d, 'o, 'r prefill_run) sched_op" where
  "scan_buckets e [] replay_pending margin run = ret run"
| "scan_buckets e (target # rest) replay_pending margin run =
     (if scheduled_seqs run \<noteq> [] then ret run
      else obind (scan_bucket e target replay_pending margin run) (scan_buckets e rest replay_pending margin))"

section \<open>The decode scan\<close>

datatype decode_scan = Scanned "nat list" "nat option" | MustPreempt nat

text \<open>\<open>decode_scan_budget\<close> bounds the loop.  \<open>MustPreempt\<close> is the early return for a victim.\<close>

fun decode_loop :: "('d, 'o, 'k, 'r) sched_env \<Rightarrow> nat \<Rightarrow> int \<Rightarrow> nat list \<Rightarrow> nat option \<Rightarrow> ('d, 'o, decode_scan) sched_op" where
  "decode_loop e 0 free scheduled blocked = ret (Scanned scheduled blocked)"
| "decode_loop e (Suc n) free scheduled blocked =
     obind (reads decoding) (\<lambda>ds.
     if ds = [] \<or> max_decoding_seqs e \<le> int (length scheduled) then ret (Scanned scheduled blocked)
     else
     let r = hd ds in
     oseq (writes (\<lambda>s. s\<lparr>decoding := tl (decoding s)\<rparr>))
     (obind (reads (\<lambda>s. requests s r)) (\<lambda>q.
     if max_tokens q \<le> num_completion_tokens q + num_pending_outputs q
     then oseq (writes (\<lambda>s. s\<lparr>decoding := decoding s @ [r]\<rparr>)) (decode_loop e n free scheduled blocked)
     else
     obind (ask (decode_step_free_slots_for (memory_oracle e)) r) (\<lambda>mine.
     obind (ask (decode_step_reservation_cost (memory_oracle e)) r) (\<lambda>cost.
     let blocked' = (if blocked = None then Some r else blocked) in
     if min free mine < cost
     then (if 0 < free
           then oseq (writes (\<lambda>s. s\<lparr>decoding := decoding s @ [r]\<rparr>)) (decode_loop e n free scheduled blocked')
           else if scheduled \<noteq> []
           then oseq (writes (\<lambda>s. s\<lparr>decoding := decoding s @ [r]\<rparr>)) (ret (Scanned scheduled blocked'))
           else ret (MustPreempt r))
     else decode_loop e n (free - cost) (scheduled @ [r]) blocked)))))"

definition drop_from_decoding :: "nat \<Rightarrow> ('d, 'o, unit) sched_op" where
  "drop_from_decoding r = writes (\<lambda>s. s\<lparr>decoding := remove1 r (decoding s)\<rparr>)"

text \<open>No request can run: reclaim capacity once, or report the reason.\<close>

definition report_no_work :: "'r prefill_run \<Rightarrow> ('d, 'o, schedule_result) sched_op" where
  "report_no_work run =
     obind (reads (\<lambda>s. decoding s = [])) (\<lambda>idle.
     if blocked_prefill_step_failure run \<noteq> None \<and> idle
     then raise_error (RuntimeError ''Prefill candidate requires an atomic prefill step but cannot fit.'')
     else if blocked_final_prefill_window_failure run \<noteq> None \<and> idle
     then raise_error (RuntimeError ''Final prefill score window cannot fit in the effective step budget.'')
     else if blocked_prefill_capacity_failure run \<noteq> None \<and> idle
     then raise_error (RuntimeError ''No prefill candidate can use the remaining cache capacity.'')
     else if deferred_prompt_failure run \<noteq> None \<and> idle
     then raise_error (RuntimeError ''All prompt admissions were deferred and no runnable work remains.'')
     else ret ([], False, []))"

definition no_runnable_work :: "('d, 'o, 'k, 'r) sched_env \<Rightarrow> ('d, 'o, schedule_result) sched_op option \<Rightarrow> 'r prefill_run
    \<Rightarrow> ('d, 'o, schedule_result) sched_op" where
  "no_runnable_work e retry run =
     obind (reads id) (\<lambda>s.
     case (retry, prefill_capacity_reclaimer e) of
       (Some again, Some reclaim) \<Rightarrow>
         if decoding s = [] \<and> waiting s \<noteq> [] \<and> (deferred_prompt_failure run \<noteq> None \<or> step_free_count run \<le> 0)
         then oseq (raise_if (async_inflight s \<noteq> 0)
                     (AsyncDrainRequired ''Prefill capacity reclaim requires completed in-flight KV users''))
              (obind (on_heap (reclaim (case deferred_prompt_failure run of Some (r, _) \<Rightarrow> r | None \<Rightarrow> hd (waiting s)))) (\<lambda>freed.
               if freed then again else report_no_work run))
         else report_no_work run
     | _ \<Rightarrow> report_no_work run)"

definition finish_decode :: "nat list \<Rightarrow> nat option \<Rightarrow> ('d, 'o, schedule_result) sched_op" where
  "finish_decode scheduled blocked =
     oseq (writes (\<lambda>s. s\<lparr>decoding := scheduled @ decoding s\<rparr>))
     (oseq (case blocked of None \<Rightarrow> ret ()
            | Some r \<Rightarrow> writes (\<lambda>s. s\<lparr>decoding := r # remove1 r (decoding s)\<rparr>))
     (ret (scheduled, False, [])))"

definition decode_phase :: "('d, 'o, 'k, 'r) sched_env \<Rightarrow> ('d, 'o, schedule_result) sched_op option \<Rightarrow> int \<Rightarrow> 'r prefill_run
    \<Rightarrow> ('d, 'o, schedule_result) sched_op" where
  "decode_phase e retry decode_free run =
     obind (reads (\<lambda>s. waiting s \<noteq> [])) (\<lambda>more.
     oseq (set_reason (if more then ''prefill_unavailable'' else ''no_prefill''))
     (obind (reads (\<lambda>s. length (decoding s))) (\<lambda>n.
     obind (decode_loop e n decode_free [] None) (\<lambda>scan.
     case scan of
       MustPreempt r \<Rightarrow> preempt_decode_victim e r [] []
     | Scanned [] (Some r) \<Rightarrow> oseq (drop_from_decoding r) (preempt_decode_victim e r [] [])
     | Scanned [] None \<Rightarrow> no_runnable_work e retry run
     | Scanned scheduled blocked \<Rightarrow> finish_decode scheduled blocked))))"

section \<open>The step\<close>

text \<open>
  \<open>_schedule_impl\<close>.  Its recursive call happens at most once, with \<open>allow_prefill_reclaim\<close> off:
  \<open>retry\<close> is that call, or None when the flag is off.
\<close>

definition prefill_phase :: "('d, 'o, 'k, 'r) sched_env \<Rightarrow> bool \<Rightarrow> ('d, 'o, 'r prefill_run \<times> int) sched_op" where
  "prefill_phase e overdue =
     obind (query_capacity e) (\<lambda>(run, margin, decode_free).
     oseq (sort_overdue overdue)
     (obind (bucket_order e) (\<lambda>order.
     obind (reads (\<lambda>s. any_replay s (waiting s))) (\<lambda>replay_pending.
     obind (scan_buckets e order replay_pending margin run) (\<lambda>run.
     ret (run, decode_free))))))"

definition schedule_round :: "('d, 'o, 'k, 'r) sched_env \<Rightarrow> ('d, 'o, schedule_result) sched_op option
    \<Rightarrow> ('d, 'o, schedule_result) sched_op" where
  "schedule_round e retry =
     obind (decode_window_failure e) (\<lambda>failure.
     obind (reads (\<lambda>s. length (decoding s))) (\<lambda>n.
     case (if 1 < n then failure else None) of
       Some v \<Rightarrow>
         oseq (decoding_remove v)
         (oseq (on_oracle (num_free_slots (memory_oracle e)))
         (oseq (reserved_prefill_tokens e)
         (preempt_decode_victim e v [] [])))
     | None \<Rightarrow>
         obind (decode_affinity e failure) (\<lambda>(overdue, early).
         case early of Some batch \<Rightarrow> ret (batch, False, [])
         | None \<Rightarrow>
           obind (prefill_phase e overdue) (\<lambda>(run, decode_free).
           if scheduled_seqs run \<noteq> [] then ret (scheduled_seqs run, True, [])
           else case failure of
             Some v \<Rightarrow> oseq (decoding_remove v) (preempt_decode_victim e v [] [])
           | None \<Rightarrow> decode_phase e retry decode_free run))))"

definition schedule_impl :: "('d, 'o, 'k, 'r) sched_env \<Rightarrow> bool \<Rightarrow> ('d, 'o, schedule_result) sched_op" where
  "schedule_impl e allow_prefill_reclaim =
     schedule_round e (if allow_prefill_reclaim then Some (schedule_round e None) else None)"

text \<open>\<open>with snapshot():\<close> runs the exit on both branches; an exception of the exit replaces the outcome.\<close>

definition with_capacity_snapshot :: "('d, 'o, 'k, 'r) sched_env \<Rightarrow> ('d, 'o, 'a) sched_op \<Rightarrow> ('d, 'o, 'a) sched_op" where
  "with_capacity_snapshot e m =
     (case scheduler_capacity_snapshot (memory_oracle e) of
        None \<Rightarrow> m
      | Some (enter, leave) \<Rightarrow>
          oseq (on_oracle enter)
          (\<lambda>s. case m s of (r, s1) \<Rightarrow> (case on_oracle leave s1 of (Inl x, s2) \<Rightarrow> (Inl x, s2) | (Inr _, s2) \<Rightarrow> (r, s2))))"

text \<open>The handler of \<open>schedule\<close>: requests that are in no queue any more go back to their queue.\<close>

definition restore_ownership :: "nat list \<Rightarrow> nat list \<Rightarrow> ('d, 'o) scheduler \<Rightarrow> ('d, 'o) scheduler" where
  "restore_ownership waiting_before decoding_before s =
     (let owned = set (waiting s) \<union> set (decoding s);
          ws = waiting s @ filter (\<lambda>r. r \<notin> owned) waiting_before
      in s\<lparr>waiting := ws, decoding := decoding s @ filter (\<lambda>r. r \<notin> owned \<and> r \<notin> set ws) decoding_before\<rparr>)"

definition guarded_impl :: "('d, 'o, 'k, 'r) sched_env \<Rightarrow> ('d, 'o, schedule_result) sched_op" where
  "guarded_impl e s =
     (case with_capacity_snapshot e (schedule_impl e True) s of
        (Inl x, s') \<Rightarrow> (Inl x, restore_ownership (waiting s) (decoding s) s')
      | (Inr res, s') \<Rightarrow> (Inr res, s'))"

text \<open>Record the decision for a non-empty batch.\<close>

definition record_phase :: "rat \<Rightarrow> nat list \<Rightarrow> bool \<Rightarrow> ('d, 'o, unit) sched_op" where
  "record_phase now rs is_prefill = writes (\<lambda>s.
     let ph = (if is_prefill then PrefillPhase else DecodePhase);
         switched = (ph \<noteq> phase s);
         decision = \<lparr>pd_phase = ph, pd_reason = phase_reason s, pd_switched = switched,
           pd_previous_phase_seconds = now - phase_started_at s,
           pd_decode_batch = (if is_prefill then 0 else length rs),
           pd_prefill_waits = (if is_prefill then map (\<lambda>r. (r, 0 < num_prefilled_tokens (requests s r),
              now - (case map_of (prefill_wait_since s) r of None \<Rightarrow> now | Some t \<Rightarrow> t))) rs else [])\<rparr>
     in s\<lparr>prefill_wait_since := (if is_prefill then filter (\<lambda>kv. fst kv \<notin> set rs) (prefill_wait_since s)
                                else prefill_wait_since s),
          last_phase_decision := Some decision,
          phase_started_at := (if switched then now else phase_started_at s), phase := ph\<rparr>)"

definition schedule :: "('d, 'o, 'k, 'r) sched_env \<Rightarrow> ('d, 'o, schedule_result) sched_op" where
  "schedule e =
     obind monotonic (\<lambda>now.
     obind (reads waiting) (\<lambda>ws.
     oseq (ofor ws (\<lambda>r. wait_setdefault r now))
     (oseq (writes (\<lambda>s. s\<lparr>last_phase_decision := None\<rparr>))
     (obind (guarded_impl e) (\<lambda>(rs, is_prefill, preempted).
     oseq (if rs \<noteq> [] then record_phase now rs is_prefill else ret ())
     (ret (rs, is_prefill, preempted)))))))"

section \<open>After the model has run\<close>

definition request_eos :: "('d, 'o, 'k, 'r) sched_env \<Rightarrow> 'd sequence \<Rightarrow> int set" where
  "request_eos e q = resolve_eos_token_ids (ManyTokenIds (eos_token_ids q)) (ManyTokenIds (sched_eos_token_ids e)) (Some (-1))"

definition stops_at :: "('d, 'o, 'k, 'r) sched_env \<Rightarrow> int \<Rightarrow> 'd sequence \<Rightarrow> bool" where
  "stops_at e t q \<longleftrightarrow> \<not> ignore_eos q \<and> t \<in> request_eos e q \<or> num_completion_tokens q = max_tokens q"

type_synonym sampled = "int \<times> py_float option \<times> (int, py_float) dict option"

definition accept_token :: "('d, 'o, 'k, 'r) sched_env \<Rightarrow> bool \<Rightarrow> ('d, 'o, unit) sched_op \<Rightarrow> nat \<Rightarrow> sampled
    \<Rightarrow> ('d, 'o, unit) sched_op" where
  "accept_token e retain_finished remove r = (\<lambda>(t, lp, tops).
     oseq (update_request r (append_token t lp tops))
     (obind (reads (\<lambda>s. stops_at e t (requests s r))) (\<lambda>stop.
      if stop then oseq (update_request r (\<lambda>q. q\<lparr>status := FINISHED\<rparr>)) (if retain_finished then ret () else remove)
      else ret ())))"

definition advance_prefill :: "'d sequence \<Rightarrow> 'd sequence result" where
  "advance_prefill q = (case current_chunk_size q of
     None \<Rightarrow> Inl (TypeError ''unsupported operand type(s) for +='')
   | Some c \<Rightarrow> Inr (q\<lparr>num_prefilled_tokens := num_prefilled_tokens q + c\<rparr>))"

definition postprocess_prefill :: "('d, 'o, 'k, 'r) sched_env \<Rightarrow> bool \<Rightarrow> nat \<times> sampled \<Rightarrow> ('d, 'o, unit) sched_op" where
  "postprocess_prefill e retain_finished = (\<lambda>(r, out).
     oseq (on_request r advance_prefill)
     (obind (reads (\<lambda>s. num_prefilled_tokens (requests s r) < num_prompt_tokens (requests s r))) (\<lambda>more.
      if more
      then oseq (update_request r (\<lambda>q. q\<lparr>status := WAITING\<rparr>))
           (obind monotonic (\<lambda>t. oseq (wait_setdefault r t) (writes (\<lambda>s. s\<lparr>waiting := r # waiting s\<rparr>))))
      else
      oseq (run_hook (complete_prefill_execution (memory_oracle e)) r)
      (oseq (update_request r (\<lambda>q. q\<lparr>status := RUNNING\<rparr>))
      (oseq (writes (\<lambda>s. s\<lparr>decoding := decoding s @ [r]\<rparr>))
      (obind (reads (\<lambda>s. requests s r)) (\<lambda>q.
       if is_recompute_replay q
       then (if replay_decode_token_count q = 0 then on_request r finish_recompute_replay else ret ())
       else accept_token e retain_finished (decoding_remove r) r out)))))))"

definition postprocess_decode :: "('d, 'o, 'k, 'r) sched_env \<Rightarrow> bool \<Rightarrow> nat \<times> sampled \<Rightarrow> ('d, 'o, unit) sched_op" where
  "postprocess_decode e retain_finished = (\<lambda>(r, out).
     obind (reads (\<lambda>s. is_recompute_decode (requests s r))) (\<lambda>replay.
     if replay then on_request r advance_recompute_replay
     else accept_token e retain_finished (drop_from_decoding r) r out))"

text \<open>\<open>x or [None] * len(seqs)\<close>, and \<open>zip\<close> of the four lists.\<close>

definition default_outputs :: "nat \<Rightarrow> 'a option list option \<Rightarrow> 'a option list" where
  "default_outputs n xs = (case xs of None \<Rightarrow> replicate n None | Some ys \<Rightarrow> if ys = [] then replicate n None else ys)"

definition postprocess :: "('d, 'o, 'k, 'r) sched_env \<Rightarrow> nat list \<Rightarrow> int list \<Rightarrow> bool \<Rightarrow> py_float option list option
    \<Rightarrow> (int, py_float) dict option list option \<Rightarrow> bool \<Rightarrow> ('d, 'o, unit) sched_op" where
  "postprocess e rs ts is_prefill lps tops retain_finished =
     (let outs = zip rs (zip ts (zip (default_outputs (length rs) lps) (default_outputs (length rs) tops)))
      in ofor outs (if is_prefill then postprocess_prefill e retain_finished else postprocess_decode e retain_finished))"

end
