(* ===== verification/Scheduler_Queues.thy ===== *)
theory Scheduler_Queues
  imports Scheduler
begin

text \<open>
  Rules for reasoning about scheduler methods: \<open>wp m Q E s\<close> says that \<open>m\<close> run in \<open>s\<close> returns a
  value and state with \<open>Q\<close> or raises in a state with \<open>E\<close>; oracle and callbacks are arbitrary.
  With them: no step of the scheduler loses or duplicates a request, whether it returns or raises.
\<close>

section \<open>Outcomes of methods\<close>

definition wp :: "('s, 'a) op \<Rightarrow> ('a \<Rightarrow> 's \<Rightarrow> bool) \<Rightarrow> ('s \<Rightarrow> bool) \<Rightarrow> 's \<Rightarrow> bool" where
  "wp m Q E s = (case m s of (Inl _, s') \<Rightarrow> E s' | (Inr x, s') \<Rightarrow> Q x s')"

named_theorems wp_intro \<open>outcome rules\<close>

lemma wp_returns: "wp m Q E s \<Longrightarrow> m s = (Inr x, s') \<Longrightarrow> Q x s'" by (simp add: wp_def)
lemma wp_raises: "wp m Q E s \<Longrightarrow> m s = (Inl err, s') \<Longrightarrow> E s'" by (simp add: wp_def)

lemma wpI: "(\<And>x s'. m s = (Inr x, s') \<Longrightarrow> Q x s') \<Longrightarrow> (\<And>err s'. m s = (Inl err, s') \<Longrightarrow> E s') \<Longrightarrow> wp m Q E s"
  by (auto simp: wp_def split: prod.splits sum.splits)

lemma wp_conseq:
  "wp m Q' E' s \<Longrightarrow> (\<And>x s'. Q' x s' \<Longrightarrow> Q x s') \<Longrightarrow> (\<And>s'. E' s' \<Longrightarrow> E s') \<Longrightarrow> wp m Q E s"
  by (auto simp: wp_def split: prod.splits sum.splits)

lemma wp_conj: "wp m Q E s \<Longrightarrow> wp m Q' E' s \<Longrightarrow> wp m (\<lambda>x t. Q x t \<and> Q' x t) (\<lambda>t. E t \<and> E' t) s"
  by (auto simp: wp_def split: prod.splits sum.splits)

lemma wp_ret [wp_intro]: "Q x s \<Longrightarrow> wp (ret x) Q E s" by (simp add: wp_def)
lemma wp_raise [wp_intro]: "E s \<Longrightarrow> wp (raise_error err) Q E s" by (simp add: wp_def)
lemma wp_reads [wp_intro]: "Q (f s) s \<Longrightarrow> wp (reads f) Q E s" by (simp add: wp_def)
lemma wp_writes [wp_intro]: "Q () (f s) \<Longrightarrow> wp (writes f) Q E s" by (simp add: wp_def)

lemma wp_raise_if [wp_intro]: "(c \<Longrightarrow> E s) \<Longrightarrow> (\<not> c \<Longrightarrow> Q () s) \<Longrightarrow> wp (raise_if c err) Q E s"
  by (simp add: wp_def)

lemma wp_lift [wp_intro]:
  "(\<And>x. f s = Inr x \<Longrightarrow> Q x s) \<Longrightarrow> (\<And>err. f s = Inl err \<Longrightarrow> E s) \<Longrightarrow> wp (lift_result f) Q E s"
  by (simp add: wp_def split: sum.splits)

lemma wp_obind [wp_intro]: "wp m (\<lambda>x. wp (f x) Q E) E s \<Longrightarrow> wp (obind m f) Q E s"
  by (auto simp: wp_def obind_def split: prod.splits sum.splits)

lemma wp_oseq [wp_intro]: "wp m (\<lambda>_. wp n Q E) E s \<Longrightarrow> wp (oseq m n) Q E s"
  unfolding oseq_def by (rule wp_obind)

lemma wp_if [wp_intro]: "(c \<Longrightarrow> wp m Q E s) \<Longrightarrow> (\<not> c \<Longrightarrow> wp n Q E s) \<Longrightarrow> wp (if c then m else n) Q E s"
  by simp

lemma wp_option [wp_intro]:
  "(x = None \<Longrightarrow> wp m Q E s) \<Longrightarrow> (\<And>y. x = Some y \<Longrightarrow> wp (f y) Q E s) \<Longrightarrow> wp (case x of None \<Rightarrow> m | Some y \<Rightarrow> f y) Q E s"
  by (cases x) auto

lemma wp_prod [wp_intro]: "(\<And>a b. x = (a, b) \<Longrightarrow> wp (f a b) Q E s) \<Longrightarrow> wp (case x of (a, b) \<Rightarrow> f a b) Q E s"
  by (cases x) auto

lemma wp_list [wp_intro]:
  "(xs = [] \<Longrightarrow> wp m Q E s) \<Longrightarrow> (\<And>y ys. xs = y # ys \<Longrightarrow> wp (f y ys) Q E s)
   \<Longrightarrow> wp (case xs of [] \<Rightarrow> m | y # ys \<Rightarrow> f y ys) Q E s"
  by (cases xs) auto

lemma wp_compat [wp_intro]:
  "(\<And>y. x = Hashable y \<Longrightarrow> wp (f y) Q E s) \<Longrightarrow> (x = Unhashable \<Longrightarrow> wp m Q E s)
   \<Longrightarrow> wp (case x of Hashable y \<Rightarrow> f y | Unhashable \<Rightarrow> m) Q E s"
  by (cases x) auto

lemma wp_on_oracle [wp_intro]:
  "(\<And>x ost. Q x (s\<lparr>oracle_state := ost\<rparr>)) \<Longrightarrow> (\<And>ost. E (s\<lparr>oracle_state := ost\<rparr>)) \<Longrightarrow> wp (on_oracle m) Q E s"
  by (auto simp: wp_def on_oracle_def split: prod.splits sum.splits)

lemma wp_ask [wp_intro]:
  "(\<And>x ost. Q x (s\<lparr>oracle_state := ost\<rparr>)) \<Longrightarrow> (\<And>ost. E (s\<lparr>oracle_state := ost\<rparr>)) \<Longrightarrow> wp (ask m r) Q E s"
  unfolding wp_def ask_def by (fold wp_def) (rule wp_on_oracle)

lemma wp_run_hook [wp_intro]:
  "(\<And>q ost. Q () (s\<lparr>requests := (requests s)(r := q), oracle_state := ost\<rparr>))
   \<Longrightarrow> (\<And>q ost. E (s\<lparr>requests := (requests s)(r := q), oracle_state := ost\<rparr>)) \<Longrightarrow> wp (run_hook m r) Q E s"
  by (auto simp: wp_def run_hook_def split: prod.splits sum.splits)

lemma wp_on_heap [wp_intro]:
  "(\<And>x heap ost. Q x (s\<lparr>requests := heap, oracle_state := ost\<rparr>))
   \<Longrightarrow> (\<And>heap ost. E (s\<lparr>requests := heap, oracle_state := ost\<rparr>)) \<Longrightarrow> wp (on_heap m) Q E s"
  by (auto simp: wp_def on_heap_def split: prod.splits sum.splits)

lemma wp_update_request [wp_intro]:
  "Q () (s\<lparr>requests := (requests s)(r := f (requests s r))\<rparr>) \<Longrightarrow> wp (update_request r f) Q E s"
  by (simp add: wp_def update_request_def)

lemma wp_on_request [wp_intro]:
  "(\<And>q. f (requests s r) = Inr q \<Longrightarrow> Q () (s\<lparr>requests := (requests s)(r := q)\<rparr>)) \<Longrightarrow> E s \<Longrightarrow> wp (on_request r f) Q E s"
  by (auto simp: wp_def on_request_def split: sum.splits)

lemma wp_monotonic [wp_intro]:
  "(\<And>t n. Q t (s\<lparr>clock_readings := n\<rparr>)) \<Longrightarrow> wp monotonic Q E s"
  by (simp add: wp_def monotonic_def)

lemma wp_wait_setdefault [wp_intro]:
  "(\<And>w. Q () (s\<lparr>prefill_wait_since := w\<rparr>)) \<Longrightarrow> wp (wait_setdefault r t) Q E s"
proof -
  assume "\<And>w. Q () (s\<lparr>prefill_wait_since := w\<rparr>)"
  from this [of "prefill_wait_since s"] this show ?thesis by (simp add: wp_def wait_setdefault_def)
qed

lemma wp_set_reason [wp_intro]: "Q () (s\<lparr>phase_reason := x\<rparr>) \<Longrightarrow> wp (set_reason x) Q E s"
  by (simp add: wp_def set_reason_def)

lemma wp_decoding_remove [wp_intro]:
  "(r \<in> set (decoding s) \<Longrightarrow> Q () (s\<lparr>decoding := remove1 r (decoding s)\<rparr>)) \<Longrightarrow> (r \<notin> set (decoding s) \<Longrightarrow> E s)
   \<Longrightarrow> wp (decoding_remove r) Q E s"
  by (simp add: wp_def decoding_remove_def)

lemma wp_drop_from_decoding [wp_intro]:
  "Q () (s\<lparr>decoding := remove1 r (decoding s)\<rparr>) \<Longrightarrow> wp (drop_from_decoding r) Q E s"
  by (simp add: wp_def drop_from_decoding_def)

lemma wp_ofinally: "wp m (\<lambda>x s'. Q x (f s')) (\<lambda>s'. E (f s')) s \<Longrightarrow> wp (ofinally m f) Q E s"
  by (auto simp: wp_def ofinally_def split: prod.splits sum.splits)

text \<open>From here on the methods are reasoned about by these rules, not run.\<close>

declare run_ret [simp del] run_raise [simp del] run_reads [simp del] run_writes [simp del] run_lift [simp del]
  run_raise_if [simp del]

text \<open>Loops with an invariant, for both outcomes.\<close>

lemma wp_ofor:
  assumes "I s" "\<And>x s. x \<in> set xs \<Longrightarrow> I s \<Longrightarrow> wp (f x) (\<lambda>_. I) E s"
  shows "wp (ofor xs f) (\<lambda>_. I) E s"
  using assms
proof (induction xs arbitrary: s)
  case Nil
  then show ?case by (simp add: wp_ret)
next
  case (Cons x xs)
  have "wp (f x) (\<lambda>_. wp (ofor xs f) (\<lambda>_. I) E) E s"
    by (rule wp_conseq [where Q' = "\<lambda>_. I" and E' = E]) (use Cons in auto)
  then show ?case by (simp add: wp_oseq)
qed

section \<open>The requests a state owns\<close>

definition queued :: "('d, 'o) scheduler \<Rightarrow> nat multiset" where
  "queued s = mset (waiting s) + mset (decoding s) + mset (skipped_prefill s)"

text \<open>A method that leaves the queues alone, whatever it does to requests, oracle and timers.\<close>

definition same_queues :: "('d, 'o) scheduler \<Rightarrow> ('d, 'o) scheduler \<Rightarrow> bool" where
  "same_queues s t \<longleftrightarrow> waiting t = waiting s \<and> decoding t = decoding s \<and> skipped_prefill t = skipped_prefill s
     \<and> async_inflight t = async_inflight s"

definition keeps_queues :: "('d, 'o, 'a) sched_op \<Rightarrow> bool" where
  "keeps_queues m \<longleftrightarrow> (\<forall>s. wp m (\<lambda>_. same_queues s) (same_queues s) s)"

lemma same_queues_refl [simp, intro]: "same_queues s s" by (simp add: same_queues_def)

lemma keeps_queues_wp:
  "keeps_queues m \<Longrightarrow> (\<And>x t. same_queues s t \<Longrightarrow> Q x t) \<Longrightarrow> (\<And>t. same_queues s t \<Longrightarrow> E t) \<Longrightarrow> wp m Q E s"
  by (auto simp: keeps_queues_def intro: wp_conseq)

named_theorems queues_intro \<open>methods that leave the queues alone\<close>

lemma keeps_queues_obind [queues_intro]:
  assumes "keeps_queues m" "\<And>x. keeps_queues (f x)"
  shows "keeps_queues (obind m f)"
  unfolding keeps_queues_def
proof (intro allI wp_obind)
  fix s
  show "wp m (\<lambda>x. wp (f x) (\<lambda>_. same_queues s) (same_queues s)) (same_queues s) s"
    by (rule keeps_queues_wp [OF assms(1)]) (auto intro!: keeps_queues_wp [OF assms(2)] simp: same_queues_def)
qed

lemma keeps_queues_oseq [queues_intro]: "keeps_queues m \<Longrightarrow> keeps_queues n \<Longrightarrow> keeps_queues (oseq m n)"
  unfolding oseq_def by (rule keeps_queues_obind)

lemma keeps_queues_if [queues_intro]: "keeps_queues m \<Longrightarrow> keeps_queues n \<Longrightarrow> keeps_queues (if c then m else n)"
  by simp

lemma keeps_queues_option [queues_intro]:
  "keeps_queues m \<Longrightarrow> (\<And>y. keeps_queues (f y)) \<Longrightarrow> keeps_queues (case x of None \<Rightarrow> m | Some y \<Rightarrow> f y)"
  by (cases x) auto

lemma keeps_queues_prod [queues_intro]: "(\<And>a b. keeps_queues (f a b)) \<Longrightarrow> keeps_queues (case x of (a, b) \<Rightarrow> f a b)"
  by (cases x) auto

lemma keeps_queues_compat [queues_intro]:
  "(\<And>y. keeps_queues (f y)) \<Longrightarrow> keeps_queues m \<Longrightarrow> keeps_queues (case x of Hashable y \<Rightarrow> f y | Unhashable \<Rightarrow> m)"
  by (cases x) auto

lemma keeps_queues_basic [queues_intro]:
  "keeps_queues (ret x)" "keeps_queues (raise_error err)" "keeps_queues (reads f)" "keeps_queues (lift_result g)"
  "keeps_queues (raise_if c err)" "keeps_queues (on_oracle m)" "keeps_queues (ask m' r)" "keeps_queues (run_hook h r)"
  "keeps_queues (on_heap hh)" "keeps_queues (update_request r u)" "keeps_queues (on_request r v)" "keeps_queues monotonic"
  "keeps_queues (wait_setdefault r t)" "keeps_queues (set_reason y)"
  unfolding keeps_queues_def by (auto intro!: wp_intro simp: same_queues_def)

lemma keeps_queues_ofor [queues_intro]: "(\<And>x. keeps_queues (f x)) \<Longrightarrow> keeps_queues (ofor xs f)"
  by (induction xs) (auto intro: queues_intro)

lemma keeps_queues_omap [queues_intro]: "(\<And>x. keeps_queues (f x)) \<Longrightarrow> keeps_queues (omap f xs)"
  by (induction xs) (auto intro!: queues_intro)

lemma keeps_queues_batch_key [queues_intro]: "keeps_queues (prefill_batch_key e r)"
  unfolding prefill_batch_key_def prefill_execution_mode_def by (intro queues_intro)

lemma keeps_queues_collect [queues_intro]: "keeps_queues (collect_modes e rs modes)"
  by (induction rs arbitrary: modes) (auto intro!: queues_intro simp: refresh_prefill_metadata_def)

lemma keeps_queues_order [queues_intro]: "keeps_queues (bucket_order e)"
  unfolding bucket_order_def prefill_mode_order_def by (intro queues_intro)

lemma keeps_queues_eligible [queues_intro]: "keeps_queues (eligible_decode_loop e free batch rs)"
  by (induction rs arbitrary: free batch) (auto intro!: queues_intro)

lemma keeps_queues_overdue [queues_intro]: "keeps_queues (any_overdue ts)"
  by (induction ts) (auto intro!: queues_intro)

lemma keeps_queues_affinity [queues_intro]: "keeps_queues (decode_affinity e failure)"
  unfolding decode_affinity_def eligible_decode_batch_def by (intro queues_intro)

lemma keeps_queues_reserved [queues_intro]: "keeps_queues (reserved_prefill_tokens e)"
  unfolding reserved_prefill_tokens_def by (intro queues_intro)

lemma keeps_queues_window [queues_intro]: "keeps_queues (decode_window_failure e)"
  unfolding decode_window_failure_def by (auto intro!: queues_intro split: option.split)

lemma keeps_queues_capacity [queues_intro]: "keeps_queues (query_capacity e)"
  unfolding query_capacity_def by (intro queues_intro)

lemma keeps_queues_candidate [queues_intro]:
  "keeps_queues (candidate_capacity e mode r free)" "keeps_queues (candidate_tokens e mode r remaining batched free)"
  "keeps_queues (admission_costs e r run)" "keeps_queues (schedule_chunk e r can run)"
  unfolding candidate_capacity_def candidate_tokens_def respect_min_final_prefill_chunk_def admission_costs_def
    schedule_chunk_def by (intro queues_intro)+

section \<open>Calls that only change the oracle\<close>

lemma wp_batch_key [wp_intro]:
  assumes "\<And>k ost. Q k (s\<lparr>oracle_state := ost\<rparr>)" "\<And>ost. E (s\<lparr>oracle_state := ost\<rparr>)"
  shows "wp (prefill_batch_key e r) Q E s"
  unfolding prefill_batch_key_def prefill_execution_mode_def using assms by (intro wp_intro) auto

lemma wp_respect [wp_intro]:
  assumes "\<And>x ost. x = proposed \<or> x = 0 \<or> 0 < x \<and> x < proposed \<Longrightarrow> Q x (s\<lparr>oracle_state := ost\<rparr>)"
    "\<And>ost. E (s\<lparr>oracle_state := ost\<rparr>)"
  shows "wp (respect_min_final_prefill_chunk e r remaining proposed) Q E s"
  unfolding respect_min_final_prefill_chunk_def by (intro wp_intro) (auto intro!: assms)

text \<open>A chunk never exceeds the remaining tokens, nor the tokens left in the batch.\<close>

lemma prefill_step_tokens_bounds:
  assumes "prefill_step_tokens e mode remaining batched free = Inr n"
  shows "n \<le> max 0 remaining" "n \<le> 0 \<or> batched + n \<le> max_num_batched_tokens e" "n \<le> 0 \<or> n \<le> free"
    "0 < remaining \<Longrightarrow> n \<le> remaining"
  using assms by (auto simp: prefill_step_tokens_def Let_def split: if_splits)

lemma wp_candidate_capacity [wp_intro]:
  assumes "\<And>remaining free ost heap ost'. fst (remaining_prefill_tokens (memory_oracle e) (requests s r) heap ost') = Inr remaining
      \<Longrightarrow> Q (remaining, free) (s\<lparr>oracle_state := ost\<rparr>)" "\<And>ost. E (s\<lparr>oracle_state := ost\<rparr>)"
  shows "wp (candidate_capacity e mode r step) Q E s"
proof -
  have first: "wp (ask (remaining_prefill_tokens (memory_oracle e)) r)
      (\<lambda>x t. (\<exists>ost. t = s\<lparr>oracle_state := ost\<rparr>)
        \<and> (\<exists>heap ost. fst (remaining_prefill_tokens (memory_oracle e) (requests s r) heap ost) = Inr x)) (\<lambda>t. \<exists>ost. t = s\<lparr>oracle_state := ost\<rparr>) s"
    by (rule wpI) (auto simp: ask_def on_oracle_def split: prod.splits, metis fst_conv)
  show ?thesis
    unfolding candidate_capacity_def
    by (rule wp_obind, rule wp_conseq [OF first]) (auto intro!: wp_intro assms)
qed

lemma wp_candidate_tokens [wp_intro]:
  assumes "\<And>proposed can ost. 0 < remaining \<Longrightarrow> can \<le> remaining
      \<Longrightarrow> can \<le> 0 \<or> batched + can \<le> max_num_batched_tokens e \<Longrightarrow> Q (proposed, can) (s\<lparr>oracle_state := ost\<rparr>)"
    "\<And>ost. E (s\<lparr>oracle_state := ost\<rparr>)" "E s"
  shows "wp (candidate_tokens e mode r remaining batched free) Q E s"
  unfolding candidate_tokens_def
proof (intro wp_intro)
  fix n and m and ost
  assume h: "\<not> remaining \<le> 0" "prefill_step_tokens e mode remaining batched free = Inr n" "m = n \<or> m = 0 \<or> 0 < m \<and> m < n"
  show "Q (n, m) (s\<lparr>oracle_state := ost\<rparr>)"
    using prefill_step_tokens_bounds [OF h(2)] h by (intro assms(1)) auto
qed (use assms in auto)

section \<open>Popping a candidate\<close>

text \<open>The skipped requests are the ones in front of the candidate; nothing else changes.\<close>

lemma wp_pop_loop:
  "n = length (waiting s) \<Longrightarrow>
   wp (pop_loop e target rp n)
     (\<lambda>x t. \<exists>ost. case x of
        None \<Rightarrow> t = s\<lparr>oracle_state := ost, skipped_prefill := skipped_prefill s @ waiting s, waiting := []\<rparr>
      | Some r \<Rightarrow> prefill_eligible e rp s r \<and> (\<exists>us vs. waiting s = us @ r # vs
          \<and> t = s\<lparr>oracle_state := ost, skipped_prefill := skipped_prefill s @ us, waiting := vs\<rparr>))
     (\<lambda>t. \<exists>ost us vs. waiting s = us @ vs
          \<and> t = s\<lparr>oracle_state := ost, skipped_prefill := skipped_prefill s @ us, waiting := vs\<rparr>) s"
proof (induction n arbitrary: s)
  case 0
  then show ?case by (auto intro!: wp_ret exI [of _ "oracle_state s"])
next
  case (Suc n)
  then obtain r rs where ws: "waiting s = r # rs" "n = length rs" by (cases "waiting s") auto
  let ?next = "\<lambda>ost. s\<lparr>oracle_state := ost, skipped_prefill := skipped_prefill s @ [r], waiting := rs\<rparr>"
  have rest: "wp (pop_loop e target rp n)
     (\<lambda>x t. \<exists>ost. case x of
        None \<Rightarrow> t = s\<lparr>oracle_state := ost, skipped_prefill := skipped_prefill s @ waiting s, waiting := []\<rparr>
      | Some r \<Rightarrow> prefill_eligible e rp s r \<and> (\<exists>us vs. waiting s = us @ r # vs
          \<and> t = s\<lparr>oracle_state := ost, skipped_prefill := skipped_prefill s @ us, waiting := vs\<rparr>))
     (\<lambda>t. \<exists>ost us vs. waiting s = us @ vs
          \<and> t = s\<lparr>oracle_state := ost, skipped_prefill := skipped_prefill s @ us, waiting := vs\<rparr>) (?next ost)" for ost
  proof (rule wp_conseq [OF Suc.IH], goal_cases)
    case 1
    show ?case using ws by simp
  next
    case (2 x t)
    then show ?case
    proof (cases x)
      case (Some r')
      from 2 obtain ost' us vs where h: "prefill_eligible e rp (?next ost) r'" "rs = us @ r' # vs"
        "t = s\<lparr>oracle_state := ost', skipped_prefill := skipped_prefill s @ [r] @ us, waiting := vs\<rparr>"
        unfolding Some by auto
      then show ?thesis unfolding Some option.case
        by (intro exI [of _ ost'] conjI exI [of _ "r # us"] exI [of _ vs]) (simp_all add: ws prefill_eligible_def)
    qed (auto simp: ws)
  next
    case (3 t)
    then obtain ost' us vs where "rs = us @ vs"
        "t = s\<lparr>oracle_state := ost', skipped_prefill := skipped_prefill s @ [r] @ us, waiting := vs\<rparr>" by auto
    then show ?case by (intro exI [of _ ost'] exI [of _ "r # us"] exI [of _ vs]) (simp add: ws)
  qed
  have hit: "\<exists>ost' us vs. waiting s = us @ r # vs
      \<and> s\<lparr>oracle_state := ost, waiting := rs\<rparr> = s\<lparr>oracle_state := ost', skipped_prefill := skipped_prefill s @ us, waiting := vs\<rparr>"
    for ost by (intro exI [of _ ost] exI [of _ "[]"] exI [of _ rs]) (simp add: ws)
  have stop: "\<exists>ost' us vs. waiting s = us @ vs
      \<and> s\<lparr>oracle_state := ost\<rparr> = s\<lparr>oracle_state := ost', skipped_prefill := skipped_prefill s @ us, waiting := vs\<rparr>"
    for ost by (intro exI [of _ ost] exI [of _ "[]"] exI [of _ "waiting s"]) simp
  show ?case
    unfolding pop_loop.simps(2)
    by (intro wp_intro) (use rest [of "oracle_state s"] rest hit stop in \<open>auto simp: ws\<close>)
qed

lemma wp_pop_next:
  "wp (pop_next_prefill_seq e target rp)
     (\<lambda>x t. \<exists>ost. case x of
        None \<Rightarrow> t = s\<lparr>oracle_state := ost, skipped_prefill := skipped_prefill s @ waiting s, waiting := []\<rparr>
      | Some r \<Rightarrow> prefill_eligible e rp s r \<and> (\<exists>us vs. waiting s = us @ r # vs
          \<and> t = s\<lparr>oracle_state := ost, skipped_prefill := skipped_prefill s @ us, waiting := vs\<rparr>))
     (\<lambda>t. \<exists>ost us vs. waiting s = us @ vs
          \<and> t = s\<lparr>oracle_state := ost, skipped_prefill := skipped_prefill s @ us, waiting := vs\<rparr>) s"
  unfolding pop_next_prefill_seq_def by (intro wp_obind wp_reads) (rule wp_pop_loop [OF refl])

section \<open>The prefill scan keeps every request\<close>

text \<open>
  \<open>holds M D xs t\<close>: the queues of \<open>t\<close> together with the requests \<open>xs\<close> in local variables are \<open>M\<close>,
  and the decode queue is \<open>D\<close>.  After an exception the queues are part of \<open>M\<close>.
\<close>

definition holds :: "nat multiset \<Rightarrow> nat list \<Rightarrow> nat list \<Rightarrow> ('d, 'o) scheduler \<Rightarrow> bool" where
  "holds M D xs t \<longleftrightarrow> queued t + mset xs = M \<and> decoding t = D"

definition part_of :: "nat multiset \<Rightarrow> nat list \<Rightarrow> ('d, 'o) scheduler \<Rightarrow> bool" where
  "part_of M D t \<longleftrightarrow> queued t \<subseteq># M \<and> decoding t = D"

lemma holds_part_of: "holds M D xs t \<Longrightarrow> part_of M D t"
  by (auto simp: holds_def part_of_def)

lemma holds_same:
  "same_queues s t \<Longrightarrow> holds M D xs t = holds M D xs s" "same_queues s t \<Longrightarrow> part_of M D t = part_of M D s"
  by (simp_all add: same_queues_def holds_def part_of_def queued_def)

lemma holds_oracle [simp]:
  "holds M D xs (s\<lparr>oracle_state := ost\<rparr>) = holds M D xs s" "part_of M D (s\<lparr>oracle_state := ost\<rparr>) = part_of M D s"
  by (simp_all add: holds_def part_of_def queued_def)

lemma holds_append: "holds M D (r # xs) t \<Longrightarrow> holds M D xs (t\<lparr>waiting := waiting t @ [r]\<rparr>)"
  by (auto simp: holds_def queued_def)

lemma pop_holds:
  assumes "holds M D xs s"
  shows "wp (pop_next_prefill_seq e target rp)
    (\<lambda>x t. case x of None \<Rightarrow> holds M D xs t | Some r \<Rightarrow> holds M D (r # xs) t) (part_of M D) s"
  by (rule wp_conseq [OF wp_pop_next])
     (use assms in \<open>auto simp: holds_def part_of_def queued_def ac_simps split: option.splits\<close>)

lemma keeps_queues_holds:
  assumes "keeps_queues m" "holds M D xs s" "\<And>x t. holds M D xs t \<Longrightarrow> Q x t" "\<And>t. part_of M D t \<Longrightarrow> E t"
  shows "wp m Q E s"
  using assms by (auto intro!: keeps_queues_wp [OF assms(1)] simp: holds_same holds_part_of)

lemma keeps_queues_holds':
  "keeps_queues m \<Longrightarrow> holds M D xs s \<Longrightarrow> wp m (\<lambda>_. holds M D xs) (part_of M D) s"
  by (rule keeps_queues_holds)

lemma keeps_queues_accept [queues_intro]: "keeps_queues (accept_admission e r raw shared costs run)"
proof -
  have "keeps_queues (writes (\<lambda>s :: ('a, 'b) scheduler. s\<lparr>defer_warned := defer_warned s - {r}\<rparr>))"
    by (auto simp: keeps_queues_def same_queues_def intro!: wp_writes)
  then show ?thesis unfolding accept_admission_def Let_def by (intro queues_intro)
qed

lemma accept_scheduled:
  "wp (accept_admission e r raw shared costs run) (\<lambda>run' _. scheduled_seqs run' = scheduled_seqs run) (\<lambda>_. True) s"
  unfolding accept_admission_def Let_def by (intro wp_intro) auto

lemma admit_holds:
  assumes "holds M D (r # scheduled_seqs run) s"
  shows "wp (admit_prompt e r run)
    (\<lambda>(run', ok) t. scheduled_seqs run' = scheduled_seqs run
        \<and> holds M D (if ok then r # scheduled_seqs run else scheduled_seqs run) t) (part_of M D) s"
proof -
  have refuse: "wp (refuse_admission e r failed run)
      (\<lambda>run' t. scheduled_seqs run' = scheduled_seqs run \<and> holds M D (scheduled_seqs run) t) (part_of M D) t"
    if "holds M D (r # scheduled_seqs run) t" for failed t
    unfolding refuse_admission_def using that
    by (intro wp_intro) (auto simp: holds_def part_of_def queued_def)
  have accept: "wp (accept_admission e r raw shared costs run)
      (\<lambda>run' t. scheduled_seqs run' = scheduled_seqs run \<and> holds M D (r # scheduled_seqs run) t) (part_of M D) t"
    if "holds M D (r # scheduled_seqs run) t" for raw shared costs t
    by (rule wp_conseq [OF wp_conj [OF accept_scheduled keeps_queues_holds' [OF keeps_queues_accept that]]]) auto
  show ?thesis
    unfolding admit_prompt_def
    by (intro wp_intro keeps_queues_holds [OF keeps_queues_candidate(3) assms])
       (use assms in \<open>auto intro!: wp_intro intro: wp_conseq [OF refuse] wp_conseq [OF accept]\<close>)
qed

lemma chunk_scheduled:
  "wp (schedule_chunk e r can run) (\<lambda>run' _. scheduled_seqs run' = scheduled_seqs run @ [r]) (\<lambda>_. True) s"
  unfolding schedule_chunk_def by (intro wp_intro) auto

lemma candidate_holds:
  assumes "holds M D (r # scheduled_seqs run) s"
  shows "wp (prefill_candidate e mode r run) (\<lambda>(run', _) t. holds M D (scheduled_seqs run') t) (part_of M D) s"
proof -
  have block: "wp (block_candidate e mode r remaining free proposed run) (\<lambda>run' t. holds M D (scheduled_seqs run') t) (part_of M D) t"
    if "holds M D (r # scheduled_seqs run) t" for remaining free proposed t
    unfolding block_candidate_def Let_def using that
    by (intro wp_intro) (auto simp: holds_def part_of_def queued_def)
  have chunk: "wp (schedule_chunk e r can run') (\<lambda>run'' t. holds M D (scheduled_seqs run'') t) (part_of M D) t"
    if "holds M D (r # scheduled_seqs run') t" for can run' t
    by (rule wp_conseq [OF wp_conj [OF chunk_scheduled keeps_queues_holds' [OF keeps_queues_candidate(4) that]]])
       (auto simp: holds_def ac_simps)
  show ?thesis
    unfolding prefill_candidate_def using assms holds_part_of [OF assms]
    by (auto intro!: wp_intro wp_conseq [OF admit_holds] wp_conseq [OF block] intro: wp_conseq [OF chunk] split: if_splits)
qed

lemma bucket_loop_holds:
  assumes "holds M D (scheduled_seqs run) s"
  shows "wp (bucket_loop e target rp margin n run) (\<lambda>run' t. holds M D (scheduled_seqs run') t) (part_of M D) s"
  using assms
proof (induction n arbitrary: run s)
  case 0
  then show ?case by (auto intro: wp_ret)
next
  case (Suc n)
  show ?case
    unfolding bucket_loop.simps(2) using Suc.prems
    by (auto intro!: wp_intro wp_conseq [OF pop_holds] wp_conseq [OF candidate_holds] Suc.IH split: option.splits)
qed

lemma scan_bucket_holds:
  assumes "holds M D (scheduled_seqs run) s" "skipped_prefill s = []"
  shows "wp (scan_bucket e target rp margin run) (\<lambda>run' t. holds M D (scheduled_seqs run') t \<and> skipped_prefill t = [])
    (\<lambda>t. part_of M D t \<and> skipped_prefill t = []) s"
proof -
  have "holds M D (scheduled_seqs run) (s\<lparr>skipped_prefill := []\<rparr>)" using assms by (auto simp: holds_def queued_def)
  then show ?thesis
    unfolding scan_bucket_def
    by (auto intro!: wp_ofinally wp_intro wp_conseq [OF bucket_loop_holds]
        simp: holds_def part_of_def queued_def restore_skipped_def ac_simps)
qed

lemma scan_buckets_holds:
  assumes "holds M D (scheduled_seqs run) s" "skipped_prefill s = []"
  shows "wp (scan_buckets e order rp margin run) (\<lambda>run' t. holds M D (scheduled_seqs run') t \<and> skipped_prefill t = [])
    (\<lambda>t. part_of M D t \<and> skipped_prefill t = []) s"
  using assms
proof (induction order arbitrary: run s)
  case Nil
  then show ?case by (auto intro: wp_ret)
next
  case (Cons target order)
  then show ?case by (auto intro!: wp_intro wp_conseq [OF scan_bucket_holds])
qed

section \<open>Preemption and the decode scan\<close>

text \<open>What a step returns, relative to the requests \<open>M\<close> it started with.\<close>

definition step_ok :: "nat multiset \<Rightarrow> schedule_result \<Rightarrow> ('d, 'o) scheduler \<Rightarrow> bool" where
  "step_ok M res t = (case res of (rs, is_prefill, preempted) \<Rightarrow>
     (if is_prefill then queued t + mset rs = M \<and> preempted = [] \<and> rs \<noteq> []
      else queued t = M \<and> set rs \<subseteq> set (decoding t) \<and> set preempted \<subseteq> set (waiting t))
     \<and> skipped_prefill t = [])"

definition step_part :: "nat multiset \<Rightarrow> ('d, 'o) scheduler \<Rightarrow> bool" where
  "step_part M t \<longleftrightarrow> queued t \<subseteq># M \<and> skipped_prefill t = []"

lemma step_part_same: "same_queues s t \<Longrightarrow> step_part M s \<Longrightarrow> step_part M t"
  by (auto simp: same_queues_def step_part_def queued_def)

lemma keeps_queues_replay [queues_intro]:
  "keeps_queues (oseq (on_request r f) (writes (\<lambda>s. s\<lparr>total_recompute_replays := total_recompute_replays s + 1\<rparr>)))"
  by (auto simp: keeps_queues_def same_queues_def intro!: wp_intro)

lemma keeps_queues_restart [queues_intro]: "keeps_queues (restart_victim e v)"
  unfolding restart_victim_def by (intro queues_intro)

lemma preempt_ok:
  assumes M: "M = queued s + {#v#} + mset scheduled" and "skipped_prefill s = []"
  shows "wp (preempt_decode_victim e v scheduled []) (step_ok M) (step_part M) s"
proof -
  have "step_part M t" if "same_queues s t" for t
    using that assms by (auto simp: same_queues_def step_part_def queued_def)
  moreover have "step_part M (s\<lparr>decoding := scheduled @ v # decoding s\<rparr>)"
    using assms by (auto simp: step_part_def queued_def ac_simps)
  moreover have "step_ok M ([], False, [v]) (t\<lparr>waiting := waiting t @ [v], decoding := scheduled @ decoding t,
      total_preemptions := n, oracle_state := ost\<rparr>)"
    "step_part M (t\<lparr>waiting := waiting t @ [v], decoding := scheduled @ decoding t,
      total_preemptions := n, oracle_state := ost\<rparr>)" if "same_queues s t" for t n ost
    using that assms by (auto simp: same_queues_def step_ok_def step_part_def queued_def ac_simps)
  ultimately show ?thesis
    unfolding preempt_decode_victim_def by (auto intro!: wp_intro keeps_queues_wp [OF keeps_queues_restart])
qed

text \<open>
  The decode scan: \<open>us\<close> are the requests still to be looked at, \<open>vs\<close> the ones put back.  The
  blocked request is among the ones put back, and only requests of the decode queue are scheduled.
\<close>

definition scan_ok :: "('d, 'o, 'k, 'r) sched_env \<Rightarrow> nat multiset \<Rightarrow> ('d, 'o) scheduler \<Rightarrow> decode_scan
    \<Rightarrow> ('d, 'o) scheduler \<Rightarrow> bool" where
  "scan_ok e M s x t \<longleftrightarrow> skipped_prefill t = [] \<and> waiting t = waiting s \<and> requests t = requests s
     \<and> async_inflight t = async_inflight s
     \<and> (case x of Scanned rs b \<Rightarrow> M = queued t + mset rs \<and> set_option b \<subseteq> set (decoding t)
          \<and> int (length rs) \<le> max 0 (max_decoding_seqs e)
        | MustPreempt r \<Rightarrow> M = queued t + {#r#})"

lemma decode_loop_ok:
  assumes "decoding s = us @ vs" "length us = n" "set_option blocked \<subseteq> set vs" "skipped_prefill s = []"
    and "M = queued s + mset scheduled" "int (length scheduled) \<le> max 0 (max_decoding_seqs e)"
  shows "wp (decode_loop e n free scheduled blocked)
    (scan_ok e M s)
    (step_part M) s"
  using assms
proof (induction n arbitrary: s us vs free scheduled blocked)
  case 0
  then show ?case by (auto intro!: wp_ret simp: scan_ok_def queued_def)
next
  case (Suc n)
  then obtain r us' where us: "us = r # us'" "length us' = n" by (cases us) auto
  have front: "decoding s = r # us' @ vs" using Suc.prems us by simp
  have base: "step_part M (s\<lparr>decoding := us' @ vs, oracle_state := ost\<rparr>)" for ost
    using Suc.prems(4,5) front by (auto simp: step_part_def queued_def)
  note IH = wp_conseq [OF Suc.IH]
  have put: "wp (decode_loop e n free scheduled b)
    (scan_ok e M s)
    (step_part M) (s\<lparr>oracle_state := ost, decoding := us' @ vs @ [r]\<rparr>)"
    if "set_option b \<subseteq> insert r (set vs)" for b ost
    by (rule IH [of _ us' "vs @ [r]"]) (use that Suc.prems front us in \<open>auto simp: scan_ok_def queued_def\<close>)
  have take: "wp (decode_loop e n f (scheduled @ [r]) blocked)
    (scan_ok e M s)
    (step_part M) (s\<lparr>decoding := us' @ vs, oracle_state := ost\<rparr>)"
    if "\<not> max_decoding_seqs e \<le> int (length scheduled)" for f ost
    by (rule IH [of _ us' vs]) (use that Suc.prems front us in \<open>auto simp: scan_ok_def queued_def\<close>)
  have stops: "scan_ok e M s (Scanned scheduled blocked) s"
    "set_option b \<subseteq> insert r (set vs) \<Longrightarrow>
       scan_ok e M s (Scanned scheduled b) (s\<lparr>oracle_state := ost, decoding := us' @ vs @ [r]\<rparr>)"
    "scheduled = [] \<Longrightarrow> scan_ok e M s (MustPreempt r) (s\<lparr>decoding := us' @ vs, oracle_state := ost\<rparr>)" for b ost
    using Suc.prems front by (auto simp: scan_ok_def queued_def)
  have sets: "set_option blocked \<subseteq> insert r (set vs)" "set_option (if blocked = None then Some r else blocked) \<subseteq> insert r (set vs)"
    using Suc.prems(3) by auto
  have "decoding s \<noteq> []" "hd (decoding s) = r" "tl (decoding s) = us' @ vs" using front by simp_all
  then show ?case
    unfolding decode_loop.simps(2) Let_def
    using put [OF sets(1), of "oracle_state s"] put [OF sets(1)] put [OF sets(2)] base take stops(1) stops(2) [OF sets(2)] stops(3)
    by (cases blocked; intro wp_intro; simp)
qed

section \<open>A whole step\<close>

lemma report_ok:
  assumes "queued s = M" "skipped_prefill s = []"
  shows "wp (report_no_work run) (step_ok M) (step_part M) s"
  unfolding report_no_work_def using assms by (auto intro!: wp_intro simp: step_ok_def step_part_def)

lemma no_work_ok:
  assumes "queued s = M" "skipped_prefill s = []"
    and again: "\<And>m t. retry = Some m \<Longrightarrow> queued t = M \<Longrightarrow> skipped_prefill t = [] \<Longrightarrow> wp m (step_ok M) (step_part M) t"
  shows "wp (no_runnable_work e retry run) (step_ok M) (step_part M) s"
proof -
  have "queued (s\<lparr>requests := h, oracle_state := ost\<rparr>) = M" for h ost using assms(1) by (simp add: queued_def)
  then show ?thesis
    unfolding no_runnable_work_def using assms
    by (auto intro!: wp_intro report_ok again simp: step_part_def split: option.splits)
qed

lemma finish_decode_ok:
  assumes "M = queued s + mset rs" "set_option b \<subseteq> set (decoding s)" "skipped_prefill s = []"
  shows "wp (finish_decode rs b) (step_ok M) (step_part M) s"
proof -
  have "mset (r # remove1 r (rs @ decoding s)) = mset (rs @ decoding s)" if "b = Some r" for r
    using that assms(2) by (auto simp: remove1_append)
  moreover from this have "set rs \<subseteq> insert r (set (remove1 r (rs @ decoding s)))" if "b = Some r" for r
    using that by (metis Un_upper1 list.simps(15) set_append set_mset_mset)
  ultimately show ?thesis
    unfolding finish_decode_def using assms
    by (cases b) (auto intro!: wp_intro simp: step_ok_def queued_def ac_simps)
qed

lemma decode_phase_ok:
  assumes "queued s = M" "skipped_prefill s = []"
    and again: "\<And>m t. retry = Some m \<Longrightarrow> queued t = M \<Longrightarrow> skipped_prefill t = [] \<Longrightarrow> wp m (step_ok M) (step_part M) t"
  shows "wp (decode_phase e retry free run) (step_ok M) (step_part M) s"
proof -
  let ?s = "\<lambda>x. s\<lparr>phase_reason := x\<rparr>"
  have scan: "wp (decode_loop e (length (decoding s)) free [] None) (scan_ok e M (?s x)) (step_part M) (?s x)" for x
    by (rule decode_loop_ok [of _ "decoding s" "[]"]) (use assms in \<open>auto simp: queued_def\<close>)
  have after: "wp (case y of MustPreempt r \<Rightarrow> preempt_decode_victim e r [] []
     | Scanned [] (Some r) \<Rightarrow> oseq (drop_from_decoding r) (preempt_decode_victim e r [] [])
     | Scanned [] None \<Rightarrow> no_runnable_work e retry run
     | Scanned scheduled blocked \<Rightarrow> finish_decode scheduled blocked) (step_ok M) (step_part M) t"
    if h: "scan_ok e M (?s x) y t" for x y t
  proof (cases y)
    case (MustPreempt r)
    then show ?thesis using h by (simp add: scan_ok_def preempt_ok)
  next
    case (Scanned rs b)
    note h' = h [unfolded scan_ok_def Scanned decode_scan.case]
    show ?thesis
    proof (cases rs)
      case (Cons r rs')
      then show ?thesis using h' by (auto simp: Scanned intro!: finish_decode_ok)
    next
      case Nil
      have "M = queued (t\<lparr>decoding := remove1 r (decoding t)\<rparr>) + {#r#}" if "b = Some r" for r
        using that h' Nil by (auto simp: queued_def)
      then show ?thesis using h' again
        by (cases b) (auto simp: Scanned Nil intro!: wp_intro preempt_ok no_work_ok)
    qed
  qed
  show ?thesis
    unfolding decode_phase_def by (intro wp_intro) (auto intro!: wp_conseq [OF scan] after)
qed

lemma prefill_phase_ok:
  assumes "queued s = M" "skipped_prefill s = []"
  shows "wp (prefill_phase e overdue)
    (\<lambda>(run, _) t. queued t + mset (scheduled_seqs run) = M \<and> skipped_prefill t = []) (step_part M) s"
proof -
  have cap: "wp (query_capacity e) (\<lambda>(run, _, _) t. scheduled_seqs run = [] \<and> same_queues s t) (same_queues s) s"
  proof (rule wp_conseq [OF wp_conj])
    show "wp (query_capacity e) (\<lambda>_. same_queues s) (same_queues s) s"
      using keeps_queues_capacity by (auto simp: keeps_queues_def)
    show "wp (query_capacity e) (\<lambda>(run, _, _) _. scheduled_seqs run = []) (\<lambda>_. True) s"
      unfolding query_capacity_def reserved_prefill_tokens_def
      by (intro wp_intro) (auto simp: initial_run_def intro!: wp_intro)
  qed auto
  have sort: "wp (sort_overdue overdue) (\<lambda>_ t. queued t = M \<and> skipped_prefill t = []) (step_part M) t"
    if "same_queues s t" for t
    unfolding sort_overdue_def using that assms
    by (auto intro!: wp_intro simp: same_queues_def queued_def step_part_def)
  have scan: "wp (scan_buckets e order rp margin run)
      (\<lambda>run t. queued t + mset (scheduled_seqs run) = M \<and> skipped_prefill t = []) (step_part M) t"
    if "queued t = M" "skipped_prefill t = []" "scheduled_seqs run = []" for order rp margin run t
    by (rule wp_conseq [OF scan_buckets_holds [of M "decoding t"]])
       (use that in \<open>auto simp: holds_def part_of_def step_part_def\<close>)
  have "step_part M t" if "same_queues s t" for t
    using that assms by (auto simp: same_queues_def step_part_def queued_def)
  then show ?thesis
    unfolding prefill_phase_def
    by (auto intro!: wp_obind wp_oseq wp_reads wp_ret wp_conseq [OF cap] wp_conseq [OF sort] wp_conseq [OF scan]
        keeps_queues_wp [OF keeps_queues_order] simp: same_queues_def queued_def step_part_def)
qed

text \<open>Decode affinity selects from the decode queue, at most \<open>max_decoding_seqs\<close> requests.\<close>

lemma eligible_loop_batch:
  assumes "int (length batch) < max_decoding_seqs e"
  shows "wp (eligible_decode_loop e free batch rs)
    (\<lambda>b _. mset b \<subseteq># mset batch + mset rs \<and> int (length b) \<le> max_decoding_seqs e) (\<lambda>_. True) s"
  using assms
proof (induction rs arbitrary: free batch s)
  case Nil
  then show ?case by (auto intro!: wp_ret)
next
  case (Cons r rs)
  have skip: "wp (eligible_decode_loop e free batch rs)
      (\<lambda>b _. mset b \<subseteq># mset batch + mset (r # rs) \<and> int (length b) \<le> max_decoding_seqs e) (\<lambda>_. True) t" for t free
    by (rule wp_conseq [OF Cons.IH [OF Cons.prems]]) (auto intro: subset_mset.order_trans)
  have take: "wp (eligible_decode_loop e f (batch @ [r]) rs)
      (\<lambda>b _. mset b \<subseteq># mset batch + mset (r # rs) \<and> int (length b) \<le> max_decoding_seqs e) (\<lambda>_. True) t"
    if "int (length (batch @ [r])) \<noteq> max_decoding_seqs e" for t f
    by (rule wp_conseq [OF Cons.IH]) (use that Cons.prems in auto)
  show ?case
    unfolding eligible_decode_loop.simps using Cons.prems skip take by (auto intro!: wp_intro)
qed

definition selection_ok :: "('d, 'o, 'k, 'r) sched_env \<Rightarrow> ('d, 'o) scheduler \<Rightarrow> nat list option \<Rightarrow> bool" where
  "selection_ok e s early \<longleftrightarrow> (\<forall>b. early = Some b \<longrightarrow> mset b \<subseteq># mset (decoding s)
     \<and> (0 < max_decoding_seqs e \<longrightarrow> int (length b) \<le> max_decoding_seqs e))"

lemma affinity_selection:
  "wp (decode_affinity e failure) (\<lambda>(_, early) t. selection_ok e s early \<and> same_queues s t) (same_queues s) s"
proof -
  have loop: "wp (eligible_decode_loop e free [] (decoding s)) (\<lambda>b u. selection_ok e s (Some b)) (\<lambda>_. True) t"
    for free t
  proof (cases "0 < max_decoding_seqs e")
    case True
    then show ?thesis
      using wp_conseq [OF eligible_loop_batch [of "[]" e free "decoding s" t]] by (auto simp: selection_ok_def)
  next
    case False
    have "wp (eligible_decode_loop e free batch rs) (\<lambda>b _. mset b \<subseteq># mset batch + mset rs) (\<lambda>_. True) u" for free batch rs u
    proof (induction rs arbitrary: free batch u)
      case (Cons r rs)
      show ?case
        unfolding eligible_decode_loop.simps
        by (auto intro!: wp_intro wp_conseq [OF Cons.IH] intro: subset_mset.order_trans)
    qed (auto intro!: wp_ret)
    from this [of free "[]" "decoding s"] False show ?thesis
      by (auto intro: wp_conseq simp: selection_ok_def)
  qed
  have batch: "wp (eligible_decode_batch e) (\<lambda>b _. selection_ok e s (Some b)) (\<lambda>_. True) t" if "same_queues s t" for t
  proof -
    have "decoding t = decoding s" "selection_ok e s (Some [])" using that by (simp_all add: same_queues_def selection_ok_def)
    with loop show ?thesis unfolding eligible_decode_batch_def by (auto intro!: wp_intro)
  qed
  have over: "wp (any_overdue ts) (\<lambda>_. same_queues s) (\<lambda>_. True) t" if "same_queues s t" for ts t
    by (rule keeps_queues_wp [OF keeps_queues_overdue]) (use that in \<open>auto simp: same_queues_def\<close>)
  have "wp (decode_affinity e failure) (\<lambda>(_, early) t. selection_ok e s early) (\<lambda>_. True) s"
    unfolding decode_affinity_def
    by (auto intro!: wp_intro wp_conseq [OF over] wp_conseq [OF batch] simp: same_queues_def)
       (auto simp: selection_ok_def)
  moreover have "wp (decode_affinity e failure) (\<lambda>_. same_queues s) (same_queues s) s"
    using keeps_queues_affinity by (auto simp: keeps_queues_def)
  ultimately show ?thesis by (rule wp_conseq [OF wp_conj]) auto
qed

lemma evicted_ok:
  assumes "queued t = M" "skipped_prefill t = []" "v \<in> set (decoding t)"
    "same_queues (t\<lparr>decoding := remove1 v (decoding t)\<rparr>) u"
  shows "wp (preempt_decode_victim e v [] []) (step_ok M) (step_part M) u" "step_part M u"
  using assms by (auto intro!: preempt_ok simp: same_queues_def queued_def step_part_def)

lemma schedule_round_ok:
  assumes "queued s = M" "skipped_prefill s = []"
    and again: "\<And>m t. retry = Some m \<Longrightarrow> queued t = M \<Longrightarrow> skipped_prefill t = [] \<Longrightarrow> wp m (step_ok M) (step_part M) t"
  shows "wp (schedule_round e retry) (step_ok M) (step_part M) s"
proof -
  have part: "step_part M t" and full: "queued t = M" "skipped_prefill t = []" if "same_queues s t" for t
    using that assms by (auto simp: same_queues_def step_part_def queued_def)
  have trans: "same_queues s u" if "same_queues s t" "same_queues t u" for t u
    using that by (simp add: same_queues_def)
  have evict: "wp (oseq (decoding_remove v) (oseq (on_oracle (num_free_slots (memory_oracle e)))
      (oseq (reserved_prefill_tokens e) (preempt_decode_victim e v [] [])))) (step_ok M) (step_part M) t"
    if "same_queues s t" for v t
    by (intro wp_oseq wp_decoding_remove keeps_queues_wp [OF keeps_queues_basic(6)] keeps_queues_wp [OF keeps_queues_reserved]
        evicted_ok [where t = t and v = v] evicted_ok(1) full [OF that] part [OF that])
       (auto simp: same_queues_def)
  have evict': "wp (oseq (decoding_remove v) (preempt_decode_victim e v [] [])) (step_ok M) (step_part M) t"
    if "queued t = M" "skipped_prefill t = []" for v t
    using that by (auto intro!: wp_oseq wp_decoding_remove evicted_ok(1) [where t = t and v = v] simp: step_part_def)
  have early: "step_ok M (b, False, []) t" if "same_queues s t" "selection_ok e u (Some b)" "same_queues s u" for b t u
    using that full [OF that(1)] by (auto simp: step_ok_def selection_ok_def same_queues_def dest: mset_subset_eqD)
  have late: "wp (obind (prefill_phase e overdue) (\<lambda>(run, decode_free).
      if scheduled_seqs run \<noteq> [] then ret (scheduled_seqs run, True, [])
      else case failure of Some v \<Rightarrow> oseq (decoding_remove v) (preempt_decode_victim e v [] [])
           | None \<Rightarrow> decode_phase e retry decode_free run)) (step_ok M) (step_part M) t"
    if "same_queues s t" for overdue failure t
    using evict' again
    by (auto intro!: wp_obind wp_conseq [OF prefill_phase_ok [OF full [OF that]]] wp_if wp_ret wp_option decode_phase_ok
        simp: step_ok_def)
  show ?thesis
    unfolding schedule_round_def
    by (intro wp_obind wp_reads wp_option keeps_queues_wp [OF keeps_queues_window] evict)
       (auto intro!: wp_conseq [OF affinity_selection] wp_option wp_ret late part intro: early trans)
qed

lemma schedule_impl_ok:
  assumes "queued s = M" "skipped_prefill s = []"
  shows "wp (schedule_impl e allow) (step_ok M) (step_part M) s"
proof -
  have "wp (schedule_round e None) (step_ok M) (step_part M) t" if "queued t = M" "skipped_prefill t = []" for t
    using that by (auto intro: schedule_round_ok)
  then show ?thesis unfolding schedule_impl_def using assms by (auto intro!: schedule_round_ok)
qed

section \<open>Exceptions\<close>

text \<open>The handler gives back every request that is in no queue any more, and duplicates none.\<close>

lemma mset_distinct_eq: "distinct xs \<Longrightarrow> distinct ys \<Longrightarrow> set xs = set ys \<Longrightarrow> mset xs = mset ys"
  by (simp add: set_eq_iff_mset_eq_distinct)

lemma restore_ownership_all:
  assumes d: "distinct (ws @ ds)" and part: "step_part (mset (ws @ ds)) s"
  shows "queued (restore_ownership ws ds s) = mset (ws @ ds)" "skipped_prefill (restore_ownership ws ds s) = []"
proof -
  let ?t = "restore_ownership ws ds s"
  have sub: "mset (waiting s @ decoding s) \<subseteq># mset (ws @ ds)" "skipped_prefill s = []"
    using part by (auto simp: step_part_def queued_def)
  obtain zs where "mset (ws @ ds) = mset ((waiting s @ decoding s) @ zs)"
    using sub(1) by (metis ex_mset mset_append subset_mset.le_iff_add)
  then have "distinct (waiting s @ decoding s)" using d by (metis distinct_append mset_eq_imp_distinct_iff)
  moreover have "set (waiting s @ decoding s) \<subseteq> set (ws @ ds)" using set_mset_mono [OF sub(1)] by simp
  ultimately have "distinct (waiting ?t @ decoding ?t)" "set (waiting ?t @ decoding ?t) = set (ws @ ds)"
    using d by (auto simp: restore_ownership_def Let_def)
  then have "mset (waiting ?t @ decoding ?t) = mset (ws @ ds)" using d by (intro mset_distinct_eq)
  then show "queued ?t = mset (ws @ ds)" "skipped_prefill ?t = []"
    using sub(2) by (simp_all add: queued_def restore_ownership_def Let_def add.assoc)
qed

lemma snapshot_ok:
  assumes "wp m (step_ok M) (step_part M) (s\<lparr>oracle_state := ost\<rparr>)" "\<And>ost. wp m (step_ok M) (step_part M) (s\<lparr>oracle_state := ost\<rparr>)"
    "step_part M s"
  shows "wp (with_capacity_snapshot e m) (step_ok M) (step_part M) s"
proof (cases "scheduler_capacity_snapshot (memory_oracle e)")
  case None
  then show ?thesis using assms(2) [of "oracle_state s"] by (simp add: with_capacity_snapshot_def)
next
  case (Some p)
  obtain enter leave where p: "p = (enter, leave)" by (cases p)
  have weak: "step_ok M x t \<Longrightarrow> step_part M (t\<lparr>oracle_state := ost\<rparr>)" "step_part M t \<Longrightarrow> step_part M (t\<lparr>oracle_state := ost\<rparr>)"
    "step_ok M x t \<Longrightarrow> step_ok M x (t\<lparr>oracle_state := ost\<rparr>)" for x t ost
    by (auto simp: step_ok_def step_part_def queued_def split: if_splits)
  have "wp (\<lambda>s. case m s of (r, s1) \<Rightarrow> (case on_oracle leave s1 of (Inl x, s2) \<Rightarrow> (Inl x, s2) | (Inr _, s2) \<Rightarrow> (r, s2)))
      (step_ok M) (step_part M) t" if "wp m (step_ok M) (step_part M) t" for t
    using that weak by (auto simp: wp_def on_oracle_def split: prod.splits sum.splits)
  then show ?thesis
    unfolding with_capacity_snapshot_def Some option.case p prod.case
    using assms weak(2) by (auto intro!: wp_oseq wp_on_oracle)
qed

lemma guarded_impl_ok:
  assumes "distinct (waiting s @ decoding s)" "skipped_prefill s = []" "M = mset (waiting s @ decoding s)"
  shows "wp (guarded_impl e) (step_ok M) (\<lambda>t. queued t = M \<and> skipped_prefill t = []) s"
proof -
  have q: "queued (s\<lparr>oracle_state := ost\<rparr>) = M" for ost using assms by (simp add: queued_def)
  then have "step_part M s" using assms(2,3) by (auto simp: step_part_def queued_def)
  then have "wp (with_capacity_snapshot e (schedule_impl e True)) (step_ok M) (step_part M) s"
    using q [of "oracle_state s"] q assms(2) by (intro snapshot_ok [where ost = "oracle_state s"] schedule_impl_ok) auto
  then show ?thesis
    using restore_ownership_all [OF assms(1)] assms(3)
    by (auto simp: wp_def guarded_impl_def split: prod.splits sum.splits)
qed

lemma record_phase_ok: "step_ok M res s \<Longrightarrow> wp (record_phase now rs p) (\<lambda>_. step_ok M res) (\<lambda>_. False) s"
  unfolding record_phase_def by (intro wp_writes) (auto simp: step_ok_def queued_def Let_def)

lemma schedule_step:
  assumes "distinct (waiting s @ decoding s)" "skipped_prefill s = []"
  shows "wp (schedule e) (step_ok (mset (waiting s @ decoding s))) (\<lambda>t. queued t = mset (waiting s @ decoding s) \<and> skipped_prefill t = []) s"
proof -
  let ?M = "mset (waiting s @ decoding s)"
  let ?E = "\<lambda>t. queued t = ?M \<and> skipped_prefill t = []"
  have impl: "wp (guarded_impl e) (step_ok ?M) ?E u" if "same_queues s u" for u
    using guarded_impl_ok [of u ?M e] that assms(1,2) by (simp add: same_queues_def)
  have waits: "wp (ofor ws (\<lambda>r. wait_setdefault r now)) (\<lambda>_. same_queues s) ?E u" if "same_queues s u" for ws now u
    by (rule wp_ofor [where I = "same_queues s"]) (use that in \<open>auto intro!: wp_intro simp: same_queues_def\<close>)
  show ?thesis
    unfolding schedule_def
    by (intro wp_obind wp_oseq wp_monotonic wp_reads wp_conseq [OF waits] wp_writes)
       (auto intro!: wp_conseq [OF impl] wp_intro wp_conseq [OF record_phase_ok] simp: same_queues_def)
qed

text \<open>
  C2. A scheduling step loses no request and duplicates none, whatever memory oracle, callbacks and
  clock do.  When it returns a prefill batch, the batch and the two queues together hold exactly the
  requests of the two queues before; when it returns a decode batch, the queues still hold all of
  them and the batch is taken from the decode queue; preempted requests are back in the waiting
  queue.  When any hook raises at any point, every request is still in one of the queues.
\<close>

theorem schedule_conserves_requests:
  assumes "distinct (waiting s @ decoding s)" "skipped_prefill s = []" "schedule e s = (r, t)"
  shows "case r of
      Inr (rs, is_prefill, preempted) \<Rightarrow>
        mset (waiting t) + mset (decoding t) + (if is_prefill then mset rs else {#}) = mset (waiting s) + mset (decoding s)
        \<and> (\<not> is_prefill \<longrightarrow> set rs \<subseteq> set (decoding t)) \<and> set preempted \<subseteq> set (waiting t)
    | Inl err \<Rightarrow> mset (waiting t) + mset (decoding t) = mset (waiting s) + mset (decoding s)"
  using schedule_step [OF assms(1,2), of e] assms(3) by (auto simp: wp_def step_ok_def queued_def split: sum.splits if_splits)

section \<open>A concrete scheduler\<close>

text \<open>
  A memory oracle with \<open>n\<close> free slots (its state) that charges one slot per token, batches all
  prompts in chunks, raises for request 9 when it is admitted, and otherwise behaves like the
  defaults of the cache manager's base class.
\<close>

definition sample_oracle :: "(nat, int, nat, nat) memory_oracle" where
  "sample_oracle = \<lparr>
     num_free_slots = (\<lambda>_ n. (Inr n, n)),
     reserve_decode_windows = (\<lambda>_ _. ret None),
     prefill_batched_tokens_margin = (\<lambda>_. ret 0),
     remaining_prefill_tokens = (\<lambda>q _. ret (num_prompt_tokens q - max (num_prefilled_tokens q) (prefix_cache_hit_len q))),
     oracle_execution_mode = (\<lambda>_ _. ret ''chunked''),
     prefill_batch_compatibility_key = (\<lambda>_ _. ret (Hashable 0)),
     reset_prefill_execution_state = (\<lambda>_ _. ret ()),
     complete_prefill_execution = ret (),
     reserved_prefill_slots = (\<lambda>_ _ _. ret 0),
     should_schedule_full_prefill = (\<lambda>_ _. ret False),
     prefill_step_free_slots = (\<lambda>_ n. (Inr n, n)),
     prefill_step_free_slots_for = (\<lambda>_ _ n. (Inr n, n)),
     prefill_private_slots_for = (\<lambda>_ _. ret 0),
     min_final_prefill_chunk_size = (\<lambda>_ _. ret 0),
     prefill_step_reservation_cost = (\<lambda>c _ _. ret c),
     decode_step_free_slots = (\<lambda>_ n. (Inr n, n)),
     decode_step_free_slots_for = (\<lambda>_ _ n. (Inr n, n)),
     decode_step_reservation_cost = (\<lambda>_ _. ret 1),
     prompt_admission_free_slots = (\<lambda>_ n. (Inr n, n)),
     prompt_admission_budgets = (\<lambda>_ _ _ n. (Inr [(''slots'', n)], n)),
     prompt_admission_costs = (\<lambda>q _. ret [(''slots'', num_prompt_tokens q)]),
     prompt_admission_shared_costs = None,
     prompt_logical_reservation_cost = (\<lambda>q _. ret (num_prompt_tokens q)),
     prompt_admission_failure_action = (\<lambda>_. ret ''defer''),
     on_prompt_admitted = (\<lambda>_ (q, n). (if seq_id q = 9 then Inl (RuntimeError ''admission'') else Inr (), q, n)),
     refresh_prefix_cache_hit = ret (),
     clear_prefix_cache_hit = (\<lambda>(q, n). (Inr (), seq_clear_prefix_hit q, n)),
     scheduler_capacity_snapshot = None,
     free_slot_stats = (\<lambda>_. ret [])\<rparr>"

definition sample_env :: "(nat, int, nat, nat) sched_env" where
  "sample_env = \<lparr>max_num_seqs_in_batch = 4, max_num_batched_tokens = 8, max_decoding_seqs = 4, favor_min_decoding_seqs = 0,
     engine_prefill_chunk_size = 4, sched_eos_token_ids = [2], memory_oracle = sample_oracle,
     prefix_cache_hit_refresher = resolve_refresher sample_oracle None, prefix_cache_hits_refresher = None,
     decode_capacity_reclaimer = None, prefill_capacity_reclaimer = None\<rparr>"

definition sample_scheduler :: "(nat \<times> int list) list \<Rightarrow> (nat, int) scheduler" where
  "sample_scheduler prompts = foldl (\<lambda>s r. snd (add_request r s))
     (init_scheduler (\<lambda>r. case map_of prompts r of None \<Rightarrow> init_sequence r [] sample_params
                          | Some ts \<Rightarrow> init_sequence r ts sample_params) 20 (\<lambda>_. 0)) (map fst prompts)"

text \<open>Running the concrete scheduler by rewriting: the continuation of a bind is not rewritten before it is reached.\<close>

lemma obind_lazy: "m = m' \<Longrightarrow> obind m f = obind m' f" by simp

lemma oseq_lazy: "m = m' \<Longrightarrow> oseq m n = oseq m' n" by simp

lemma run_obind: "obind m f s = (case m s of (Inl e, s') \<Rightarrow> (Inl e, s') | (Inr x, s') \<Rightarrow> f x s')"
  by (simp add: obind_def)

lemma run_oseq: "oseq m n s = (case m s of (Inl e, s') \<Rightarrow> (Inl e, s') | (Inr x, s') \<Rightarrow> n s')"
  by (simp add: obind_def oseq_def)

lemma run_if: "(if c then m else n) s = (if c then m s else n s)" by simp

lemma sample_env_fields:
  "max_num_seqs_in_batch sample_env = 4" "max_num_batched_tokens sample_env = 8" "max_decoding_seqs sample_env = 4"
  "favor_min_decoding_seqs sample_env = 0" "engine_prefill_chunk_size sample_env = 4"
  "sched_eos_token_ids sample_env = [2]" "memory_oracle sample_env = sample_oracle"
  "prefix_cache_hit_refresher sample_env = ret ()" "prefix_cache_hits_refresher sample_env = None"
  "decode_capacity_reclaimer sample_env = None" "prefill_capacity_reclaimer sample_env = None"
  by (simp_all add: sample_env_def resolve_refresher_def sample_oracle_def)

lemmas sched_run = sample_env_fields sample_oracle_def run_obind run_oseq run_ret run_raise run_reads run_writes run_lift
  run_raise_if run_if sample_scheduler_def schedule_def guarded_impl_def with_capacity_snapshot_def schedule_impl_def
  schedule_round_def decode_window_failure_def on_heap_def decode_affinity_def set_reason_def prefill_phase_def
  query_capacity_def on_oracle_def ask_def reserved_prefill_tokens_def sort_overdue_def bucket_order_def
  prefill_mode_order_def any_replay_def is_recompute_replay_def prefill_eligible_def refresh_prefill_metadata_def
  is_fresh_def run_hook_def update_request_def on_request_def monotonic_def wait_setdefault_def add_request_def
  init_scheduler_def init_sequence_def num_completion_tokens_def sample_params_def initial_run_def prefill_batch_key_def
  prefill_execution_mode_def validate_prefill_execution_mode_def scan_bucket_def ofinally_def
  can_continue_prefill_batch_def pop_next_prefill_seq_def prefill_candidate_def candidate_capacity_def
  candidate_tokens_def prefill_step_tokens_def Let_def respect_min_final_prefill_chunk_def admit_prompt_def
  admission_costs_def budget_def accept_admission_def charge_budgets_def charge_resources_def schedule_chunk_def
  restore_skipped_def record_phase_def is_finished_def decode_phase_def preempt_decode_victim_def restart_victim_def
  sole_decode_def finish_decode_def decoding_remove_def drop_from_decoding_def no_runnable_work_def report_no_work_def
  restore_ownership_def

lemma sample_prefill:
  "fst (schedule sample_env (sample_scheduler [(1, [3, 4, 5, 6, 7]), (2, [8, 9])])) = Inr ([1, 2], True, [])"
  by (simp add: sched_run cong: obind_lazy oseq_lazy)

text \<open>The admission of request 9 raises after request 1 has been selected: both stay queued.\<close>

theorem schedule_conserves_requests_witness:
  "\<exists>t. schedule sample_env (sample_scheduler [(1, [3, 4, 5]), (9, [8, 9])]) = (Inl (RuntimeError ''admission''), t)
     \<and> mset (waiting t) + mset (decoding t) = {#1, 9#}"
proof -
  let ?s = "sample_scheduler [(1, [3, 4, 5]), (9, [8, 9])]"
  obtain r t where run: "schedule sample_env ?s = (r, t)" by fastforce
  have "fst (schedule sample_env ?s) = Inl (RuntimeError ''admission'')"
    by (simp add: sched_run cong: obind_lazy oseq_lazy)
  then have r: "r = Inl (RuntimeError ''admission'')" using run by simp
  have qs: "waiting ?s = [1, 9]" "decoding ?s = []" "skipped_prefill ?s = []"
    by (simp_all add: sched_run cong: obind_lazy oseq_lazy)
  have "mset (waiting t) + mset (decoding t) = mset (waiting ?s) + mset (decoding ?s)"
    using schedule_conserves_requests [OF _ _ run] qs unfolding r by simp
  then show ?thesis using run r qs by auto
qed

end
