(* ===== verification/Scheduler_Batches.thy ===== *)
theory Scheduler_Batches
  imports Scheduler_Queues
begin

text \<open>
  What a prefill batch looks like: its size and its tokens, the chunk of every request in it, and
  the isolation of replays.  The memory oracle promises the laws of the locale \<open>admission_laws\<close>.
\<close>

section \<open>What the scheduler relies on\<close>

text \<open>
  The remaining tokens of a prompt are at most the ones after its computed or cached prefix, the admission
  hook leaves the request alone, and refreshing prefix hits does not touch the replay cursor.
\<close>

locale admission_laws =
  fixes e :: "('d, 'o, 'k, 'r) sched_env"
  assumes remaining_tokens: "fst (remaining_prefill_tokens (memory_oracle e) q heap ost) = Inr n
      \<Longrightarrow> n \<le> num_prompt_tokens q - max (num_prefilled_tokens q) (prefix_cache_hit_len q)"
    and admission_keeps: "on_prompt_admitted (memory_oracle e) costs (q, ost) = (x, q', ost') \<Longrightarrow> q' = q"
    and refresh_keeps: "prefix_cache_hit_refresher e (q, ost) = (x, q', ost')
      \<Longrightarrow> recompute_replay_cursor q' = recompute_replay_cursor q"
    and refresh_all_keeps: "prefix_cache_hits_refresher e = Some f \<Longrightarrow> f rs (heap, ost) = (x', heap', ost')
      \<Longrightarrow> recompute_replay_cursor (heap' r) = recompute_replay_cursor (heap r)"

section \<open>The invariant of the prefill scan\<close>

definition chunk_of :: "'d sequence \<Rightarrow> int" where
  "chunk_of q = (case current_chunk_size q of None \<Rightarrow> 0 | Some c \<Rightarrow> c)"

text \<open>A chunk is not empty and lies in the rest of the prompt.\<close>

definition chunk_ok :: "'d sequence \<Rightarrow> bool" where
  "chunk_ok q \<longleftrightarrow> status q = RUNNING \<and> current_chunk_size q = Some (chunk_of q) \<and> 0 < chunk_of q
     \<and> num_prefilled_tokens q + chunk_of q \<le> num_prompt_tokens q"

definition batch_ok :: "('d, 'o, 'k, 'r) sched_env \<Rightarrow> 'r prefill_run \<Rightarrow> ('d, 'o) scheduler \<Rightarrow> bool" where
  "batch_ok e run s \<longleftrightarrow> num_batched_seqs run = int (length (scheduled_seqs run))
     \<and> num_batched_tokens run = sum_list (map (\<lambda>r. chunk_of (requests s r)) (scheduled_seqs run))
     \<and> (scheduled_seqs run \<noteq> [] \<longrightarrow> num_batched_tokens run \<le> max_num_batched_tokens e)
     \<and> int (length (scheduled_seqs run)) \<le> max 1 (max_num_seqs_in_batch e)
     \<and> (\<forall>r \<in> set (scheduled_seqs run). chunk_ok (requests s r))"

definition replay_isolated :: "bool \<Rightarrow> 'r prefill_run \<Rightarrow> ('d, 'o) scheduler \<Rightarrow> bool" where
  "replay_isolated rp run s \<longleftrightarrow>
     (\<not> rp \<longrightarrow> (\<forall>r \<in> set (waiting s @ skipped_prefill s @ scheduled_seqs run). \<not> is_recompute_replay (requests s r)))
     \<and> (rp \<longrightarrow> (\<forall>r \<in> set (scheduled_seqs run). is_recompute_replay (requests s r)) \<and> length (scheduled_seqs run) \<le> 1)"

definition scan_inv :: "('d, 'o, 'k, 'r) sched_env \<Rightarrow> bool \<Rightarrow> 'r prefill_run \<Rightarrow> ('d, 'o) scheduler \<Rightarrow> bool" where
  "scan_inv e rp run s \<longleftrightarrow> distinct (waiting s @ skipped_prefill s @ scheduled_seqs run)
     \<and> batch_ok e run s \<and> replay_isolated rp run s"

text \<open>The same with a candidate \<open>r\<close> that has been popped and may still be scheduled.\<close>

definition popped_inv :: "('d, 'o, 'k, 'r) sched_env \<Rightarrow> bool \<Rightarrow> nat \<Rightarrow> 'r prefill_run \<Rightarrow> ('d, 'o) scheduler \<Rightarrow> bool" where
  "popped_inv e rp r run s \<longleftrightarrow> scan_inv e rp run s \<and> r \<notin> set (waiting s @ skipped_prefill s @ scheduled_seqs run)
     \<and> (rp \<longleftrightarrow> is_recompute_replay (requests s r))
     \<and> (scheduled_seqs run \<noteq> [] \<longrightarrow> \<not> is_recompute_replay (requests s (hd (scheduled_seqs run))))
     \<and> int (length (scheduled_seqs run)) < max 1 (max_num_seqs_in_batch e)"

lemmas scan_defs = scan_inv_def batch_ok_def replay_isolated_def

lemma scan_inv_oracle [simp]:
  "scan_inv e rp run (s\<lparr>oracle_state := ost\<rparr>) = scan_inv e rp run s"
  "popped_inv e rp r run (s\<lparr>oracle_state := ost\<rparr>) = popped_inv e rp r run s"
  by (simp_all add: scan_defs popped_inv_def)

lemma batch_ok_requests: "requests t = requests s \<Longrightarrow> batch_ok e run t = batch_ok e run s"
  by (simp add: batch_ok_def)

text \<open>Fields of the run that are not part of the batch do not matter.\<close>

definition same_batch :: "'r prefill_run \<Rightarrow> 'r prefill_run \<Rightarrow> bool" where
  "same_batch run run' \<longleftrightarrow> scheduled_seqs run' = scheduled_seqs run \<and> num_batched_seqs run' = num_batched_seqs run
     \<and> num_batched_tokens run' = num_batched_tokens run"

lemma same_batch_refl [simp]: "same_batch run run" by (simp add: same_batch_def)

lemma popped_invD:
  assumes "popped_inv e rp r run s"
  shows "batch_ok e run s" "distinct (waiting s @ skipped_prefill s @ scheduled_seqs run)" "replay_isolated rp run s"
    "r \<notin> set (waiting s @ skipped_prefill s @ scheduled_seqs run)" "rp \<longleftrightarrow> is_recompute_replay (requests s r)"
    "scheduled_seqs run \<noteq> [] \<Longrightarrow> \<not> is_recompute_replay (requests s (hd (scheduled_seqs run)))"
    "int (length (scheduled_seqs run)) < max 1 (max_num_seqs_in_batch e)"
  using assms unfolding popped_inv_def scan_inv_def by blast+

lemma scan_inv_put_back:
  assumes "popped_inv e rp r run s" "same_batch run run'" "waiting t = waiting s @ [r]" "skipped_prefill t = skipped_prefill s"
    "requests t = requests s"
  shows "scan_inv e rp run' t"
proof -
  note same = assms(3-5) assms(2) [unfolded same_batch_def]
  note parts = popped_invD [OF assms(1)]
  have "batch_ok e run' t" using parts(1) by (auto simp: batch_ok_def same)
  moreover have "distinct (waiting t @ skipped_prefill t @ scheduled_seqs run')" using parts(2,4) by (auto simp: same)
  moreover have "replay_isolated rp run' t"
  proof (cases rp)
    case True
    then show ?thesis using parts(3) by (simp add: replay_isolated_def same)
  next
    case False
    have "set (waiting t @ skipped_prefill t @ scheduled_seqs run')
        = insert r (set (waiting s @ skipped_prefill s @ scheduled_seqs run))" by (simp add: same)
    with False parts(3,5) show ?thesis by (simp add: replay_isolated_def assms(5) del: set_append)
  qed
  ultimately show ?thesis by (simp add: scan_inv_def)
qed

text \<open>What admission makes of a request: its computed prefix is at most the computed or cached one.\<close>

definition admitted_as :: "'d sequence \<Rightarrow> 'd sequence \<Rightarrow> bool" where
  "admitted_as q q' \<longleftrightarrow> num_prompt_tokens q' = num_prompt_tokens q \<and> recompute_replay_cursor q' = recompute_replay_cursor q
     \<and> num_prefilled_tokens q' \<le> max (num_prefilled_tokens q) (prefix_cache_hit_len q)"

lemma scan_inv_schedule:
  assumes pop: "popped_inv e rp r run s" and same: "same_batch run run0" and adm: "admitted_as (requests s r) q"
    and len: "0 < can" "can \<le> num_prompt_tokens (requests s r)
        - max (num_prefilled_tokens (requests s r)) (prefix_cache_hit_len (requests s r))"
      "num_batched_tokens run + can \<le> max_num_batched_tokens e"
    and t: "waiting t = waiting s" "skipped_prefill t = skipped_prefill s"
      "requests t = (requests s)(r := q\<lparr>current_chunk_size := Some can, status := RUNNING\<rparr>)"
    and run': "scheduled_seqs run' = scheduled_seqs run0 @ [r]" "num_batched_seqs run' = num_batched_seqs run0 + 1"
      "num_batched_tokens run' = num_batched_tokens run0 + can"
  shows "scan_inv e rp run' t"
proof -
  let ?q = "q\<lparr>current_chunk_size := Some can, status := RUNNING\<rparr>"
  have r: "r \<notin> set (scheduled_seqs run)" "r \<notin> set (waiting s)" "r \<notin> set (skipped_prefill s)"
    using pop by (auto simp: popped_inv_def)
  have old: "map (\<lambda>x. chunk_of (requests t x)) (scheduled_seqs run) = map (\<lambda>x. chunk_of (requests s x)) (scheduled_seqs run)"
    using r(1) t(3) by (intro map_cong) auto
  have new: "chunk_ok ?q" "chunk_of ?q = can" "is_recompute_replay ?q = is_recompute_replay (requests s r)"
    using adm len(1,2) by (auto simp: chunk_ok_def chunk_of_def admitted_as_def is_recompute_replay_def)
  note eqs = t run' same [unfolded same_batch_def]
  note b = popped_invD(1,7) [OF pop] and d = popped_invD(2) [OF pop] and i = popped_invD(3) [OF pop] and rp = popped_invD(5) [OF pop]
  have all: "\<forall>x \<in> set (scheduled_seqs run). chunk_ok (requests t x)" using b(1) r(1) t(3) by (auto simp: batch_ok_def)
  have "sum_list (map (\<lambda>x. chunk_of (requests t x)) (scheduled_seqs run')) = num_batched_tokens run'"
    using b(1) new(2) arg_cong [OF old, of sum_list] by (simp add: batch_ok_def eqs)
  then have "batch_ok e run' t"
    using b all new(1) len(3) by (auto simp: batch_ok_def eqs)
  moreover have "distinct (waiting t @ skipped_prefill t @ scheduled_seqs run')"
    using d r by (auto simp: eqs)
  moreover have "replay_isolated rp run' t"
  proof (cases rp)
    case False
    then show ?thesis using i rp r new(3) by (auto simp: replay_isolated_def eqs)
  next
    case True
    then have "scheduled_seqs run = []"
      using popped_invD(6) [OF pop] i by (cases "scheduled_seqs run") (auto simp: replay_isolated_def)
    then show ?thesis using True rp new(3) by (simp add: replay_isolated_def eqs)
  qed
  ultimately show ?thesis by (simp add: scan_inv_def)
qed

section \<open>One candidate\<close>

lemma block_candidate_batch:
  assumes "popped_inv e rp r run s"
  shows "wp (block_candidate e mode r remaining free proposed run) (\<lambda>run' t. scan_inv e rp run' t) (\<lambda>_. True) s"
proof -
  have "scan_inv e rp run' (s\<lparr>oracle_state := ost, waiting := waiting s @ [r]\<rparr>)" if "same_batch run run'" for run' ost
    by (rule scan_inv_put_back [OF assms that]) simp_all
  then show ?thesis
    unfolding block_candidate_def Let_def by (intro wp_intro) (auto simp: same_batch_def)
qed

lemma refuse_batch:
  assumes "popped_inv e rp r run s"
  shows "wp (refuse_admission e r failed run) (\<lambda>run' t. scan_inv e rp run' t) (\<lambda>_. True) s"
proof -
  have "scan_inv e rp run' (s\<lparr>oracle_state := ost, defer_warned := w, waiting := waiting s @ [r]\<rparr>)"
    if "same_batch run run'" for run' ost w by (rule scan_inv_put_back [OF assms that]) simp_all
  then show ?thesis
    unfolding refuse_admission_def by (intro wp_intro) (auto simp: same_batch_def)
qed

context admission_laws
begin

lemma accept_batch:
  assumes "num_prefilled_tokens (requests s r) = 0"
  shows "wp (accept_admission e r raw shared costs run)
    (\<lambda>run' t. same_batch run run' \<and> waiting t = waiting s \<and> skipped_prefill t = skipped_prefill s
       \<and> (\<forall>x. x \<noteq> r \<longrightarrow> requests t x = requests s x) \<and> admitted_as (requests s r) (requests t r)) (\<lambda>_. True) s"
proof -
  have hook: "wp (run_hook (on_prompt_admitted (memory_oracle e) raw) r)
      (\<lambda>_ t. \<exists>ost. t = u\<lparr>oracle_state := ost\<rparr>) (\<lambda>_. True) u" for u :: "('d, 'o) scheduler"
    by (rule wpI) (auto simp: run_hook_def split: prod.splits dest!: admission_keeps intro!: exI)
  have "admitted_as (requests s r) (if 0 < prefix_cache_hit_len (requests s r)
      then (requests s r)\<lparr>status := RUNNING, num_prefilled_tokens := prefix_cache_hit_len (requests s r)\<rparr>
      else (requests s r)\<lparr>status := RUNNING\<rparr>)"
    using assms by (simp add: admitted_as_def)
  then show ?thesis
    unfolding accept_admission_def Let_def
    by (auto intro!: wp_intro wp_conseq [OF hook] simp: same_batch_def)
qed

lemma admit_batch:
  assumes "popped_inv e rp r run s"
  shows "wp (admit_prompt e r run)
    (\<lambda>(run', ok) t. if ok then same_batch run run' \<and> waiting t = waiting s \<and> skipped_prefill t = skipped_prefill s
       \<and> (\<forall>x. x \<noteq> r \<longrightarrow> requests t x = requests s x) \<and> admitted_as (requests s r) (requests t r)
     else scan_inv e rp run' t) (\<lambda>_. True) s"
proof -
  have costs: "wp (admission_costs e r run) (\<lambda>_ t. \<exists>ost. t = s\<lparr>oracle_state := ost\<rparr>) (\<lambda>_. True) s"
    unfolding admission_costs_def by (intro wp_intro) (auto intro: exI [of _ "oracle_state s"])
  have old: "admitted_as (requests s r) (requests s r)" by (simp add: admitted_as_def)
  have new: "wp (accept_admission e r raw shared cs run)
    (\<lambda>run' t. same_batch run run' \<and> waiting t = waiting s \<and> skipped_prefill t = skipped_prefill s
       \<and> (\<forall>x. x \<noteq> r \<longrightarrow> requests t x = requests s x) \<and> admitted_as (requests s r) (requests t r)) (\<lambda>_. True) (s\<lparr>oracle_state := ost\<rparr>)"
    if "num_prefilled_tokens (requests s r) = 0" for raw shared cs ost
    using accept_batch [of "s\<lparr>oracle_state := ost\<rparr>" r raw shared cs run] that by simp
  show ?thesis
    unfolding admit_prompt_def using assms old
    by (auto intro!: wp_intro wp_conseq [OF costs] wp_conseq [OF refuse_batch] wp_conseq [OF new])
qed

lemma candidate_batch:
  assumes "popped_inv e rp r run s"
  shows "wp (prefill_candidate e mode r run) (\<lambda>(run', _) t. scan_inv e rp run' t) (\<lambda>_. True) s"
proof -
  let ?left = "num_prompt_tokens (requests s r) - max (num_prefilled_tokens (requests s r)) (prefix_cache_hit_len (requests s r))"
  have chunk: "wp (schedule_chunk e r can run') (\<lambda>run'' t. scan_inv e rp run'' t) (\<lambda>_. True) t"
    if h: "same_batch run run'" "waiting t = waiting s" "skipped_prefill t = skipped_prefill s"
      "requests t = (requests s)(r := q)" "admitted_as (requests s r) q"
      "0 < can" "can \<le> ?left" "num_batched_tokens run + can \<le> max_num_batched_tokens e" for can run' t q
    unfolding schedule_chunk_def
    by (intro wp_intro scan_inv_schedule [OF assms h(1,5,6,7,8)]) (simp_all add: h(2,3,4))
  have rest: "wp (obind (admit_prompt e r run) (\<lambda>(run, admitted).
       if admitted then obind (schedule_chunk e r can run) (\<lambda>run. ret (run, mode = ''raw_offload''))
       else ret (run, False))) (\<lambda>(run', _) t. scan_inv e rp run' t) (\<lambda>_. True) (s\<lparr>oracle_state := ost\<rparr>)"
      (is "wp (obind _ ?after) _ _ _")
    if h: "0 < can" "can \<le> ?left" "num_batched_tokens run + can \<le> max_num_batched_tokens e" for can ost
  proof -
    have step: "wp (?after (run', ok)) (\<lambda>(run', _) t. scan_inv e rp run' t) (\<lambda>_. True) t"
      if post: "if ok then same_batch run run' \<and> waiting t = waiting s \<and> skipped_prefill t = skipped_prefill s
         \<and> (\<forall>x. x \<noteq> r \<longrightarrow> requests t x = requests s x) \<and> admitted_as (requests s r) (requests t r)
       else scan_inv e rp run' t" for run' ok t
    proof (cases ok)
      case True
      have "same_batch run run'" "waiting t = waiting s" "skipped_prefill t = skipped_prefill s"
        "requests t = (requests s)(r := requests t r)" "admitted_as (requests s r) (requests t r)"
        using post True by (auto simp: fun_eq_iff)
      note ch = chunk [OF this h]
      show ?thesis using True by (auto intro!: wp_obind wp_conseq [OF ch] wp_ret)
    next
      case False
      then show ?thesis using post by (auto intro!: wp_intro)
    qed
    have "popped_inv e rp r run (s\<lparr>oracle_state := ost\<rparr>)" using assms by simp
    then show ?thesis
    proof (rule wp_obind [OF wp_conseq [OF admit_batch]], goal_cases)
      case (1 x t)
      obtain run' ok where x: "x = (run', ok)" by (cases x)
      from 1 have "if ok then same_batch run run' \<and> waiting t = waiting s \<and> skipped_prefill t = skipped_prefill s
         \<and> (\<forall>x. x \<noteq> r \<longrightarrow> requests t x = requests s x) \<and> admitted_as (requests s r) (requests t r)
       else scan_inv e rp run' t" unfolding x by (cases ok) simp_all
      from step [OF this] show ?case unfolding x .
    qed simp
  qed
  show ?thesis
    unfolding prefill_candidate_def
  proof (rule wp_obind, rule wp_candidate_capacity)
    fix remaining free ost h ost'
    assume "fst (remaining_prefill_tokens (memory_oracle e) (requests s r) h ost') = Inr remaining"
    then have left: "remaining \<le> ?left" by (rule remaining_tokens)
    have "popped_inv e rp r run (s\<lparr>oracle_state := ost''\<rparr>)" for ost'' using assms by simp
    note block = block_candidate_batch [OF this]
    show "wp (case (remaining, free) of (remaining, free) \<Rightarrow>
        obind (candidate_tokens e mode r remaining (num_batched_tokens run) free) (\<lambda>(proposed, can).
          if can \<le> 0 then obind (block_candidate e mode r remaining free proposed run) (\<lambda>run. ret (run, False))
          else obind (admit_prompt e r run) (\<lambda>(run, admitted).
            if admitted then obind (schedule_chunk e r can run) (\<lambda>run. ret (run, mode = ''raw_offload''))
            else ret (run, False)))) (\<lambda>(run', _) t. scan_inv e rp run' t) (\<lambda>_. True) (s\<lparr>oracle_state := ost\<rparr>)"
      unfolding prod.case
    proof (rule wp_obind, rule wp_candidate_tokens)
      fix proposed can ost2
      assume can: "can \<le> remaining" "can \<le> 0 \<or> num_batched_tokens run + can \<le> max_num_batched_tokens e"
      have blocked: "wp (obind (block_candidate e mode r remaining free proposed run) (\<lambda>run. ret (run, False)))
          (\<lambda>(run', _) t. scan_inv e rp run' t) (\<lambda>_. True) (s\<lparr>oracle_state := ost2\<rparr>)"
        by (rule wp_obind, rule wp_conseq [OF block]) (auto intro: wp_ret)
      show "wp (case (proposed, can) of (proposed, can) \<Rightarrow>
          if can \<le> 0 then obind (block_candidate e mode r remaining free proposed run) (\<lambda>run. ret (run, False))
          else obind (admit_prompt e r run) (\<lambda>(run, admitted).
            if admitted then obind (schedule_chunk e r can run) (\<lambda>run. ret (run, mode = ''raw_offload''))
            else ret (run, False))) (\<lambda>(run', _) t. scan_inv e rp run' t) (\<lambda>_. True) (s\<lparr>oracle_state := ost, oracle_state := ost2\<rparr>)"
        unfolding prod.case using can blocked rest [of can ost2] order_trans [OF can(1) left] by (intro wp_if) simp_all
    qed simp_all
  qed simp
qed

text \<open>Popping a candidate while the batch may grow.\<close>

lemma pop_batch:
  assumes "scan_inv e rp run s" "can_continue_prefill_batch e mode run margin s"
  shows "wp (pop_next_prefill_seq e target rp)
    (\<lambda>x t. case x of None \<Rightarrow> scan_inv e rp run t | Some r \<Rightarrow> popped_inv e rp r run t) (\<lambda>_. True) s"
proof (rule wp_conseq [OF wp_pop_next], goal_cases)
  case (1 x t)
  have inv: "distinct (waiting s @ skipped_prefill s @ scheduled_seqs run)" "batch_ok e run s" "replay_isolated rp run s"
    using assms(1) unfolding scan_inv_def by blast+
  have room: "int (length (scheduled_seqs run)) < max 1 (max_num_seqs_in_batch e)"
    "scheduled_seqs run \<noteq> [] \<Longrightarrow> \<not> is_recompute_replay (requests s (hd (scheduled_seqs run)))"
    using assms(2) inv(2) by (auto simp: can_continue_prefill_batch_def batch_ok_def split: if_splits)
  show ?case
  proof (cases x)
    case None
    then obtain ost where t: "t = s\<lparr>oracle_state := ost, skipped_prefill := skipped_prefill s @ waiting s, waiting := []\<rparr>"
      using 1 by auto
    have "batch_ok e run t" by (subst batch_ok_requests [of t s]) (simp_all add: t inv(2))
    moreover have "distinct (waiting t @ skipped_prefill t @ scheduled_seqs run)" using inv(1) by (auto simp: t)
    moreover have "replay_isolated rp run t" using inv(3) by (cases rp) (auto simp: t replay_isolated_def)
    ultimately show ?thesis by (simp add: None scan_inv_def)
  next
    case (Some r)
    then obtain ost us vs where r: "prefill_eligible e rp s r" "waiting s = us @ r # vs"
        "t = s\<lparr>oracle_state := ost, skipped_prefill := skipped_prefill s @ us, waiting := vs\<rparr>"
      using 1 by auto
    have "batch_ok e run t" by (subst batch_ok_requests [of t s]) (simp_all add: r(3) inv(2))
    moreover have "distinct (waiting t @ skipped_prefill t @ scheduled_seqs run)"
      "r \<notin> set (waiting t @ skipped_prefill t @ scheduled_seqs run)" using inv(1) by (auto simp: r(2,3))
    moreover have "replay_isolated rp run t" using inv(3) by (cases rp) (auto simp: r(2,3) replay_isolated_def)
    moreover have "rp \<longleftrightarrow> is_recompute_replay (requests t r)"
      using r(1) inv(3) by (cases rp) (auto simp: prefill_eligible_def replay_isolated_def r(2,3))
    ultimately show ?thesis using room by (simp add: Some popped_inv_def scan_inv_def r(3))
  qed
qed simp

lemma bucket_loop_batch:
  assumes "scan_inv e rp run s"
  shows "wp (bucket_loop e target rp margin n run) (\<lambda>run' t. scan_inv e rp run' t) (\<lambda>_. True) s"
  using assms
proof (induction n arbitrary: run s)
  case 0
  then show ?case by (auto intro: wp_ret)
next
  case (Suc n)
  have next1: "wp (case (run', stop) of (run, stop) \<Rightarrow> if stop then ret run else bucket_loop e target rp margin n run)
      (\<lambda>run' t. scan_inv e rp run' t) (\<lambda>_. True) t" if "scan_inv e rp run' t" for run' stop t
    using that by (auto intro!: wp_intro Suc.IH)
  have cand: "wp (obind (prefill_candidate e (fst target) r run) (\<lambda>(run, stop). if stop then ret run else bucket_loop e target rp margin n run))
      (\<lambda>run' t. scan_inv e rp run' t) (\<lambda>_. True) t" if "popped_inv e rp r run t" for r t
  proof (rule wp_obind [OF wp_conseq [OF candidate_batch [OF that]]], goal_cases)
    case (1 x u)
    obtain run' stop where x: "x = (run', stop)" by (cases x)
    from 1 show ?case unfolding x by (intro next1) simp
  qed simp
  show ?case
    unfolding bucket_loop.simps(2)
    by (intro wp_obind wp_reads wp_if wp_conseq [OF pop_batch [OF Suc.prems]])
       (auto intro!: wp_ret wp_option cand Suc.prems split: option.splits)
qed

lemma scan_bucket_batch:
  assumes "scan_inv e rp run s" "skipped_prefill s = []"
  shows "wp (scan_bucket e target rp margin run) (\<lambda>run' t. scan_inv e rp run' t \<and> skipped_prefill t = []) (\<lambda>_. True) s"
proof -
  have restored: "scan_inv e rp run' (restore_skipped t)" if inv: "scan_inv e rp run' t" for run' t
  proof -
    have "set (waiting (restore_skipped t) @ skipped_prefill (restore_skipped t) @ scheduled_seqs run')
      = set (waiting t @ skipped_prefill t @ scheduled_seqs run')" "requests (restore_skipped t) = requests t"
      by (auto simp: restore_skipped_def)
    moreover have "distinct (waiting (restore_skipped t) @ skipped_prefill (restore_skipped t) @ scheduled_seqs run')"
      using inv by (auto simp: restore_skipped_def scan_inv_def)
    ultimately show ?thesis
      using inv batch_ok_requests [of "restore_skipped t" t e run']
      by (simp add: scan_inv_def replay_isolated_def del: set_append distinct_append)
  qed
  have "s\<lparr>skipped_prefill := []\<rparr> = s" using assms(2) by simp
  then show ?thesis
    unfolding scan_bucket_def using assms(1)
    by (auto intro!: wp_ofinally wp_obind wp_oseq wp_reads wp_writes wp_conseq [OF bucket_loop_batch] restored simp: restore_skipped_def)
qed

lemma scan_buckets_batch:
  assumes "scan_inv e rp run s" "skipped_prefill s = []"
  shows "wp (scan_buckets e order rp margin run) (\<lambda>run' t. scan_inv e rp run' t) (\<lambda>_. True) s"
  using assms
proof (induction order arbitrary: run s)
  case Nil
  then show ?case by (auto intro: wp_ret)
next
  case (Cons target order)
  then show ?case by (auto intro!: wp_if wp_ret wp_obind wp_conseq [OF scan_bucket_batch] Cons.IH)
qed

section \<open>The prefill phase\<close>

text \<open>
  What a returned batch satisfies: a prefill batch is within the limits, its chunks are in their
  prompts, and a replay runs alone, after the decode queue has drained.
\<close>

definition result_ok :: "schedule_result \<Rightarrow> ('d, 'o) scheduler \<Rightarrow> bool" where
  "result_ok res t = (case res of (rs, is_prefill, _) \<Rightarrow>
     if \<not> is_prefill then 0 < max_decoding_seqs e \<longrightarrow> int (length rs) \<le> max_decoding_seqs e
     else distinct rs \<and> sum_list (map (\<lambda>r. chunk_of (requests t r)) rs) \<le> max_num_batched_tokens e
     \<and> int (length rs) \<le> max 1 (max_num_seqs_in_batch e) \<and> (\<forall>r \<in> set rs. chunk_ok (requests t r))
     \<and> ((\<exists>r \<in> set rs. is_recompute_replay (requests t r)) \<longrightarrow> length rs = 1 \<and> decoding t = []))"

lemma collect_keeps_replay:
  "wp (collect_modes e rs modes) (\<lambda>_ t. \<forall>r. recompute_replay_cursor (requests t r) = recompute_replay_cursor (requests s r))
     (\<lambda>_. True) s"
proof (induction rs arbitrary: modes s)
  case Nil
  show ?case by (auto intro!: wp_ret)
next
  case (Cons r rs)
  have refresh: "wp (run_hook (prefix_cache_hit_refresher e) r)
      (\<lambda>_ t. \<forall>r. recompute_replay_cursor (requests t r) = recompute_replay_cursor (requests s r)) (\<lambda>_. True) s"
    by (rule wpI) (auto simp: run_hook_def split: prod.splits dest: refresh_keeps)
  show ?case
    unfolding collect_modes.simps refresh_prefill_metadata_def
    by (auto intro!: wp_intro wp_conseq [OF refresh] wp_conseq [OF Cons.IH])
qed

lemma order_keeps_replay:
  "wp (bucket_order e) (\<lambda>order t. (\<forall>r. recompute_replay_cursor (requests t r) = recompute_replay_cursor (requests s r))
      \<and> (order \<noteq> [] \<longrightarrow> \<not> (any_replay s (waiting s) \<and> decoding s \<noteq> []))) (\<lambda>_. True) s"
proof -
  have all: "wp (on_heap (f rs)) (\<lambda>_ t. \<forall>r. recompute_replay_cursor (requests t r) = recompute_replay_cursor (requests s r)) (\<lambda>_. True) s"
    if "prefix_cache_hits_refresher e = Some f" for f rs
    by (rule wpI) (auto simp: on_heap_def split: prod.splits dest: refresh_all_keeps [OF that])
  have collect: "wp (collect_modes e rs []) (\<lambda>_ t. \<forall>r. recompute_replay_cursor (requests t r) = recompute_replay_cursor (requests s r))
     (\<lambda>_. True) u" if "\<forall>r. recompute_replay_cursor (requests u r) = recompute_replay_cursor (requests s r)" for u rs
    by (rule wp_conseq [OF collect_keeps_replay]) (use that in auto)
  show ?thesis
    unfolding bucket_order_def prefill_mode_order_def
    by (auto intro!: wp_obind wp_oseq wp_reads wp_if wp_ret wp_option wp_conseq [OF all] wp_conseq [OF collect])
qed

lemma initial_scan_inv:
  assumes "distinct (waiting s)" "skipped_prefill s = []" "scheduled_seqs run = []" "num_batched_seqs run = 0"
    "num_batched_tokens run = 0"
  shows "scan_inv e (any_replay s (waiting s)) run s"
  using assms by (auto simp: scan_inv_def batch_ok_def replay_isolated_def any_replay_def)

lemma scan_inv_result:
  assumes "scan_inv e rp run t" "scheduled_seqs run \<noteq> []" "rp \<Longrightarrow> decoding t = []"
  shows "result_ok (scheduled_seqs run, True, pre) t"
proof -
  have inv: "distinct (waiting t @ skipped_prefill t @ scheduled_seqs run)" "batch_ok e run t" "replay_isolated rp run t"
    using assms(1) unfolding scan_inv_def by blast+
  have "length (scheduled_seqs run) = 1 \<and> decoding t = []" if "\<exists>r \<in> set (scheduled_seqs run). is_recompute_replay (requests t r)"
    using that inv(3) assms(2,3) by (cases rp; cases "scheduled_seqs run") (auto simp: replay_isolated_def)
  with inv(1,2) assms(2) show ?thesis by (auto simp: result_ok_def batch_ok_def)
qed

lemma prefill_phase_batch:
  assumes "distinct (waiting s)" "skipped_prefill s = []"
  shows "wp (prefill_phase e overdue)
    (\<lambda>(run, _) t. scheduled_seqs run \<noteq> [] \<longrightarrow> result_ok (scheduled_seqs run, True, []) t) (\<lambda>_. True) s"
proof -
  have cap: "wp (query_capacity e) (\<lambda>(run, _, _) t. scheduled_seqs run = [] \<and> num_batched_seqs run = 0
      \<and> num_batched_tokens run = 0 \<and> same_queues s t) (\<lambda>_. True) s"
  proof (rule wp_conseq [OF wp_conj])
    show "wp (query_capacity e) (\<lambda>_. same_queues s) (same_queues s) s"
      using keeps_queues_capacity by (auto simp: keeps_queues_def)
    show "wp (query_capacity e) (\<lambda>(run, _, _) _. scheduled_seqs run = [] \<and> num_batched_seqs run = 0
        \<and> num_batched_tokens run = 0) (\<lambda>_. True) s"
      unfolding query_capacity_def reserved_prefill_tokens_def
      by (intro wp_intro) (auto simp: initial_run_def intro!: wp_intro)
  qed auto
  have sort: "wp (sort_overdue overdue) (\<lambda>_ t. distinct (waiting t) \<and> skipped_prefill t = []) (\<lambda>_. True) t"
    if "same_queues s t" for t
    unfolding sort_overdue_def using that assms by (auto intro!: wp_intro simp: same_queues_def)
  have order: "wp (bucket_order e) (\<lambda>order u. (order \<noteq> [] \<longrightarrow> any_replay u (waiting u) \<longrightarrow> decoding u = []) \<and> same_queues t u)
      (\<lambda>_. True) t" for t
  proof (rule wp_conseq [OF wp_conj])
    show "wp (bucket_order e) (\<lambda>_. same_queues t) (same_queues t) t"
      using keeps_queues_order by (auto simp: keeps_queues_def)
  qed (rule order_keeps_replay, auto simp: any_replay_def is_recompute_replay_def same_queues_def)
  have scan: "wp (scan_buckets e order (any_replay t (waiting t)) margin run)
      (\<lambda>run u. scheduled_seqs run \<noteq> [] \<longrightarrow> result_ok (scheduled_seqs run, True, []) u) (\<lambda>_. True) t"
    if h: "distinct (waiting t)" "skipped_prefill t = []" "scheduled_seqs run = []" "num_batched_seqs run = 0"
      "num_batched_tokens run = 0" "order \<noteq> [] \<longrightarrow> any_replay t (waiting t) \<longrightarrow> decoding t = []" for t order margin run
  proof (cases order)
    case Nil
    then show ?thesis using h(3) by (auto intro: wp_ret)
  next
    case (Cons k ks)
    let ?rp = "any_replay t (waiting t)"
    have "wp (scan_buckets e order ?rp margin run) (\<lambda>run u. scan_inv e ?rp run u \<and> decoding u = decoding t) (\<lambda>_. True) t"
      by (rule wp_conseq [OF wp_conj [OF scan_buckets_batch [OF initial_scan_inv [OF h(1-5)] h(2)]
             scan_buckets_holds [of "queued t" "decoding t"]]])
         (use h in \<open>auto simp: holds_def\<close>)
    then show ?thesis using h(6) Cons by (elim wp_conseq) (auto intro: scan_inv_result)
  qed
  show ?thesis
    unfolding prefill_phase_def
    by (rule wp_obind [OF wp_conseq [OF cap]])
       (auto intro!: wp_oseq wp_obind wp_reads wp_ret wp_conseq [OF sort] wp_conseq [OF order] wp_conseq [OF scan] simp: same_queues_def)
qed

section \<open>The whole step\<close>

lemma decode_result: "(0 < max_decoding_seqs e \<Longrightarrow> int (length rs) \<le> max_decoding_seqs e) \<Longrightarrow> result_ok (rs, False, pre) t"
  by (simp add: result_ok_def)

lemma not_prefill_result: "result_ok ([], False, pre) t"
  by (simp add: result_ok_def)

lemma preempt_result: "wp (preempt_decode_victim e v scheduled pre) result_ok (\<lambda>_. True) s"
  unfolding preempt_decode_victim_def restart_victim_def
  by (intro wp_intro wp_conseq [OF wp_ofor [where I = "\<lambda>_. True" and E = "\<lambda>_. True"]]) (auto intro!: wp_intro not_prefill_result)

lemma no_work_result:
  assumes "queued s = M" "skipped_prefill s = []"
    and again: "\<And>m t. retry = Some m \<Longrightarrow> queued t = M \<Longrightarrow> skipped_prefill t = [] \<Longrightarrow> wp m result_ok (\<lambda>_. True) t"
  shows "wp (no_runnable_work e retry run) result_ok (\<lambda>_. True) s"
proof -
  have report: "wp (report_no_work run) result_ok (\<lambda>_. True) t" for t
    unfolding report_no_work_def by (auto intro!: wp_intro not_prefill_result)
  have "queued (s\<lparr>requests := h, oracle_state := ost\<rparr>) = M" for h ost using assms(1) by (simp add: queued_def)
  then show ?thesis
    unfolding no_runnable_work_def using assms by (auto intro!: wp_intro report again split: option.splits)
qed

lemma decode_phase_result:
  assumes "queued s = M" "skipped_prefill s = []"
    and again: "\<And>m t. retry = Some m \<Longrightarrow> queued t = M \<Longrightarrow> skipped_prefill t = [] \<Longrightarrow> wp m result_ok (\<lambda>_. True) t"
  shows "wp (decode_phase e retry free run) result_ok (\<lambda>_. True) s"
proof -
  let ?s = "\<lambda>x. s\<lparr>phase_reason := x\<rparr>"
  have scan: "wp (decode_loop e (length (decoding s)) free [] None) (scan_ok e M (?s x)) (step_part M) (?s x)" for x
    by (rule decode_loop_ok [of _ "decoding s" "[]"]) (use assms in \<open>auto simp: queued_def\<close>)
  have after: "wp (case y of MustPreempt r \<Rightarrow> preempt_decode_victim e r [] []
     | Scanned [] (Some r) \<Rightarrow> oseq (drop_from_decoding r) (preempt_decode_victim e r [] [])
     | Scanned [] None \<Rightarrow> no_runnable_work e retry run
     | Scanned scheduled blocked \<Rightarrow> finish_decode scheduled blocked) result_ok (\<lambda>_. True) t"
    if h: "scan_ok e M (?s x) y t" for x y t
    using h again unfolding finish_decode_def
    by (auto intro!: wp_intro preempt_result no_work_result decode_result simp: scan_ok_def
        split: decode_scan.splits list.splits option.splits)
  show ?thesis
    unfolding decode_phase_def by (intro wp_intro) (auto intro!: wp_conseq [OF scan] after)
qed

lemma schedule_round_result:
  assumes "queued s = M" "skipped_prefill s = []" "M = mset zs" "distinct zs"
    and again: "\<And>m t. retry = Some m \<Longrightarrow> queued t = M \<Longrightarrow> skipped_prefill t = [] \<Longrightarrow> wp m result_ok (\<lambda>_. True) t"
  shows "wp (schedule_round e retry) result_ok (\<lambda>_. True) s"
proof -
  have full: "queued t = M" "skipped_prefill t = []" "distinct (waiting t)" if "same_queues s t" for t
  proof -
    show t: "queued t = M" "skipped_prefill t = []" using that assms by (auto simp: same_queues_def queued_def)
    then have "mset (waiting t @ decoding t) = mset zs" using assms(3) by (simp add: queued_def)
    then have "distinct (waiting t @ decoding t)" using assms(4) by (metis mset_eq_imp_distinct_iff)
    then show "distinct (waiting t)" by simp
  qed
  have evict: "wp (oseq (decoding_remove v) m) result_ok (\<lambda>_. True) t" if "\<And>u. wp m result_ok (\<lambda>_. True) u" for v t m
    using that by (auto intro!: wp_intro)
  have late: "wp (obind (prefill_phase e overdue) (\<lambda>(run, decode_free).
      if scheduled_seqs run \<noteq> [] then ret (scheduled_seqs run, True, [])
      else case failure of Some v \<Rightarrow> oseq (decoding_remove v) (preempt_decode_victim e v [] [])
           | None \<Rightarrow> decode_phase e retry decode_free run)) result_ok (\<lambda>_. True) t"
    if t: "same_queues s t" for overdue failure t
  proof (rule wp_obind [OF wp_conseq [OF wp_conj [OF prefill_phase_batch [OF full(3,2) [OF t]] prefill_phase_ok [OF full(1,2) [OF t]]]]])
    fix x :: "'r prefill_run \<times> int" and u
    assume post: "(case x of (run, _) \<Rightarrow> \<lambda>t. scheduled_seqs run \<noteq> [] \<longrightarrow> result_ok (scheduled_seqs run, True, []) t) u
      \<and> (case x of (run, _) \<Rightarrow> \<lambda>t. queued t + mset (scheduled_seqs run) = M \<and> skipped_prefill t = []) u"
    obtain run df where x: "x = (run, df)" by (cases x)
    have "wp (decode_phase e retry df run) result_ok (\<lambda>_. True) u" if "scheduled_seqs run = []"
      using post that again unfolding x by (intro decode_phase_result [of _ M]) auto
    then show "wp (case x of (run, decode_free) \<Rightarrow> if scheduled_seqs run \<noteq> [] then ret (scheduled_seqs run, True, [])
      else case failure of Some v \<Rightarrow> oseq (decoding_remove v) (preempt_decode_victim e v [] [])
           | None \<Rightarrow> decode_phase e retry decode_free run) result_ok (\<lambda>_. True) u"
      using post unfolding x by (auto intro!: wp_if wp_ret wp_option evict preempt_result)
  qed simp
  have trans: "same_queues s u" if "same_queues s t" "same_queues t u" for t u
    using that by (simp add: same_queues_def)
  show ?thesis
    unfolding schedule_round_def
    by (intro wp_obind wp_reads wp_option keeps_queues_wp [OF keeps_queues_window] evict)
       (auto intro!: wp_oseq wp_intro keeps_queues_wp [OF keeps_queues_reserved] wp_conseq [OF affinity_selection] preempt_result
         decode_result late intro: trans simp: selection_ok_def)
qed

lemma schedule_result_ok:
  assumes "distinct (waiting s @ decoding s)" "skipped_prefill s = []"
  shows "wp (schedule e) result_ok (\<lambda>_. True) s"
proof -
  let ?M = "mset (waiting s @ decoding s)"
  have impl: "wp (schedule_impl e True) result_ok (\<lambda>_. True) t" if "queued t = ?M" "skipped_prefill t = []" for t
  proof -
    have "wp (schedule_round e None) result_ok (\<lambda>_. True) u" if "queued u = ?M" "skipped_prefill u = []" for u
      using schedule_round_result [OF that refl assms(1), of None] by simp
    then show ?thesis unfolding schedule_impl_def by (auto intro!: schedule_round_result [OF that refl assms(1)])
  qed
  have moved: "result_ok res (t\<lparr>oracle_state := ost\<rparr>) = result_ok res t" for res t ost by (cases res) (simp add: result_ok_def)
  have snapped: "wp (with_capacity_snapshot e (schedule_impl e True)) result_ok (\<lambda>_. True) t"
    if "queued t = ?M" "skipped_prefill t = []" for t
  proof (cases "scheduler_capacity_snapshot (memory_oracle e)")
    case None
    then show ?thesis using impl that by (simp add: with_capacity_snapshot_def)
  next
    case (Some p)
    obtain enter leave where p: "p = (enter, leave)" by (cases p)
    have "wp (\<lambda>s. case schedule_impl e True s of (r, s1) \<Rightarrow>
        (case on_oracle leave s1 of (Inl x, s2) \<Rightarrow> (Inl x, s2) | (Inr _, s2) \<Rightarrow> (r, s2))) result_ok (\<lambda>_. True) (t\<lparr>oracle_state := ost\<rparr>)" for ost
      using impl [of "t\<lparr>oracle_state := ost\<rparr>"] that moved
      by (auto simp: wp_def on_oracle_def queued_def split: prod.splits sum.splits)
    then show ?thesis
      unfolding with_capacity_snapshot_def Some option.case p prod.case by (auto intro!: wp_oseq wp_on_oracle)
  qed
  have guarded: "wp (guarded_impl e) result_ok (\<lambda>_. True) t" if "same_queues s t" for t
  proof -
    have "queued t = ?M" "skipped_prefill t = []" using that assms(2) by (simp_all add: same_queues_def queued_def)
    from snapped [OF this] show ?thesis by (auto simp: wp_def guarded_impl_def split: prod.splits sum.splits)
  qed
  have waits: "wp (ofor ws (\<lambda>r. wait_setdefault r now)) (\<lambda>_. same_queues s) (\<lambda>_. True) u" if "same_queues s u" for ws now u
    by (rule wp_ofor [where I = "same_queues s"]) (use that in \<open>auto intro!: wp_intro simp: same_queues_def\<close>)
  have recorded: "wp (record_phase now rs p) (\<lambda>_. result_ok res) (\<lambda>_. True) t" if "result_ok res t" for now rs p res t
    unfolding record_phase_def using that by (intro wp_writes) (auto simp: result_ok_def Let_def)
  show ?thesis
    unfolding schedule_def
    by (intro wp_obind wp_oseq wp_monotonic wp_reads wp_conseq [OF waits] wp_writes)
       (auto intro!: wp_conseq [OF guarded] wp_intro wp_conseq [OF recorded] simp: same_queues_def)
qed

end

section \<open>Prefill batches\<close>

lemma prefill_result:
  assumes "admission_laws e" "distinct (waiting s @ decoding s)" "skipped_prefill s = []"
    "schedule e s = (Inr (rs, True, pre), t)"
  shows "distinct rs" "sum_list (map (\<lambda>r. chunk_of (requests t r)) rs) \<le> max_num_batched_tokens e"
    "int (length rs) \<le> max 1 (max_num_seqs_in_batch e)" "\<forall>r \<in> set rs. chunk_ok (requests t r)"
    "\<exists>r \<in> set rs. is_recompute_replay (requests t r) \<Longrightarrow> length rs = 1 \<and> decoding t = []"
proof -
  have "admission_laws.result_ok e (rs, True, pre) t"
    using wp_returns [OF admission_laws.schedule_result_ok [OF assms(1-3)] assms(4)] .
  then show "distinct rs" "sum_list (map (\<lambda>r. chunk_of (requests t r)) rs) \<le> max_num_batched_tokens e"
    "int (length rs) \<le> max 1 (max_num_seqs_in_batch e)" "\<forall>r \<in> set rs. chunk_ok (requests t r)"
    "\<exists>r \<in> set rs. is_recompute_replay (requests t r) \<Longrightarrow> length rs = 1 \<and> decoding t = []"
    by (simp_all add: admission_laws.result_ok_def [OF assms(1)])
qed

text \<open>
  C25. Batch limits: a prefill batch has at most \<open>max_num_seqs_in_batch\<close> requests (one, when the limit
  is below one), all different, and its chunks together are at most \<open>max_num_batched_tokens\<close> tokens,
  whatever capacity the memory oracle reports.
\<close>

theorem prefill_batch_within_limits:
  assumes "admission_laws e" "distinct (waiting s @ decoding s)" "skipped_prefill s = []"
    "schedule e s = (Inr (rs, True, preempted), t)"
  shows "distinct rs \<and> int (length rs) \<le> max 1 (max_num_seqs_in_batch e)
    \<and> sum_list (map (\<lambda>r. chunk_of (requests t r)) rs) \<le> max_num_batched_tokens e"
  using prefill_result [OF assms] by blast

text \<open>
  Decode limits: a decode batch has at most \<open>max_decoding_seqs\<close> requests, whether decode affinity
  has selected it or the decode scan.
\<close>

theorem decode_batch_within_limits:
  assumes "admission_laws e" "distinct (waiting s @ decoding s)" "skipped_prefill s = []"
    "schedule e s = (Inr (rs, False, preempted), t)" "0 < max_decoding_seqs e"
  shows "int (length rs) \<le> max_decoding_seqs e"
proof -
  have "admission_laws.result_ok e (rs, False, preempted) t"
    using wp_returns [OF admission_laws.schedule_result_ok [OF assms(1-3)] assms(4)] .
  then show ?thesis using assms(5) by (simp add: admission_laws.result_ok_def [OF assms(1)])
qed

text \<open>
  C26. Every request of a prefill batch runs a chunk that is not empty and lies in the part of its
  prompt that is not computed yet; so the request is well scheduled in the sense that the wire format
  to the workers relies on.
\<close>

theorem prefill_chunks_fit_prompts:
  assumes "admission_laws e" "distinct (waiting s @ decoding s)" "skipped_prefill s = []"
    "schedule e s = (Inr (rs, True, preempted), t)" "r \<in> set rs"
  shows "status (requests t r) = RUNNING
    \<and> (\<exists>c. current_chunk_size (requests t r) = Some c \<and> 0 < c
         \<and> num_prefilled_tokens (requests t r) + c \<le> num_prompt_tokens (requests t r))
    \<and> scheduled_ok (requests t r)"
proof -
  have ok: "chunk_ok (requests t r)" using prefill_result(4) [OF assms(1-4)] assms(5) by blast
  then have "scheduled_ok (requests t r)"
    by (auto simp: chunk_ok_def scheduled_ok_def active_chunk_def is_recompute_decode_def)
  with ok show ?thesis by (auto simp: chunk_ok_def)
qed

text \<open>
  C27. Replay isolation: when a prefill batch contains a request that is recomputed after a
  preemption, the request is alone in the batch and no request is decoding; the slots it needs
  cannot be taken by another prompt of the same step.
\<close>

theorem replay_runs_alone:
  assumes "admission_laws e" "distinct (waiting s @ decoding s)" "skipped_prefill s = []"
    "schedule e s = (Inr (rs, True, preempted), t)" "r \<in> set rs" "is_recompute_replay (requests t r)"
  shows "rs = [r] \<and> decoding t = []"
proof -
  have "length rs = 1 \<and> decoding t = []" using prefill_result(5) [OF assms(1-4)] assms(5,6) by blast
  with assms(5) show ?thesis by (cases rs) auto
qed

lemma sample_laws: "admission_laws sample_env"
  by (unfold_locales)
     (auto simp: sample_env_fields sample_oracle_def run_ret split: if_splits)

theorem prefill_batch_within_limits_witness:
  "\<exists>t. schedule sample_env (sample_scheduler [(1, [3, 4, 5, 6, 7]), (2, [8, 9])]) = (Inr ([1, 2], True, []), t)
     \<and> int (length [1 :: nat, 2]) \<le> max 1 4 \<and> sum_list (map (\<lambda>r. chunk_of (requests t r)) [1, 2]) \<le> 8"
proof -
  let ?s = "sample_scheduler [(1, [3, 4, 5, 6, 7]), (2, [8, 9])]"
  obtain t where t: "schedule sample_env ?s = (Inr ([1, 2], True, []), t)" using sample_prefill by (metis prod.collapse)
  have "distinct (waiting ?s @ decoding ?s)" "skipped_prefill ?s = []"
    by (simp_all add: sched_run cong: obind_lazy oseq_lazy)
  from prefill_batch_within_limits [OF sample_laws this t] t show ?thesis by (auto simp: sample_env_fields)
qed

text \<open>One request decodes.\<close>

definition decode_scheduler :: "(nat, int) scheduler" where
  "decode_scheduler = (init_scheduler (\<lambda>_. sample_sequence\<lparr>seq_id := 3, num_prefilled_tokens := 3\<rparr>) 20 (\<lambda>_. 0))\<lparr>decoding := [3]\<rparr>"

lemma sample_decode: "fst (schedule sample_env decode_scheduler) = Inr ([3], False, [])"
  by (simp add: decode_scheduler_def sample_sequence_def append_token_def has_sampling_penalty_def
      sched_run cong: obind_lazy oseq_lazy)

theorem decode_batch_within_limits_witness:
  "\<exists>t. schedule sample_env decode_scheduler = (Inr ([3], False, []), t) \<and> int (length [3 :: nat]) \<le> max_decoding_seqs sample_env"
proof -
  obtain t where t: "schedule sample_env decode_scheduler = (Inr ([3], False, []), t)" using sample_decode by (metis prod.collapse)
  have "distinct (waiting decode_scheduler @ decoding decode_scheduler)" "skipped_prefill decode_scheduler = []"
    by (simp_all add: decode_scheduler_def init_scheduler_def)
  from decode_batch_within_limits [OF sample_laws this t] t show ?thesis by (simp add: sample_env_fields)
qed

theorem prefill_chunks_fit_prompts_witness:
  "\<exists>t. schedule sample_env (sample_scheduler [(1, [3, 4, 5, 6, 7]), (2, [8, 9])]) = (Inr ([1, 2], True, []), t)
     \<and> scheduled_ok (requests t 1)"
proof -
  let ?s = "sample_scheduler [(1, [3, 4, 5, 6, 7]), (2, [8, 9])]"
  obtain t where t: "schedule sample_env ?s = (Inr ([1, 2], True, []), t)" using sample_prefill by (metis prod.collapse)
  have "distinct (waiting ?s @ decoding ?s)" "skipped_prefill ?s = []"
    by (simp_all add: sched_run cong: obind_lazy oseq_lazy)
  from prefill_chunks_fit_prompts [OF sample_laws this t, of 1] t show ?thesis by auto
qed

text \<open>Two prompts wait, the second of them a replay.\<close>

definition replay_scheduler :: "(nat, int) scheduler" where
  "replay_scheduler = (let s = sample_scheduler [(1, [3, 4, 5, 6, 7]), (2, [8, 9])] in
     s\<lparr>requests := (requests s)(2 := sample_replay\<lparr>seq_id := 2, num_prefilled_tokens := 0\<rparr>)\<rparr>)"

theorem replay_runs_alone_witness:
  "\<exists>t. schedule sample_env replay_scheduler = (Inr ([2], True, []), t) \<and> is_recompute_replay (requests t 2) \<and> decoding t = []"
proof -
  have run: "fst (schedule sample_env replay_scheduler) = Inr ([2], True, [])"
    "is_recompute_replay (requests (snd (schedule sample_env replay_scheduler)) 2)"
    by (simp_all add: replay_scheduler_def sample_replay_def sample_sequence_def start_recompute_replay_def append_token_def
        has_sampling_penalty_def seq_clear_prefix_hit_def sched_run cong: obind_lazy oseq_lazy)
  then obtain t where t: "schedule sample_env replay_scheduler = (Inr ([2], True, []), t)" by (metis prod.collapse)
  have "distinct (waiting replay_scheduler @ decoding replay_scheduler)" "skipped_prefill replay_scheduler = []"
    by (simp_all add: replay_scheduler_def sched_run cong: obind_lazy oseq_lazy)
  from replay_runs_alone [OF sample_laws this t, of 2] t run(2) show ?thesis by auto
qed

end
