(* ===== verification/Scheduler_Requests.thy ===== *)
theory Scheduler_Requests
  imports Scheduler_Batches
begin

text \<open>
  What happens to single requests: cancellation, the bookkeeping after the model has run, and
  preemption.
\<close>

section \<open>Cancellation\<close>

lemma queue_simps:
  "get_queue w (set_queue w rs s) = rs" "requests (set_queue w rs s) = requests s"
  "get_queue w (s\<lparr>requests := f\<rparr>) = get_queue w s" "get_queue w (s\<lparr>defer_warned := d\<rparr>) = get_queue w s"
  "get_queue w (s\<lparr>oracle_state := ost\<rparr>) = get_queue w s" "defer_warned (set_queue w rs s) = defer_warned s"
  "prefill_wait_since (set_queue w rs s) = prefill_wait_since s"
  by (cases w; simp add: get_queue_def set_queue_def)+

definition other_queue :: "queue_name \<Rightarrow> queue_name" where
  "other_queue w = (case w of Waiting \<Rightarrow> Decoding | Decoding \<Rightarrow> Waiting)"

lemma other_queue_simps: "get_queue (other_queue w) (set_queue w rs s) = get_queue (other_queue w) s"
  by (cases w) (simp_all add: get_queue_def set_queue_def other_queue_def)

text \<open>One queue: the requested ids leave it and are marked finished, the others keep their order.\<close>

lemma abort_loop_run:
  assumes resets: "\<And>r heap ost. \<exists>ost'. reset_prefill_execution_state (memory_oracle e) r heap ost = (Inr (), ost')"
    and "get_queue w s = us" "distinct us"
  shows "\<exists>removed' t. abort_loop e w req (length us) retained removed s = (Inr removed', t)
    \<and> get_queue w t = retained @ filter (\<lambda>r. r \<notin> req) us \<and> get_queue (other_queue w) t = get_queue (other_queue w) s
    \<and> requests t = (\<lambda>r. if r \<in> set us \<inter> req then (requests s r)\<lparr>status := FINISHED\<rparr> else requests s r)
    \<and> prefill_wait_since t = prefill_wait_since s
    \<and> map_of removed' = (\<lambda>r. if r \<in> set us \<inter> req then Some (map_of removed r = Some True \<or> may_own_slots w (requests s r))
                              else map_of removed r)"
  using assms(2,3)
proof (induction us arbitrary: s retained removed)
  case Nil
  then show ?case by (auto simp: run_oseq run_writes run_ret queue_simps other_queue_simps)
next
  case (Cons r us)
  let ?s1 = "set_queue w us s"
  show ?case
  proof (cases "r \<in> req")
    case False
    have run: "abort_loop e w req (length (r # us)) retained removed s = abort_loop e w req (length us) (retained @ [r]) removed ?s1"
      using Cons.prems False by (simp add: run_obind run_oseq run_reads run_writes)
    show ?thesis
      unfolding run using Cons.IH [of ?s1 "retained @ [r]" removed] Cons.prems False
      by (simp add: queue_simps other_queue_simps insert_absorb cong: conj_cong if_cong)
  next
    case True
    obtain ost where ost: "reset_prefill_execution_state (memory_oracle e) r
        ((requests s)(r := (requests s r)\<lparr>status := FINISHED\<rparr>)) (oracle_state ?s1) = (Inr (), ost)"
      using resets by blast
    let ?s2 = "?s1\<lparr>requests := (requests s)(r := (requests s r)\<lparr>status := FINISHED\<rparr>), defer_warned := defer_warned s - {r},
      oracle_state := ost\<rparr>"
    let ?rem = "AList.update r (map_of removed r = Some True \<or> may_own_slots w (requests s r)) removed"
    have run: "abort_loop e w req (length (r # us)) retained removed s = abort_loop e w req (length us) retained ?rem ?s2"
      using Cons.prems True ost
      by (simp add: run_obind run_oseq run_reads run_writes update_request_def on_oracle_def queue_simps)
    have o: "get_queue (other_queue w) ?s2 = get_queue (other_queue w) s" "get_queue w ?s2 = us"
      by (simp_all add: queue_simps other_queue_simps)
    show ?thesis
      unfolding run using Cons.IH [of ?s2 retained ?rem] Cons.prems True o
      by (auto simp: queue_simps map_of_update fun_eq_iff)
  qed
qed

text \<open>
  C30. Cancellation: cancelling a set of requests removes exactly the requested ones from the two
  queues and keeps the order of the others, marks exactly the removed requests as finished, drops
  their waiting times, and reports for each removed request (and no other) whether it may own cache
  slots: when it is running, has computed tokens, or was decoding.
\<close>

theorem abort_removes_exactly_requested:
  assumes "\<And>r heap ost. \<exists>ost'. reset_prefill_execution_state (memory_oracle e) r heap ost = (Inr (), ost')"
    and "distinct (waiting s @ decoding s)"
  shows "\<exists>removed t. abort_many e ids s = (Inr removed, t)
    \<and> waiting t = filter (\<lambda>r. r \<notin> set ids) (waiting s) \<and> decoding t = filter (\<lambda>r. r \<notin> set ids) (decoding s)
    \<and> (\<forall>r. requests t r = (if r \<in> set ids \<and> r \<in> set (waiting s @ decoding s)
             then (requests s r)\<lparr>status := FINISHED\<rparr> else requests s r))
    \<and> (\<forall>r. map_of removed r = (if r \<in> set ids \<and> r \<in> set (waiting s @ decoding s)
             then Some (request_may_own_slots r s) else None))
    \<and> (\<forall>r \<in> set ids. map_of (prefill_wait_since t) r = None)"
proof (cases "ids = []")
  case True
  then show ?thesis by (simp add: abort_many_def run_ret)
next
  case False
  let ?ids = "set ids"
  let ?s0 = "s\<lparr>prefill_wait_since := filter (\<lambda>kv. fst kv \<notin> ?ids) (prefill_wait_since s)\<rparr>"
  obtain d1 s1 where w: "abort_loop e Waiting ?ids (length (waiting s)) [] [] ?s0 = (Inr d1, s1)"
    "waiting s1 = filter (\<lambda>r. r \<notin> ?ids) (waiting s)" "decoding s1 = decoding s"
    "\<And>r. requests s1 r = (if r \<in> set (waiting s) \<inter> ?ids then (requests s r)\<lparr>status := FINISHED\<rparr> else requests s r)"
    "prefill_wait_since s1 = prefill_wait_since ?s0"
    "\<And>r. map_of d1 r = (if r \<in> set (waiting s) \<inter> ?ids then Some (may_own_slots Waiting (requests s r)) else None)"
    using abort_loop_run [OF assms(1), of Waiting ?s0 "waiting s" ?ids "[]" "[]"] assms(2)
    by (simp add: get_queue_def other_queue_def fun_eq_iff cong: if_cong) blast
  obtain d2 s2 where d: "abort_loop e Decoding ?ids (length (decoding s)) [] d1 s1 = (Inr d2, s2)"
    "decoding s2 = filter (\<lambda>r. r \<notin> ?ids) (decoding s)" "waiting s2 = waiting s1"
    "\<And>r. requests s2 r = (if r \<in> set (decoding s) \<inter> ?ids then (requests s1 r)\<lparr>status := FINISHED\<rparr> else requests s1 r)"
    "prefill_wait_since s2 = prefill_wait_since s1"
    "\<And>r. map_of d2 r = (if r \<in> set (decoding s) \<inter> ?ids
        then Some (map_of d1 r = Some True \<or> may_own_slots Decoding (requests s1 r)) else map_of d1 r)"
    using abort_loop_run [OF assms(1), of Decoding s1 "decoding s" ?ids "[]" d1] assms(2) w(3)
    by (simp add: get_queue_def other_queue_def fun_eq_iff cong: if_cong) blast
  have "abort_queue e Waiting ?ids [] ?s0 = (Inr d1, s1)" "abort_queue e Decoding ?ids d1 s1 = (Inr d2, s2)"
    using w(1,3) d(1) by (simp_all add: abort_queue_def run_obind run_reads get_queue_def)
  then have "abort_many e ids s = (Inr d2, s2)"
    using False by (simp add: abort_many_def run_oseq run_obind run_writes)
  moreover have "map_of (filter (\<lambda>kv. fst kv \<notin> ?ids) xs) r = None" if "r \<in> ?ids" for r and xs :: "(nat, rat) dict"
    using that by (induction xs) auto
  ultimately show ?thesis
    using w(2-6) d(2-6) assms(2)
    by (intro exI [of _ d2] exI [of _ s2]) (auto simp: request_may_own_slots_def may_own_slots_def)
qed

lemma sample_resets: "\<exists>ost'. reset_prefill_execution_state (memory_oracle sample_env) r heap ost = (Inr (), ost')"
  by (simp add: sample_env_fields sample_oracle_def run_ret)

theorem abort_removes_exactly_requested_witness:
  "\<exists>removed t. abort_many sample_env [2, 5] (sample_scheduler [(1, [3]), (2, [8]), (4, [9])]) = (Inr removed, t)
     \<and> waiting t = [1, 4] \<and> decoding t = [] \<and> map_of removed 2 = Some False \<and> map_of removed 5 = None"
proof -
  let ?s = "sample_scheduler [(1, [3]), (2, [8]), (4, [9])]"
  have qs: "waiting ?s = [1, 2, 4]" "decoding ?s = []" "status (requests ?s 2) = WAITING" "num_prefilled_tokens (requests ?s 2) = 0"
    by (simp_all add: sched_run cong: obind_lazy oseq_lazy)
  obtain removed t where run: "abort_many sample_env [2, 5] ?s = (Inr removed, t)"
    "waiting t = filter (\<lambda>r. r \<notin> set [2, 5]) (waiting ?s)" "decoding t = filter (\<lambda>r. r \<notin> set [2, 5]) (decoding ?s)"
    "\<forall>r. map_of removed r = (if r \<in> set [2, 5] \<and> r \<in> set (waiting ?s @ decoding ?s) then Some (request_may_own_slots r ?s) else None)"
    using abort_removes_exactly_requested [OF sample_resets, of ?s "[2, 5]"] qs by auto
  have "map_of removed 2 = Some False" "map_of removed 5 = None"
    using run(4) qs by (auto simp: request_may_own_slots_def may_own_slots_def)
  then show ?thesis using run(1-3) qs by (intro exI [of _ removed] exI [of _ t]) simp
qed

section \<open>After a decode step\<close>

text \<open>
  What a decode step makes of a request: a replay moves its cursor, any other request gets the
  token and ends at an end-of-sequence token or at its budget.
\<close>

definition decoded :: "('d, 'o, 'k, 'r) sched_env \<Rightarrow> int \<Rightarrow> 'd sequence \<Rightarrow> 'd sequence" where
  "decoded e t q = (if is_recompute_decode q then (case advance_recompute_replay q of Inr q' \<Rightarrow> q' | Inl _ \<Rightarrow> q)
     else let q' = append_token t None None q in if stops_at e t q' then q'\<lparr>status := FINISHED\<rparr> else q')"

definition ends_at :: "('d, 'o, 'k, 'r) sched_env \<Rightarrow> int \<Rightarrow> 'd sequence \<Rightarrow> bool" where
  "ends_at e t q \<longleftrightarrow> \<not> is_recompute_decode q \<and> stops_at e t (append_token t None None q)"

lemma advance_never_raises: "is_recompute_decode q \<Longrightarrow> \<exists>q'. advance_recompute_replay q = Inr q'"
  by (auto simp: advance_recompute_replay_def finish_recompute_replay_def is_recompute_replay_def Let_def)

lemma postprocess_decode_run:
  "postprocess_decode e False (r, (t, None, None)) s
   = (Inr (), s\<lparr>requests := (requests s)(r := decoded e t (requests s r)),
       decoding := (if ends_at e t (requests s r) then remove1 r (decoding s) else decoding s)\<rparr>)"
proof (cases "is_recompute_decode (requests s r)")
  case True
  then obtain q' where "advance_recompute_replay (requests s r) = Inr q'" using advance_never_raises by blast
  then show ?thesis
    using True by (simp add: postprocess_decode_def run_obind run_reads on_request_def decoded_def ends_at_def)
next
  case False
  then show ?thesis
    by (simp add: postprocess_decode_def run_obind run_oseq run_reads run_writes run_ret accept_token_def update_request_def
        drop_from_decoding_def decoded_def ends_at_def Let_def)
qed

lemma decode_all_run:
  assumes "length ts = length rs" "distinct rs" "distinct (decoding s)"
  shows "\<exists>t. ofor (zip rs (map (\<lambda>x. (x, None, None)) ts)) (postprocess_decode e False) s = (Inr (), t)
    \<and> (\<forall>i < length rs. requests t (rs ! i) = decoded e (ts ! i) (requests s (rs ! i)))
    \<and> (\<forall>r. r \<notin> set rs \<longrightarrow> requests t r = requests s r) \<and> waiting t = waiting s
    \<and> decoding t = filter (\<lambda>r. \<not> (\<exists>i < length rs. rs ! i = r \<and> ends_at e (ts ! i) (requests s r))) (decoding s)"
  using assms
proof (induction rs arbitrary: ts s)
  case Nil
  then show ?case by (simp add: run_ret)
next
  case (Cons r rs)
  then obtain x ts' where ts: "ts = x # ts'" "length ts' = length rs" by (cases ts) auto
  let ?s = "s\<lparr>requests := (requests s)(r := decoded e x (requests s r)),
       decoding := (if ends_at e x (requests s r) then remove1 r (decoding s) else decoding s)\<rparr>"
  have ds: "distinct (decoding ?s)" using Cons.prems(3) by (simp add: distinct_remove1)
  obtain t where t: "ofor (zip rs (map (\<lambda>x. (x, None, None)) ts')) (postprocess_decode e False) ?s = (Inr (), t)"
    "\<forall>i < length rs. requests t (rs ! i) = decoded e (ts' ! i) (requests ?s (rs ! i))"
    "\<forall>r. r \<notin> set rs \<longrightarrow> requests t r = requests ?s r" "waiting t = waiting ?s"
    "decoding t = filter (\<lambda>r. \<not> (\<exists>i < length rs. rs ! i = r \<and> ends_at e (ts' ! i) (requests ?s r))) (decoding ?s)"
    using Cons.IH [OF ts(2), of ?s] ds Cons.prems(2) by (simp only: distinct.simps) blast
  have r: "r \<notin> set rs" using Cons.prems(2) by simp
  then have other: "requests ?s (rs ! i) = requests s (rs ! i)" if "i < length rs" for i
    using that nth_mem by fastforce
  have run: "ofor (zip (r # rs) (map (\<lambda>x. (x, None, None)) ts)) (postprocess_decode e False) s = (Inr (), t)"
    using t(1) by (simp add: ts(1) run_oseq postprocess_decode_run)
  have reqs: "\<forall>i < length (r # rs). requests t ((r # rs) ! i) = decoded e (ts ! i) (requests s ((r # rs) ! i))"
    using t(2,3) r other by (auto simp: ts(1) nth_Cons split: nat.splits)
  have "(\<exists>i < length (r # rs). (r # rs) ! i = y \<and> ends_at e (ts ! i) (requests s y))
      \<longleftrightarrow> (y = r \<and> ends_at e x (requests s r)) \<or> (\<exists>i < length rs. rs ! i = y \<and> ends_at e (ts' ! i) (requests s y))" for y
    by (auto simp: ts(1) less_Suc_eq_0_disj)
  moreover have "(\<exists>i < length rs. rs ! i = y \<and> ends_at e (ts' ! i) (requests ?s y))
      \<longleftrightarrow> (\<exists>i < length rs. rs ! i = y \<and> ends_at e (ts' ! i) (requests s y))" for y
    using other by metis
  ultimately have "decoding t = filter (\<lambda>y. \<not> (\<exists>i < length (r # rs). (r # rs) ! i = y \<and> ends_at e (ts ! i) (requests s y))) (decoding s)"
    unfolding t(5) using Cons.prems(3) by (auto simp: distinct_remove1_removeAll removeAll_filter_not_eq conj_commute intro: filter_cong)
  with run reqs t(3,4) show ?case by (intro exI [of _ t]) auto
qed

text \<open>When a token ends a request, in terms of the request before the step.\<close>

definition token_ends :: "('d, 'o, 'k, 'r) sched_env \<Rightarrow> int \<Rightarrow> 'd sequence \<Rightarrow> bool" where
  "token_ends e t q \<longleftrightarrow> \<not> is_recompute_decode q
     \<and> (\<not> ignore_eos q \<and> t \<in> request_eos e q \<or> num_completion_tokens q + 1 = max_tokens q)"

lemma append_token_fields:
  "ignore_eos (append_token t lp tops q) = ignore_eos q" "eos_token_ids (append_token t lp tops q) = eos_token_ids q"
  "max_tokens (append_token t lp tops q) = max_tokens q" "status (append_token t lp tops q) = status q"
  "num_completion_tokens (append_token t lp tops q) = num_completion_tokens q + 1"
  "num_prompt_tokens (append_token t lp tops q) = num_prompt_tokens q"
  by (simp_all add: append_token_def track_sampling_penalty_token_def num_completion_tokens_def Let_def)

lemma ends_at_iff: "ends_at e t q = token_ends e t q"
  by (simp add: ends_at_def token_ends_def stops_at_def request_eos_def append_token_fields)

lemma completion_of_status: "completion_token_ids (q\<lparr>status := x\<rparr>) = completion_token_ids q" by (simp add: completion_token_ids_def)

lemma seq_ok_status: "seq_ok (q\<lparr>status := x\<rparr>) = seq_ok q" by (simp add: seq_ok_def num_completion_tokens_def)

lemma advance_effect:
  assumes "advance_recompute_replay q = Inr q'"
  shows "seq_token_ids q' = seq_token_ids q" "status q' = status q" "num_prompt_tokens q' = num_prompt_tokens q"
    "is_recompute_replay q' \<longleftrightarrow> replay_cursor q + 1 < replay_decode_token_count q"
  using assms by (auto simp: advance_recompute_replay_def finish_recompute_replay_def sequence_defs Let_def split: if_splits)

lemma decoded_effect:
  assumes "seq_ok q"
  shows "seq_ok (decoded e t q)"
    "completion_token_ids (decoded e t q) = (if is_recompute_decode q then completion_token_ids q else completion_token_ids q @ [t])"
    "status (decoded e t q) = (if token_ends e t q then FINISHED else status q)"
    "is_recompute_decode q \<Longrightarrow> is_recompute_replay (decoded e t q) \<longleftrightarrow> replay_cursor q + 1 < replay_decode_token_count q"
proof -
  show "seq_ok (decoded e t q)"
    using assms advance_replay_ok [OF assms] append_token_ok(1) [OF assms]
    by (auto simp: decoded_def seq_ok_status Let_def split: sum.splits)
  show "completion_token_ids (decoded e t q) = (if is_recompute_decode q then completion_token_ids q else completion_token_ids q @ [t])"
    using advance_effect(1,3) [of q] append_token_ok(2) [OF assms, of t None None]
    by (auto simp: decoded_def completion_of_status completion_token_ids_def Let_def split: sum.splits)
  show "status (decoded e t q) = (if token_ends e t q then FINISHED else status q)"
    using advance_effect(2) [of q] ends_at_iff [of e t q]
    by (auto simp: decoded_def ends_at_def append_token_fields Let_def split: sum.splits)
  show "is_recompute_decode q \<Longrightarrow> is_recompute_replay (decoded e t q) \<longleftrightarrow> replay_cursor q + 1 < replay_decode_token_count q"
    using advance_never_raises [of q] advance_effect(4) [of q] by (auto simp: decoded_def)
qed


lemma decode_scheduler_run:
  "decoding decode_scheduler = [3]" "requests decode_scheduler 3 = sample_sequence\<lparr>seq_id := 3, num_prefilled_tokens := 3\<rparr>"
  by (simp_all add: decode_scheduler_def init_scheduler_def)


section \<open>Preemption\<close>

lemma update_all_run:
  assumes "\<And>q. f (f q) = f q"
  shows "ofor ds (\<lambda>r. update_request r f) s
    = (Inr (), s\<lparr>requests := (\<lambda>r. if r \<in> set ds then f (requests s r) else requests s r)\<rparr>)"
proof (induction ds arbitrary: s)
  case Nil
  then show ?case by (simp add: run_ret)
next
  case (Cons d ds)
  have "(\<lambda>r. if r \<in> set ds then f (((requests s)(d := f (requests s d))) r) else ((requests s)(d := f (requests s d))) r)
    = (\<lambda>r. if r \<in> set (d # ds) then f (requests s r) else requests s r)"
    by (auto simp: fun_eq_iff assms)
  then show ?case using Cons.IH by (simp add: run_oseq update_request_def run_writes cong: if_cong)
qed

definition checkpointed :: "'d sequence \<Rightarrow> 'd sequence" where
  "checkpointed q = q\<lparr>decode_progress_checkpoint := num_completion_tokens q\<rparr>"

lemma checkpoint_twice: "checkpointed (checkpointed q) = checkpointed q"
  by (simp add: checkpointed_def num_completion_tokens_def)

text \<open>The request a preemption leaves behind.\<close>

definition restarted :: "'d sequence \<Rightarrow> 'd sequence" where
  "restarted q = (let q = q\<lparr>status := WAITING\<rparr> in
     if 0 < num_completion_tokens q then (case start_recompute_replay q of Inr q' \<Rightarrow> q' | Inl _ \<Rightarrow> q)
     else seq_clear_prefix_hit (q\<lparr>num_prefilled_tokens := 0\<rparr>))"

lemma restarted_effect:
  assumes "seq_ok q"
  shows "seq_ok (restarted q)" "status (restarted q) = WAITING" "num_prefilled_tokens (restarted q) = 0"
    "seq_token_ids (restarted q) = seq_token_ids q" "prefix_cache_hit_len (restarted q) = 0"
    "recompute_replay_cursor (restarted q) = (if 0 < num_completion_tokens q then Some 0 else None)"
  using assms by (auto simp: restarted_def start_recompute_replay_def seq_clear_prefix_hit_def seq_ok_def num_completion_tokens_def
      Let_def split: option.splits)

text \<open>The hooks of the oracle that a preemption calls, as the cache managers implement them by default.\<close>

definition preempt_hooks :: "('d, 'o, 'k, 'r) memory_oracle \<Rightarrow> bool" where
  "preempt_hooks mo \<longleftrightarrow> (\<forall>q ost. \<exists>ost'. clear_prefix_cache_hit mo (q, ost) = (Inr (), seq_clear_prefix_hit q, ost'))
     \<and> (\<forall>r heap ost. \<exists>ost'. reset_prefill_execution_state mo r heap ost = (Inr (), ost'))
     \<and> (\<forall>heap ost. \<exists>x ost'. free_slot_stats mo heap ost = (Inr x, ost'))"

lemma clear_twice: "seq_clear_prefix_hit (seq_clear_prefix_hit q) = seq_clear_prefix_hit q"
  by (simp add: seq_clear_prefix_hit_def)

lemma restart_victim_run:
  assumes "preempt_hooks (memory_oracle e)" "v \<notin> set (decoding s)"
  shows "\<exists>t. restart_victim e v s = (Inr (), t) \<and> waiting t = waiting s \<and> decoding t = decoding s
    \<and> total_preemptions t = total_preemptions s \<and> requests t v = restarted (requests s v)
    \<and> (\<forall>r \<in> set (decoding s). requests t r = checkpointed (requests s r))
    \<and> (\<forall>r. r \<notin> insert v (set (decoding s)) \<longrightarrow> requests t r = requests s r)"
proof -
  let ?q = "(requests s v)\<lparr>status := WAITING\<rparr>"
  let ?q1 = "if 0 < num_completion_tokens ?q then (case start_recompute_replay ?q of Inr q' \<Rightarrow> q' | Inl _ \<Rightarrow> ?q)
     else ?q\<lparr>num_prefilled_tokens := 0\<rparr>"
  have clear: "seq_clear_prefix_hit ?q1 = restarted (requests s v)"
    by (auto simp: restarted_def start_recompute_replay_def Let_def clear_twice)
  obtain o1 where o1: "clear_prefix_cache_hit (memory_oracle e) (?q1, oracle_state s) = (Inr (), restarted (requests s v), o1)"
    using assms(1) unfolding preempt_hooks_def clear [symmetric] by blast
  have "\<forall>heap. \<exists>o2. reset_prefill_execution_state (memory_oracle e) v heap o1 = (Inr (), o2)"
    using assms(1) unfolding preempt_hooks_def by blast
  then obtain o2 where o2: "\<And>heap. reset_prefill_execution_state (memory_oracle e) v heap o1 = (Inr (), o2 heap)" by metis
  note all = update_all_run [of checkpointed, OF checkpoint_twice, unfolded checkpointed_def]
  show ?thesis
  proof (cases "0 < num_completion_tokens (requests s v)")
    case True
    then have "num_completion_tokens ?q > 0" by (simp add: num_completion_tokens_def)
    then show ?thesis using o1 o2 assms(2)
      by (auto simp: restart_victim_def run_obind run_oseq run_reads run_writes update_request_def [of v] on_request_def run_hook_def
          on_oracle_def start_recompute_replay_def monotonic_def wait_setdefault_def all checkpointed_def)
  next
    case False
    then have "\<not> num_completion_tokens ?q > 0" by (simp add: num_completion_tokens_def)
    then show ?thesis using o1 o2 assms(2)
      by (auto simp: restart_victim_def run_obind run_oseq run_reads run_writes update_request_def [of v] run_hook_def
          on_oracle_def monotonic_def wait_setdefault_def all checkpointed_def)
  qed
qed

text \<open>
  C28. Preemption of a decode victim.  While submitted work still uses its cache slots, or when it is the
  sole decode request and a handoff would not make progress, the preemption raises, the victim is back
  at the front of the decoding queue and no request changes.  Otherwise it returns: the victim keeps its
  tokens and goes to the end of the waiting queue to be computed again from its first prompt token, as a
  replay exactly when it has accepted tokens, no cached prefix is assumed any more, and every survivor
  records its progress.
\<close>

theorem preemption_outcome:
  assumes "preempt_hooks (memory_oracle e)" "v \<notin> set (decoding s)" "seq_ok (requests s v)"
  shows "if async_inflight s \<noteq> 0 \<or> sole_decode v s
    then \<exists>x. preempt_decode_victim e v scheduled preempted s = (Inl x, s\<lparr>decoding := scheduled @ v # decoding s\<rparr>)
      \<and> ((\<exists>m. x = AsyncDrainRequired m) \<longleftrightarrow> async_inflight s \<noteq> 0)
    else \<exists>t. preempt_decode_victim e v scheduled preempted s = (Inr ([], False, preempted @ [v]), t)
      \<and> waiting t = waiting s @ [v] \<and> decoding t = scheduled @ decoding s
      \<and> total_preemptions t = total_preemptions s + 1
      \<and> (let q = requests s v; q' = requests t v in seq_ok q' \<and> status q' = WAITING \<and> seq_token_ids q' = seq_token_ids q
           \<and> num_prefilled_tokens q' = 0 \<and> prefix_cache_hit_len q' = 0
           \<and> recompute_replay_cursor q' = (if 0 < num_completion_tokens q then Some 0 else None))
      \<and> (\<forall>r \<in> set (decoding s). requests t r = checkpointed (requests s r))
      \<and> (\<forall>r. r \<notin> insert v (set (decoding s)) \<longrightarrow> requests t r = requests s r)"
proof (cases "async_inflight s \<noteq> 0 \<or> sole_decode v s")
  case True
  then show ?thesis
    by (auto simp: preempt_decode_victim_def run_obind run_oseq run_reads run_writes run_raise)
next
  case False
  obtain t where t: "restart_victim e v s = (Inr (), t)" "waiting t = waiting s" "decoding t = decoding s"
    "total_preemptions t = total_preemptions s" "requests t v = restarted (requests s v)"
    "\<forall>r \<in> set (decoding s). requests t r = checkpointed (requests s r)"
    "\<forall>r. r \<notin> insert v (set (decoding s)) \<longrightarrow> requests t r = requests s r"
    using restart_victim_run [OF assms(1,2)] by blast
  obtain x ost where "free_slot_stats (memory_oracle e) (requests t) (oracle_state t) = (Inr x, ost)"
    using assms(1) unfolding preempt_hooks_def by blast
  then have "preempt_decode_victim e v scheduled preempted s = (Inr ([], False, preempted @ [v]),
      t\<lparr>waiting := waiting t @ [v], decoding := scheduled @ decoding t, total_preemptions := total_preemptions t + 1, oracle_state := ost\<rparr>)"
    using False t(1) by (simp add: preempt_decode_victim_def run_obind run_oseq run_reads run_writes run_ret on_oracle_def)
  then show ?thesis
    using False t(2-7) restarted_effect [OF assms(3)] by (simp add: Let_def)
qed

lemma sample_hooks: "preempt_hooks (memory_oracle sample_env)"
  by (simp add: preempt_hooks_def sample_env_fields sample_oracle_def run_ret)

text \<open>Requests 3 and 4 decode, and 3 has been taken out of the queue.\<close>

theorem preemption_outcome_witness:
  "\<exists>t. preempt_decode_victim sample_env 3 [] [] (decode_scheduler\<lparr>decoding := [4]\<rparr>) = (Inr ([], False, [3]), t)
     \<and> waiting t = [3] \<and> decoding t = [4] \<and> recompute_replay_cursor (requests t 3) = Some 0
     \<and> decode_progress_checkpoint (requests t 4) = 3"
proof -
  let ?s = "decode_scheduler\<lparr>decoding := [4]\<rparr>" and ?q = "sample_sequence\<lparr>seq_id := 3, num_prefilled_tokens := 3\<rparr>"
  have q: "seq_ok ?q" "num_completion_tokens ?q = 3" by code_simp+
  have s: "async_inflight ?s = 0" "\<not> sole_decode 3 ?s" "requests ?s = (\<lambda>_. ?q)" "decoding ?s = [4]" "waiting ?s = []"
    by (simp_all add: decode_scheduler_def init_scheduler_def sole_decode_def)
  have "seq_ok (requests ?s 3)" "3 \<notin> set (decoding ?s)" using q s by simp_all
  from preemption_outcome [OF sample_hooks this(2,1), of "[]" "[]"] show ?thesis
    using q s by (auto simp: Let_def checkpointed_def)
qed

end
