(* ===== verification/Cache_Manager.thy ===== *)
theory Cache_Manager
  imports Scheduler Page_Pool
begin

text \<open>
  The scheduler hooks of the cache managers (\<^verbatim>\<open>engine/cache_manager/base.py\<close>): the methods that the
  runtime state calls, as a record of functions on the manager's state, and the default
  implementations of the base class.  A subclass overrides entries of the record; the abstract
  property \<open>num_free_slots\<close> is a parameter of the defaults.
\<close>

section \<open>The interface\<close>

type_synonym ('d, 'm, 'a) manager_query = "'d sequence \<Rightarrow> ('m, 'a) op"

record ('d, 'm, 'k, 'c) cache_manager =
  cm_num_free_slots :: "('m, int) op"
  cm_prefill_batched_tokens_margin :: "('m, int) op"
  cm_remaining_prefill_tokens :: "('d, 'm, int) manager_query"
  cm_prefill_execution_mode :: "('d, 'm, string) manager_query"
  cm_reset_prefill_execution_state :: "nat \<Rightarrow> ('m, unit) op"
  cm_complete_prefill_execution :: "('d, 'm) hook"
  cm_prefill_batch_compatibility_key :: "('d, 'm, 'k compatibility) manager_query"
  cm_reserved_prefill_slots :: "'d sequence list \<Rightarrow> int \<Rightarrow> ('m, int) op"
  cm_prefill_step_free_slots :: "('m, int) op"
  cm_should_schedule_full_prefill :: "('d, 'm, bool) manager_query"
  cm_prefill_step_free_slots_for :: "('d, 'm, int) manager_query"
  cm_prefill_private_slots_for :: "('d, 'm, int) manager_query"
  cm_min_final_prefill_chunk_size :: "('d, 'm, int) manager_query"
  cm_prefill_step_reservation_cost :: "int \<Rightarrow> ('d, 'm, int) manager_query"
  cm_decode_window_budgets :: "('m, resources) op"
  cm_decode_window_costs :: "'m \<Rightarrow> 'd cost_hook"
  cm_capacity_after_reservations :: "int \<Rightarrow> resources \<Rightarrow> bool \<Rightarrow> ('m, int) op"
  cm_decode_step_free_slots :: "('m, int) op"
  cm_decode_step_free_slots_for :: "('d, 'm, int) manager_query"
  cm_decode_step_reservation_cost :: "('d, 'm, int) manager_query"
  cm_prompt_admission_free_slots :: "('m, int) op"
  cm_prompt_admission_cost :: "('d, 'm, int) manager_query"
  cm_prompt_logical_reservation_cost :: "('d, 'm, int) manager_query"
  cm_prompt_admission_failure_action :: "('m, string) op"
  cm_prompt_admission_budgets :: "'d sequence list \<Rightarrow> int \<Rightarrow> ('m, resources) op"
  cm_prompt_admission_costs :: "('d, 'm, resources) manager_query"
  cm_prompt_admission_shared_costs :: "('d, 'm, (string, ('c, int) dict) dict) manager_query"
  cm_on_prompt_admitted :: "resources \<Rightarrow> ('d, 'm) hook"
  cm_refresh_prefix_cache_hit :: "('d, 'm) hook"
  cm_clear_prefix_cache_hit :: "('d, 'm) hook"
  cm_scheduler_capacity_snapshot :: "(('m, unit) op \<times> ('m, unit) op) option"
  cm_free_slot_stats :: "('m, resources) op"
  cm_free_seq :: "nat \<Rightarrow> ('m, unit) op"
  cm_kv_transformer_layer_indices :: "nat list"

section \<open>The defaults\<close>

text \<open>
  The state of the base class that the hooks change is \<open>_raw_offload_prefill_phases\<close>, created on its first use.
\<close>

record 'p base_state =
  raw_offload_prefill_phases :: "(nat, bool) dict option"
  physical :: 'p

definition base_remaining_prefill_tokens :: "'d sequence \<Rightarrow> int" where
  "base_remaining_prefill_tokens q = num_prompt_tokens q - max (num_prefilled_tokens q) (prefix_cache_hit_len q)"

text \<open>\<open>_apply_sticky_raw_offload_mode\<close>: the helper by which a subclass answers \<open>prefill_execution_mode\<close>.\<close>

definition apply_sticky_raw_offload_mode :: "string \<Rightarrow> 'd sequence \<Rightarrow> ('p base_state, string) op" where
  "apply_sticky_raw_offload_mode mode q s =
     (let phases = (case raw_offload_prefill_phases s of None \<Rightarrow> [] | Some d \<Rightarrow> d);
          r = seq_id q; replay_phase = is_recompute_replay q;
          phases = (case map_of phases r of
              Some previous \<Rightarrow> if previous \<noteq> replay_phase then AList.delete r phases else phases | None \<Rightarrow> phases)
      in if map_of phases r \<noteq> None then (Inr ''raw_offload'', s\<lparr>raw_offload_prefill_phases := Some phases\<rparr>)
         else if mode = ''raw_offload''
         then (Inr mode, s\<lparr>raw_offload_prefill_phases := Some (AList.update r replay_phase phases)\<rparr>)
         else (Inr mode, s\<lparr>raw_offload_prefill_phases := Some phases\<rparr>))"

definition base_reset_prefill_execution_state :: "nat \<Rightarrow> ('p base_state, unit) op" where
  "base_reset_prefill_execution_state r =
     writes (\<lambda>s. s\<lparr>raw_offload_prefill_phases := map_option (AList.delete r) (raw_offload_prefill_phases s)\<rparr>)"

definition base_complete_prefill_execution :: "('d, 'p base_state) hook" where
  "base_complete_prefill_execution = (\<lambda>(q, s). case base_reset_prefill_execution_state (seq_id q) s of (x, s') \<Rightarrow> (x, q, s'))"

definition base_reserved_prefill_slots :: "'d sequence list \<Rightarrow> int" where
  "base_reserved_prefill_slots qs = sum_list (map (\<lambda>q. num_prompt_tokens q - num_prefilled_tokens q)
     (filter (\<lambda>q. 0 < num_prefilled_tokens q \<and> num_prefilled_tokens q < num_prompt_tokens q) qs))"

text \<open>\<open>max(reserved.values(), default=0)\<close>\<close>

definition largest :: "int list \<Rightarrow> int" where
  "largest xs = (case xs of [] \<Rightarrow> 0 | x # rest \<Rightarrow> fold max rest x)"

definition base_capacity_after_reservations :: "int \<Rightarrow> resources \<Rightarrow> int" where
  "base_capacity_after_reservations free reserved = free - largest (map snd reserved)"

definition base_prompt_admission_cost :: "'d sequence \<Rightarrow> int" where
  "base_prompt_admission_cost q = num_prompt_tokens q - prefix_cache_hit_len q"

definition base_prompt_admission_budgets :: "int \<Rightarrow> 'd sequence list \<Rightarrow> resources" where
  "base_prompt_admission_budgets free qs = [(''slots'', max 0 (free - base_reserved_prefill_slots qs))]"

text \<open>The record of the defaults; \<open>free\<close> is \<open>num_free_slots\<close> and \<open>free_seq\<close> the abstract method.\<close>

definition base_manager :: "('p \<Rightarrow> int) \<Rightarrow> (nat \<Rightarrow> ('p base_state, unit) op) \<Rightarrow> nat list \<Rightarrow> ('d, 'p base_state, unit, 'c) cache_manager" where
  "base_manager free free_seq layers = \<lparr>
     cm_num_free_slots = reads (\<lambda>s. free (physical s)),
     cm_prefill_batched_tokens_margin = ret 0,
     cm_remaining_prefill_tokens = (\<lambda>q. ret (base_remaining_prefill_tokens q)),
     cm_prefill_execution_mode = (\<lambda>_. ret ''chunked''),
     cm_reset_prefill_execution_state = base_reset_prefill_execution_state,
     cm_complete_prefill_execution = base_complete_prefill_execution,
     cm_prefill_batch_compatibility_key = (\<lambda>_. ret (Hashable ())),
     cm_reserved_prefill_slots = (\<lambda>qs _. ret (base_reserved_prefill_slots qs)),
     cm_prefill_step_free_slots = reads (\<lambda>s. free (physical s)),
     cm_should_schedule_full_prefill = (\<lambda>_. ret False),
     cm_prefill_step_free_slots_for = (\<lambda>_. reads (\<lambda>s. free (physical s))),
     cm_prefill_private_slots_for = (\<lambda>_. ret 0),
     cm_min_final_prefill_chunk_size = (\<lambda>_. ret 0),
     cm_prefill_step_reservation_cost = (\<lambda>n _. ret n),
     cm_decode_window_budgets = reads (\<lambda>s. [(''slots'', free (physical s))]),
     cm_decode_window_costs = (\<lambda>_. base_window_costs),
     cm_capacity_after_reservations = (\<lambda>n reserved _. ret (base_capacity_after_reservations n reserved)),
     cm_decode_step_free_slots = reads (\<lambda>s. free (physical s)),
     cm_decode_step_free_slots_for = (\<lambda>_. reads (\<lambda>s. free (physical s))),
     cm_decode_step_reservation_cost = (\<lambda>_. ret 1),
     cm_prompt_admission_free_slots = reads (\<lambda>s. free (physical s)),
     cm_prompt_admission_cost = (\<lambda>q. ret (base_prompt_admission_cost q)),
     cm_prompt_logical_reservation_cost = (\<lambda>q. ret (base_prompt_admission_cost q)),
     cm_prompt_admission_failure_action = ret ''defer'',
     cm_prompt_admission_budgets = (\<lambda>qs _. reads (\<lambda>s. base_prompt_admission_budgets (free (physical s)) qs)),
     cm_prompt_admission_costs = (\<lambda>q. ret [(''slots'', base_prompt_admission_cost q)]),
     cm_prompt_admission_shared_costs = (\<lambda>_. ret []),
     cm_on_prompt_admitted = (\<lambda>_. ret ()),
     cm_refresh_prefix_cache_hit = (\<lambda>(q, s). (Inr (), seq_clear_prefix_hit q, s)),
     cm_clear_prefix_cache_hit = (\<lambda>(q, s). (Inr (), seq_clear_prefix_hit q, s)),
     cm_scheduler_capacity_snapshot = None,
     cm_free_slot_stats = reads (\<lambda>s. [(''free_slots'', free (physical s))]),
     cm_free_seq = free_seq,
     cm_kv_transformer_layer_indices = layers\<rparr>"

end
