(* ===== verification/Runtime_State.thy ===== *)
theory Runtime_State
  imports Scheduler_Requests Cache_Manager
begin

text \<open>
  The runtime state (\<^verbatim>\<open>engine/runtime_state.py\<close>): the object behind the scheduler's memory oracle.  It
  combines the hooks of the cache manager, the decode reservations, the resident set and, when
  they are configured, the prefix cache coordinator, the chain cache coordinator and the
  recurrent state manager.  The coordinators are parameters (records of functions that may raise);
  they act on the same physical state as the cache manager.
\<close>

section \<open>State and parts\<close>

record 'm runtime =
  manager :: 'm
  decode_reservations :: reservations
  resident_seq_ids :: "nat set"

record ('d, 'm, 'x) prefix_coordinator =
  pc_block_size :: int
  pc_step_reclaimable_slots :: "('m, int) op"
  pc_admission_reclaimable_slots :: "('m, int) op"
  pc_prefix_hit_evictable_slots :: "('d, 'm, int) manager_query"
  pc_prefix_hit_shared_costs :: "('d, 'm, ('x, int) dict) manager_query"
  pc_refresh_prefix_cache_hit :: "('d, 'm) hook"
  pc_evict_for_slots :: "int \<Rightarrow> ('m, unit) op"
  pc_release_seq :: "nat \<Rightarrow> ('m, unit) op"
  pc_stats :: "('m, resources) op"

record 'm chain_coordinator =
  cc_outstanding_active_reservations :: "nat set \<Rightarrow> ('m, int list \<times> int) op"
  cc_stats :: "('m, resources) op"

record ('d, 'm, 'k, 'c, 'x) runtime_env =
  max_num_seqs_in_gpu :: int
  rt_prefill_chunk_size :: int
  cache_manager :: "('d, 'm, 'k, 'c) cache_manager"
  prefix_cache_coordinator :: "('d, 'm, 'x) prefix_coordinator option"
  chain_cache_coordinator :: "'m chain_coordinator option"
  recurrent_free_seq :: "(nat \<Rightarrow> ('m, unit) op) option"

definition init_runtime :: "'m \<Rightarrow> int \<Rightarrow> 'm runtime result" where
  "init_runtime m w = rbind (init_reservations w) (\<lambda>R. Inr \<lparr>manager = m, decode_reservations = R, resident_seq_ids = {}\<rparr>)"

section \<open>Calls of the parts\<close>

definition on_manager :: "('m, 'a) op \<Rightarrow> ('m runtime, 'a) op" where
  "on_manager f s = (case f (manager s) of (x, m) \<Rightarrow> (x, s\<lparr>manager := m\<rparr>))"

definition manager_hook :: "('d, 'm) hook \<Rightarrow> ('d, 'm runtime) hook" where
  "manager_hook f = (\<lambda>(q, s). case f (q, manager s) of (x, q', m) \<Rightarrow> (x, q', s\<lparr>manager := m\<rparr>))"

definition on_reservations :: "(reservations, 'a) op \<Rightarrow> ('m runtime, 'a) op" where
  "on_reservations f s = (case f (decode_reservations s) of (x, R) \<Rightarrow> (x, s\<lparr>decode_reservations := R\<rparr>))"

definition rt_outstanding :: "('d, 'm, 'k, 'c, 'x) runtime_env \<Rightarrow> (nat \<Rightarrow> 'd sequence) \<Rightarrow> ('m runtime, resources) op" where
  "rt_outstanding e heap = lift_result (\<lambda>s. outstanding (cm_decode_window_costs (cache_manager e) (manager s)) heap None (decode_reservations s))"

text \<open>\<open>try: m finally: n\<close> where \<open>n\<close> may raise; its exception replaces the outcome of \<open>m\<close>.\<close>

definition try_finally :: "('s, 'a) op \<Rightarrow> ('s, unit) op \<Rightarrow> ('s, 'a) op" where
  "try_finally m n s = (case m s of (x, s1) \<Rightarrow> (case n s1 of (Inl err, s2) \<Rightarrow> (Inl err, s2) | (Inr _, s2) \<Rightarrow> (x, s2)))"

section \<open>Mixed prefix capacity\<close>

definition mixed_prefix_step_reclaimable_slots :: "('d, 'm, 'k, 'c, 'x) runtime_env \<Rightarrow> ('m runtime, int) op" where
  "mixed_prefix_step_reclaimable_slots e = (case prefix_cache_coordinator e of None \<Rightarrow> ret 0
     | Some pc \<Rightarrow> on_manager (pc_step_reclaimable_slots pc))"

definition mixed_prefix_admission_reclaimable_slots :: "('d, 'm, 'k, 'c, 'x) runtime_env \<Rightarrow> ('m runtime, int) op" where
  "mixed_prefix_admission_reclaimable_slots e = (case prefix_cache_coordinator e of None \<Rightarrow> ret 0
     | Some pc \<Rightarrow> on_manager (pc_admission_reclaimable_slots pc))"

definition mixed_prefix_boundary_limit :: "('d, 'm, 'k, 'c, 'x) runtime_env \<Rightarrow> 'd sequence \<Rightarrow> int" where
  "mixed_prefix_boundary_limit e q =
     (case prefix_cache_coordinator e of
        None \<Rightarrow> num_prompt_tokens q - num_prefilled_tokens q
      | Some pc \<Rightarrow>
          if pc_block_size pc \<le> 0 then num_prompt_tokens q - num_prefilled_tokens q
          else let start = max (num_prefilled_tokens q) (prefix_cache_hit_len q);
                   remaining = num_prompt_tokens q - start;
                   to_boundary = pc_block_size pc - start mod pc_block_size pc;
                   to_boundary = (if to_boundary = 0 then pc_block_size pc else to_boundary)
               in if remaining \<le> 0 then 0 else min remaining to_boundary)"

definition step_required_slots :: "'d sequence list \<Rightarrow> bool \<Rightarrow> int" where
  "step_required_slots qs is_prefill =
     (if is_prefill then sum_list (map (\<lambda>q. case current_chunk_size q of None \<Rightarrow> 0 | Some c \<Rightarrow> c) qs) else int (length qs))"

definition evict_mixed_prefix_for_step :: "('d, 'm, 'k, 'c, 'x) runtime_env \<Rightarrow> 'd sequence list \<Rightarrow> bool \<Rightarrow> ('m runtime, unit) op" where
  "evict_mixed_prefix_for_step e qs is_prefill =
     (case prefix_cache_coordinator e of None \<Rightarrow> ret ()
      | Some pc \<Rightarrow>
          let needed = step_required_slots qs is_prefill in
          if needed \<le> 0 then ret ()
          else obind (on_manager (cm_num_free_slots (cache_manager e))) (\<lambda>free.
            if free < needed then on_manager (pc_evict_for_slots pc (needed - free)) else ret ()))"

section \<open>Releasing a request\<close>

definition free_seq_payload :: "('d, 'm, 'k, 'c, 'x) runtime_env \<Rightarrow> nat \<Rightarrow> ('m runtime, unit) op" where
  "free_seq_payload e r =
     oseq (on_reservations (writes (release_window r)))
     (try_finally (on_manager (cm_free_seq (cache_manager e) r))
       (try_finally (case prefix_cache_coordinator e of None \<Rightarrow> ret () | Some pc \<Rightarrow> on_manager (pc_release_seq pc r))
         (try_finally (case recurrent_free_seq e of None \<Rightarrow> ret () | Some f \<Rightarrow> on_manager (f r))
           (writes (\<lambda>s. s\<lparr>resident_seq_ids := resident_seq_ids s - {r}\<rparr>)))))"

definition rt_free_seq :: "('d, 'm, 'k, 'c, 'x) runtime_env \<Rightarrow> nat \<Rightarrow> ('m runtime, unit) op" where
  "rt_free_seq e r = free_seq_payload e r"

section \<open>Capacities\<close>

text \<open>\<open>max(0, \<dots>)\<close> of the free slots after reservations, plus what the prefix cache can give back.\<close>

definition capacity_after_reservations :: "('d, 'm, 'k, 'c, 'x) runtime_env \<Rightarrow> bool \<Rightarrow> int \<Rightarrow> resources \<Rightarrow> ('m runtime, int) op" where
  "capacity_after_reservations e admission free reserved =
     (if reserved \<noteq> [] then on_manager (cm_capacity_after_reservations (cache_manager e) free reserved admission) else ret free)"

definition rt_prefill_step_free_slots :: "('d, 'm, 'k, 'c, 'x) runtime_env \<Rightarrow> ('d, 'm runtime, int) oracle_op" where
  "rt_prefill_step_free_slots e heap =
     obind (on_manager (cm_prefill_step_free_slots (cache_manager e))) (\<lambda>free.
     obind (rt_outstanding e heap) (\<lambda>reserved.
     obind (capacity_after_reservations e False free reserved) (\<lambda>free.
     obind (mixed_prefix_step_reclaimable_slots e) (\<lambda>extra.
     ret (max 0 (free + extra))))))"

definition rt_prompt_admission_free_slots :: "('d, 'm, 'k, 'c, 'x) runtime_env \<Rightarrow> ('d, 'm runtime, int) oracle_op" where
  "rt_prompt_admission_free_slots e heap =
     obind (on_manager (cm_prompt_admission_free_slots (cache_manager e))) (\<lambda>free.
     obind (rt_outstanding e heap) (\<lambda>reserved.
     obind (capacity_after_reservations e True free reserved) (\<lambda>free.
     obind (mixed_prefix_admission_reclaimable_slots e) (\<lambda>extra.
     ret (max 0 (free + extra))))))"

definition rt_prefill_step_free_slots_for :: "('d, 'm, 'k, 'c, 'x) runtime_env \<Rightarrow> ('d, 'm runtime, int) query" where
  "rt_prefill_step_free_slots_for e q heap =
     obind (on_manager (cm_prefill_step_free_slots_for (cache_manager e) q)) (\<lambda>free.
     obind (mixed_prefix_step_reclaimable_slots e) (\<lambda>extra.
     ret (if prefix_cache_coordinator e = None then free + extra
          else min (free + extra) (mixed_prefix_boundary_limit e q))))"

definition rt_decode_step_free_slots :: "('d, 'm, 'k, 'c, 'x) runtime_env \<Rightarrow> ('d, 'm runtime, int) oracle_op" where
  "rt_decode_step_free_slots e heap =
     obind (on_manager (cm_decode_step_free_slots (cache_manager e))) (\<lambda>free.
     obind (mixed_prefix_step_reclaimable_slots e) (\<lambda>extra. ret (free + extra)))"

definition rt_decode_step_free_slots_for :: "('d, 'm, 'k, 'c, 'x) runtime_env \<Rightarrow> ('d, 'm runtime, int) query" where
  "rt_decode_step_free_slots_for e q heap =
     obind (on_manager (cm_decode_step_free_slots_for (cache_manager e) q)) (\<lambda>free.
     obind (mixed_prefix_step_reclaimable_slots e) (\<lambda>extra. ret (free + extra)))"

definition rt_prefill_execution_mode :: "('d, 'm, 'k, 'c, 'x) runtime_env \<Rightarrow> ('d, 'm runtime, string) query" where
  "rt_prefill_execution_mode e q heap =
     (if multimodal_full_prefill q then ret ''full'' else on_manager (cm_prefill_execution_mode (cache_manager e) q))"

section \<open>Admission\<close>

text \<open>The budget of each resource after the decode reservations, in the order of the dictionary.\<close>

definition reserved_budget :: "('d, 'm, 'k, 'c, 'x) runtime_env \<Rightarrow> resources \<Rightarrow> string \<times> int \<Rightarrow> ('m runtime, string \<times> int) op" where
  "reserved_budget e reserved = (\<lambda>(name, free).
     if name = ''slots'' \<and> reserved \<noteq> []
     then obind (on_manager (cm_capacity_after_reservations (cache_manager e) free reserved True)) (\<lambda>n. ret (name, max 0 n))
     else ret (name, max 0 (free - amount reserved name)))"

definition add_evictable :: "int \<Rightarrow> resources \<Rightarrow> ('s, resources) op" where
  "add_evictable extra budgets =
     (if extra \<le> 0 then ret budgets
      else if map_of budgets ''slots'' \<noteq> None then ret (AList.update ''slots'' (amount budgets ''slots'' + extra) budgets)
      else case budgets of [(key, n)] \<Rightarrow> ret [(key, n + extra)]
        | _ \<Rightarrow> raise_error (RuntimeError ''Mixed prefix admission accounting cannot add evictable slots''))"

definition rt_prompt_admission_budgets :: "('d, 'm, 'k, 'c, 'x) runtime_env \<Rightarrow> 'd sequence list \<Rightarrow> int \<Rightarrow> ('d, 'm runtime, resources) oracle_op" where
  "rt_prompt_admission_budgets e qs step heap =
     obind (on_manager (cm_prompt_admission_budgets (cache_manager e) qs step)) (\<lambda>budgets.
     obind (mixed_prefix_admission_reclaimable_slots e) (\<lambda>extra.
     obind (add_evictable extra budgets) (\<lambda>budgets.
     obind (rt_outstanding e heap) (\<lambda>reserved.
     obind (omap (reserved_budget e reserved) budgets) (\<lambda>budgets.
     obind (reads resident_seq_ids) (\<lambda>resident.
     ret (AList.update ''resident_seqs'' (max 0 (max_num_seqs_in_gpu e - int (card resident))) budgets)))))))"

definition hit_evictable_slots :: "('d, 'm, 'k, 'c, 'x) runtime_env \<Rightarrow> 'd sequence \<Rightarrow> ('m runtime, int) op" where
  "hit_evictable_slots e q = (case prefix_cache_coordinator e of None \<Rightarrow> ret 0
     | Some pc \<Rightarrow> on_manager (pc_prefix_hit_evictable_slots pc q))"

definition rt_prompt_admission_cost :: "('d, 'm, 'k, 'c, 'x) runtime_env \<Rightarrow> ('d, 'm runtime, int) query" where
  "rt_prompt_admission_cost e q heap =
     obind (on_manager (cm_prompt_admission_cost (cache_manager e) q)) (\<lambda>cost.
     obind (hit_evictable_slots e q) (\<lambda>extra. ret (cost + extra)))"

definition rt_prompt_logical_reservation_cost :: "('d, 'm, 'k, 'c, 'x) runtime_env \<Rightarrow> ('d, 'm runtime, int) query" where
  "rt_prompt_logical_reservation_cost e q heap =
     obind (on_manager (cm_prompt_logical_reservation_cost (cache_manager e) q)) (\<lambda>cost.
     obind (hit_evictable_slots e q) (\<lambda>extra. ret (cost + extra)))"

text \<open>The first key that is not \<open>resident_seqs\<close> gets the slots of the hit.\<close>

definition add_hit_slots :: "int \<Rightarrow> resources \<Rightarrow> ('s, resources) op" where
  "add_hit_slots extra costs =
     (if extra \<le> 0 then ret costs
      else if map_of costs ''slots'' \<noteq> None then ret (AList.update ''slots'' (amount costs ''slots'' + extra) costs)
      else case filter (\<lambda>kv. fst kv \<noteq> ''resident_seqs'') costs of
        [(key, n)] \<Rightarrow> if length costs = 2 then ret (AList.update key (n + extra) costs)
                      else raise_error (RuntimeError ''Mixed prefix admission accounting cannot add hit-evictable slots'')
      | _ \<Rightarrow> raise_error (RuntimeError ''Mixed prefix admission accounting cannot add hit-evictable slots''))"

definition rt_prompt_admission_costs :: "('d, 'm, 'k, 'c, 'x) runtime_env \<Rightarrow> ('d, 'm runtime, resources) query" where
  "rt_prompt_admission_costs e q heap =
     obind (on_manager (cm_prompt_admission_costs (cache_manager e) q)) (\<lambda>costs.
     obind (reads resident_seq_ids) (\<lambda>resident.
     let costs = AList.update ''resident_seqs'' (if seq_id q \<in> resident then 0 else 1) costs in
     obind (hit_evictable_slots e q) (\<lambda>extra. add_hit_slots extra costs)))"

definition rt_on_prompt_admitted :: "('d, 'm, 'k, 'c, 'x) runtime_env \<Rightarrow> resources \<Rightarrow> ('d, 'm runtime) hook" where
  "rt_on_prompt_admitted e costs = (\<lambda>(q, s).
     case manager_hook (cm_on_prompt_admitted (cache_manager e) costs) (q, s) of
       (Inl err, q', s') \<Rightarrow> (Inl err, q', s')
     | (Inr _, q', s') \<Rightarrow> (Inr (), q', if 0 < amount costs ''resident_seqs''
          then s'\<lparr>resident_seq_ids := insert (seq_id q') (resident_seq_ids s')\<rparr> else s'))"

text \<open>Shared costs are keyed by \<open>("cache", id)\<close> (left) or \<open>("mixed", id)\<close> (right).\<close>

definition update_all :: "('a, 'b) dict \<Rightarrow> ('a, 'b) dict \<Rightarrow> ('a, 'b) dict" where
  "update_all new d = fold (\<lambda>(k, v) d. AList.update k v d) new d"

definition mixed_budget :: "('d, 'm, 'k, 'c, 'x) runtime_env \<Rightarrow> 'd sequence \<Rightarrow> ('d, 'm runtime, string) oracle_op" where
  "mixed_budget e q heap =
     obind (rt_prompt_admission_costs e q heap) (\<lambda>costs.
     if map_of costs ''slots'' \<noteq> None then ret ''slots''
     else obind (rt_prompt_admission_costs e q heap) (\<lambda>costs.
       case filter (\<lambda>name. name \<noteq> ''resident_seqs'') (map fst costs) of
         [name] \<Rightarrow> ret name
       | _ \<Rightarrow> raise_error (RuntimeError ''Mixed prefix admission sharing requires one physical cache budget.'')))"

definition rt_prompt_admission_shared_costs :: "('d, 'm, 'k, 'c, 'x) runtime_env
    \<Rightarrow> ('d, 'm runtime, (string, ('c + 'x, int) dict) dict) query" where
  "rt_prompt_admission_shared_costs e q heap =
     obind (on_manager (cm_prompt_admission_shared_costs (cache_manager e) q)) (\<lambda>cache_shared.
     let shared = map (\<lambda>(name, rs). (name, map (\<lambda>(i, cost). (Inl i, cost)) rs)) cache_shared in
     case prefix_cache_coordinator e of None \<Rightarrow> ret shared
     | Some pc \<Rightarrow>
         obind (on_manager (pc_prefix_hit_shared_costs pc q)) (\<lambda>rs.
         if rs = [] then ret shared
         else obind (mixed_budget e q heap) (\<lambda>budget.
           let old = (case map_of shared budget of None \<Rightarrow> [] | Some d \<Rightarrow> d)
           in ret (AList.update budget (update_all (map (\<lambda>(i, cost). (Inr i, cost)) rs) old) shared))))"

definition rt_refresh_prefix_cache_hit :: "('d, 'm, 'k, 'c, 'x) runtime_env \<Rightarrow> ('d, 'm runtime) hook" where
  "rt_refresh_prefix_cache_hit e = (\<lambda>(q, s).
     if multimodal_digest q \<noteq> None then manager_hook (cm_clear_prefix_cache_hit (cache_manager e)) (q, s)
     else case prefix_cache_coordinator e of
       Some pc \<Rightarrow> manager_hook (pc_refresh_prefix_cache_hit pc) (q, s)
     | None \<Rightarrow> manager_hook (cm_refresh_prefix_cache_hit (cache_manager e)) (q, s))"

definition rt_free_slot_stats :: "('d, 'm, 'k, 'c, 'x) runtime_env \<Rightarrow> ('d, 'm runtime, resources) oracle_op" where
  "rt_free_slot_stats e heap =
     obind (on_manager (cm_free_slot_stats (cache_manager e))) (\<lambda>stats.
     obind (reads id) (\<lambda>s.
     let resident = int (card (resident_seq_ids s));
         stats = update_all [(''decode_reservation_tokens'', window (decode_reservations s)), (''resident_sequences'', resident),
           (''resident_sequence_capacity'', max_num_seqs_in_gpu e),
           (''free_resident_sequence_slots'', max 0 (max_num_seqs_in_gpu e - resident))] stats
     in obind (case prefix_cache_coordinator e of None \<Rightarrow> ret stats
               | Some pc \<Rightarrow> obind (on_manager (pc_stats pc)) (\<lambda>more. ret (update_all more stats))) (\<lambda>stats.
        case chain_cache_coordinator e of None \<Rightarrow> ret stats
        | Some cc \<Rightarrow> obind (on_manager (cc_stats cc)) (\<lambda>more. ret (update_all more stats)))))"

section \<open>Decode windows\<close>

text \<open>The slots that waiting prompts need, per resource of the budgets.\<close>

definition pending_prefill :: "resources \<Rightarrow> int \<Rightarrow> resources \<Rightarrow> resources" where
  "pending_prefill prefill scalar budgets = map (\<lambda>(name, free). (name,
     case map_of prefill name of Some n \<Rightarrow> max 0 (free - n)
     | None \<Rightarrow> if take 6 name = ''layer_'' then scalar else 0)) budgets"

definition add_chain_slots :: "nat list \<Rightarrow> int list \<Rightarrow> resources \<Rightarrow> resources" where
  "add_chain_slots layers chain_slots pending =
     (let pending = fold (\<lambda>(layer, slots) d. if map_of d (layer_name layer) \<noteq> None
            then AList.update (layer_name layer) (amount d (layer_name layer) + slots) d else d) (zip layers chain_slots) pending
      in if map_of pending ''slots'' \<noteq> None
         then AList.update ''slots'' (amount pending ''slots'' + largest chain_slots) pending else pending)"

definition chain_pending :: "('d, 'm, 'k, 'c, 'x) runtime_env \<Rightarrow> 'd sequence list \<Rightarrow> resources \<Rightarrow> ('m runtime, resources) op" where
  "chain_pending e qs pending =
     (case chain_cache_coordinator e of None \<Rightarrow> ret pending
      | Some cc \<Rightarrow>
          let partial_ids = set (map seq_id (filter (\<lambda>q. 0 < num_prefilled_tokens q \<and> num_prefilled_tokens q < num_prompt_tokens q) qs))
          in obind (on_manager (cc_outstanding_active_reservations cc partial_ids)) (\<lambda>(chain_slots, _).
             ret (add_chain_slots (cm_kv_transformer_layer_indices (cache_manager e)) chain_slots pending)))"

text \<open>Slots of the prefix cache that can be reclaimed count as budget; then pending prompts count at least \<open>scalar\<close>.\<close>

definition add_reclaimable :: "int \<Rightarrow> int \<Rightarrow> resources \<times> resources \<Rightarrow> ('s, resources \<times> resources) op" where
  "add_reclaimable extra scalar = (\<lambda>(budgets, pending).
     if extra \<le> 0 then ret (budgets, pending)
     else if map_of budgets ''slots'' = None
     then raise_error (RuntimeError ''Mixed prefix decode reservations require a slots budget.'')
     else ret (AList.update ''slots'' (amount budgets ''slots'' + extra) budgets,
               AList.update ''slots'' (max (amount pending ''slots'') scalar) pending))"

definition window_budgets :: "('d, 'm, 'k, 'c, 'x) runtime_env \<Rightarrow> 'd sequence list \<Rightarrow> ('m runtime, resources \<times> resources) op" where
  "window_budgets e qs =
     obind (on_manager (cm_decode_window_budgets (cache_manager e))) (\<lambda>budgets.
     obind (on_manager (cm_prompt_admission_budgets (cache_manager e) qs (rt_prefill_chunk_size e))) (\<lambda>prefill.
     obind (on_manager (cm_reserved_prefill_slots (cache_manager e) qs (rt_prefill_chunk_size e))) (\<lambda>scalar.
     obind (chain_pending e qs (pending_prefill prefill scalar budgets)) (\<lambda>pending.
     obind (mixed_prefix_step_reclaimable_slots e) (\<lambda>extra.
     add_reclaimable extra scalar (budgets, pending))))))"

definition acquire_windows :: "('d, 'm, 'k, 'c, 'x) runtime_env \<Rightarrow> (nat \<Rightarrow> 'd sequence) \<Rightarrow> nat list \<Rightarrow> nat list
    \<Rightarrow> ('m runtime, nat option) op" where
  "acquire_windows e heap ds ws =
     obind (reads (\<lambda>s. \<exists>r \<in> set ds. needs_acquisition heap r (decode_reservations s))) (\<lambda>any.
     if \<not> any then ret None
     else obind (window_budgets e (map heap ws)) (\<lambda>(budgets, pending).
       obind (reads manager) (\<lambda>m.
       on_reservations (acquire_many (cm_decode_window_costs (cache_manager e) m) heap (length ds = 1) (Some pending)
         (Inr budgets) ds))))"

definition rt_reserve_decode_windows :: "('d, 'm, 'k, 'c, 'x) runtime_env \<Rightarrow> nat list \<Rightarrow> nat list
    \<Rightarrow> ('d, 'm runtime, nat option) heap_hook" where
  "rt_reserve_decode_windows e ds ws = (\<lambda>(heap, s). case acquire_windows e heap ds ws s of (x, s') \<Rightarrow> (x, heap, s'))"

section \<open>The memory oracle of the scheduler\<close>

definition runtime_oracle :: "('d, 'm, 'k, 'c, 'x) runtime_env \<Rightarrow> ('d, 'm runtime, 'k, 'c + 'x) memory_oracle" where
  "runtime_oracle e = \<lparr>
     num_free_slots = (\<lambda>_. on_manager (cm_num_free_slots (cache_manager e))),
     reserve_decode_windows = rt_reserve_decode_windows e,
     prefill_batched_tokens_margin = (\<lambda>_. on_manager (cm_prefill_batched_tokens_margin (cache_manager e))),
     remaining_prefill_tokens = (\<lambda>q _. on_manager (cm_remaining_prefill_tokens (cache_manager e) q)),
     oracle_execution_mode = rt_prefill_execution_mode e,
     prefill_batch_compatibility_key = (\<lambda>q _. on_manager (cm_prefill_batch_compatibility_key (cache_manager e) q)),
     reset_prefill_execution_state = (\<lambda>r _. on_manager (cm_reset_prefill_execution_state (cache_manager e) r)),
     complete_prefill_execution = manager_hook (cm_complete_prefill_execution (cache_manager e)),
     reserved_prefill_slots = (\<lambda>qs step _. on_manager (cm_reserved_prefill_slots (cache_manager e) qs step)),
     should_schedule_full_prefill = (\<lambda>q _. on_manager (cm_should_schedule_full_prefill (cache_manager e) q)),
     prefill_step_free_slots = rt_prefill_step_free_slots e,
     prefill_step_free_slots_for = rt_prefill_step_free_slots_for e,
     prefill_private_slots_for = (\<lambda>q _. on_manager (cm_prefill_private_slots_for (cache_manager e) q)),
     min_final_prefill_chunk_size = (\<lambda>q _. on_manager (cm_min_final_prefill_chunk_size (cache_manager e) q)),
     prefill_step_reservation_cost = (\<lambda>n q _. on_manager (cm_prefill_step_reservation_cost (cache_manager e) n q)),
     decode_step_free_slots = rt_decode_step_free_slots e,
     decode_step_free_slots_for = rt_decode_step_free_slots_for e,
     decode_step_reservation_cost = (\<lambda>q _. on_manager (cm_decode_step_reservation_cost (cache_manager e) q)),
     prompt_admission_free_slots = rt_prompt_admission_free_slots e,
     prompt_admission_budgets = rt_prompt_admission_budgets e,
     prompt_admission_costs = rt_prompt_admission_costs e,
     prompt_admission_shared_costs = Some (rt_prompt_admission_shared_costs e),
     prompt_logical_reservation_cost = rt_prompt_logical_reservation_cost e,
     prompt_admission_failure_action = (\<lambda>_. on_manager (cm_prompt_admission_failure_action (cache_manager e))),
     on_prompt_admitted = rt_on_prompt_admitted e,
     refresh_prefix_cache_hit = rt_refresh_prefix_cache_hit e,
     clear_prefix_cache_hit = manager_hook (cm_clear_prefix_cache_hit (cache_manager e)),
     scheduler_capacity_snapshot = map_option (\<lambda>(enter, leave). (\<lambda>_. on_manager enter, \<lambda>_. on_manager leave))
       (cm_scheduler_capacity_snapshot (cache_manager e)),
     free_slot_stats = rt_free_slot_stats e\<rparr>"

end
