(* ===== verification/Scheduler_Residency.thy ===== *)
theory Scheduler_Residency
  imports Scheduler_Queues
begin

text \<open>
  How many requests the scheduler makes resident.  The oracle keeps a set of resident requests; it
  budgets the free places of the set, prices a prompt at one place unless it is resident already,
  and adds the prompt when it is admitted.  The scheduler charges the price once per admission, so
  the set never outgrows the capacity, also when a call raises.
\<close>

section \<open>Shrinking operations\<close>

lemma keeps_prod [keeps_intro]: "(\<And>a b. x = (a, b) \<Longrightarrow> keeps P (f a b)) \<Longrightarrow> keeps P (case x of (a, b) \<Rightarrow> f a b)"
  by (cases x) auto

lemma keeps_list [keeps_intro]:
  "(xs = [] \<Longrightarrow> keeps P m) \<Longrightarrow> (\<And>y ys. xs = y # ys \<Longrightarrow> keeps P (f y ys)) \<Longrightarrow> keeps P (case xs of [] \<Rightarrow> m | y # ys \<Rightarrow> f y ys)"
  by (cases xs) auto

lemma keeps_compat [keeps_intro]:
  "(\<And>y. keeps P (f y)) \<Longrightarrow> keeps P m \<Longrightarrow> keeps P (case x of Hashable y \<Rightarrow> f y | Unhashable \<Rightarrow> m)"
  by (cases x) auto

lemma keeps_ofinally: "keeps P m \<Longrightarrow> (\<And>s. P s \<Longrightarrow> P (f s)) \<Longrightarrow> keeps P (ofinally m f)"
  by (auto simp: keeps_def ofinally_def split: prod.splits)

lemma keeps_wp: "keeps P m \<Longrightarrow> P s \<Longrightarrow> wp m (\<lambda>_. P) P s"
  by (rule wpI) (auto dest: keepsE)

lemma wp_keeps: "(\<And>s. P s \<Longrightarrow> wp m (\<lambda>_. P) P s) \<Longrightarrow> keeps P m"
proof (rule keepsI)
  fix s
  assume "P s" "\<And>s. P s \<Longrightarrow> wp m (\<lambda>_. P) P s"
  then have "wp m (\<lambda>_. P) P s" by blast
  then show "P (snd (m s))" by (cases "m s"; cases "fst (m s)") (auto simp: wp_def)
qed

definition shrinks_op :: "('o \<Rightarrow> 'a set) \<Rightarrow> ('h \<Rightarrow> ('o, 'b) op) \<Rightarrow> bool" where
  "shrinks_op residents m \<longleftrightarrow> (\<forall>h ost x ost'. m h ost = (x, ost') \<longrightarrow> residents ost' \<subseteq> residents ost)"

definition shrinks_query :: "('o \<Rightarrow> 'a set) \<Rightarrow> ('q \<Rightarrow> 'h \<Rightarrow> ('o, 'b) op) \<Rightarrow> bool" where
  "shrinks_query residents m \<longleftrightarrow> (\<forall>q. shrinks_op residents (m q))"

definition shrinks_hook :: "('o \<Rightarrow> 'a set) \<Rightarrow> ('q \<times> 'o, 'b) op \<Rightarrow> bool" where
  "shrinks_hook residents m \<longleftrightarrow> (\<forall>q ost x q' ost'. m (q, ost) = (x, q', ost') \<longrightarrow> residents ost' \<subseteq> residents ost)"

text \<open>Every operation of the oracle but the admission hook leaves the set alone or shrinks it.\<close>

definition shrinking_oracle :: "('o \<Rightarrow> nat set) \<Rightarrow> ('d, 'o, 'k, 'r) memory_oracle \<Rightarrow> bool" where
  "shrinking_oracle residents mo \<longleftrightarrow>
     shrinks_op residents (num_free_slots mo) \<and> (\<forall>ds ws. shrinks_hook residents (reserve_decode_windows mo ds ws))
     \<and> shrinks_op residents (prefill_batched_tokens_margin mo) \<and> shrinks_query residents (remaining_prefill_tokens mo)
     \<and> shrinks_query residents (oracle_execution_mode mo) \<and> shrinks_query residents (prefill_batch_compatibility_key mo)
     \<and> (\<forall>r. shrinks_op residents (reset_prefill_execution_state mo r))
     \<and> (\<forall>qs n. shrinks_op residents (reserved_prefill_slots mo qs n)) \<and> shrinks_query residents (should_schedule_full_prefill mo)
     \<and> shrinks_op residents (prefill_step_free_slots mo) \<and> shrinks_query residents (prefill_step_free_slots_for mo)
     \<and> shrinks_query residents (prefill_private_slots_for mo) \<and> shrinks_query residents (min_final_prefill_chunk_size mo)
     \<and> (\<forall>n. shrinks_query residents (prefill_step_reservation_cost mo n)) \<and> shrinks_op residents (decode_step_free_slots mo)
     \<and> shrinks_query residents (decode_step_free_slots_for mo) \<and> shrinks_query residents (decode_step_reservation_cost mo)
     \<and> shrinks_op residents (prompt_admission_free_slots mo) \<and> (\<forall>qs n. shrinks_op residents (prompt_admission_budgets mo qs n))
     \<and> shrinks_query residents (prompt_admission_costs mo)
     \<and> (\<forall>f. prompt_admission_shared_costs mo = Some f \<longrightarrow> shrinks_query residents f)
     \<and> shrinks_query residents (prompt_logical_reservation_cost mo) \<and> shrinks_op residents (prompt_admission_failure_action mo)
     \<and> shrinks_hook residents (clear_prefix_cache_hit mo)
     \<and> (\<forall>enter leave. scheduler_capacity_snapshot mo = Some (enter, leave) \<longrightarrow> shrinks_op residents enter \<and> shrinks_op residents leave)
     \<and> shrinks_op residents (free_slot_stats mo) \<and> shrinks_hook residents (complete_prefill_execution mo)"

text \<open>
  The contract: the budget of \<open>resident_seqs\<close> is the number of free places, its price is one place
  for a request that is not resident, no shared cost names it, and admission adds one request
  at most, and none when the price was zero.
\<close>

locale residency_laws =
  fixes e :: "('d, 'o, 'k, 'r) sched_env" and residents :: "'o \<Rightarrow> nat set" and capacity :: int
  assumes oracle_shrinks: "shrinking_oracle residents (memory_oracle e)"
    and refresher_shrinks: "shrinks_hook residents (prefix_cache_hit_refresher e)"
    and refresh_all_shrinks: "prefix_cache_hits_refresher e = Some f \<Longrightarrow> shrinks_hook residents (f rs)"
    and decode_reclaimer_shrinks: "decode_capacity_reclaimer e = Some g \<Longrightarrow> shrinks_hook residents (g r)"
    and prefill_reclaimer_shrinks: "prefill_capacity_reclaimer e = Some h \<Longrightarrow> shrinks_hook residents (h r)"
    and places_budgeted: "prompt_admission_budgets (memory_oracle e) qs n heap ost = (Inr budgets, ost')
      \<Longrightarrow> budget budgets ''resident_seqs'' = max 0 (capacity - int (card (residents ost')))"
    and place_priced: "prompt_admission_costs (memory_oracle e) q heap ost = (Inr costs, ost')
      \<Longrightarrow> distinct (map fst costs) \<and> map_of costs ''resident_seqs'' = Some (if seq_id q \<in> residents ost then 0 else 1)"
    and place_not_shared: "prompt_admission_shared_costs (memory_oracle e) = Some k \<Longrightarrow> k q heap ost = (Inr shared, ost')
      \<Longrightarrow> ''resident_seqs'' \<notin> fst ` set shared"
    and place_taken: "on_prompt_admitted (memory_oracle e) costs (q, ost) = (x, q', ost')
      \<Longrightarrow> \<exists>a. residents ost' \<subseteq> (if 0 < budget costs ''resident_seqs'' then insert a (residents ost) else residents ost)"

lemma wp_run_hook_law:
  "(\<And>x q ost. m (requests s r, oracle_state s) = (x, q, ost) \<Longrightarrow> Q () (s\<lparr>requests := (requests s)(r := q), oracle_state := ost\<rparr>)
      \<and> E (s\<lparr>requests := (requests s)(r := q), oracle_state := ost\<rparr>)) \<Longrightarrow> wp (run_hook m r) Q E s"
  by (auto simp: wp_def run_hook_def split: prod.splits sum.splits)

lemma wp_on_oracle_law:
  "(\<And>x ost. m (requests s) (oracle_state s) = (Inr x, ost) \<Longrightarrow> Q x (s\<lparr>oracle_state := ost\<rparr>))
   \<Longrightarrow> (\<And>err ost. m (requests s) (oracle_state s) = (Inl err, ost) \<Longrightarrow> E (s\<lparr>oracle_state := ost\<rparr>)) \<Longrightarrow> wp (on_oracle m) Q E s"
  by (auto simp: wp_def on_oracle_def split: prod.splits sum.splits)

lemma wp_ask_law:
  "(\<And>x ost. m (requests s r) (requests s) (oracle_state s) = (Inr x, ost) \<Longrightarrow> Q x (s\<lparr>oracle_state := ost\<rparr>))
   \<Longrightarrow> (\<And>err ost. m (requests s r) (requests s) (oracle_state s) = (Inl err, ost) \<Longrightarrow> E (s\<lparr>oracle_state := ost\<rparr>)) \<Longrightarrow> wp (ask m r) Q E s"
  by (auto simp: wp_def ask_def on_oracle_def split: prod.splits sum.splits)

section \<open>Charging\<close>

lemma budget_update: "budget (AList.update n v d) m = (if m = n then v else budget d m)"
  by (simp add: budget_def update_conv')

lemma budget_charged:
  "distinct (map fst costs) \<Longrightarrow> budget (charge_budgets costs b) n = budget b n - budget costs n"
proof (induction costs arbitrary: b)
  case Nil
  then show ?case by (simp add: charge_budgets_def budget_def)
next
  case (Cons c costs)
  then obtain m v where c: "c = (m, v)" by fastforce
  have "map_of costs m = None" using Cons.prems by (simp add: c map_of_eq_None_iff)
  then have "budget costs m = 0" by (simp add: budget_def)
  moreover have "charge_budgets (c # costs) b = charge_budgets costs (AList.update m (budget b m - v) b)" by (simp add: charge_budgets_def c)
  moreover have "budget (c # costs) n = (if n = m then v else budget costs n)" by (simp add: c budget_def)
  ultimately show ?case using Cons by (simp add: budget_update c)
qed

lemma first_failed_none: "first_failed_budget b costs = None \<Longrightarrow> (n, c) \<in> set costs \<Longrightarrow> c \<le> budget b n"
  by (induction b costs rule: first_failed_budget.induct) (auto split: if_splits)

lemma adjust_other:
  "adjust_shared_costs charged shared costs = Inr costs' \<Longrightarrow> distinct (map fst costs) \<Longrightarrow> n \<notin> fst ` set shared
    \<Longrightarrow> distinct (map fst costs') \<and> map_of costs' n = map_of costs n"
  by (induction charged shared costs rule: adjust_shared_costs.induct)
     (auto simp: Let_def update_conv' distinct_update split: if_splits)

context residency_laws
begin

abbreviation within_set :: "nat set \<Rightarrow> ('d, 'o) scheduler \<Rightarrow> bool" where
  "within_set A s \<equiv> residents (oracle_state s) \<subseteq> A"

lemma shrinks_on_oracle [keeps_intro]: "shrinks_op residents m \<Longrightarrow> keeps (within_set A) (on_oracle m)"
  by (rule keepsI) (simp add: on_oracle_def shrinks_op_def split: prod.splits, meson order_trans)

lemma shrinks_ask [keeps_intro]: "shrinks_query residents m \<Longrightarrow> keeps (within_set A) (ask m r)"
  by (rule keepsI) (simp add: ask_def on_oracle_def shrinks_op_def shrinks_query_def split: prod.splits, meson order_trans)

lemma shrinks_run_hook [keeps_intro]: "shrinks_hook residents m \<Longrightarrow> keeps (within_set A) (run_hook m r)"
  by (rule keepsI) (simp add: run_hook_def shrinks_hook_def split: prod.splits, meson order_trans)

lemma shrinks_on_heap [keeps_intro]: "shrinks_hook residents m \<Longrightarrow> keeps (within_set A) (on_heap m)"
  by (rule keepsI) (simp add: on_heap_def shrinks_hook_def split: prod.splits, meson order_trans)

lemma shrinks_writes: "(\<And>s. oracle_state (f s) = oracle_state s) \<Longrightarrow> keeps (within_set A) (writes f)"
  by (rule keeps_writes) simp

lemma shrinks_basic [keeps_intro]:
  "keeps (within_set A) (update_request r u)" "keeps (within_set A) (on_request r v)" "keeps (within_set A) monotonic"
  "keeps (within_set A) (wait_setdefault r t)" "keeps (within_set A) (set_reason y)" "keeps (within_set A) (decoding_remove r)"
  "keeps (within_set A) (drop_from_decoding r)"
  by (auto simp: update_request_def wait_setdefault_def set_reason_def drop_from_decoding_def intro!: shrinks_writes)
     (auto simp: keeps_def on_request_def monotonic_def decoding_remove_def split: sum.splits)

lemmas ops = oracle_shrinks [unfolded shrinking_oracle_def]

lemma shrinks_keys [keeps_intro]:
  "keeps (within_set A) (prefill_execution_mode e r)" "keeps (within_set A) (prefill_batch_key e r)"
  "keeps (within_set A) (refresh_prefill_metadata e r)" "keeps (within_set A) (reserved_prefill_tokens e)"
  by (auto simp: prefill_execution_mode_def prefill_batch_key_def refresh_prefill_metadata_def reserved_prefill_tokens_def ops
      refresher_shrinks intro!: keeps_intro)

lemma shrinks_collect [keeps_intro]: "keeps (within_set A) (collect_modes e rs ms)"
  by (induction rs arbitrary: ms) (auto intro!: keeps_intro)

lemma shrinks_order [keeps_intro]:
  "keeps (within_set A) (prefill_mode_order e)" "keeps (within_set A) (bucket_order e)"
  by (auto simp: prefill_mode_order_def bucket_order_def refresh_all_shrinks intro!: keeps_intro split: option.splits)

lemma shrinks_pop [keeps_intro]: "keeps (within_set A) (pop_next_prefill_seq e target rp)"
proof -
  have "keeps (within_set A) (pop_loop e target rp n)" for n
    by (induction n) (auto intro!: keeps_intro shrinks_writes)
  then show ?thesis by (auto simp: pop_next_prefill_seq_def intro!: keeps_intro)
qed

lemma shrinks_candidate [keeps_intro]:
  "keeps (within_set A) (candidate_capacity e mode r n)" "keeps (within_set A) (respect_min_final_prefill_chunk e r remaining proposed)"
  "keeps (within_set A) (candidate_tokens e mode r remaining batched free)"
  "keeps (within_set A) (block_candidate e mode r remaining free proposed run)"
  "keeps (within_set A) (refuse_admission e r failed run)" "keeps (within_set A) (schedule_chunk e r can run)"
  by (auto simp: candidate_capacity_def respect_min_final_prefill_chunk_def candidate_tokens_def block_candidate_def
      refuse_admission_def schedule_chunk_def ops Let_def intro!: keeps_intro shrinks_writes)

lemma shrinks_preempt [keeps_intro]:
  "keeps (within_set A) (restart_victim e v)" "keeps (within_set A) (preempt_decode_victim e v scheduled preempted)"
proof -
  show restart: "keeps (within_set A) (restart_victim e v)" for v
    by (auto simp: restart_victim_def ops intro!: keeps_intro shrinks_writes)
  show "keeps (within_set A) (preempt_decode_victim e v scheduled preempted)"
    by (auto simp: preempt_decode_victim_def ops intro!: keeps_intro shrinks_writes restart)
qed

lemma shrinks_affinity [keeps_intro]: "keeps (within_set A) (decode_affinity e failure)"
proof -
  have "keeps (within_set A) (eligible_decode_loop e free batch rs)" for free batch rs
    by (induction rs arbitrary: free batch) (auto simp: ops intro!: keeps_intro)
  moreover have "keeps (within_set A) (any_overdue ws)" for ws
    by (induction ws) (auto intro!: keeps_intro)
  ultimately show ?thesis
    by (auto simp: decode_affinity_def eligible_decode_batch_def ops intro!: keeps_intro)
qed

lemma shrinks_windows [keeps_intro]: "keeps (within_set A) (decode_window_failure e)" "keeps (within_set A) (sort_overdue b)"
  by (auto simp: decode_window_failure_def sort_overdue_def ops decode_reclaimer_shrinks
      intro!: keeps_intro shrinks_writes split: option.splits)

lemma shrinks_decode_loop [keeps_intro]: "keeps (within_set A) (decode_loop e n free scheduled blocked)"
  by (induction n arbitrary: free scheduled blocked) (auto simp: ops Let_def intro!: keeps_intro shrinks_writes)

text \<open>There are \<open>b\<close> free places beside the residents.\<close>

definition places :: "int \<Rightarrow> ('d, 'o) scheduler \<Rightarrow> bool" where
  "places b s \<longleftrightarrow> finite (residents (oracle_state s)) \<and> int (card (residents (oracle_state s))) + max 0 b \<le> capacity"

abbreviation free_places :: "'r prefill_run \<Rightarrow> int" where
  "free_places run \<equiv> budget (admission_budgets run) ''resident_seqs''"

lemma places_less: "places b s \<Longrightarrow> b' \<le> b \<Longrightarrow> places b' s" by (auto simp: places_def)

lemma places_subset: "places b s \<Longrightarrow> residents (oracle_state t) \<subseteq> residents (oracle_state s) \<Longrightarrow> places b t"
  using card_mono [of "residents (oracle_state s)" "residents (oracle_state t)"] by (fastforce simp: places_def dest: finite_subset)

lemma places_same: "oracle_state t = oracle_state s \<Longrightarrow> places b t = places b s" by (simp add: places_def)

lemma shrink_places: "(\<And>A. keeps (within_set A) m) \<Longrightarrow> keeps (places b) m"
  by (rule keepsI) (metis keepsD order_refl places_subset)

lemma wp_shrink: "(\<And>A. keeps (within_set A) m) \<Longrightarrow> places b s \<Longrightarrow> wp m (\<lambda>_. places b) (places 0) s"
  by (rule wp_conseq [OF keeps_wp [OF shrink_places]]) (auto intro: places_less simp: places_def)

lemma places_0: "places b s \<Longrightarrow> places 0 s" by (auto simp: places_def)

lemma shrinks_costs: "keeps (within_set A) (admission_costs e r run)"
  by (auto simp: admission_costs_def ops intro!: keeps_intro split: option.splits)

lemma admission_costs_price:
  "wp (admission_costs e r run) (\<lambda>(raw, shared, costs) _. \<exists>c \<in> {0, 1}. budget raw ''resident_seqs'' = c
     \<and> distinct (map fst costs) \<and> map_of costs ''resident_seqs'' = Some c) (\<lambda>_. True) s"
  unfolding admission_costs_def
proof (rule wp_obind, rule wp_ask_law)
  fix raw ost
  assume "prompt_admission_costs (memory_oracle e) (requests s r) (requests s) (oracle_state s) = (Inr raw, ost)"
  note price = place_priced [OF this]
  obtain c :: int where c: "c \<in> {0, 1}" "distinct (map fst raw)" "map_of raw ''resident_seqs'' = Some c"
    by (rule that [of "if seq_id (requests s r) \<in> residents (oracle_state s) then 0 else 1"]) (use price in simp_all)
  have adjust: "wp (obind (lift_result (\<lambda>_. adjust_shared_costs (charged_shared_resources run) shared raw)) (\<lambda>costs. ret (raw, shared, costs)))
      (\<lambda>(raw, shared, costs) _. \<exists>c \<in> {0, 1}. budget raw ''resident_seqs'' = c
        \<and> distinct (map fst costs) \<and> map_of costs ''resident_seqs'' = Some c) (\<lambda>_. True) t"
    if "''resident_seqs'' \<notin> fst ` set shared" for shared t
    using c that by (auto intro!: wp_intro dest!: adjust_other [of _ _ _ _ "''resident_seqs''"] simp: budget_def)
  show "wp (obind (case prompt_admission_shared_costs (memory_oracle e) of None \<Rightarrow> ret [] | Some f \<Rightarrow> ask f r)
      (\<lambda>shared. obind (lift_result (\<lambda>_. adjust_shared_costs (charged_shared_resources run) shared raw)) (\<lambda>costs. ret (raw, shared, costs))))
      (\<lambda>(raw, shared, costs) _. \<exists>c \<in> {0, 1}. budget raw ''resident_seqs'' = c
        \<and> distinct (map fst costs) \<and> map_of costs ''resident_seqs'' = Some c) (\<lambda>_. True) (s\<lparr>oracle_state := ost\<rparr>)"
  proof (cases "prompt_admission_shared_costs (memory_oracle e)")
    case None
    then show ?thesis using adjust [of "[]"] by (auto intro!: wp_obind [of "ret []"] wp_ret)
  next
    case (Some f)
    show ?thesis unfolding Some option.case
    proof (rule wp_obind, rule wp_ask_law)
      fix shared ost'
      assume "f (requests (s\<lparr>oracle_state := ost\<rparr>) r) (requests (s\<lparr>oracle_state := ost\<rparr>)) (oracle_state (s\<lparr>oracle_state := ost\<rparr>)) = (Inr shared, ost')"
      from adjust [OF place_not_shared [OF Some this]]
      show "wp (obind (lift_result (\<lambda>_. adjust_shared_costs (charged_shared_resources run) shared raw)) (\<lambda>costs. ret (raw, shared, costs)))
        (\<lambda>(raw, shared, costs) _. \<exists>c \<in> {0, 1}. budget raw ''resident_seqs'' = c
          \<and> distinct (map fst costs) \<and> map_of costs ''resident_seqs'' = Some c) (\<lambda>_. True) (s\<lparr>oracle_state := ost, oracle_state := ost'\<rparr>)" .
    qed simp
  qed
qed simp

lemma accept_places:
  assumes "places (free_places run) s" "budget raw ''resident_seqs'' = c" "c \<in> {0, 1}" "c \<le> free_places run"
    and "distinct (map fst costs)" "map_of costs ''resident_seqs'' = Some c"
  shows "wp (accept_admission e r raw shared costs run) (\<lambda>run'. places (free_places run')) (places 0) s"
proof -
  have charged: "budget (charge_budgets costs (admission_budgets run)) ''resident_seqs'' = free_places run - c"
    unfolding budget_charged [OF assms(5)] by (simp only: budget_def [of costs] assms(6) option.case)
  have grown: "places (free_places run - c) t" "places 0 t"
    if ost: "oracle_state t = ost" and sub: "residents ost \<subseteq> (if 0 < c then insert a (residents (oracle_state s)) else residents (oracle_state s))"
      for t ost a
  proof -
    have a: "residents (oracle_state t) \<subseteq> (if 0 < c then insert a (residents (oracle_state s)) else residents (oracle_state s))"
      using ost sub by simp
    have fin: "finite (residents (oracle_state s))" using assms(1) by (simp add: places_def)
    then have "finite (residents (oracle_state t))" using a by (auto intro: finite_subset split: if_splits)
    moreover have "int (card (residents (oracle_state t))) \<le> int (card (residents (oracle_state s))) + c"
      using a fin assms(3) card_mono [OF _ a] card_insert_le_m1 [of "Suc (card (residents (oracle_state s)))" "residents (oracle_state s)" a]
      by (auto split: if_splits simp: card_insert_if)
    ultimately show "places (free_places run - c) t" "places 0 t" using assms(1,3,4) by (auto simp: places_def)
  qed
  have ask: "wp (ask (prompt_logical_reservation_cost (memory_oracle e)) r) (\<lambda>_. places (free_places run - c)) (places 0) t"
    if "places (free_places run - c) t" for t using that by (intro wp_shrink) (auto intro!: keeps_intro simp: ops)
  show ?thesis
    unfolding accept_admission_def Let_def
    by ((intro wp_oseq wp_writes wp_update_request wp_run_hook_law wp_obind conjI; (rule wp_conseq [OF ask])?),
        auto dest!: place_taken simp: assms(2) charged intro!: wp_intro intro: places_0)
       (rule grown, simp, assumption)+
qed

lemma admit_places:
  assumes "places (free_places run) s"
  shows "wp (admit_prompt e r run) (\<lambda>(run', _). places (free_places run')) (places 0) s"
proof -
  have costs: "wp (admission_costs e r run) (\<lambda>(raw, shared, costs) t. places (free_places run) t
      \<and> (\<exists>c \<in> {0, 1}. budget raw ''resident_seqs'' = c \<and> distinct (map fst costs) \<and> map_of costs ''resident_seqs'' = Some c)) (places 0) s"
    by (rule wp_conseq [OF wp_conj [OF wp_shrink [OF shrinks_costs assms] admission_costs_price]]) auto
  have refuse: "wp (refuse_admission e r failed run) (\<lambda>run'. places (free_places run')) (places 0) t"
    if "places (free_places run) t" for failed t
  proof -
    have same: "wp (refuse_admission e r failed run) (\<lambda>run' _. admission_budgets run' = admission_budgets run) (\<lambda>_. True) t"
      unfolding refuse_admission_def by (auto intro!: wp_intro)
    show ?thesis by (rule wp_conseq [OF wp_conj [OF wp_shrink [OF shrinks_candidate(5) that] same]]) auto
  qed
  have accept: "wp (accept_admission e r raw shared costs run) (\<lambda>run'. places (free_places run')) (places 0) t"
    if "places (free_places run) t" "c \<in> {0, 1}" "budget raw ''resident_seqs'' = c" "distinct (map fst costs)"
      "map_of costs ''resident_seqs'' = Some c" "first_failed_budget (admission_budgets run) costs = None" for raw shared costs c t
    using accept_places [OF that(1,3,2) _ that(4,5)] first_failed_none [OF that(6) map_of_SomeD [OF that(5)]] by blast
  have decided: "wp (case first_failed_budget (admission_budgets run) costs of
        None \<Rightarrow> obind (accept_admission e r raw shared costs run) (\<lambda>run. ret (run, True))
      | Some failed \<Rightarrow> obind (refuse_admission e r failed run) (\<lambda>run. ret (run, False)))
      (\<lambda>(run', _). places (free_places run')) (places 0) t"
    if h: "places (free_places run) t" "\<exists>c \<in> {0, 1}. budget raw ''resident_seqs'' = c \<and> distinct (map fst costs) \<and> map_of costs ''resident_seqs'' = Some c"
    for raw shared costs t
  proof (cases "first_failed_budget (admission_budgets run) costs")
    case None
    obtain c where c: "c \<in> {0, 1}" "budget raw ''resident_seqs'' = c" "distinct (map fst costs)" "map_of costs ''resident_seqs'' = Some c"
      using h(2) by blast
    show ?thesis unfolding None option.case
      by (rule wp_obind, rule wp_conseq [OF accept [OF h(1) c None]]) (auto intro: wp_ret)
  next
    case (Some failed)
    show ?thesis unfolding Some option.case
      by (rule wp_obind, rule wp_conseq [OF refuse [OF h(1)]]) (auto intro: wp_ret)
  qed
  show ?thesis
    unfolding admit_prompt_def
  proof (intro wp_obind wp_reads wp_if)
    show "wp (ret (run, True)) (\<lambda>(run', _). places (free_places run')) (places 0) s" using assms by (simp add: wp_ret)
  next
    show "wp (admission_costs e r run) (\<lambda>x. wp (case x of (raw, shared, costs) \<Rightarrow> case first_failed_budget (admission_budgets run) costs of
        None \<Rightarrow> obind (accept_admission e r raw shared costs run) (\<lambda>run. ret (run, True))
      | Some failed \<Rightarrow> obind (refuse_admission e r failed run) (\<lambda>run. ret (run, False)))
      (\<lambda>(run', _). places (free_places run')) (places 0)) (places 0) s"
      by (rule wp_conseq [OF costs]) (use decided in \<open>simp_all add: case_prod_beta\<close>)
  qed
qed

lemma candidate_places:
  assumes "places (free_places run) s"
  shows "wp (prefill_candidate e mode r run) (\<lambda>(run', _). places (free_places run')) (places 0) s"
proof -
  have block: "wp (block_candidate e mode r remaining free proposed run) (\<lambda>run'. places (free_places run')) (places 0) t"
    if "places (free_places run) t" for remaining free proposed t
  proof -
    have same: "wp (block_candidate e mode r remaining free proposed run) (\<lambda>run' _. admission_budgets run' = admission_budgets run) (\<lambda>_. True) t"
      unfolding block_candidate_def by (auto intro!: wp_intro simp: Let_def)
    show ?thesis by (rule wp_conseq [OF wp_conj [OF wp_shrink [OF shrinks_candidate(4) that] same]]) auto
  qed
  have chunk: "wp (schedule_chunk e r can run') (\<lambda>run''. places (free_places run'')) (places 0) t"
    if "places (free_places run') t" for can run' t
  proof -
    have same: "wp (schedule_chunk e r can run') (\<lambda>run'' _. admission_budgets run'' = admission_budgets run') (\<lambda>_. True) t"
      unfolding schedule_chunk_def by (auto intro!: wp_intro)
    show ?thesis by (rule wp_conseq [OF wp_conj [OF wp_shrink [OF shrinks_candidate(6) that] same]]) auto
  qed
  show ?thesis
    unfolding prefill_candidate_def using assms
    by (intro wp_obind wp_conseq [OF wp_shrink [OF shrinks_candidate(1)]] wp_prod wp_conseq [OF wp_shrink [OF shrinks_candidate(3)]])
       (auto intro!: wp_intro wp_conseq [OF block] wp_conseq [OF admit_places] wp_conseq [OF chunk])
qed

lemma bucket_places:
  "places (free_places run) s \<Longrightarrow> wp (bucket_loop e target rp margin n run) (\<lambda>run'. places (free_places run')) (places 0) s"
proof (induction n arbitrary: run s)
  case 0
  then show ?case by (simp add: wp_ret)
next
  case (Suc n)
  have pop: "wp (pop_next_prefill_seq e target rp) (\<lambda>_. places (free_places run)) (places 0) s"
    using Suc.prems by (intro wp_shrink shrinks_pop)
  show ?case
    using Suc.prems by (auto intro!: wp_intro wp_conseq [OF pop] wp_conseq [OF candidate_places] wp_conseq [OF Suc.IH])
qed

lemma scan_places:
  "places (free_places run) s \<Longrightarrow> wp (scan_buckets e order rp margin run) (\<lambda>run'. places (free_places run')) (places 0) s"
proof (induction order arbitrary: run s)
  case Nil
  then show ?case by (simp add: wp_ret)
next
  case (Cons target order)
  have moved: "places b (restore_skipped t) = places b t" "places b (t\<lparr>skipped_prefill := u\<rparr>) = places b t" for b t u
    by (simp_all add: places_def restore_skipped_def)
  have "wp (scan_bucket e target rp margin run) (\<lambda>run'. places (free_places run')) (places 0) s"
    unfolding scan_bucket_def using Cons.prems
    by (intro wp_ofinally) (auto intro!: wp_intro wp_conseq [OF bucket_places] simp: moved)
  then show ?case using Cons by (auto intro!: wp_intro wp_conseq [OF _ Cons.IH])
qed

lemma wp_shrunk:
  "(\<And>A. keeps (within_set A) m) \<Longrightarrow> places b s \<Longrightarrow> (\<And>x t. places b t \<Longrightarrow> Q x t) \<Longrightarrow> wp m Q (places 0) s"
  by (rule wp_conseq [OF wp_shrink])

lemma budget_places:
  "places 0 s \<Longrightarrow> (\<And>b t. places (budget b ''resident_seqs'') t \<Longrightarrow> Q b t)
    \<Longrightarrow> wp (on_oracle (prompt_admission_budgets (memory_oracle e) qs n)) Q (places 0) s"
proof (rule wp_on_oracle_law)
  fix b ost
  assume s: "places 0 s" and Q: "\<And>b t. places (budget b ''resident_seqs'') t \<Longrightarrow> Q b t"
    and call: "prompt_admission_budgets (memory_oracle e) qs n (requests s) (oracle_state s) = (Inr b, ost)"
  have "residents ost \<subseteq> residents (oracle_state s)" using ops call by (simp add: shrinks_op_def)
  then have "places 0 (s\<lparr>oracle_state := ost\<rparr>)" using places_subset [OF s, of "s\<lparr>oracle_state := ost\<rparr>"] by simp
  then show "Q b (s\<lparr>oracle_state := ost\<rparr>)"
    by (intro Q) (simp add: places_def places_budgeted [OF call])
next
  fix err ost
  assume s: "places 0 s" and call: "prompt_admission_budgets (memory_oracle e) qs n (requests s) (oracle_state s) = (Inl err, ost)"
  have "residents ost \<subseteq> residents (oracle_state s)" using ops call by (simp add: shrinks_op_def)
  then show "places 0 (s\<lparr>oracle_state := ost\<rparr>)" using places_subset [OF s, of "s\<lparr>oracle_state := ost\<rparr>"] by simp
qed

lemma query_places:
  assumes "places 0 s"
  shows "wp (query_capacity e) (\<lambda>(run, _, _). places (free_places run)) (places 0) s"
proof -
  have none: "budget [] name = 0" for name by (simp add: budget_def)
  have last: "wp (obind (on_oracle (decode_step_free_slots (memory_oracle e))) (\<lambda>free. ret (run, margin, max 0 free)))
      (\<lambda>(run, _, _). places (free_places run)) (places 0) t" if "places (free_places run) t" for run margin t
    by (rule wp_obind, rule wp_shrunk [OF _ that]) (auto intro!: keeps_intro wp_ret simp: ops)
  have margin: "wp (on_oracle (prefill_batched_tokens_margin (memory_oracle e))) (\<lambda>_. places b) (places 0) t" if "places b t" for b t
    using that by (intro wp_shrink) (auto intro!: keeps_intro simp: ops)
  show ?thesis
    unfolding query_capacity_def
    apply (rule wp_obind, rule wp_shrunk [OF _ assms], (auto intro!: keeps_intro simp: ops)[1], rule wp_obind, rule wp_reads, rule wp_obind, rule wp_if)
     apply (rule wp_obind, rule wp_shrunk [OF shrinks_keys(4)], assumption)
     apply (rule wp_obind, rule wp_shrunk, (auto intro!: keeps_intro simp: ops)[1], assumption)
     apply (rule wp_obind, rule wp_shrunk, (auto intro!: keeps_intro simp: ops)[1], assumption)
     apply (rule wp_obind, rule wp_reads, rule wp_obind, rule budget_places, assumption)
     apply (rule wp_obind, rule wp_conseq [OF margin], assumption)
      apply (auto intro!: wp_ret last simp: initial_run_def none)
    done
qed

lemma phase_places:
  assumes "places 0 s"
  shows "wp (prefill_phase e overdue) (\<lambda>_. places 0) (places 0) s"
  unfolding prefill_phase_def
  by (intro wp_obind wp_conseq [OF query_places [OF assms]])
     (auto intro!: wp_prod wp_oseq wp_obind wp_reads wp_shrunk [OF shrinks_windows(2)] wp_shrunk [OF shrinks_order(2)]
       wp_conseq [OF scan_places] wp_ret intro: places_0)

section \<open>The step\<close>

lemma shrinks_finish [keeps_intro]:
  "keeps (within_set A) (finish_decode scheduled blocked)" "keeps (within_set A) (report_no_work run)"
  "keeps (within_set A) (record_phase now rs p)"
  by (auto simp: finish_decode_def report_no_work_def record_phase_def Let_def intro!: keeps_intro shrinks_writes)

lemma no_work_places:
  assumes "\<And>m. retry = Some m \<Longrightarrow> keeps (places 0) m"
  shows "keeps (places 0) (no_runnable_work e retry run)"
proof -
  have report: "keeps (places 0) (report_no_work run)" by (intro shrink_places shrinks_finish)
  have reclaim: "keeps (places 0) (on_heap (h r))" if "prefill_capacity_reclaimer e = Some h" for h r
    by (intro shrink_places shrinks_on_heap prefill_reclaimer_shrinks [OF that])
  show ?thesis
    unfolding no_runnable_work_def using assms
    by (auto intro!: keeps_intro report reclaim split: option.splits)
qed

lemma decode_places:
  assumes "\<And>m. retry = Some m \<Longrightarrow> keeps (places 0) m"
  shows "keeps (places 0) (decode_phase e retry free run)"
proof -
  note sh = shrink_places [where b = 0]
  have scanned: "keeps (places 0) (case scan of MustPreempt r \<Rightarrow> preempt_decode_victim e r [] []
     | Scanned [] (Some r) \<Rightarrow> oseq (drop_from_decoding r) (preempt_decode_victim e r [] [])
     | Scanned [] None \<Rightarrow> no_runnable_work e retry run
     | Scanned scheduled blocked \<Rightarrow> finish_decode scheduled blocked)" for scan
    using no_work_places [OF assms]
    by (auto intro!: keeps_oseq sh [OF shrinks_preempt(2)] sh [OF shrinks_finish(1)] sh [OF shrinks_basic(7)]
        split: decode_scan.splits list.splits option.splits)
  show ?thesis
    unfolding decode_phase_def
    by (intro keeps_obind keeps_oseq keeps_reads scanned sh [OF shrinks_basic(5)] sh [OF shrinks_decode_loop])
qed

lemma round_places:
  assumes "\<And>m. retry = Some m \<Longrightarrow> keeps (places 0) m"
  shows "keeps (places 0) (schedule_round e retry)"
proof -
  note sh = shrink_places [where b = 0]
  have prefill: "keeps (places 0) (prefill_phase e overdue)" for overdue by (rule wp_keeps [OF phase_places])
  have free: "keeps (places 0) (on_oracle (num_free_slots (memory_oracle e)))"
    by (intro sh shrinks_on_oracle) (simp add: ops)
  show ?thesis
    unfolding schedule_round_def
    by (intro keeps_obind keeps_oseq keeps_reads keeps_option keeps_prod keeps_if keeps_ret prefill free decode_places [OF assms]
        sh [OF shrinks_windows(1)] sh [OF shrinks_basic(6)] sh [OF shrinks_keys(4)] sh [OF shrinks_preempt(2)] sh [OF shrinks_affinity])
qed

lemma impl_places: "keeps (places 0) (schedule_impl e allow)"
  unfolding schedule_impl_def by (auto intro!: round_places split: if_splits)

lemma snapshot_places:
  assumes "keeps (places 0) m"
  shows "keeps (places 0) (with_capacity_snapshot e m)"
proof (cases "scheduler_capacity_snapshot (memory_oracle e)")
  case None
  then show ?thesis using assms by (simp add: with_capacity_snapshot_def)
next
  case (Some p)
  obtain enter leave where p: "p = (enter, leave)" by (cases p)
  have "shrinks_op residents enter" "shrinks_op residents leave" using ops Some p by blast+
  then have calls: "keeps (places 0) (on_oracle enter)" "keeps (places 0) (on_oracle leave)"
    by (auto intro!: shrink_places keeps_intro)
  have "keeps (places 0) (\<lambda>s. case m s of (r, s1) \<Rightarrow>
      (case on_oracle leave s1 of (Inl x, s2) \<Rightarrow> (Inl x, s2) | (Inr _, s2) \<Rightarrow> (r, s2)))"
    using assms calls(2) by (auto intro!: keepsI split: prod.splits sum.splits) (metis keepsE)+
  then show ?thesis unfolding with_capacity_snapshot_def Some p by (auto intro!: keeps_oseq calls)
qed

lemma schedule_places: "keeps (places 0) (schedule e)"
proof -
  have guarded: "keeps (places 0) (guarded_impl e)"
    by (rule keepsI)
       (auto simp: guarded_impl_def restore_ownership_def Let_def places_def split: prod.splits sum.splits
         dest: keepsE [OF snapshot_places [OF impl_places]])
  have waits: "keeps (places 0) (ofor ws (\<lambda>r. wait_setdefault r now))" for ws now
    by (intro shrink_places keeps_ofor shrinks_basic)
  show ?thesis
    unfolding schedule_def
    by (intro keeps_obind keeps_oseq keeps_prod keeps_if keeps_ret keeps_reads guarded waits shrink_places [OF shrinks_basic(3)]
        shrink_places [OF shrinks_finish(3)] keeps_writes) (simp add: places_def)
qed

text \<open>The other methods of the scheduler make no request resident.\<close>

lemma shrinks_accept [keeps_intro]:
  "(\<And>B. keeps (within_set B) m) \<Longrightarrow> keeps (within_set A) (accept_token e retain m r out)"
  by (cases out) (auto simp: accept_token_def intro!: keeps_intro)

lemma shrinks_postprocess: "keeps (within_set A) (postprocess e rs ts p lps tops retain)"
proof -
  have "keeps (within_set A) (postprocess_prefill e retain x)" for x
    by (cases x) (auto simp: postprocess_prefill_def ops intro!: keeps_intro shrinks_writes)
  moreover have "keeps (within_set A) (postprocess_decode e retain x)" for x
    by (cases x) (auto simp: postprocess_decode_def intro!: keeps_intro)
  ultimately show ?thesis by (auto simp: postprocess_def Let_def intro!: keeps_intro)
qed

lemma shrinks_abort: "keeps (within_set A) (abort_many e ids)"
proof -
  have queue: "oracle_state (set_queue w rs s) = oracle_state s" for w rs and s :: "('d, 'o) scheduler"
    by (cases w) (simp_all add: set_queue_def)
  have "keeps (within_set A) (abort_loop e w req n retained removed)" for w req n retained removed
    by (induction n arbitrary: retained removed) (auto simp: ops queue intro!: keeps_intro shrinks_writes)
  then show ?thesis by (auto simp: abort_many_def abort_queue_def intro!: keeps_intro shrinks_writes)
qed

lemma shrinks_add_request: "keeps (within_set A) (add_request r)"
  by (auto simp: add_request_def intro!: keeps_intro shrinks_writes)

lemmas step_places = schedule_places shrink_places [OF shrinks_postprocess, where b = 0] shrink_places [OF shrinks_abort, where b = 0]
  shrink_places [OF shrinks_add_request, where b = 0]

end

end
