(* ===== verification/Runtime_Laws.thy ===== *)
theory Runtime_Laws
  imports Runtime_State Scheduler_Residency Scheduler_Batches
begin

text \<open>
  The runtime state as the scheduler's memory oracle.  No query of the runtime touches its resident
  set, its budget and its price of \<open>resident_seqs\<close> count the free places, and the laws of prompt
  admission hold when the cache manager keeps them.  Both contracts of the scheduler are therefore
  instances, and the engine never has more resident requests than the configuration allows.
\<close>

section \<open>The resident set\<close>

abbreviation resident_is :: "nat set \<Rightarrow> 'm runtime \<Rightarrow> bool" where
  "resident_is A s \<equiv> resident_seq_ids s = A"

lemma resident_calls [keeps_intro]:
  "keeps (resident_is A) (on_manager f)" "keeps (resident_is A) (on_reservations g)" "keeps (resident_is A) (rt_outstanding e heap)"
  by (auto simp: keeps_def on_manager_def on_reservations_def rt_outstanding_def split: prod.splits)

lemma resident_helpers [keeps_intro]:
  "keeps (resident_is A) (mixed_prefix_step_reclaimable_slots e)" "keeps (resident_is A) (mixed_prefix_admission_reclaimable_slots e)"
  "keeps (resident_is A) (capacity_after_reservations e adm free reserved)" "keeps (resident_is A) (hit_evictable_slots e q)"
  "keeps P (add_evictable extra budgets)" "keeps P (add_hit_slots extra costs)" "keeps P (add_reclaimable extra scalar bp)"
  "keeps (resident_is A) (chain_pending e qs pending)" "keeps (resident_is A) (reserved_budget e reserved nf)"
  by (cases bp; cases nf; auto simp: mixed_prefix_step_reclaimable_slots_def mixed_prefix_admission_reclaimable_slots_def
      capacity_after_reservations_def hit_evictable_slots_def add_evictable_def add_hit_slots_def add_reclaimable_def chain_pending_def
      reserved_budget_def Let_def intro!: keeps_intro split: option.splits list.splits)+

lemma resident_queries [keeps_intro]:
  "keeps (resident_is A) (rt_prefill_step_free_slots e heap)" "keeps (resident_is A) (rt_prompt_admission_free_slots e heap)"
  "keeps (resident_is A) (rt_prefill_step_free_slots_for e q heap)" "keeps (resident_is A) (rt_decode_step_free_slots e heap)"
  "keeps (resident_is A) (rt_decode_step_free_slots_for e q heap)" "keeps (resident_is A) (rt_prefill_execution_mode e q heap)"
  "keeps (resident_is A) (rt_prompt_admission_budgets e qs step heap)" "keeps (resident_is A) (rt_prompt_admission_cost e q heap)"
  "keeps (resident_is A) (rt_prompt_logical_reservation_cost e q heap)" "keeps (resident_is A) (rt_free_slot_stats e heap)"
  by (auto simp: rt_prefill_step_free_slots_def rt_prompt_admission_free_slots_def rt_prefill_step_free_slots_for_def
      rt_decode_step_free_slots_def rt_decode_step_free_slots_for_def rt_prefill_execution_mode_def rt_prompt_admission_budgets_def
      rt_prompt_admission_cost_def rt_prompt_logical_reservation_cost_def rt_free_slot_stats_def Let_def
      intro!: keeps_intro split: option.splits)

lemma resident_costs [keeps_intro]: "keeps (resident_is A) (rt_prompt_admission_costs e q heap)"
  by (auto simp: rt_prompt_admission_costs_def Let_def intro!: keeps_intro)

lemma resident_shared [keeps_intro]: "keeps (resident_is A) (rt_prompt_admission_shared_costs e q heap)"
  by (auto simp: rt_prompt_admission_shared_costs_def mixed_budget_def Let_def intro!: keeps_intro split: option.splits list.splits)

lemma resident_windows [keeps_intro]: "keeps (resident_is A) (acquire_windows e heap ds ws)"
  by (auto simp: acquire_windows_def window_budgets_def intro!: keeps_intro)

lemma resident_op:
  assumes "\<And>h A. keeps (resident_is A) (m h)"
  shows "shrinks_op resident_seq_ids m"
  unfolding shrinks_op_def by (auto dest!: keepsE [OF assms] )

lemma resident_hook: "shrinks_hook resident_seq_ids (manager_hook f)"
  by (auto simp: shrinks_hook_def manager_hook_def split: prod.splits)

lemma resident_reserve: "shrinks_hook resident_seq_ids (rt_reserve_decode_windows e ds ws)"
  unfolding shrinks_hook_def rt_reserve_decode_windows_def
  by (auto split: prod.splits dest: keepsE [OF resident_windows])

lemma resident_refresh: "shrinks_hook resident_seq_ids (rt_refresh_prefix_cache_hit e)"
  by (auto simp: shrinks_hook_def rt_refresh_prefix_cache_hit_def split: if_splits option.splits
      dest: resident_hook [unfolded shrinks_hook_def, rule_format])

lemma runtime_shrinks: "shrinking_oracle resident_seq_ids (runtime_oracle e)"
  by (auto simp: shrinking_oracle_def runtime_oracle_def shrinks_query_def intro!: resident_op resident_reserve resident_hook keeps_intro)

section \<open>The contracts of the scheduler\<close>

lemma add_hit_slots_keeps:
  "add_hit_slots extra costs s = (Inr costs', s') \<Longrightarrow> distinct (map fst costs)
    \<Longrightarrow> distinct (map fst costs') \<and> map_of costs' ''resident_seqs'' = map_of costs ''resident_seqs''"
proof -
  have other: "filter (\<lambda>kv. fst kv \<noteq> ''resident_seqs'') costs \<noteq> (''resident_seqs'', n) # rest" for n rest
    by (auto simp: filter_eq_Cons_iff)
  show "add_hit_slots extra costs s = (Inr costs', s') \<Longrightarrow> distinct (map fst costs)
    \<Longrightarrow> distinct (map fst costs') \<and> map_of costs' ''resident_seqs'' = map_of costs ''resident_seqs''"
    by (auto simp: add_hit_slots_def update_conv' distinct_update other split: if_splits list.splits)
qed

lemma costs_price:
  assumes "rt_prompt_admission_costs e q heap s = (Inr costs, s')"
    and keys: "\<And>m costs m'. cm_prompt_admission_costs (cache_manager e) q m = (Inr costs, m') \<Longrightarrow> distinct (map fst costs)"
  shows "distinct (map fst costs) \<and> map_of costs ''resident_seqs'' = Some (if seq_id q \<in> resident_seq_ids s then 0 else 1)"
proof -
  obtain raw m' where raw: "cm_prompt_admission_costs (cache_manager e) q (manager s) = (Inr raw, m')"
    using assms(1) by (auto simp: rt_prompt_admission_costs_def obind_def on_manager_def split: prod.splits sum.splits)
  let ?c = "AList.update ''resident_seqs'' (if seq_id q \<in> resident_seq_ids s then 0 else 1 :: int) raw"
  obtain extra t where "add_hit_slots extra ?c t = (Inr costs, s')"
    using assms(1) raw by (auto simp: rt_prompt_admission_costs_def obind_def on_manager_def Let_def split: prod.splits sum.splits if_splits)
  from add_hit_slots_keeps [OF this] keys [OF raw] show ?thesis by (simp add: distinct_update update_conv')
qed

lemma rt_budget_places:
  assumes "rt_prompt_admission_budgets e qs n heap s = (Inr budgets, s')"
  shows "budget budgets ''resident_seqs'' = max 0 (max_num_seqs_in_gpu e - int (card (resident_seq_ids s')))"
  using assms
  by (auto simp: rt_prompt_admission_budgets_def obind_def budget_def update_conv' split: prod.splits sum.splits)

lemma shared_not_resident:
  assumes "rt_prompt_admission_shared_costs e q heap s = (Inr shared, s')"
    and keys: "\<And>m shared m'. cm_prompt_admission_shared_costs (cache_manager e) q m = (Inr shared, m') \<Longrightarrow> ''resident_seqs'' \<notin> fst ` set shared"
  shows "''resident_seqs'' \<notin> fst ` set shared"
proof -
  have named: "name \<noteq> ''resident_seqs''" if "mixed_budget e q heap t = (Inr name, t')" for t t' name
    using that by (auto simp: mixed_budget_def obind_def filter_eq_Cons_iff split: prod.splits sum.splits if_splits list.splits)
  obtain raw m' where raw: "cm_prompt_admission_shared_costs (cache_manager e) q (manager s) = (Inr raw, m')"
    using assms(1) by (auto simp: rt_prompt_admission_shared_costs_def obind_def on_manager_def split: prod.splits sum.splits)
  have "map_of raw ''resident_seqs'' = None" using keys [OF raw] by (simp add: map_of_eq_None_iff)
  then have "map_of shared ''resident_seqs'' = None"
    using assms(1) raw
    by (auto simp: rt_prompt_admission_shared_costs_def obind_def on_manager_def Let_def update_conv' map_of_map dest!: named
        split: prod.splits sum.splits option.splits if_splits)
  then show ?thesis by (simp add: map_of_eq_None_iff)
qed

lemma admitted_place:
  "rt_on_prompt_admitted e costs (q, s) = (x, q', s')
    \<Longrightarrow> \<exists>a. resident_seq_ids s' \<subseteq> (if 0 < budget costs ''resident_seqs'' then insert a (resident_seq_ids s) else resident_seq_ids s)"
  by (auto simp: rt_on_prompt_admitted_def manager_hook_def amount_def budget_def split: prod.splits sum.splits if_splits)

locale runtime_scheduling =
  fixes se :: "('d, 'm runtime, 'k, 'c + 'x) sched_env" and rt :: "('d, 'm, 'k, 'c, 'x) runtime_env"
  assumes oracle_is_runtime: "memory_oracle se = runtime_oracle rt"
    and refresher_keeps_residents: "shrinks_hook resident_seq_ids (prefix_cache_hit_refresher se)"
    and refresh_all_keeps_residents: "prefix_cache_hits_refresher se = Some f \<Longrightarrow> shrinks_hook resident_seq_ids (f rs)"
    and decode_reclaimer_frees: "decode_capacity_reclaimer se = Some g \<Longrightarrow> shrinks_hook resident_seq_ids (g r)"
    and prefill_reclaimer_frees: "prefill_capacity_reclaimer se = Some h \<Longrightarrow> shrinks_hook resident_seq_ids (h r)"
    and cost_keys: "cm_prompt_admission_costs (cache_manager rt) q m = (Inr costs, m') \<Longrightarrow> distinct (map fst costs)"
    and shared_keys: "cm_prompt_admission_shared_costs (cache_manager rt) q m = (Inr shared, m') \<Longrightarrow> ''resident_seqs'' \<notin> fst ` set shared"

sublocale runtime_scheduling \<subseteq> residency_laws se resident_seq_ids "max_num_seqs_in_gpu rt"
proof unfold_locales
  show "shrinking_oracle resident_seq_ids (memory_oracle se)" by (simp add: oracle_is_runtime runtime_shrinks)
next
  fix costs q ost x q' ost'
  assume "on_prompt_admitted (memory_oracle se) costs (q, ost) = (x, q', ost')"
  then have "rt_on_prompt_admitted rt costs (q, ost) = (x, q', ost')" by (simp add: oracle_is_runtime runtime_oracle_def)
  then show "\<exists>a. resident_seq_ids ost' \<subseteq> (if 0 < budget costs ''resident_seqs'' then insert a (resident_seq_ids ost) else resident_seq_ids ost)"
    by (rule admitted_place)
qed (auto simp: oracle_is_runtime runtime_oracle_def refresher_keeps_residents refresh_all_keeps_residents decode_reclaimer_frees
    prefill_reclaimer_frees dest: rt_budget_places costs_price [OF _ cost_keys] shared_not_resident [OF _ shared_keys])

text \<open>What the laws of prompt admission need of the cache manager and of the prefix coordinator.\<close>

locale runtime_admission = runtime_scheduling +
  assumes refresher_is_runtime: "prefix_cache_hit_refresher se = refresh_prefix_cache_hit (runtime_oracle rt)"
    and no_refresh_all: "prefix_cache_hits_refresher se = None"
    and manager_remaining: "fst (cm_remaining_prefill_tokens (cache_manager rt) q m) = Inr n
      \<Longrightarrow> n \<le> num_prompt_tokens q - max (num_prefilled_tokens q) (prefix_cache_hit_len q)"
    and manager_admission: "cm_on_prompt_admitted (cache_manager rt) costs (q, m) = (x, q', m') \<Longrightarrow> q' = q"
    and manager_refresh: "cm_refresh_prefix_cache_hit (cache_manager rt) (q, m) = (x, q', m')
      \<Longrightarrow> recompute_replay_cursor q' = recompute_replay_cursor q"
    and manager_clear: "cm_clear_prefix_cache_hit (cache_manager rt) (q, m) = (x, q', m')
      \<Longrightarrow> recompute_replay_cursor q' = recompute_replay_cursor q"
    and coordinator_refresh: "prefix_cache_coordinator rt = Some pc \<Longrightarrow> pc_refresh_prefix_cache_hit pc (q, m) = (x, q', m')
      \<Longrightarrow> recompute_replay_cursor q' = recompute_replay_cursor q"

sublocale runtime_admission \<subseteq> admission_laws se
proof unfold_locales
  fix q heap ost n
  assume "fst (remaining_prefill_tokens (memory_oracle se) q heap ost) = Inr n"
  then have "fst (cm_remaining_prefill_tokens (cache_manager rt) q (manager ost)) = Inr n"
    by (auto simp: oracle_is_runtime runtime_oracle_def on_manager_def split: prod.splits)
  then show "n \<le> num_prompt_tokens q - max (num_prefilled_tokens q) (prefix_cache_hit_len q)" by (rule manager_remaining)
next
  fix costs q ost x q' ost'
  assume "on_prompt_admitted (memory_oracle se) costs (q, ost) = (x, q', ost')"
  then show "q' = q"
    by (auto simp: oracle_is_runtime runtime_oracle_def rt_on_prompt_admitted_def manager_hook_def split: prod.splits sum.splits
        dest: manager_admission)
next
  fix q ost x q' ost'
  assume "prefix_cache_hit_refresher se (q, ost) = (x, q', ost')"
  then show "recompute_replay_cursor q' = recompute_replay_cursor q"
    by (auto simp: refresher_is_runtime runtime_oracle_def rt_refresh_prefix_cache_hit_def manager_hook_def
        split: prod.splits if_splits option.splits dest: manager_refresh manager_clear coordinator_refresh)
qed (simp add: no_refresh_all)

section \<open>The engine with the default cache manager\<close>

text \<open>
  \<open>LLMEngine._create_scheduler\<close> without prefix caching and without a chain cache: the refresher is
  the runtime's, and the two callbacks that reclaim chains find no coordinator and give up.
\<close>

definition create_scheduler :: "int \<Rightarrow> int \<Rightarrow> int \<Rightarrow> int \<Rightarrow> int \<Rightarrow> int list \<Rightarrow> ('d, 'm, 'k, 'c, 'x) runtime_env
    \<Rightarrow> ('d, 'm runtime, 'k, 'c + 'x) sched_env" where
  "create_scheduler seqs tokens decodes favor chunk eos rt = \<lparr>
     max_num_seqs_in_batch = seqs, max_num_batched_tokens = tokens, max_decoding_seqs = decodes, favor_min_decoding_seqs = favor,
     engine_prefill_chunk_size = chunk, sched_eos_token_ids = eos, memory_oracle = runtime_oracle rt,
     prefix_cache_hit_refresher = resolve_refresher (runtime_oracle rt) None, prefix_cache_hits_refresher = None,
     decode_capacity_reclaimer = Some (\<lambda>r. ret (Some r)), prefill_capacity_reclaimer = Some (\<lambda>_. ret False)\<rparr>"

definition base_runtime :: "int \<Rightarrow> int \<Rightarrow> ('p \<Rightarrow> int) \<Rightarrow> (nat \<Rightarrow> ('p base_state, unit) op) \<Rightarrow> nat list
    \<Rightarrow> ('d, 'p base_state, unit, 'c, 'x) runtime_env" where
  "base_runtime places chunk free free_seq layers = \<lparr>max_num_seqs_in_gpu = places, rt_prefill_chunk_size = chunk,
     cache_manager = base_manager free free_seq layers, prefix_cache_coordinator = None, chain_cache_coordinator = None,
     recurrent_free_seq = None\<rparr>"

interpretation base_engine: runtime_admission
  "create_scheduler seqs tokens decodes favor chunk eos (base_runtime places step free free_seq layers)"
  "base_runtime places step free free_seq layers"
  for seqs tokens decodes favor chunk eos places step free free_seq layers
proof unfold_locales
  show "shrinks_hook resident_seq_ids (prefix_cache_hit_refresher
      (create_scheduler seqs tokens decodes favor chunk eos (base_runtime places step free free_seq layers)))"
    by (simp add: create_scheduler_def resolve_refresher_def runtime_oracle_def resident_refresh)
qed (auto simp: create_scheduler_def resolve_refresher_def base_runtime_def base_manager_def shrinks_hook_def
    base_remaining_prefill_tokens_def seq_clear_prefix_hit_def)

section \<open>Serving\<close>

text \<open>
  The life of an engine: requests arrive, the scheduler steps, the model runs (and changes the
  physical state in whatever way), its outputs are processed, requests are aborted and released.
  Any of the calls may raise.
\<close>

inductive serving :: "('d, 'm runtime, 'k, 'c + 'x) sched_env \<Rightarrow> ('d, 'm, 'k, 'c, 'x) runtime_env \<Rightarrow> ('d, 'm runtime) scheduler \<Rightarrow> bool"
  for se rt where
  start: "init_runtime m w = Inr ost \<Longrightarrow> serving se rt (init_scheduler heap ost readings)"
| submit: "serving se rt s \<Longrightarrow> add_request r (s\<lparr>requests := (requests s)(r := q)\<rparr>) = (x, t) \<Longrightarrow> serving se rt t"
| step: "serving se rt s \<Longrightarrow> schedule se s = (y, t) \<Longrightarrow> serving se rt t"
| run: "serving se rt s \<Longrightarrow> serving se rt (s\<lparr>oracle_state := (oracle_state s)\<lparr>manager := m\<rparr>\<rparr>)"
| outputs: "serving se rt s \<Longrightarrow> postprocess se rs ts p lps tops retain s = (x, t) \<Longrightarrow> serving se rt t"
| abort: "serving se rt s \<Longrightarrow> abort_many se ids s = (z, t) \<Longrightarrow> serving se rt t"
| release: "serving se rt s \<Longrightarrow> rt_free_seq rt r (oracle_state s) = (x, ost) \<Longrightarrow> serving se rt (s\<lparr>oracle_state := ost\<rparr>)"

text \<open>Releasing runs all three parts, whatever raises, and forgets the request.\<close>

lemma payload_released:
  assumes "cm_free_seq (cache_manager e) r (manager s) = (x1, m1)"
    "(case prefix_cache_coordinator e of None \<Rightarrow> ret () | Some pc \<Rightarrow> pc_release_seq pc r) m1 = (x2, m2)"
    "(case recurrent_free_seq e of None \<Rightarrow> ret () | Some f \<Rightarrow> f r) m2 = (x3, m3)"
  shows "free_seq_payload e r s = (case (x3, x2) of (Inl err, _) \<Rightarrow> Inl err | (_, Inl err) \<Rightarrow> Inl err | _ \<Rightarrow> x1,
    \<lparr>manager = m3, decode_reservations = release_window r (decode_reservations s), resident_seq_ids = resident_seq_ids s - {r}\<rparr>)"
  using assms
  by (cases s)
     (auto simp: free_seq_payload_def oseq_def obind_def on_reservations_def on_manager_def try_finally_def
      split: option.splits prod.splits sum.splits)

lemma released_parts:
  obtains x1 m1 x2 m2 x3 m3 where "cm_free_seq (cache_manager e) r (manager s) = (x1, m1)"
    "(case prefix_cache_coordinator e of None \<Rightarrow> ret () | Some pc \<Rightarrow> pc_release_seq pc r) m1 = (x2, m2)"
    "(case recurrent_free_seq e of None \<Rightarrow> ret () | Some f \<Rightarrow> f r) m2 = (x3, m3)"
    "rt_free_seq e r s = (case (x3, x2) of (Inl err, _) \<Rightarrow> Inl err | (_, Inl err) \<Rightarrow> Inl err | _ \<Rightarrow> x1,
      \<lparr>manager = m3, decode_reservations = release_window r (decode_reservations s), resident_seq_ids = resident_seq_ids s - {r}\<rparr>)"
proof -
  obtain x1 m1 where 1: "cm_free_seq (cache_manager e) r (manager s) = (x1, m1)" by fastforce
  obtain x2 m2 where 2: "(case prefix_cache_coordinator e of None \<Rightarrow> ret () | Some pc \<Rightarrow> pc_release_seq pc r) m1 = (x2, m2)" by fastforce
  obtain x3 m3 where 3: "(case recurrent_free_seq e of None \<Rightarrow> ret () | Some f \<Rightarrow> f r) m2 = (x3, m3)" by fastforce
  from payload_released [OF 1 2 3] show ?thesis by (intro that [OF 1 2 3]) (simp add: rt_free_seq_def)
qed

lemma released_residents: "rt_free_seq e r s = (x, t) \<Longrightarrow> resident_seq_ids t = resident_seq_ids s - {r}"
  by (rule released_parts [of e r s]) auto

context runtime_scheduling
begin

lemma serving_places: "serving se rt s \<Longrightarrow> 0 \<le> max_num_seqs_in_gpu rt \<Longrightarrow> places 0 s"
proof (induction rule: serving.induct)
  case (start m w ost heap readings)
  then have "resident_seq_ids ost = {}" by (auto simp: init_runtime_def rbind_def split: sum.splits)
  with start show ?case by (simp add: places_def init_scheduler_def)
next
  case (submit s r q x t)
  then have "places 0 (s\<lparr>requests := (requests s)(r := q)\<rparr>)" by (simp add: places_def)
  then show ?case by (rule keepsE [OF step_places(4) submit.hyps(2)])
next
  case (step s y t)
  then show ?case using keepsE [OF step_places(1)] by blast
next
  case (run s m)
  then show ?case by (simp add: places_def)
next
  case (outputs s rs ts p lps tops retain x t)
  then show ?case using keepsE [OF step_places(2)] by blast
next
  case (abort s ids z t)
  then show ?case using keepsE [OF step_places(3)] by blast
next
  case (release s r x ost)
  then have "resident_seq_ids ost \<subseteq> resident_seq_ids (oracle_state s)" by (auto dest: released_residents)
  with release show ?case using places_subset [of 0 s "s\<lparr>oracle_state := ost\<rparr>"] by simp
qed

lemma serving_residents:
  "serving se rt s \<Longrightarrow> 0 \<le> max_num_seqs_in_gpu rt
    \<Longrightarrow> finite (resident_seq_ids (oracle_state s)) \<and> int (card (resident_seq_ids (oracle_state s))) \<le> max_num_seqs_in_gpu rt"
  using serving_places by (simp add: places_def)

end

section \<open>Properties\<close>


text \<open>
  C40. Cleanup: releasing a request calls the cache manager, the prefix coordinator and the recurrent state manager
  in this order, each of them even when one before it has raised; the decode reservation and the place of the request
  are always given back, and the last exception is the one that is reported.
\<close>

theorem free_seq_releases_everything:
  "\<exists>x1 m1 x2 m2 x3 m3. cm_free_seq (cache_manager e) r (manager s) = (x1, m1)
     \<and> (case prefix_cache_coordinator e of None \<Rightarrow> ret () | Some pc \<Rightarrow> pc_release_seq pc r) m1 = (x2, m2)
     \<and> (case recurrent_free_seq e of None \<Rightarrow> ret () | Some f \<Rightarrow> f r) m2 = (x3, m3)
     \<and> rt_free_seq e r s = (case (x3, x2) of (Inl err, _) \<Rightarrow> Inl err | (_, Inl err) \<Rightarrow> Inl err | _ \<Rightarrow> x1,
         \<lparr>manager = m3, decode_reservations = release_window r (decode_reservations s), resident_seq_ids = resident_seq_ids s - {r}\<rparr>)"
  by (rule released_parts [of e r s]) blast

text \<open>
  Block boundaries: with a prefix cache, any chunk that fits the step capacity that the runtime reports for a request
  lies in one prefix block and in the prompt, so that a chunk never ends inside the block after the one it starts in.
\<close>

theorem prefill_chunk_within_block:
  assumes "prefix_cache_coordinator e = Some pc" "0 < pc_block_size pc"
    "rt_prefill_step_free_slots_for e q heap s = (Inr n, t)" "0 < chunk" "chunk \<le> n"
  shows "let start = max (num_prefilled_tokens q) (prefix_cache_hit_len q) in
    (start + chunk - 1) div pc_block_size pc = start div pc_block_size pc \<and> start + chunk \<le> num_prompt_tokens q"
proof -
  define B where "B = pc_block_size pc"
  define start where "start = max (num_prefilled_tokens q) (prefix_cache_hit_len q)"
  have "n \<le> mixed_prefix_boundary_limit e q"
    using assms(1,3) by (auto simp: rt_prefill_step_free_slots_for_def obind_def split: prod.splits sum.splits)
  then have lim: "chunk \<le> mixed_prefix_boundary_limit e q" using assms(5) by simp
  have B: "0 < B" using assms(2) by (simp add: B_def)
  have m: "start mod B < B" "0 \<le> start mod B" using B by simp_all
  have fits: "chunk \<le> num_prompt_tokens q - start" "chunk \<le> B - start mod B"
    using lim assms(1,2,4) m [unfolded B_def start_def] by (auto simp: mixed_prefix_boundary_limit_def Let_def B_def start_def split: if_splits)
  have "0 \<le> start mod B + chunk - 1" "start mod B + chunk - 1 < B" using fits(2) m assms(4) by linarith+
  then have "(start + chunk - 1) div B = start div B"
    by (intro int_div_pos_eq [of _ B "start div B" "start mod B + chunk - 1"]) simp_all
  with fits(1) show ?thesis unfolding Let_def B_def start_def by simp
qed

text \<open>An engine with one place for resident requests, and two requests: the second one is deferred.\<close>

abbreviation tiny_runtime :: "(nat, int base_state, unit, nat, nat) runtime_env" where
  "tiny_runtime \<equiv> base_runtime 1 4 (\<lambda>n. n) (\<lambda>_. ret ()) [0]"

abbreviation tiny_engine :: "(nat, int base_state runtime, unit, nat + nat) sched_env" where
  "tiny_engine \<equiv> create_scheduler 4 8 4 0 4 [2] tiny_runtime"

definition tiny_start :: "(nat, int base_state runtime) scheduler" where
  "tiny_start = init_scheduler (\<lambda>_. init_sequence 1 [3, 4] sample_params)
     \<lparr>manager = \<lparr>raw_offload_prefill_phases = None, physical = 20\<rparr>, decode_reservations = \<lparr>window = 4, reserved_ends = []\<rparr>, resident_seq_ids = {}\<rparr> (\<lambda>_. 0)"

definition tiny_submit :: "nat \<Rightarrow> (nat, int base_state runtime) scheduler \<Rightarrow> (nat, int base_state runtime) scheduler" where
  "tiny_submit r s = snd (add_request r (s\<lparr>requests := (requests s)(r := init_sequence r [3, 4] sample_params)\<rparr>))"

lemma tiny_fields:
  "max_num_seqs_in_batch tiny_engine = 4" "max_num_batched_tokens tiny_engine = 8" "max_decoding_seqs tiny_engine = 4"
  "favor_min_decoding_seqs tiny_engine = 0" "engine_prefill_chunk_size tiny_engine = 4"
  "memory_oracle tiny_engine = runtime_oracle tiny_runtime"
  "prefix_cache_hit_refresher tiny_engine = rt_refresh_prefix_cache_hit tiny_runtime" "prefix_cache_hits_refresher tiny_engine = None"
  "decode_capacity_reclaimer tiny_engine = Some (\<lambda>r. ret (Some r))" "prefill_capacity_reclaimer tiny_engine = Some (\<lambda>_. ret False)"
  by (simp_all add: create_scheduler_def resolve_refresher_def runtime_oracle_def)

lemma tiny_runtime_fields:
  "max_num_seqs_in_gpu tiny_runtime = 1" "rt_prefill_chunk_size tiny_runtime = 4" "cache_manager tiny_runtime = base_manager (\<lambda>n. n) (\<lambda>_. ret ()) [0]"
  "prefix_cache_coordinator tiny_runtime = None" "chain_cache_coordinator tiny_runtime = None" "recurrent_free_seq tiny_runtime = None"
  by (simp_all add: base_runtime_def)

lemmas tiny_run = tiny_fields tiny_runtime_fields runtime_oracle_def base_manager_def tiny_start_def tiny_submit_def on_manager_def
  rt_prefill_step_free_slots_def rt_prompt_admission_free_slots_def rt_prefill_step_free_slots_for_def rt_decode_step_free_slots_def
  rt_prefill_execution_mode_def rt_prompt_admission_budgets_def rt_prompt_logical_reservation_cost_def rt_prompt_admission_costs_def
  rt_prompt_admission_shared_costs_def rt_on_prompt_admitted_def rt_refresh_prefix_cache_hit_def rt_reserve_decode_windows_def
  acquire_windows_def rt_outstanding_def outstanding_def mixed_prefix_step_reclaimable_slots_def
  mixed_prefix_admission_reclaimable_slots_def capacity_after_reservations_def add_evictable_def reserved_budget_def add_hit_slots_def
  hit_evictable_slots_def manager_hook_def base_remaining_prefill_tokens_def base_reserved_prefill_slots_def
  base_prompt_admission_cost_def base_prompt_admission_budgets_def seq_clear_prefix_hit_def amount_def refuse_admission_def

lemma tiny_step:
  "fst (schedule tiny_engine (tiny_submit 2 (tiny_submit 1 tiny_start))) = Inr ([1], True, [])"
  "resident_seq_ids (oracle_state (snd (schedule tiny_engine (tiny_submit 2 (tiny_submit 1 tiny_start))))) = {1}"
  by (simp_all add: tiny_run sched_run cong: obind_lazy oseq_lazy)


text \<open>A prefix cache with blocks of four tokens: a prompt of seven tokens of which two are computed.\<close>

definition block_runtime :: "(nat, int base_state, unit, nat, nat) runtime_env" where
  "block_runtime = tiny_runtime\<lparr>prefix_cache_coordinator := Some \<lparr>pc_block_size = 4, pc_step_reclaimable_slots = ret 3,
     pc_admission_reclaimable_slots = ret 3, pc_prefix_hit_evictable_slots = (\<lambda>_. ret 0), pc_prefix_hit_shared_costs = (\<lambda>_. ret []),
     pc_refresh_prefix_cache_hit = ret (), pc_evict_for_slots = (\<lambda>_. ret ()), pc_release_seq = (\<lambda>_. ret ()), pc_stats = ret []\<rparr>\<rparr>"

theorem prefill_chunk_within_block_witness:
  "let q = (init_sequence 1 [3, 4, 5, 6, 7, 8, 9] sample_params)\<lparr>num_prefilled_tokens := 2\<rparr> in
   fst (rt_prefill_step_free_slots_for block_runtime q (\<lambda>_. q) (oracle_state tiny_start)) = Inr 2
   \<and> (2 + 2 - 1) div (4 :: int) = 2 div 4 \<and> 2 + 2 \<le> num_prompt_tokens q"
proof -
  define q where "q = (init_sequence 1 [3, 4, 5, 6, 7, 8, 9] sample_params :: nat sequence)\<lparr>num_prefilled_tokens := 2\<rparr>"
  have fields: "num_prefilled_tokens q = 2" "prefix_cache_hit_len q = 0" "num_prompt_tokens q = 7"
    by (simp_all add: q_def init_sequence_def sample_params_def)
  obtain pc where pc: "prefix_cache_coordinator block_runtime = Some pc" "pc_block_size pc = 4"
    by (simp add: block_runtime_def)
  have run: "fst (rt_prefill_step_free_slots_for block_runtime q (\<lambda>_. q) (oracle_state tiny_start)) = Inr 2"
    by (simp add: rt_prefill_step_free_slots_for_def block_runtime_def tiny_runtime_fields base_manager_def on_manager_def run_obind
        mixed_prefix_step_reclaimable_slots_def mixed_prefix_boundary_limit_def fields tiny_start_def init_scheduler_def)
  obtain t where t: "rt_prefill_step_free_slots_for block_runtime q (\<lambda>_. q) (oracle_state tiny_start) = (Inr 2, t)"
    using run by (metis prod.collapse)
  show ?thesis
    using prefill_chunk_within_block [OF pc(1) _ t, of 2] pc(2) run fields unfolding Let_def q_def [symmetric] by simp
qed

end
