(* ===== verification/Chain_Runtime.thy ===== *)
theory Chain_Runtime
  imports Chain_Backing Runtime_Laws
begin

text \<open>
  Chains in the runtime state (the \<open>chain_\<close> methods of \<open>RuntimeState\<close>, \<^verbatim>\<open>engine/runtime_state.py\<close>): the
  coordinator joined with the decode reservations and the resident set.  Admission and the end of a turn
  roll back when the device fails.
\<close>

section \<open>Operations\<close>

text \<open>\<open>try: m except Exception: n; raise\<close>; an exception of the handler replaces the first one.\<close>

definition try_reraise :: "('s, 'a) op \<Rightarrow> ('s, 'b) op \<Rightarrow> ('s, 'a) op" where
  "try_reraise m n s = (case m s of (Inr x, s1) \<Rightarrow> (Inr x, s1)
     | (Inl err, s1) \<Rightarrow> (case n s1 of (Inl err', s2) \<Rightarrow> (Inl err', s2) | (Inr _, s2) \<Rightarrow> (Inl err, s2)))"

definition owner_of :: "string \<Rightarrow> ('p chain_cache runtime, nat) op" where
  "owner_of c = obind (on_manager (on_index (chain_lookup c))) (\<lambda>r. ret (rec_seq_id r))"

text \<open>A failed restore must not leave an active writer or a reservation.\<close>

definition undo_admission :: "string \<Rightarrow> ('p chain_cache, unit) op" where
  "undo_admission c = on_index (oseq (set_record_state c Idle) (update_record c (\<lambda>r. r\<lparr>reserved_slots_by_layer := [], reserved_rows := 0\<rparr>)))"

definition chain_apply_admission :: "('p, 't) chain_hooks \<Rightarrow> ('d, 'p chain_cache, 'k, 'c, 'x) runtime_env \<Rightarrow> chain_plan \<Rightarrow> ('p chain_cache runtime, chain_record) op" where
  "chain_apply_admission h e p =
     obind (omap owner_of (victim_chain_ids p)) (\<lambda>victims.
     obind (on_manager (coordinator_apply h p)) (\<lambda>c.
     oseq (ofor (demote_chain_ids p) (\<lambda>v. obind (owner_of v) (\<lambda>q. writes (\<lambda>s. s\<lparr>resident_seq_ids := resident_seq_ids s - {q}\<rparr>))))
     (oseq (ofor victims (free_seq_payload e))
     (oseq (on_manager (try_reraise (prepare_resumed_chain h c) (if plan_status p = ''resumed'' then undo_admission c else ret ())))
     (oseq (if plan_status p = ''resumed'' then obind (owner_of c) (\<lambda>q. writes (\<lambda>s. s\<lparr>resident_seq_ids := insert q (resident_seq_ids s)\<rparr>)) else ret ())
     (on_manager (on_index (chain_lookup c))))))))"

definition chain_finish :: "('p, 't) chain_hooks \<Rightarrow> ('d, 'p chain_cache, 'k, 'c, 'x) runtime_env \<Rightarrow> string \<Rightarrow> nat \<Rightarrow> bytes \<Rightarrow> int \<Rightarrow> ('p chain_cache runtime, chain_record) op" where
  "chain_finish h e c q dig n =
     obind (on_manager (on_index (chain_lookup c))) (\<lambda>r.
     oseq (raise_if (rec_seq_id r \<noteq> q) (ChainCacheError ChainOwnerMismatch ''Chain owner mismatch''))
     (oseq (raise_if (rec_state r \<noteq> Active) (ChainCacheError ChainBusy ''Only an ACTIVE chain turn may finish.''))
     (oseq (try_reraise
       (oseq (on_manager (on_payload (hook_turn_finished h q n)))
       (oseq (on_reservations (writes (release_window q)))
       (oseq (on_manager (finish_values h c q dig n)) (on_manager (save_finished_chain h c)))))
       (oseq (on_manager (coordinator_invalidate h c)) (free_seq_payload e q)))
     (on_manager (on_index (chain_lookup c))))))"

definition chain_resident :: "('p, 't) chain_hooks \<Rightarrow> nat \<Rightarrow> ('p, bool) op" where
  "chain_resident h q = (case hook_has_residency h of Some f \<Rightarrow> f q | None \<Rightarrow> raise_error (AttributeError ''chain_has_residency''))"

text \<open>Before the rows are freed the snapshot is waited for or dropped; afterwards the chain is kept without rows or evicted.\<close>

definition secure_rows :: "('p, 't) chain_hooks \<Rightarrow> nat \<Rightarrow> bool \<Rightarrow> ('p chain_cache, unit) op" where
  "secure_rows h q demote = (if demote then (case offload h of
       None \<Rightarrow> raise_error (RuntimeError ''Cannot demote a chain without a valid CPU snapshot.'')
     | Some d \<Rightarrow> obind (on_host (wait_snapshot d q)) (\<lambda>n.
         raise_if (\<not> snap_valid n) (RuntimeError ''Cannot demote a chain without a valid CPU snapshot.'')))
     else when_offload h (\<lambda>d. on_host (drop_snapshot d q)))"

definition give_up_rows :: "string \<Rightarrow> bool \<Rightarrow> unit chain_op" where
  "give_up_rows c demote = (if demote then update_record c (\<lambda>r. r\<lparr>resident_rows := 0\<rparr>) else oseq (evict_chain c) (ret ()))"

definition chain_reclaim_idle :: "('p, 't) chain_hooks \<Rightarrow> ('d, 'p chain_cache, 'k, 'c, 'x) runtime_env \<Rightarrow> string \<Rightarrow> nat \<Rightarrow> bool \<Rightarrow> ('p chain_cache runtime, string \<times> nat \<times> bool) op" where
  "chain_reclaim_idle h e c q demote =
     obind (on_manager (on_index (chain_lookup c))) (\<lambda>r.
     oseq (raise_if (rec_seq_id r \<noteq> q) (ChainCacheError ChainOwnerMismatch ''Chain owner changed before reclaim''))
     (oseq (raise_if (rec_state r \<noteq> Idle) (ChainCacheError ChainBusy ''Cannot reclaim an ACTIVE chain.''))
     (obind (if resident_rows r \<le> 0 then ret False else on_manager (on_payload (chain_resident h (rec_seq_id r)))) (\<lambda>resident.
     oseq (raise_if (\<not> resident) (RuntimeError ''Chain has no resident KV to reclaim.''))
     (oseq (on_manager (secure_rows h (rec_seq_id r) demote))
     (oseq (free_seq_payload e (rec_seq_id r))
     (oseq (on_manager (on_index (give_up_rows c demote)))
     (ret (c, rec_seq_id r, demote)))))))))"

definition chain_invalidate :: "('p, 't) chain_hooks \<Rightarrow> ('d, 'p chain_cache, 'k, 'c, 'x) runtime_env \<Rightarrow> string \<Rightarrow> nat option \<Rightarrow> ('p chain_cache runtime, string \<times> nat) op" where
  "chain_invalidate h e c expected =
     obind (on_manager (on_index (chain_lookup c))) (\<lambda>r.
     oseq (raise_if (case expected of None \<Rightarrow> False | Some q \<Rightarrow> rec_seq_id r \<noteq> q) (ChainCacheError ChainOwnerMismatch ''Chain owner mismatch''))
     (obind (on_manager (coordinator_invalidate h c)) (\<lambda>r.
     oseq (free_seq_payload e (rec_seq_id r)) (ret (rec_chain_id r, rec_seq_id r)))))"

definition chain_validate_admission_plan :: "('p, 't) chain_hooks \<Rightarrow> chain_plan \<Rightarrow> int \<Rightarrow> bytes \<Rightarrow> ('p chain_cache runtime, chain_plan) op" where
  "chain_validate_admission_plan h p count' digest = on_manager (validate_admission_plan h p count' digest)"

section \<open>What the manager may touch\<close>

text \<open>Freeing a request works on the payload: it leaves the index and the snapshots alone.\<close>

definition payload_only :: "('p chain_cache, 'a) op \<Rightarrow> bool" where
  "payload_only f \<longleftrightarrow> (\<forall>s. chains (snd (f s)) = chains s \<and> (\<exists>p. host (snd (f s)) = host s\<lparr>kv_payload := p\<rparr>))"

definition frees_payload :: "('d, 'p chain_cache, 'k, 'c, 'x) runtime_env \<Rightarrow> bool" where
  "frees_payload e \<longleftrightarrow> (\<forall>q. payload_only (cm_free_seq (cache_manager e) q))
     \<and> (\<forall>pc q. prefix_cache_coordinator e = Some pc \<longrightarrow> payload_only (pc_release_seq pc q))
     \<and> (\<forall>f q. recurrent_free_seq e = Some f \<longrightarrow> payload_only (f q))"

lemma sound_payload_only: "payload_only f \<Longrightarrow> keeps (sound A V) f"
  by (rule keepsI) (auto simp: payload_only_def sound_def backed_def, (metis saved_payload subsetD)?)

lemma keeps_on_manager [keeps_intro]: "keeps P f \<Longrightarrow> keeps (\<lambda>s. P (manager s)) (on_manager f)"
  by (rule keepsI) (auto simp: on_manager_def dest: keepsD split: prod.split)

lemma keeps_on_reservations [keeps_intro]: "keeps (\<lambda>s. P (manager s)) (on_reservations f)"
  by (rule keepsI) (simp add: on_reservations_def split: prod.split)

lemma keeps_try_finally [keeps_intro]: "keeps P m \<Longrightarrow> keeps P n \<Longrightarrow> keeps P (try_finally m n)"
  by (auto simp: keeps_def try_finally_def split: prod.splits sum.splits)

lemma keeps_try_reraise [keeps_intro]: "keeps P m \<Longrightarrow> keeps P n \<Longrightarrow> keeps P (try_reraise m n)"
  by (auto simp: keeps_def try_reraise_def split: prod.splits sum.splits)

lemma keeps_residents [keeps_intro]: "keeps (\<lambda>s. P (manager s)) (writes (\<lambda>s. s\<lparr>resident_seq_ids := f s\<rparr>))"
  by (rule keeps_writes) simp

lemma free_keeps:
  assumes "frees_payload e" "\<And>f :: ('p chain_cache, unit) op. payload_only f \<Longrightarrow> keeps P f"
  shows "keeps (\<lambda>s. P (manager s)) (free_seq_payload e q)"
proof -
  have "keeps (\<lambda>s. P (manager s)) (case prefix_cache_coordinator e of None \<Rightarrow> ret () | Some pc \<Rightarrow> on_manager (pc_release_seq pc q))"
    using assms by (cases "prefix_cache_coordinator e") (auto simp: frees_payload_def intro!: keeps_ret keeps_on_manager)
  moreover have "keeps (\<lambda>s. P (manager s)) (case recurrent_free_seq e of None \<Rightarrow> ret () | Some f \<Rightarrow> on_manager (f q))"
    using assms by (cases "recurrent_free_seq e") (auto simp: frees_payload_def intro!: keeps_ret keeps_on_manager)
  moreover have "keeps (\<lambda>s. P (manager s)) (on_manager (cm_free_seq (cache_manager e) q))"
    using assms by (auto simp: frees_payload_def intro!: keeps_on_manager)
  ultimately show ?thesis
    unfolding free_seq_payload_def by (intro keeps_oseq keeps_on_reservations keeps_try_finally keeps_residents)
qed

section \<open>Chains stay backed\<close>

abbreviation chains_sound :: "'p chain_cache runtime \<Rightarrow> bool" where
  "chains_sound s \<equiv> sound {} {} (manager s)"

lemma run_on_manager: "on_manager f s = (fst (f (manager s)), s\<lparr>manager := snd (f (manager s))\<rparr>)"
  by (simp add: on_manager_def split: prod.splits)

lemma chains_sound_lookup: "keeps (\<lambda>s. P (manager s)) (on_manager (on_index (chain_lookup c)))"
  by (rule keepsI) (simp add: run_on_manager run_on_index run_lookup)

lemma owner_keeps [keeps_intro]: "keeps (\<lambda>s. P (manager s)) (owner_of c)"
  unfolding owner_of_def by (intro keeps_obind keeps_ret chains_sound_lookup)

abbreviation chain_at :: "string \<Rightarrow> chain_record \<Rightarrow> 'p chain_cache \<Rightarrow> bool" where
  "chain_at c r m \<equiv> map_of (chain_records (chains m)) c = Some r"

lemma payload_only_other: "payload_only f \<Longrightarrow> keeps (\<lambda>m. P (chains m) (saved (host m))) f"
  unfolding payload_only_def keeps_def by (metis saved_payload)

lemma chain_found_or_raises:
  assumes "P s" "\<And>r. chain_at c r (manager s) \<Longrightarrow> P (snd (f r s))"
  shows "P (snd (obind (on_manager (on_index (chain_lookup c))) f s))"
proof (cases rule: lookup_cases [where s = "chains (manager s)" and c = c])
  case (found r)
  then show ?thesis using assms(2) by (simp add: obind_def run_on_manager run_on_index)
next
  case (absent err)
  then show ?thesis using assms(1) by (simp add: obind_def run_on_manager run_on_index)
qed

lemma after_check: "P s \<Longrightarrow> P (snd (m s)) \<Longrightarrow> P (snd (oseq (raise_if b err) m s))"
  by (simp add: oseq_def obind_def)

lemma sound_undo:
  assumes s: "sound {c} {} s" and r: "chain_at c r s"
  shows "sound {} {} (snd (undo_admission c s))"
proof -
  let ?f = "\<lambda>r. r\<lparr>rec_state := Idle, reserved_slots_by_layer := [], reserved_rows := 0\<rparr>" and ?i = "chains s"
  let ?j = "altered c ?f (remove1 c (active_chain_ids ?i)) (token_history_tokens ?i) (chain_clock ?i) None ?i"
  have run: "snd (undo_admission c s) = s\<lparr>chains := ?j\<rparr>"
    by (simp add: undo_admission_def run_on_index oseq_def obind_def set_record_state_def update_record_def altered_def)
  have ok: "chain_ok ?i" using s by (simp add: sound_def)
  have "chain_ok ?j" by (rule altered_ok [OF ok r]) (use settled [OF ok r] history_within [OF ok] in auto)
  moreover have "cpu_only {} ?j \<subseteq> cpu_only {c} ?i"
  proof -
    have "cpu_only {} (?i\<lparr>chain_records := alter c ?f (chain_records ?i)\<rparr>) \<subseteq> cpu_only {c} ?i" by (rule cpu_only_alter) auto
    then show ?thesis using cpu_only_records [of ?j "?i\<lparr>chain_records := alter c ?f (chain_records ?i)\<rparr>"] by (simp add: altered_def)
  qed
  ultimately show ?thesis using s run by (auto simp: sound_def backed_def residents_def)
qed

lemma present_prepare: "keeps (\<lambda>s. map_of (chain_records (chains s)) c \<noteq> None) (prepare_resumed_chain h c)"
proof -
  let ?P = "\<lambda>i. map_of (chain_records i) c \<noteq> None"
  have "keeps ?P (update_record c restored_as)" by (rule keepsI) (simp add: update_record_def)
  then show ?thesis
    unfolding prepare_resumed_chain_def
    by (intro keeps_when_offload keeps_obind keeps_oseq keeps_if keeps_ret keeps_on_host_index [where P = ?P] keeps_on_index [where P = ?P] keeps_lookup)
qed

text \<open>Outcomes: what holds after a normal return and what after an exception.\<close>

definition outcome :: "('s \<Rightarrow> bool) \<Rightarrow> ('s, 'a) op \<Rightarrow> ('a \<Rightarrow> 's \<Rightarrow> bool) \<Rightarrow> ('s \<Rightarrow> bool) \<Rightarrow> bool" where
  "outcome P m Q E \<longleftrightarrow> (\<forall>s t. P s \<longrightarrow> (\<forall>x. m s = (Inr x, t) \<longrightarrow> Q x t) \<and> (\<forall>err. m s = (Inl err, t) \<longrightarrow> E t))"

lemma outcomeI: "(\<And>s t x. P s \<Longrightarrow> m s = (Inr x, t) \<Longrightarrow> Q x t) \<Longrightarrow> (\<And>s t err. P s \<Longrightarrow> m s = (Inl err, t) \<Longrightarrow> E t) \<Longrightarrow> outcome P m Q E"
  by (simp add: outcome_def)

lemma outcomeD: "outcome P m Q E \<Longrightarrow> P s \<Longrightarrow> m s = (Inr x, t) \<Longrightarrow> Q x t" "outcome P m Q E \<Longrightarrow> P s \<Longrightarrow> m s = (Inl err, t) \<Longrightarrow> E t"
  unfolding outcome_def by blast+

lemma outcome_keeps: "keeps P m \<Longrightarrow> (\<And>s. P s \<Longrightarrow> E s) \<Longrightarrow> outcome P m (\<lambda>_. P) E"
  by (rule outcomeI) (blast dest: keepsE)+

lemma outcome_state: "(\<And>s. P s \<Longrightarrow> Q (snd (m s))) \<Longrightarrow> outcome P m (\<lambda>_. Q) Q"
  unfolding outcome_def by (metis snd_conv)

lemma outcome_obind:
  assumes "outcome P m Q E" "\<And>x. outcome (Q x) (f x) R E"
  shows "outcome P (obind m f) R E"
proof (rule outcomeI)
  fix s t y
  assume "P s" "obind m f s = (Inr y, t)"
  moreover then obtain x u where "m s = (Inr x, u)" "f x u = (Inr y, t)" by (auto simp: obind_def split: prod.splits sum.splits)
  ultimately show "R y t" using assms by (blast dest: outcomeD)
next
  fix s t err
  assume s: "P s" and run: "obind m f s = (Inl err, t)"
  obtain z u where m: "m s = (z, u)" by fastforce
  show "E t"
  proof (cases z)
    case (Inl a)
    then show ?thesis using assms(1) s m run by (auto simp: obind_def dest: outcomeD)
  next
    case (Inr x)
    then have "Q x u" "f x u = (Inl err, t)" using outcomeD(1) [OF assms(1) s] m run by (auto simp: obind_def)
    then show ?thesis using outcomeD(2) [OF assms(2)] by blast
  qed
qed

lemma outcome_oseq: "outcome P m (\<lambda>_. Q) E \<Longrightarrow> outcome Q n R E \<Longrightarrow> outcome P (oseq m n) R E"
  unfolding oseq_def by (rule outcome_obind)

lemma outcome_weaken: "outcome P m Q E \<Longrightarrow> (\<And>s. P' s \<Longrightarrow> P s) \<Longrightarrow> (\<And>x s. Q x s \<Longrightarrow> Q' x s) \<Longrightarrow> outcome P' m Q' E"
  unfolding outcome_def by blast

lemma outcome_raising: "outcome P m Q E \<Longrightarrow> (\<And>s. E s \<Longrightarrow> E' s) \<Longrightarrow> outcome P m Q E'"
  unfolding outcome_def by blast

lemma outcome_on_manager: "outcome P m Q E \<Longrightarrow> outcome (\<lambda>s. P (manager s)) (on_manager m) (\<lambda>x s. Q x (manager s)) (\<lambda>s. E (manager s))"
  by (rule outcomeI) (auto simp: on_manager_def dest: outcomeD split: prod.splits)

lemma outcome_final: "outcome P m (\<lambda>_. E) E \<Longrightarrow> P s \<Longrightarrow> E (snd (m s))"
  by (cases "m s"; cases "fst (m s)") (auto dest: outcomeD)

lemma outcome_reraise: "outcome P m Q E \<Longrightarrow> outcome E n (\<lambda>_. F) F \<Longrightarrow> outcome P (try_reraise m n) Q F"
  by (rule outcomeI) (auto simp: try_reraise_def dest: outcomeD split: prod.splits sum.splits)

text \<open>The whole admission: demotion, eviction, restore, and the rollback when the restore fails.\<close>

abbreviation admitted :: "string \<Rightarrow> 'p chain_cache \<Rightarrow> bool" where
  "admitted c m \<equiv> sound {c} {} m \<and> map_of (chain_records (chains m)) c \<noteq> None"

lemma forget_residents: "sound {} V m \<Longrightarrow> sound {} {} m" by (blast intro: sound_weaken)

lemma admitted_sound: "admitted c m \<Longrightarrow> sound {} {} m" by (blast intro: sound_weaken)

lemma outcome_undo: "outcome (admitted c) (if resuming then undo_admission c else ret ()) (\<lambda>_. sound {} {}) (sound {} {})"
proof (rule outcome_state)
  fix m :: "'a chain_cache"
  assume m: "admitted c m"
  obtain r where "chain_at c r m" using m by blast
  then have "sound {} {} (snd (undo_admission c m))" using sound_undo m by blast
  moreover have "sound {} {} m" by (rule admitted_sound [OF m])
  ultimately show "sound {} {} (snd ((if resuming then undo_admission c else ret ()) m))" by (cases resuming) simp_all
qed

lemma outcome_prepare:
  fixes h :: "('a, 't) chain_hooks"
  shows "outcome (admitted c) (try_reraise (prepare_resumed_chain h c) (if resuming then undo_admission c else ret ())) (\<lambda>_. sound {} {}) (sound {} {})"
proof -
  have "keeps (admitted c) (prepare_resumed_chain h c)" by (rule keeps_conj [OF sound_prepare present_prepare])
  then have "outcome (admitted c) (prepare_resumed_chain h c) (\<lambda>_. admitted c) (admitted c)" by (rule outcome_keeps)
  then have "outcome (admitted c) (prepare_resumed_chain h c) (\<lambda>_. sound {} {}) (admitted c)" by (rule outcome_weaken) (auto intro: admitted_sound)
  then show ?thesis by (rule outcome_reraise [OF _ outcome_undo])
qed

lemma admitted_free: "frees_payload e \<Longrightarrow> keeps (\<lambda>s. admitted c (manager s)) (free_seq_payload e q)"
  by (rule free_keeps) (assumption, rule keeps_conj [OF sound_payload_only], assumption, rule payload_only_other)

lemma sound_admission:
  fixes s :: "'p chain_cache runtime"
  assumes e: "frees_payload e" and s: "chains_sound s" and fresh: "fresh_plan p (manager s)"
  shows "chains_sound (snd (chain_apply_admission h e p s))"
proof -
  let ?V = "set (victim_chain_ids p)" and ?A = "\<lambda>c s. admitted c (manager s)"
  have disj: "set (demote_chain_ids p) \<inter> ?V = {}" using fresh by (simp add: fresh_plan_def)
  have victims: "outcome (\<lambda>s. sound {} ?V (manager s)) (omap owner_of (victim_chain_ids p)) (\<lambda>_ s. sound {} ?V (manager s)) chains_sound"
    by (intro outcome_keeps keeps_omap owner_keeps) (rule forget_residents)
  have apply': "outcome (sound {} ?V) (coordinator_apply h p) admitted (sound {} {})"
    by (rule outcomeI) (use coordinator_apply_sound [OF _ disj] in blast)+
  have demoted: "outcome (?A c) (ofor (demote_chain_ids p) (\<lambda>v. obind (owner_of v) (\<lambda>q. writes (\<lambda>s. s\<lparr>resident_seq_ids := resident_seq_ids s - {q}\<rparr>)))) (\<lambda>_. ?A c) chains_sound" for c
    by (intro outcome_keeps keeps_ofor keeps_obind keeps_residents [where P = "admitted c"] owner_keeps [where P = "admitted c"]) (rule admitted_sound)
  have freed: "outcome (?A c) (ofor qs (free_seq_payload e)) (\<lambda>_. ?A c) chains_sound" for c qs
    by (intro outcome_keeps keeps_ofor admitted_free [OF e]) (rule admitted_sound)
  have resident: "outcome chains_sound (oseq (if plan_status p = ''resumed'' then obind (owner_of c) (\<lambda>q. writes (\<lambda>s. s\<lparr>resident_seq_ids := insert q (resident_seq_ids s)\<rparr>)) else ret ())
      (on_manager (on_index (chain_lookup c)))) (\<lambda>_. chains_sound) chains_sound" for c
    by (intro outcome_keeps keeps_oseq keeps_if keeps_obind keeps_ret owner_keeps keeps_residents chains_sound_lookup)
  have "outcome (\<lambda>s. sound {} ?V (manager s)) (chain_apply_admission h e p) (\<lambda>_. chains_sound) chains_sound"
    unfolding chain_apply_admission_def
    by (rule outcome_obind [OF victims], rule outcome_obind [OF outcome_on_manager [OF apply']], rule outcome_oseq [OF demoted],
        rule outcome_oseq [OF freed], rule outcome_oseq [OF outcome_on_manager [OF outcome_prepare]], rule resident)
  moreover have "sound {} ?V (manager s)" using s fresh by (simp add: fresh_plan_def sound_def)
  ultimately show ?thesis by (rule outcome_final)
qed

lemma sound_free: "frees_payload e \<Longrightarrow> keeps chains_sound (free_seq_payload e q)"
  by (rule free_keeps) (assumption, rule sound_payload_only)

lemma sound_finish:
  assumes e: "frees_payload e"
  shows "keeps chains_sound (chain_finish h e c q dig n)"
proof -
  have values': "outcome (sound {} {}) (finish_values h c q dig n) (\<lambda>_. sound {} {c}) (sound {} {})"
    by (rule outcomeI) (use finish_values_sound in blast)+
  have save: "outcome (sound {} {c}) (save_finished_chain h c) (\<lambda>_. sound {} {}) (sound {} {})"
    by (rule outcome_weaken [OF outcome_keeps [OF sound_save]]) (auto intro: forget_residents)
  have body: "outcome chains_sound (oseq (on_manager (on_payload (hook_turn_finished h q n))) (oseq (on_reservations (writes (release_window q)))
      (oseq (on_manager (finish_values h c q dig n)) (on_manager (save_finished_chain h c))))) (\<lambda>_. chains_sound) chains_sound"
    by (rule outcome_oseq [OF outcome_keeps [OF keeps_on_manager [OF sound_payload]]], assumption,
        rule outcome_oseq [OF outcome_keeps [OF keeps_on_reservations]], assumption,
        rule outcome_oseq [OF outcome_on_manager [OF values'] outcome_on_manager [OF save]])
  have handler: "outcome chains_sound (oseq (on_manager (coordinator_invalidate h c)) (free_seq_payload e q)) (\<lambda>_. chains_sound) chains_sound"
    by (rule outcome_keeps [OF keeps_oseq [OF keeps_on_manager [OF sound_invalidate] sound_free [OF e]]])
  note turn = keepsI [where P = chains_sound, OF outcome_final [OF outcome_reraise [OF body handler]]]
  show ?thesis
    unfolding chain_finish_def by (intro keeps_obind keeps_oseq keeps_raise_if chains_sound_lookup) (rule turn)
qed

lemma sound_runtime_invalidate: "frees_payload e \<Longrightarrow> keeps chains_sound (chain_invalidate h e c expected)"
  unfolding chain_invalidate_def
  by (intro keeps_obind keeps_oseq keeps_ret keeps_raise_if chains_sound_lookup keeps_on_manager sound_invalidate sound_free)

text \<open>Reclaiming gives up the rows only of a chain with a valid snapshot, or evicts the chain.\<close>

text \<open>The chain is there, and if it is to be demoted it has a valid snapshot.\<close>

definition secured :: "string \<Rightarrow> chain_record \<Rightarrow> bool \<Rightarrow> 'p chain_cache \<Rightarrow> bool" where
  "secured c r demote m \<longleftrightarrow> sound {} {} m \<and> chain_at c r m \<and> (demote \<longrightarrow> rec_seq_id r \<in> saved (host m))"

lemma outcome_secure:
  assumes rows: "0 < resident_rows r"
  shows "outcome (\<lambda>m. sound {} {} m \<and> chain_at c r m) (secure_rows h (rec_seq_id r) demote) (\<lambda>_. secured c r demote) (sound {} {})"
proof (cases "offload h")
  case None
  then show ?thesis by (intro outcomeI) (auto simp: secure_rows_def secured_def when_offload_def split: if_splits)
next
  case (Some d)
  show ?thesis
  proof (cases demote)
    case True
    have wait: "outcome (\<lambda>m. sound {} {} m \<and> chain_at c r m) (on_host (wait_snapshot d (rec_seq_id r)))
        (\<lambda>n m. sound {} {} m \<and> chain_at c r m \<and> (snap_valid n \<longrightarrow> rec_seq_id r \<in> saved (host m))) (sound {} {})"
    proof (rule outcomeI)
      fix m t n
      assume m: "sound {} {} m \<and> chain_at c r m" and run: "on_host (wait_snapshot d (rec_seq_id r)) m = (Inr n, t)"
      have "wait_snapshot d (rec_seq_id r) (host m) = (Inr n, host t)" using run by (auto simp: on_host_def split: prod.splits)
      then show "sound {} {} t \<and> chain_at c r t \<and> (snap_valid n \<longrightarrow> rec_seq_id r \<in> saved (host t))"
        using m sound_on_host [OF _ run saved_wait, of "{}" "{}"] wait_valid by auto
    next
      fix m t err
      assume "sound {} {} m \<and> chain_at c r m" "on_host (wait_snapshot d (rec_seq_id r)) m = (Inl err, t)"
      then show "sound {} {} t" using sound_on_host [OF _ _ saved_wait, of "{}" "{}"] by blast
    qed
    have "outcome (\<lambda>m. sound {} {} m \<and> chain_at c r m \<and> (snap_valid n \<longrightarrow> rec_seq_id r \<in> saved (host m)))
        (raise_if (\<not> snap_valid n) (RuntimeError ''Cannot demote a chain without a valid CPU snapshot.'')) (\<lambda>_. secured c r demote) (sound {} {})" for n
      by (rule outcomeI) (auto simp: secured_def split: if_splits)
    from outcome_obind [OF wait this] show ?thesis using True Some by (simp add: secure_rows_def)
  next
    case False
    have "sound {} {} (snd (on_host (drop_snapshot d (rec_seq_id r)) m)) \<and> chain_at c r (snd (on_host (drop_snapshot d (rec_seq_id r)) m))"
      if m: "sound {} {} m \<and> chain_at c r m" for m
      using sound_drop [of "{}" "{}" m c r d] rows m by simp
    then have "outcome (\<lambda>m. sound {} {} m \<and> chain_at c r m) (on_host (drop_snapshot d (rec_seq_id r)))
        (\<lambda>_ m. sound {} {} m \<and> chain_at c r m) (\<lambda>m. sound {} {} m \<and> chain_at c r m)"
      by (rule outcome_state)
    then have "outcome (\<lambda>m. sound {} {} m \<and> chain_at c r m) (on_host (drop_snapshot d (rec_seq_id r))) (\<lambda>_. secured c r demote) (\<lambda>m. sound {} {} m \<and> chain_at c r m)"
      by (rule outcome_weaken) (simp_all add: secured_def False)
    from outcome_raising [OF this] have "outcome (\<lambda>m. sound {} {} m \<and> chain_at c r m) (on_host (drop_snapshot d (rec_seq_id r))) (\<lambda>_. secured c r demote) (sound {} {})"
      by simp
    then show ?thesis using False Some by (simp add: secure_rows_def when_offload_def)
  qed
qed

lemma secured_free:
  fixes e :: "('d, 'p chain_cache, 'k, 'c, 'x) runtime_env"
  shows "frees_payload e \<Longrightarrow> keeps (\<lambda>s. secured c r demote (manager s)) (free_seq_payload e q)"
proof (rule free_keeps)
  fix f :: "('p chain_cache, unit) op"
  assume "payload_only f"
  then show "keeps (secured c r demote) f"
    unfolding secured_def
    by (intro keeps_conj sound_payload_only payload_only_other [where P = "\<lambda>i X. map_of (chain_records i) c = Some r"]
        payload_only_other [where P = "\<lambda>i X. demote \<longrightarrow> rec_seq_id r \<in> X"])
qed

lemma outcome_give_up: "outcome (secured c r demote) (on_index (give_up_rows c demote)) (\<lambda>_. sound {} {}) (sound {} {})"
proof (rule outcome_state)
  fix m :: "'a chain_cache"
  assume m: "secured c r demote m"
  show "sound {} {} (snd (on_index (give_up_rows c demote) m))"
  proof (cases demote)
    case True
    then show ?thesis using m sound_give_up [of "{}" m c r] by (simp add: secured_def give_up_rows_def)
  next
    case False
    have "keeps (idle_in {} X) (oseq (evict_chain c) (ret ()))" for X by (intro keeps_oseq idle_evict keeps_ret)
    then have "keeps (sound {} {}) (on_index (oseq (evict_chain c) (ret ())))" by (intro sound_index residents_none)
    then show ?thesis using False m by (auto simp: give_up_rows_def secured_def dest: keepsD)
  qed
qed

lemma sound_reclaim:
  fixes h :: "('p, 't) chain_hooks"
  assumes e: "frees_payload e"
  shows "keeps chains_sound (chain_reclaim_idle h e c q demote)"
proof (rule keepsI)
  fix s :: "'p chain_cache runtime"
  assume s: "chains_sound s"
  let ?at = "\<lambda>r m. sound {} {} m \<and> chain_at c r m"
  let ?main = "\<lambda>r. oseq (on_manager (secure_rows h (rec_seq_id r) demote)) (oseq (free_seq_payload e (rec_seq_id r))
     (oseq (on_manager (on_index (give_up_rows c demote))) (ret (c, rec_seq_id r, demote))))"
  have main: "outcome (\<lambda>s. ?at r (manager s)) (?main r) (\<lambda>_. chains_sound) chains_sound" if "0 < resident_rows r" for r
  proof (rule outcome_oseq [OF outcome_on_manager [OF outcome_secure [OF that]]], rule outcome_oseq [OF outcome_keeps [OF secured_free [OF e]]])
    show "outcome (\<lambda>s. secured c r demote (manager s)) (oseq (on_manager (on_index (give_up_rows c demote))) (ret (c, rec_seq_id r, demote))) (\<lambda>_. chains_sound) chains_sound"
      by (rule outcome_oseq [OF outcome_on_manager [OF outcome_give_up]]) (rule outcome_keeps [OF keeps_ret])
  qed (simp add: secured_def)
  have resident: "outcome (\<lambda>s. ?at r (manager s)) (if resident_rows r \<le> 0 then ret False else on_manager (on_payload (chain_resident h (rec_seq_id r))))
      (\<lambda>b s. ?at r (manager s) \<and> (b \<longrightarrow> 0 < resident_rows r)) chains_sound" for r
  proof (rule outcomeI)
    fix u t b
    assume u: "?at r (manager u)"
      and run: "(if resident_rows r \<le> 0 then ret False else on_manager (on_payload (chain_resident h (rec_seq_id r)))) u = (Inr b, t)"
    show "?at r (manager t) \<and> (b \<longrightarrow> 0 < resident_rows r)"
    proof (cases "resident_rows r \<le> 0")
      case False
      then have "on_manager (on_payload (chain_resident h (rec_seq_id r))) u = (Inr b, t)" using run by simp
      from keepsE [OF keeps_on_manager [OF keeps_conj [OF sound_payload [of "{}" "{}"] keeps_on_payload(1) [where P = "\<lambda>i. map_of (chain_records i) c = Some r"]]] this]
      have "?at r (manager t)" using u by simp
      then show ?thesis using False by simp
    qed (use u run in simp)
  next
    fix u t err
    assume u: "?at r (manager u)"
      and run: "(if resident_rows r \<le> 0 then ret False else on_manager (on_payload (chain_resident h (rec_seq_id r)))) u = (Inl err, t)"
    have "keeps chains_sound (if resident_rows r \<le> 0 then ret False else on_manager (on_payload (chain_resident h (rec_seq_id r))))"
      by (intro keeps_if keeps_ret keeps_on_manager sound_payload)
    then show "chains_sound t" using u run by (blast dest: keepsE)
  qed
  have check: "outcome (\<lambda>s. ?at r (manager s) \<and> (b \<longrightarrow> 0 < resident_rows r)) (oseq (raise_if (\<not> b) (RuntimeError ''Chain has no resident KV to reclaim.'')) (?main r))
      (\<lambda>_. chains_sound) chains_sound" for r b
  proof (cases "b \<and> 0 < resident_rows r")
    case True
    have "outcome (\<lambda>s. ?at r (manager s)) (raise_if (\<not> b) (RuntimeError ''Chain has no resident KV to reclaim.'')) (\<lambda>_ s. ?at r (manager s)) chains_sound"
      by (rule outcome_keeps [OF keeps_raise_if]) simp
    from outcome_oseq [OF this main] True show ?thesis by (auto intro: outcome_weaken)
  next
    case False
    have "oseq (raise_if (\<not> b) err) (?main r) s = (Inl err, s)" if "b \<longrightarrow> 0 < resident_rows r" for s err
      using False that by (auto simp: oseq_def obind_def)
    then show ?thesis by (intro outcomeI) auto
  qed
  show "chains_sound (snd (chain_reclaim_idle h e c q demote s))"
    unfolding chain_reclaim_idle_def
  proof (rule chain_found_or_raises [where P = chains_sound, OF s])
    fix r
    assume "chain_at c r (manager s)"
    with s have at: "?at r (manager s)" by simp
    have "chains_sound (snd (obind (if resident_rows r \<le> 0 then ret False else on_manager (on_payload (chain_resident h (rec_seq_id r)))) (\<lambda>resident.
       oseq (raise_if (\<not> resident) (RuntimeError ''Chain has no resident KV to reclaim.'')) (?main r)) s))"
      by (rule outcome_final [OF outcome_obind [OF resident check] at])
    then show "chains_sound (snd (oseq (raise_if (rec_seq_id r \<noteq> q) (ChainCacheError ChainOwnerMismatch ''Chain owner changed before reclaim''))
      (oseq (raise_if (rec_state r \<noteq> Idle) (ChainCacheError ChainBusy ''Cannot reclaim an ACTIVE chain.''))
      (obind (if resident_rows r \<le> 0 then ret False else on_manager (on_payload (chain_resident h (rec_seq_id r)))) (\<lambda>resident.
       oseq (raise_if (\<not> resident) (RuntimeError ''Chain has no resident KV to reclaim.'')) (?main r)))) s))"
      by (intro after_check [where P = chains_sound] s)
  qed
qed

section \<open>Serving chains\<close>

text \<open>
  The runtime with chains: an admission is validated and applied in one go; the other operations come in any order and may raise.
  The cache manager may do anything else to the payload at any time.
\<close>

inductive chain_serving :: "('p, 't) chain_hooks \<Rightarrow> ('d, 'p chain_cache, 'k, 'c, 'x) runtime_env \<Rightarrow> 'p chain_cache runtime \<Rightarrow> bool" for h e where
  start: "init_chain_index tombs history = Inr i \<Longrightarrow> offload h = Some d \<Longrightarrow> init_offload d p = Inr o' \<Longrightarrow> init_runtime \<lparr>chains = i, host = o'\<rparr> w = Inr s
    \<Longrightarrow> chain_serving h e s"
| plan: "chain_serving h e s \<Longrightarrow> on_manager (coordinator_plan h c q ts reserved) s = (x, t) \<Longrightarrow> chain_serving h e t"
| admit: "chain_serving h e s \<Longrightarrow> chain_validate_admission_plan h p count' digest s = (Inr p', t) \<Longrightarrow> chain_apply_admission h e p t = (x, u)
    \<Longrightarrow> chain_serving h e u"
| finish: "chain_serving h e s \<Longrightarrow> chain_finish h e c q digest n s = (x, t) \<Longrightarrow> chain_serving h e t"
| reclaim: "chain_serving h e s \<Longrightarrow> chain_reclaim_idle h e c q demote s = (x, t) \<Longrightarrow> chain_serving h e t"
| invalidate: "chain_serving h e s \<Longrightarrow> chain_invalidate h e c expected s = (x, t) \<Longrightarrow> chain_serving h e t"
| remember: "chain_serving h e s \<Longrightarrow> on_manager (remember_processed_tokens h c q ts n) s = (x, t) \<Longrightarrow> chain_serving h e t"
| compute: "chain_serving h e s \<Longrightarrow> payload_only f \<Longrightarrow> on_manager f s = (x :: unit result, t) \<Longrightarrow> chain_serving h e t"

lemma validated_fresh:
  assumes "chains_sound s" "chain_validate_admission_plan h p count' digest s = (Inr p', t)"
  shows "chains_sound t \<and> fresh_plan p (manager t)"
proof -
  obtain m where m: "validate_admission_plan h p count' digest (manager s) = (Inr p', m)" "t = s\<lparr>manager := m\<rparr>"
    using assms(2) by (auto simp: chain_validate_admission_plan_def on_manager_def split: prod.splits)
  have "plan_with h (plan_chain_id p) (plan_seq_id p) (PrefixDigest count' digest) (plan_decode_reserved_slots p) (manager s) = (Inr p, m)"
    using m(1) by (auto simp: validate_admission_plan_def obind_def oseq_def split: prod.splits sum.splits if_splits)
  then show ?thesis using keepsE [OF sound_plan] plan_with_fresh assms(1) m(2) by (fastforce simp: sound_def)
qed

lemma sound_remember: "keeps (sound {} {}) (remember_processed_tokens h c q ts n)"
proof -
  have prep: "keeps (sound {} {}) (on_index (prepare_token_history r ts n))" for r by (intro sound_index keeps_prepare)
  show ?thesis
    unfolding remember_processed_tokens_def prepare_processed_tokens_def remember_prepared_tokens_def
    by (intro keeps_obind keeps_oseq keeps_raise_if keeps_lift keeps_ret sound_keeps prep)
qed

lemma serving_sound:
  assumes "frees_payload e" "chain_serving h e s"
  shows "chains_sound s"
  using assms(2)
proof (induction rule: chain_serving.induct)
  case (start tombs history i d p o' w s)
  have "chain_ok i" "chain_records i = []" using start(1) init_chain_ok by (auto simp: init_chain_index_def split: if_splits)
  then have "sound {} {} \<lparr>chains = i, host = o'\<rparr>" by (simp add: sound_def backed_def cpu_only_def residents_def)
  then show ?case using start(4) by (auto simp: init_runtime_def rbind_def split: sum.splits)
next
  case (plan s c q ts reserved x t)
  then show ?case using keepsE [OF keeps_on_manager [OF sound_plan]] unfolding coordinator_plan_def by blast
next
  case (admit s p count' digest p' t x u)
  then show ?case using validated_fresh sound_admission [OF assms(1)] by (metis snd_conv)
next
  case (finish s c q digest n x t)
  then show ?case using keepsE [OF sound_finish [OF assms(1)]] by blast
next
  case (reclaim s c q demote x t)
  then show ?case using keepsE [OF sound_reclaim [OF assms(1)]] by blast
next
  case (invalidate s c expected x t)
  then show ?case using keepsE [OF sound_runtime_invalidate [OF assms(1)]] by blast
next
  case (remember s c q ts n x t)
  then show ?case using keepsE [OF keeps_on_manager [OF sound_remember]] by blast
next
  case (compute s f x t)
  then show ?case using keepsE [OF keeps_on_manager [OF sound_payload_only]] by blast
qed

section \<open>The host budget\<close>

lemma host_payload_only: "payload_only f \<Longrightarrow> keeps (host_ok h) f"
proof (rule keepsI)
  fix m
  assume f: "payload_only f" and m: "host_ok h m"
  obtain p where "host (snd (f m)) = host m\<lparr>kv_payload := p\<rparr>" using f unfolding payload_only_def by blast
  then show "host_ok h (snd (f m))" using m by (simp add: host_ok_def split: option.splits)
qed

abbreviation hosts_ok :: "('p, 't) chain_hooks \<Rightarrow> 'p chain_cache runtime \<Rightarrow> bool" where
  "hosts_ok h s \<equiv> host_ok h (manager s)"

lemma hosts_free: "frees_payload e \<Longrightarrow> keeps (hosts_ok h) (free_seq_payload e q)"
  by (rule free_keeps) (assumption, rule host_payload_only)

named_theorems runtime_host_keeps \<open>operations of the runtime that keep the host within its budget\<close>

lemmas hosts_ops [runtime_host_keeps] = keeps_obind keeps_oseq keeps_if keeps_ret keeps_raise_if keeps_omap keeps_ofor keeps_try_reraise
  owner_keeps [where P = "host_ok h" for h] chains_sound_lookup [where P = "host_ok h" for h] hosts_free
  keeps_residents [where P = "host_ok h" for h] keeps_on_reservations [where P = "host_ok h" for h] keeps_on_manager [where P = "host_ok h" for h]

lemma hosts_admission: "frees_payload e \<Longrightarrow> keeps (hosts_ok h) (chain_apply_admission h e p)"
  unfolding chain_apply_admission_def undo_admission_def by (intro runtime_host_keeps host_keeps)

lemma hosts_finish: "frees_payload e \<Longrightarrow> offload_sizes h \<Longrightarrow> keeps (hosts_ok h) (chain_finish h e c q dig n)"
  unfolding chain_finish_def by (intro runtime_host_keeps host_keeps)

lemma hosts_secure: "keeps (host_ok h) (secure_rows h q demote)"
  unfolding secure_rows_def when_offload_def by (auto intro!: keeps_intro host_keeps split: option.splits)

lemma hosts_reclaim: "frees_payload e \<Longrightarrow> keeps (hosts_ok h) (chain_reclaim_idle h e c q demote)"
  unfolding chain_reclaim_idle_def by (intro runtime_host_keeps host_keeps hosts_secure)

lemma hosts_invalidate: "frees_payload e \<Longrightarrow> keeps (hosts_ok h) (chain_invalidate h e c expected)"
  unfolding chain_invalidate_def by (intro runtime_host_keeps host_keeps)

lemma hosts_validate: "keeps (hosts_ok h) (chain_validate_admission_plan h p count' digest)"
  unfolding chain_validate_admission_plan_def validate_admission_plan_def by (intro runtime_host_keeps host_keeps)

lemma serving_hosts_ok:
  assumes "frees_payload e" "offload_sizes h" "chain_serving h e s"
  shows "hosts_ok h s"
  using assms(3)
proof (induction rule: chain_serving.induct)
  case (start tombs history i d p o' w s)
  then show ?case using init_offload_ok [OF start(3)] by (auto simp: init_runtime_def rbind_def host_ok_def split: sum.splits)
next
  case (plan s c q ts reserved x t)
  then show ?case using keepsE [OF keeps_on_manager [OF host_ok_plan]] unfolding coordinator_plan_def by blast
next
  case (admit s p count' digest p' t x u)
  then show ?case using keepsE [OF hosts_validate] keepsE [OF hosts_admission [OF assms(1)]] by blast
next
  case (finish s c q digest n x t)
  then show ?case using keepsE [OF hosts_finish [OF assms(1,2)]] by blast
next
  case (reclaim s c q demote x t)
  then show ?case using keepsE [OF hosts_reclaim [OF assms(1)]] by blast
next
  case (invalidate s c expected x t)
  then show ?case using keepsE [OF hosts_invalidate [OF assms(1)]] by blast
next
  case (remember s c q ts n x t)
  then show ?case using keepsE [OF keeps_on_manager [OF host_ok_remember]] by blast
next
  case (compute s f x t)
  then show ?case using keepsE [OF keeps_on_manager [OF host_payload_only]] by blast
qed


text \<open>
  C36. Host memory: at every moment of serving the snapshots are at most one per request, the bytes counted as used are the sum of their
  sizes, and they stay within the configured budget.
\<close>

theorem host_snapshots_within_budget:
  assumes "frees_payload e" "offload_sizes h" "chain_serving h e s" "offload h = Some d"
  shows "distinct (map fst (snapshots (host (manager s))))
    \<and> used_bytes (host (manager s)) = sum_list (map (\<lambda>kv. snap_nbytes (snd kv)) (snapshots (host (manager s))))
    \<and> used_bytes (host (manager s)) \<le> capacity_bytes d"
  using serving_hosts_ok [OF assms(1-3)] assms(4) by (simp add: host_ok_def offload_ok_def)

section \<open>A turn that fails\<close>

abbreviation owned :: "string \<Rightarrow> nat \<Rightarrow> chain_index \<Rightarrow> bool" where
  "owned c q i \<equiv> \<exists>r. map_of (chain_records i) c = Some r \<and> rec_seq_id r = q"

text \<open>Waiting for a submitted copy does not fail.\<close>

definition copies_complete :: "('p, 't) chain_hooks \<Rightarrow> bool" where
  "copies_complete h \<longleftrightarrow> (case offload h of None \<Rightarrow> True | Some d \<Rightarrow> \<forall>q p. \<exists>p'. synchronize_copy d q p = (Inr (), p'))"

lemma owned_finish_values: "keeps (\<lambda>m. owned c q (chains m)) (finish_values h c q' dig n)"
proof -
  have "keeps (owned c q) (finish_chain_digest c dig n slots 1)" for slots
  proof (rule keepsI)
    fix i
    assume "owned c q i"
    then obtain r where "map_of (chain_records i) c = Some r" "rec_seq_id r = q" by blast
    then show "owned c q (snd (finish_chain_digest c dig n slots 1 i))"
      by (simp add: run_finish_digest finished_def altered_def finished_as_def)
  qed
  then show ?thesis
    unfolding finish_values_def physical_slots_now_def
    by (auto intro!: keeps_obind keeps_oseq keeps_ret keeps_raise_if keeps_on_index [where P = "owned c q"] keeps_on_payload(1) [where P = "owned c q"] keeps_lookup
        split: option.splits)
qed

lemma owned_save:
  fixes h :: "('p, 't) chain_hooks"
  shows "keeps (\<lambda>m. owned c q (chains m)) (save_finished_chain h c)"
proof -
  have room: "keeps (\<lambda>m. owned c q (chains m)) (obind (reads (\<lambda>s. if over_budget d old_bytes required s then snapshot_victims c s else [])) (make_room d old_bytes required))"
    for d :: "('p, 't) offload_device" and old_bytes required
  proof (rule keepsI)
    fix m :: "'p chain_cache"
    assume "owned c q (chains m)"
    then obtain r where r: "chain_at c r m" "rec_seq_id r = q" by blast
    have "c \<notin> rec_chain_id ` set (snapshot_victims c m)" by (auto simp: snapshot_victims_def)
    from keepsD [OF room_other [OF this, of "Some r" d old_bytes required] r(1)] r
    show "owned c q (chains (snd (obind (reads (\<lambda>s. if over_budget d old_bytes required s then snapshot_victims c s else [])) (make_room d old_bytes required) m)))"
      by (auto simp: obind_def)
  qed
  show ?thesis
    unfolding save_finished_chain_def obind_oseq
    by (intro keeps_when_offload keeps_obind keeps_oseq keeps_raise_if keeps_reads room keeps_on_index [where P = "owned c q"] keeps_lookup
        keeps_on_payload(1) [where P = "owned c q"] keeps_on_host_index [where P = "owned c q"])
qed

lemma drop_completes:
  assumes "copies_complete h" "offload h = Some d"
  shows "\<exists>t. drop_snapshot d q s = (Inr (), t) \<and> map_of (snapshots t) q = None"
proof (cases "map_of (snapshots s) q")
  case None
  then show ?thesis by (simp add: drop_snapshot_def obind_def)
next
  case (Some n)
  obtain p where "synchronize_copy d q (kv_payload s) = (Inr (), p)"
    using assms by (auto simp: copies_complete_def)
  then show ?thesis
    using Some by (auto simp: drop_snapshot_def wait_snapshot_def obind_def oseq_def on_device_def delete_conv')
qed

lemma invalidate_completes:
  assumes "copies_complete h" "owned c q (chains m)"
  shows "\<exists>r t. coordinator_invalidate h c m = (Inr r, t) \<and> map_of (chain_records (chains t)) c = None
    \<and> (offload h \<noteq> None \<longrightarrow> map_of (snapshots (host t)) q = None)"
proof -
  obtain r where r: "map_of (chain_records (chains m)) c = Some r" "rec_seq_id r = q" using assms(2) by blast
  note inv = run_invalidate [OF r(1)]
  have gone: "map_of (chain_records (removed name c r i)) c = None" for name i by (simp add: removed_fields delete_conv')
  show ?thesis
  proof (cases "offload h")
    case None
    then show ?thesis using r inv gone by (simp add: coordinator_invalidate_def when_offload_def oseq_def obind_def run_on_index)
  next
    case (Some d)
    obtain t where t: "drop_snapshot d q (host m) = (Inr (), t)" "map_of (snapshots t) q = None" using drop_completes [OF assms(1) Some] by blast
    then have "on_host (drop_snapshot d q) m = (Inr (), m\<lparr>host := t\<rparr>)" by (simp add: on_host_def)
    then show ?thesis
      using r inv gone t(2) Some by (simp add: coordinator_invalidate_def when_offload_def oseq_def obind_def run_on_index run_lookup)
  qed
qed

lemma free_leaves_chains:
  fixes e :: "('d, 'p chain_cache, 'k, 'c, 'x) runtime_env" and s :: "'p chain_cache runtime"
  assumes "frees_payload e"
  shows "chains (manager (snd (free_seq_payload e q s))) = chains (manager s) \<and> snapshots (host (manager (snd (free_seq_payload e q s)))) = snapshots (host (manager s))
    \<and> resident_seq_ids (snd (free_seq_payload e q s)) = resident_seq_ids s - {q}"
proof -
  let ?P = "\<lambda>m. chains m = chains (manager s) \<and> snapshots (host m) = snapshots (host (manager s))"
  have "keeps (\<lambda>t. ?P (manager t)) (free_seq_payload e q)"
  proof (rule free_keeps [OF assms])
    fix f :: "('p chain_cache, unit) op"
    assume f: "payload_only f"
    show "keeps ?P f"
    proof (rule keepsI)
      fix m :: "'p chain_cache"
      assume m: "?P m"
      obtain p where "host (snd (f m)) = host m\<lparr>kv_payload := p\<rparr>" "chains (snd (f m)) = chains m" using f unfolding payload_only_def by blast
      then show "?P (snd (f m))" using m by simp
    qed
  qed
  then have "?P (manager (snd (free_seq_payload e q s)))" by (rule keepsD) simp
  moreover have "resident_seq_ids (snd (free_seq_payload e q s)) = resident_seq_ids s - {q}"
    using released_residents [of e q s] by (metis rt_free_seq_def prod.collapse)
  ultimately show ?thesis by blast
qed


section \<open>A run\<close>

text \<open>One chain on a device without faults: it is created, its turn ends with a snapshot, and its rows are reclaimed.\<close>

definition calm_device :: "(unit, unit) offload_device" where
  "calm_device = \<lparr>capacity_bytes = 100, stream_capturing = ret False, synchronize_copy = (\<lambda>_. ret ()), copy_complete = (\<lambda>_. ret True),
     bytes_needed = (\<lambda>_ _. ret 40), submit_save = (\<lambda>_ _. ret ()), resident_on_device = (\<lambda>_. ret False), submit_restore = (\<lambda>_. ret ())\<rparr>"

definition calm_hooks :: "(unit, unit) chain_hooks" where
  "calm_hooks = \<lparr>hook_capacity_deficits = None, hook_has_residency = Some (\<lambda>_. ret True), hook_physical_residency = Some (\<lambda>_. ret [2]),
     hook_free_seq = (\<lambda>_. ret ()), hook_turn_finished = (\<lambda>_ _. ret ()), hook_method_state = (\<lambda>_. ret ()), hook_layers = [0],
     chain_fingerprint = [7], chain_sha256 = toy_hash, offload = Some calm_device\<rparr>"

definition calm_manager :: "(nat, unit chain_cache, unit, nat) cache_manager" where
  "calm_manager = \<lparr>cm_num_free_slots = ret 20, cm_prefill_batched_tokens_margin = ret 0, cm_remaining_prefill_tokens = (\<lambda>_. ret 0),
     cm_prefill_execution_mode = (\<lambda>_. ret ''chunked''), cm_reset_prefill_execution_state = (\<lambda>_. ret ()), cm_complete_prefill_execution = ret (),
     cm_prefill_batch_compatibility_key = (\<lambda>_. ret (Hashable ())), cm_reserved_prefill_slots = (\<lambda>_ _. ret 0), cm_prefill_step_free_slots = ret 20,
     cm_should_schedule_full_prefill = (\<lambda>_. ret False), cm_prefill_step_free_slots_for = (\<lambda>_. ret 20), cm_prefill_private_slots_for = (\<lambda>_. ret 0),
     cm_min_final_prefill_chunk_size = (\<lambda>_. ret 0), cm_prefill_step_reservation_cost = (\<lambda>n _. ret n), cm_decode_window_budgets = ret [],
     cm_decode_window_costs = (\<lambda>_. base_window_costs), cm_capacity_after_reservations = (\<lambda>n _ _. ret n), cm_decode_step_free_slots = ret 20,
     cm_decode_step_free_slots_for = (\<lambda>_. ret 20), cm_decode_step_reservation_cost = (\<lambda>_. ret 1), cm_prompt_admission_free_slots = ret 20,
     cm_prompt_admission_cost = (\<lambda>_. ret 1), cm_prompt_logical_reservation_cost = (\<lambda>_. ret 1), cm_prompt_admission_failure_action = ret ''defer'',
     cm_prompt_admission_budgets = (\<lambda>_ _. ret []), cm_prompt_admission_costs = (\<lambda>_. ret []), cm_prompt_admission_shared_costs = (\<lambda>_. ret []),
     cm_on_prompt_admitted = (\<lambda>_. ret ()), cm_refresh_prefix_cache_hit = ret (), cm_clear_prefix_cache_hit = ret (), cm_scheduler_capacity_snapshot = None,
     cm_free_slot_stats = ret [], cm_free_seq = (\<lambda>_. ret ()), cm_kv_transformer_layer_indices = [0]\<rparr>"

definition calm_runtime :: "(nat, unit chain_cache, unit, nat, nat) runtime_env" where
  "calm_runtime = \<lparr>max_num_seqs_in_gpu = 4, rt_prefill_chunk_size = 4, cache_manager = calm_manager, prefix_cache_coordinator = None,
     chain_cache_coordinator = None, recurrent_free_seq = None\<rparr>"

lemma calm_runtime_ok: "frees_payload calm_runtime" "offload_sizes calm_hooks" "copies_complete calm_hooks"
  by (auto simp: frees_payload_def calm_runtime_def calm_manager_def payload_only_def offload_sizes_def sizes_nonneg_def calm_hooks_def calm_device_def
      copies_complete_def)

definition calm_start :: "unit chain_cache runtime" where
  "calm_start = \<lparr>manager = \<lparr>chains = sample_start, host = \<lparr>snapshots = [], pending_snapshots = [], used_bytes = 0, d2h_bytes = 0, h2d_bytes = 0, kv_payload = ()\<rparr>\<rparr>,
     decode_reservations = \<lparr>window = 4, reserved_ends = []\<rparr>, resident_seq_ids = {}\<rparr>"

definition first_turn :: chain_plan where
  "first_turn = (sample_plan ''a'' 1)\<lparr>plan_reserved_slots := [], plan_reserved_rows := 0\<rparr>"

definition calm_admitted :: "unit chain_cache runtime" where
  "calm_admitted = snd (chain_apply_admission calm_hooks calm_runtime first_turn (snd (chain_validate_admission_plan calm_hooks first_turn 3 [] calm_start)))"

definition calm_finished :: "unit chain_cache runtime" where
  "calm_finished = snd (chain_finish calm_hooks calm_runtime ''a'' 1 (replicate 32 5) 2 calm_admitted)"

definition calm_demoted :: "unit chain_cache runtime" where
  "calm_demoted = snd (chain_reclaim_idle calm_hooks calm_runtime ''a'' 1 True calm_finished)"

lemma calm_serving: "chain_serving calm_hooks calm_runtime calm_demoted"
proof -
  have index: "init_chain_index 4 (Some 100) = Inr sample_start" by (simp add: sample_start_def init_chain_index_def)
  have dev: "offload calm_hooks = Some calm_device" by (simp add: calm_hooks_def)
  have host: "init_offload calm_device () = Inr (host (manager calm_start))" by (simp add: init_offload_def calm_device_def calm_start_def)
  have rt: "init_runtime \<lparr>chains = sample_start, host = host (manager calm_start)\<rparr> 4 = Inr calm_start"
    by (simp add: init_runtime_def init_reservations_def calm_start_def)
  have start: "chain_serving calm_hooks calm_runtime calm_start" by (rule chain_serving.start [OF index dev host rt])
  have "fst (chain_validate_admission_plan calm_hooks first_turn 3 [] calm_start) = Inr first_turn" by code_simp
  then have valid: "chain_validate_admission_plan calm_hooks first_turn 3 [] calm_start
      = (Inr first_turn, snd (chain_validate_admission_plan calm_hooks first_turn 3 [] calm_start))" by (metis prod.collapse)
  have "chain_serving calm_hooks calm_runtime calm_admitted"
    unfolding calm_admitted_def by (rule chain_serving.admit [OF start valid prod.collapse [symmetric]])
  then have "chain_serving calm_hooks calm_runtime calm_finished" unfolding calm_finished_def by (rule chain_serving.finish [OF _ prod.collapse [symmetric]])
  then show ?thesis unfolding calm_demoted_def by (rule chain_serving.reclaim [OF _ prod.collapse [symmetric]])
qed

lemma calm_values:
  "map (\<lambda>kv. (fst kv, rec_seq_id (snd kv), rec_state (snd kv), resident_rows (snd kv))) (chain_records (chains (manager calm_demoted))) = [(''a'', 1, Idle, 0)]"
  "map (\<lambda>kv. (fst kv, rec_seq_id (snd kv), rec_state (snd kv), resident_rows (snd kv))) (chain_records (chains (manager calm_admitted))) = [(''a'', 1, Active, 1)]"
  "used_bytes (host (manager calm_demoted)) = 40"
  by code_simp+

lemma calm_chain:
  "\<exists>r. map_of (chain_records (chains (manager calm_demoted))) ''a'' = Some r \<and> rec_seq_id r = 1 \<and> rec_state r = Idle \<and> resident_rows r = 0"
  "\<exists>r. map_of (chain_records (chains (manager calm_admitted))) ''a'' = Some r \<and> rec_seq_id r = 1 \<and> rec_state r = Active"
  using calm_values(1,2) by auto


theorem host_snapshots_within_budget_witness:
  "distinct (map fst (snapshots (host (manager calm_demoted)))) \<and> used_bytes (host (manager calm_demoted)) = 40 \<and> (40 :: int) \<le> capacity_bytes calm_device"
proof -
  have "offload calm_hooks = Some calm_device" by (simp add: calm_hooks_def)
  from host_snapshots_within_budget [OF calm_runtime_ok(1,2) calm_serving this] calm_values(3) show ?thesis by simp
qed

text \<open>The same turn on a device that refuses the copy to the host.\<close>

definition full_device :: "(unit, unit) chain_hooks" where
  "full_device = calm_hooks\<lparr>offload := Some (calm_device\<lparr>submit_save := (\<lambda>_ _. raise_error (RuntimeError ''D2H failed''))\<rparr>)\<rparr>"


end
