(* ===== verification/Chain_History.thy ===== *)
theory Chain_History
  imports Chain_Coordinator
begin

text \<open>
  Token histories between ranks: the history of a finished turn is prepared as bytes before the turn ends and
  stored after it, on every rank.  The bytes are those of an array of unsigned 32-bit integers.
\<close>

section \<open>Bytes of a history\<close>

lemma item_round_trip: "word_of_int (le_value (le_bytes 4 (uint w))) = (w :: 32 word)"
proof -
  have "uint w < 256 ^ 4" using uint_bounded [of w] by simp
  then have "le_value (le_bytes 4 (uint w)) = uint w" by (simp add: le_value_le_bytes)
  then show ?thesis by simp
qed

lemma history_round_trip: "history_of_bytes (history_bytes ws) = Inr ws"
proof (induction ws)
  case Nil
  show ?case by (simp add: history_bytes_def)
next
  case (Cons w ws)
  have four: "length (le_bytes 4 (uint w)) = 4" by simp
  then obtain a b c d where bs: "le_bytes 4 (uint w) = [a, b, c, d]" by (auto simp: eval_nat_numeral length_Suc_conv)
  have "history_bytes (w # ws) = a # b # c # d # history_bytes ws" by (simp add: history_bytes_def bs)
  then show ?case using Cons item_round_trip [of w] by (simp add: bs rbind_def)
qed

section \<open>Preparing and storing\<close>

lemma prepared_fields:
  assumes "prepare_processed_tokens h c q ts n s = (Inr p, t)"
  shows "prep_chain_id p = c \<and> prep_seq_id p = q \<and> prep_count p = n \<and> prep_bytes p = history_bytes (map word_of_int ts) \<and> list_all fits_I ts \<and> t = s"
  using assms
  by (auto simp: prepare_processed_tokens_def prepare_token_history_def check_token_history_capacity_def obind_def oseq_def on_index_def run_lookup
      split: prod.splits sum.splits if_splits option.splits)

lemma fitting_tokens: "list_all fits_I ts \<Longrightarrow> map (\<lambda>x. uint (word_of_int x :: 32 word)) ts = ts"
  by (induction ts) (auto simp: fits_I_def uint_word_of_int)

text \<open>
  Histories survive the way from the driver to the ranks: when a rank has recorded the same boundary for the idle chain, storing the
  prepared bytes succeeds and the chain then holds exactly the tokens that were prepared.
\<close>

theorem prepared_history_is_remembered:
  assumes "prepare_processed_tokens h c q ts n s = (Inr p, s')"
    "map_of (chain_records (chains u)) c = Some r" "rec_seq_id r = q" "rec_state r = Idle"
    "processed_token_count r = n" "processed_token_digest r = prep_digest p"
    "history_fits (chains u) r (int (length ts))"
  shows "\<exists>v r'. remember_prepared_tokens p u = (Inr c, v) \<and> map_of (chain_records (chains v)) c = Some r' \<and> map uint (rec_token_ids r') = ts
    \<and> (\<forall>c'. c' \<noteq> c \<longrightarrow> map_of (chain_records (chains v)) c' = map_of (chain_records (chains u)) c')"
proof -
  note p = prepared_fields [OF assms(1)]
  have store: "store_token_history c (map word_of_int ts) (chains u) = (Inr (), stored c (map word_of_int ts) r (chains u))"
    using run_store [OF assms(2)] assms(7) by simp
  have "remember_prepared_tokens p u = (Inr c, u\<lparr>chains := stored c (map word_of_int ts) r (chains u)\<rparr>)"
    using p assms(2-6) store history_round_trip [of "map word_of_int ts"]
    by (simp add: remember_prepared_tokens_def obind_def oseq_def on_index_def run_lookup)
  then show ?thesis using assms(2) fitting_tokens p by (auto simp: stored_def altered_def comp_def)
qed

section \<open>A run\<close>

definition history_hooks :: "(unit, unit) chain_hooks" where
  "history_hooks = \<lparr>hook_capacity_deficits = None, hook_has_residency = None, hook_physical_residency = None, hook_free_seq = (\<lambda>_. ret ()),
     hook_turn_finished = (\<lambda>_ _. ret ()), hook_method_state = (\<lambda>_. ret ()), hook_layers = [], chain_fingerprint = [7], chain_sha256 = toy_hash, offload = None\<rparr>"

definition history_cache :: "chain_index \<Rightarrow> unit chain_cache" where
  "history_cache i = \<lparr>chains = i, host = \<lparr>snapshots = [], pending_snapshots = [], used_bytes = 0, d2h_bytes = 0, h2d_bytes = 0, kv_payload = ()\<rparr>\<rparr>"

definition history_prepared :: prepared_tokens where
  "history_prepared = (case fst (prepare_processed_tokens history_hooks ''a'' 1 [5, 6, 9] 2 (history_cache sample_admitted)) of Inr p \<Rightarrow> p | Inl _ \<Rightarrow> undefined)"

definition history_finished :: "unit chain_cache" where
  "history_finished = snd (finish_values history_hooks ''a'' 1 (turn_digest toy_hash [5, 6] 2) 2 (history_cache sample_admitted))"

theorem prepared_history_is_remembered_witness:
  "\<exists>v r'. remember_prepared_tokens history_prepared history_finished = (Inr ''a'', v) \<and> map_of (chain_records (chains v)) ''a'' = Some r'
     \<and> map uint (rec_token_ids r') = [5, 6, 9]"
proof -
  have made: "prepare_processed_tokens history_hooks ''a'' 1 [5, 6, 9] 2 (history_cache sample_admitted)
      = (Inr history_prepared, snd (prepare_processed_tokens history_hooks ''a'' 1 [5, 6, 9] 2 (history_cache sample_admitted)))"
  proof -
    have "case fst (prepare_processed_tokens history_hooks ''a'' 1 [5, 6, 9] 2 (history_cache sample_admitted)) of Inr p \<Rightarrow> True | Inl _ \<Rightarrow> False" by code_simp
    then show ?thesis unfolding history_prepared_def by (cases "fst (prepare_processed_tokens history_hooks ''a'' 1 [5, 6, 9] 2 (history_cache sample_admitted))") (auto intro: prod_eqI)
  qed
  have "case map_of (chain_records (chains history_finished)) ''a'' of None \<Rightarrow> False | Some r \<Rightarrow> rec_seq_id r = 1 \<and> rec_state r = Idle
      \<and> processed_token_count r = 2 \<and> processed_token_digest r = prep_digest history_prepared \<and> rec_token_ids r = []" by code_simp
  then obtain r where r: "map_of (chain_records (chains history_finished)) ''a'' = Some r" "rec_seq_id r = 1" "rec_state r = Idle"
    "processed_token_count r = 2" "processed_token_digest r = prep_digest history_prepared" "rec_token_ids r = []" by (auto split: option.splits)
  have fits: "history_fits (chains history_finished) r (int (length [5, 6, 9 :: int]))"
  proof -
    have "max_token_history_tokens (chains history_finished) = Some 100" "token_history_tokens (chains history_finished) = 0" by code_simp+
    then show ?thesis using r(6) by (simp add: history_fits_def)
  qed
  from prepared_history_is_remembered [OF made r(1-5) fits] obtain v r' where
    "remember_prepared_tokens history_prepared history_finished = (Inr ''a'', v)" "map_of (chain_records (chains v)) ''a'' = Some r'"
    "map uint (rec_token_ids r') = [5, 6, 9]" by (elim exE conjE)
  then show ?thesis by (intro exI conjI)
qed

end
