(* ===== verification/Prefix_Prune.thy ===== *)
theory Prefix_Prune
  imports Complex_Main State_Result "HOL-Library.Product_Lexorder" "HOL-Library.Multiset"
begin

text \<open>
  Prefix pruning requests (\<^verbatim>\<open>engine/prefix_prune.py\<close>): which token ranges of a cached prefix may be pruned, and
  which tokens are kept.  Values of a request come from clients, so their Python type is part of the model;
  a boolean is not accepted as an integer.  Scores are finite numbers; the sum over a block is a parameter, since
  it is computed in floating point.
\<close>

section \<open>Ranges\<close>

datatype py_value = PyInt int | PyBool bool | PyOther

datatype span = Span "py_value list" | NoSequence

definition span_value_error :: "string \<Rightarrow> py_error" where
  "span_value_error x = ValueError (''prefix prune '' @ x)"

fun check_span :: "int \<Rightarrow> int \<Rightarrow> span \<Rightarrow> (int \<times> int) result" where
  "check_span token_count block_size (Span [PyInt left, PyInt right]) =
     (if \<not> (0 \<le> left \<and> left < right \<and> right \<le> token_count) then Inl (span_value_error ''range must satisfy 0 <= L < R <= selector length'')
      else if left mod block_size \<noteq> 0 \<or> right mod block_size \<noteq> 0 then Inl (span_value_error ''range must be block-aligned'')
      else Inr (left, right))"
| "check_span token_count block_size (Span [a, b]) = Inl (span_value_error ''range endpoints must be integers'')"
| "check_span token_count block_size (Span _) = Inl (ValueError ''each prefix prune range must contain exactly two integers'')"
| "check_span token_count block_size NoSequence = Inl (ValueError ''each prefix prune range must contain exactly two integers'')"

fun check_spans :: "int \<Rightarrow> int \<Rightarrow> span list \<Rightarrow> (int \<times> int) list result" where
  "check_spans n b [] = Inr []"
| "check_spans n b (s # ss) = rbind (check_span n b s) (\<lambda>x. rbind (check_spans n b ss) (\<lambda>xs. Inr (x # xs)))"

text \<open>One step of the merge over the sorted ranges; the accumulator is \<open>normalized\<close>.\<close>

fun merge_spans :: "(int \<times> int) list \<Rightarrow> (int \<times> int) list \<Rightarrow> (int \<times> int) list result" where
  "merge_spans acc [] = Inr acc"
| "merge_spans acc ((left, right) # rest) =
     (if acc \<noteq> [] \<and> left < snd (last acc) then Inl (span_value_error ''ranges must not overlap'')
      else if acc \<noteq> [] \<and> left = snd (last acc) then merge_spans (butlast acc @ [(fst (last acc), right)]) rest
      else merge_spans (acc @ [(left, right)]) rest)"

definition normalize_prefix_prune_ranges :: "int \<Rightarrow> int \<Rightarrow> py_value option \<Rightarrow> py_value option \<Rightarrow> span list option \<Rightarrow> (int \<times> int) list result" where
  "normalize_prefix_prune_ranges token_count block_size range_start range_end ranges =
     (if block_size \<le> 0 then Inl (span_value_error ''block_size must be positive'')
      else rbind (case ranges of
          None \<Rightarrow> (case (range_start, range_end) of (Some l, Some r) \<Rightarrow> Inr [Span [l, r]]
            | _ \<Rightarrow> Inl (span_value_error ''requires ranges or both range_start and range_end''))
        | Some rs \<Rightarrow> if range_start \<noteq> None \<or> range_end \<noteq> None then Inl (span_value_error ''ranges cannot be combined with range_start/range_end'')
            else Inr rs) (\<lambda>rs.
        if rs = [] then Inl (span_value_error ''ranges must not be empty'')
        else rbind (check_spans token_count block_size rs) (\<lambda>checked. merge_spans [] (sort checked))))"

definition validate_prefix_prune_request :: "int \<Rightarrow> py_value option \<Rightarrow> py_value option \<Rightarrow> span list option \<Rightarrow> py_value \<Rightarrow> int \<Rightarrow> string \<Rightarrow> string result" where
  "validate_prefix_prune_request token_count range_start range_end ranges keep block_size policy =
     (if policy \<notin> {''snapkv_global'', ''kvzip_global''} then Inl (span_value_error ''policy must be snapkv_global or kvzip_global'')
      else rbind (normalize_prefix_prune_ranges token_count block_size range_start range_end ranges) (\<lambda>intervals.
        let width = sum_list (map (\<lambda>(l, r). r - l) intervals) in
        case keep of
          PyInt k \<Rightarrow> if k < 0 \<or> width \<le> k then Inl (span_value_error ''keep_tokens must satisfy 0 <= keep_tokens < total range width'') else Inr policy
        | _ \<Rightarrow> Inl (span_value_error ''keep_tokens must be an integer'')))"

section \<open>Selection\<close>

text \<open>\<open>torch.argsort(scores, descending=True, stable=True)\<close>: positions by falling score, equal scores in order of position.\<close>

definition argsort_descending :: "rat list \<Rightarrow> nat list" where
  "argsort_descending scores = sort_key (\<lambda>i. - scores ! i) [0..<length scores]"

definition check_protected :: "nat \<Rightarrow> int list \<Rightarrow> nat set result" where
  "check_protected n indices = (if list_all (\<lambda>i. 0 \<le> i \<and> i < int n) indices then Inr (set (map nat indices))
     else Inl (ValueError ''protected token index is out of range''))"

definition select_global_keep_indices :: "rat list \<Rightarrow> int \<Rightarrow> int list option \<Rightarrow> nat list result" where
  "select_global_keep_indices scores keep protected_indices =
     (if keep < 0 \<or> int (length scores) < keep then Inl (ValueError ''invalid global keep budget'')
      else case protected_indices of
        None \<Rightarrow> Inr (if keep = 0 then [] else if keep = int (length scores) then [0..<length scores]
                  else sort (take (nat keep) (argsort_descending scores)))
      | Some indices \<Rightarrow> rbind (check_protected (length scores) indices) (\<lambda>protected.
          if keep < int (card protected) then Inl (ValueError ''protected prefix-prune tokens exceed keep budget'')
          else let candidates = sort_key (\<lambda>i. (- scores ! i, i)) (filter (\<lambda>i. i \<notin> protected) [0..<length scores])
               in Inr (sorted_list_of_set (protected \<union> set (take (nat keep - card protected) candidates)))))"

definition block_values :: "(rat list \<Rightarrow> rat) \<Rightarrow> nat \<Rightarrow> rat list \<Rightarrow> rat list" where
  "block_values block_sum b scores = map (\<lambda>i. block_sum (take b (drop (i * b) scores))) [0..<length scores div b]"

definition multiple_of :: "int \<Rightarrow> int \<Rightarrow> bool" where
  "multiple_of b x \<longleftrightarrow> 0 \<le> x \<and> x mod b = 0"

definition select_global_keep_block_indices :: "(rat list \<Rightarrow> rat) \<Rightarrow> rat list \<Rightarrow> int \<Rightarrow> int \<Rightarrow> int \<Rightarrow> nat list result" where
  "select_global_keep_block_indices block_sum scores keep block_size suffix =
     (if block_size \<le> 0 then Inl (span_value_error ''block_size must be positive'')
      else if \<not> list_all (multiple_of block_size) [int (length scores), keep, suffix]
      then Inl (ValueError ''QuEST block pruning requires a non-negative multiple of block_size'')
      else if int (length scores) < keep then Inl (ValueError ''invalid global keep budget'')
      else if keep < suffix then Inl (ValueError ''protected prefix-prune tokens exceed keep budget'')
      else let b = nat block_size; blocks = block_values block_sum b scores; protected = nat suffix div b; candidates = length blocks - protected in
        rbind (select_global_keep_indices (take candidates blocks) (keep div block_size - int protected) None) (\<lambda>selected.
          let selected = (if protected \<noteq> 0 then selected @ [candidates..<length blocks] else selected)
          in Inr (sort (concat (map (\<lambda>i. map (\<lambda>j. i * b + j) [0..<b]) selected)))))"

section \<open>Normalised ranges\<close>

definition covered :: "(int \<times> int) list \<Rightarrow> int set" where
  "covered xs = (\<Union>(l, r) \<in> set xs. {l..<r})"

definition span_valid :: "int \<Rightarrow> int \<Rightarrow> int \<times> int \<Rightarrow> bool" where
  "span_valid n b x \<longleftrightarrow> 0 \<le> fst x \<and> fst x < snd x \<and> snd x \<le> n \<and> b dvd fst x \<and> b dvd snd x"

definition spans_disjoint :: "(int \<times> int) list \<Rightarrow> bool" where
  "spans_disjoint xs \<longleftrightarrow> distinct xs \<and> (\<forall>x \<in> set xs. \<forall>y \<in> set xs. x \<noteq> y \<longrightarrow> {fst x..<snd x} \<inter> {fst y..<snd y} = {})"

text \<open>Ranges in order, with a gap between any two of them.\<close>

definition spans_normal :: "(int \<times> int) list \<Rightarrow> bool" where
  "spans_normal xs \<longleftrightarrow> sorted_wrt (\<lambda>x y. snd x < fst y) xs"

definition as_span :: "int \<times> int \<Rightarrow> span" where
  "as_span x = Span [PyInt (fst x), PyInt (snd x)]"

lemma check_as_span: "check_span n b (as_span x) = (if span_valid n b x then Inr x else
    Inl (span_value_error (if 0 \<le> fst x \<and> fst x < snd x \<and> snd x \<le> n then ''range must be block-aligned'' else ''range must satisfy 0 <= L < R <= selector length'')))"
  by (auto simp: as_span_def span_valid_def dvd_eq_mod_eq_0)

lemma check_as_spans:
  "list_all (span_valid n b) xs \<Longrightarrow> check_spans n b (map as_span xs) = Inr xs"
  "\<not> list_all (span_valid n b) xs \<Longrightarrow> \<exists>err. check_spans n b (map as_span xs) = Inl err"
  by (induction xs) (auto simp: check_as_span rbind_def split: sum.splits)

lemma normal_snoc: "spans_normal (xs @ [x]) \<longleftrightarrow> spans_normal xs \<and> (\<forall>y \<in> set xs. snd y < fst x)"
  by (auto simp: spans_normal_def sorted_wrt_append)

lemma covered_append [simp]: "covered (xs @ ys) = covered xs \<union> covered ys" "covered [] = {}" "covered ((l, r) # xs) = {l..<r} \<union> covered xs"
  by (auto simp: covered_def)

text \<open>What the merge promises for what it has taken and what is left.\<close>

definition merged :: "(int \<times> int) list \<Rightarrow> (int \<times> int) list \<Rightarrow> bool" where
  "merged xs out \<longleftrightarrow> spans_normal out \<and> (\<forall>y \<in> set out. fst y < snd y) \<and> covered out = covered xs
     \<and> fst ` set out \<subseteq> fst ` set xs \<and> snd ` set out \<subseteq> snd ` set xs"

lemma merged_mono: "merged xs out \<Longrightarrow> covered xs = covered ys \<Longrightarrow> fst ` set xs \<subseteq> fst ` set ys \<Longrightarrow> snd ` set xs \<subseteq> snd ` set ys \<Longrightarrow> merged ys out"
  unfolding merged_def by (metis order_trans)

definition separated :: "int \<Rightarrow> (int \<times> int) list \<Rightarrow> bool" where
  "separated high xs \<longleftrightarrow> sorted_wrt (\<lambda>x y. snd x \<le> fst y) xs \<and> (\<forall>x \<in> set xs. high \<le> fst x)"

lemma separated_Cons: "fst x < snd x \<Longrightarrow> separated high (x # xs) \<longleftrightarrow> high \<le> fst x \<and> separated (snd x) xs"
  by (auto simp: separated_def)

lemma merge_exact:
  assumes "spans_normal (ys @ [z])" "\<forall>y \<in> set (ys @ [z]). fst y < snd y" "\<forall>x \<in> set xs. fst x < snd x"
  shows "if separated (snd z) xs then \<exists>out. merge_spans (ys @ [z]) xs = Inr out \<and> merged (ys @ [z] @ xs) out
    else \<exists>err. merge_spans (ys @ [z]) xs = Inl err"
  using assms
proof (induction xs arbitrary: ys z)
  case Nil
  then show ?case by (auto simp: separated_def merged_def)
next
  case (Cons x xs)
  obtain l r where x: "x = (l, r)" by (cases x)
  have lr: "l < r" and xs: "\<forall>x \<in> set xs. fst x < snd x" and z: "fst z < snd z" using Cons.prems x by auto
  have sep: "separated (snd z) (x # xs) \<longleftrightarrow> snd z \<le> l \<and> separated r xs" using separated_Cons [of x] lr x by simp
  consider "l < snd z" | "l = snd z" | "snd z < l" by linarith
  then show ?case
  proof cases
    case 1
    then show ?thesis using x sep by auto
  next
    case 2
    let ?z = "(fst z, r)"
    have "spans_normal (ys @ [?z])" "\<forall>y \<in> set (ys @ [?z]). fst y < snd y" using Cons.prems(1,2) lr z 2 by (auto simp: normal_snoc)
    note IH = Cons.IH [OF this xs]
    have "covered (ys @ [?z] @ xs) = covered (ys @ [z] @ x # xs)" using x z lr 2 by (cases z) auto
    moreover have "fst ` set (ys @ [?z] @ xs) \<subseteq> fst ` set (ys @ [z] @ x # xs)" "snd ` set (ys @ [?z] @ xs) \<subseteq> snd ` set (ys @ [z] @ x # xs)"
      using x by (auto simp: image_iff)
    ultimately have "merged (ys @ [?z] @ xs) out \<Longrightarrow> merged (ys @ [z] @ x # xs) out" for out by (rule merged_mono [rotated])
    moreover have "merge_spans (ys @ [z]) (x # xs) = merge_spans (ys @ [?z]) xs" using x 2 by simp
    ultimately show ?thesis using IH sep 2 by auto
  next
    case 3
    have "\<forall>y \<in> set ys. snd y < l" using Cons.prems(1) z 3 by (auto simp: normal_snoc dest: less_trans)
    then have "spans_normal ((ys @ [z]) @ [x])" 
      unfolding normal_snoc [of "ys @ [z]" x] using Cons.prems(1) 3 x by auto
    moreover have "\<forall>y \<in> set ((ys @ [z]) @ [x]). fst y < snd y" using Cons.prems(2) lr x by auto
    ultimately have IH: "if separated (snd x) xs then \<exists>out. merge_spans ((ys @ [z]) @ [x]) xs = Inr out \<and> merged ((ys @ [z]) @ [x] @ xs) out
      else \<exists>err. merge_spans ((ys @ [z]) @ [x]) xs = Inl err" by (rule Cons.IH) (rule xs)
    have "merge_spans (ys @ [z]) (x # xs) = merge_spans ((ys @ [z]) @ [x]) xs" using x 3 by simp
    moreover have "separated (snd z) (x # xs) \<longleftrightarrow> separated (snd x) xs" using sep 3 x by simp
    moreover have "(ys @ [z]) @ [x] @ xs = ys @ [z] @ x # xs" by simp
    ultimately show ?thesis using IH by presburger
  qed
qed

lemma merge_all:
  assumes "\<forall>x \<in> set xs. fst x < snd x"
  shows "if sorted_wrt (\<lambda>x y. snd x \<le> fst y) xs then \<exists>out. merge_spans [] xs = Inr out \<and> merged xs out
    else \<exists>err. merge_spans [] xs = Inl err"
proof (cases xs)
  case Nil
  then show ?thesis by (simp add: merged_def spans_normal_def)
next
  case (Cons x ys)
  have "spans_normal ([] @ [x])" by (simp add: spans_normal_def)
  from merge_exact [OF this, of ys] assms Cons have "if separated (snd x) ys then \<exists>out. merge_spans [x] ys = Inr out \<and> merged (x # ys) out
    else \<exists>err. merge_spans [x] ys = Inl err" by auto
  moreover have "merge_spans [] (x # ys) = merge_spans [x] ys" by (cases x) simp
  moreover have "sorted_wrt (\<lambda>x y. snd x \<le> fst y) (x # ys) \<longleftrightarrow> separated (snd x) ys" by (auto simp: separated_def)
  ultimately show ?thesis using Cons by simp
qed

lemma disjoint_sorted:
  assumes "sorted xs" "\<forall>x \<in> set xs. fst x < snd x"
  shows "sorted_wrt (\<lambda>x y. snd x \<le> fst y) xs \<longleftrightarrow> spans_disjoint xs"
  using assms
proof (induction xs)
  case Nil
  then show ?case by (simp add: spans_disjoint_def)
next
  case (Cons x xs)
  have sorted: "\<forall>y \<in> set xs. fst x \<le> fst y" using Cons.prems(1) by (auto simp: less_eq_prod_def)
  have step: "snd x \<le> fst y \<longleftrightarrow> {fst x..<snd x} \<inter> {fst y..<snd y} = {} \<and> x \<noteq> y" if "y \<in> set xs" for y
  proof -
    have "fst x \<le> fst y" "fst y < snd y" "fst x < snd x" using that sorted Cons.prems(2) by auto
    moreover from this have "fst y \<in> {fst y..<snd y}" "snd x \<le> fst y \<or> fst y \<in> {fst x..<snd x}" by auto
    ultimately show ?thesis by (auto simp: disjoint_iff)
  qed
  have "spans_disjoint (x # xs) \<longleftrightarrow> spans_disjoint xs \<and> (\<forall>y \<in> set xs. {fst x..<snd x} \<inter> {fst y..<snd y} = {} \<and> x \<noteq> y)"
    unfolding spans_disjoint_def by (auto simp: Int_commute)
  then show ?case using Cons step by auto
qed

lemma spans_disjoint_sort [simp]: "spans_disjoint (sort xs) = spans_disjoint xs"
  by (simp add: spans_disjoint_def)

text \<open>
  C37. Pruning ranges: a request for block-aligned ranges in the prefix is accepted exactly when the ranges are valid and do not
  overlap; the normalised ranges are then in order with gaps between them, still valid, and cover exactly the requested tokens.
\<close>

theorem normalized_ranges_exact:
  assumes "0 < b" "xs \<noteq> []"
  shows "case normalize_prefix_prune_ranges n b None None (Some (map as_span xs)) of
      Inr out \<Rightarrow> list_all (span_valid n b) xs \<and> spans_disjoint xs \<and> spans_normal out \<and> list_all (span_valid n b) out \<and> covered out = covered xs
    | Inl err \<Rightarrow> \<not> (list_all (span_valid n b) xs \<and> spans_disjoint xs)"
proof (cases "list_all (span_valid n b) xs")
  case True
  have run: "normalize_prefix_prune_ranges n b None None (Some (map as_span xs)) = merge_spans [] (sort xs)"
    using assms check_as_spans(1) [OF True] by (simp add: normalize_prefix_prune_ranges_def rbind_def)
  have pos: "\<forall>x \<in> set (sort xs). fst x < snd x" using True by (auto simp: list_all_iff span_valid_def)
  note merge = merge_all [OF pos, unfolded disjoint_sorted [OF sorted_sort pos] spans_disjoint_sort]
  have "list_all (span_valid n b) out" if "merged (sort xs) out" for out
    unfolding list_all_iff
  proof
    fix y
    assume y: "y \<in> set out"
    have "fst y \<in> fst ` set xs" "snd y \<in> snd ` set xs" "fst y < snd y" using that y by (auto simp: merged_def)
    then show "span_valid n b y" using True by (auto simp: list_all_iff span_valid_def)
  qed
  moreover have "covered (sort xs) = covered xs" by (simp add: covered_def)
  ultimately show ?thesis using True merge run by (auto simp: merged_def split: if_splits)
next
  case False
  then obtain err where "check_spans n b (map as_span xs) = Inl err" using check_as_spans(2) by blast
  then have "normalize_prefix_prune_ranges n b None None (Some (map as_span xs)) = Inl err"
    using assms by (simp add: normalize_prefix_prune_ranges_def rbind_def)
  then show ?thesis using False by simp
qed

theorem normalized_ranges_exact_witness:
  "normalize_prefix_prune_ranges 64 8 None None (Some (map as_span [(32, 40), (0, 8), (8, 16)])) = Inr [(0, 16), (32, 40)]
   \<and> covered [(0, 16), (32, 40)] = covered [(32, 40), (0, 8), (8, 16)]"
proof -
  have run: "normalize_prefix_prune_ranges 64 8 None None (Some (map as_span [(32, 40), (0, 8), (8, 16)])) = Inr [(0, 16), (32, 40)]" by code_simp
  show ?thesis using normalized_ranges_exact [of 8 "[(32, 40), (0, 8), (8, 16)]" 64] run by simp
qed

section \<open>Selected tokens\<close>

text \<open>A higher score wins, and of two equal ones the earlier token.\<close>

definition outranks :: "rat list \<Rightarrow> nat \<Rightarrow> nat \<Rightarrow> bool" where
  "outranks scores i j \<longleftrightarrow> scores ! j < scores ! i \<or> scores ! i = scores ! j \<and> i < j"

definition best_selection :: "rat list \<Rightarrow> nat set \<Rightarrow> int \<Rightarrow> nat list \<Rightarrow> bool" where
  "best_selection scores protected keep sel \<longleftrightarrow> sorted sel \<and> distinct sel \<and> int (length sel) = keep \<and> set sel \<subseteq> {..<length scores}
     \<and> protected \<subseteq> set sel \<and> (\<forall>i \<in> set sel - protected. \<forall>j \<in> {..<length scores} - set sel. outranks scores i j)"

text \<open>The stable sort by score is the sort by score and position.\<close>

lemma stable_by_position:
  assumes "sorted xs"
  shows "sort_key (f :: nat \<Rightarrow> rat) xs = sort_key (\<lambda>i. (f i, i)) xs"
proof (rule properties_for_sort_key)
  let ?g = "\<lambda>i. (f i, i)"
  show "mset (sort_key ?g xs) = mset xs" by simp
  show "filter (\<lambda>x. f k = f x) (sort_key ?g xs) = filter (\<lambda>x. f k = f x) xs" for k
  proof -
    have "sorted (map ?g (filter (\<lambda>x. f k = f x) xs))"
      using assms by (induction xs) (auto simp: less_eq_prod_def)
    then have "sort_key ?g (filter (\<lambda>x. f k = f x) xs) = filter (\<lambda>x. f k = f x) xs" by (rule sort_key_id_if_sorted)
    then show ?thesis by (simp add: filter_sort)
  qed
  have "sorted (map ?g (sort_key ?g xs))" by (rule sorted_sort_key)
  then show "sorted (map f (sort_key ?g xs))"
    by (induction "sort_key ?g xs" rule: list.induct) (auto simp: sorted_map less_eq_prod_def elim!: sorted_wrt_mono_rel [rotated])
qed

text \<open>The best candidates of a sorted list of positions.\<close>

lemma best_prefix:
  assumes "i \<in> set (take k (sort_key (\<lambda>i. (- scores ! i, i)) xs))" "j \<in> set xs" "j \<notin> set (take k (sort_key (\<lambda>i. (- scores ! i, i)) xs))"
  shows "outranks scores i j"
proof -
  let ?g = "\<lambda>i. (- scores ! i, i)" let ?ys = "sort_key ?g xs"
  have "j \<in> set (drop k ?ys)" using assms(2,3) by (metis UnE append_take_drop_id set_append set_sort)
  moreover have "sorted (map ?g (take k ?ys @ drop k ?ys))" by (simp only: append_take_drop_id sorted_sort_key)
  then have "\<forall>x \<in> set (take k ?ys). \<forall>y \<in> set (drop k ?ys). ?g x \<le> ?g y" by (simp only: map_append sorted_append set_map) blast
  ultimately have "?g i \<le> ?g j" using assms(1) by blast
  moreover have "i \<noteq> j" using assms(1,3) by auto
  ultimately show ?thesis by (auto simp: outranks_def less_eq_prod_def)
qed

lemma unprotected_selection:
  assumes "0 \<le> keep" "keep \<le> int (length scores)"
  shows "select_global_keep_indices scores keep None = select_global_keep_indices scores keep (Some [])"
proof -
  let ?n = "length scores" let ?ys = "sort_key (\<lambda>i. (- scores ! i, i)) [0..<?n]"
  have arg: "argsort_descending scores = ?ys" unfolding argsort_descending_def by (rule stable_by_position) simp
  have dist: "distinct (take k ?ys)" for k by simp
  have some: "select_global_keep_indices scores keep (Some []) = Inr (sort (take (nat keep) ?ys))"
    using assms dist [of "nat keep"] by (simp add: select_global_keep_indices_def check_protected_def rbind_def sorted_list_of_set_sort_remdups distinct_remdups_id)
  have full: "sort (take ?n ?ys) = [0..<?n]"
  proof -
    have "sort ?ys = [0..<?n]" by (rule properties_for_sort) simp_all
    then show ?thesis by simp
  qed
  show ?thesis using assms some full arg by (auto simp: select_global_keep_indices_def)
qed

lemma selection_best:
  assumes "0 \<le> keep" "keep \<le> int (length scores)" and ps: "list_all (\<lambda>i. 0 \<le> i \<and> i < int (length scores)) ps" "int (card (set ps)) \<le> keep"
  shows "\<exists>sel. select_global_keep_indices scores keep (Some ps) = Inr sel \<and> best_selection scores (set (map nat ps)) keep sel"
proof -
  let ?n = "length scores"
  define P where "P = set (map nat ps)"
  let ?ys = "sort_key (\<lambda>i. (- scores ! i, i)) (filter (\<lambda>i. i \<notin> P) [0..<?n])"
  define T where "T = set (take (nat keep - card P) ?ys)"
  have P: "finite P" "P \<subseteq> {..<?n}" "int (card P) \<le> keep"
  proof -
    show "finite P" by (simp add: P_def)
    show "P \<subseteq> {..<?n}" using ps(1) by (auto simp: P_def list_all_iff)
    have "card P \<le> card (set ps)" unfolding P_def set_map by (rule card_image_le) simp
    then show "int (card P) \<le> keep" using ps(2) by linarith
  qed
  have T: "T \<subseteq> {..<?n} - P" unfolding T_def by (auto dest: in_set_takeD)
  have len: "length ?ys = ?n - card P"
  proof -
    have "length (filter (\<lambda>i. i \<notin> P) [0..<?n]) = card ({..<?n} - P)" by (subst distinct_card [symmetric]) (auto intro: arg_cong [where f = card])
    also have "\<dots> = ?n - card P" using P by (simp add: card_Diff_subset)
    finally show ?thesis by simp
  qed
  have "card T = length (take (nat keep - card P) ?ys)" unfolding T_def by (rule distinct_card) simp
  also have "\<dots> = nat keep - card P" using len P(3) assms(1,2) by (simp add: min_def) linarith
  finally have cardT: "card T = nat keep - card P" .
  have fin: "finite (P \<union> T)" using P(1) by (simp add: T_def)
  have card: "card (P \<union> T) = nat keep" using card_Un_disjoint [OF P(1), of T] T cardT P(3) by (auto simp: T_def)
  have sel: "select_global_keep_indices scores keep (Some ps) = Inr (sorted_list_of_set (P \<union> T))"
  proof -
    have "check_protected ?n ps = Inr P" using ps(1) by (simp add: check_protected_def P_def)
    then show ?thesis using assms(1,2) P(3) by (simp add: select_global_keep_indices_def rbind_def T_def Let_def)
  qed
  have "best_selection scores P keep (sorted_list_of_set (P \<union> T))"
    unfolding best_selection_def
    using fin card P T assms(1) best_prefix [of _ "nat keep - card P" scores "filter (\<lambda>i. i \<notin> P) [0..<?n]"]
    by (auto simp: T_def [symmetric])
  then show ?thesis using sel unfolding P_def by blast
qed

lemma selection_of:
  assumes "0 \<le> keep" "keep \<le> int (length scores)"
  shows "\<exists>sel. select_global_keep_indices scores keep None = Inr sel \<and> best_selection scores {} keep sel"
  using selection_best [OF assms, of "[]"] unprotected_selection [OF assms] assms(1) by simp

text \<open>
  C38. Global selection: with a valid budget and valid protected positions, the kept positions are in order, exactly as many as the budget allows,
  include the protected ones, and every other kept token has a higher score than every dropped one, or an equal one and comes
  earlier; the device sort that is used when nothing is protected selects the same tokens as the host sort.
\<close>

theorem selection_keeps_best:
  assumes "0 \<le> keep" "keep \<le> int (length scores)" "list_all (\<lambda>i. 0 \<le> i \<and> i < int (length scores)) indices" "int (card (set indices)) \<le> keep"
  shows "(\<exists>sel. select_global_keep_indices scores keep (Some indices) = Inr sel \<and> best_selection scores (set (map nat indices)) keep sel)
    \<and> (\<exists>sel. select_global_keep_indices scores keep None = Inr sel \<and> best_selection scores {} keep sel)
    \<and> select_global_keep_indices scores keep None = select_global_keep_indices scores keep (Some [])"
  using selection_best [OF assms] selection_of [OF assms(1,2)] unprotected_selection [OF assms(1,2)] by blast

theorem selection_keeps_best_witness:
  "select_global_keep_indices [1, 3, 2, 3] 2 (Some [0]) = Inr [0, 1] \<and> best_selection [1, 3, 2, 3] {0} 2 [0, 1]
   \<and> select_global_keep_indices [1, 3, 2, 3] 3 None = select_global_keep_indices [1, 3, 2, 3] 3 (Some [])"
proof -
  have run: "select_global_keep_indices [1, 3, 2, 3] 2 (Some [0]) = Inr [0, 1]" by code_simp
  have "best_selection [1, 3, 2, 3] {0} 2 [0, 1]" using selection_keeps_best [of 2 "[1, 3, 2, 3]" "[0]"] run by simp
  moreover have "select_global_keep_indices [1, 3, 2, 3] 3 None = select_global_keep_indices [1, 3, 2, 3] 3 (Some [])"
    using selection_keeps_best [of 3 "[1, 3, 2, 3]" "[]"] by simp
  ultimately show ?thesis using run by simp
qed

section \<open>Selected blocks\<close>

definition tokens_of_blocks :: "nat \<Rightarrow> nat list \<Rightarrow> nat list" where
  "tokens_of_blocks b bs = concat (map (\<lambda>i. map (\<lambda>j. i * b + j) [0..<b]) bs)"

lemma block_tokens: "0 < b \<Longrightarrow> set (map (\<lambda>j. i * b + j) [0..<b]) = {t. t div b = i}"
proof -
  assume b: "0 < b"
  have "t \<in> (\<lambda>j. i * b + j) ` {0..<b}" if "t div b = i" for t
    using that b by (intro image_eqI [of _ _ "t mod b"]) (auto simp: div_mult_mod_eq)
  moreover have "t div b = i" if "t \<in> (\<lambda>j. i * b + j) ` {0..<b}" for t
    using that b by (auto intro!: div_nat_eqI simp: mult.commute)
  ultimately show ?thesis unfolding set_map set_upt by blast
qed

lemma tokens_of_blocks_set: "0 < b \<Longrightarrow> set (tokens_of_blocks b bs) = {t. t div b \<in> set bs}"
  unfolding tokens_of_blocks_def set_concat set_map by (auto simp: block_tokens simp del: set_map)

lemma tokens_of_blocks_distinct:
  assumes "0 < b" "distinct bs"
  shows "distinct (tokens_of_blocks b bs) \<and> length (tokens_of_blocks b bs) = b * length bs"
  using assms(2)
proof (induction bs)
  case Nil
  then show ?case by (simp add: tokens_of_blocks_def)
next
  case (Cons i bs)
  have "distinct (map (\<lambda>j. i * b + j) [0..<b])" by (simp add: distinct_map inj_on_def)
  moreover have "set (map (\<lambda>j. i * b + j) [0..<b]) \<inter> set (tokens_of_blocks b bs) = {}"
    using Cons.prems unfolding block_tokens [OF assms(1)] tokens_of_blocks_set [OF assms(1)] by auto
  ultimately show ?case using Cons by (simp add: tokens_of_blocks_def)
qed

lemma multiple_nat: "0 < b \<Longrightarrow> multiple_of (int b) x \<Longrightarrow> \<exists>k. x = int (b * k)"
proof -
  assume "0 < b" "multiple_of (int b) x"
  then have "x = int b * (x div int b)" "0 \<le> x div int b" by (auto simp: multiple_of_def pos_imp_zdiv_nonneg_iff)
  then show ?thesis by (intro exI [of _ "nat (x div int b)"]) simp
qed

text \<open>
  Block selection: when the sizes are multiples of the block size and the protected suffix fits the budget, the kept tokens are whole blocks, in order,
  exactly as many tokens as the budget, and contain the protected suffix.
\<close>

theorem block_selection_whole_blocks:
  assumes "0 < b" "multiple_of b (int (length scores))" "multiple_of b keep" "multiple_of b suffix" "keep \<le> int (length scores)" "suffix \<le> keep"
  shows "\<exists>sel. select_global_keep_block_indices block_sum scores keep b suffix = Inr sel \<and> sorted sel \<and> distinct sel \<and> int (length sel) = keep
    \<and> set sel \<subseteq> {..<length scores} \<and> (\<forall>t \<in> set sel. \<forall>u. u div nat b = t div nat b \<longrightarrow> u \<in> set sel)
    \<and> {length scores - nat suffix..<length scores} \<subseteq> set sel"
proof -
  define B where "B = nat b"
  have B: "0 < B" "b = int B" using assms(1) by (auto simp: B_def)
  obtain N K S where sizes: "int (length scores) = int (B * N)" "keep = int (B * K)" "suffix = int (B * S)"
    using multiple_nat [OF B(1)] assms(2-4) unfolding B(2) by metis
  have n: "length scores = B * N" using sizes(1) by linarith
  have le: "S \<le> K" "K \<le> N" using assms(5,6) B(1) unfolding sizes n by (simp_all del: of_nat_mult)
  let ?blocks = "block_values block_sum B scores"
  have blocks: "length ?blocks = N" using B(1) by (simp add: block_values_def n)
  have suffix: "nat suffix = B * S" using sizes(3) by (simp only: nat_int)
  have divs: "nat suffix div B = S" "keep div b = int K" "length scores div B = N"
    using B(1) suffix n sizes(2) B(2) by (simp_all add: zdiv_int [symmetric] del: of_nat_mult)
  obtain chosen where chosen: "select_global_keep_indices (take (N - S) ?blocks) (int K - int S) None = Inr chosen"
      "best_selection (take (N - S) ?blocks) {} (int K - int S) chosen"
    using selection_of [of "int K - int S" "take (N - S) ?blocks"] le blocks by auto
  let ?sel = "if S \<noteq> 0 then chosen @ [N - S..<N] else chosen"
  have c: "distinct chosen" "length chosen = K - S" "set chosen \<subseteq> {..<N - S}"
    using chosen(2) blocks le by (auto simp: best_selection_def)
  have sel: "distinct ?sel" "length ?sel = K" "set ?sel = set chosen \<union> {N - S..<N}" using c le by (auto simp: subset_iff)
  have run: "select_global_keep_block_indices block_sum scores keep b suffix = Inr (sort (tokens_of_blocks B ?sel))"
    using assms chosen(1) by (simp add: select_global_keep_block_indices_def Let_def B_def [symmetric] divs blocks tokens_of_blocks_def rbind_def)
  note toks = tokens_of_blocks_set [OF B(1), of ?sel] tokens_of_blocks_distinct [OF B(1) sel(1)]
  have "set ?sel \<subseteq> {..<N}" using c sel(3) by auto
  then have "set (tokens_of_blocks B ?sel) \<subseteq> {..<length scores}"
    unfolding toks(1) n using B(1) by (auto simp: subset_iff div_less_iff_less_mult mult.commute)
  moreover have "{length scores - nat suffix..<length scores} \<subseteq> set (tokens_of_blocks B ?sel)"
  proof
    fix t
    assume "t \<in> {length scores - nat suffix..<length scores}"
    then have "B * (N - S) \<le> t" "t < B * N" by (auto simp: n suffix right_diff_distrib')
    then have "N - S \<le> t div B" "t div B < N" using B(1) by (auto simp: less_eq_div_iff_mult_less_eq div_less_iff_less_mult mult.commute)
    then show "t \<in> set (tokens_of_blocks B ?sel)" unfolding toks(1) sel(3) by auto
  qed
  ultimately show ?thesis using run toks sel(2) sizes(2) unfolding B_def [symmetric] by (intro exI [of _ "sort (tokens_of_blocks B ?sel)"]) auto
qed

end
