(* ===== verification/Async_Execution.thy ===== *)
theory Async_Execution
  imports Runtime_Laws
begin

text \<open>
  Results of the device that have not been read yet (\<^verbatim>\<open>engine/async_scheduling/execution.py\<close>) and the methods of the
  model runner around them (\<^verbatim>\<open>engine/model_runner.py\<close>), on a single rank of attention tensor parallelism.  The forward
  pass, the events and the hooks of the cache manager are parameters that may raise; the forward pass may call back
  \<open>prepare_inputs\<close> and \<open>apply_penalties\<close>, so it gets the feedback state, but it cannot reach the results.
  A tensor stands for the values it will hold when its event has completed.  Host buffers, streams, the copies themselves
  and the arithmetic of the penalties are not modelled.
\<close>

section \<open>Data\<close>

record async_feedback =
  last_tokens :: "(nat, int) dict"
  penalties :: "(nat, int set \<times> int set) dict"
  input_tokens :: "int list option"

record device_logprobs =
  dl_sampled :: "py_float list"
  dl_values :: "py_float list list option"
  dl_indices :: "int list list option"

record ('d, 'p) device_result =
  dr_seqs :: "'d sequence list"
  dr_is_prefill :: bool
  dr_tokens :: "int list"
  dr_inputs :: "int list option"
  dr_logprobs :: "device_logprobs option"
  dr_prefix_records :: "('d sequence \<times> int list \<times> 'p) list"

record ('d, 'p) async_execution =
  results :: "(nat, ('d, 'p) device_result) dict"
  feedback :: async_feedback
  submitted :: nat
  completed :: nat
  peak_inflight :: nat

datatype release_state = Released | ReleaseFailed

record ('d, 'p) model_runner =
  execution :: "('d, 'p) async_execution option"
  slot_release_states :: "(nat, release_state) dict"

type_synonym ('d, 'p, 'o, 'a) runner_op = "(('d, 'p) model_runner \<times> 'o, 'a) op"
type_synonym ('d, 'p, 'o, 'a) exec_op = "(('d, 'p) async_execution \<times> 'o, 'a) op"
type_synonym step_logprobs = "py_float option list \<times> (int, py_float) dict option list"

text \<open>What a forward pass leaves: the tokens, the logprobs if they were asked for, and the blocks the cache manager froze.\<close>

type_synonym ('d, 'p) forward_result = "int list \<times> device_logprobs option \<times> ('d sequence \<times> int list \<times> 'p) list"

record ('d, 'p, 'o) device =
  supports_streams :: bool
  is_stream_capturing :: "'o \<Rightarrow> bool"
  run_forward :: "'d sequence list \<Rightarrow> bool \<Rightarrow> (async_feedback \<times> 'o, ('d, 'p) forward_result) op"
  run_forward_sync :: "'d sequence list \<Rightarrow> bool \<Rightarrow> ('o, int list \<times> step_logprobs option) op"
  synchronize_event :: "('o, unit) op"
  record_frozen_prefix :: "'d sequence \<Rightarrow> int list \<Rightarrow> 'p \<Rightarrow> ('o, unit) op"
  publish_pending_prefix_blocks :: "'d sequence list \<Rightarrow> ('o, unit) op"
  runtime_free_seq :: "nat \<Rightarrow> ('o, unit) op"
  multimodal_free :: "nat \<Rightarrow> ('o, unit) op"
  multimodal_free_batch :: "nat list \<Rightarrow> ('o, unit) op"

section \<open>AsyncExecution\<close>

definition init_execution :: "('d, 'p) async_execution" where
  "init_execution = \<lparr>results = [], feedback = \<lparr>last_tokens = [], penalties = [], input_tokens = None\<rparr>,
     submitted = 0, completed = 0, peak_inflight = 0\<rparr>"

text \<open>\<open>prepare_inputs\<close>: the last token sampled for the request, else the token of its accepted history.\<close>

definition feedback_token :: "async_feedback \<Rightarrow> 'd sequence \<Rightarrow> int result" where
  "feedback_token f q = (case map_of (last_tokens f) (seq_id q) of Some t \<Rightarrow> Inr t | None \<Rightarrow> decode_input_token q)"

fun feedback_tokens :: "async_feedback \<Rightarrow> 'd sequence list \<Rightarrow> int list result" where
  "feedback_tokens f [] = Inr []"
| "feedback_tokens f (q # qs) = rbind (feedback_token f q) (\<lambda>t. rbind (feedback_tokens f qs) (\<lambda>ts. Inr (t # ts)))"

definition initial_tokens :: "async_feedback \<Rightarrow> 'd sequence list \<Rightarrow> unit result" where
  "initial_tokens f qs = (if list_all (\<lambda>q. map_of (last_tokens f) (seq_id q) \<noteq> None) qs then Inr ()
     else rfold (\<lambda>q _. rbind (decode_input_token q) (\<lambda>_. Inr ())) qs ())"

definition prepare_inputs :: "'d sequence list \<Rightarrow> (async_feedback, int list) op" where
  "prepare_inputs qs =
     oseq (lift_result (\<lambda>f. initial_tokens f qs))
     (obind (lift_result (\<lambda>f. feedback_tokens f qs)) (\<lambda>ts. oseq (writes (\<lambda>f. f\<lparr>input_tokens := Some ts\<rparr>)) (ret ts)))"

text \<open>The bookkeeping of \<open>apply_penalties\<close>: the tokens of a request that is seen for the first time.\<close>

definition register_penalty :: "'d sequence \<Rightarrow> async_feedback \<Rightarrow> async_feedback" where
  "register_penalty q f =
     (if has_sampling_penalty q \<and> map_of (penalties f) (seq_id q) = None
      then f\<lparr>penalties := AList.update (seq_id q)
             (set (completion_token_ids q), set (prompt_token_ids q) \<union> set (completion_token_ids q)) (penalties f)\<rparr>
      else f)"

definition note_sample :: "bool \<Rightarrow> int list \<Rightarrow> nat \<times> 'd sequence \<Rightarrow> (async_feedback, unit) op" where
  "note_sample is_prefill tokens = (\<lambda>(i, q).
     obind (if is_prefill then lift_result (\<lambda>_. is_last_chunk_prefill q) else ret True) (\<lambda>sampled.
     if \<not> sampled then ret ()
     else if length tokens \<le> i then raise_error (IndexError ''tokens'')
     else writes (\<lambda>f. f\<lparr>last_tokens := AList.update (seq_id q) (tokens ! i) (last_tokens f),
         penalties := (case map_of (penalties f) (seq_id q) of None \<Rightarrow> penalties f
           | Some (present, repeated) \<Rightarrow> AList.update (seq_id q) (insert (tokens ! i) present, insert (tokens ! i) repeated) (penalties f))\<rparr>)))"

definition on_feedback :: "(async_feedback \<times> 'o, 'a) op \<Rightarrow> ('d, 'p, 'o, 'a) exec_op" where
  "on_feedback m = (\<lambda>(x, ost). case m (feedback x, ost) of (r, f, ost') \<Rightarrow> (r, x\<lparr>feedback := f\<rparr>, ost'))"

definition only_feedback :: "(async_feedback, 'a) op \<Rightarrow> (async_feedback \<times> 'o, 'a) op" where
  "only_feedback m = (\<lambda>(f, ost). case m f of (r, f') \<Rightarrow> (r, f', ost))"

definition on_device :: "('o, 'a) op \<Rightarrow> ('x \<times> 'o, 'a) op" where
  "on_device m = (\<lambda>(x, ost). case m ost of (r, ost') \<Rightarrow> (r, x, ost'))"

definition store_result :: "nat \<Rightarrow> ('d, 'p) device_result \<Rightarrow> ('d, 'p) async_execution \<Rightarrow> ('d, 'p) async_execution" where
  "store_result ticket r x = (let rs = AList.update ticket r (results x) in
     x\<lparr>results := rs, submitted := submitted x + 1, peak_inflight := max (peak_inflight x) (length rs)\<rparr>)"

definition submit_execution :: "('d, 'p, 'o) device \<Rightarrow> nat \<Rightarrow> 'd sequence list \<Rightarrow> bool \<Rightarrow> ('d, 'p, 'o, unit) exec_op" where
  "submit_execution v ticket qs is_prefill =
     obind (reads (\<lambda>(x, _). map_of (results x) ticket \<noteq> None)) (\<lambda>known.
     if known then raise_error (RuntimeError ''Duplicate asynchronous submission'')
     else
     oseq (on_feedback (only_feedback (writes (\<lambda>f. f\<lparr>input_tokens := None\<rparr>))))
     (obind (on_feedback (run_forward v qs is_prefill)) (\<lambda>(tokens, logs, records).
     oseq (on_feedback (only_feedback (ofor (zip [0..<length qs] qs) (note_sample is_prefill tokens))))
     (writes (\<lambda>(x, ost). (store_result ticket \<lparr>dr_seqs = qs, dr_is_prefill = is_prefill, dr_tokens = tokens,
        dr_inputs = input_tokens (feedback x), dr_logprobs = logs, dr_prefix_records = records\<rparr> x, ost))))))"

text \<open>\<open>xs[:n]\<close>\<close>

definition py_prefix :: "int \<Rightarrow> 'a list \<Rightarrow> 'a list" where
  "py_prefix n xs = take (nat (if n < 0 then int (length xs) + n else n)) xs"

text \<open>The rows of the top logprobs, for the requests that ask for them.\<close>

fun top_rows :: "'d sequence list \<Rightarrow> nat \<Rightarrow> int list list \<Rightarrow> py_float list list \<Rightarrow> (int, py_float) dict option list result" where
  "top_rows [] row indices values = Inr []"
| "top_rows (q # qs) row indices values =
     rbind (case logprobs q of None \<Rightarrow> Inr None
         | Some n \<Rightarrow> if n = 0 then Inr None
             else if length indices \<le> row \<or> length values \<le> row then Inl (IndexError ''list index out of range'')
             else Inr (Some (fold (\<lambda>(k, x) d. AList.update k x d) (zip (py_prefix n (indices ! row)) (py_prefix n (values ! row))) [])))
       (\<lambda>r. rbind (top_rows qs (Suc row) indices values) (\<lambda>rs. Inr (r # rs)))"

definition host_logprobs :: "'d sequence list \<Rightarrow> device_logprobs option \<Rightarrow> step_logprobs option result" where
  "host_logprobs qs logs = (case logs of None \<Rightarrow> Inr None
     | Some l \<Rightarrow> rbind (case dl_values l of None \<Rightarrow> Inr (replicate (length qs) None)
           | Some values \<Rightarrow> (case dl_indices l of None \<Rightarrow> Inl (AttributeError ''tolist'') | Some indices \<Rightarrow> top_rows qs 0 indices values))
         (\<lambda>tops. Inr (Some (map Some (dl_sampled l), tops))))"

definition materialize :: "('d, 'p, 'o) device \<Rightarrow> ('d, 'p) device_result \<Rightarrow> nat list \<Rightarrow> 'd sequence \<times> int list \<times> 'p \<Rightarrow> ('d, 'p, 'o, unit) exec_op" where
  "materialize v r ignored = (\<lambda>(q, tokens, slots).
     if seq_id q \<in> set ignored then ret ()
     else if dr_is_prefill r then on_device (record_frozen_prefix v q tokens slots)
     else (case map_of (rev (zip (map seq_id (dr_seqs r)) (case dr_inputs r of None \<Rightarrow> [] | Some ts \<Rightarrow> ts))) (seq_id q) of
         None \<Rightarrow> raise_error (KeyError ''input_by_id'')
       | Some t \<Rightarrow> on_device (record_frozen_prefix v q [t] slots)))"

definition collect_execution :: "('d, 'p, 'o) device \<Rightarrow> nat \<Rightarrow> nat list \<Rightarrow> ('d, 'p, 'o, int list \<times> step_logprobs option) exec_op" where
  "collect_execution v ticket ignored =
     obind (reads (\<lambda>(x, _). map_of (results x) ticket)) (\<lambda>res. case res of
       None \<Rightarrow> raise_error (KeyError ''results'')
     | Some r \<Rightarrow>
       oseq (on_device (synchronize_event v))
       (oseq (ofor (dr_prefix_records r) (materialize v r ignored))
       (oseq (if dr_prefix_records r \<noteq> [] then on_device (publish_pending_prefix_blocks v (filter (\<lambda>q. seq_id q \<notin> set ignored) (dr_seqs r))) else ret ())
       (obind (lift_result (\<lambda>_. host_logprobs (dr_seqs r) (dr_logprobs r))) (\<lambda>logs.
       oseq (writes (\<lambda>(x, ost). (x\<lparr>completed := completed x + 1, results := AList.delete ticket (results x)\<rparr>, ost)))
       (ret (dr_tokens r, logs)))))))"

definition prepare_synchronous_execution :: "('d, 'p) async_execution \<Rightarrow> unit result \<times> ('d, 'p) async_execution" where
  "prepare_synchronous_execution =
     obind (reads results) (\<lambda>rs.
     if rs \<noteq> [] then raise_error (RuntimeError ''Synchronous execution requires all asynchronous results to retire'')
     else writes (\<lambda>x. x\<lparr>feedback := (feedback x)\<lparr>last_tokens := [], penalties := []\<rparr>\<rparr>))"

definition in_flight :: "nat list \<Rightarrow> ('d, 'p) async_execution \<Rightarrow> bool" where
  "in_flight ids x \<longleftrightarrow> (\<exists>(_, r) \<in> set (results x). \<exists>q \<in> set (dr_seqs r). seq_id q \<in> set ids)"

definition assert_releasable :: "nat list \<Rightarrow> ('d, 'p) async_execution \<Rightarrow> unit result" where
  "assert_releasable ids x = (if in_flight ids x then Inl (AsyncDrainRequired ''Cache release requires asynchronous ticket to retire'') else Inr ())"

definition forget :: "nat list \<Rightarrow> ('d, 'p) async_execution \<Rightarrow> ('d, 'p) async_execution" where
  "forget ids x = x\<lparr>feedback := (feedback x)\<lparr>last_tokens := filter (\<lambda>kv. fst kv \<notin> set ids) (last_tokens (feedback x)),
     penalties := filter (\<lambda>kv. fst kv \<notin> set ids) (penalties (feedback x))\<rparr>\<rparr>"

section \<open>The model runner\<close>

definition on_execution :: "('d, 'p, 'o, 'a) exec_op \<Rightarrow> ('d, 'p, 'o, 'a) runner_op" where
  "on_execution m = (\<lambda>(w, ost). case execution w of
      None \<Rightarrow> (Inl (AttributeError ''_async_execution''), w, ost)
    | Some x \<Rightarrow> (case m (x, ost) of (r, x', ost') \<Rightarrow> (r, w\<lparr>execution := Some x'\<rparr>, ost')))"

definition submit_async :: "('d, 'p, 'o) device \<Rightarrow> nat \<Rightarrow> 'd sequence list \<Rightarrow> bool \<Rightarrow> ('d, 'p, 'o, unit) runner_op" where
  "submit_async v ticket qs is_prefill =
     obind (reads (\<lambda>(w, _). execution w = None)) (\<lambda>fresh.
     oseq (if fresh then oseq (raise_if (\<not> supports_streams v) (ValueError ''Asynchronous execution currently requires CUDA''))
             (writes (\<lambda>(w, ost). (w\<lparr>execution := Some init_execution\<rparr>, ost))) else ret ())
     (on_execution (submit_execution v ticket qs is_prefill)))"

definition collect_async :: "('d, 'p, 'o) device \<Rightarrow> nat \<Rightarrow> nat list \<Rightarrow> ('d, 'p, 'o, int list \<times> step_logprobs option) runner_op" where
  "collect_async v ticket ignored = on_execution (collect_execution v ticket ignored)"

text \<open>\<open>if hasattr(self, "_async_execution"): ...\<close>\<close>

definition if_execution :: "('d, 'p, 'o, unit) exec_op \<Rightarrow> ('d, 'p, 'o, unit) runner_op" where
  "if_execution m = obind (reads (\<lambda>(w, _). execution w = None)) (\<lambda>none. if none then ret () else on_execution m)"

definition assert_cache_release :: "('d, 'p, 'o) device \<Rightarrow> nat list \<Rightarrow> ('d, 'p, 'o, unit) runner_op" where
  "assert_cache_release v ids =
     obind (reads (\<lambda>(_, ost). is_stream_capturing v ost)) (\<lambda>capturing.
     oseq (raise_if capturing (RuntimeError ''Cache ownership cannot change during graph capture.''))
     (if_execution (lift_result (\<lambda>(x, _). assert_releasable ids x))))"

definition release_runtime_slots_once :: "('d, 'p, 'o) device \<Rightarrow> nat \<Rightarrow> ('d, 'p, 'o, unit) runner_op" where
  "release_runtime_slots_once v r = (\<lambda>(w, ost). case map_of (slot_release_states w) r of
      Some Released \<Rightarrow> (Inr (), w, ost)
    | Some ReleaseFailed \<Rightarrow> (Inl (RuntimeError ''Cache release previously failed on this worker''), w, ost)
    | None \<Rightarrow> (case runtime_free_seq v r ost of
        (Inl err, ost') \<Rightarrow> (Inl err, w\<lparr>slot_release_states := AList.update r ReleaseFailed (slot_release_states w)\<rparr>, ost')
      | (Inr _, ost') \<Rightarrow> (Inr (), w\<lparr>slot_release_states := AList.update r Released (slot_release_states w)\<rparr>, ost')))"

definition commit_slot_releases :: "nat list \<Rightarrow> ('d, 'p, 'o, unit) runner_op" where
  "commit_slot_releases ids = writes (\<lambda>(w, ost). (w\<lparr>slot_release_states := filter (\<lambda>kv. fst kv \<notin> set ids) (slot_release_states w)\<rparr>, ost))"

definition free_slots_batch_local :: "('d, 'p, 'o) device \<Rightarrow> nat list \<Rightarrow> ('d, 'p, 'o, unit) runner_op" where
  "free_slots_batch_local v ids =
     (if ids = [] then ret ()
      else oseq (assert_cache_release v ids)
        (oseq (ofor ids (release_runtime_slots_once v)) (if_execution (writes (\<lambda>(x, ost). (forget ids x, ost))))))"

definition free_slots_local :: "('d, 'p, 'o) device \<Rightarrow> nat \<Rightarrow> ('d, 'p, 'o, unit) runner_op" where
  "free_slots_local v r =
     oseq (assert_cache_release v [r])
     (oseq (release_runtime_slots_once v r)
     (oseq (if_execution (writes (\<lambda>(x, ost). (forget [r] x, ost)))) (on_device (multimodal_free v r))))"

definition finish_slots_batch_local :: "('d, 'p, 'o) device \<Rightarrow> nat list \<Rightarrow> ('d, 'p, 'o, unit) runner_op" where
  "finish_slots_batch_local v ids = oseq (free_slots_batch_local v ids) (on_device (multimodal_free_batch v ids))"

text \<open>\<open>call(...)\<close>: the releases are committed when the method has returned.\<close>

definition free_slots :: "('d, 'p, 'o) device \<Rightarrow> nat \<Rightarrow> ('d, 'p, 'o, unit) runner_op" where
  "free_slots v r = oseq (free_slots_local v r) (commit_slot_releases [r])"

definition free_slots_batch :: "('d, 'p, 'o) device \<Rightarrow> nat list \<Rightarrow> ('d, 'p, 'o, unit) runner_op" where
  "free_slots_batch v ids = oseq (free_slots_batch_local v ids) (commit_slot_releases ids)"

definition finish_slots_batch :: "('d, 'p, 'o) device \<Rightarrow> nat list \<Rightarrow> ('d, 'p, 'o, unit) runner_op" where
  "finish_slots_batch v ids = oseq (finish_slots_batch_local v ids) (commit_slot_releases ids)"

definition retire_async :: "('d, 'p, 'o) device \<Rightarrow> nat list \<Rightarrow> ('d, 'p, 'o, unit) runner_op" where
  "retire_async v ids =
     oseq (finish_slots_batch_local v ids)
     (oseq (on_execution (writes (\<lambda>(x, ost). (forget ids x, ost)))) (commit_slot_releases ids))"

definition run_sync :: "('d, 'p, 'o) device \<Rightarrow> 'd sequence list \<Rightarrow> bool \<Rightarrow> ('d, 'p, 'o, int list \<times> step_logprobs option) runner_op" where
  "run_sync v qs is_prefill =
     oseq (if_execution (\<lambda>(x, ost). case prepare_synchronous_execution x of (r, x') \<Rightarrow> (r, x', ost)))
     (on_device (run_forward_sync v qs is_prefill))"

end
