(* ===== verification/Async_Scheduler.thy ===== *)
theory Async_Scheduler
  imports Async_Execution
begin

text \<open>
  The asynchronous scheduler (\<^verbatim>\<open>engine/async_scheduling/scheduler.py\<close>): steps are submitted ahead of the device and their
  results retired in order.  The state joins the scheduler, the model runner and the fields of the engine that these
  methods use.  Asynchronous scheduling is configured only without chains, data parallelism, images and recurrent
  layers (\<^verbatim>\<open>configs/runtime.py\<close>), so the synchronous step of the engine (\<^verbatim>\<open>engine/llm_engine.py\<close>) is the path for those.
  Profiling and the throughput log are left out.
\<close>

section \<open>Snapshots\<close>

text \<open>A view of the first \<open>n\<close> tokens of a history that only grows.\<close>

definition view_getitem :: "int list \<Rightarrow> nat \<Rightarrow> int \<Rightarrow> int result" where
  "view_getitem tokens n index =
     (let i = (if index < 0 then index + int n else index)
      in if i < 0 \<or> int n \<le> i then Inl (IndexError ''index'') else Inr (tokens ! nat i))"

text \<open>The view is the list itself here, since a list of the model does not change.\<close>

definition execution_snapshot :: "'d sequence \<Rightarrow> 'd sequence" where
  "execution_snapshot q = q\<lparr>num_tokens := num_tokens q + num_pending_outputs q, num_pending_outputs := 0\<rparr>"

record 'd pending_step =
  ticket :: nat
  ps_seqs :: "nat list"
  ps_snapshots :: "'d sequence list"
  ps_is_prefill :: bool
  ps_publishes :: "bool list"

record ('d, 'p, 'o) async_engine =
  sched :: "('d, 'o) scheduler"
  runner :: "('d, 'p) model_runner"
  pending :: "'d pending_step list"
  retiring :: "nat set"
  discarded :: "nat set"
  next_ticket :: nat
  pending_slot_releases :: "nat set"
  pending_prefix_prune_ids :: "string list"
  last_step_token_outputs :: "(nat \<times> int list) list"
  last_step_logprob_outputs :: "(nat \<times> py_float option list \<times> (int, py_float) dict option list) list"
  last_step_prompt_cache_hits :: "(nat \<times> int) list"

record ('d, 'p, 'o, 'k, 'r) async_env =
  sched_env :: "('d, 'o, 'k, 'r) sched_env"
  dev :: "('d, 'p, 'o) device"
  async_max_inflight :: int
  requires_committed_token_history :: bool

type_synonym ('d, 'p, 'o, 'a) engine_op = "(('d, 'p, 'o) async_engine, 'a) op"
type_synonym finished_output = "nat \<times> int list \<times> py_float option list \<times> (int, py_float) dict option list"

definition init_async :: "('d, 'o) scheduler \<Rightarrow> ('d, 'p, 'o) async_engine" where
  "init_async s = \<lparr>sched = s, runner = \<lparr>execution = None, slot_release_states = []\<rparr>, pending = [], retiring = {}, discarded = {},
     next_ticket = 0, pending_slot_releases = {}, pending_prefix_prune_ids = [], last_step_token_outputs = [],
     last_step_logprob_outputs = [], last_step_prompt_cache_hits = []\<rparr>"

section \<open>Calls\<close>

definition on_sched :: "('d, 'o, 'a) sched_op \<Rightarrow> ('d, 'p, 'o, 'a) engine_op" where
  "on_sched m s = (case m (sched s) of (r, t) \<Rightarrow> (r, s\<lparr>sched := t\<rparr>))"

definition on_runner :: "('d, 'p, 'o, 'a) runner_op \<Rightarrow> ('d, 'p, 'o, 'a) engine_op" where
  "on_runner m s = (case m (runner s, oracle_state (sched s)) of
     (r, w, ost) \<Rightarrow> (r, s\<lparr>runner := w, sched := (sched s)\<lparr>oracle_state := ost\<rparr>\<rparr>))"

definition referenced :: "('d, 'p, 'o) async_engine \<Rightarrow> nat set" where
  "referenced s = (\<Union>p \<in> set (pending s). set (ps_seqs p))"

text \<open>The responsibility for a release is recorded until the release has returned.\<close>

definition with_release :: "nat set \<Rightarrow> ('d, 'p, 'o, unit) engine_op \<Rightarrow> ('d, 'p, 'o, unit) engine_op" where
  "with_release ids m =
     oseq (writes (\<lambda>s. s\<lparr>pending_slot_releases := pending_slot_releases s \<union> ids\<rparr>))
     (oseq m (writes (\<lambda>s. s\<lparr>pending_slot_releases := pending_slot_releases s - ids\<rparr>)))"

definition release_preempted_sequences :: "('d, 'p, 'o, 'k, 'r) async_env \<Rightarrow> nat list \<Rightarrow> ('d, 'p, 'o, unit) engine_op" where
  "release_preempted_sequences e ids =
     (if ids = [] then ret () else with_release (set ids) (on_runner (free_slots_batch (dev e) ids)))"

section \<open>Cancellation and retirement\<close>

definition output_done :: "nat \<times> bool \<Rightarrow> ('d, 'p, 'o, unit) engine_op" where
  "output_done = (\<lambda>(r, publish). if publish then on_sched (update_request r (\<lambda>q. q\<lparr>num_pending_outputs := num_pending_outputs q - 1\<rparr>)) else ret ())"

definition collect_head :: "('d, 'p, 'o, 'k, 'r) async_env \<Rightarrow> ('d, 'p, 'o, int list \<times> step_logprobs option) engine_op" where
  "collect_head e =
     obind (reads (\<lambda>s. (ticket (hd (pending s)), sorted_list_of_set (discarded s)))) (\<lambda>(t, ignored).
     obind (on_runner (collect_async (dev e) t ignored)) (\<lambda>out.
     oseq (writes (\<lambda>s. s\<lparr>pending := tl (pending s)\<rparr>)) (ret out)))"

definition head_discarded :: "('d, 'p, 'o) async_engine \<Rightarrow> bool" where
  "head_discarded s \<longleftrightarrow> pending s \<noteq> [] \<and> set (ps_seqs (hd (pending s))) \<subseteq> discarded s"

text \<open>Each turn of the loop takes one pending step, so their number is enough fuel.\<close>

fun drain_loop :: "('d, 'p, 'o, 'k, 'r) async_env \<Rightarrow> nat \<Rightarrow> ('d, 'p, 'o, unit) engine_op" where
  "drain_loop e 0 = ret ()"
| "drain_loop e (Suc n) =
     obind (reads (\<lambda>s. (head_discarded s, hd (pending s)))) (\<lambda>(go, p).
     if \<not> go then ret ()
     else oseq (collect_head e) (oseq (ofor (zip (ps_seqs p) (ps_publishes p)) output_done) (drain_loop e n)))"

definition drain_discarded :: "('d, 'p, 'o, 'k, 'r) async_env \<Rightarrow> ('d, 'p, 'o, unit) engine_op" where
  "drain_discarded e = obind (reads (\<lambda>s. length (pending s))) (drain_loop e)"

definition retire_ready :: "('d, 'p, 'o, 'k, 'r) async_env \<Rightarrow> ('d, 'p, 'o, unit) engine_op" where
  "retire_ready e =
     obind (reads (\<lambda>s. retiring s - referenced s)) (\<lambda>ready.
     if ready = {} then ret ()
     else oseq (with_release ready (on_runner (retire_async (dev e) (sorted_list_of_set ready))))
       (writes (\<lambda>s. s\<lparr>retiring := retiring s - ready, discarded := discarded s - ready\<rparr>)))"

definition mark_retiring :: "nat \<Rightarrow> ('d, 'p, 'o, unit) engine_op" where
  "mark_retiring r = writes (\<lambda>s. s\<lparr>discarded := insert r (discarded s), retiring := insert r (retiring s)\<rparr>)"

definition async_abort :: "('d, 'p, 'o, 'k, 'r) async_env \<Rightarrow> nat \<Rightarrow> ('d, 'p, 'o, unit) engine_op" where
  "async_abort e r =
     obind (on_sched (abort_request (sched_env e) r)) (\<lambda>owns.
     obind (reads (\<lambda>s. r \<in> referenced s)) (\<lambda>ref.
     oseq (if owns \<or> ref then mark_retiring r else ret ())
     (oseq (drain_discarded e) (retire_ready e))))"

section \<open>Submission\<close>

definition has_work :: "('d, 'o) scheduler \<Rightarrow> bool" where
  "has_work s \<longleftrightarrow> waiting s \<noteq> []
     \<or> (\<exists>r \<in> set (decoding s). num_completion_tokens (requests s r) + num_pending_outputs (requests s r) < max_tokens (requests s r))"

text \<open>\<open>schedule\<close> with the number of steps in flight; \<open>None\<close> when it asks for a drain.\<close>

definition schedule_ahead :: "('d, 'p, 'o, 'k, 'r) async_env \<Rightarrow> ('d, 'p, 'o, schedule_result option) engine_op" where
  "schedule_ahead e s = (case schedule (sched_env e) ((sched s)\<lparr>async_inflight := length (pending s)\<rparr>) of
     (r, t) \<Rightarrow> (case r of Inr x \<Rightarrow> Inr (Some x) | Inl (AsyncDrainRequired m) \<Rightarrow> Inr None | Inl err \<Rightarrow> Inl err,
       s\<lparr>sched := t\<lparr>async_inflight := 0\<rparr>\<rparr>))"

definition restore_prefills :: "bool \<Rightarrow> nat list \<Rightarrow> ('d, 'p, 'o) async_engine \<Rightarrow> ('d, 'p, 'o) async_engine" where
  "restore_prefills is_prefill rs s = (if is_prefill then s\<lparr>sched := (sched s)\<lparr>waiting := rs @ waiting (sched s)\<rparr>\<rparr> else s)"

fun publish_flags :: "bool \<Rightarrow> 'd sequence list \<Rightarrow> bool list result" where
  "publish_flags is_prefill [] = Inr []"
| "publish_flags is_prefill (q # qs) =
     rbind (if is_prefill then is_last_chunk_prefill q else Inr True) (\<lambda>b. rbind (publish_flags is_prefill qs) (\<lambda>bs. Inr (b # bs)))"

text \<open>\<open>try: m except: f; raise\<close>\<close>

definition on_raise :: "('s, 'a) op \<Rightarrow> ('s \<Rightarrow> 's) \<Rightarrow> ('s, 'a) op" where
  "on_raise m f s = (case m s of (Inl err, t) \<Rightarrow> (Inl err, f t) | (Inr x, t) \<Rightarrow> (Inr x, t))"

definition after_submission :: "('d, 'o, 'k, 'r) sched_env \<Rightarrow> bool \<Rightarrow> nat \<times> bool \<Rightarrow> ('d, 'o, unit) sched_op" where
  "after_submission e is_prefill = (\<lambda>(r, publish).
     oseq (if publish then update_request r (\<lambda>q. q\<lparr>num_pending_outputs := num_pending_outputs q + 1\<rparr>) else ret ())
     (if \<not> is_prefill then ret ()
      else oseq (on_request r advance_prefill)
       (obind (reads (\<lambda>s. num_prefilled_tokens (requests s r) < num_prompt_tokens (requests s r))) (\<lambda>more.
        if more
        then oseq (update_request r (\<lambda>q. q\<lparr>status := WAITING\<rparr>))
             (obind monotonic (\<lambda>t. oseq (wait_setdefault r t) (writes (\<lambda>s. s\<lparr>waiting := r # waiting s\<rparr>))))
        else oseq (run_hook (complete_prefill_execution (memory_oracle e)) r)
             (oseq (update_request r (\<lambda>q. q\<lparr>status := RUNNING\<rparr>)) (writes (\<lambda>s. s\<lparr>decoding := decoding s @ [r]\<rparr>)))))))"

definition submit_batch :: "('d, 'p, 'o, 'k, 'r) async_env \<Rightarrow> nat list \<Rightarrow> bool \<Rightarrow> ('d, 'p, 'o, unit) engine_op" where
  "submit_batch e rs is_prefill =
     obind (reads (\<lambda>s. map (\<lambda>r. execution_snapshot (requests (sched s) r)) rs)) (\<lambda>snapshots.
     obind (lift_result (\<lambda>_. publish_flags is_prefill snapshots)) (\<lambda>publishes.
     obind (reads next_ticket) (\<lambda>t.
     oseq (writes (\<lambda>s. s\<lparr>next_ticket := Suc t\<rparr>))
     (oseq (on_raise (on_runner (submit_async (dev e) t snapshots is_prefill)) (restore_prefills is_prefill rs))
     (oseq (on_sched (ofor (zip rs publishes) (after_submission (sched_env e) is_prefill)))
     (writes (\<lambda>s. s\<lparr>pending := pending s @ [\<lparr>ticket = t, ps_seqs = rs, ps_snapshots = snapshots, ps_is_prefill = is_prefill,
        ps_publishes = publishes\<rparr>]\<rparr>)))))))"

definition may_submit :: "('d, 'p, 'o, 'k, 'r) async_env \<Rightarrow> ('d, 'p, 'o) async_engine \<Rightarrow> bool" where
  "may_submit e s \<longleftrightarrow> pending_prefix_prune_ids s = []
     \<and> \<not> (requires_committed_token_history e \<and> (\<exists>p \<in> set (pending s). True \<in> set (ps_publishes p))) \<and> has_work (sched s)"

definition submit_step :: "('d, 'p, 'o, 'k, 'r) async_env \<Rightarrow> ('d, 'p, 'o, bool) engine_op" where
  "submit_step e =
     obind (reads (may_submit e)) (\<lambda>may.
     if \<not> may then ret False
     else obind (schedule_ahead e) (\<lambda>res. case res of
       None \<Rightarrow> ret False
     | Some (rs, is_prefill, preempted) \<Rightarrow>
       oseq (release_preempted_sequences e preempted)
       (if rs = [] then ret False
        else obind (reads (\<lambda>s. any_replay (sched s) rs)) (\<lambda>replay.
          if replay then oseq (writes (restore_prefills is_prefill rs)) (ret False)
          else oseq (submit_batch e rs is_prefill) (ret True)))))"

section \<open>The synchronous step\<close>

definition step_output :: "bool \<Rightarrow> (nat \<Rightarrow> 'd sequence) \<Rightarrow> nat \<Rightarrow> bool result" where
  "step_output is_prefill heap r =
     (if \<not> should_publish_sample (heap r) then Inr False else if \<not> is_prefill then Inr True else is_last_chunk_prefill (heap r))"

fun step_outputs :: "bool \<Rightarrow> (nat \<Rightarrow> 'd sequence) \<Rightarrow> (nat \<times> sampled) list \<Rightarrow> (nat \<times> sampled) list result" where
  "step_outputs is_prefill heap [] = Inr []"
| "step_outputs is_prefill heap (x # xs) =
     rbind (step_output is_prefill heap (fst x)) (\<lambda>b. rbind (step_outputs is_prefill heap xs) (\<lambda>ys. Inr (if b then x # ys else ys)))"

definition release_slots_transaction :: "('d, 'p, 'o, 'k, 'r) async_env \<Rightarrow> bool \<Rightarrow> nat \<Rightarrow> ('d, 'p, 'o, unit) engine_op" where
  "release_slots_transaction e finish r =
     with_release {r} (on_runner (if finish then finish_slots_batch (dev e) [r] else free_slots (dev e) r))"

text \<open>The cleanup after a failed forward pass: what can be released is released and removed from the queues.\<close>

fun cleanup_loop :: "('d, 'p, 'o, 'k, 'r) async_env \<Rightarrow> nat list \<Rightarrow> nat list \<Rightarrow> ('d, 'p, 'o) async_engine \<Rightarrow> nat list \<times> ('d, 'p, 'o) async_engine" where
  "cleanup_loop e [] reclaimed s = (reclaimed, s)"
| "cleanup_loop e (r # rs) reclaimed s = (case release_slots_transaction e False r s of
     (Inl _, t) \<Rightarrow> cleanup_loop e rs reclaimed t | (Inr _, t) \<Rightarrow> cleanup_loop e rs (reclaimed @ [r]) t)"

definition run_guarded :: "('d, 'p, 'o, 'k, 'r) async_env \<Rightarrow> nat list \<Rightarrow> bool \<Rightarrow> ('d, 'p, 'o, int list \<times> step_logprobs option) engine_op" where
  "run_guarded e rs is_prefill s = (case on_runner (run_sync (dev e) (map (requests (sched s)) rs) is_prefill) s of
     (Inr out, t) \<Rightarrow> (Inr out, t)
   | (Inl err, t) \<Rightarrow> (case cleanup_loop e rs [] (restore_prefills is_prefill rs t) of
       (reclaimed, u) \<Rightarrow> (case on_sched (abort_many (sched_env e) reclaimed) u of
         (Inl err', v) \<Rightarrow> (Inl err', v) | (Inr _, v) \<Rightarrow> (Inl err, v))))"

fun finish_loop :: "('d, 'p, 'o, 'k, 'r) async_env \<Rightarrow> nat list \<Rightarrow> nat list \<Rightarrow> ('d, 'p, 'o) async_engine \<Rightarrow> (unit result \<times> nat list) \<times> ('d, 'p, 'o) async_engine" where
  "finish_loop e [] released s = ((Inr (), released), s)"
| "finish_loop e (r # rs) released s = (case release_slots_transaction e True r s of
     (Inl err, t) \<Rightarrow> ((Inl err, released), t) | (Inr _, t) \<Rightarrow> finish_loop e rs (released @ [r]) t)"

definition finish_released :: "('d, 'p, 'o, 'k, 'r) async_env \<Rightarrow> nat list \<Rightarrow> ('d, 'p, 'o, unit) engine_op" where
  "finish_released e ids s = (case finish_loop e ids [] s of ((res, released), t) \<Rightarrow>
     (case on_sched (abort_many (sched_env e) released) t of (Inl err, u) \<Rightarrow> (Inl err, u) | (Inr _, u) \<Rightarrow> (res, u)))"

definition output_of_request :: "('d, 'o) scheduler \<Rightarrow> nat \<Rightarrow> finished_output" where
  "output_of_request s r = (r, completion_token_ids (requests s r), completion_token_logprobs (requests s r), completion_top_logprobs (requests s r))"

definition chunk_total :: "'d sequence list \<Rightarrow> int result" where
  "chunk_total qs = rfold (\<lambda>q n. case current_chunk_size q of None \<Rightarrow> Inl (TypeError ''unsupported operand type(s) for +'') | Some c \<Rightarrow> Inr (n + c)) qs 0"

definition set_outputs :: "(nat \<times> sampled) list \<Rightarrow> ('d, 'p, 'o) async_engine \<Rightarrow> ('d, 'p, 'o) async_engine" where
  "set_outputs xs s = s\<lparr>last_step_token_outputs := map (\<lambda>(r, t, lp, top). (r, [t])) xs,
     last_step_logprob_outputs := map (\<lambda>(r, t, lp, top). (r, [lp], [top])) xs\<rparr>"

definition run_and_finish :: "('d, 'p, 'o, 'k, 'r) async_env \<Rightarrow> nat list \<Rightarrow> bool \<Rightarrow> ('d, 'p, 'o, finished_output list \<times> int) engine_op" where
  "run_and_finish e rs is_prefill =
     obind (run_guarded e rs is_prefill) (\<lambda>(tokens, logs).
     obind (reads (\<lambda>s. zip rs (zip tokens (zip (default_outputs (length rs) (map_option fst logs)) (default_outputs (length rs) (map_option snd logs)))))) (\<lambda>outs.
     obind (lift_result (\<lambda>s. step_outputs is_prefill (requests (sched s)) outs)) (\<lambda>published.
     oseq (on_sched (postprocess (sched_env e) rs tokens is_prefill (map_option fst logs) (map_option snd logs) True))
     (oseq (writes (set_outputs published))
     (obind (reads (\<lambda>s. filter (\<lambda>r. status (requests (sched s) r) = FINISHED) rs)) (\<lambda>done.
     obind (reads (\<lambda>s. map (output_of_request (sched s)) done)) (\<lambda>finished.
     oseq (finish_released e done)
     (obind (lift_result (\<lambda>s. if is_prefill then chunk_total (map (requests (sched s)) rs) else Inr (- int (length rs)))) (\<lambda>count.
     oseq (on_sched (prefill_execution_mode_counts (sched_env e))) (ret (finished, count)))))))))))"

definition step_sync :: "('d, 'p, 'o, 'k, 'r) async_env \<Rightarrow> ('d, 'p, 'o, finished_output list \<times> int) engine_op" where
  "step_sync e =
     oseq (writes (\<lambda>s. s\<lparr>last_step_token_outputs := [], last_step_prompt_cache_hits := [], last_step_logprob_outputs := []\<rparr>))
     (obind (on_sched (schedule (sched_env e))) (\<lambda>(rs, is_prefill, preempted).
     oseq (writes (\<lambda>s. if is_prefill then s\<lparr>last_step_prompt_cache_hits := map (\<lambda>r. (r, prefix_cache_hit_len (requests (sched s) r))) rs\<rparr> else s))
     (oseq (if rs \<noteq> [] \<and> is_prefill then oseq (on_sched (prefill_execution_mode_for_batch (sched_env e) rs)) (ret ()) else ret ())
     (oseq (release_preempted_sequences e preempted)
     (if rs = []
      then obind (reads (\<lambda>s. preempted \<noteq> [] \<or> pending s = [] \<and> is_finished (sched s))) (\<lambda>idle.
        if idle then oseq (on_sched (prefill_execution_mode_counts (sched_env e))) (ret ([], 0))
        else oseq (on_sched (on_oracle (num_free_slots (memory_oracle (sched_env e)))))
               (raise_error (RuntimeError ''Scheduler returned no runnable sequences and no preemptions'')))
      else run_and_finish e rs is_prefill)))))"

section \<open>The step\<close>

text \<open>Each submission adds a pending step, so the room left is enough fuel.\<close>

fun submit_loop :: "('d, 'p, 'o, 'k, 'r) async_env \<Rightarrow> nat \<Rightarrow> ('d, 'p, 'o, unit) engine_op" where
  "submit_loop e 0 = ret ()"
| "submit_loop e (Suc n) =
     obind (reads (\<lambda>s. int (length (pending s)) < async_max_inflight e)) (\<lambda>room.
     if \<not> room then ret () else obind (submit_step e) (\<lambda>more. if more then submit_loop e n else ret ()))"

definition stops_async :: "('d, 'o, 'k, 'r) sched_env \<Rightarrow> int \<Rightarrow> 'd sequence \<Rightarrow> bool" where
  "stops_async e t q \<longleftrightarrow> \<not> ignore_eos q \<and> t \<in> request_eos e q \<or> max_tokens q \<le> num_completion_tokens q"

definition finish_output :: "nat \<Rightarrow> ('d, 'p, 'o, finished_output list) engine_op" where
  "finish_output r =
     oseq (on_sched (update_request r (\<lambda>q. q\<lparr>status := FINISHED\<rparr>)))
     (oseq (on_sched (drop_from_decoding r))
     (oseq (mark_retiring r) (obind (reads (\<lambda>s. output_of_request (sched s) r)) (\<lambda>out. ret [out]))))"

definition retire_output :: "('d, 'p, 'o, 'k, 'r) async_env \<Rightarrow> nat \<times> int \<times> py_float option \<times> (int, py_float) dict option \<times> bool
    \<Rightarrow> ('d, 'p, 'o, finished_output list) engine_op" where
  "retire_output e = (\<lambda>(r, token, lp, top, publish).
     oseq (output_done (r, publish))
     (obind (reads (\<lambda>s. \<not> publish \<or> r \<in> discarded s)) (\<lambda>skip.
      if skip then ret []
      else oseq (on_sched (update_request r (append_token token lp top)))
       (oseq (writes (\<lambda>s. s\<lparr>last_step_token_outputs := last_step_token_outputs s @ [(r, [token])],
           last_step_logprob_outputs := last_step_logprob_outputs s @ [(r, [lp], [top])]\<rparr>))
       (obind (reads (\<lambda>s. stops_async (sched_env e) token (requests (sched s) r))) (\<lambda>stop. if stop then finish_output r else ret []))))))"

text \<open>The execution mode of a batch of snapshots: the oracle is asked about the snapshots, not about the requests.\<close>

definition snapshot_key :: "('d, 'o, 'k, 'r) sched_env \<Rightarrow> 'd sequence \<Rightarrow> ('d, 'o, string \<times> 'k) sched_op" where
  "snapshot_key e q =
     obind (on_oracle (oracle_execution_mode (memory_oracle e) q)) (\<lambda>m.
     obind (lift_result (\<lambda>_. validate_prefill_execution_mode m)) (\<lambda>mode.
     obind (on_oracle (prefill_batch_compatibility_key (memory_oracle e) q)) (\<lambda>key.
     case key of Hashable k \<Rightarrow> ret (mode, k) | Unhashable \<Rightarrow> raise_error (TypeError ''prefill_batch_compatibility_key must be hashable''))))"

definition snapshot_batch_mode :: "('d, 'o, 'k, 'r) sched_env \<Rightarrow> 'd sequence list \<Rightarrow> ('d, 'o, string) sched_op" where
  "snapshot_batch_mode e qs =
     obind (omap (snapshot_key e) qs) (\<lambda>keys.
     case remdups keys of [k] \<Rightarrow> ret (fst k) | _ \<Rightarrow> raise_error (RuntimeError ''Scheduler produced an incompatible prefill batch''))"

definition retire_step :: "('d, 'p, 'o, 'k, 'r) async_env \<Rightarrow> ('d, 'p, 'o, finished_output list \<times> int) engine_op" where
  "retire_step e =
     obind (reads (\<lambda>s. hd (pending s))) (\<lambda>p.
     obind (collect_head e) (\<lambda>(tokens, logs).
     oseq (writes (\<lambda>s. s\<lparr>last_step_token_outputs := [], last_step_logprob_outputs := [],
       last_step_prompt_cache_hits := (if ps_is_prefill p then map (\<lambda>q. (seq_id q, prefix_cache_hit_len q)) (ps_snapshots p) else [])\<rparr>))
     (obind (reads (\<lambda>_. case logs of None \<Rightarrow> (replicate (length tokens) None, replicate (length tokens) None) | Some l \<Rightarrow> l)) (\<lambda>(sampled, tops).
     obind (omap (retire_output e) (zip (ps_seqs p) (zip tokens (zip sampled (zip tops (ps_publishes p)))))) (\<lambda>finished.
     oseq (drain_discarded e)
     (oseq (retire_ready e)
     (obind (lift_result (\<lambda>_. if ps_is_prefill p then chunk_total (ps_snapshots p) else Inr (- int (length tokens)))) (\<lambda>count.
     oseq (on_sched (prefill_execution_mode_counts (sched_env e)))
     (oseq (if ps_is_prefill p then oseq (on_sched (snapshot_batch_mode (sched_env e) (ps_snapshots p))) (ret ()) else ret ())
     (ret (concat finished, count)))))))))))"

definition async_step :: "('d, 'p, 'o, 'k, 'r) async_env \<Rightarrow> ('d, 'p, 'o, finished_output list \<times> int) engine_op" where
  "async_step e =
     oseq (obind (reads (\<lambda>s. nat (async_max_inflight e - int (length (pending s))))) (submit_loop e))
     (obind (reads pending) (\<lambda>ps. if ps = [] then step_sync e else retire_step e))"

definition engine_step :: "('d, 'p, 'o, 'k, 'r) async_env \<Rightarrow> ('d, 'p, 'o, finished_output list \<times> int) engine_op" where
  "engine_step e =
     obind (reads pending_slot_releases) (\<lambda>ids.
     if ids \<noteq> {} then raise_error (RuntimeError ''Cannot continue scheduling while cache release responsibility is pending'')
     else async_step e)"

text \<open>A view is not changed by tokens that are appended to its history later.\<close>

lemma view_stable: "view_getitem (ts @ us) (length ts) i = view_getitem ts (length ts) i"
  by (auto simp: view_getitem_def Let_def nth_append)

end
