(* ===== verification/Async_Marks.thy ===== *)
theory Async_Marks
  imports Async_Scheduler
begin

text \<open>
  The scheduler never touches the number of outputs in flight of a request, nor its id: the asynchronous scheduler alone
  counts them.  The hooks of the memory oracle and the callbacks promise the same (locale \<open>mark_laws\<close>).
\<close>

declare run_ret [simp del] run_raise [simp del] run_reads [simp del] run_writes [simp del] run_lift [simp del]
  run_raise_if [simp del]

definition same_mark :: "'d sequence \<Rightarrow> 'd sequence \<Rightarrow> bool" where
  "same_mark q q' \<longleftrightarrow> seq_id q' = seq_id q \<and> num_pending_outputs q' = num_pending_outputs q"

definition marks :: "(nat \<Rightarrow> int) \<Rightarrow> ('d, 'o) scheduler \<Rightarrow> bool" where
  "marks c s \<longleftrightarrow> (\<forall>r. seq_id (requests s r) = r \<and> num_pending_outputs (requests s r) = c r)"

definition hook_keeps_marks :: "('d, 'o) hook \<Rightarrow> bool" where
  "hook_keeps_marks m \<longleftrightarrow> (\<forall>q ost x q' ost'. m (q, ost) = (x, q', ost') \<longrightarrow> same_mark q q')"

definition heap_keeps_marks :: "('d, 'o, 'a) heap_hook \<Rightarrow> bool" where
  "heap_keeps_marks m \<longleftrightarrow> (\<forall>h ost x h' ost'. m (h, ost) = (x, h', ost') \<longrightarrow> (\<forall>r. same_mark (h r) (h' r)))"

lemma marks_same: "marks c s \<Longrightarrow> (\<And>r. same_mark (requests s r) (requests t r)) \<Longrightarrow> marks c t"
  by (simp add: marks_def same_mark_def)

lemma same_mark_refl [simp]: "same_mark q q" by (simp add: same_mark_def)

section \<open>Basic methods\<close>

lemma marks_on_oracle [keeps_intro]: "keeps (marks c) (on_oracle m)" "keeps (marks c) (ask n r)"
  by (auto simp: keeps_def ask_def on_oracle_def marks_def split: prod.splits)

lemma marks_run_hook: "hook_keeps_marks m \<Longrightarrow> keeps (marks c) (run_hook m r)"
  by (rule keepsI, erule marks_same) (auto simp: run_hook_def hook_keeps_marks_def split: prod.splits)

lemma marks_on_heap: "heap_keeps_marks m \<Longrightarrow> keeps (marks c) (on_heap m)"
  by (rule keepsI, erule marks_same) (auto simp: on_heap_def heap_keeps_marks_def split: prod.splits)

lemma marks_writes: "(\<And>s. requests (f s) = requests s) \<Longrightarrow> keeps (marks c) (writes f)"
  by (rule keeps_writes) (simp add: marks_def)

lemma marks_update: "(\<And>q. same_mark q (u q)) \<Longrightarrow> keeps (marks c) (update_request r u)"
  unfolding update_request_def by (rule keeps_writes, erule marks_same) auto

lemma marks_on_request: "(\<And>q q'. v q = Inr q' \<Longrightarrow> same_mark q q') \<Longrightarrow> keeps (marks c) (on_request r v)"
  by (rule keepsI, erule marks_same) (auto simp: on_request_def split: sum.splits)

lemma marks_basic [keeps_intro]:
  "keeps (marks c) monotonic" "keeps (marks c) (wait_setdefault r t)" "keeps (marks c) (set_reason y)"
  "keeps (marks c) (decoding_remove r)" "keeps (marks c) (drop_from_decoding r)"
  by (auto simp: wait_setdefault_def set_reason_def drop_from_decoding_def intro!: marks_writes)
     (auto simp: keeps_def monotonic_def decoding_remove_def marks_def)

lemma same_mark_fields [simp]:
  "same_mark q (q\<lparr>status := x1\<rparr>)" "same_mark q (q\<lparr>num_prefilled_tokens := x2\<rparr>)" "same_mark q (q\<lparr>decode_progress_checkpoint := x3\<rparr>)"
  "same_mark q (q\<lparr>current_chunk_size := x4\<rparr>)" "same_mark q (q\<lparr>status := x1, current_chunk_size := x4\<rparr>)"
  "same_mark q (append_token t lp tops q)" "same_mark q (seq_clear_prefix_hit q)"
  by (simp_all add: same_mark_def append_token_def track_sampling_penalty_token_def seq_clear_prefix_hit_def Let_def)

lemma same_mark_replay:
  "start_recompute_replay q = Inr q' \<Longrightarrow> same_mark q q'" "finish_recompute_replay q = Inr q' \<Longrightarrow> same_mark q q'"
  "advance_prefill q = Inr q' \<Longrightarrow> same_mark q q'" "advance_recompute_replay q = Inr q' \<Longrightarrow> same_mark q q'"
  by (auto simp: start_recompute_replay_def finish_recompute_replay_def advance_prefill_def advance_recompute_replay_def
      seq_clear_prefix_hit_def same_mark_def Let_def split: if_splits option.splits)

lemmas marks_steps = marks_writes marks_update marks_on_request

section \<open>The scheduler\<close>

locale mark_laws =
  fixes e :: "('d, 'o, 'k, 'r) sched_env"
  assumes windows_keep_marks: "heap_keeps_marks (reserve_decode_windows (memory_oracle e) ds ws)"
    and admission_keeps_marks: "hook_keeps_marks (on_prompt_admitted (memory_oracle e) costs)"
    and clear_keeps_marks: "hook_keeps_marks (clear_prefix_cache_hit (memory_oracle e))"
    and refresh_keeps_marks: "hook_keeps_marks (prefix_cache_hit_refresher e)"
    and refresh_all_keeps_marks: "prefix_cache_hits_refresher e = Some f \<Longrightarrow> heap_keeps_marks (f rs)"
    and decode_reclaimer_keeps_marks: "decode_capacity_reclaimer e = Some g \<Longrightarrow> heap_keeps_marks (g r)"
    and prefill_reclaimer_keeps_marks: "prefill_capacity_reclaimer e = Some h \<Longrightarrow> heap_keeps_marks (h r)"
    and complete_keeps_marks: "complete_prefill_execution (memory_oracle e) (q, ost) = (x, q', ost')
      \<Longrightarrow> x = Inr () \<and> same_mark q q' \<and> current_chunk_size q' = current_chunk_size q"
begin

lemmas hooks = windows_keep_marks admission_keeps_marks clear_keeps_marks refresh_keeps_marks refresh_all_keeps_marks
  decode_reclaimer_keeps_marks prefill_reclaimer_keeps_marks

lemma marks_complete: "hook_keeps_marks (complete_prefill_execution (memory_oracle e))"
  unfolding hook_keeps_marks_def using complete_keeps_marks by blast

lemma marks_keys [keeps_intro]:
  "keeps (marks c) (prefill_execution_mode e r)" "keeps (marks c) (prefill_batch_key e r)"
  "keeps (marks c) (refresh_prefill_metadata e r)" "keeps (marks c) (reserved_prefill_tokens e)"
  by (auto simp: prefill_execution_mode_def prefill_batch_key_def refresh_prefill_metadata_def reserved_prefill_tokens_def
      intro!: keeps_intro marks_run_hook hooks)

lemma marks_collect [keeps_intro]: "keeps (marks c) (collect_modes e rs ms)"
  by (induction rs arbitrary: ms) (auto intro!: keeps_intro)

lemma marks_order [keeps_intro]:
  "keeps (marks c) (prefill_mode_order e)" "keeps (marks c) (bucket_order e)"
  by (auto simp: prefill_mode_order_def bucket_order_def intro!: keeps_intro marks_on_heap hooks split: option.splits)

lemma marks_pop [keeps_intro]: "keeps (marks c) (pop_next_prefill_seq e target rp)"
proof -
  have "keeps (marks c) (pop_loop e target rp n)" for n
    by (induction n) (auto intro!: keeps_intro marks_steps)
  then show ?thesis by (auto simp: pop_next_prefill_seq_def intro!: keeps_intro)
qed

lemma marks_candidate [keeps_intro]:
  "keeps (marks c) (candidate_capacity e mode r n)" "keeps (marks c) (respect_min_final_prefill_chunk e r remaining proposed)"
  "keeps (marks c) (candidate_tokens e mode r remaining batched free)"
  "keeps (marks c) (block_candidate e mode r remaining free proposed run)"
  "keeps (marks c) (refuse_admission e r failed run)" "keeps (marks c) (schedule_chunk e r can run)"
  "keeps (marks c) (admission_costs e r run)" "keeps (marks c) (accept_admission e r raw shared costs run)"
  by (auto simp: candidate_capacity_def respect_min_final_prefill_chunk_def candidate_tokens_def block_candidate_def
      refuse_admission_def schedule_chunk_def admission_costs_def accept_admission_def Let_def
      intro!: keeps_intro marks_steps marks_run_hook hooks split: option.splits)

lemma marks_prefill [keeps_intro]:
  "keeps (marks c) (prefill_candidate e mode r run)" "keeps (marks c) (bucket_loop e target rp margin n run)"
  "keeps (marks c) (scan_buckets e order rp margin run)"
proof -
  show cand: "keeps (marks c) (prefill_candidate e mode r run)" for mode r run
    by (auto simp: prefill_candidate_def admit_prompt_def intro!: keeps_intro split: option.splits)
  show loop: "keeps (marks c) (bucket_loop e target rp margin n run)" for target rp margin n run
    by (induction n arbitrary: run) (auto intro!: keeps_intro cand)
  show "keeps (marks c) (scan_buckets e order rp margin run)"
    by (induction order arbitrary: run)
       (auto simp: scan_bucket_def restore_skipped_def marks_def [abs_def] intro!: keeps_intro loop [unfolded marks_def [abs_def]] keeps_ofinally keeps_writes)
qed

lemma marks_preempt [keeps_intro]: "keeps (marks c) (preempt_decode_victim e v scheduled preempted)"
  by (auto simp: preempt_decode_victim_def restart_victim_def intro!: keeps_intro marks_steps marks_run_hook hooks intro: same_mark_replay)

lemma marks_affinity [keeps_intro]: "keeps (marks c) (decode_affinity e failure)"
proof -
  have "keeps (marks c) (eligible_decode_loop e free batch rs)" for free batch rs
    by (induction rs arbitrary: free batch) (auto intro!: keeps_intro)
  moreover have "keeps (marks c) (any_overdue ws)" for ws
    by (induction ws) (auto intro!: keeps_intro)
  ultimately show ?thesis
    by (auto simp: decode_affinity_def eligible_decode_batch_def intro!: keeps_intro)
qed

lemma marks_windows [keeps_intro]:
  "keeps (marks c) (decode_window_failure e)" "keeps (marks c) (sort_overdue b)" "keeps (marks c) (query_capacity e)"
  by (auto simp: decode_window_failure_def sort_overdue_def query_capacity_def
      intro!: keeps_intro marks_steps marks_on_heap hooks split: option.splits)

lemma marks_decode_loop [keeps_intro]: "keeps (marks c) (decode_loop e n free scheduled blocked)"
  by (induction n arbitrary: free scheduled blocked) (auto simp: Let_def intro!: keeps_intro marks_steps)

lemma marks_finish [keeps_intro]:
  "keeps (marks c) (finish_decode scheduled blocked)" "keeps (marks c) (report_no_work run)"
  "keeps (marks c) (record_phase now rs p)" "keeps (marks c) (prefill_phase e overdue)"
  by (auto simp: finish_decode_def report_no_work_def record_phase_def prefill_phase_def Let_def intro!: keeps_intro marks_steps)

lemma marks_no_work:
  "(\<And>m. retry = Some m \<Longrightarrow> keeps (marks c) m) \<Longrightarrow> keeps (marks c) (no_runnable_work e retry run)"
  by (auto simp: no_runnable_work_def intro!: keeps_intro marks_on_heap hooks split: option.splits)

lemma marks_round:
  assumes "\<And>m. retry = Some m \<Longrightarrow> keeps (marks c) m"
  shows "keeps (marks c) (schedule_round e retry)"
proof -
  have decode: "keeps (marks c) (decode_phase e retry free run)" for free run
    by (auto simp: decode_phase_def intro!: keeps_intro marks_no_work intro: assms split: decode_scan.splits list.splits option.splits)
  show ?thesis
    unfolding schedule_round_def by (auto intro!: keeps_intro decode split: option.splits)
qed

lemma marks_snapshot:
  assumes "keeps (marks c) m"
  shows "keeps (marks c) (with_capacity_snapshot e m)"
proof (cases "scheduler_capacity_snapshot (memory_oracle e)")
  case None
  then show ?thesis using assms by (simp add: with_capacity_snapshot_def)
next
  case (Some p)
  obtain enter leave where p: "p = (enter, leave)" by (cases p)
  have "keeps (marks c) (\<lambda>s. case m s of (r, s1) \<Rightarrow>
      (case on_oracle leave s1 of (Inl x, s2) \<Rightarrow> (Inl x, s2) | (Inr _, s2) \<Rightarrow> (r, s2)))"
    using assms marks_on_oracle(1) [of c leave] by (auto intro!: keepsI split: prod.splits sum.splits) (metis keepsE)+
  then show ?thesis unfolding with_capacity_snapshot_def Some p by (auto intro!: keeps_intro)
qed

lemma marks_schedule: "keeps (marks c) (schedule e)"
proof -
  have impl: "keeps (marks c) (schedule_impl e True)"
    unfolding schedule_impl_def by (auto intro!: marks_round)
  have "keeps (marks c) (guarded_impl e)"
    by (rule keepsI)
       (auto simp: guarded_impl_def restore_ownership_def Let_def marks_def [abs_def] split: prod.splits sum.splits
         dest: keepsE [OF marks_snapshot [OF impl], unfolded marks_def [abs_def]])
  then show ?thesis unfolding schedule_def by (auto intro!: keeps_intro marks_steps)
qed

lemma marks_abort [keeps_intro]: "keeps (marks c) (abort_many e ids)" "keeps (marks c) (abort_request e r)"
proof -
  have "keeps (marks c) (abort_loop e w requested n retained removed)" for w requested n retained removed
    by (induction n arbitrary: retained removed) (auto simp: set_queue_def intro!: keeps_intro marks_steps split: queue_name.splits)
  then show many: "keeps (marks c) (abort_many e ids)" for ids
    unfolding abort_many_def abort_queue_def by (auto intro!: keeps_intro marks_steps)
  show "keeps (marks c) (abort_request e r)" unfolding abort_request_def by (intro keeps_intro many)
qed

lemma marks_postprocess [keeps_intro]: "keeps (marks c) (postprocess e rs ts p lps tops retain)"
proof -
  have accept: "keeps (marks c) (accept_token e retain m r out)" if "keeps (marks c) m" for m r out
    using that by (cases out) (auto simp: accept_token_def intro!: keeps_intro marks_steps)
  have "keeps (marks c) (postprocess_prefill e retain x)" "keeps (marks c) (postprocess_decode e retain x)" for x
    by (auto simp: postprocess_prefill_def postprocess_decode_def intro!: keeps_intro marks_steps marks_run_hook marks_complete accept
        intro: same_mark_replay split: prod.splits)
  then show ?thesis by (auto simp: postprocess_def Let_def intro!: keeps_intro)
qed

lemma marks_modes [keeps_intro]:
  "keeps (marks c) (prefill_execution_mode_counts e)" "keeps (marks c) (prefill_execution_mode_for_batch e rs)"
  "keeps (marks c) (snapshot_batch_mode e qs)"
  by (auto simp: prefill_execution_mode_counts_def prefill_execution_mode_for_batch_def snapshot_batch_mode_def snapshot_key_def
      intro!: keeps_intro split: list.splits)

end

end
