(* ===== verification/Async_Pipeline.thy ===== *)
theory Async_Pipeline
  imports Async_Marks
begin

text \<open>
  The invariant of the asynchronous pipeline: the steps that the scheduler believes to be in flight are, in order, the
  results the device holds; tickets increase; every request counts exactly its outputs in flight; what is discarded is
  what waits for retirement; and there are never more steps in flight than configured.
\<close>

section \<open>The runner\<close>

definition results_of :: "('d, 'p) model_runner \<Rightarrow> (nat, ('d, 'p) device_result) dict" where
  "results_of w = (case execution w of None \<Rightarrow> [] | Some x \<Rightarrow> results x)"

definition exec_results :: "(nat, ('d, 'p) device_result) dict \<Rightarrow> ('d, 'p) async_execution \<times> 'o \<Rightarrow> bool" where
  "exec_results rs s \<longleftrightarrow> results (fst s) = rs"

definition runner_results :: "(nat, ('d, 'p) device_result) dict \<Rightarrow> ('d, 'p) model_runner \<times> 'o \<Rightarrow> bool" where
  "runner_results rs s \<longleftrightarrow> results_of (fst s) = rs"

lemmas result_defs = exec_results_def runner_results_def

lemma results_exec [keeps_intro]:
  "keeps (exec_results rs) (on_feedback m)" "keeps (exec_results rs) (on_device n)" "keeps (runner_results rs') (on_device n')"
  by (auto simp: keeps_def on_feedback_def on_device_def result_defs split: prod.splits)

lemma results_on_execution [keeps_intro]:
  assumes "\<And>us. keeps (exec_results us) m"
  shows "keeps (runner_results rs) (on_execution m)"
proof (rule keepsI)
  fix s :: "('a, 'b) model_runner \<times> 'c"
  assume s: "runner_results rs s"
  obtain w ost where w: "s = (w, ost)" by (cases s)
  show "runner_results rs (snd (on_execution m s))"
  proof (cases "execution w")
    case None
    then show ?thesis using s by (simp add: on_execution_def w)
  next
    case (Some x)
    have "exec_results (results x) (snd (m (x, ost)))" by (rule keepsD [OF assms]) (simp add: exec_results_def)
    then show ?thesis using s Some by (auto simp: on_execution_def w result_defs results_of_def split: prod.splits)
  qed
qed

lemma results_if_execution [keeps_intro]: "(\<And>us. keeps (exec_results us) m) \<Longrightarrow> keeps (runner_results rs) (if_execution m)"
  unfolding if_execution_def by (intro keeps_intro)

lemma results_forget [keeps_intro]: "keeps (exec_results rs) (writes (\<lambda>(x, ost). (forget ids x, ost)))"
  by (rule keeps_writes) (auto simp: forget_def exec_results_def)

lemma results_once [keeps_intro]: "keeps (runner_results rs) (release_runtime_slots_once v r)"
  by (rule keepsI)
     (auto simp: release_runtime_slots_once_def results_of_def result_defs split: prod.splits option.splits sum.splits release_state.splits)

lemma results_commit [keeps_intro]: "keeps (runner_results rs) (commit_slot_releases ids)"
  unfolding commit_slot_releases_def by (rule keeps_writes) (auto simp: results_of_def result_defs)

lemma results_assert [keeps_intro]: "keeps (runner_results rs) (assert_cache_release v ids)"
  unfolding assert_cache_release_def by (intro keeps_intro)

lemma results_free [keeps_intro]:
  "keeps (runner_results rs) (free_slots v r)" "keeps (runner_results rs) (free_slots_batch v ids)"
  "keeps (runner_results rs) (finish_slots_batch v ids)" "keeps (runner_results rs) (retire_async v ids)"
  "keeps (runner_results rs) (run_sync v qs p)"
proof -
  have "keeps (exec_results us) (\<lambda>(x, ost). case prepare_synchronous_execution x of (r, x') \<Rightarrow> (r, x', ost))" for us
    by (auto simp: keeps_def exec_results_def prepare_synchronous_execution_def obind_def reads_def writes_def raise_error_def split: prod.splits if_splits)
  then show "keeps (runner_results rs) (run_sync v qs p)" unfolding run_sync_def by (intro keeps_intro)
qed (auto simp: free_slots_def free_slots_local_def free_slots_batch_def free_slots_batch_local_def finish_slots_batch_def
    finish_slots_batch_local_def retire_async_def intro!: keeps_intro)

lemma update_new: "map_of d k = None \<Longrightarrow> AList.update k v d = d @ [(k, v)]"
  by (induction d) auto

lemma delete_head: "distinct (map fst ((k, v) # d)) \<Longrightarrow> AList.delete k ((k, v) # d) = d"
  by (auto simp: AList.delete_eq filter_id_conv image_iff)

lemma top_rows_length: "top_rows qs row is vs = Inr rs \<Longrightarrow> length rs = length qs"
  by (induction qs row "is" vs arbitrary: rs rule: top_rows.induct) (auto simp: rbind_eq_Inr)

lemma host_logprobs_length:
  "host_logprobs qs logs = Inr (Some (sampled, tops)) \<Longrightarrow> \<exists>l. logs = Some l \<and> length sampled = length (dl_sampled l) \<and> length tops = length qs"
  by (auto simp: host_logprobs_def rbind_eq_Inr dest: top_rows_length split: option.splits)

text \<open>A submission stores one result under its ticket, or nothing when it raises.\<close>

definition adds_result :: "('d, 'p, 'o) device \<Rightarrow> nat \<Rightarrow> 'd sequence list \<Rightarrow> bool \<Rightarrow> (nat, ('d, 'p) device_result) dict
    \<Rightarrow> (nat, ('d, 'p) device_result) dict \<Rightarrow> bool" where
  "adds_result v t qs p rs rs' \<longleftrightarrow> (\<exists>tokens logs records f ost f' ost' inputs.
     run_forward v qs p (f, ost) = (Inr (tokens, logs, records), f', ost')
     \<and> rs' = rs @ [(t, \<lparr>dr_seqs = qs, dr_is_prefill = p, dr_tokens = tokens, dr_inputs = inputs, dr_logprobs = logs, dr_prefix_records = records\<rparr>)])"

lemma adds_stored:
  assumes "run_forward v qs p (f, ost) = (Inr (tokens, logs, records), f', ost')" "map_of rs t = None" "exec_results rs s"
  shows "wp (writes (\<lambda>(x, ost). (store_result t \<lparr>dr_seqs = qs, dr_is_prefill = p, dr_tokens = tokens, dr_inputs = input_tokens (feedback x),
      dr_logprobs = logs, dr_prefix_records = records\<rparr> x, ost))) (\<lambda>_ s. adds_result v t qs p rs (results (fst s))) E s"
  using assms by (intro wp_writes) (cases s; auto simp: adds_result_def exec_results_def store_result_def Let_def update_new; blast)

lemma submit_execution_ok:
  assumes "map_of rs t = None" "exec_results rs s"
  shows "wp (submit_execution v t qs p) (\<lambda>_ s. adds_result v t qs p rs (results (fst s))) (exec_results rs) s"
proof -
  have run: "wp (on_feedback (run_forward v qs p))
      (\<lambda>out s. exec_results rs s \<and> (\<exists>f ost f' ost'. run_forward v qs p (f, ost) = (Inr out, f', ost'))) (exec_results rs) s"
    if "exec_results rs s" for s :: "('a, 'b) async_execution \<times> 'c"
    using that by (cases s) (auto simp: wp_def on_feedback_def exec_results_def split: prod.splits sum.splits)
  have known: "(case s of (x, _) \<Rightarrow> map_of (results x) t \<noteq> None) = False" using assms by (cases s) (simp add: exec_results_def)
  note kept = wp_conseq [OF keeps_wp [OF results_exec(1)]]
  have rest: "wp (obind (on_feedback (run_forward v qs p)) (\<lambda>(tokens, logs, records).
      oseq (on_feedback (only_feedback (ofor (zip [0..<length qs] qs) (note_sample p tokens))))
       (writes (\<lambda>(x, ost). (store_result t \<lparr>dr_seqs = qs, dr_is_prefill = p, dr_tokens = tokens, dr_inputs = input_tokens (feedback x),
          dr_logprobs = logs, dr_prefix_records = records\<rparr> x, ost)))))
      (\<lambda>_ s. adds_result v t qs p rs (results (fst s))) (exec_results rs) u" if u: "exec_results rs u" for u
    by (rule wp_obind, rule wp_conseq [OF run [OF u]], clarify, rule wp_oseq, rule kept, assumption)
       (auto intro: adds_stored [OF _ assms(1)])
  show ?thesis
    unfolding submit_execution_def
    by (rule wp_obind, rule wp_reads, unfold known if_False, rule wp_oseq, rule kept [OF assms(2)]) (auto intro: rest)
qed

lemma submit_async_ok:
  assumes "map_of rs t = None" "runner_results rs s"
  shows "wp (submit_async v t qs p) (\<lambda>_ s. adds_result v t qs p rs (results_of (fst s))) (runner_results rs) s"
proof -
  have exec: "wp (on_execution (submit_execution v t qs p)) (\<lambda>_ s. adds_result v t qs p rs (results_of (fst s))) (runner_results rs) s"
    if "runner_results rs s" for s
  proof (cases s)
    case (Pair w ost)
    show ?thesis
    proof (cases "execution w")
      case None
      then show ?thesis using that by (simp add: wp_def on_execution_def Pair)
    next
      case (Some x)
      have "exec_results rs (x, ost)" using that Some by (simp add: Pair result_defs results_of_def)
      from submit_execution_ok [OF assms(1) this, of v qs p] show ?thesis
        using Some by (auto simp: wp_def on_execution_def Pair result_defs results_of_def split: prod.splits sum.splits)
    qed
  qed
  have "wp (if fresh then oseq (raise_if (\<not> supports_streams v) (ValueError ''Asynchronous execution currently requires CUDA''))
      (writes (\<lambda>(w, ost). (w\<lparr>execution := Some init_execution\<rparr>, ost))) else ret ()) (\<lambda>_. runner_results rs) (runner_results rs) s"
    if "fresh = (case s of (w, _) \<Rightarrow> execution w = None)" for fresh
    using assms(2) that by (cases s) (auto intro!: wp_intro simp: result_defs results_of_def init_execution_def)
  then show ?thesis unfolding submit_async_def by (auto intro!: wp_obind wp_oseq wp_reads intro: wp_conseq exec)
qed

text \<open>Collecting takes exactly the result of the ticket, or nothing when it raises.\<close>

definition takes_result :: "nat \<Rightarrow> (nat, ('d, 'p) device_result) dict \<Rightarrow> int list \<times> step_logprobs option
    \<Rightarrow> (nat, ('d, 'p) device_result) dict \<Rightarrow> bool" where
  "takes_result t rs out rs' \<longleftrightarrow> (\<exists>r. map_of rs t = Some r \<and> rs' = AList.delete t rs \<and> fst out = dr_tokens r
     \<and> (\<forall>sampled tops. snd out = Some (sampled, tops) \<longrightarrow>
          (\<exists>l. dr_logprobs r = Some l \<and> length sampled = length (dl_sampled l)) \<and> length tops = length (dr_seqs r)))"

lemma collect_execution_ok:
  assumes "exec_results rs s"
  shows "wp (collect_execution v t ids) (\<lambda>out s. takes_result t rs out (results (fst s))) (exec_results rs) s"
proof (cases "map_of rs t")
  case None
  then have "(case s of (x, _) \<Rightarrow> map_of (results x) t) = None" using assms by (cases s) (simp add: exec_results_def)
  then show ?thesis using assms unfolding collect_execution_def by (auto intro!: wp_obind wp_reads wp_raise)
next
  case (Some r)
  then have res: "(case s of (x, _) \<Rightarrow> map_of (results x) t) = Some r" using assms by (cases s) (simp add: exec_results_def)
  have mat: "keeps (exec_results rs) (materialize v r ids x)" for x
    by (auto simp: materialize_def intro!: keeps_intro split: option.splits)
  note kept = wp_conseq [OF keeps_wp [where P = "exec_results rs"]]
  have rest: "wp (obind (lift_result (\<lambda>_. host_logprobs (dr_seqs r) (dr_logprobs r))) (\<lambda>logs.
      oseq (writes (\<lambda>(x, ost). (x\<lparr>completed := completed x + 1, results := AList.delete t (results x)\<rparr>, ost))) (ret (dr_tokens r, logs))))
      (\<lambda>out s. takes_result t rs out (results (fst s))) (exec_results rs) u" if "exec_results rs u" for u :: "('a, 'b) async_execution \<times> 'c"
    using that Some by (cases u) (auto intro!: wp_intro simp: takes_result_def exec_results_def dest!: host_logprobs_length)
  show ?thesis
    unfolding collect_execution_def
    by (rule wp_obind, rule wp_reads, unfold res option.case, rule wp_oseq, rule kept [OF results_exec(2) assms])
       ((rule wp_oseq wp_if wp_ret rest kept [OF keeps_ofor [OF mat]] kept [OF results_exec(2)] | assumption)+)
qed

lemma collect_async_ok:
  assumes "runner_results rs s"
  shows "wp (collect_async v t ids) (\<lambda>out s. takes_result t rs out (results_of (fst s))) (runner_results rs) s"
proof (cases s)
  case (Pair w ost)
  show ?thesis
  proof (cases "execution w")
    case None
    then show ?thesis using assms by (simp add: wp_def collect_async_def on_execution_def Pair)
  next
    case (Some x)
    have "exec_results rs (x, ost)" using assms Some by (simp add: Pair result_defs results_of_def)
    from collect_execution_ok [OF this, of v t ids] show ?thesis
      using Some by (auto simp: wp_def collect_async_def on_execution_def Pair result_defs results_of_def split: prod.splits sum.splits)
  qed
qed

section \<open>The invariant\<close>

definition pending_ok :: "'d pending_step \<Rightarrow> bool" where
  "pending_ok p \<longleftrightarrow> map seq_id (ps_snapshots p) = ps_seqs p \<and> length (ps_publishes p) = length (ps_seqs p)"

text \<open>A result belongs to a step.\<close>

definition result_of_step :: "'d pending_step \<Rightarrow> nat \<times> ('d, 'p) device_result \<Rightarrow> bool" where
  "result_of_step p = (\<lambda>(t, r). t = ticket p \<and> dr_seqs r = ps_snapshots p \<and> length (dr_tokens r) = length (ps_seqs p)
     \<and> (\<forall>l. dr_logprobs r = Some l \<longrightarrow> length (dl_sampled l) = length (ps_seqs p)))"

definition step_outputs_of :: "'d pending_step \<Rightarrow> nat \<Rightarrow> int" where
  "step_outputs_of p r = int (count_list (zip (ps_seqs p) (ps_publishes p)) (r, True))"

text \<open>How many outputs of a request the pending steps will publish.\<close>

definition outputs_in_flight :: "'d pending_step list \<Rightarrow> nat \<Rightarrow> int" where
  "outputs_in_flight ps r = sum_list (map (\<lambda>p. step_outputs_of p r) ps)"

text \<open>The invariant with \<open>n\<close> steps at most, where the requests count \<open>d\<close> outputs beside those in flight.\<close>

definition pipeline :: "int \<Rightarrow> (nat \<Rightarrow> int) \<Rightarrow> ('d, 'p, 'o) async_engine \<Rightarrow> bool" where
  "pipeline n d s \<longleftrightarrow> sorted_wrt (<) (map ticket (pending s)) \<and> (\<forall>p \<in> set (pending s). ticket p < next_ticket s \<and> pending_ok p)
     \<and> list_all2 result_of_step (pending s) (results_of (runner s))
     \<and> marks (\<lambda>r. outputs_in_flight (pending s) r + d r) (sched s)
     \<and> retiring s = discarded s \<and> finite (discarded s) \<and> int (length (pending s)) \<le> n"

abbreviation pipeline_ok :: "int \<Rightarrow> ('d, 'p, 'o) async_engine \<Rightarrow> bool" where
  "pipeline_ok n \<equiv> pipeline n (\<lambda>_. 0)"

lemma result_tickets: "list_all2 result_of_step ps rs \<Longrightarrow> map fst rs = map ticket ps"
  by (induction rule: list_all2_induct) (auto simp: result_of_step_def)

lemma marks_oracle [simp]: "marks c (s\<lparr>oracle_state := ost\<rparr>) = marks c s" "marks c (s\<lparr>waiting := ws\<rparr>) = marks c s"
  "marks c (s\<lparr>async_inflight := k\<rparr>) = marks c s"
  by (simp_all add: marks_def)

lemma wp_on_sched:
  "wp m (\<lambda>x t. Q x (s\<lparr>sched := t\<rparr>)) (\<lambda>t. E (s\<lparr>sched := t\<rparr>)) (sched s) \<Longrightarrow> wp (on_sched m) Q E s"
  by (auto simp: wp_def on_sched_def split: prod.splits sum.splits)

lemma wp_on_runner:
  "wp m (\<lambda>x u. Q x (s\<lparr>runner := fst u, sched := (sched s)\<lparr>oracle_state := snd u\<rparr>\<rparr>))
     (\<lambda>u. E (s\<lparr>runner := fst u, sched := (sched s)\<lparr>oracle_state := snd u\<rparr>\<rparr>)) (runner s, oracle_state (sched s)) \<Longrightarrow> wp (on_runner m) Q E s"
  by (auto simp: wp_def on_runner_def split: prod.splits sum.splits)

lemma pipeline_on_runner [keeps_intro]:
  assumes "\<And>rs. keeps (runner_results rs) m"
  shows "keeps (pipeline n d) (on_runner m)"
proof (rule keepsI)
  fix s :: "('a, 'b, 'c) async_engine"
  assume s: "pipeline n d s"
  have "runner_results (results_of (runner s)) (snd (m (runner s, oracle_state (sched s))))"
    by (rule keepsD [OF assms]) (simp add: runner_results_def)
  then show "pipeline n d (snd (on_runner m s))"
    using s by (auto simp: on_runner_def pipeline_def runner_results_def split: prod.splits)
qed

lemma pipeline_on_sched [keeps_intro]:
  fixes m :: "('d, 'o, 'a) sched_op"
  assumes "\<And>c. keeps (marks c) m"
  shows "keeps (pipeline n d :: ('d, 'p, 'o) async_engine \<Rightarrow> bool) (on_sched m)"
proof (rule keepsI)
  fix s :: "('d, 'p, 'o) async_engine"
  assume s: "pipeline n d s"
  then have "marks (\<lambda>r. outputs_in_flight (pending s) r + d r) (snd (m (sched s)))"
    by (intro keepsD [OF assms]) (simp add: pipeline_def)
  then show "pipeline n d (snd (on_sched m s))"
    using s by (auto simp: on_sched_def pipeline_def split: prod.splits)
qed

lemma pipeline_release [keeps_intro]: "keeps (pipeline n d) m \<Longrightarrow> keeps (pipeline n d) (with_release ids m)"
  unfolding with_release_def by (intro keeps_intro keeps_writes) (auto simp: pipeline_def)

lemma pipeline_preempted [keeps_intro]: "keeps (pipeline n d) (release_preempted_sequences e ids)"
  unfolding release_preempted_sequences_def by (intro keeps_intro)

lemma pipeline_transaction [keeps_intro]: "keeps (pipeline n d) (release_slots_transaction e b r)"
  unfolding release_slots_transaction_def by (auto intro!: keeps_intro split: if_splits)

section \<open>Results are taken in order\<close>

lemma outputs_Cons: "outputs_in_flight (p # ps) r = step_outputs_of p r + outputs_in_flight ps r"
  by (simp add: outputs_in_flight_def)

lemma collect_head_ok:
  assumes "pipeline n d s" "pending s = p # ps"
  shows "wp (collect_head e) (\<lambda>(tokens, logs). \<lambda>t. pipeline n (\<lambda>r. step_outputs_of p r + d r) t \<and> pending t = ps \<and> length tokens = length (ps_seqs p)
      \<and> (\<forall>sampled tops. logs = Some (sampled, tops) \<longrightarrow> length sampled = length (ps_seqs p) \<and> length tops = length (ps_seqs p)))
    (pipeline n d) s"
proof -
  obtain x rs where rs: "results_of (runner s) = x # rs" "result_of_step p x" "list_all2 result_of_step ps rs"
    using assms by (auto simp: pipeline_def list_all2_Cons1)
  obtain r where x: "x = (ticket p, r)" using rs(2) by (cases x) (auto simp: result_of_step_def)
  have dist: "distinct (map fst (x # rs))"
    using assms result_tickets [OF rs(3)] by (auto simp: pipeline_def x strict_sorted_iff dest: sorted_wrt_less_sum_mono_lowerbound)
  have ids: "length (ps_snapshots p) = length (ps_seqs p)"
    using assms by (auto simp: pipeline_def pending_ok_def dest: arg_cong [where f = length])
  have take: "wp (on_runner (collect_async (dev e) (ticket p) ids)) (\<lambda>out t. takes_result (ticket p) (x # rs) out (results_of (runner t))
      \<and> (\<exists>w ost. t = s\<lparr>runner := w, sched := (sched s)\<lparr>oracle_state := ost\<rparr>\<rparr>))
      (\<lambda>t. results_of (runner t) = x # rs \<and> (\<exists>w ost. t = s\<lparr>runner := w, sched := (sched s)\<lparr>oracle_state := ost\<rparr>\<rparr>)) s" for ids
    using collect_async_ok [of "x # rs" "(runner s, oracle_state (sched s))" "dev e" "ticket p" ids] rs(1)
    by (auto simp: wp_def on_runner_def runner_results_def split: prod.splits sum.splits)
  have taken: "pipeline n (\<lambda>r. step_outputs_of p r + d r) (t\<lparr>pending := tl (pending t)\<rparr>) \<and> pending (t\<lparr>pending := tl (pending t)\<rparr>) = ps
      \<and> length (fst out) = length (ps_seqs p)
      \<and> (\<forall>sampled tops. snd out = Some (sampled, tops) \<longrightarrow> length sampled = length (ps_seqs p) \<and> length tops = length (ps_seqs p))"
    if out: "takes_result (ticket p) (x # rs) out (results_of (runner t))" and t: "t = s\<lparr>runner := w, sched := (sched s)\<lparr>oracle_state := ost\<rparr>\<rparr>" for out t w ost
  proof -
    have left: "results_of w = rs" using out delete_head [OF dist [unfolded x]] by (simp add: takes_result_def x t)
    have "marks (\<lambda>r. outputs_in_flight ps r + (step_outputs_of p r + d r)) (sched s)"
      using assms by (simp add: pipeline_def outputs_Cons add.assoc add.left_commute)
    then have "pipeline n (\<lambda>r. step_outputs_of p r + d r) (t\<lparr>pending := tl (pending t)\<rparr>)"
      using assms left rs(3) by (simp add: pipeline_def t)
    then show ?thesis using out rs(2) assms(2) ids by (auto simp: takes_result_def x result_of_step_def t)
  qed
  have failed: "pipeline n d t" if "results_of (runner t) = x # rs" "t = s\<lparr>runner := w, sched := (sched s)\<lparr>oracle_state := ost\<rparr>\<rparr>" for t w ost
    using that assms rs(1) by (simp add: pipeline_def)
  have read: "(ticket (hd (pending s)), sorted_list_of_set (discarded s)) = (ticket p, sorted_list_of_set (discarded s))" using assms(2) by simp
  show ?thesis
    unfolding collect_head_def
    by (rule wp_obind, rule wp_reads, unfold read prod.case, rule wp_obind, rule wp_conseq [OF take])
       (auto intro!: wp_oseq wp_writes wp_ret dest: taken failed simp: case_prod_beta)
qed

text \<open>An output that is done is counted no longer.\<close>

definition counted :: "(nat \<times> bool) list \<Rightarrow> nat \<Rightarrow> int" where
  "counted xs r = int (count_list xs (r, True))"

lemma counted_simps [simp]: "counted [] r = 0" "counted (x # xs) r = (if x = (r, True) then 1 else 0) + counted xs r"
  by (simp_all add: counted_def)

lemma step_outputs_counted: "step_outputs_of p = counted (zip (ps_seqs p) (ps_publishes p))"
  by (rule ext) (simp add: step_outputs_of_def counted_def)

lemma output_done_ok:
  "pipeline n (\<lambda>r. counted [x] r + d r) s \<Longrightarrow> wp (output_done x) (\<lambda>_ t. pipeline n d t \<and> pending t = pending s) (\<lambda>_. False) s"
  by (cases x) (auto simp: output_done_def on_sched_def update_request_def wp_def writes_def ret_def pipeline_def marks_def)

lemma output_loop_ok:
  "pipeline n (\<lambda>r. counted xs r + d r) s \<Longrightarrow> wp (ofor xs output_done) (\<lambda>_ t. pipeline n d t \<and> pending t = pending s) (\<lambda>_. False) s"
proof (induction xs arbitrary: s)
  case Nil
  then show ?case by (simp add: wp_ret)
next
  case (Cons x xs)
  have "pipeline n (\<lambda>r. counted [x] r + (counted xs r + d r)) s" using Cons.prems by (simp add: add.assoc)
  note first = output_done_ok [OF this]
  show ?case by (auto intro!: wp_oseq wp_conseq [OF first] wp_conseq [OF Cons.IH])
qed

lemma drain_ok: "keeps (pipeline_ok n) (drain_loop e k)"
proof (induction k)
  case 0
  then show ?case by (simp add: keeps_ret)
next
  case (Suc k)
  show ?case
  proof (rule wp_keeps)
    fix s :: "('a, 'b, 'c) async_engine"
    assume s: "pipeline_ok n s"
    show "wp (drain_loop e (Suc k)) (\<lambda>_. pipeline_ok n) (pipeline_ok n) s"
    proof (cases "head_discarded s")
      case False
      then show ?thesis using s by (auto intro!: wp_obind wp_reads wp_ret)
    next
      case True
      then obtain p ps where ps: "pending s = p # ps" by (cases "pending s") (auto simp: head_discarded_def)
      have loop: "wp (ofor (zip (ps_seqs p) (ps_publishes p)) output_done) (\<lambda>_. pipeline_ok n) (\<lambda>_. False) t"
        if "pipeline n (\<lambda>r. step_outputs_of p r) t" for t :: "('a, 'b, 'c) async_engine"
        using output_loop_ok [of n "zip (ps_seqs p) (ps_publishes p)" "\<lambda>_. 0" t] that
        by (auto simp: step_outputs_counted elim: wp_conseq)
      have rest: "wp (ofor (zip (ps_seqs p) (ps_publishes p)) output_done)
          (\<lambda>_. wp (drain_loop e k) (\<lambda>_. pipeline_ok n) (pipeline_ok n)) (pipeline_ok n) t"
        if "pipeline n (step_outputs_of p) t" for t :: "('a, 'b, 'c) async_engine"
        by (rule wp_conseq [OF loop [OF that]]) (auto intro: keeps_wp [OF Suc.IH])
      show ?thesis
        using True ps collect_head_ok [OF s ps, of e] by (auto intro!: wp_obind wp_reads wp_oseq elim!: wp_conseq intro: rest)
    qed
  qed
qed

lemma pipeline_drain [keeps_intro]: "keeps (pipeline_ok n) (drain_discarded e)"
  unfolding drain_discarded_def by (intro keeps_intro drain_ok)

lemma pipeline_ready [keeps_intro]: "keeps (pipeline n d) (retire_ready e)"
  unfolding retire_ready_def by (intro keeps_intro keeps_writes) (auto simp: pipeline_def)

lemma pipeline_mark [keeps_intro]: "keeps (pipeline n d) (mark_retiring r)"
  unfolding mark_retiring_def by (intro keeps_writes) (auto simp: pipeline_def)

section \<open>Submission\<close>

text \<open>
  The device promises one token per request of a forward pass, and one logprob when logprobs are returned.
\<close>

locale pipeline_laws = mark_laws "sched_env e" for e :: "('d, 'p, 'o, 'k, 'r) async_env" +
  assumes forward_lengths: "run_forward (dev e) qs b (f, ost) = (Inr (tokens, logs, records), f', ost')
    \<Longrightarrow> length tokens = length qs \<and> (\<forall>l. logs = Some l \<longrightarrow> length (dl_sampled l) = length qs)"
begin

lemma pipeline_abort: "keeps (pipeline_ok n) (async_abort e r)"
  unfolding async_abort_def by (intro keeps_intro)

lemma pipeline_ahead [keeps_intro]: "keeps (pipeline n d :: ('d, 'p, 'o) async_engine \<Rightarrow> bool) (schedule_ahead e)"
proof (rule keepsI)
  fix s :: "('d, 'p, 'o) async_engine"
  assume s: "pipeline n d s"
  let ?c = "\<lambda>r. outputs_in_flight (pending s) r + d r"
  have "marks ?c (snd (schedule (sched_env e) ((sched s)\<lparr>async_inflight := length (pending s)\<rparr>)))"
    using s by (intro keepsD [OF marks_schedule]) (simp add: pipeline_def)
  then show "pipeline n d (snd (schedule_ahead e s))"
    using s by (auto simp: schedule_ahead_def pipeline_def split: prod.splits)
qed

definition submitting :: "nat set \<Rightarrow> (nat \<Rightarrow> int) \<Rightarrow> ('d, 'o) scheduler \<Rightarrow> bool" where
  "submitting A c s \<longleftrightarrow> marks c s \<and> (\<forall>r \<in> A. current_chunk_size (requests s r) \<noteq> None)"

lemma submitting_fields [simp]:
  "submitting A c (s\<lparr>clock_readings := n\<rparr>) = submitting A c s" "submitting A c (s\<lparr>prefill_wait_since := w\<rparr>) = submitting A c s"
  "submitting A c (s\<lparr>waiting := ws\<rparr>) = submitting A c s" "submitting A c (s\<lparr>decoding := ds\<rparr>) = submitting A c s"
  "submitting A c (s\<lparr>requests := (requests s)(r := requests s r\<lparr>status := st\<rparr>)\<rparr>) = submitting A c s"
  by (auto simp: submitting_def marks_def)

lemma submitting_hook:
  assumes "submitting A c s"
  shows "wp (run_hook (complete_prefill_execution (memory_oracle (sched_env e))) r) (\<lambda>_. submitting A c) (\<lambda>_. False) s"
proof -
  obtain y q ost where y: "complete_prefill_execution (memory_oracle (sched_env e)) (requests s r, oracle_state s) = (y, q, ost)"
    by (rule prod_cases3)
  then show ?thesis using assms complete_keeps_marks [OF y] by (simp add: wp_def run_hook_def submitting_def marks_def same_mark_def)
qed

lemma submitting_advance:
  assumes "submitting A c s" "r \<in> A"
  shows "wp (on_request r advance_prefill) (\<lambda>_. submitting A c) (\<lambda>_. False) s"
  using assms by (auto simp: wp_def on_request_def advance_prefill_def submitting_def marks_def split: option.splits)

lemma after_submission_ok:
  assumes "submitting A c s" "b \<Longrightarrow> fst x \<in> A"
  shows "wp (after_submission (sched_env e) b x) (\<lambda>_. submitting A (\<lambda>r. c r + counted [x] r)) (\<lambda>_. False) s"
proof -
  obtain r p where x: "x = (r, p)" by (cases x)
  have mark: "wp (if p then update_request r (\<lambda>q. q\<lparr>num_pending_outputs := num_pending_outputs q + 1\<rparr>) else ret ())
      (\<lambda>_. submitting A (\<lambda>r. c r + counted [x] r)) (\<lambda>_. False) s"
    using assms(1) by (auto simp: x submitting_def marks_def intro!: wp_if wp_update_request wp_ret)
  define c' where "c' = (\<lambda>r. c r + counted [x] r)"
  have rest: "wp (if \<not> b then ret ()
      else oseq (on_request r advance_prefill)
       (obind (reads (\<lambda>s. num_prefilled_tokens (requests s r) < num_prompt_tokens (requests s r))) (\<lambda>more.
        if more
        then oseq (update_request r (\<lambda>q. q\<lparr>status := WAITING\<rparr>))
             (obind monotonic (\<lambda>t. oseq (wait_setdefault r t) (writes (\<lambda>s. s\<lparr>waiting := r # waiting s\<rparr>))))
        else oseq (run_hook (complete_prefill_execution (memory_oracle (sched_env e))) r)
             (oseq (update_request r (\<lambda>q. q\<lparr>status := RUNNING\<rparr>)) (writes (\<lambda>s. s\<lparr>decoding := decoding s @ [r]\<rparr>))))))
      (\<lambda>_. submitting A c') (\<lambda>_. False) t" if "submitting A c' t" for t
    using assms(2) that
    by (auto simp: x intro!: wp_oseq wp_obind wp_reads wp_if wp_ret wp_writes wp_update_request wp_monotonic wp_wait_setdefault
        wp_conseq [OF submitting_advance [where A = A and c = c']] wp_conseq [OF submitting_hook [where A = A and c = c']])
  show ?thesis
    unfolding after_submission_def x prod.case
    by (rule wp_oseq, rule wp_conseq [OF mark [unfolded x]], erule rest [unfolded c'_def x]) simp
qed

lemma submitted_ok:
  "submitting A c s \<Longrightarrow> (b \<Longrightarrow> fst ` set xs \<subseteq> A)
   \<Longrightarrow> wp (ofor xs (after_submission (sched_env e) b)) (\<lambda>_. submitting A (\<lambda>r. c r + counted xs r)) (\<lambda>_. False) s"
proof (induction xs arbitrary: c s)
  case Nil
  then show ?case by (simp add: wp_ret)
next
  case (Cons x xs)
  have first: "wp (after_submission (sched_env e) b x) (\<lambda>_. submitting A (\<lambda>r. c r + counted [x] r)) (\<lambda>_. False) s"
    using Cons.prems by (intro after_submission_ok) auto
  have next_: "wp (ofor xs (after_submission (sched_env e) b)) (\<lambda>_. submitting A (\<lambda>r. c r + counted (x # xs) r)) (\<lambda>_. False) t"
    if "submitting A (\<lambda>r. c r + counted [x] r) t" for t
    by (rule wp_conseq [OF Cons.IH [OF that]]) (use Cons.prems(2) in \<open>auto simp: add.assoc\<close>)
  show ?case unfolding ofor.simps by (rule wp_oseq, rule wp_conseq [OF first], erule next_) simp
qed

lemma publish_flags_ok:
  "publish_flags b qs = Inr ps \<Longrightarrow> length ps = length qs \<and> (b \<longrightarrow> (\<forall>q \<in> set qs. current_chunk_size q \<noteq> None))"
  by (induction b qs arbitrary: ps rule: publish_flags.induct)
     (auto simp: rbind_eq_Inr is_last_chunk_prefill_def split: option.splits if_splits)

lemma snapshot_fields [simp]:
  "seq_id (execution_snapshot q) = seq_id q" "current_chunk_size (execution_snapshot q) = current_chunk_size q"
  by (simp_all add: execution_snapshot_def)

lemma restored_ok: "pipeline n d s \<Longrightarrow> pipeline n d (restore_prefills b rs s)"
  by (simp add: restore_prefills_def pipeline_def)

text \<open>The device has taken the step: what is left is to count its outputs and to append it.\<close>

lemma append_step_ok:
  assumes "pipeline n (\<lambda>_. 0) s" "int (length (pending s)) < n" "t = next_ticket s" "snaps = map (\<lambda>r. execution_snapshot (requests (sched s) r)) rs"
    "publish_flags b snaps = Inr pubs" "adds_result (dev e) t snaps b (results_of (runner s)) (results_of w)"
  shows "wp (oseq (on_sched (ofor (zip rs pubs) (after_submission (sched_env e) b)))
      (writes (\<lambda>s. s\<lparr>pending := pending s @ [\<lparr>ticket = t, ps_seqs = rs, ps_snapshots = snaps, ps_is_prefill = b, ps_publishes = pubs\<rparr>]\<rparr>)))
    (\<lambda>_. pipeline_ok n) (\<lambda>_. False) (s\<lparr>next_ticket := Suc t, runner := w, sched := (sched s)\<lparr>oracle_state := ost\<rparr>\<rparr>)"
proof -
  let ?p = "\<lparr>ticket = t, ps_seqs = rs, ps_snapshots = snaps, ps_is_prefill = b, ps_publishes = pubs\<rparr>"
  let ?s = "(sched s)\<lparr>oracle_state := ost\<rparr>"
  have m: "marks (outputs_in_flight (pending s)) (sched s)" using assms(1) by (simp add: pipeline_def)
  have flags: "length pubs = length rs" "b \<Longrightarrow> \<forall>r \<in> set rs. current_chunk_size (requests (sched s) r) \<noteq> None"
    using publish_flags_ok [OF assms(5)] assms(4) by auto
  have "submitting (if b then set rs else {}) (outputs_in_flight (pending s)) ?s"
    using m flags(2) by (auto simp: submitting_def)
  note loop = submitted_ok [OF this, of b "zip rs pubs"]
  have ids: "map seq_id snaps = rs" using m assms(4) by (simp add: marks_def map_idI)
  then have step: "pending_ok ?p" using flags(1) by (simp add: pending_ok_def)
  obtain r where r: "results_of w = results_of (runner s) @ [(t, r)]" "result_of_step ?p (t, r)"
    using assms(6) by (auto simp: adds_result_def result_of_step_def assms(4) dest!: forward_lengths)
  have results: "list_all2 result_of_step (pending s @ [?p]) (results_of w)"
    using assms(1) r by (auto simp: pipeline_def intro: list_all2_appendI)
  have sorted: "sorted_wrt (<) (map ticket (pending s @ [?p]))" using assms(1,3) by (auto simp: pipeline_def sorted_wrt_append)
  have outs: "outputs_in_flight (pending s @ [?p\<lparr>ticket := i\<rparr>]) = (\<lambda>r. outputs_in_flight (pending s) r + counted (zip rs pubs) r)" for i
    by (rule ext) (simp add: outputs_in_flight_def step_outputs_counted)
  have appended: "pipeline_ok n (s\<lparr>next_ticket := Suc t, runner := w, sched := u, pending := pending s @ [?p]\<rparr>)"
    if "submitting A (\<lambda>r. outputs_in_flight (pending s) r + counted (zip rs pubs) r) u" for A u
    using assms(1,2,3) results sorted step that outs [of t] by (auto simp: pipeline_def submitting_def less_Suc_eq)
  have "fst ` set (zip rs pubs) \<subseteq> set rs" by (auto dest: set_zip_leftD)
  then have run: "wp (ofor (zip rs pubs) (after_submission (sched_env e) b))
      (\<lambda>_. submitting (if b then set rs else {}) (\<lambda>r. outputs_in_flight (pending s) r + counted (zip rs pubs) r)) (\<lambda>_. False)
      (sched (s\<lparr>next_ticket := Suc t, runner := w, sched := (sched s)\<lparr>oracle_state := ost\<rparr>\<rparr>))"
    using loop by simp
  show ?thesis
    by (rule wp_oseq, rule wp_on_sched, rule wp_conseq [OF run]) (auto intro!: wp_writes dest: appended)
qed

lemma submit_batch_ok:
  assumes "pipeline_ok n s" "int (length (pending s)) < n"
  shows "wp (submit_batch e rs b) (\<lambda>_. pipeline_ok n) (pipeline_ok n) s"
proof -
  let ?s = "s\<lparr>next_ticket := Suc (next_ticket s)\<rparr>"
  have s: "pipeline_ok n ?s" using assms(1) by (auto simp: pipeline_def less_Suc_eq)
  have fresh: "map_of (results_of (runner s)) (next_ticket s) = None"
  proof -
    have "map fst (results_of (runner s)) = map ticket (pending s)" using assms(1) by (intro result_tickets) (simp add: pipeline_def)
    from arg_cong [OF this, of set] have "fst ` set (results_of (runner s)) = ticket ` set (pending s)" by simp
    then show ?thesis using assms(1) by (auto simp: map_of_eq_None_iff pipeline_def)
  qed
  have failed: "pipeline_ok n (restore_prefills b rs (?s\<lparr>runner := w, sched := (sched s)\<lparr>oracle_state := ost\<rparr>\<rparr>))"
    if "results_of w = results_of (runner s)" for w ost
    using s that by (intro restored_ok) (simp add: pipeline_def)
  have submit: "wp (on_raise (on_runner (submit_async (dev e) (next_ticket s) qs b)) (restore_prefills b rs))
      (\<lambda>_ t. \<exists>w ost. t = ?s\<lparr>runner := w, sched := (sched s)\<lparr>oracle_state := ost\<rparr>\<rparr>
         \<and> adds_result (dev e) (next_ticket s) qs b (results_of (runner s)) (results_of w)) (pipeline_ok n) ?s" for qs
  proof -
    have "wp (on_runner (submit_async (dev e) (next_ticket s) qs b))
      (\<lambda>_ t. \<exists>w ost. t = ?s\<lparr>runner := w, sched := (sched s)\<lparr>oracle_state := ost\<rparr>\<rparr>
         \<and> adds_result (dev e) (next_ticket s) qs b (results_of (runner s)) (results_of w)) (\<lambda>t. pipeline_ok n (restore_prefills b rs t)) ?s"
      using fresh by (intro wp_on_runner wp_conseq [OF submit_async_ok [where rs = "results_of (runner s)"]])
        (auto simp: runner_results_def failed)
    then show ?thesis by (auto simp: wp_def on_raise_def split: prod.splits sum.splits)
  qed
  show ?thesis
    unfolding submit_batch_def
    apply (intro wp_obind wp_reads wp_lift)
     apply (rule wp_oseq, rule wp_writes, rule wp_oseq, rule wp_conseq [OF submit])
      apply (clarify, rule wp_conseq [OF append_step_ok [OF assms refl refl]], assumption+)
       apply (simp_all add: assms(1))
    done
qed

lemma submit_step_ok:
  assumes "pipeline_ok n s" "int (length (pending s)) < n"
  shows "wp (submit_step e) (\<lambda>_. pipeline_ok n) (pipeline_ok n) s"
proof -
  let ?I = "\<lambda>t. pipeline_ok n t \<and> pending t = pending s"
  have ahead: "wp (schedule_ahead e) (\<lambda>_. ?I) (pipeline_ok n) s"
  proof -
    have "wp (schedule_ahead e) (\<lambda>_ t. pending t = pending s) (\<lambda>_. True) s"
      by (auto simp: wp_def schedule_ahead_def split: prod.splits sum.splits)
    from wp_conj [OF keeps_wp [OF pipeline_ahead assms(1)] this] show ?thesis by (rule wp_conseq) auto
  qed
  have release: "wp (release_preempted_sequences e ids) (\<lambda>_. ?I) (pipeline_ok n) t" if t: "?I t" for ids and t :: "('d, 'p, 'o) async_engine"
  proof -
    have "wp (release_preempted_sequences e ids) (\<lambda>_ u. pending u = pending s) (\<lambda>_. True) t"
      using t unfolding release_preempted_sequences_def with_release_def
      by (auto intro!: wp_if wp_ret wp_oseq wp_writes wp_on_runner wpI)
    from wp_conj [OF keeps_wp [OF pipeline_preempted conjunct1 [OF t]] this] show ?thesis by (rule wp_conseq) auto
  qed
  have batch: "wp (submit_batch e rs b) (\<lambda>_. pipeline_ok n) (pipeline_ok n) t" if "?I t" for rs b t
    using submit_batch_ok [of n t] that assms(2) by simp
  show ?thesis
    unfolding submit_step_def
    using assms(1) by (auto intro!: wp_obind wp_reads wp_if wp_ret wp_option wp_prod wp_oseq wp_writes restored_ok
        wp_conseq [OF ahead] wp_conseq [OF release] wp_conseq [OF batch])
qed

lemma submit_loop_ok: "async_max_inflight e \<le> n \<Longrightarrow> keeps (pipeline_ok n) (submit_loop e k)"
proof (induction k)
  case 0
  then show ?case by (simp add: keeps_ret)
next
  case (Suc k)
  then show ?case
    by (intro wp_keeps) (auto intro!: wp_obind wp_reads wp_if wp_ret wp_conseq [OF submit_step_ok] wp_conseq [OF keeps_wp [OF Suc.IH]])
qed

section \<open>Retirement\<close>

lemma pipeline_outputs [simp]:
  "pipeline n d (s\<lparr>last_step_token_outputs := x, last_step_logprob_outputs := y\<rparr>) = pipeline n d s"
  "pipeline n d (s\<lparr>last_step_token_outputs := x, last_step_logprob_outputs := y, last_step_prompt_cache_hits := z\<rparr>) = pipeline n d s"
  "pipeline n d (s\<lparr>last_step_token_outputs := x, last_step_prompt_cache_hits := z, last_step_logprob_outputs := y\<rparr>) = pipeline n d s"
  "pipeline n d (s\<lparr>last_step_prompt_cache_hits := z\<rparr>) = pipeline n d s"
  by (simp_all add: pipeline_def)

lemma retire_output_ok:
  assumes "pipeline n (\<lambda>r. counted [(a, p)] r + d r) s"
  shows "wp (retire_output e (a, tok, lp, tp, p)) (\<lambda>_. pipeline n d) (\<lambda>_. False) s"
proof -
  have upd: "wp (on_sched (update_request a u)) (\<lambda>_. pipeline n d) (\<lambda>_. False) t" if "pipeline n d t" "\<And>q. same_mark q (u q)" for u t
  proof (rule wp_on_sched, rule wp_update_request)
    let ?t = "(sched t)\<lparr>requests := (requests (sched t))(a := u (requests (sched t) a))\<rparr>"
    have "marks c ?t" if "marks c (sched t)" for c
      by (rule marks_same [OF that]) (simp add: \<open>\<And>q. same_mark q (u q)\<close>)
    then show "pipeline n d (t\<lparr>sched := ?t\<rparr>)" using that(1) by (simp add: pipeline_def)
  qed
  have drop: "wp (on_sched (drop_from_decoding a)) (\<lambda>_. pipeline n d) (\<lambda>_. False) t" if "pipeline n d t" for t
    using that by (intro wp_on_sched wp_drop_from_decoding) (simp add: pipeline_def marks_def)
  have mark: "wp (mark_retiring a) (\<lambda>_. pipeline n d) (\<lambda>_. False) t" if "pipeline n d t" for t
    using that unfolding mark_retiring_def by (intro wp_writes) (auto simp: pipeline_def)
  have finish: "wp (finish_output a) (\<lambda>_. pipeline n d) (\<lambda>_. False) t" if "pipeline n d t" for t
    using that unfolding finish_output_def
    by (intro wp_oseq wp_obind wp_reads wp_ret wp_conseq [OF upd] wp_conseq [OF drop] wp_conseq [OF mark]) auto
  show ?thesis
    unfolding retire_output_def prod.case
    by (rule wp_oseq, rule wp_conseq [OF output_done_ok [OF assms]])
       (auto intro!: wp_obind wp_reads wp_if wp_ret wp_oseq wp_writes wp_conseq [OF upd] finish)
qed

lemma retire_outputs_ok:
  "pipeline n (\<lambda>r. counted (map (\<lambda>(a, _, _, _, p). (a, p)) ys) r + d r) s \<Longrightarrow> wp (omap (retire_output e) ys) (\<lambda>_. pipeline n d) (\<lambda>_. False) s"
proof (induction ys arbitrary: s)
  case Nil
  then show ?case by (simp add: wp_ret)
next
  case (Cons y ys)
  obtain a tok lp tp p where y: "y = (a, tok, lp, tp, p)" by (rule prod_cases5)
  have "pipeline n (\<lambda>r. counted [(a, p)] r + (counted (map (\<lambda>(a, _, _, _, p). (a, p)) ys) r + d r)) s"
    using Cons.prems by (simp add: y add.assoc)
  note first = retire_output_ok [OF this]
  show ?case unfolding omap.simps y
    by (rule wp_obind, rule wp_conseq [OF first]) (auto intro!: wp_obind wp_ret intro: wp_conseq [OF Cons.IH])
qed

lemma zip_flags:
  "length ts = length rs \<Longrightarrow> length as = length rs \<Longrightarrow> length bs = length rs \<Longrightarrow> length ps = length rs
   \<Longrightarrow> map (\<lambda>(a, _, _, _, p). (a, p)) (zip rs (zip ts (zip as (zip bs ps)))) = zip rs ps"
  by (rule nth_equalityI) (auto simp: nth_zip)

lemma retire_step_ok:
  assumes "pipeline_ok n s" "pending s \<noteq> []"
  shows "wp (retire_step e) (\<lambda>_. pipeline_ok n) (pipeline_ok n) s"
proof -
  obtain p ps where ps: "pending s = p # ps" using assms(2) by (cases "pending s") auto
  have hd: "hd (pending s) = p" using ps by simp
  have flags: "length (ps_publishes p) = length (ps_seqs p)" using assms(1) ps by (simp add: pipeline_def pending_ok_def)
  have outs: "wp (omap (retire_output e) (zip (ps_seqs p) (zip ts (zip as (zip bs (ps_publishes p)))))) (\<lambda>_. pipeline_ok n) (\<lambda>_. False) t"
    if "pipeline n (step_outputs_of p) t" "length ts = length (ps_seqs p)" "length as = length (ps_seqs p)" "length bs = length (ps_seqs p)"
      for ts as bs t
    using that(1) zip_flags [OF that(2-4) flags] by (intro retire_outputs_ok) (simp add: step_outputs_counted)
  have rest: "keeps (pipeline_ok n) (oseq (drain_discarded e) (oseq (retire_ready e)
     (obind (lift_result (\<lambda>_. if ps_is_prefill p then chunk_total (ps_snapshots p) else Inr (- int (length tokens)))) (\<lambda>count.
     oseq (on_sched (prefill_execution_mode_counts (sched_env e)))
     (oseq (if ps_is_prefill p then oseq (on_sched (snapshot_batch_mode (sched_env e) (ps_snapshots p))) (ret ()) else ret ())
     (ret (concat finished, count)))))))" for tokens finished
    by (intro keeps_intro)
  show ?thesis
    unfolding retire_step_def
    apply (rule wp_obind, rule wp_reads, unfold hd, rule wp_obind)
    apply (rule wp_conseq [OF collect_head_ok [OF assms(1) ps]])
     apply (clarify, rule wp_oseq, rule wp_writes, rule wp_obind, rule wp_reads, rule wp_prod, rule wp_obind)
     apply (rule wp_conseq [OF outs], simp)
         apply assumption
        apply (force split: option.splits)
       apply (force split: option.splits)
      apply (erule keeps_wp [OF rest])
     apply simp_all
    done
qed

section \<open>The synchronous step\<close>

lemma pipeline_reclaim: "pipeline n d s \<Longrightarrow> pipeline n d (snd (cleanup_loop e' rs reclaimed s))"
  by (induction rs arbitrary: reclaimed s)
     (auto split: prod.splits sum.splits dest!: keepsE [OF pipeline_transaction])

lemma pipeline_finish: "pipeline n d s \<Longrightarrow> pipeline n d (snd (finish_loop e' rs released s))"
  by (induction rs arbitrary: released s)
     (auto split: prod.splits sum.splits dest!: keepsE [OF pipeline_transaction])

lemma pipeline_guarded [keeps_intro]: "keeps (pipeline n d) (run_guarded e rs b)"
proof (rule keepsI)
  fix s :: "('d, 'p, 'o) async_engine"
  assume s: "pipeline n d s"
  obtain out t where run: "on_runner (run_sync (dev e) (map (requests (sched s)) rs) b) s = (out, t)" by fastforce
  have t: "pipeline n d t" using keepsE [OF pipeline_on_runner run s] results_free(5) by blast
  show "pipeline n d (snd (run_guarded e rs b s))"
  proof (cases out)
    case (Inr _)
    then show ?thesis using run t by (simp add: run_guarded_def)
  next
    case (Inl err)
    obtain rec u where rec: "cleanup_loop e rs [] (restore_prefills b rs t) = (rec, u)" by fastforce
    have u: "pipeline n d u" using pipeline_reclaim [OF restored_ok [OF t, of b rs], of e rs "[]"] rec by simp
    have "pipeline n d (snd (on_sched (abort_many (sched_env e) rec) u))" by (rule keepsD [OF pipeline_on_sched u]) (rule marks_abort)
    then show ?thesis using run Inl rec by (auto simp: run_guarded_def split: prod.splits sum.splits)
  qed
qed

lemma pipeline_finished [keeps_intro]: "keeps (pipeline n d) (finish_released e ids)"
proof (rule keepsI)
  fix s :: "('d, 'p, 'o) async_engine"
  assume s: "pipeline n d s"
  obtain res released t where loop: "finish_loop e ids [] s = ((res, released), t)" by (metis prod.collapse)
  have t: "pipeline n d t" using pipeline_finish [OF s, of e ids "[]"] loop by simp
  have "pipeline n d (snd (on_sched (abort_many (sched_env e) released) t))" by (rule keepsD [OF pipeline_on_sched t]) (rule marks_abort)
  then show "pipeline n d (snd (finish_released e ids s))" using loop by (auto simp: finish_released_def split: prod.splits sum.splits)
qed

lemma pipeline_sync [keeps_intro]: "keeps (pipeline n d) (step_sync e)"
proof -
  have run: "keeps (pipeline n d) (run_and_finish e rs b)" for rs b
    unfolding run_and_finish_def by (intro keeps_intro keeps_writes) (simp_all add: set_outputs_def)
  show ?thesis
    unfolding step_sync_def by (intro keeps_intro run marks_schedule keeps_writes) (simp_all split: if_splits)
qed

lemma pipeline_step:
  assumes "async_max_inflight e \<le> n"
  shows "keeps (pipeline_ok n) (engine_step e)"
proof -
  have loop: "keeps (pipeline_ok n) (submit_loop e k)" for k by (rule submit_loop_ok [OF assms])
  have "wp (obind (reads pending) (\<lambda>ps. if ps = [] then step_sync e else retire_step e)) (\<lambda>_. pipeline_ok n) (pipeline_ok n) s"
    if "pipeline_ok n s" for s
    using that by (auto intro!: wp_obind wp_reads wp_if wp_conseq [OF keeps_wp [OF pipeline_sync]] wp_conseq [OF retire_step_ok])
  then have "keeps (pipeline_ok n) (async_step e)"
    unfolding async_step_def by (intro keeps_oseq keeps_obind keeps_reads loop wp_keeps)
  then show ?thesis unfolding engine_step_def by (intro keeps_intro)
qed

end

end
