(* ===== verification/Async_Serving.thy ===== *)
theory Async_Serving
  imports Async_Pipeline
begin

text \<open>
  The asynchronous engine over the runtime state: its laws hold for the runtime, and the invariant of the pipeline
  holds whenever requests arrive, are cancelled and steps are taken, also when calls raise.
\<close>

section \<open>The runtime state keeps the laws\<close>

locale runtime_marks =
  fixes se :: "('d, 'm runtime, 'k, 'c + 'x) sched_env" and rt :: "('d, 'm, 'k, 'c, 'x) runtime_env"
  assumes runtime_behind: "memory_oracle se = runtime_oracle rt"
    and runtime_refreshes: "prefix_cache_hit_refresher se = refresh_prefix_cache_hit (runtime_oracle rt)"
    and refresh_all_marks: "prefix_cache_hits_refresher se = Some f \<Longrightarrow> heap_keeps_marks (f rs)"
    and decode_reclaimer_marks: "decode_capacity_reclaimer se = Some g \<Longrightarrow> heap_keeps_marks (g r)"
    and prefill_reclaimer_marks: "prefill_capacity_reclaimer se = Some h \<Longrightarrow> heap_keeps_marks (h r)"
    and manager_admission_marks: "hook_keeps_marks (cm_on_prompt_admitted (cache_manager rt) costs)"
    and manager_refresh_marks: "hook_keeps_marks (cm_refresh_prefix_cache_hit (cache_manager rt))"
    and manager_clear_marks: "hook_keeps_marks (cm_clear_prefix_cache_hit (cache_manager rt))"
    and coordinator_refresh_marks: "prefix_cache_coordinator rt = Some pc \<Longrightarrow> hook_keeps_marks (pc_refresh_prefix_cache_hit pc)"
    and manager_complete: "cm_complete_prefill_execution (cache_manager rt) (q, m) = (x, q', m')
      \<Longrightarrow> x = Inr () \<and> same_mark q q' \<and> current_chunk_size q' = current_chunk_size q"

lemma manager_hook_marks: "hook_keeps_marks f \<Longrightarrow> hook_keeps_marks (manager_hook f)"
  by (auto simp: hook_keeps_marks_def manager_hook_def split: prod.splits)

sublocale runtime_marks \<subseteq> mark_laws se
proof unfold_locales
  show "heap_keeps_marks (reserve_decode_windows (memory_oracle se) ds ws)" for ds ws
    by (auto simp: runtime_behind runtime_oracle_def heap_keeps_marks_def rt_reserve_decode_windows_def split: prod.splits)
next
  show "hook_keeps_marks (on_prompt_admitted (memory_oracle se) costs)" for costs
    using manager_hook_marks [OF manager_admission_marks [of costs]]
    by (auto simp: runtime_behind runtime_oracle_def hook_keeps_marks_def rt_on_prompt_admitted_def split: prod.splits sum.splits) blast+
next
  show "hook_keeps_marks (prefix_cache_hit_refresher se)"
    using manager_hook_marks [OF manager_refresh_marks] manager_hook_marks [OF manager_clear_marks] manager_hook_marks [OF coordinator_refresh_marks]
    by (fastforce simp: runtime_refreshes runtime_oracle_def hook_keeps_marks_def rt_refresh_prefix_cache_hit_def split: if_splits option.splits)
next
  show "x = Inr () \<and> same_mark q q' \<and> current_chunk_size q' = current_chunk_size q"
    if "complete_prefill_execution (memory_oracle se) (q, ost) = (x, q', ost')" for q ost x q' ost'
    using that by (auto simp: runtime_behind runtime_oracle_def manager_hook_def split: prod.splits dest: manager_complete)
qed (auto simp: runtime_behind runtime_oracle_def refresh_all_marks decode_reclaimer_marks prefill_reclaimer_marks manager_hook_marks manager_clear_marks)

locale runtime_pipeline = runtime_marks "sched_env e" rt
  for e :: "('d, 'p, 'm runtime, 'k, 'c + 'x) async_env" and rt :: "('d, 'm, 'k, 'c, 'x) runtime_env" +
  assumes forward_tokens: "run_forward (dev e) qs b (f, ost) = (Inr (tokens, logs, records), f', ost')
    \<Longrightarrow> length tokens = length qs \<and> (\<forall>l. logs = Some l \<longrightarrow> length (dl_sampled l) = length qs)"

sublocale runtime_pipeline \<subseteq> pipeline_laws e
  by unfold_locales (rule forward_tokens)

section \<open>Serving\<close>

text \<open>
  Requests arrive with a fresh id, they are cancelled, pruning jobs come and go, and the engine steps; any of the
  calls may raise.
\<close>

inductive async_serving :: "('d, 'p, 'o, 'k, 'r) async_env \<Rightarrow> ('d, 'p, 'o) async_engine \<Rightarrow> bool" for e where
  async_start: "marks (\<lambda>_. 0) s \<Longrightarrow> async_serving e (init_async s)"
| async_submit: "async_serving e s \<Longrightarrow> r \<notin> referenced s \<Longrightarrow> seq_id q = r \<Longrightarrow> num_pending_outputs q = 0
    \<Longrightarrow> on_sched (add_request r) (s\<lparr>sched := (sched s)\<lparr>requests := (requests (sched s))(r := q)\<rparr>\<rparr>) = (x, t) \<Longrightarrow> async_serving e t"
| async_cancel: "async_serving e s \<Longrightarrow> async_abort e r s = (x, t) \<Longrightarrow> async_serving e t"
| async_prune: "async_serving e s \<Longrightarrow> async_serving e (s\<lparr>pending_prefix_prune_ids := ids\<rparr>)"
| async_run: "async_serving e s \<Longrightarrow> engine_step e s = (y, t) \<Longrightarrow> async_serving e t"

lemma outputs_unreferenced:
  assumes "r \<notin> referenced s"
  shows "outputs_in_flight (pending s) r = 0"
proof -
  have "step_outputs_of p r = 0" if "p \<in> set (pending s)" for p
    using assms that by (auto simp: referenced_def step_outputs_of_def count_list_0_iff dest: set_zip_leftD)
  then have "map (\<lambda>p. step_outputs_of p r) (pending s) = map (\<lambda>_. 0) (pending s)" by (intro map_cong) auto
  then show ?thesis unfolding outputs_in_flight_def by (simp only: sum_list_0)
qed

lemma marks_add: "keeps (marks c) (add_request r)"
  unfolding add_request_def by (auto intro!: keeps_intro marks_steps)

context pipeline_laws
begin

lemma serving_pipeline: "async_serving e s \<Longrightarrow> pipeline_ok (max 0 (async_max_inflight e)) s"
proof (induction rule: async_serving.induct)
  case (async_start s)
  then show ?case by (simp add: pipeline_def init_async_def results_of_def outputs_in_flight_def)
next
  case (async_submit s r q x t)
  have "marks (outputs_in_flight (pending s)) ((sched s)\<lparr>requests := (requests (sched s))(r := q)\<rparr>)"
    using async_submit outputs_unreferenced [of r s] by (auto simp: pipeline_def marks_def)
  then have "pipeline_ok (max 0 (async_max_inflight e)) (s\<lparr>sched := (sched s)\<lparr>requests := (requests (sched s))(r := q)\<rparr>\<rparr>)"
    using async_submit.IH by (simp add: pipeline_def)
  then show ?case by (rule keepsE [OF pipeline_on_sched [OF marks_add] async_submit.hyps(5)])
next
  case (async_cancel s r x t)
  then show ?case by (intro keepsE [OF pipeline_abort async_cancel.hyps(2)])
next
  case (async_prune s ids)
  then show ?case by (simp add: pipeline_def)
next
  case (async_run s y t)
  then show ?case by (intro keepsE [OF pipeline_step async_run.hyps(2)]) auto
qed

end

section \<open>An engine with a sampler\<close>

text \<open>
  A forward pass that samples one token for each request from the request and, when decoding, from the token that
  \<open>prepare_inputs\<close> feeds back, and that registers penalties as \<open>apply_penalties\<close> does; releases go to the runtime state.
\<close>

definition sampler_forward :: "('d sequence \<Rightarrow> int option \<Rightarrow> int) \<Rightarrow> 'd sequence list \<Rightarrow> bool
    \<Rightarrow> (async_feedback \<times> 'o, ('d, 'p) forward_result) op" where
  "sampler_forward model qs b = only_feedback
     (obind (if b then ret (map (\<lambda>_. None) qs) else obind (prepare_inputs qs) (\<lambda>ts. ret (map Some ts))) (\<lambda>ins.
      oseq (writes (fold register_penalty qs)) (ret (map (\<lambda>(q, t). model q t) (zip qs ins), None, []))))"

definition sampler_device :: "('d sequence \<Rightarrow> int option \<Rightarrow> int) \<Rightarrow> ('d, 'm, 'k, 'c, 'x) runtime_env \<Rightarrow> ('d, unit, 'm runtime) device" where
  "sampler_device model rt = \<lparr>supports_streams = True, is_stream_capturing = (\<lambda>_. False), run_forward = sampler_forward model,
     run_forward_sync = (\<lambda>qs b. ret (map (\<lambda>q. model q (last_token q)) qs, None)), synchronize_event = ret (),
     record_frozen_prefix = (\<lambda>_ _ _. ret ()), publish_pending_prefix_blocks = (\<lambda>_. ret ()), runtime_free_seq = rt_free_seq rt,
     multimodal_free = (\<lambda>_. ret ()), multimodal_free_batch = (\<lambda>_. ret ())\<rparr>"

definition async_base :: "('d sequence \<Rightarrow> int option \<Rightarrow> int) \<Rightarrow> int \<Rightarrow> bool \<Rightarrow> ('d, 'm runtime, 'k, 'c + 'x) sched_env
    \<Rightarrow> ('d, 'm, 'k, 'c, 'x) runtime_env \<Rightarrow> ('d, unit, 'm runtime, 'k, 'c + 'x) async_env" where
  "async_base model inflight committed se rt = \<lparr>sched_env = se, dev = sampler_device model rt, async_max_inflight = inflight,
     requires_committed_token_history = committed\<rparr>"

lemma feedback_tokens_length: "feedback_tokens f qs = Inr ts \<Longrightarrow> length ts = length qs"
  by (induction qs arbitrary: ts) (auto simp: rbind_eq_Inr)

lemma sampler_lengths:
  "sampler_forward model qs b (f, ost) = (Inr (tokens, logs, records), f', ost') \<Longrightarrow> length tokens = length qs \<and> logs = None"
  by (auto simp: sampler_forward_def only_feedback_def prepare_inputs_def obind_def oseq_def ret_def lift_result_def writes_def
      dest: feedback_tokens_length split: prod.splits sum.splits if_splits)

interpretation base_async: runtime_pipeline
  "async_base model inflight committed (create_scheduler seqs tokens decodes favor chunk eos (base_runtime places step free free_seq layers))
     (base_runtime places step free free_seq layers)"
  "base_runtime places step free free_seq layers"
  for model inflight committed seqs tokens decodes favor chunk eos places step free free_seq layers
proof unfold_locales
  let ?rt = "base_runtime places step free free_seq layers"
  let ?e = "async_base model inflight committed (create_scheduler seqs tokens decodes favor chunk eos ?rt) ?rt"
  show "x = Inr () \<and> same_mark q q' \<and> current_chunk_size q' = current_chunk_size q"
    if "cm_complete_prefill_execution (cache_manager ?rt) (q, m) = (x, q', m')" for q m x q' m'
    using that by (auto simp: base_runtime_def base_manager_def base_complete_prefill_execution_def base_reset_prefill_execution_state_def writes_def)
  show "length toks = length qs \<and> (\<forall>l. logs = Some l \<longrightarrow> length (dl_sampled l) = length qs)"
    if "run_forward (dev ?e) qs b (f, ost) = (Inr (toks, logs, records), f', ost')" for qs b f ost toks logs records f' ost'
    using that by (auto simp: async_base_def sampler_device_def dest: sampler_lengths)
qed (auto simp: async_base_def create_scheduler_def resolve_refresher_def base_runtime_def base_manager_def hook_keeps_marks_def
    heap_keeps_marks_def ret_def)

section \<open>Properties\<close>

lemma in_flight_iff: "in_flight ids x \<longleftrightarrow> set ids \<inter> (\<Union>(_, r) \<in> set (results x). seq_id ` set (dr_seqs r)) \<noteq> {}"
  by (auto simp: in_flight_def)

text \<open>
  C5. The asynchronous pipeline: at every moment of serving, also after exceptions, the device holds exactly the results of
  the steps that the scheduler has in flight, in the order of their tickets; there are at most \<open>async_max_inflight\<close> of them;
  and every request counts exactly the outputs that those steps will publish for it.
\<close>

theorem async_pipeline_exact:
  assumes "pipeline_laws e" "async_serving e s"
  shows "map fst (results_of (runner s)) = map ticket (pending s) \<and> sorted_wrt (<) (map ticket (pending s))
    \<and> int (length (pending s)) \<le> max 0 (async_max_inflight e)
    \<and> (\<forall>r. num_pending_outputs (requests (sched s) r) = outputs_in_flight (pending s) r)"
  using pipeline_laws.serving_pipeline [OF assms] result_tickets by (auto simp: pipeline_def marks_def)

text \<open>
  C7. Releases: in every state of serving, the check of the worker before it frees cache slots accepts exactly the requests that no
  step in flight refers to, so the retirement of finished and cancelled requests is never refused.
\<close>

theorem release_check_exact:
  assumes "pipeline_laws e" "async_serving e s" "execution (runner s) = Some x"
  shows "(assert_releasable ids x = Inr () \<longleftrightarrow> set ids \<inter> referenced s = {})
    \<and> assert_releasable (sorted_list_of_set (retiring s - referenced s)) x = Inr ()"
proof -
  have ok: "pipeline_ok (max 0 (async_max_inflight e)) s" by (rule pipeline_laws.serving_pipeline [OF assms(1,2)])
  then have "list_all2 result_of_step (pending s) (results x)" "\<forall>p \<in> set (pending s). pending_ok p"
    using assms(3) by (auto simp: pipeline_def results_of_def)
  then have "(\<Union>(_, r) \<in> set (results x). seq_id ` set (dr_seqs r)) = referenced s"
    unfolding referenced_def
  proof (induction rule: list_all2_induct)
    case Nil
    then show ?case by simp
  next
    case (Cons p ps y rs)
    have "seq_id ` set (ps_snapshots p) = set (ps_seqs p)" using Cons.prems by (auto simp: pending_ok_def simp flip: set_map)
    then show ?case using Cons by (auto simp: result_of_step_def)
  qed
  then have "in_flight ids x \<longleftrightarrow> set ids \<inter> referenced s \<noteq> {}" for ids using in_flight_iff [of ids x] by simp
  moreover have "finite (retiring s)" using ok by (simp add: pipeline_def)
  ultimately show ?thesis by (auto simp: assert_releasable_def)
qed


section \<open>A concrete run\<close>

text \<open>One request with two prompt tokens: the prefill and the first decode step are submitted, the prefill is retired.\<close>

definition echo_env :: "(nat, unit, int base_state runtime, unit, nat + nat) async_env" where
  "echo_env = async_base (\<lambda>q t. case t of None \<Rightarrow> 9 | Some i \<Rightarrow> i + 1) 2 False tiny_engine tiny_runtime"

definition echo_start :: "(nat, unit, int base_state runtime) async_engine" where
  "echo_start = init_async (init_scheduler (\<lambda>r. init_sequence r [3, 4] sample_params)
     \<lparr>manager = \<lparr>raw_offload_prefill_phases = None, physical = 20\<rparr>, decode_reservations = \<lparr>window = 4, reserved_ends = []\<rparr>, resident_seq_ids = {}\<rparr> (\<lambda>_. 0))"

definition echo_queued :: "(nat, unit, int base_state runtime) async_engine" where
  "echo_queued = snd (on_sched (add_request 1) echo_start)"

definition echo_running :: "(nat, unit, int base_state runtime) async_engine" where
  "echo_running = snd (engine_step echo_env echo_queued)"

lemmas async_run_defs =
  register_penalty_def echo_start_def echo_queued_def echo_env_def async_base_def init_async_def on_sched_def submit_step_def may_submit_def has_work_def
  schedule_ahead_def release_preempted_sequences_def submit_batch_def on_raise_def on_runner_def is_last_chunk_prefill_def
  execution_snapshot_def submit_async_def on_execution_def submit_execution_def on_feedback_def only_feedback_def sampler_device_def
  sampler_forward_def note_sample_def store_result_def init_execution_def after_submission_def advance_prefill_def
  base_complete_prefill_execution_def base_reset_prefill_execution_state_def engine_step_def async_step_def retire_step_def collect_head_def
  collect_async_def collect_execution_def on_device_def host_logprobs_def retire_output_def output_done_def stops_async_def request_eos_def
  drain_discarded_def retire_ready_def referenced_def head_discarded_def chunk_total_def prefill_execution_mode_counts_def
  snapshot_batch_mode_def snapshot_key_def eval_nat_numeral prepare_inputs_def initial_tokens_def feedback_token_def decode_input_token_def
  is_recompute_decode_def append_token_def Let_def has_sampling_penalty_def resolve_eos_token_ids_def as_eos_token_id_set_def
  submitted_output_count_def init_reservations_def release_window_def amount_def add_costs_def outstanding_def needs_acquisition_def
  window_length_def acquire_one_def acquire_many_def acquire_def base_window_costs_def reserve_of_def affordable_def held_def priced_def
  ledger_def window_fits_def window_state_def sample_reservations_def init_runtime_def on_manager_def manager_hook_def on_reservations_def
  rt_outstanding_def try_finally_def mixed_prefix_step_reclaimable_slots_def mixed_prefix_admission_reclaimable_slots_def
  mixed_prefix_boundary_limit_def step_required_slots_def evict_mixed_prefix_for_step_def free_seq_payload_def rt_free_seq_def
  capacity_after_reservations_def rt_prefill_step_free_slots_def rt_prompt_admission_free_slots_def rt_prefill_step_free_slots_for_def
  rt_decode_step_free_slots_def rt_decode_step_free_slots_for_def rt_prefill_execution_mode_def reserved_budget_def add_evictable_def
  rt_prompt_admission_budgets_def hit_evictable_slots_def rt_prompt_admission_cost_def rt_prompt_logical_reservation_cost_def
  add_hit_slots_def rt_prompt_admission_costs_def rt_on_prompt_admitted_def update_all_def mixed_budget_def
  rt_prompt_admission_shared_costs_def rt_refresh_prefix_cache_hit_def rt_free_slot_stats_def pending_prefill_def add_chain_slots_def
  chain_pending_def add_reclaimable_def window_budgets_def acquire_windows_def rt_reserve_decode_windows_def runtime_oracle_def
  base_remaining_prefill_tokens_def apply_sticky_raw_offload_mode_def base_reserved_prefill_slots_def largest_def
  base_capacity_after_reservations_def base_prompt_admission_cost_def base_prompt_admission_budgets_def base_manager_def

lemma echo_run:
  "map ticket (pending echo_running) = [1]" "last_step_token_outputs echo_running = [(1, [9])]"
  "num_pending_outputs (requests (sched echo_running) 1) = 1"
  "\<exists>x. execution (runner echo_running) = Some x"
  by (simp_all add: echo_running_def async_run_defs tiny_run sched_run cong: obind_lazy oseq_lazy)

lemma echo_laws: "pipeline_laws echo_env"
  unfolding echo_env_def by (rule base_async.pipeline_laws_axioms)

lemma echo_serving: "async_serving echo_env echo_running"
proof -
  have start: "async_serving echo_env echo_start"
    unfolding echo_start_def by (rule async_start) (simp add: marks_def init_scheduler_def init_sequence_def)
  have heap: "echo_start\<lparr>sched := (sched echo_start)\<lparr>requests := (requests (sched echo_start))(1 := init_sequence 1 [3, 4] sample_params)\<rparr>\<rparr> = echo_start"
    by (simp add: echo_start_def init_async_def init_scheduler_def fun_upd_idem)
  have "async_serving echo_env echo_queued"
    using async_submit [OF start, of 1 "init_sequence 1 [3, 4] sample_params" "fst (on_sched (add_request 1) echo_start)" echo_queued, unfolded heap]
    by (simp add: echo_queued_def echo_start_def init_async_def referenced_def init_sequence_def)
  then show ?thesis by (rule async_run [of _ _ "fst (engine_step echo_env echo_queued)"]) (simp add: echo_running_def)
qed

theorem async_pipeline_exact_witness:
  "map fst (results_of (runner echo_running)) = [1] \<and> num_pending_outputs (requests (sched echo_running) 1) = 1
   \<and> outputs_in_flight (pending echo_running) 1 = 1"
  using async_pipeline_exact [OF echo_laws echo_serving] echo_run by simp

theorem release_check_exact_witness:
  "\<exists>x. execution (runner echo_running) = Some x
     \<and> (assert_releasable [1] x = Inr () \<longleftrightarrow> {1} \<inter> referenced echo_running = {})
     \<and> assert_releasable (sorted_list_of_set (retiring echo_running - referenced echo_running)) x = Inr ()"
  using release_check_exact [OF echo_laws echo_serving, of _ "[1]"] echo_run(4) by auto

section \<open>Requests are conserved\<close>

definition holds_requests :: "nat multiset \<Rightarrow> ('d, 'p, 'o) async_engine \<Rightarrow> bool" where
  "holds_requests M s \<longleftrightarrow> queued (sched s) = M \<and> skipped_prefill (sched s) = []"

text \<open>The queues hold \<open>M\<close>, and the requests of \<open>A\<close> have a chunk.\<close>

definition batched :: "nat set \<Rightarrow> nat multiset \<Rightarrow> ('d, 'o) scheduler \<Rightarrow> bool" where
  "batched A M s \<longleftrightarrow> queued s = M \<and> skipped_prefill s = [] \<and> (\<forall>r \<in> A. current_chunk_size (requests s r) \<noteq> None)"

lemma batched_fields [simp]:
  "batched A M (s\<lparr>clock_readings := n\<rparr>) = batched A M s" "batched A M (s\<lparr>prefill_wait_since := w\<rparr>) = batched A M s"
  "batched A M (s\<lparr>requests := (requests s)(r := requests s r\<lparr>status := st\<rparr>)\<rparr>) = batched A M s"
  "batched A M (s\<lparr>requests := (requests s)(r := requests s r\<lparr>num_pending_outputs := k\<rparr>)\<rparr>) = batched A M s"
  "batched A M (s\<lparr>oracle_state := ost\<rparr>) = batched A M s" "batched A M (s\<lparr>async_inflight := i\<rparr>) = batched A M s"
  by (auto simp: batched_def queued_def)

lemma batched_push:
  "batched A M s \<Longrightarrow> batched A (add_mset r M) (s\<lparr>waiting := r # waiting s\<rparr>)" "batched A M s \<Longrightarrow> batched A (add_mset r M) (s\<lparr>decoding := decoding s @ [r]\<rparr>)"
  "batched A M s \<Longrightarrow> batched A (M + mset rs) (s\<lparr>waiting := rs @ waiting s\<rparr>)"
  by (auto simp: batched_def queued_def)

lemma publish_flags_total:
  "(b \<longrightarrow> (\<forall>q \<in> set qs. current_chunk_size q \<noteq> None)) \<Longrightarrow> \<exists>ps. publish_flags b qs = Inr ps \<and> length ps = length qs"
  by (induction qs; cases b) (auto simp: is_last_chunk_prefill_def)

context mark_laws
begin

lemma batched_hook:
  assumes "batched A M s"
  shows "wp (run_hook (complete_prefill_execution (memory_oracle e)) r) (\<lambda>_. batched A M) (\<lambda>_. False) s"
proof -
  obtain y q ost where y: "complete_prefill_execution (memory_oracle e) (requests s r, oracle_state s) = (y, q, ost)" by (rule prod_cases3)
  then show ?thesis using assms complete_keeps_marks [OF y] by (auto simp: wp_def run_hook_def batched_def queued_def)
qed

lemma batched_advance:
  assumes "batched A M s" "r \<in> A"
  shows "wp (on_request r advance_prefill) (\<lambda>_. batched A M) (\<lambda>_. False) s"
  using assms by (auto simp: wp_def on_request_def advance_prefill_def batched_def queued_def split: option.splits)

lemma requeue_one:
  assumes "batched A M s" "b \<Longrightarrow> r \<in> A"
  shows "wp (after_submission e b (r, p)) (\<lambda>_. batched A (if b then add_mset r M else M)) (\<lambda>_. False) s"
proof -
  have rest: "wp (if \<not> b then ret ()
      else oseq (on_request r advance_prefill)
       (obind (reads (\<lambda>s. num_prefilled_tokens (requests s r) < num_prompt_tokens (requests s r))) (\<lambda>more.
        if more
        then oseq (update_request r (\<lambda>q. q\<lparr>status := WAITING\<rparr>))
             (obind monotonic (\<lambda>t. oseq (wait_setdefault r t) (writes (\<lambda>s. s\<lparr>waiting := r # waiting s\<rparr>))))
        else oseq (run_hook (complete_prefill_execution (memory_oracle e)) r)
             (oseq (update_request r (\<lambda>q. q\<lparr>status := RUNNING\<rparr>)) (writes (\<lambda>s. s\<lparr>decoding := decoding s @ [r]\<rparr>))))))
      (\<lambda>_. batched A (if b then add_mset r M else M)) (\<lambda>_. False) t" if "batched A M t" for t
    using assms(2) that
    by (auto intro!: wp_oseq wp_obind wp_reads wp_if wp_ret wp_writes wp_update_request wp_monotonic wp_wait_setdefault batched_push
        wp_conseq [OF batched_advance [where A = A and M = M]] wp_conseq [OF batched_hook [where A = A and M = M]])
  show ?thesis
    unfolding after_submission_def prod.case
    by (rule wp_oseq, rule wp_if; rule wp_update_request wp_ret) (simp_all add: rest assms(1))
qed

lemma requeue_all:
  "batched A M s \<Longrightarrow> (b \<Longrightarrow> fst ` set xs \<subseteq> A)
   \<Longrightarrow> wp (ofor xs (after_submission e b)) (\<lambda>_. batched A (if b then M + mset (map fst xs) else M)) (\<lambda>_. False) s"
proof (induction xs arbitrary: M s)
  case Nil
  then show ?case by (simp add: wp_ret)
next
  case (Cons x xs)
  obtain r p where x: "x = (r, p)" by (cases x)
  have first: "wp (after_submission e b x) (\<lambda>_. batched A (if b then add_mset r M else M)) (\<lambda>_. False) s"
    using Cons.prems unfolding x by (intro requeue_one) auto
  have next_: "wp (ofor xs (after_submission e b)) (\<lambda>_. batched A (if b then M + mset (map fst (x # xs)) else M)) (\<lambda>_. False) t"
    if "batched A (if b then add_mset r M else M) t" for t
    by (rule wp_conseq [OF Cons.IH [OF that]]) (use Cons.prems(2) in \<open>auto simp: x split: if_splits\<close>)
  show ?case unfolding ofor.simps by (rule wp_oseq, rule wp_conseq [OF first], erule next_) simp
qed

end

lemma submit_batch_conserves:
  fixes e :: "('d, 'p, 'o, 'k, 'r) async_env"
  assumes "mark_laws (sched_env e)" "batched (if b then set rs else {}) M (sched s)" "N = (if b then M + mset rs else M)"
  shows "wp (submit_batch e rs b) (\<lambda>_ t. holds_requests N t) (holds_requests N) s"
proof -
  obtain pubs where pubs: "publish_flags b (map (\<lambda>r. execution_snapshot (requests (sched s) r)) rs) = Inr pubs" "length pubs = length rs"
    using publish_flags_total [of b "map (\<lambda>r. execution_snapshot (requests (sched s) r)) rs"] assms(2) by (auto simp: batched_def split: if_splits)
  have loop: "wp (ofor (zip rs pubs) (after_submission (sched_env e) b)) (\<lambda>_. batched (if b then set rs else {}) N) (\<lambda>_. False) t"
    if "batched (if b then set rs else {}) M t" for t
  proof -
    have "fst ` set (zip rs pubs) \<subseteq> set rs" by (auto dest: set_zip_leftD)
    then show ?thesis using mark_laws.requeue_all [OF assms(1) that, of b "zip rs pubs"] pubs(2) by (auto simp: assms(3))
  qed
  have submit: "wp (on_raise (on_runner m) (restore_prefills b rs)) (\<lambda>_ t. batched (if b then set rs else {}) M (sched t)) (holds_requests N) u"
    if "sched u = sched s" for m :: "('d, 'p, 'o, unit) runner_op" and u
  proof -
    have "batched (if b then set rs else {}) M (sched (snd (on_runner m u)))"
      using assms(2) that by (auto simp: on_runner_def split: prod.splits)
    then show ?thesis
      using assms(3) by (auto simp: wp_def on_raise_def restore_prefills_def holds_requests_def batched_def queued_def ac_simps split: prod.splits sum.splits)
  qed
  show ?thesis
    unfolding submit_batch_def
    apply (rule wp_obind, rule wp_reads, rule wp_obind, rule wp_lift)
     apply (unfold pubs(1), drule sum.inject(2) [THEN iffD1], hypsubst)
     apply (rule wp_obind, rule wp_reads, rule wp_oseq, rule wp_writes, rule wp_oseq, rule wp_conseq [OF submit], simp)
      apply (rule wp_oseq, rule wp_on_sched, rule wp_conseq [OF loop], assumption)
       apply (auto intro!: wp_writes simp: holds_requests_def batched_def)
    done
qed

lemma schedule_ahead_step:
  fixes e :: "('d, 'p, 'o, 'k, 'r) async_env"
  assumes "admission_laws (sched_env e)" "holds_requests M s" "distinct (waiting (sched s) @ decoding (sched s))"
  shows "wp (schedule_ahead e) (\<lambda>res t. case res of None \<Rightarrow> holds_requests M t
      | Some (rs, b, pre) \<Rightarrow> \<exists>K. batched (if b then set rs else {}) K (sched t) \<and> M = (if b then K + mset rs else K) \<and> (b \<longrightarrow> pre = []))
    (holds_requests M) s"
proof -
  let ?s = "(sched s)\<lparr>async_inflight := length (pending s)\<rparr>"
  have M: "mset (waiting (sched s) @ decoding (sched s)) = M" "skipped_prefill ?s = []" "distinct (waiting ?s @ decoding ?s)"
    using assms(2,3) by (auto simp: holds_requests_def queued_def)
  have step: "wp (schedule (sched_env e)) (step_ok M) (\<lambda>t. queued t = M \<and> skipped_prefill t = []) ?s"
    using schedule_step [OF M(3,2), of "sched_env e"] M(1) by simp
  have chunks: "current_chunk_size (requests t r) \<noteq> None" if "schedule (sched_env e) ?s = (Inr (rs, True, pre), t)" "r \<in> set rs" for rs pre t r
    using prefill_result(4) [OF assms(1) M(3,2) that(1)] that(2) by (auto simp: chunk_ok_def)
  obtain r t where run: "schedule (sched_env e) ?s = (r, t)" by fastforce
  show ?thesis
  proof (cases r)
    case (Inl err)
    have "holds_requests M (s\<lparr>sched := t\<lparr>async_inflight := 0\<rparr>\<rparr>)"
      using wp_raises [OF step run [unfolded Inl]] by (auto simp: holds_requests_def queued_def)
    then show ?thesis using run Inl by (cases err) (auto simp: wp_def schedule_ahead_def)
  next
    case (Inr res)
    obtain rs b pre where res: "res = (rs, b, pre)" by (rule prod_cases3)
    have ok: "step_ok M (rs, b, pre) t" using wp_returns [OF step run [unfolded Inr]] res by simp
    have "batched (if b then set rs else {}) (queued t) t" using ok chunks run Inr res by (auto simp: batched_def step_ok_def split: if_splits)
    then show ?thesis using run Inr res ok by (auto simp: wp_def schedule_ahead_def step_ok_def split: if_splits)
  qed
qed

text \<open>
  C6. Submission ahead of the device loses no request and duplicates none: whether the batch is submitted, refused, put back
  because it replays, or whether the scheduler, a release or the device raises, every request that was in one of the two
  queues is in exactly one of them afterwards.
\<close>

theorem submission_conserves_requests:
  assumes "admission_laws (sched_env e)" "mark_laws (sched_env e)" "distinct (waiting (sched s) @ decoding (sched s))"
    "skipped_prefill (sched s) = []" "submit_step e s = (x, t)"
  shows "mset (waiting (sched t)) + mset (decoding (sched t)) = mset (waiting (sched s)) + mset (decoding (sched s))"
proof -
  define M where "M = queued (sched s)"
  have s: "holds_requests M s" using assms(4) by (simp add: holds_requests_def M_def)
  have release: "wp (release_preempted_sequences e ids) (\<lambda>_ u. batched A K (sched u)) (\<lambda>u. batched A K (sched u)) u"
    if "batched A K (sched u)" for ids A K u
    unfolding release_preempted_sequences_def with_release_def
    using that by (intro wp_if wp_ret wp_oseq wp_writes wp_on_runner wpI) simp_all
  have rest: "wp (oseq (release_preempted_sequences e pre)
       (if rs = [] then ret False
        else obind (reads (\<lambda>s. any_replay (sched s) rs)) (\<lambda>replay.
          if replay then oseq (writes (restore_prefills b rs)) (ret False)
          else oseq (submit_batch e rs b) (ret True)))) (\<lambda>_. holds_requests M) (holds_requests M) u"
    if u: "batched (if b then set rs else {}) K (sched u)" "M = (if b then K + mset rs else K)" "b \<longrightarrow> pre = []" for rs b pre K u
  proof -
    have none: "wp (release_preempted_sequences e pre) (\<lambda>_ v. batched (if b then set rs else {}) K (sched v)) (holds_requests M) u"
    proof (cases b)
      case True
      then show ?thesis using u by (simp add: release_preempted_sequences_def wp_ret)
    next
      case False
      show ?thesis by (rule wp_conseq [OF release [OF u(1)]]) (use False u(2) in \<open>auto simp: holds_requests_def batched_def\<close>)
    qed
    have batch: "wp (submit_batch e rs b) (\<lambda>_. holds_requests M) (holds_requests M) v" if "batched (if b then set rs else {}) K (sched v)" for v
      by (rule submit_batch_conserves [OF assms(2) that u(2)])
    have restored: "holds_requests M (restore_prefills b rs v)" "rs = [] \<Longrightarrow> holds_requests M v"
      if "batched (if b then set rs else {}) K (sched v)" for v
      using that u(2) by (auto simp: holds_requests_def restore_prefills_def batched_def queued_def ac_simps split: if_splits)
    show ?thesis
      by (rule wp_oseq, rule wp_conseq [OF none])
         (auto intro!: wp_if wp_ret wp_obind wp_reads wp_oseq wp_writes wp_conseq [OF batch] restored simp del: if_split)
  qed
  have chosen: "wp (case res of None \<Rightarrow> ret False | Some (rs, b, pre) \<Rightarrow> oseq (release_preempted_sequences e pre)
       (if rs = [] then ret False
        else obind (reads (\<lambda>s. any_replay (sched s) rs)) (\<lambda>replay.
          if replay then oseq (writes (restore_prefills b rs)) (ret False)
          else oseq (submit_batch e rs b) (ret True)))) (\<lambda>_. holds_requests M) (holds_requests M) u"
    if "case res of None \<Rightarrow> holds_requests M u
      | Some (rs, b, pre) \<Rightarrow> \<exists>K. batched (if b then set rs else {}) K (sched u) \<and> M = (if b then K + mset rs else K) \<and> (b \<longrightarrow> pre = [])" for res u
  proof (cases res)
    case None
    then show ?thesis using that by (simp add: wp_ret)
  next
    case (Some y)
    obtain rs b pre where y: "y = (rs, b, pre)" by (rule prod_cases3)
    from that obtain K where "batched (if b then set rs else {}) K (sched u)" "M = (if b then K + mset rs else K)" "b \<longrightarrow> pre = []"
      unfolding Some y option.case prod.case by blast
    from rest [OF this] show ?thesis unfolding Some y option.case prod.case .
  qed
  have "wp (submit_step e) (\<lambda>_. holds_requests M) (holds_requests M) s"
    unfolding submit_step_def
    by (rule wp_obind, rule wp_reads, rule wp_if, simp add: wp_ret s, rule wp_obind, rule wp_conseq [OF schedule_ahead_step [OF assms(1) s assms(3)]])
       (rule chosen)
  then have "holds_requests M t" using assms(5) by (cases x) (auto simp: wp_def)
  then show ?thesis using assms(4) by (auto simp: holds_requests_def M_def queued_def)
qed

text \<open>A device without streams refuses the first submission: the request is back in the waiting queue.\<close>

definition stuck_env :: "(nat, unit, int base_state runtime, unit, nat + nat) async_env" where
  "stuck_env = echo_env\<lparr>dev := (dev echo_env)\<lparr>supports_streams := False\<rparr>\<rparr>"

definition stuck_state :: "(nat, unit, int base_state runtime) async_engine" where
  "stuck_state = snd (submit_step stuck_env echo_queued)"

lemma stuck_run:
  "fst (submit_step stuck_env echo_queued) = Inl (ValueError ''Asynchronous execution currently requires CUDA'')"
  "execution (runner stuck_state) = None" "waiting (sched echo_queued) = [1]" "decoding (sched echo_queued) = []"
  "skipped_prefill (sched echo_queued) = []"
  by (simp_all add: stuck_state_def stuck_env_def restore_prefills_def async_run_defs tiny_run sched_run cong: obind_lazy oseq_lazy)

theorem submission_conserves_requests_witness:
  "fst (submit_step stuck_env echo_queued) = Inl (ValueError ''Asynchronous execution currently requires CUDA'')
   \<and> mset (waiting (sched stuck_state)) + mset (decoding (sched stuck_state)) = {#1#}"
proof -
  have env: "sched_env stuck_env = tiny_engine" "sched_env echo_env = tiny_engine" by (simp_all add: stuck_env_def echo_env_def async_base_def)
  have "mark_laws (sched_env echo_env)" using echo_laws by (simp add: pipeline_laws_def)
  then have laws: "admission_laws (sched_env stuck_env)" "mark_laws (sched_env stuck_env)"
    using base_engine.admission_laws_axioms by (simp_all add: env)
  have "submit_step stuck_env echo_queued = (fst (submit_step stuck_env echo_queued), stuck_state)" by (simp add: stuck_state_def)
  from submission_conserves_requests [OF laws _ _ this] stuck_run show ?thesis by simp
qed

section \<open>Retirement before the first submission\<close>

lemma retire_without_execution:
  assumes "execution w = None"
  shows "\<exists>err u. retire_async v ids (w, ost) = (Inl err, u) \<and> execution (fst u) = None"
proof -
  define none :: "('a, 'b) model_runner \<times> 'c \<Rightarrow> bool" where "none u \<longleftrightarrow> execution (fst u) = None" for u
  have basic: "keeps none (on_device m)" "keeps none (if_execution k)" "keeps none (release_runtime_slots_once v r)" for m k r
    by (auto simp: keeps_def none_def on_device_def if_execution_def obind_def reads_def ret_def release_runtime_slots_once_def
        split: prod.splits option.splits sum.splits release_state.splits)
  have fin: "keeps none (finish_slots_batch_local v ids)"
    unfolding finish_slots_batch_local_def free_slots_batch_local_def assert_cache_release_def by (intro keeps_intro basic)
  obtain res u where run: "finish_slots_batch_local v ids (w, ost) = (res, u)" by (rule prod.exhaust)
  have u: "execution (fst u) = None" using keepsE [OF fin run] assms by (simp add: none_def)
  show ?thesis using run u by (cases res; cases u) (auto simp: retire_async_def oseq_def obind_def on_execution_def)
qed

text \<open>
  C39. Retirement before the first submission cannot succeed: as long as the worker has no asynchronous execution, retiring a
  request raises, the request stays to be retired, its release stays pending, and from then on the engine refuses to step.
\<close>

theorem retire_before_submission_fails:
  assumes "execution (runner s) = None" "retiring s - referenced s \<noteq> {}"
  shows "\<exists>err t. retire_ready e s = (Inl err, t) \<and> execution (runner t) = None \<and> retiring t = retiring s \<and> pending t = pending s
    \<and> fst (engine_step e t) = Inl (RuntimeError ''Cannot continue scheduling while cache release responsibility is pending'')"
proof -
  let ?ready = "retiring s - referenced s"
  obtain err u where u: "retire_async (dev e) (sorted_list_of_set ?ready) (runner s, oracle_state (sched s)) = (Inl err, u)" "execution (fst u) = None"
    using retire_without_execution [OF assms(1)] by metis
  let ?t = "s\<lparr>pending_slot_releases := pending_slot_releases s \<union> ?ready, runner := fst u, sched := (sched s)\<lparr>oracle_state := snd u\<rparr>\<rparr>"
  have "retire_ready e s = (Inl err, ?t)"
    using assms(2) u(1)
    by (cases u) (simp add: retire_ready_def with_release_def on_runner_def obind_def oseq_def reads_def writes_def)
  moreover have "fst (engine_step e ?t) = Inl (RuntimeError ''Cannot continue scheduling while cache release responsibility is pending'')"
    using assms(2) by (auto simp: engine_step_def obind_def reads_def raise_error_def)
  ultimately show ?thesis using u(2) by (intro exI [of _ err] exI [of _ ?t]) simp
qed

theorem retire_before_submission_fails_witness:
  "retiring (stuck_state\<lparr>retiring := {1}\<rparr>) - referenced (stuck_state\<lparr>retiring := {1}\<rparr>) \<noteq> {}
   \<and> (\<exists>err t. retire_ready stuck_env (stuck_state\<lparr>retiring := {1}\<rparr>) = (Inl err, t)
        \<and> fst (engine_step stuck_env t) = Inl (RuntimeError ''Cannot continue scheduling while cache release responsibility is pending''))"
proof -
  have "pending stuck_state = []"
    by (simp add: stuck_state_def stuck_env_def restore_prefills_def async_run_defs tiny_run sched_run cong: obind_lazy oseq_lazy)
  then have "retiring (stuck_state\<lparr>retiring := {1}\<rparr>) - referenced (stuck_state\<lparr>retiring := {1}\<rparr>) \<noteq> {}" by (simp add: referenced_def)
  with retire_before_submission_fails [of "stuck_state\<lparr>retiring := {1}\<rparr>" stuck_env] stuck_run(2) show ?thesis by (simp; blast)
qed

text \<open>The request of the refused submission is cancelled: the worker raises, and the release stays pending.\<close>

theorem cancel_refused_submission:
  "fst (async_abort stuck_env 1 stuck_state) = Inl (AttributeError ''_async_execution'')"
  "pending_slot_releases (snd (async_abort stuck_env 1 stuck_state)) = {1}"
  by (simp_all add: async_abort_def abort_request_def abort_many_def abort_queue_def set_queue_def get_queue_def may_own_slots_def mark_retiring_def
      with_release_def retire_async_def finish_slots_batch_local_def free_slots_batch_local_def assert_cache_release_def if_execution_def
      release_runtime_slots_once_def rt_free_seq_def try_finally_def stuck_state_def stuck_env_def restore_prefills_def async_run_defs tiny_run sched_run cong: obind_lazy oseq_lazy)

end
