(* ===== verification/Spec2Isabelle.thy ===== *)
theory Spec2Isabelle
  imports Prefix_Use Prefix_Capacity Chain_Runtime Chain_History Prefix_Prune Async_Serving
begin

text \<open>
  Verification of the host-side core of the serving engine: the radix prefix cache, the chain cache,
  the requests, the scheduler, the asynchronous pipeline and the runtime state (\<^verbatim>\<open>src/src/sparseengine/engine\<close>).

  \<^bold>\<open>The program.\<close>  The engine serves language-model requests.  A request is a \<open>Sequence\<close>
  (\<^verbatim>\<open>engine/sequence.py\<close>) built from a prompt and \<open>SamplingParams\<close> (\<^verbatim>\<open>sampling_params.py\<close>).
  The \<open>Scheduler\<close> (\<^verbatim>\<open>engine/scheduler.py\<close>) holds the requests in a waiting and a decoding queue and
  decides in every step which prompt chunks or which decode tokens run; it asks the memory oracle
  (protocol \<open>MemoryOracle\<close> of \<^verbatim>\<open>engine/runtime_state.py\<close>) for capacity, preempts requests when the KV
  cache is full, and restarts them as a recompute replay.  The prefix cache
  (\<^verbatim>\<open>engine/prefix_cache.py\<close>) indexes KV blocks by a chain of hashes in a radix tree, so that prompts
  with a common prefix share blocks; blocks live on the device, on the host or on both, and are
  copied, demoted and evicted.  The chain cache (\<^verbatim>\<open>engine/chain_cache.py\<close>) serves sparse methods, whose KV cannot be
  shared by prefix: a conversation keeps its KV between turns as a chain with one owner, on the device, as a
  snapshot on the host (\<^verbatim>\<open>engine/cache_manager/chain_offload.py\<close>), or both.

  \<^bold>\<open>Theories.\<close>
  \<^item> \<open>Prelude\<close>: exceptions as a datatype, fallible computations as sums, insertion-ordered
    dictionaries, generic list lemmas.  \<open>State_Result\<close>: methods that change an object and may raise,
    as functions from the state to the result and the state left behind; invariance by composition.
  \<^item> \<open>Block_Ids\<close>: block ids, usable prefix, block size (\<open>_stable_prefix_block_id\<close> and around).
    SHA-256 is a parameter.
  \<^item> \<open>Routing_Membership\<close>: the persistent AVL set of live ids and routing snapshots.
  \<^item> \<open>Radix_Tree\<close>, \<open>Radix_Spec\<close>: \<open>RadixTreeBackend\<close> as an explicit store of nodes, and its refinement
    of a parent map on blocks.
  \<^item> \<open>Prefix_Index\<close>, \<open>Prefix_Eviction\<close>, \<open>Prefix_Commit\<close>, \<open>Prefix_Control\<close>: \<open>PrefixCacheIndex\<close>, its
    eviction and demotion loops, commits, and control operations; \<open>Freeable_Spec\<close>, \<open>Prefix_Freeable\<close>,
    \<open>Prefix_Invariant\<close>: what its incremental freeable set means, and the invariant \<open>index_ok\<close>;
    \<open>Prefix_Reach\<close>: every sequence of public calls keeps \<open>index_ok\<close>, also when calls raise;
    \<open>Prefix_Capacity\<close>, \<open>Prefix_Use\<close>: what the operations do to the set of indexed blocks.
  \<^item> \<open>Sequences\<close>: sampling parameters, penalty token history with its device buffer, requests, replay
    and wire format.
  \<^item> \<open>Scheduler\<close>: all methods of the scheduler.  Request ids stand for the request objects, whose heap
    is part of the state; the oracle is a record of functions that may raise and change their own
    state and read the requests, and hooks may also change the requests they get.  \<open>Scheduler_Queues\<close>:
    rules for outcomes of methods, and that no step loses or duplicates a request.
    \<open>Scheduler_Batches\<close>: what a batch looks like (limits, chunks, isolation of replays), for every
    oracle with the laws of the locale \<open>admission_laws\<close>.  \<open>Scheduler_Requests\<close>: cancellation, the
    bookkeeping after a decode step, preemption.
  \<^item> \<open>Decode_Windows\<close>: decode reservations (\<^verbatim>\<open>engine/cache_manager/decode_reservation.py\<close>) for every
    cost hook with the laws of the locale \<open>window_costs\<close>.  \<open>Page_Pool\<close>: the page pool of the quantized
    cache (\<^verbatim>\<open>engine/cache_manager/quantized_pages.py\<close>) and the cost hooks of five cache managers, each
    an instance of \<open>window_costs\<close>.
  \<^item> \<open>Cache_Manager\<close>: the scheduler hooks of the cache managers as a record, and their defaults
    (\<^verbatim>\<open>engine/cache_manager/base.py\<close>).  \<open>Runtime_State\<close>: the runtime state behind the memory oracle
    (\<^verbatim>\<open>engine/runtime_state.py\<close>): capacities after decode reservations, admission budgets and prices,
    the resident set, decode windows, release; the coordinators of the prefix and the chain cache
    and the recurrent state manager are records of functions that may raise.
  \<^item> \<open>Scheduler_Residency\<close>: the scheduler never admits more than the budget it was given, for every
    oracle with the laws of \<open>residency_laws\<close>.  \<open>Runtime_Laws\<close>: the runtime state satisfies both contracts
    of the scheduler (sublocales, interpreted on the base manager), and an engine that serves
    requests keeps its resident set within bounds.
  \<^item> \<open>Chain_Index\<close>: \<open>ChainCacheIndex\<close>; \<open>Chain_Lifecycle\<close>: its invariant \<open>chain_ok\<close>, kept by every operation also when it
    raises; \<open>Chain_Turns\<close>: reachable states, which chains an admission evicts, when a turn may resume, agreement of the
    ranks.  \<open>Chain_Offload\<close>: the bookkeeping of host snapshots and its invariant \<open>offload_ok\<close>.
    \<open>Chain_Coordinator\<close>: \<open>ChainCacheCoordinator\<close>, where the hooks of the cache manager are optional operations on the payload;
    \<open>Chain_Backing\<close>: its two invariants, of which \<open>backed\<close> says that an idle chain without device rows has a valid snapshot;
    \<open>Chain_History\<close>: token histories on their way between ranks.  \<open>Chain_Runtime\<close>: the chain methods of the runtime
    state with their rollbacks (for a runtime that has a chain coordinator; without one each of them raises at once), the rules
    for outcomes of methods with handlers, and the invariants of a runtime that serves chains.
  \<^item> \<open>Prefix_Prune\<close>: the validation of pruning requests and the selection of the tokens and blocks that are kept
    (\<^verbatim>\<open>engine/prefix_prune.py\<close>).
  \<^item> \<open>Async_Execution\<close>: the results of the device that have not been read yet, device feedback, and the model runner methods that submit,
    collect, retire and release (\<^verbatim>\<open>engine/async_scheduling/execution.py\<close>, \<^verbatim>\<open>engine/model_runner.py\<close>), on one rank.
    \<open>Async_Scheduler\<close>: \<open>AsyncScheduler\<close> (\<^verbatim>\<open>engine/async_scheduling/scheduler.py\<close>) with the engine's \<open>step\<close> and
    \<open>_step_sync\<close>; the state joins scheduler, model runner and engine.  \<open>Async_Marks\<close>: the scheduler never touches the
    outputs in flight of a request (locale \<open>mark_laws\<close>).  \<open>Async_Pipeline\<close>: the invariant of the pipeline, kept by every method for
    every device with the laws of \<open>pipeline_laws\<close>.  \<open>Async_Serving\<close>: the runtime state satisfies these laws (sublocales, interpreted
    on the base manager and an arbitrary sampler), reachable engines, conservation of requests by submission, and the failure of
    retirement before the first submission.

  \<^bold>\<open>Loops and fuel.\<close>  Loops with a bound in the code (the scan budgets of the scheduler, queues that
  shrink) are recursions on that bound.  The loops of the prefix cache that follow links carry fuel:
  the number of nodes or blocks of the store plus one, and the theorems on well-formed states
  show that it suffices, since the value \<open>NonTermination\<close> is never returned.

  \<^bold>\<open>Numbers.\<close>  Python integers are \<open>int\<close>; token ids are packed into 32-bit words as \<open>struct.pack\<close> does,
  with its error out of range.  Floating point parameters are rationals with infinities and NaN;
  times are rationals.

  \<^bold>\<open>Not modelled.\<close>  Debug logging; the bulk insertion of the radix backend; the texts of error messages beyond their
  fixed part; the configuration fingerprint and random ids of chains; the status exchange of tensor parallel ranks, host buffers, streams and the
  penalty arithmetic of asynchronous execution; the job records and the scores of prefix pruning; the cache managers, model runner, kernels, layers and
  models, which compute on devices and appear through the hooks of the cache manager; configuration, entry points
  and benchmarks.
\<close>

end
